(* ===== verification/Prelude.thy ===== *)
theory Prelude
  imports Main "HOL-Library.Word"
begin

text \<open>
  What every component shares: the faults of C that the model makes visible (an operation that would
  read or write outside an object, dereference a null or freed pointer, or pass a negative size is a
  value \<open>Inl fault\<close> of the result), buffers written by index, the library functions of C that the
  sources call (\<open>memcpy\<close>, \<open>sprintf\<close> of an integer, \<open>atoi\<close>, \<open>strtol\<close>), and generic lemmas.
\<close>

unbundle bit_operations_syntax

named_theorems c_defs \<open>definitions of the C primitives, for unfolding\<close>

section \<open>Machine types and faults\<close>

type_synonym byte = "8 word"
type_synonym u8 = "8 word"
type_synonym u16 = "16 word"
type_synonym u32 = "32 word"

datatype c_fault =
    NullDeref
  | UseAfterFree
  | BufferOverflow
  | NegativeSize
  | AssertFail
  | Abort            \<comment> \<open>a call of \<open>abort\<close>\<close>
  | Hang             \<comment> \<open>a loop that does not end\<close>

type_synonym 'a result = "c_fault + 'a"

definition bindE :: "'a result \<Rightarrow> ('a \<Rightarrow> 'b result) \<Rightarrow> 'b result" where
  "bindE r f = (case r of Inl e \<Rightarrow> Inl e | Inr x \<Rightarrow> f x)"

lemma bindE_simps [simp]:
  "bindE (Inl e) f = Inl e"
  "bindE (Inr x) f = f x"
  by (simp_all add: bindE_def)

lemma bindE_Inr_iff: "bindE r f = Inr y \<longleftrightarrow> (\<exists>x. r = Inr x \<and> f x = Inr y)"
  by (cases r) auto

lemma bindE_assoc: "bindE (bindE r f) g = bindE r (\<lambda>x. bindE (f x) g)"
  by (cases r) auto

section \<open>Pointers that are allocated, used and freed\<close>

text \<open>
  A pointer field that a handler allocates with \<open>calloc\<close> and frees itself: null, live with the object
  it points to, or dangling after \<open>free\<close> (the handlers do not reset the field).
\<close>

datatype 'a cptr = PNull | PLive 'a | PDangling

fun deref :: "'a cptr \<Rightarrow> 'a result" where
  "deref PNull = Inl NullDeref"
| "deref (PLive x) = Inr x"
| "deref PDangling = Inl UseAfterFree"

section \<open>Buffers\<close>

definition memcpy_at :: "'a list \<Rightarrow> int \<Rightarrow> 'a list \<Rightarrow> int \<Rightarrow> 'a list result" where
  \<comment> \<open>\<open>memcpy(&dst[off], src, n)\<close>\<close>
  "memcpy_at dst off src n =
     (if n < 0 then Inl NegativeSize
      else if off < 0 \<or> int (length dst) < off + n \<or> int (length src) < n then Inl BufferOverflow
      else Inr (take (nat off) dst @ take (nat n) src @ drop (nat off + nat n) dst))"

lemma memcpy_at_Inr:
  assumes "0 \<le> n" "0 \<le> off" "off + n \<le> int (length dst)" "n \<le> int (length src)"
  shows "memcpy_at dst off src n =
    Inr (take (nat off) dst @ take (nat n) src @ drop (nat off + nat n) dst)"
  using assms by (simp add: memcpy_at_def)

lemma memcpy_at_length:
  assumes "memcpy_at dst off src n = Inr d"
  shows "length d = length dst"
  using assms by (auto simp: memcpy_at_def split: if_splits)

section \<open>Decimal and hexadecimal text\<close>

text \<open>\<open>sprintf\<close> with \<open>%d\<close>, and with \<open>%X\<close> on a non-negative value.\<close>

definition digit_char :: "nat \<Rightarrow> char" where
  "digit_char d = (if d < 10 then char_of (48 + d) else char_of (55 + d))"

fun text_of_nat_base :: "nat \<Rightarrow> nat \<Rightarrow> string" where
  "text_of_nat_base b n =
     (if b < 2 \<or> n < b then [digit_char n]
      else text_of_nat_base b (n div b) @ [digit_char (n mod b)])"

declare text_of_nat_base.simps [simp del]

definition fmt_d :: "int \<Rightarrow> string" where
  "fmt_d i = (if i < 0 then CHR ''-'' # text_of_nat_base 10 (nat (- i))
              else text_of_nat_base 10 (nat i))"

definition fmt_X :: "nat \<Rightarrow> string" where
  "fmt_X n = text_of_nat_base 16 n"

lemma text_of_nat_base_length_gen:
  assumes "n < b ^ k" "0 < k" "2 \<le> b"
  shows "length (text_of_nat_base b n) \<le> k"
  using assms
proof (induction k arbitrary: n)
  case 0
  then show ?case by simp
next
  case (Suc k)
  show ?case
  proof (cases "n < b")
    case True
    then show ?thesis by (subst text_of_nat_base.simps) simp
  next
    case False
    with Suc.prems have "n div b < b ^ k" by (simp add: div_less_iff_less_mult mult.commute)
    moreover from this False Suc.prems have "0 < k" by (cases k) auto
    ultimately have "length (text_of_nat_base b (n div b)) \<le> k" using Suc.prems(3) by (rule Suc.IH)
    with False Suc.prems(3) show ?thesis by (subst text_of_nat_base.simps) simp
  qed
qed

lemma text_of_nat_base_length:
  assumes "n < 10 ^ k" "0 < k"
  shows "length (text_of_nat_base 10 n) \<le> k"
  by (rule text_of_nat_base_length_gen [OF assms]) simp

lemma fmt_X_length: "length (fmt_X (unat (v :: u32))) \<le> 8"
proof -
  have "unat v < 2 ^ LENGTH(32)" by (rule unsigned_less)
  then have "unat v < 2 ^ 32" by simp
  also have "(2 :: nat) ^ 32 = 16 ^ 8" by simp
  finally show ?thesis unfolding fmt_X_def by (rule text_of_nat_base_length_gen) simp_all
qed

lemma fmt_d_length:
  assumes "- (2 ^ 31) \<le> i" "i < 2 ^ 31"
  shows "length (fmt_d i) \<le> 11"
proof -
  from assms have "nat \<bar>i\<bar> < 10 ^ 10" by auto
  then have "length (text_of_nat_base 10 (nat \<bar>i\<bar>)) \<le> 10"
    by (rule text_of_nat_base_length) simp
  then show ?thesis by (auto simp: fmt_d_def abs_if split: if_splits)
qed

definition in_buffer :: "nat \<Rightarrow> string \<Rightarrow> string result" where
  \<comment> \<open>the text with its terminator, written into a buffer of this size\<close>
  "in_buffer n s = (if length s + 1 \<le> n then Inr s else Inl BufferOverflow)"

lemma div_radix_shrinks: "2 \<le> (b::nat) \<Longrightarrow> b \<le> n \<Longrightarrow> n div b < n"
  by (rule div_less_dividend) auto

section \<open>atoi and strtol\<close>

text \<open>
  White space as in the C locale; \<open>long\<close> is 32 bits wide on this processor, and the conversion
  saturates.
\<close>

definition isspace :: "char \<Rightarrow> bool" where
  "isspace c \<longleftrightarrow> of_char c = (32::nat) \<or> (9 \<le> (of_char c :: nat) \<and> of_char c \<le> (13::nat))"

definition digit_val :: "char \<Rightarrow> nat option" where
  "digit_val c =
     (let n = (of_char c :: nat) in
      if 48 \<le> n \<and> n \<le> 57 then Some (n - 48)
      else if 97 \<le> n \<and> n \<le> 122 then Some (n - 87)
      else if 65 \<le> n \<and> n \<le> 90 then Some (n - 55)
      else None)"

fun digits_val :: "nat \<Rightarrow> nat \<Rightarrow> string \<Rightarrow> nat" where
  "digits_val b acc [] = acc"
| "digits_val b acc (c # cs) =
     (case digit_val c of
        None \<Rightarrow> acc
      | Some d \<Rightarrow> if d < b then digits_val b (acc * b + d) cs else acc)"

definition saturate32 :: "int \<Rightarrow> int" where
  "saturate32 i = max (- (2 ^ 31)) (min (2 ^ 31 - 1) i)"

definition has_hex_prefix :: "string \<Rightarrow> bool" where
  "has_hex_prefix s \<longleftrightarrow>
     (case s of
        z # x # d # _ \<Rightarrow> z = CHR ''0'' \<and> (x = CHR ''x'' \<or> x = CHR ''X'')
                          \<and> (case digit_val d of None \<Rightarrow> False | Some v \<Rightarrow> v < 16)
      | _ \<Rightarrow> False)"

definition strtol_unsigned :: "nat \<Rightarrow> string \<Rightarrow> nat" where
  "strtol_unsigned base s =
     (if base = 0 then
        (if has_hex_prefix s then digits_val 16 0 (drop 2 s)
         else if s \<noteq> [] \<and> hd s = CHR ''0'' then digits_val 8 0 s
         else digits_val 10 0 s)
      else digits_val base 0 s)"

definition strtol :: "nat \<Rightarrow> string \<Rightarrow> int" where
  "strtol base s =
     (case dropWhile isspace s of
        [] \<Rightarrow> 0
      | c # cs \<Rightarrow>
          if c = CHR ''-'' then saturate32 (- int (strtol_unsigned base cs))
          else if c = CHR ''+'' then saturate32 (int (strtol_unsigned base cs))
          else saturate32 (int (strtol_unsigned base (c # cs))))"

definition atoi :: "string \<Rightarrow> int" where
  "atoi s = strtol 10 s"

lemma strtol_range: "- (2 ^ 31) \<le> strtol b s \<and> strtol b s < 2 ^ 31"
  by (auto simp: strtol_def saturate32_def split: list.splits)

lemma atoi_range: "- (2 ^ 31) \<le> atoi s \<and> atoi s < 2 ^ 31"
  using strtol_range by (simp add: atoi_def)

section \<open>Generic lemmas\<close>

lemma take_append_drop_mid:
  "a \<le> b \<Longrightarrow> take a xs @ take (b - a) (drop a xs) = take b xs"
  by (metis le_add_diff_inverse take_add)

lemma nat_min_1024: "nat (min 1024 i) = min 1024 (nat i)"
  by (auto simp: min_def)

lemma sorted_wrt_snocI:
  "sorted_wrt P xs \<Longrightarrow> (\<And>x. x \<in> set xs \<Longrightarrow> P x y) \<Longrightarrow> sorted_wrt P (xs @ [y])"
  by (simp add: sorted_wrt_append)

lemma and_mask_int: "(x::int) AND (2 ^ n - 1) = x mod 2 ^ n"
  by (simp add: take_bit_eq_mask[symmetric] mask_eq_exp_minus_1[symmetric] take_bit_eq_mod)

end
