(* ===== verification/Http_Api.thy ===== *)
theory Http_Api
  imports Prelude
begin

text \<open>
  The code the chooser calls that is not in this repository: the web server (libesphttpd, a
  submodule), the application file system (appfs), non-volatile storage and the flash driver.
  The calls that only produce output are recorded, in order, in the world's \<open>w_out\<close> list. The calls
  that return something are functions of the record \<open>ext\<close>, which every handler takes as an argument:
  nothing is assumed about them here.
\<close>

section \<open>Recorded calls\<close>

datatype http_call =
    StartResponse int                 \<comment> \<open>httpdStartResponse\<close>
  | Header string string              \<comment> \<open>httpdHeader\<close>
  | EndHeaders                        \<comment> \<open>httpdEndHeaders\<close>
  | SendText string                   \<comment> \<open>httpdSend with length -1, a C string\<close>
  | SendData "byte list"              \<comment> \<open>httpdSend with a length\<close>

datatype cgi_ret = HTTPD_CGI_MORE | HTTPD_CGI_DONE

section \<open>External functions\<close>

type_synonym esp_err = int

definition ESP_OK :: esp_err where
  "ESP_OK = 0"

type_synonym appfs_fd = int

definition APPFS_INVALID_FD :: appfs_fd where
  "APPFS_INVALID_FD = - 1"

record 'fs ext =
  httpdFindArg :: "string \<Rightarrow> string \<Rightarrow> string \<Rightarrow> int \<Rightarrow> int \<times> string"
    \<comment> \<open>argument line, name, old buffer, buffer size: length (or -1) and new buffer\<close>
  appfsCreateFile :: "string \<Rightarrow> int \<Rightarrow> 'fs \<Rightarrow> (esp_err \<times> appfs_fd) \<times> 'fs"
  appfsErase :: "appfs_fd \<Rightarrow> int \<Rightarrow> int \<Rightarrow> 'fs \<Rightarrow> esp_err \<times> 'fs"
  appfsWrite :: "appfs_fd \<Rightarrow> int \<Rightarrow> byte list \<Rightarrow> 'fs \<Rightarrow> esp_err \<times> 'fs"
  appfsRename :: "string \<Rightarrow> string \<Rightarrow> 'fs \<Rightarrow> esp_err \<times> 'fs"
  appfsDeleteFile :: "string \<Rightarrow> 'fs \<Rightarrow> esp_err \<times> 'fs"
  appfsNextEntry :: "'fs \<Rightarrow> appfs_fd \<Rightarrow> appfs_fd"
  appfsFdValid :: "'fs \<Rightarrow> int \<Rightarrow> bool"
  appfsEntryInfo :: "'fs \<Rightarrow> appfs_fd \<Rightarrow> string \<times> int"
  appfsRead :: "'fs \<Rightarrow> appfs_fd \<Rightarrow> int \<Rightarrow> int \<Rightarrow> byte list"
  appfsGetFreeMem :: "'fs \<Rightarrow> int"
  spiFlashRead :: "'fs \<Rightarrow> int \<Rightarrow> int \<Rightarrow> byte list"
  nvsOpen :: "string \<Rightarrow> 'fs \<Rightarrow> (esp_err \<times> int) \<times> 'fs"
  nvsEraseAll :: "int \<Rightarrow> 'fs \<Rightarrow> 'fs"
  nvsCommit :: "int \<Rightarrow> 'fs \<Rightarrow> 'fs"
  nvsClose :: "int \<Rightarrow> 'fs \<Rightarrow> 'fs"

section \<open>The world a handler changes, and its connection\<close>

record 'fs world =
  w_fs :: 'fs
  w_out :: "http_call list"
  w_blocks :: int
    \<comment> \<open>heap blocks the handlers allocated and have not freed\<close>

definition emit :: "http_call list \<Rightarrow> 'fs world \<Rightarrow> 'fs world" where
  "emit cs w = w\<lparr>w_out := w_out w @ cs\<rparr>"

record 'st conn =
  connected :: bool
    \<comment> \<open>\<open>connData->conn != NULL\<close>\<close>
  getArgs :: string
  cgiData :: "'st cptr"
  post_buff :: "byte list"
    \<comment> \<open>the first \<open>buffLen\<close> bytes of \<open>connData->post->buff\<close>\<close>
  post_len :: int
  post_received :: int

lemma emit_simps [simp]:
  "w_fs (emit cs w) = w_fs w"
  "w_blocks (emit cs w) = w_blocks w"
  "w_out (emit cs w) = w_out w @ cs"
  by (simp_all add: emit_def)

lemma emit_emit [simp]: "emit cs (emit ds w) = emit (ds @ cs) w"
  by (simp add: emit_def)

text \<open>What every handler does first: a closed connection frees the state it finds.\<close>

definition free_cptr :: "'st cptr \<Rightarrow> 'fs world \<Rightarrow> ('st cptr \<times> 'fs world) result" where
  "free_cptr p w =
     (case p of
        PNull \<Rightarrow> Inr (PNull, w)
      | PLive _ \<Rightarrow> Inr (PDangling, w\<lparr>w_blocks := w_blocks w - 1\<rparr>)
      | PDangling \<Rightarrow> Inl UseAfterFree)"

definition cgi_aborted ::
  "'st conn \<Rightarrow> 'fs world \<Rightarrow> (cgi_ret \<times> 'st conn \<times> 'fs world) result" where
  "cgi_aborted c w =
     bindE (free_cptr (cgiData c) w)
       (\<lambda>(p, w'). Inr (HTTPD_CGI_DONE, c\<lparr>cgiData := p\<rparr>, w'))"

end
