(* ===== verification/Upload_Cgi.thy ===== *)
theory Upload_Cgi
  imports Http_Api
begin

text \<open>
  \<open>cgiUploadFile\<close> of \<open>main/cgiappfs.c\<close>: the handler that receives a file in a POST body, piece by
  piece, collects it into pages and writes the pages to a temporary file, which it renames at the
  end. The loop over one piece is \<open>upload_loop\<close>, its body \<open>upload_iter\<close>.
\<close>

section \<open>State\<close>

definition PAGELEN :: int where
  "PAGELEN = 4096 * 4"

definition SPI_FLASH_ERASE_SIZE :: int where
  "SPI_FLASH_ERASE_SIZE = 32768"

definition UPLOAD_TEMP_NAME :: string where
  "UPLOAD_TEMP_NAME = ''__upload_temp_file__.tmp''"

datatype flst = FLST_START | FLST_WRITE | FLST_DONE | FLST_ERROR

record upload_state =
  us_fd :: appfs_fd
  us_state :: flst
  us_filetype :: int
  us_flashPos :: int
  us_pageData :: "byte list"
  us_pagePos :: int
  us_address :: int
  us_len :: int
  us_err :: string
  us_name :: string

text \<open>\<open>calloc\<close> clears the structure; the handler then sets \<open>err\<close>.\<close>

definition upload_init :: upload_state where
  "upload_init =
     \<lparr>us_fd = 0, us_state = FLST_START, us_filetype = 0, us_flashPos = 0,
      us_pageData = replicate (nat PAGELEN) 0, us_pagePos = 0, us_address = 0, us_len = 0,
      us_err = ''Premature end'', us_name = ''''\<rparr>"

section \<open>The loop\<close>

definition upload_start ::
  "'fs ext \<Rightarrow> upload_state conn \<Rightarrow> upload_state \<Rightarrow> 'fs \<Rightarrow> upload_state \<times> 'fs" where
  "upload_start x c st f =
     (let (n, name) = httpdFindArg x (getArgs c) ''name'' (us_name st) 512;
          st1 = st\<lparr>us_name := name\<rparr>;
          st2 = (if n \<le> 0 then st1\<lparr>us_err := ''No name'', us_state := FLST_ERROR\<rparr> else st1);
          ((err, fd), f') = appfsCreateFile x UPLOAD_TEMP_NAME (post_len c) f;
          st3 = st2\<lparr>us_fd := fd\<rparr>
      in if err \<noteq> ESP_OK
         then (st3\<lparr>us_err := ''App too large for free space'', us_state := FLST_ERROR\<rparr>, f')
         else (st3\<lparr>us_len := post_len c, us_address := 0, us_state := FLST_WRITE\<rparr>, f'))"

definition upload_erase :: "'fs ext \<Rightarrow> upload_state \<Rightarrow> 'fs \<Rightarrow> upload_state \<times> 'fs" where
  "upload_erase x st f =
     (if us_address st AND (SPI_FLASH_ERASE_SIZE - 1) = 0 then
        (let (err, f') = appfsErase x (us_fd st) (us_address st) SPI_FLASH_ERASE_SIZE f
         in (if err \<noteq> ESP_OK
             then st\<lparr>us_err := ''AppfsErase failed'', us_state := FLST_ERROR\<rparr> else st, f'))
      else (st, f))"

definition upload_write :: "'fs ext \<Rightarrow> upload_state \<Rightarrow> 'fs \<Rightarrow> upload_state \<times> 'fs" where
  "upload_write x st f =
     (let (err, f') = appfsWrite x (us_fd st) (us_address st)
                        (take (nat (us_pagePos st)) (us_pageData st)) f;
          st1 = (if err \<noteq> ESP_OK
                 then st\<lparr>us_err := ''AppfsWrite failed'', us_state := FLST_ERROR\<rparr> else st)
      in (st1\<lparr>us_address := us_address st1 + PAGELEN, us_pagePos := 0\<rparr>, f'))"

definition upload_finish :: "'fs ext \<Rightarrow> upload_state \<Rightarrow> 'fs \<Rightarrow> upload_state \<times> 'fs" where
  "upload_finish x st f =
     (if us_len st = 0 then
        (let st1 = st\<lparr>us_state := FLST_DONE\<rparr>;
             (err, f') = appfsRename x UPLOAD_TEMP_NAME (us_name st1) f
         in (if err \<noteq> ESP_OK
             then st1\<lparr>us_err := ''Rename failed'', us_state := FLST_ERROR\<rparr> else st1, f'))
      else (st, f))"

definition upload_flush :: "'fs ext \<Rightarrow> upload_state \<Rightarrow> 'fs \<Rightarrow> upload_state \<times> 'fs" where
  "upload_flush x st f =
     (let (st1, f1) = upload_erase x st f;
          (st2, f2) = upload_write x st1 f1
      in upload_finish x st2 f2)"

definition lenLeft :: "upload_state \<Rightarrow> int" where
  "lenLeft st =
     (let n = PAGELEN - us_pagePos st in if us_len st < n then us_len st else n)"

definition upload_copy :: "upload_state \<Rightarrow> byte list \<Rightarrow> int \<Rightarrow> upload_state result" where
  "upload_copy st data n =
     bindE (memcpy_at (us_pageData st) (us_pagePos st) data n)
       (\<lambda>d. Inr (st\<lparr>us_pageData := d, us_pagePos := us_pagePos st + n, us_len := us_len st - n\<rparr>))"

definition upload_iter ::
  "'fs ext \<Rightarrow> upload_state conn \<Rightarrow> upload_state \<times> 'fs \<times> byte list
    \<Rightarrow> (upload_state \<times> 'fs \<times> byte list) result" where
  "upload_iter x c = (\<lambda>(st, f, data).
     (case us_state st of
        FLST_START \<Rightarrow> (let (st', f') = upload_start x c st f in Inr (st', f', data))
      | FLST_WRITE \<Rightarrow>
          (if int (length data) < lenLeft st then
             bindE (upload_copy st data (int (length data))) (\<lambda>st'. Inr (st', f, []))
           else
             bindE (upload_copy st data (lenLeft st))
               (\<lambda>st'. let (st'', f') = upload_flush x st' f
                      in Inr (st'', f', drop (nat (lenLeft st)) data)))
      | FLST_DONE \<Rightarrow> Inr (st, f, [])
      | FLST_ERROR \<Rightarrow> Inr (st, f, [])))"

lemmas upload_step_defs =
  upload_erase_def upload_write_def upload_finish_def upload_flush_def

text \<open>
  The loop stops for every state: an iteration takes bytes from the piece, or leaves the start state,
  or empties a full page, or leaves the writing state.
\<close>

definition upload_rank :: "upload_state \<Rightarrow> nat" where
  "upload_rank st =
     (case us_state st of
        FLST_START \<Rightarrow> 3
      | FLST_WRITE \<Rightarrow> if PAGELEN \<le> us_pagePos st then 2 else 1
      | _ \<Rightarrow> 0)"

lemma upload_flush_pagePos: "upload_flush x st f = (st', f') \<Longrightarrow> us_pagePos st' = 0"
  by (auto simp: upload_step_defs Let_def split: prod.splits if_splits)

lemma upload_flush_done:
  "upload_flush x st f = (st', f') \<Longrightarrow> us_len st = 0 \<Longrightarrow> us_state st' \<in> {FLST_DONE, FLST_ERROR}"
  by (auto simp: upload_step_defs Let_def split: prod.splits if_splits)

lemma upload_flush_state:
  "upload_flush x st f = (st', f') \<Longrightarrow> us_state st = FLST_WRITE \<Longrightarrow> us_state st' \<noteq> FLST_START"
  by (auto simp: upload_step_defs Let_def split: prod.splits if_splits)

lemma upload_iter_decreases:
  assumes "upload_iter x c (st, f, data) = Inr (st', f', data')" "data \<noteq> []"
  shows "length data' < length data
    \<or> length data' = length data \<and> upload_rank st' < upload_rank st"
proof (cases "us_state st")
  case FLST_START
  with assms(1) have "data' = data" and "us_state st' \<noteq> FLST_START"
    by (auto simp: upload_iter_def upload_start_def Let_def split: prod.splits if_splits)
  with FLST_START show ?thesis by (simp add: upload_rank_def split: flst.split)
next
  case FLST_WRITE
  show ?thesis
  proof (cases "int (length data) < lenLeft st")
    case True
    with assms FLST_WRITE show ?thesis by (auto simp: upload_iter_def bindE_Inr_iff)
  next
    case False
    with assms(1) FLST_WRITE obtain st1 where
      cp: "upload_copy st data (lenLeft st) = Inr st1" and
      fl: "upload_flush x st1 f = (st', f')" and
      dr: "data' = drop (nat (lenLeft st)) data"
      by (auto simp: upload_iter_def bindE_Inr_iff Let_def case_prod_beta)
    from cp have ll: "0 \<le> lenLeft st" and len1: "us_len st1 = us_len st - lenLeft st"
      and st1: "us_state st1 = us_state st"
      by (auto simp: upload_copy_def bindE_Inr_iff memcpy_at_def split: if_splits)
    show ?thesis
    proof (cases "lenLeft st = 0")
      case False
      with ll dr assms(2) show ?thesis by simp
    next
      case True
      then have "PAGELEN \<le> us_pagePos st \<or> us_len st = 0"
        by (auto simp: lenLeft_def Let_def split: if_splits)
      then have "upload_rank st' < upload_rank st"
        using upload_flush_pagePos [OF fl] upload_flush_state [OF fl] upload_flush_done [OF fl]
          FLST_WRITE True len1 st1
        by (auto simp: upload_rank_def PAGELEN_def split: flst.splits)
      with True dr show ?thesis by simp
    qed
  qed
next
  case FLST_DONE
  with assms show ?thesis by (simp add: upload_iter_def)
next
  case FLST_ERROR
  with assms show ?thesis by (simp add: upload_iter_def)
qed

function upload_loop ::
  "'fs ext \<Rightarrow> upload_state conn \<Rightarrow> upload_state \<Rightarrow> 'fs \<Rightarrow> byte list
    \<Rightarrow> (upload_state \<times> 'fs) result" where
  "upload_loop x c st f data =
     (if data = [] then Inr (st, f)
      else case upload_iter x c (st, f, data) of
             Inl e \<Rightarrow> Inl e
           | Inr (st', f', data') \<Rightarrow> upload_loop x c st' f' data')"
  by pat_completeness auto
termination
  by (relation "measures [\<lambda>(x, c, st, f, data). length data, \<lambda>(x, c, st, f, data). upload_rank st]")
    (auto dest: upload_iter_decreases)

declare upload_loop.simps [simp del]

section \<open>The handler\<close>

definition upload_reply :: "upload_state \<Rightarrow> 'fs world \<Rightarrow> 'fs world" where
  "upload_reply st w =
     (let w1 = emit [StartResponse (if us_state st = FLST_ERROR then 400 else 200),
                     Header ''Content-Type'' ''text/plain'', EndHeaders] w
      in if us_state st \<noteq> FLST_DONE
         then emit [SendText ''Upload error:'', SendText (us_err st), SendText [CHR 0x0A]] w1
         else w1)"

definition upload_body ::
  "'fs ext \<Rightarrow> upload_state conn \<Rightarrow> upload_state \<Rightarrow> 'fs world
    \<Rightarrow> (cgi_ret \<times> upload_state conn \<times> 'fs world) result" where
  "upload_body x c st w =
     bindE (upload_loop x c st (w_fs w) (post_buff c)) (\<lambda>(st', f').
       let w' = w\<lparr>w_fs := f'\<rparr> in
       if post_len c = post_received c then
         let w1 = upload_reply st' w'
         in Inr (HTTPD_CGI_DONE, c\<lparr>cgiData := PDangling\<rparr>, w1\<lparr>w_blocks := w_blocks w1 - 1\<rparr>)
       else Inr (HTTPD_CGI_MORE, c\<lparr>cgiData := PLive st'\<rparr>, w'))"

definition cgiUploadFile ::
  "'fs ext \<Rightarrow> bool \<Rightarrow> upload_state conn \<Rightarrow> 'fs world
    \<Rightarrow> (cgi_ret \<times> upload_state conn \<times> 'fs world) result" where
  \<comment> \<open>the flag says whether \<open>calloc\<close> finds memory\<close>
  "cgiUploadFile x calloc_ok c w =
     (if \<not> connected c then cgi_aborted c w
      else case cgiData c of
             PNull \<Rightarrow>
               (if calloc_ok then upload_body x c upload_init (w\<lparr>w_blocks := w_blocks w + 1\<rparr>)
                else Inr (HTTPD_CGI_DONE, c, w))
           | _ \<Rightarrow> bindE (deref (cgiData c)) (\<lambda>st. upload_body x c st w))"

end
