(* ===== verification/Byte_Stream.thy ===== *)
theory Byte_Stream
  imports Prelude
begin

text \<open>
  The interface of a routine that consumes a byte stream in pieces: feeding two pieces one after the
  other is feeding their concatenation. The lemma proved once here is that the way a stream is cut
  into pieces does not matter.
\<close>

fun feed_all :: "('s \<Rightarrow> 'b list \<Rightarrow> 's result) \<Rightarrow> 's \<Rightarrow> 'b list list \<Rightarrow> 's result" where
  "feed_all feed s [] = Inr s"
| "feed_all feed s (d # ds) = bindE (feed s d) (\<lambda>s'. feed_all feed s' ds)"

locale stream_consumer =
  fixes feed :: "'s \<Rightarrow> 'b list \<Rightarrow> 's result"
    and good :: "'s \<Rightarrow> bool"
  assumes feed_nil: "feed s [] = Inr s"
    and feed_total: "good s \<Longrightarrow> \<exists>s'. feed s d = Inr s' \<and> good s'"
    and feed_append: "good s \<Longrightarrow> feed s (a @ b) = bindE (feed s a) (\<lambda>s'. feed s' b)"
begin

lemma feed_all_concat: "good s \<Longrightarrow> feed_all feed s ds = feed s (concat ds)"
proof (induction ds arbitrary: s)
  case Nil
  then show ?case by (simp add: feed_nil)
next
  case (Cons d ds)
  from feed_total [OF Cons.prems] obtain s' where s': "feed s d = Inr s'" "good s'" by blast
  then show ?case using Cons.IH [OF s'(2)] feed_append [OF Cons.prems, of d "concat ds"] by simp
qed

lemma feed_all_total: "good s \<Longrightarrow> \<exists>s'. feed_all feed s ds = Inr s' \<and> good s'"
  by (simp add: feed_all_concat feed_total)

end

end
