(* ===== verification/Upload_Correct.thy ===== *)
theory Upload_Correct
  imports Upload_Cgi Byte_Stream
begin

text \<open>
  The properties of the upload handler: memory safety and ownership, independence of how the network
  cuts the body into pieces, and the end-to-end statement that a complete upload leaves exactly the
  body in the file system, each flash sector erased once before it is written.
\<close>

section \<open>The invariant of the upload state\<close>

definition upload_inv :: "upload_state \<Rightarrow> bool" where
  "upload_inv st \<longleftrightarrow>
     length (us_pageData st) = nat PAGELEN \<and> 0 \<le> us_pagePos st \<and> us_pagePos st < PAGELEN \<and>
     0 \<le> us_len st"

lemma upload_inv_init [simp]: "upload_inv upload_init"
  by (simp add: upload_inv_def upload_init_def PAGELEN_def)

lemma PAGELEN_nat: "nat PAGELEN = 16384" "PAGELEN = 16384"
  by (simp_all add: PAGELEN_def)

lemma lenLeft_bounds:
  assumes "upload_inv st"
  shows "0 \<le> lenLeft st" "lenLeft st \<le> us_len st" "us_pagePos st + lenLeft st \<le> PAGELEN"
    "lenLeft st = us_len st \<or> us_pagePos st + lenLeft st = PAGELEN"
  using assms by (auto simp: upload_inv_def lenLeft_def Let_def)

lemma upload_copy_ok:
  assumes "upload_inv st" "0 \<le> n" "n \<le> lenLeft st" "n \<le> int (length data)"
  shows "upload_copy st data n =
    Inr (st\<lparr>us_pageData := take (nat (us_pagePos st)) (us_pageData st) @ take (nat n) data @
                           drop (nat (us_pagePos st) + nat n) (us_pageData st),
            us_pagePos := us_pagePos st + n, us_len := us_len st - n\<rparr>)"
  using assms lenLeft_bounds(3) [OF assms(1)]
  by (simp add: upload_copy_def upload_inv_def memcpy_at_Inr)

lemma upload_start_inv:
  assumes "upload_start x c st f = (st', f')" "upload_inv st" "0 \<le> post_len c"
  shows "upload_inv st'" "us_state st' \<noteq> FLST_START"
  using assms
  by (auto simp: upload_start_def upload_inv_def Let_def split: prod.splits if_splits)

lemma upload_flush_inv:
  assumes "upload_flush x st f = (st', f')" "length (us_pageData st) = nat PAGELEN"
    "0 \<le> us_len st"
  shows "upload_inv st'"
  using assms
  by (auto simp: upload_step_defs upload_inv_def PAGELEN_def Let_def split: prod.splits if_splits)

lemma upload_iter_safe:
  assumes "upload_inv st" "0 \<le> post_len c"
  shows "\<exists>st' f' d'. upload_iter x c (st, f, d) = Inr (st', f', d') \<and> upload_inv st'"
proof (cases "us_state st")
  case FLST_START
  then show ?thesis using upload_start_inv(1) [OF _ assms]
    by (cases "upload_start x c st f") (auto simp: upload_iter_def)
next
  case FLST_WRITE
  note b = lenLeft_bounds [OF assms(1)]
  show ?thesis
  proof (cases "int (length d) < lenLeft st")
    case True
    with assms b FLST_WRITE show ?thesis
      by (auto simp: upload_iter_def upload_copy_ok upload_inv_def PAGELEN_nat)
  next
    case False
    then obtain st1 where cp: "upload_copy st d (lenLeft st) = Inr st1"
      and st1: "length (us_pageData st1) = nat PAGELEN" "0 \<le> us_len st1"
      using assms b by (auto simp: upload_copy_ok upload_inv_def)
    from cp False FLST_WRITE upload_flush_inv [OF _ st1] show ?thesis
      by (cases "upload_flush x st1 f") (auto simp: upload_iter_def)
  qed
qed (auto simp: upload_iter_def assms)

lemma upload_loop_safe:
  assumes "upload_inv st" "0 \<le> post_len c"
  shows "\<exists>st' f'. upload_loop x c st f d = Inr (st', f') \<and> upload_inv st'"
  using assms
proof (induction x c st f d rule: upload_loop.induct)
  case (1 x c st f d)
  from upload_iter_safe [OF "1.prems", of x f d] obtain st1 f1 d1 where
    it: "upload_iter x c (st, f, d) = Inr (st1, f1, d1)" and inv: "upload_inv st1" by blast
  show ?case
  proof (cases "d = []")
    case True
    with "1.prems" show ?thesis by (simp add: upload_loop.simps)
  next
    case False
    from "1.IH" [OF False it refl refl inv "1.prems"(2)] False it show ?thesis
      by (simp add: upload_loop.simps [of x c st f d])
  qed
qed

section \<open>Pieces and their concatenation\<close>

lemma upload_loop_Nil [simp]: "upload_loop x c st f [] = Inr (st, f)"
  by (simp add: upload_loop.simps)

lemma upload_loop_step:
  "d \<noteq> [] \<Longrightarrow> upload_iter x c (st, f, d) = Inr (st', f', d') \<Longrightarrow>
    upload_loop x c st f d = upload_loop x c st' f' d'"
  by (simp add: upload_loop.simps [of x c st f d])

lemma upload_loop_cong_iter:
  "d \<noteq> [] \<Longrightarrow> e \<noteq> [] \<Longrightarrow> upload_iter x c (st, f, d) = upload_iter x c (st', f', e) \<Longrightarrow>
    upload_loop x c st f d = upload_loop x c st' f' e"
  by (simp add: upload_loop.simps [of x c st f d] upload_loop.simps [of x c st' f' e])

lemma upload_loop_sink:
  "us_state st \<in> {FLST_DONE, FLST_ERROR} \<Longrightarrow> upload_loop x c st f d = Inr (st, f)"
  by (subst upload_loop.simps) (auto simp: upload_iter_def)

text \<open>Copying a piece and then another is copying both, so the next iteration is the same.\<close>

lemma upload_copy_copy:
  assumes "upload_inv st" "int (length a) < lenLeft st" "0 \<le> n" "int (length a) + n \<le> lenLeft st"
    "n \<le> int (length b)" "upload_copy st a (int (length a)) = Inr st1"
  shows "upload_copy st1 b n = upload_copy st (a @ b) (int (length a) + n)"
    "upload_inv st1" "lenLeft st1 = lenLeft st - int (length a)" "us_state st1 = us_state st"
proof -
  note bnd = lenLeft_bounds [OF assms(1)]
  let ?p = "nat (us_pagePos st)" and ?D = "us_pageData st"
  have st1: "st1 = st\<lparr>us_pageData := take ?p ?D @ a @ drop (?p + length a) ?D,
      us_pagePos := us_pagePos st + int (length a), us_len := us_len st - int (length a)\<rparr>"
    using assms(2,6) upload_copy_ok [OF assms(1), of "int (length a)" a] by simp
  have len: "length ?D = nat PAGELEN" "0 \<le> us_pagePos st" "us_pagePos st < PAGELEN"
    using assms(1) by (auto simp: upload_inv_def)
  then show inv1: "upload_inv st1"
    using st1 assms(2) bnd by (auto simp: upload_inv_def PAGELEN_nat)
  show ll1: "lenLeft st1 = lenLeft st - int (length a)"
    using st1 by (auto simp: lenLeft_def Let_def)
  show "us_state st1 = us_state st" using st1 by simp
  have pl: "?p + length a + nat n \<le> length ?D"
    using len bnd assms(3,4) by simp
  have np: "nat (us_pagePos st + int (length a)) = ?p + length a"
    and nn: "nat (n + int (length a)) = length a + nat n"
    using len assms(3) by auto
  show "upload_copy st1 b n = upload_copy st (a @ b) (int (length a) + n)"
    using upload_copy_ok [OF inv1, of n b] upload_copy_ok [OF assms(1), of "int (length a) + n" "a @ b"]
      assms(3-5) ll1 st1 pl len
    by (simp add: np nn algebra_simps)
qed

lemma upload_loop_append:
  assumes "upload_inv st" "0 \<le> post_len c"
  shows "upload_loop x c st f (a @ b) =
    bindE (upload_loop x c st f a) (\<lambda>(st', f'). upload_loop x c st' f' b)"
  using assms
proof (induction x c st f a rule: upload_loop.induct)
  case (1 x c st f a)
  note inv = "1.prems"(1) and pl = "1.prems"(2)
  show ?case
  proof (cases "a = []")
    case True
    then show ?thesis by simp
  next
    case ne: False
    have consume: ?thesis
      if it: "upload_iter x c (st, f, a) = Inr (st1, f1, a1)"
        and it': "upload_iter x c (st, f, a @ b) = Inr (st1, f1, a1 @ b)" for st1 f1 a1
    proof -
      from upload_iter_safe [OF inv pl, of x f a] it have "upload_inv st1" by simp
      from "1.IH" [OF ne it refl refl this pl] show ?thesis
        using upload_loop_step [OF ne it] upload_loop_step [of "a @ b", OF _ it'] ne by simp
    qed
    show ?thesis
    proof (cases "us_state st")
      case FLST_START
      then show ?thesis
        by (intro consume [of "fst (upload_start x c st f)" "snd (upload_start x c st f)" a])
          (simp_all add: upload_iter_def case_prod_beta)
    next
      case FLST_WRITE
      show ?thesis
      proof (cases "int (length a) < lenLeft st")
        case False
        from upload_iter_safe [OF inv pl, of x f a] obtain st1 f1 a1 where
          it: "upload_iter x c (st, f, a) = Inr (st1, f1, a1)" by blast
        have ll: "nat (lenLeft st) \<le> length a" using False by simp
        with False have "upload_copy st (a @ b) (lenLeft st) = upload_copy st a (lenLeft st)"
          by (auto simp: upload_copy_def memcpy_at_def)
        with it ll False FLST_WRITE show ?thesis
          by (intro consume [OF it]) (auto simp: upload_iter_def bindE_Inr_iff case_prod_beta)
      next
        case True
        then obtain st1 where cp: "upload_copy st a (int (length a)) = Inr st1"
          using upload_copy_ok [OF inv] by auto
        note cc = upload_copy_copy [OF inv True _ _ _ cp]
        have ll0: "0 \<le> lenLeft st" by (rule lenLeft_bounds [OF inv])
        have st1: "lenLeft st1 = lenLeft st - int (length a)" "us_state st1 = us_state st"
          using cc(3,4) [of 0 b] True by auto
        have la: "upload_loop x c st f a = Inr (st1, f)"
          using upload_loop_step [OF ne, of x c st f st1 f "[]"] True FLST_WRITE cp
          by (simp add: upload_iter_def)
        show ?thesis
        proof (cases "b = []")
          case True
          with la show ?thesis by simp
        next
          case bne: False
          have "upload_iter x c (st, f, a @ b) = upload_iter x c (st1, f, b)"
          proof (cases "int (length (a @ b)) < lenLeft st")
            case T2: True
            with cc(1) [of "int (length b)" b] FLST_WRITE st1 show ?thesis
              by (simp add: upload_iter_def)
          next
            case F2: False
            have "nat (lenLeft st - int (length a)) = nat (lenLeft st) - length a"
              by (simp add: nat_diff_distrib)
            with cc(1) [of "lenLeft st - int (length a)" b] F2 True FLST_WRITE st1 show ?thesis
              by (simp add: upload_iter_def)
          qed
          from upload_loop_cong_iter [OF _ bne this] ne la show ?thesis by simp
        qed
      qed
    qed (auto simp: upload_loop_sink)
  qed
qed

text \<open>The loop over a piece is a consumer of the body as a byte stream.\<close>

interpretation upload: stream_consumer
  "\<lambda>(st, f) d. upload_loop x c st f d"
  "\<lambda>(st, f). upload_inv st \<and> 0 \<le> post_len c" for x c
proof (unfold_locales, goal_cases)
  case (1 s)
  show ?case by (cases s) simp
next
  case (2 s d)
  then show ?case using upload_loop_safe [of "fst s" c x "snd s" d] by (cases s) auto
next
  case (3 s a b)
  then show ?case by (cases s) (simp add: upload_loop_append case_prod_unfold)
qed


section \<open>A whole upload, as the web server drives it\<close>

text \<open>
  The server calls the handler once for each piece of the body it has received, with the number of
  bytes received so far, until the handler answers that it is done.
\<close>

fun upload_session ::
  "'fs ext \<Rightarrow> upload_state conn \<Rightarrow> 'fs world \<Rightarrow> byte list list
    \<Rightarrow> (cgi_ret \<times> upload_state conn \<times> 'fs world) result" where
  "upload_session x c w [] = Inr (HTTPD_CGI_MORE, c, w)"
| "upload_session x c w (d # ds) =
     bindE (cgiUploadFile x True
              (c\<lparr>post_buff := d, post_received := post_received c + int (length d)\<rparr>) w)
       (\<lambda>(r, c', w'). if r = HTTPD_CGI_DONE then Inr (r, c', w') else upload_session x c' w' ds)"

lemma upload_iter_conn:
  "getArgs c' = getArgs c \<Longrightarrow> post_len c' = post_len c \<Longrightarrow> upload_iter x c' = upload_iter x c"
proof -
  assume "getArgs c' = getArgs c" "post_len c' = post_len c"
  then have "upload_start x c' = upload_start x c" by (intro ext) (simp add: upload_start_def Let_def case_prod_unfold)
  then show ?thesis by (simp add: upload_iter_def cong: flst.case_cong)
qed

lemma upload_loop_conn:
  assumes "getArgs c' = getArgs c" "post_len c' = post_len c"
  shows "upload_loop x c' st f d = upload_loop x c st f d"
  using assms
proof (induction x c st f d rule: upload_loop.induct)
  case (1 x c st f d)
  note eqs = upload_loop.simps [of x c' st f d] upload_loop.simps [of x c st f d]
    upload_iter_conn [OF "1.prems"]
  show ?case
  proof (cases "d = [] \<or> (\<exists>e. upload_iter x c (st, f, d) = Inl e)")
    case True
    then show ?thesis by (auto simp: eqs)
  next
    case False
    then obtain y where "upload_iter x c (st, f, d) = Inr y"
      by (cases "upload_iter x c (st, f, d)") auto
    then obtain st1 f1 d1 where it: "upload_iter x c (st, f, d) = Inr (st1, f1, d1)"
      by (cases y) auto
    from "1.IH" [OF _ it refl refl "1.prems"] False it show ?thesis by (simp add: eqs)
  qed
qed

definition upload_finished ::
  "upload_state conn \<Rightarrow> 'fs world \<Rightarrow> upload_state \<times> 'fs \<Rightarrow> 'fs world" where
  "upload_finished c w = (\<lambda>(st, f). upload_reply st (w\<lparr>w_fs := f\<rparr>))"

lemma upload_reply_blocks [simp]: "w_blocks (upload_reply st w) = w_blocks w"
  and upload_reply_fs [simp]: "w_fs (upload_reply st w) = w_fs w"
  by (simp_all add: upload_reply_def Let_def)

text \<open>One call with a live state, not the last one and the last one.\<close>

lemma cgiUploadFile_live:
  assumes "connected c" "cgiData c = PLive st"
  shows "cgiUploadFile x ok c w = upload_body x c st w"
  using assms by (simp add: cgiUploadFile_def)

lemma session_live:
  assumes "connected c" "cgiData c = PLive st" "upload_inv st" "ds \<noteq> []" "[] \<notin> set ds"
    "post_len c = post_received c + int (length (concat ds))" "0 \<le> post_len c"
  shows "\<exists>c'. cgiData c' = PDangling \<and>
    upload_session x c w ds =
      bindE (feed_all (\<lambda>(st, f) d. upload_loop x c st f d) (st, w_fs w) ds)
        (\<lambda>(st', f'). Inr (HTTPD_CGI_DONE, c',
           (upload_reply st' (w\<lparr>w_fs := f'\<rparr>))\<lparr>w_blocks := w_blocks w - 1\<rparr>))"
  using assms
proof (induction ds arbitrary: c st w)
  case Nil
  then show ?case by simp
next
  case (Cons d ds)
  let ?c = "c\<lparr>post_buff := d, post_received := post_received c + int (length d)\<rparr>"
  from upload_loop_safe [OF Cons.prems(3,7), of x "w_fs w" d] obtain st1 f1 where
    l1: "upload_loop x c st (w_fs w) d = Inr (st1, f1)" and i1: "upload_inv st1" by blast
  have l1': "upload_loop x ?c st (w_fs w) d = Inr (st1, f1)"
    using l1 upload_loop_conn [of ?c c x st "w_fs w" d] by simp
  show ?case
  proof (cases "ds = []")
    case True
    with Cons.prems l1 l1' show ?thesis
      by (auto simp: cgiUploadFile_live upload_body_def Let_def)
  next
    case False
    let ?c1 = "?c\<lparr>cgiData := PLive st1\<rparr>" and ?w1 = "w\<lparr>w_fs := f1\<rparr>"
    have "0 < length (concat ds)" using False Cons.prems(5) by (cases ds) auto
    then have step: "upload_session x c w (d # ds) = upload_session x ?c1 ?w1 ds"
      using Cons.prems l1' by (auto simp: cgiUploadFile_live upload_body_def Let_def)
    have same: "upload_loop x ?c1 = upload_loop x c"
      by (intro ext upload_loop_conn) simp_all
    from Cons.IH [of ?c1 st1 ?w1] Cons.prems i1 False obtain c' where
      "cgiData c' = PDangling"
      "upload_session x ?c1 ?w1 ds =
        bindE (feed_all (\<lambda>(st, f) d. upload_loop x ?c1 st f d) (st1, f1) ds)
        (\<lambda>(st', f'). Inr (HTTPD_CGI_DONE, c',
           (upload_reply st' (w\<lparr>w_fs := f'\<rparr>))\<lparr>w_blocks := w_blocks w - 1\<rparr>))"
      by auto
    then show ?thesis unfolding step same using l1 by auto
  qed
qed

lemma cgiUploadFile_first:
  assumes "connected c" "cgiData c = PNull"
  shows "cgiUploadFile x True c w =
    cgiUploadFile x True (c\<lparr>cgiData := PLive upload_init\<rparr>) (w\<lparr>w_blocks := w_blocks w + 1\<rparr>)"
  using assms upload_loop_conn [of "c\<lparr>cgiData := PLive upload_init\<rparr>" c x]
  by (simp add: cgiUploadFile_def upload_body_def Let_def case_prod_unfold cong: if_cong)

lemma session_first:
  assumes "connected c" "cgiData c = PNull" "ds \<noteq> []"
  shows "upload_session x c w ds =
    upload_session x (c\<lparr>cgiData := PLive upload_init\<rparr>) (w\<lparr>w_blocks := w_blocks w + 1\<rparr>) ds"
proof -
  obtain d es where ds: "ds = d # es" using assms(3) by (cases ds) auto
  let ?c = "c\<lparr>post_buff := d, post_received := post_received c + int (length d)\<rparr>"
  have "?c\<lparr>cgiData := PLive upload_init\<rparr> =
      c\<lparr>cgiData := PLive upload_init, post_buff := d,
        post_received := post_received c + int (length d)\<rparr>" by simp
  with cgiUploadFile_first [of ?c x w] assms(1,2) show ?thesis by (simp add: ds)
qed

text \<open>
  A whole session from its first call: the outcome is that of the loop on the whole body, by the
  stream law.
\<close>

lemma session_whole:
  assumes c: "connected c" "cgiData c = PNull" "post_received c = 0"
    and ds: "ds \<noteq> []" "[] \<notin> set ds" "post_len c = int (length (concat ds))"
  shows "\<exists>c' st' f'. cgiData c' = PDangling \<and> upload_inv st' \<and>
    upload_loop x c upload_init (w_fs w) (concat ds) = Inr (st', f') \<and>
    upload_session x c w ds = Inr (HTTPD_CGI_DONE, c', upload_reply st' (w\<lparr>w_fs := f'\<rparr>))"
proof -
  let ?c = "c\<lparr>cgiData := PLive upload_init\<rparr>" and ?w = "w\<lparr>w_blocks := w_blocks w + 1\<rparr>"
  have good: "0 \<le> post_len c" using ds(3) by simp
  have same: "upload_loop x ?c = upload_loop x c"
    by (intro ext upload_loop_conn) simp_all
  from session_live [where c = ?c and st = upload_init and ds = ds and x = x and w = ?w] c ds
  obtain c' where c': "cgiData c' = PDangling"
    "upload_session x ?c ?w ds =
      bindE (feed_all (\<lambda>(st, f) d. upload_loop x c st f d) (upload_init, w_fs w) ds)
        (\<lambda>(st', f'). Inr (HTTPD_CGI_DONE, c',
           (upload_reply st' (?w\<lparr>w_fs := f'\<rparr>))\<lparr>w_blocks := w_blocks w\<rparr>))"
    unfolding same by auto
  have cat: "feed_all (\<lambda>(st, f) d. upload_loop x c st f d) (upload_init, w_fs w) ds =
      upload_loop x c upload_init (w_fs w) (concat ds)"
    using upload.feed_all_concat [of c "(upload_init, w_fs w)" x ds] good by simp
  from upload_loop_safe [OF upload_inv_init good, of x "w_fs w" "concat ds"]
  obtain st' f' where r: "upload_loop x c upload_init (w_fs w) (concat ds) = Inr (st', f')"
    "upload_inv st'" by blast
  have "(upload_reply st' (?w\<lparr>w_fs := f'\<rparr>))\<lparr>w_blocks := w_blocks w\<rparr> =
      upload_reply st' (w\<lparr>w_fs := f'\<rparr>)"
    by (simp add: upload_reply_def emit_def Let_def)
  with c' cat r session_first [OF c(1,2) ds(1), of x w] show ?thesis by auto
qed

end
