(* ===== verification/Demo_Fs.thy ===== *)
theory Demo_Fs
  imports Http_Api
begin

text \<open>
  A small file system in memory, used only to show that the hypotheses about the external code can
  hold: files are numbered in the order of their creation, and their region is a whole number of
  64 KiB pages.
\<close>

record demo_fs =
  d_dir :: "string \<Rightarrow> appfs_fd option"
  d_names :: "string list"
  d_sizes :: "int list"
  d_mem :: "appfs_fd \<Rightarrow> int \<Rightarrow> byte"
  d_cap :: "appfs_fd \<Rightarrow> int"

definition demo_empty :: demo_fs where
  "demo_empty = \<lparr>d_dir = Map.empty, d_names = [], d_sizes = [], d_mem = (\<lambda>_ _. 0),
                 d_cap = (\<lambda>_. 0)\<rparr>"

definition demo_create :: "string \<Rightarrow> int \<Rightarrow> demo_fs \<Rightarrow> (esp_err \<times> appfs_fd) \<times> demo_fs" where
  "demo_create nm n f =
     (let fd = int (length (d_names f)) in
      ((ESP_OK, fd),
       f\<lparr>d_dir := (d_dir f)(nm \<mapsto> fd), d_names := d_names f @ [nm], d_sizes := d_sizes f @ [n],
         d_cap := (d_cap f)(fd := (n + 65535) div 65536 * 65536)\<rparr>))"

definition demo_erase :: "appfs_fd \<Rightarrow> int \<Rightarrow> int \<Rightarrow> demo_fs \<Rightarrow> esp_err \<times> demo_fs" where
  "demo_erase fd a n f =
     (if a + n \<le> d_cap f fd
      then (ESP_OK, f\<lparr>d_mem := (d_mem f)(fd := \<lambda>i. if a \<le> i \<and> i < a + n then 255 else d_mem f fd i)\<rparr>)
      else (258, f))"

definition demo_write :: "appfs_fd \<Rightarrow> int \<Rightarrow> byte list \<Rightarrow> demo_fs \<Rightarrow> esp_err \<times> demo_fs" where
  "demo_write fd a bs f =
     (if a + int (length bs) \<le> d_cap f fd
      then (ESP_OK, f\<lparr>d_mem := (d_mem f)(fd := \<lambda>i. if a \<le> i \<and> i < a + int (length bs)
              then d_mem f fd i AND bs ! nat (i - a) else d_mem f fd i)\<rparr>)
      else (258, f))"

definition demo_rename :: "string \<Rightarrow> string \<Rightarrow> demo_fs \<Rightarrow> esp_err \<times> demo_fs" where
  "demo_rename old new f =
     (case d_dir f old of
        None \<Rightarrow> (257, f)
      | Some fd \<Rightarrow> (ESP_OK, f\<lparr>d_dir := ((d_dir f)(old := None))(new \<mapsto> fd)\<rparr>))"

definition demo_next :: "demo_fs \<Rightarrow> appfs_fd \<Rightarrow> appfs_fd" where
  "demo_next f fd = (if fd + 1 < int (length (d_names f)) then fd + 1 else APPFS_INVALID_FD)"

definition demo_ext :: "demo_fs ext" where
  "demo_ext =
     \<lparr>httpdFindArg = (\<lambda>line arg old n. if line = [] then (- 1, old) else (int (length line), line)),
      appfsCreateFile = demo_create, appfsErase = demo_erase, appfsWrite = demo_write,
      appfsRename = demo_rename,
      appfsDeleteFile = (\<lambda>nm f. (ESP_OK, f\<lparr>d_dir := (d_dir f)(nm := None)\<rparr>)),
      appfsNextEntry = demo_next,
      appfsFdValid = (\<lambda>f fd. 0 \<le> fd \<and> fd < int (length (d_names f))),
      appfsEntryInfo = (\<lambda>f fd. (d_names f ! nat fd, d_sizes f ! nat fd)),
      appfsRead = (\<lambda>f fd p n. map (\<lambda>i. d_mem f fd (p + int i)) [0..<nat n]),
      appfsGetFreeMem = (\<lambda>f. 65536),
      spiFlashRead = (\<lambda>f p n. map (\<lambda>i. word_of_int (p + int i)) [0..<nat n]),
      nvsOpen = (\<lambda>nm f. ((ESP_OK, 1), f)), nvsEraseAll = (\<lambda>h f. f), nvsCommit = (\<lambda>h f. f),
      nvsClose = (\<lambda>h f. f)\<rparr>"

definition demo_world :: "demo_fs \<Rightarrow> demo_fs world" where
  "demo_world f = \<lparr>w_fs = f, w_out = [], w_blocks = 0\<rparr>"

definition demo_conn :: "string \<Rightarrow> int \<Rightarrow> 'st conn" where
  "demo_conn args n = \<lparr>connected = True, getArgs = args, cgiData = PNull, post_buff = [],
                       post_len = n, post_received = 0\<rparr>"

end
