(* ===== verification/Upload_Props.thy ===== *)
theory Upload_Props
  imports Upload_Correct Demo_Fs
begin

text \<open>
  The end-to-end property of an upload, and what the handler reports when something fails.
  The application file system is not part of this repository; \<open>appfs_laws\<close> states what its
  documentation promises, over three observations of its state: the bytes of a file's flash
  region, the size of that region, and the directory.
\<close>

section \<open>What the file system promises\<close>

definition law_create where
  "law_create x cap dir \<longleftrightarrow>
     (\<forall>nm n f fd f'. appfsCreateFile x nm n f = ((ESP_OK, fd), f') \<longrightarrow>
        dir f' nm = Some fd \<and> n \<le> cap f' fd \<and> (32768::int) dvd cap f' fd)"

definition law_erase where
  "law_erase x rd cap dir \<longleftrightarrow>
     (\<forall>fd a n f. 4096 dvd a \<and> 4096 dvd n \<and> 0 \<le> a \<and> 0 \<le> n \<and> a + n \<le> cap f fd \<longrightarrow>
        (\<exists>f'. appfsErase x fd a n f = (ESP_OK, f') \<and> dir f' = dir f \<and> cap f' = cap f \<and>
           (\<forall>i. rd f' fd i = (if a \<le> i \<and> i < a + n then 255 else rd f fd i))))"

definition law_write where
  "law_write x rd cap dir \<longleftrightarrow>
     (\<forall>fd a bs f. 0 \<le> a \<and> a + int (length bs) \<le> cap f fd \<longrightarrow>
        (\<exists>f'. appfsWrite x fd a bs f = (ESP_OK, f') \<and> dir f' = dir f \<and> cap f' = cap f \<and>
           (\<forall>i. rd f' fd i = (if a \<le> i \<and> i < a + int (length bs)
                               then rd f fd i AND bs ! nat (i - a) else rd f fd i))))"

definition law_rename where
  "law_rename x rd cap dir \<longleftrightarrow>
     (\<forall>old new f fd. dir f old = Some fd \<longrightarrow>
        (\<exists>f'. appfsRename x old new f = (ESP_OK, f') \<and> cap f' = cap f \<and> rd f' = rd f \<and>
           dir f' = ((dir f)(old := None))(new \<mapsto> fd)))"

definition appfs_laws ::
  "'fs ext \<Rightarrow> ('fs \<Rightarrow> appfs_fd \<Rightarrow> int \<Rightarrow> byte) \<Rightarrow> ('fs \<Rightarrow> appfs_fd \<Rightarrow> int)
    \<Rightarrow> ('fs \<Rightarrow> string \<Rightarrow> appfs_fd option) \<Rightarrow> bool" where
  "appfs_laws x rd cap dir \<longleftrightarrow>
     law_create x cap dir \<and> law_erase x rd cap dir \<and> law_write x rd cap dir \<and>
     law_rename x rd cap dir"

lemma laws_create:
  "law_create x cap dir \<Longrightarrow> appfsCreateFile x nm n f = ((ESP_OK, fd), f') \<Longrightarrow>
    dir f' nm = Some fd \<and> n \<le> cap f' fd \<and> 32768 dvd cap f' fd"
  unfolding law_create_def by blast

lemma laws_erase:
  "law_erase x rd cap dir \<Longrightarrow> 4096 dvd a \<Longrightarrow> 4096 dvd n \<Longrightarrow> 0 \<le> a \<Longrightarrow> 0 \<le> n \<Longrightarrow>
    a + n \<le> cap f fd \<Longrightarrow>
    \<exists>f'. appfsErase x fd a n f = (ESP_OK, f') \<and> dir f' = dir f \<and> cap f' = cap f \<and>
      (\<forall>i. rd f' fd i = (if a \<le> i \<and> i < a + n then 255 else rd f fd i))"
  by (simp add: law_erase_def)

lemma laws_write:
  "law_write x rd cap dir \<Longrightarrow> 0 \<le> a \<Longrightarrow> a + int (length bs) \<le> cap f fd \<Longrightarrow>
    \<exists>f'. appfsWrite x fd a bs f = (ESP_OK, f') \<and> dir f' = dir f \<and> cap f' = cap f \<and>
      (\<forall>i. rd f' fd i = (if a \<le> i \<and> i < a + int (length bs)
                          then rd f fd i AND bs ! nat (i - a) else rd f fd i))"
  by (simp add: law_write_def)

lemma laws_rename:
  "law_rename x rd cap dir \<Longrightarrow> dir f old = Some fd \<Longrightarrow>
    \<exists>f'. appfsRename x old new f = (ESP_OK, f') \<and> cap f' = cap f \<and> rd f' = rd f \<and>
      dir f' = ((dir f)(old := None))(new \<mapsto> fd)"
  by (simp add: law_rename_def)

section \<open>One page, then all pages\<close>

text \<open>
  A page boundary: the writing state with an empty page, the file region large enough for what is
  left, and the next 16 KiB erased already when they are the second half of an erase sector.
\<close>

definition page_start ::
  "('fs \<Rightarrow> appfs_fd \<Rightarrow> int \<Rightarrow> byte) \<Rightarrow> ('fs \<Rightarrow> appfs_fd \<Rightarrow> int) \<Rightarrow> upload_state \<Rightarrow> 'fs
    \<Rightarrow> byte list \<Rightarrow> bool" where
  "page_start rd cap st f data \<longleftrightarrow>
     upload_inv st \<and> us_state st = FLST_WRITE \<and> us_pagePos st = 0 \<and>
     us_len st = int (length data) \<and> 0 \<le> us_address st \<and> 16384 dvd us_address st \<and>
     us_address st + int (length data) \<le> cap f (us_fd st) \<and> 32768 dvd cap f (us_fd st) \<and>
     (\<not> 32768 dvd us_address st \<longrightarrow>
        (\<forall>i. us_address st \<le> i \<and> i < us_address st + 16384 \<longrightarrow> rd f (us_fd st) i = 255))"

lemma erase_mask: "(a AND (SPI_FLASH_ERASE_SIZE - 1) = 0) = (32768 dvd a)"
  using and_mask_int [of a 15] by (simp add: SPI_FLASH_ERASE_SIZE_def dvd_eq_mod_eq_0)

lemma byte_255_and [simp]: "(255 :: byte) AND b = b"
proof -
  have "(255 :: byte) = - 1" by simp
  then show ?thesis by (metis and.left_neutral)
qed

lemma sector_room:
  assumes "32768 dvd a" "32768 dvd (c::int)" "a < c"
  shows "a + 32768 \<le> c"
  using assms by (auto elim!: dvdE)

lemma sector_alternates:
  "16384 dvd (a::int) \<Longrightarrow> \<not> 32768 dvd (a + 16384) \<Longrightarrow> 32768 dvd a"
proof -
  assume "16384 dvd a" and n: "\<not> 32768 dvd (a + 16384)"
  then obtain k where a: "a = 16384 * k" by (elim dvdE)
  have even: "32768 dvd 16384 * m \<longleftrightarrow> even m" for m :: int
    using dvd_mult_cancel_left [of 16384 2 m] by simp
  from n even [of "k + 1"] a have "even k" by (simp add: distrib_left)
  with even [of k] a show ?thesis by simp
qed

text \<open>Erasing when needed and writing \<open>n\<close> bytes of the page buffer at a page boundary.\<close>

lemma upload_erase_ok:
  assumes "law_erase x rd cap dir" "0 \<le> us_address st" "us_address st < cap f (us_fd st)"
    "32768 dvd cap f (us_fd st)"
    "\<not> 32768 dvd us_address st \<longrightarrow>
        (\<forall>i. us_address st \<le> i \<and> i < us_address st + 16384 \<longrightarrow> rd f (us_fd st) i = 255)"
  shows "\<exists>f'. upload_erase x st f = (st, f') \<and> dir f' = dir f \<and> cap f' = cap f \<and>
    (\<forall>i. us_address st \<le> i \<and> i < us_address st + 16384 \<longrightarrow> rd f' (us_fd st) i = 255) \<and>
    (32768 dvd us_address st \<longrightarrow>
      (\<forall>i. us_address st \<le> i \<and> i < us_address st + 32768 \<longrightarrow> rd f' (us_fd st) i = 255)) \<and>
    (\<forall>i < us_address st. rd f' (us_fd st) i = rd f (us_fd st) i)"
proof (cases "32768 dvd us_address st")
  case True
  moreover from True have "4096 dvd us_address st" by (rule dvd_trans [rotated]) simp
  ultimately obtain f' where "appfsErase x (us_fd st) (us_address st) 32768 f = (ESP_OK, f')"
    "dir f' = dir f" "cap f' = cap f"
    "\<forall>i. rd f' (us_fd st) i =
      (if us_address st \<le> i \<and> i < us_address st + 32768 then 255 else rd f (us_fd st) i)"
    using laws_erase [OF assms(1), of "us_address st" 32768 f "us_fd st"]
      sector_room [OF True assms(4,3)] assms(2) by auto
  with True show ?thesis
    by (auto simp: upload_erase_def erase_mask) (auto simp: SPI_FLASH_ERASE_SIZE_def)
next
  case False
  with assms show ?thesis by (auto simp: upload_erase_def erase_mask)
qed

lemma upload_write_ok:
  assumes "law_write x rd cap dir" "0 \<le> us_address st"
    "us_address st + us_pagePos st \<le> cap f (us_fd st)" "0 \<le> us_pagePos st"
    "nat (us_pagePos st) \<le> length (us_pageData st)"
    "\<forall>i. us_address st \<le> i \<and> i < us_address st + us_pagePos st \<longrightarrow> rd f (us_fd st) i = 255"
  shows "\<exists>f'. upload_write x st f =
      (st\<lparr>us_address := us_address st + PAGELEN, us_pagePos := 0\<rparr>, f') \<and>
    dir f' = dir f \<and> cap f' = cap f \<and>
    (\<forall>i. rd f' (us_fd st) i =
      (if us_address st \<le> i \<and> i < us_address st + us_pagePos st
       then us_pageData st ! nat (i - us_address st) else rd f (us_fd st) i))"
proof -
  let ?bs = "take (nat (us_pagePos st)) (us_pageData st)"
  have len: "int (length ?bs) = us_pagePos st" using assms(4,5) by simp
  from laws_write [OF assms(1,2), of ?bs f "us_fd st"] assms(3) len obtain f' where
    f': "appfsWrite x (us_fd st) (us_address st) ?bs f = (ESP_OK, f')"
      "dir f' = dir f" "cap f' = cap f"
      "\<forall>i. rd f' (us_fd st) i =
        (if us_address st \<le> i \<and> i < us_address st + us_pagePos st
         then rd f (us_fd st) i AND ?bs ! nat (i - us_address st) else rd f (us_fd st) i)"
    by auto
  have "?bs ! nat (i - us_address st) = us_pageData st ! nat (i - us_address st)"
    if "us_address st \<le> i" "i < us_address st + us_pagePos st" for i
    using that by (intro nth_take) auto
  with f' assms(6) show ?thesis by (auto simp: upload_write_def)
qed

text \<open>A page finished from a page boundary: \<open>n\<close> bytes are copied, erased for, and written.\<close>

lemma page_done:
  assumes laws: "appfs_laws x rd cap dir" and ps: "page_start rd cap st f data"
    and ne: "data \<noteq> []" and n: "n = min (length data) 16384"
  obtains st1 f1 where
    "upload_iter x c (st, f, data) =
      (let (st2, f2) = upload_finish x st1 f1 in Inr (st2, f2, drop n data))"
    "st1 = st\<lparr>us_pageData := us_pageData st1, us_address := us_address st + PAGELEN,
              us_len := int (length data) - int n\<rparr>"
    "length (us_pageData st1) = nat PAGELEN"
    "dir f1 = dir f" "cap f1 = cap f"
    "\<forall>i < us_address st. rd f1 (us_fd st) i = rd f (us_fd st) i"
    "\<forall>i < n. rd f1 (us_fd st) (us_address st + int i) = data ! i"
    "32768 dvd us_address st \<longrightarrow> (\<forall>i. us_address st + int n \<le> i \<and> i < us_address st + 32768
        \<longrightarrow> rd f1 (us_fd st) i = 255)"
proof -
  have inv: "upload_inv st" and wr: "us_state st = FLST_WRITE" and pp: "us_pagePos st = 0"
    and len: "us_len st = int (length data)" and ad: "0 \<le> us_address st"
    and room: "us_address st + int (length data) \<le> cap f (us_fd st)"
    using ps by (auto simp: page_start_def)
  have np: "0 < n" "n \<le> length data" "n \<le> 16384" using ne n by auto
  have ll: "lenLeft st = int n" using len pp n by (auto simp: lenLeft_def PAGELEN_def Let_def)
  define sc where "sc = st\<lparr>us_pageData := take n data @ drop n (us_pageData st),
      us_pagePos := int n, us_len := int (length data) - int n\<rparr>"
  have cp: "upload_copy st data (lenLeft st) = Inr sc"
    using upload_copy_ok [OF inv, of "lenLeft st" data] np ll pp len
    by (simp add: sc_def)
  have scf: "us_address sc = us_address st" "us_fd sc = us_fd st" "us_pagePos sc = int n"
    by (simp_all add: sc_def)
  have dl: "length (us_pageData sc) = nat PAGELEN"
    using inv np by (simp add: sc_def upload_inv_def PAGELEN_nat)
  from upload_erase_ok [of x rd cap dir sc f] laws ps np room scf obtain f0 where
    e: "upload_erase x sc f = (sc, f0)" "dir f0 = dir f" "cap f0 = cap f"
      "\<forall>i. us_address st \<le> i \<and> i < us_address st + 16384 \<longrightarrow> rd f0 (us_fd st) i = 255"
      "32768 dvd us_address st \<longrightarrow>
        (\<forall>i. us_address st \<le> i \<and> i < us_address st + 32768 \<longrightarrow> rd f0 (us_fd st) i = 255)"
      "\<forall>i < us_address st. rd f0 (us_fd st) i = rd f (us_fd st) i"
    by (auto simp: appfs_laws_def page_start_def)
  from upload_write_ok [of x rd cap dir sc f0] laws ad np room scf dl e obtain f1 where
    w: "upload_write x sc f0 = (sc\<lparr>us_address := us_address st + PAGELEN, us_pagePos := 0\<rparr>, f1)"
      "dir f1 = dir f" "cap f1 = cap f"
      "\<forall>i. rd f1 (us_fd st) i = (if us_address st \<le> i \<and> i < us_address st + int n
        then us_pageData sc ! nat (i - us_address st) else rd f0 (us_fd st) i)"
    by (auto simp: appfs_laws_def PAGELEN_nat)
  let ?st1 = "sc\<lparr>us_address := us_address st + PAGELEN, us_pagePos := 0\<rparr>"
  have flush: "upload_flush x sc f = upload_finish x ?st1 f1"
    using e(1) w(1) by (simp add: upload_flush_def)
  have nth: "us_pageData sc ! i = data ! i" if "i < n" for i
    using that np by (simp add: sc_def nth_append)
  show ?thesis
  proof (rule that [of ?st1 f1])
    show "upload_iter x c (st, f, data) =
      (let (st2, f2) = upload_finish x ?st1 f1 in Inr (st2, f2, drop n data))"
      using wr ll np cp flush by (simp add: upload_iter_def)
    show "?st1 = st\<lparr>us_pageData := us_pageData ?st1, us_address := us_address st + PAGELEN,
              us_len := int (length data) - int n\<rparr>"
      using pp by (simp add: sc_def)
  qed (use w e dl nth np in \<open>auto simp: sc_def\<close>)
qed

text \<open>All remaining pages, by induction on what is left of the body.\<close>

lemma pages_done:
  assumes laws: "appfs_laws x rd cap dir" and "page_start rd cap st f data"
    and "data \<noteq> []" and "dir f UPLOAD_TEMP_NAME = Some (us_fd st)"
  shows "\<exists>st' f'. upload_loop x c st f data = Inr (st', f') \<and> us_state st' = FLST_DONE \<and>
    dir f' = ((dir f)(UPLOAD_TEMP_NAME := None))(us_name st \<mapsto> us_fd st) \<and>
    (\<forall>i < us_address st. rd f' (us_fd st) i = rd f (us_fd st) i) \<and>
    (\<forall>i < length data. rd f' (us_fd st) (us_address st + int i) = data ! i)"
  using assms(2-4)
proof (induction data arbitrary: st f rule: length_induct)
  case (1 data)
  let ?fd = "us_fd st" and ?a = "us_address st"
  obtain st1 f1 where
    it: "upload_iter x c (st, f, data) = (let (st2, f2) = upload_finish x st1 f1
          in Inr (st2, f2, drop (min (length data) 16384) data))" and
    st1: "st1 = st\<lparr>us_pageData := us_pageData st1, us_address := ?a + PAGELEN,
              us_len := int (length data) - int (min (length data) 16384)\<rparr>" and
    pd: "length (us_pageData st1) = nat PAGELEN" and f1: "dir f1 = dir f" "cap f1 = cap f" and
    old: "\<forall>i < ?a. rd f1 ?fd i = rd f ?fd i" and
    new: "\<forall>i < min (length data) 16384. rd f1 ?fd (?a + int i) = data ! i" and
    er: "32768 dvd ?a \<longrightarrow> (\<forall>i. ?a + int (min (length data) 16384) \<le> i \<and> i < ?a + 32768
          \<longrightarrow> rd f1 ?fd i = 255)"
    by (rule page_done [OF laws "1.prems"(1,2) refl])
  note st1f = st1 [THEN arg_cong, of us_len] st1 [THEN arg_cong, of us_fd]
    st1 [THEN arg_cong, of us_name] st1 [THEN arg_cong, of us_address]
    st1 [THEN arg_cong, of us_state] st1 [THEN arg_cong, of us_pagePos]
  show ?case
  proof (cases "length data \<le> 16384")
    case True
    from laws_rename [of x rd cap dir f1 UPLOAD_TEMP_NAME "?fd" "us_name st"] laws f1 "1.prems"(3)
    obtain f2 where f2: "appfsRename x UPLOAD_TEMP_NAME (us_name st) f1 = (ESP_OK, f2)"
      "rd f2 = rd f1" "dir f2 = ((dir f)(UPLOAD_TEMP_NAME := None))(us_name st \<mapsto> ?fd)"
      by (auto simp: appfs_laws_def)
    from True st1f f2(1) have "upload_finish x st1 f1 = (st1\<lparr>us_state := FLST_DONE\<rparr>, f2)"
      by (simp add: upload_finish_def)
    with it True have "upload_loop x c st f data = Inr (st1\<lparr>us_state := FLST_DONE\<rparr>, f2)"
      using upload_loop_step [OF "1.prems"(2), of x c st f _ f2 "[]"] by simp
    with f2 old new True show ?thesis by auto
  next
    case False
    let ?d = "drop 16384 data"
    from False st1f have fin: "upload_finish x st1 f1 = (st1, f1)"
      by (simp add: upload_finish_def)
    with it False have step: "upload_loop x c st f data = upload_loop x c st1 f1 ?d"
      using upload_loop_step [OF "1.prems"(2)] by simp
    have ps: "page_start rd cap st1 f1 ?d"
      using "1.prems"(1) st1f pd False f1 er sector_alternates [of "us_address st"]
      by (auto simp: page_start_def upload_inv_def PAGELEN_nat of_nat_diff)
    have "\<exists>st' f'. upload_loop x c st1 f1 ?d = Inr (st', f') \<and> us_state st' = FLST_DONE \<and>
        dir f' = ((dir f)(UPLOAD_TEMP_NAME := None))(us_name st \<mapsto> ?fd) \<and>
        (\<forall>i < ?a + 16384. rd f' ?fd i = rd f1 ?fd i) \<and>
        (\<forall>i < length data - 16384. rd f' ?fd (?a + 16384 + int i) = data ! (16384 + i))"
      using "1.IH" [rule_format, OF _ ps] False st1f f1 "1.prems"(3) by (simp add: PAGELEN_nat)
    then obtain st' f' where
      r: "upload_loop x c st1 f1 ?d = Inr (st', f')" "us_state st' = FLST_DONE"
        "dir f' = ((dir f)(UPLOAD_TEMP_NAME := None))(us_name st \<mapsto> ?fd)"
        "\<forall>i < ?a + 16384. rd f' ?fd i = rd f1 ?fd i"
        "\<forall>i < length data - 16384. rd f' ?fd (?a + 16384 + int i) = data ! (16384 + i)"
      by blast
    have "rd f' ?fd (?a + int i) = data ! i" if "i < length data" for i
    proof (cases "i < 16384")
      case True
      with r(4) new that show ?thesis by auto
    next
      case False
      with r(5) [rule_format, of "i - 16384"] that show ?thesis by (simp add: of_nat_diff)
    qed
    with r step old show ?thesis by auto
  qed
qed

section \<open>Properties\<close>

text \<open>
  C1. A complete upload stores exactly the body. Whatever non-empty pieces the body arrives in, when
  the temporary file can be created and the file system keeps its promises, the handler ends with a
  200 response and no error text, gives its memory back, and the file named in the request holds the
  body byte for byte: every sector is erased before it is written, and no erase loses bytes already
  written.
\<close>

theorem upload_stores_body:
  assumes laws: "appfs_laws x rd cap dir"
    and c: "connected c" "cgiData c = PNull" "post_received c = 0"
    and pieces: "ds \<noteq> []" "[] \<notin> set ds" "post_len c = int (length (concat ds))"
    and created: "fst (fst (appfsCreateFile x UPLOAD_TEMP_NAME (post_len c) (w_fs w))) = ESP_OK"
    and name: "name = snd (httpdFindArg x (getArgs c) ''name'' [] 512)"
  shows "\<exists>c' w' fd. upload_session x c w ds = Inr (HTTPD_CGI_DONE, c', w') \<and>
    w_out w' = w_out w @ [StartResponse 200, Header ''Content-Type'' ''text/plain'', EndHeaders] \<and>
    w_blocks w' = w_blocks w \<and> dir (w_fs w') name = Some fd \<and>
    (\<forall>i < length (concat ds). rd (w_fs w') fd (int i) = concat ds ! i)"
proof -
  let ?data = "concat ds"
  have ne: "?data \<noteq> []" using pieces(1,2) by (cases ds) auto
  obtain fd f1 where cr: "appfsCreateFile x UPLOAD_TEMP_NAME (post_len c) (w_fs w) = ((ESP_OK, fd), f1)"
    using created by (cases "appfsCreateFile x UPLOAD_TEMP_NAME (post_len c) (w_fs w)") auto
  obtain n where fa: "httpdFindArg x (getArgs c) ''name'' [] 512 = (n, name)"
    using name by (cases "httpdFindArg x (getArgs c) ''name'' [] 512") auto
  obtain st1 where it: "upload_iter x c (upload_init, w_fs w, ?data) = Inr (st1, f1, ?data)"
    and st1: "us_state st1 = FLST_WRITE" "us_name st1 = name" "us_fd st1 = fd"
      "us_address st1 = 0" "us_pagePos st1 = 0" "us_len st1 = post_len c"
      "us_pageData st1 = replicate (nat PAGELEN) 0"
    using cr fa by (auto simp: upload_iter_def upload_start_def upload_init_def Let_def)
  have cap1: "dir f1 UPLOAD_TEMP_NAME = Some fd" "post_len c \<le> cap f1 fd" "32768 dvd cap f1 fd"
    using laws_create [of x cap dir, OF _ cr] laws by (auto simp: appfs_laws_def)
  have ps: "page_start rd cap st1 f1 ?data"
    using st1 cap1 pieces(3) by (auto simp: page_start_def upload_inv_def PAGELEN_nat)
  from pages_done [OF laws ps ne, of c] cap1(1) st1 obtain st' f' where
    run: "upload_loop x c upload_init (w_fs w) ?data = Inr (st', f')" "us_state st' = FLST_DONE"
      "dir f' = ((dir f1)(UPLOAD_TEMP_NAME := None))(name \<mapsto> fd)"
      "\<forall>i < length ?data. rd f' fd (int i) = ?data ! i"
    using upload_loop_step [OF ne it] by auto
  from session_whole [OF c pieces, of x w] run(1)
  obtain c' where "upload_session x c w ds =
      Inr (HTTPD_CGI_DONE, c', upload_reply st' (w\<lparr>w_fs := f'\<rparr>))" by auto
  with run(2-4) show ?thesis by (auto simp: upload_reply_def emit_def)
qed

lemma demo_appfs_laws: "appfs_laws demo_ext d_mem d_cap d_dir"
proof -
  have "n \<le> (n + 65535) div 65536 * 65536" for n :: int by linarith
  moreover have "32768 dvd (n + 65535) div 65536 * 65536" for n :: int
    by (rule dvd_mult) simp
  ultimately have "law_create demo_ext d_cap d_dir"
    by (auto simp: law_create_def demo_ext_def demo_create_def Let_def)
  moreover have "law_erase demo_ext d_mem d_cap d_dir"
    by (auto simp: law_erase_def demo_ext_def demo_erase_def)
  moreover have "law_write demo_ext d_mem d_cap d_dir"
    by (auto simp: law_write_def demo_ext_def demo_write_def)
  moreover have "law_rename demo_ext d_mem d_cap d_dir"
    by (auto simp: law_rename_def demo_ext_def demo_rename_def)
  ultimately show ?thesis by (simp add: appfs_laws_def)
qed

theorem upload_stores_body_witness:
  "\<exists>c' w' fd. upload_session demo_ext (demo_conn ''a.app'' 5) (demo_world demo_empty)
      [[1, 2], [3, 4, 5]] = Inr (HTTPD_CGI_DONE, c', w') \<and>
    d_dir (w_fs w') ''a.app'' = Some fd \<and> d_mem (w_fs w') fd 4 = 5"
proof -
  let ?c = "demo_conn ''a.app'' 5 :: upload_state conn" and ?w = "demo_world demo_empty"
  have cr: "fst (fst (appfsCreateFile demo_ext UPLOAD_TEMP_NAME (post_len ?c) (w_fs ?w))) = ESP_OK"
    by (simp add: demo_ext_def demo_create_def Let_def)
  have nm: "''a.app'' = snd (httpdFindArg demo_ext (getArgs ?c) ''name'' [] 512)"
    by (simp add: demo_ext_def demo_conn_def)
  from upload_stores_body [OF demo_appfs_laws _ _ _ _ _ _ cr nm, of "[[1, 2], [3, 4, 5]]"]
  obtain c' w' fd where r:
    "upload_session demo_ext ?c ?w [[1, 2], [3, 4, 5]] = Inr (HTTPD_CGI_DONE, c', w')"
    "d_dir (w_fs w') ''a.app'' = Some fd"
    "\<forall>i < 5. d_mem (w_fs w') fd (int i) = [1, 2, 3, 4, 5] ! i"
    by (auto simp: demo_conn_def)
  from r(3) [rule_format, of 4] have "d_mem (w_fs w') fd 4 = 5" by simp
  with r show ?thesis by auto
qed

text \<open>
  C23. How the network cuts the body into pieces does not matter. Two divisions of the same body into
  non-empty pieces leave the same world behind (files, response, memory), whatever the file system
  answers, errors included.
\<close>

theorem upload_pieces_irrelevant:
  assumes "connected c" "cgiData c = PNull" "post_received c = 0"
    and "ds \<noteq> []" "[] \<notin> set ds" "es \<noteq> []" "[] \<notin> set es"
    and "concat ds = concat es" "post_len c = int (length (concat es))"
  shows "\<exists>c1 c2 w'. upload_session x c w ds = Inr (HTTPD_CGI_DONE, c1, w') \<and>
    upload_session x c w es = Inr (HTTPD_CGI_DONE, c2, w') \<and> w_blocks w' = w_blocks w"
  using session_whole [of c ds x w] session_whole [of c es x w] assms by auto

theorem upload_pieces_irrelevant_witness:
  "\<exists>c1 c2 w'. upload_session demo_ext (demo_conn [] 3) (demo_world demo_empty)
      [[1], [2, 3]] = Inr (HTTPD_CGI_DONE, c1, w') \<and>
    upload_session demo_ext (demo_conn [] 3) (demo_world demo_empty)
      [[1, 2, 3]] = Inr (HTTPD_CGI_DONE, c2, w')"
  using upload_pieces_irrelevant [of "demo_conn [] 3" "[[1], [2, 3]]" "[[1, 2, 3]]" demo_ext
      "demo_world demo_empty"]
  by (auto simp: demo_conn_def)

text \<open>
  C24. The handler is memory safe and owns its state. On any connection whose state is absent or one
  the handler left there, with any file system, a call has no fault (no copy outside the page
  buffer, no use after free) and returns the state in good order; when it is done, or the connection
  is gone, the state has been freed, and while it goes on exactly one block is held.
\<close>

definition upload_conn_ok :: "upload_state conn \<Rightarrow> bool" where
  "upload_conn_ok c \<longleftrightarrow> 0 \<le> post_len c \<and>
     (case cgiData c of PNull \<Rightarrow> True | PLive st \<Rightarrow> upload_inv st | PDangling \<Rightarrow> False)"

definition held :: "'st conn \<Rightarrow> int" where
  "held c = (case cgiData c of PLive _ \<Rightarrow> 1 | _ \<Rightarrow> 0)"

lemma upload_body_safe:
  assumes "upload_inv st" "0 \<le> post_len c"
  shows "\<exists>r c' w'. upload_body x c st w = Inr (r, c', w') \<and>
    (r = HTTPD_CGI_MORE \<longrightarrow> upload_conn_ok c' \<and> w_blocks w' = w_blocks w \<and> held c' = 1) \<and>
    (r = HTTPD_CGI_DONE \<longrightarrow> held c' = 0 \<and> w_blocks w' = w_blocks w - 1)"
  using upload_loop_safe [OF assms, of x "w_fs w" "post_buff c"] assms
  by (auto simp: upload_body_def Let_def upload_conn_ok_def held_def)

theorem upload_memory_safe:
  assumes "upload_conn_ok c"
  shows "\<exists>r c' w'. cgiUploadFile x calloc_ok c w = Inr (r, c', w') \<and>
    w_blocks w' - held c' = w_blocks w - held c \<and>
    (r = HTTPD_CGI_MORE \<longrightarrow> upload_conn_ok c' \<and> held c' = 1) \<and>
    (r = HTTPD_CGI_DONE \<longrightarrow> held c' = 0)"
proof (cases "connected c")
  case False
  with assms show ?thesis
    by (auto simp: cgiUploadFile_def cgi_aborted_def free_cptr_def upload_conn_ok_def held_def
        split: cptr.splits)
next
  case True
  show ?thesis
  proof (cases "cgiData c")
    case PNull
    show ?thesis
    proof (cases calloc_ok)
      case T2: True
      have "0 \<le> post_len c" using assms by (simp add: upload_conn_ok_def)
      from upload_body_safe [OF upload_inv_init this, of x "w\<lparr>w_blocks := w_blocks w + 1\<rparr>"]
      obtain r c' w' where "upload_body x c upload_init (w\<lparr>w_blocks := w_blocks w + 1\<rparr>) = Inr (r, c', w')"
        "r = HTTPD_CGI_MORE \<longrightarrow> upload_conn_ok c' \<and> w_blocks w' = w_blocks w + 1 \<and> held c' = 1"
        "r = HTTPD_CGI_DONE \<longrightarrow> held c' = 0 \<and> w_blocks w' = w_blocks w" by auto
      with True PNull T2 show ?thesis by (cases r) (auto simp: cgiUploadFile_def held_def)
    next
      case False
      with True PNull show ?thesis by (auto simp: cgiUploadFile_def held_def)
    qed
  next
    case (PLive st)
    with assms have "upload_inv st" "0 \<le> post_len c" by (auto simp: upload_conn_ok_def)
    from upload_body_safe [OF this, of x w] obtain r c' w' where
      "upload_body x c st w = Inr (r, c', w')"
      "r = HTTPD_CGI_MORE \<longrightarrow> upload_conn_ok c' \<and> w_blocks w' = w_blocks w \<and> held c' = 1"
      "r = HTTPD_CGI_DONE \<longrightarrow> held c' = 0 \<and> w_blocks w' = w_blocks w - 1" by auto
    with True PLive show ?thesis by (cases r) (auto simp: cgiUploadFile_def held_def)
  next
    case PDangling
    with assms show ?thesis by (simp add: upload_conn_ok_def)
  qed
qed

theorem upload_memory_safe_witness:
  "\<exists>r c' w'. cgiUploadFile demo_ext True (demo_conn ''a'' 3) (demo_world demo_empty)
      = Inr (r, c', w')"
  using upload_memory_safe [of "demo_conn ''a'' 3" demo_ext True "demo_world demo_empty"]
  by (auto simp: upload_conn_ok_def demo_conn_def)

text \<open>
  C14. A missing file name is not reported. The handler notes the error \<open>No name\<close>, and creating
  the temporary file then overwrites it: after the first step the state is the error state exactly
  when creating the file failed, whatever became of the name.
\<close>

theorem upload_missing_name_forgotten:
  "us_state (fst (upload_start x c st f)) =
    (if fst (fst (appfsCreateFile x UPLOAD_TEMP_NAME (post_len c) f)) = ESP_OK
     then FLST_WRITE else FLST_ERROR)"
  by (auto simp: upload_start_def Let_def split: prod.splits)

text \<open>
  C30. A body that fits into one page is reported as stored although every write to flash failed: the
  end of the last page sets the done state over the error, and the rename succeeds.
\<close>

theorem upload_write_failure_masked:
  assumes c: "connected c" "cgiData c = PNull" "post_received c = 0"
    and d: "d \<noteq> []" "length d \<le> 16384" "post_len c = int (length d)"
    and created: "\<And>f. fst (fst (appfsCreateFile x UPLOAD_TEMP_NAME (post_len c) f)) = ESP_OK"
    and renamed: "\<And>new f. fst (appfsRename x UPLOAD_TEMP_NAME new f) = ESP_OK"
    and failing: "\<And>fd a bs f. fst (appfsWrite x fd a bs f) \<noteq> ESP_OK"
  shows "\<exists>c' w'. upload_session x c w [d] = Inr (HTTPD_CGI_DONE, c', w') \<and>
    w_out w' = w_out w @ [StartResponse 200, Header ''Content-Type'' ''text/plain'', EndHeaders]"
proof -
  obtain st1 f1 where start: "upload_start x c upload_init (w_fs w) = (st1, f1)"
    by (cases "upload_start x c upload_init (w_fs w)")
  have st1: "us_state st1 = FLST_WRITE" "us_pagePos st1 = 0" "us_len st1 = int (length d)"
    "upload_inv st1"
    using start created [of "w_fs w"] d(3)
    by (auto simp: upload_start_def upload_init_def upload_inv_def PAGELEN_nat Let_def
        split: prod.splits)
  have ll: "lenLeft st1 = int (length d)" using st1 d(2) by (simp add: lenLeft_def PAGELEN_nat)
  obtain st2 where cp: "upload_copy st1 d (int (length d)) = Inr st2" and l2: "us_len st2 = 0"
    using upload_copy_ok [of st1 "int (length d)" d] st1 ll by auto
  obtain st3 f3 where fl: "upload_flush x st2 f1 = (st3, f3)" by (cases "upload_flush x st2 f1")
  have s3: "us_state st3 = FLST_DONE"
    using fl l2 renamed
    by (auto simp: upload_step_defs Let_def split: prod.splits if_splits) (metis fst_conv)+
  have "upload_loop x c upload_init (w_fs w) d = upload_loop x c st1 f1 d"
    using start by (intro upload_loop_step [OF d(1)]) (simp add: upload_iter_def upload_init_def)
  also have "\<dots> = Inr (st3, f3)"
    using upload_loop_step [OF d(1), of x c st1 f1 st3 f3 "[]"] st1 ll cp fl
    by (simp add: upload_iter_def)
  finally show ?thesis
    using session_whole [OF c, of "[d]" x w] d s3 by (auto simp: upload_reply_def)
qed

theorem upload_write_failure_masked_witness:
  "\<exists>c' w'. upload_session (demo_ext\<lparr>appfsWrite := \<lambda>fd a bs f. (1, f),
        appfsRename := \<lambda>a b f. (ESP_OK, f)\<rparr>)
      (demo_conn ''a'' 1) (demo_world demo_empty) [[7]] = Inr (HTTPD_CGI_DONE, c', w') \<and>
    w_out w' = [StartResponse 200, Header ''Content-Type'' ''text/plain'', EndHeaders]"
  using upload_write_failure_masked [of "demo_conn ''a'' 1" "[7]"
      "demo_ext\<lparr>appfsWrite := \<lambda>fd a bs f. (1, f), appfsRename := \<lambda>a b f. (ESP_OK, f)\<rparr>"
      "demo_world demo_empty"]
  by (auto simp: demo_ext_def demo_create_def demo_conn_def demo_world_def Let_def ESP_OK_def)

end
