(* ===== verification/Chunked_Transfer.thy ===== *)
theory Chunked_Transfer
  imports Http_Api
begin

text \<open>
  What the three download handlers (\<open>cgiDownloadFile\<close>, \<open>cgiDownloadFlash\<close>, \<open>cgiDownloadLog\<close>) have in
  common: each call sends the next at most 1024 bytes, and the call that sends the last byte frees the
  state. The locale \<open>chunked_source\<close> is the contract of the routine that fetches the next piece;
  its client is the common tail of the handlers under the web server's calling discipline.
\<close>

definition DOWNLOAD_CHUNK_SIZE :: int where
  "DOWNLOAD_CHUNK_SIZE = 1024"

definition chunk_len :: "int \<Rightarrow> int \<Rightarrow> int" where
  "chunk_len sz pos =
     (let len = sz - pos in if DOWNLOAD_CHUNK_SIZE < len then DOWNLOAD_CHUNK_SIZE else len)"

definition transfer_tail ::
  "('st \<Rightarrow> (byte list \<times> 'st \<times> bool) result) \<Rightarrow> 'st conn \<Rightarrow> 'st \<Rightarrow> 'fs world
    \<Rightarrow> (cgi_ret \<times> 'st conn \<times> 'fs world) result" where
  "transfer_tail push c st w =
     bindE (push st) (\<lambda>(data, st', fin).
       let w1 = emit [SendData data] w in
       if fin then Inr (HTTPD_CGI_DONE, c\<lparr>cgiData := PDangling\<rparr>, w1\<lparr>w_blocks := w_blocks w1 - 1\<rparr>)
       else Inr (HTTPD_CGI_MORE, c\<lparr>cgiData := PLive st'\<rparr>, w1))"

text \<open>The web server calls a handler again until it answers that it is done.\<close>

fun cgi_run ::
  "nat \<Rightarrow> ('st conn \<Rightarrow> 'fs world \<Rightarrow> (cgi_ret \<times> 'st conn \<times> 'fs world) result)
    \<Rightarrow> 'st conn \<Rightarrow> 'fs world \<Rightarrow> ('st conn \<times> 'fs world) result option" where
  "cgi_run 0 h c w = None"
| "cgi_run (Suc n) h c w =
     (case h c w of
        Inl e \<Rightarrow> Some (Inl e)
      | Inr (HTTPD_CGI_DONE, c', w') \<Rightarrow> Some (Inr (c', w'))
      | Inr (HTTPD_CGI_MORE, c', w') \<Rightarrow> cgi_run n h c' w')"

text \<open>The pieces a content is sent in.\<close>

function chunks_of :: "byte list \<Rightarrow> byte list list" where
  "chunks_of bs = (if length bs \<le> 1024 then [bs] else take 1024 bs # chunks_of (drop 1024 bs))"
  by pat_completeness auto
termination
  by (relation "measure length") auto

declare chunks_of.simps [simp del]

lemma concat_chunks_of [simp]: "concat (chunks_of bs) = bs"
proof (induction bs rule: chunks_of.induct)
  case (1 bs)
  then show ?case
    by (cases "length bs \<le> 1024") (auto simp: chunks_of.simps [of bs])
qed

lemma chunks_of_bound: "d \<in> set (chunks_of bs) \<Longrightarrow> length d \<le> 1024"
proof (induction bs rule: chunks_of.induct)
  case (1 bs)
  then show ?case
    by (cases "length bs \<le> 1024") (auto simp: chunks_of.simps [of bs])
qed

lemma length_chunks_of: "length (chunks_of bs) = max 1 ((length bs + 1023) div 1024)"
proof (induction bs rule: chunks_of.induct)
  case (1 bs)
  show ?case
  proof (cases "length bs \<le> 1024")
    case True
    then have "(length bs + 1023) div 1024 \<le> 1" by linarith
    with True show ?thesis by (simp add: chunks_of.simps [of bs])
  next
    case False
    then have "(length bs + 1023) div 1024 = Suc ((length bs - 1024 + 1023) div 1024)"
      and "1 \<le> (length bs - 1024 + 1023) div 1024" by linarith+
    with False 1 show ?thesis by (simp add: chunks_of.simps [of bs])
  qed
qed

locale chunked_source =
  fixes push :: "'st \<Rightarrow> (byte list \<times> 'st \<times> bool) result"
    and rest :: "'st \<Rightarrow> byte list"
    and good :: "'st \<Rightarrow> bool"
  assumes push_ok: "good st \<Longrightarrow>
    \<exists>st'. push st = Inr (take 1024 (rest st), st', length (rest st) \<le> 1024) \<and>
      (1024 < length (rest st) \<longrightarrow> good st' \<and> rest st' = drop 1024 (rest st))"
begin

lemma transfer_run:
  assumes h: "\<And>c st w. connected c \<Longrightarrow> cgiData c = PLive st \<Longrightarrow> w_fs w = f \<Longrightarrow>
      h c w = transfer_tail push c st w"
    and "connected c" "cgiData c = PLive st" "w_fs w = f" "good st"
  shows "\<exists>c'. cgi_run (length (chunks_of (rest st))) h c w =
      Some (Inr (c', w\<lparr>w_out := w_out w @ map SendData (chunks_of (rest st)),
                        w_blocks := w_blocks w - 1\<rparr>)) \<and> cgiData c' = PDangling"
  using assms(2-)
proof (induction "rest st" arbitrary: c st w rule: length_induct)
  case 1
  from push_ok [OF "1.prems"(4)] obtain st' where
    p: "push st = Inr (take 1024 (rest st), st', length (rest st) \<le> 1024)" and
    nxt: "1024 < length (rest st) \<Longrightarrow> good st' \<and> rest st' = drop 1024 (rest st)" by blast
  show ?case
  proof (cases "length (rest st) \<le> 1024")
    case True
    with p h [OF "1.prems"(1-3)] show ?thesis
      by (simp add: chunks_of.simps [of "rest st"] transfer_tail_def emit_def Let_def)
  next
    case False
    let ?c = "c\<lparr>cgiData := PLive st'\<rparr>" and ?w = "emit [SendData (take 1024 (rest st))] w"
    from False nxt have nx: "good st'" "rest st' = drop 1024 (rest st)" by auto
    from nx False have less: "length (rest st') < length (rest st)" by simp
    from "1.hyps" [rule_format, OF less refl, of ?c ?w] nx False "1.prems" obtain c' where
      "cgi_run (length (chunks_of (rest st'))) h ?c ?w =
        Some (Inr (c', ?w\<lparr>w_out := w_out ?w @ map SendData (chunks_of (rest st')),
                          w_blocks := w_blocks ?w - 1\<rparr>))" "cgiData c' = PDangling"
      by auto
    with False p nx h [OF "1.prems"(1-3)] show ?thesis
      by (simp add: chunks_of.simps [of "rest st"] transfer_tail_def emit_def Let_def)
  qed
qed

end

lemma cgi_run_more:
  "h c w = Inr (HTTPD_CGI_MORE, c', w') \<Longrightarrow> cgi_run (Suc n) h c w = cgi_run n h c' w'"
  by simp

end
