(* ===== verification/Appfs_Cgi.thy ===== *)
theory Appfs_Cgi
  imports Chunked_Transfer Demo_Fs
begin

text \<open>
  The other handlers of \<open>main/cgiappfs.c\<close>: \<open>cgiDownloadFile\<close> sends a file of the application file
  system, \<open>cgiFileIdx\<close> lists the files as JSON (with \<open>json_esc\<close>), \<open>cgiDelete\<close> removes a file and the
  settings stored under its name.
\<close>

section \<open>cgiDownloadFile\<close>

record download_state =
  ds_fd :: appfs_fd
  ds_size :: int
  ds_pos :: int

definition download_init :: download_state where
  "download_init = \<lparr>ds_fd = 0, ds_size = 0, ds_pos = 0\<rparr>"

definition quote_safe :: "char \<Rightarrow> char" where
  \<comment> \<open>quotes and bytes above 127 become underscores\<close>
  "quote_safe ch =
     (if ch = CHR 0x27 \<or> ch = CHR 0x22 \<or> 128 \<le> (of_char ch :: nat) then CHR ''_'' else ch)"

definition download_disposition :: "string \<Rightarrow> string result" where
  "download_disposition name =
     in_buffer 256 (''attachment; filename='' @ [CHR 0x22] @ map quote_safe name @ [CHR 0x22])"

definition download_open ::
  "'fs ext \<Rightarrow> download_state conn \<Rightarrow> download_state \<Rightarrow> 'fs world
    \<Rightarrow> (download_state option \<times> 'fs world) result" where
  "download_open x c st w =
     (let (n, sidx) = httpdFindArg x (getArgs c) ''idx'' [] 16;
          idx = (if 0 < n then atoi sidx else - 1)
      in if 0 < n \<and> appfsFdValid x (w_fs w) idx then
           (let (name, sz) = appfsEntryInfo x (w_fs w) idx in
            bindE (download_disposition name) (\<lambda>disp.
              Inr (Some (st\<lparr>ds_size := sz, ds_fd := idx\<rparr>),
                   emit [StartResponse 200,
                         Header ''Content-Type'' ''application/octet-stream'',
                         Header ''Content-Disposition'' disp,
                         Header ''Content-Length'' (fmt_d sz), EndHeaders] w)))
         else Inr (None,
                   emit [StartResponse 404, Header ''Content-Type'' ''text/plain'', EndHeaders,
                         SendText (''Invalid idx var'' @ [CHR 0x0A])] w))"

definition download_push ::
  "'fs ext \<Rightarrow> 'fs \<Rightarrow> download_state \<Rightarrow> (byte list \<times> download_state \<times> bool) result" where
  "download_push x f st =
     (let len = chunk_len (ds_size st) (ds_pos st) in
      if len < 0 then Inl NegativeSize
      else let data = appfsRead x f (ds_fd st) (ds_pos st) len;
               st' = st\<lparr>ds_pos := ds_pos st + len\<rparr>
           in Inr (take (nat len) data, st', ds_pos st' = ds_size st'))"

definition cgiDownloadFile ::
  "'fs ext \<Rightarrow> bool \<Rightarrow> download_state conn \<Rightarrow> 'fs world
    \<Rightarrow> (cgi_ret \<times> download_state conn \<times> 'fs world) result" where
  "cgiDownloadFile x calloc_ok c w =
     (if \<not> connected c then cgi_aborted c w
      else case cgiData c of
             PNull \<Rightarrow>
               (if \<not> calloc_ok then Inr (HTTPD_CGI_DONE, c, w)
                else bindE (download_open x c download_init (w\<lparr>w_blocks := w_blocks w + 1\<rparr>))
                       (\<lambda>(o_st, w1).
                          case o_st of
                            None \<Rightarrow> Inr (HTTPD_CGI_DONE, c\<lparr>cgiData := PLive download_init\<rparr>, w1)
                          | Some st \<Rightarrow> transfer_tail (download_push x (w_fs w1))
                                        (c\<lparr>cgiData := PLive st\<rparr>) st w1))
           | _ \<Rightarrow> bindE (deref (cgiData c))
                    (\<lambda>st. transfer_tail (download_push x (w_fs w)) c st w))"

section \<open>json_esc and cgiFileIdx\<close>

definition esc_letter :: "char \<Rightarrow> char option" where
  "esc_letter ch =
     (if ch = CHR 8 then Some (CHR ''b'')
      else if ch = CHR 12 then Some (CHR ''f'')
      else if ch = CHR 10 then Some (CHR ''n'')
      else if ch = CHR 13 then Some (CHR ''r'')
      else if ch = CHR 9 then Some (CHR ''t'')
      else if ch = CHR 34 then Some (CHR 34)
      else if ch = CHR 92 then Some (CHR 92)
      else None)"

fun json_esc_loop :: "int \<Rightarrow> string \<Rightarrow> string \<Rightarrow> string" where
  "json_esc_loop bufsz j [] = j"
| "json_esc_loop bufsz j (ch # cs) =
     (if bufsz - 3 \<le> int (length j) then j
      else case esc_letter ch of
             None \<Rightarrow> json_esc_loop bufsz (j @ [ch]) cs
           | Some e \<Rightarrow> json_esc_loop bufsz (j @ [CHR 92, e]) cs)"

definition json_esc :: "string \<Rightarrow> int \<Rightarrow> string" where
  \<comment> \<open>the characters written before the terminator; the input is the string up to its own\<close>
  "json_esc s bufsz = json_esc_loop bufsz [] (takeWhile (\<lambda>ch. ch \<noteq> CHR 0x00) s)"

definition file_entry :: "bool \<Rightarrow> appfs_fd \<Rightarrow> string \<Rightarrow> int \<Rightarrow> string" where
  "file_entry comma fd name sz =
     (if comma then '','' else []) @ ''{'' @ [CHR 0x22] @ ''index'' @ [CHR 0x22] @ '': '' @ fmt_d fd @
     '', '' @ [CHR 0x22] @ ''name'' @ [CHR 0x22] @ '': '' @ [CHR 0x22] @ name @ [CHR 0x22] @
     '', '' @ [CHR 0x22] @ ''size'' @ [CHR 0x22] @ '': '' @ fmt_d sz @
     '', '' @ [CHR 0x22] @ ''addr'' @ [CHR 0x22] @ '': '' @ [CHR 0x22] @ ''0x'' @ fmt_X 0 @
     [CHR 0x22] @ '' }'' @ [CHR 0x0A]"

definition idx_head :: string where
  "idx_head = ''{'' @ [CHR 0x0A] @ [CHR 0x22] @ ''files'' @ [CHR 0x22] @ '': ['' @ [CHR 0x0A]"

definition idx_tail :: string where
  "idx_tail = ''],'' @ [CHR 0x0A] @ [CHR 0x22] @ ''free'' @ [CHR 0x22] @ '': ''"

definition cgiFileIdx ::
  "'fs ext \<Rightarrow> int \<Rightarrow> 'fs world \<Rightarrow> (cgi_ret \<times> int \<times> 'fs world) result" where
  \<comment> \<open>the integer is \<open>connData->cgiData\<close>, which the handler uses as its cursor\<close>
  "cgiFileIdx x idx w =
     (let (fd0, w1) =
            (if idx = 0
             then (APPFS_INVALID_FD,
                   emit [StartResponse 200, Header ''Content-Type'' ''text/json'', EndHeaders,
                         SendText idx_head] w)
             else (idx - 0x100, w));
          fd = appfsNextEntry x (w_fs w1) fd0
      in if fd \<noteq> APPFS_INVALID_FD then
           (let (name, sz) = appfsEntryInfo x (w_fs w1) fd in
            bindE (in_buffer 128 (json_esc name 128)) (\<lambda>name_esc.
            bindE (in_buffer 256 (file_entry (idx \<noteq> 0) fd name_esc sz)) (\<lambda>buff.
              Inr (HTTPD_CGI_MORE, fd + 0x100, emit [SendText buff] w1))))
         else Inr (HTTPD_CGI_DONE, idx,
                   emit [SendText idx_tail, SendText (fmt_d (appfsGetFreeMem x (w_fs w1))),
                         SendText (''}'' @ [CHR 0x0A])] w1))"

section \<open>cgiDelete\<close>

definition cgiDelete :: "'fs ext \<Rightarrow> 'st conn \<Rightarrow> 'fs world \<Rightarrow> cgi_ret \<times> 'fs world" where
  "cgiDelete x c w =
     (let (n, fdText) = httpdFindArg x (getArgs c) ''idx'' [] 16
      in if 0 < n then
           (let fd = atoi fdText;
                (name, sz) = appfsEntryInfo x (w_fs w) fd;
                ((r, nvsh), f1) = nvsOpen x name (w_fs w);
                f2 = (if r = ESP_OK then nvsClose x nvsh (nvsCommit x nvsh (nvsEraseAll x nvsh f1))
                      else f1);
                (err, f3) = appfsDeleteFile x name f2
            in (HTTPD_CGI_DONE,
                emit [StartResponse 302, Header ''Content-Type'' ''text/html'',
                      Header ''Location'' ''index.html'', EndHeaders, SendText ''Killed'']
                  (w\<lparr>w_fs := f3\<rparr>)))
         else (HTTPD_CGI_DONE,
               emit [StartResponse 200, Header ''Content-Type'' ''text/html'', EndHeaders,
                     SendText (''Invalid idx var'' @ [CHR 0x0A])] w))"

section \<open>The download as a source of pieces\<close>

text \<open>What reading promises: the file has this content.\<close>

definition file_is :: "'fs ext \<Rightarrow> 'fs \<Rightarrow> appfs_fd \<Rightarrow> byte list \<Rightarrow> bool" where
  "file_is x f fd body \<longleftrightarrow>
     (\<forall>p n. 0 \<le> p \<and> 0 \<le> n \<and> p + n \<le> int (length body) \<longrightarrow>
        appfsRead x f fd p n = take (nat n) (drop (nat p) body))"

definition download_good :: "'fs ext \<Rightarrow> 'fs \<Rightarrow> byte list \<Rightarrow> download_state \<Rightarrow> bool" where
  "download_good x f body st \<longleftrightarrow>
     file_is x f (ds_fd st) body \<and> ds_size st = int (length body) \<and>
     0 \<le> ds_pos st \<and> ds_pos st \<le> ds_size st"

lemma chunk_len_cases:
  "pos \<le> sz \<Longrightarrow> chunk_len sz pos = min 1024 (sz - pos)"
  by (auto simp: chunk_len_def DOWNLOAD_CHUNK_SIZE_def Let_def)

interpretation download: chunked_source
  "download_push x f" "\<lambda>st. drop (nat (ds_pos st)) body" "download_good x f body" for x f body
proof
  fix st
  assume g: "download_good x f body st"
  then have pos: "0 \<le> ds_pos st" "ds_pos st \<le> int (length body)" "ds_size st = int (length body)"
    and fil: "file_is x f (ds_fd st) body" by (auto simp: download_good_def)
  let ?n = "min 1024 (int (length body) - ds_pos st)"
  let ?rest = "drop (nat (ds_pos st)) body"
  let ?st = "st\<lparr>ds_pos := ds_pos st + ?n\<rparr>"
  have "appfsRead x f (ds_fd st) (ds_pos st) ?n = take (nat ?n) ?rest"
    using fil pos by (simp add: file_is_def)
  moreover have "take (nat ?n) ?rest = take 1024 ?rest"
    using pos by (auto simp: min_def)
  moreover have "(ds_pos st + ?n = int (length body)) = (length ?rest \<le> 1024)"
    using pos by auto
  ultimately have "download_push x f st = Inr (take 1024 ?rest, ?st, length ?rest \<le> 1024)"
    using pos by (simp add: download_push_def chunk_len_cases Let_def)
  moreover have "download_good x f body ?st \<and> drop (nat (ds_pos ?st)) body = drop 1024 ?rest"
    if "1024 < length ?rest"
  proof -
    have "?n = 1024" using that pos by auto
    then show ?thesis using that pos fil
      by (auto simp: download_good_def nat_add_distrib add.commute)
  qed
  ultimately show "\<exists>st'. download_push x f st = Inr (take 1024 ?rest, st', length ?rest \<le> 1024) \<and>
      (1024 < length ?rest \<longrightarrow>
        download_good x f body st' \<and> drop (nat (ds_pos st')) body = drop 1024 ?rest)"
    by blast
qed

end
