(* ===== verification/Appfs_Props.thy ===== *)
theory Appfs_Props
  imports Appfs_Cgi
begin

text \<open>
  Properties of the download, listing and delete handlers: the bytes a client receives, the escaping
  of names in the listing, the listing itself, and the paths that go wrong.
\<close>

section \<open>Downloads\<close>

lemma cgiDownloadFile_live:
  "connected c \<Longrightarrow> cgiData c = PLive st \<Longrightarrow> w_fs w = f \<Longrightarrow>
    cgiDownloadFile x ok c w = transfer_tail (download_push x f) c st w"
  by (simp add: cgiDownloadFile_def)

lemma download_run:
  assumes "connected c" "cgiData c = PLive st" "download_good x (w_fs w) body st"
  shows "\<exists>c'. cgi_run (length (chunks_of (drop (nat (ds_pos st)) body))) (cgiDownloadFile x True) c w =
      Some (Inr (c', w\<lparr>w_out := w_out w @ map SendData (chunks_of (drop (nat (ds_pos st)) body)),
                        w_blocks := w_blocks w - 1\<rparr>)) \<and> cgiData c' = PDangling"
  by (rule download.transfer_run [where f = "w_fs w", OF _ assms(1,2) refl assms(3)])
    (rule cgiDownloadFile_live)

lemma cgi_run_first_call:
  "h c w = h c1 w1 \<Longrightarrow> 0 < n \<Longrightarrow> cgi_run n h c w = cgi_run n h c1 w1"
  by (cases n) simp_all

lemma length_chunks_pos: "0 < length (chunks_of bs)"
  by (simp add: length_chunks_of)

lemma download_disposition_ok:
  "length name \<le> 232 \<Longrightarrow> download_disposition name =
    Inr (''attachment; filename='' @ [CHR 0x22] @ map quote_safe name @ [CHR 0x22])"
  by (simp add: download_disposition_def in_buffer_def)

text \<open>
  C25. A download delivers the file. For a valid index the handler, called until it says it is done,
  answers 200 with the file's size as content length, sends pieces of at most 1024 bytes whose
  concatenation is the file's content, in as many calls as there are pieces, and frees its state.
\<close>

theorem download_sends_file:
  assumes c: "connected c" "cgiData c = PNull"
    and idx: "httpdFindArg x (getArgs c) ''idx'' [] 16 = (n, sidx)" "0 < n"
    and valid: "appfsFdValid x (w_fs w) (atoi sidx)"
    and info: "appfsEntryInfo x (w_fs w) (atoi sidx) = (name, int (length body))"
    and short: "length name \<le> 232"
    and content: "file_is x (w_fs w) (atoi sidx) body"
  shows "\<exists>c' w' ds. cgi_run (max 1 ((length body + 1023) div 1024)) (cgiDownloadFile x True) c w =
      Some (Inr (c', w')) \<and> cgiData c' = PDangling \<and> w_blocks w' = w_blocks w \<and>
    w_fs w' = w_fs w \<and>
    w_out w' = w_out w @ [StartResponse 200,
      Header ''Content-Type'' ''application/octet-stream'',
      Header ''Content-Disposition''
        (''attachment; filename='' @ [CHR 0x22] @ map quote_safe name @ [CHR 0x22]),
      Header ''Content-Length'' (fmt_d (int (length body))), EndHeaders] @ map SendData ds \<and>
    concat ds = body \<and> (\<forall>d \<in> set ds. length d \<le> 1024)"
proof -
  define st where "st = \<lparr>ds_fd = atoi sidx, ds_size = int (length body), ds_pos = 0\<rparr>"
  define hs where "hs = [StartResponse 200,
      Header ''Content-Type'' ''application/octet-stream'',
      Header ''Content-Disposition''
        (''attachment; filename='' @ [CHR 0x22] @ map quote_safe name @ [CHR 0x22]),
      Header ''Content-Length'' (fmt_d (int (length body))), EndHeaders]"
  let ?c = "c\<lparr>cgiData := PLive st\<rparr>" and ?w = "emit hs (w\<lparr>w_blocks := w_blocks w + 1\<rparr>)"
  have good: "download_good x (w_fs w) body st"
    using content by (simp add: download_good_def st_def)
  have "cgiDownloadFile x True c w = cgiDownloadFile x True ?c ?w"
    using c idx valid info download_disposition_ok [OF short]
    by (simp add: cgiDownloadFile_def download_open_def download_init_def st_def hs_def)
  then have first: "cgi_run (length (chunks_of body)) (cgiDownloadFile x True) c w =
      cgi_run (length (chunks_of body)) (cgiDownloadFile x True) ?c ?w"
    by (rule cgi_run_first_call) (rule length_chunks_pos)
  have live: "connected ?c" "cgiData ?c = PLive st" "w_fs ?w = w_fs w" using c(1) by simp_all
  have rest: "drop (nat (ds_pos st)) body = body" by (simp add: st_def)
  obtain c' where r: "cgi_run (length (chunks_of body)) (cgiDownloadFile x True) ?c ?w =
      Some (Inr (c', ?w\<lparr>w_out := w_out ?w @ map SendData (chunks_of body),
        w_blocks := w_blocks ?w - 1\<rparr>))" "cgiData c' = PDangling"
    using download_run [OF live(1,2) good [folded live(3)]] unfolding rest by blast
  have "cgi_run (max 1 ((length body + 1023) div 1024)) (cgiDownloadFile x True) c w =
      Some (Inr (c', ?w\<lparr>w_out := w_out ?w @ map SendData (chunks_of body),
        w_blocks := w_blocks ?w - 1\<rparr>))"
    using first r(1) by (simp add: length_chunks_of)
  with r(2) chunks_of_bound concat_chunks_of show ?thesis
    by (intro exI [of _ c'] exI [of _ "?w\<lparr>w_out := w_out ?w @ map SendData (chunks_of body),
        w_blocks := w_blocks ?w - 1\<rparr>"] exI [of _ "chunks_of body"]) (auto simp: hs_def)
qed

definition demo_one_file :: demo_fs where
  "demo_one_file = demo_empty\<lparr>d_names := [''a.app''], d_sizes := [3], d_mem := \<lambda>_ i. word_of_int i\<rparr>"

theorem download_sends_file_witness:
  "\<exists>c' w' ds. cgi_run 1 (cgiDownloadFile demo_ext True) (demo_conn ''0'' 0) (demo_world demo_one_file)
      = Some (Inr (c', w')) \<and> concat ds = [0, 1, 2] \<and>
    w_out w' = [StartResponse 200,
      Header ''Content-Type'' ''application/octet-stream'',
      Header ''Content-Disposition''
        (''attachment; filename='' @ [CHR 0x22] @ map quote_safe ''a.app'' @ [CHR 0x22]),
      Header ''Content-Length'' (fmt_d 3), EndHeaders] @ map SendData ds"
proof -
  have z: "atoi ''0'' = 0"
    by (simp add: atoi_def strtol_def strtol_unsigned_def isspace_def digit_val_def saturate32_def)
  have fi: "file_is demo_ext demo_one_file 0 [0, 1, 2]"
    unfolding file_is_def
  proof (intro allI impI, elim conjE)
    fix p n :: int
    assume "0 \<le> p" "0 \<le> n" "p + n \<le> int (length [0, 1, 2 :: byte])"
    then have "p \<in> {0, 1, 2, 3}" "n \<in> {0, 1, 2, 3}" "p + n \<le> 3" by auto
    then show "appfsRead demo_ext demo_one_file 0 p n = take (nat n) (drop (nat p) [0, 1, 2])"
      by (auto simp: demo_ext_def demo_one_file_def demo_empty_def numeral_eq_Suc)
  qed
  show ?thesis
    using download_sends_file [of "demo_conn ''0'' 0" demo_ext 1 "''0''" "demo_world demo_one_file"
        "''a.app''" "[0, 1, 2]"] fi
    by (auto simp: z demo_conn_def demo_ext_def demo_world_def demo_one_file_def demo_empty_def)
qed

text \<open>
  A request for an invalid index leaks memory: the handler answers 404 and says it is done, but
  the block it allocated for its state is never freed.
\<close>

theorem download_invalid_index_leaks:
  assumes "connected c" "cgiData c = PNull"
    and "httpdFindArg x (getArgs c) ''idx'' [] 16 = (n, sidx)"
    and "n \<le> 0 \<or> \<not> appfsFdValid x (w_fs w) (atoi sidx)"
  shows "\<exists>c' w'. cgiDownloadFile x True c w = Inr (HTTPD_CGI_DONE, c', w') \<and>
    w_blocks w' = w_blocks w + 1 \<and>
    w_out w' = w_out w @ [StartResponse 404, Header ''Content-Type'' ''text/plain'', EndHeaders,
      SendText (''Invalid idx var'' @ [CHR 0x0A])]"
  using assms by (auto simp: cgiDownloadFile_def download_open_def)

theorem download_invalid_index_leaks_witness:
  "\<exists>c' w'. cgiDownloadFile demo_ext True (demo_conn [] 0) (demo_world demo_empty) =
    Inr (HTTPD_CGI_DONE, c', w') \<and> w_blocks w' = 1"
  using download_invalid_index_leaks [of "demo_conn [] 0" demo_ext "- 1" "[]" "demo_world demo_empty"]
  by (auto simp: demo_conn_def demo_ext_def demo_world_def)

end
