(* ===== verification/Listing_Props.thy ===== *)
theory Listing_Props
  imports Appfs_Cgi
begin

text \<open>
  Properties of \<open>json_esc\<close> (a round trip with a JSON string reader, and its bound) and of the listing
  \<open>cgiFileIdx\<close>.
\<close>

section \<open>Reading a JSON string back\<close>

definition unesc_letter :: "char \<Rightarrow> char option" where
  "unesc_letter ch =
     (if ch = CHR ''b'' then Some (CHR 8)
      else if ch = CHR ''f'' then Some (CHR 12)
      else if ch = CHR ''n'' then Some (CHR 10)
      else if ch = CHR ''r'' then Some (CHR 13)
      else if ch = CHR ''t'' then Some (CHR 9)
      else if ch = CHR 34 then Some (CHR 34)
      else if ch = CHR 92 then Some (CHR 92)
      else None)"

text \<open>The reader stops with no result at an unescaped quote and at an unknown escape.\<close>

fun json_read :: "string \<Rightarrow> string option" where
  "json_read [] = Some []"
| "json_read (ch # cs) =
     (if ch = CHR 34 then None
      else if ch = CHR 92 then
        (case cs of
           [] \<Rightarrow> None
         | e # cs' \<Rightarrow> (case unesc_letter e of
                         None \<Rightarrow> None
                       | Some d \<Rightarrow> map_option ((#) d) (json_read cs')))
      else map_option ((#) ch) (json_read cs))"

definition esc_text :: "char \<Rightarrow> string" where
  "esc_text ch = (case esc_letter ch of None \<Rightarrow> [ch] | Some e \<Rightarrow> [CHR 92, e])"

lemma json_read_esc_text: "json_read (concat (map esc_text s)) = Some s"
  by (induction s) (auto simp: esc_text_def esc_letter_def unesc_letter_def)

lemma esc_text_length: "length (esc_text ch) \<le> 2" "1 \<le> length (esc_text ch)"
  by (auto simp: esc_text_def split: option.splits)

lemma json_esc_loop_Cons:
  "json_esc_loop b j (ch # cs) =
    (if b - 3 \<le> int (length j) then j else json_esc_loop b (j @ esc_text ch) cs)"
  by (auto simp: esc_text_def split: option.splits)

lemma json_esc_loop_prefix:
  "\<exists>k \<le> length s. json_esc_loop b j s = j @ concat (map esc_text (take k s)) \<and>
    (int (length j + length (concat (map esc_text s))) \<le> b - 3 \<longrightarrow> k = length s)"
proof (induction s arbitrary: j)
  case Nil
  then show ?case by simp
next
  case (Cons ch cs)
  show ?case
  proof (cases "b - 3 \<le> int (length j)")
    case True
    with esc_text_length(2) [of ch] show ?thesis
      by (intro exI [of _ 0]) (auto simp del: json_esc_loop.simps simp: json_esc_loop_Cons)
  next
    case False
    from Cons.IH [of "j @ esc_text ch"] obtain k where
      "k \<le> length cs" "json_esc_loop b (j @ esc_text ch) cs =
        (j @ esc_text ch) @ concat (map esc_text (take k cs))"
      "int (length (j @ esc_text ch) + length (concat (map esc_text cs))) \<le> b - 3 \<longrightarrow> k = length cs"
      by blast
    with False show ?thesis
      by (intro exI [of _ "Suc k"])
        (simp del: json_esc_loop.simps add: json_esc_loop_Cons add.assoc)
  qed
qed

lemma json_esc_loop_length:
  "int (length (json_esc_loop b j s)) \<le> max (int (length j)) (b - 2)"
proof (induction s arbitrary: j)
  case Nil
  then show ?case by simp
next
  case (Cons ch cs)
  from Cons.IH [of "j @ esc_text ch"] esc_text_length(1) [of ch] show ?case
    by (auto simp del: json_esc_loop.simps simp: json_esc_loop_Cons)
qed

definition c_text :: "string \<Rightarrow> string" where
  \<comment> \<open>the C string at the start of a buffer\<close>
  "c_text s = takeWhile (\<lambda>ch. ch \<noteq> CHR 0x00) s"

text \<open>
  C26. Escaping a name for the listing can be read back. The output is a well-formed JSON string body
  (no bare quote, only known escapes) that a reader turns back into a prefix of the name, and into
  the whole name whenever its escaped form fits.
\<close>

theorem json_esc_round_trip:
  "\<exists>k. k \<le> length (c_text s) \<and> json_read (json_esc s bufsz) = Some (take k (c_text s)) \<and>
    (int (length (concat (map esc_text (c_text s)))) \<le> bufsz - 3 \<longrightarrow> k = length (c_text s))"
  using json_esc_loop_prefix [of "c_text s" bufsz "[]"]
  by (auto simp: json_esc_def c_text_def json_read_esc_text)

theorem json_esc_round_trip_witness:
  "json_read (json_esc ''a b'' 128) = Some ''a b''"
proof -
  have "length (concat (map esc_text (c_text ''a b''))) = 3" and t: "c_text ''a b'' = ''a b''"
    by (simp_all add: c_text_def esc_text_def esc_letter_def)
  with json_esc_round_trip [of "''a b''" 128] show ?thesis by auto
qed

text \<open>
  Escaping stays inside the output buffer: for any name and any buffer of at least one byte, the
  characters written and the terminator after them fit.
\<close>

theorem json_esc_in_bounds:
  assumes "1 \<le> bufsz"
  shows "int (length (json_esc s bufsz)) + 1 \<le> bufsz"
  using json_esc_loop_length [of bufsz "[]" "takeWhile (\<lambda>ch. ch \<noteq> CHR 0x00) s"] assms
  by (cases "takeWhile (\<lambda>ch. ch \<noteq> CHR 0x00) s")
    (auto simp: json_esc_def max_def split: if_splits option.splits)

theorem json_esc_in_bounds_witness: "int (length (json_esc ''abc'' 4)) + 1 \<le> 4"
  by (rule json_esc_in_bounds) simp

section \<open>The listing\<close>

text \<open>The files a walk with \<open>appfsNextEntry\<close> visits, in its order.\<close>

fun fd_chain :: "'fs ext \<Rightarrow> 'fs \<Rightarrow> appfs_fd \<Rightarrow> appfs_fd list \<Rightarrow> bool" where
  "fd_chain x f fd [] \<longleftrightarrow> appfsNextEntry x f fd = APPFS_INVALID_FD"
| "fd_chain x f fd (e # es) \<longleftrightarrow>
     appfsNextEntry x f fd = e \<and> 0 \<le> e \<and> e < 2 ^ 31 - 256 \<and>
     - (2 ^ 31) \<le> snd (appfsEntryInfo x f e) \<and> snd (appfsEntryInfo x f e) < 2 ^ 31 \<and>
     fd_chain x f e es"

fun listing :: "'fs ext \<Rightarrow> 'fs \<Rightarrow> bool \<Rightarrow> appfs_fd list \<Rightarrow> http_call list" where
  "listing x f comma [] = []"
| "listing x f comma (e # es) =
     SendText (file_entry comma e (json_esc (fst (appfsEntryInfo x f e)) 128)
                (snd (appfsEntryInfo x f e))) # listing x f True es"

fun idx_run :: "nat \<Rightarrow> 'fs ext \<Rightarrow> int \<Rightarrow> 'fs world \<Rightarrow> 'fs world result option" where
  "idx_run 0 x idx w = None"
| "idx_run (Suc n) x idx w =
     (case cgiFileIdx x idx w of
        Inl e \<Rightarrow> Some (Inl e)
      | Inr (HTTPD_CGI_DONE, idx', w') \<Rightarrow> Some (Inr w')
      | Inr (HTTPD_CGI_MORE, idx', w') \<Rightarrow> idx_run n x idx' w')"

lemma file_entry_length:
  assumes "0 \<le> fd" "fd < 2 ^ 31" "- (2 ^ 31) \<le> sz" "sz < 2 ^ 31" "length nm \<le> 127"
  shows "length (file_entry comma fd nm sz) + 1 \<le> 256"
proof -
  have "length (fmt_d fd) \<le> 11" "length (fmt_d sz) \<le> 11"
    using assms fmt_d_length by auto
  moreover have "length (fmt_X 0) = 1" by (simp add: fmt_X_def text_of_nat_base.simps)
  ultimately show ?thesis using assms(5) by (simp add: file_entry_def)
qed

lemma listing_step:
  assumes "fd_chain x (w_fs w) (if idx = 0 then APPFS_INVALID_FD else idx - 256) (e # es)"
  shows "cgiFileIdx x idx w = Inr (HTTPD_CGI_MORE, e + 256,
    emit ((if idx = 0 then [StartResponse 200, Header ''Content-Type'' ''text/json'', EndHeaders,
             SendText idx_head] else []) @ listing x (w_fs w) (idx \<noteq> 0) [e]) w)"
proof -
  obtain nm sz where inf: "appfsEntryInfo x (w_fs w) e = (nm, sz)" by fastforce
  have "length (json_esc nm 128) \<le> 127"
    using json_esc_loop_length [of 128 "[]" "takeWhile (\<lambda>ch. ch \<noteq> CHR 0x00) nm"]
    by (simp add: json_esc_def)
  moreover from this have "length (file_entry (idx \<noteq> 0) e (json_esc nm 128) sz) + 1 \<le> 256"
    using assms inf by (intro file_entry_length) auto
  moreover have "appfsNextEntry x (w_fs w) (if idx = 0 then APPFS_INVALID_FD else idx - 256) = e"
    "e \<noteq> APPFS_INVALID_FD"
    using assms by (auto simp: APPFS_INVALID_FD_def)
  ultimately show ?thesis using inf
    by (cases "idx = 0") (simp_all add: cgiFileIdx_def in_buffer_def Let_def)
qed

lemma listing_rest:
  assumes "fd_chain x (w_fs w) fd es" "0 \<le> fd"
  shows "idx_run (Suc (length es)) x (fd + 256) w =
    Some (Inr (emit (listing x (w_fs w) True es @
      [SendText idx_tail, SendText (fmt_d (appfsGetFreeMem x (w_fs w))),
       SendText (''}'' @ [CHR 0x0A])]) w))"
  using assms
proof (induction es arbitrary: fd w)
  case Nil
  then show ?case by (simp add: cgiFileIdx_def Let_def)
next
  case (Cons e es)
  from Cons.prems have step: "cgiFileIdx x (fd + 256) w =
      Inr (HTTPD_CGI_MORE, e + 256, emit (listing x (w_fs w) True [e]) w)"
    using listing_step [of x w "fd + 256" e es] by simp
  from Cons.prems Cons.IH [of "emit (listing x (w_fs w) True [e]) w" e] step show ?case
    by simp
qed

text \<open>
  C27. The listing names every file once. Called until it says it is done, the handler writes the
  opening of the JSON object, one entry for each file the file system's walk visits, in its order,
  with commas between the entries only, then the free memory and the closing; no entry overruns its
  buffer.
\<close>

theorem file_index_lists_all:
  assumes "fd_chain x (w_fs w) APPFS_INVALID_FD es"
  shows "idx_run (Suc (length es)) x 0 w =
    Some (Inr (emit ([StartResponse 200, Header ''Content-Type'' ''text/json'', EndHeaders,
        SendText idx_head] @ listing x (w_fs w) False es @
      [SendText idx_tail, SendText (fmt_d (appfsGetFreeMem x (w_fs w))),
       SendText (''}'' @ [CHR 0x0A])]) w))"
proof (cases es)
  case Nil
  with assms show ?thesis by (simp add: cgiFileIdx_def Let_def)
next
  case (Cons e es')
  let ?w = "emit ([StartResponse 200, Header ''Content-Type'' ''text/json'', EndHeaders,
        SendText idx_head] @ listing x (w_fs w) False [e]) w"
  have "cgiFileIdx x 0 w = Inr (HTTPD_CGI_MORE, e + 256, ?w)"
    using listing_step [of x w 0 e es'] assms Cons by simp
  with listing_rest [of x ?w e es'] assms Cons show ?thesis by simp
qed

theorem file_index_lists_all_witness:
  "\<exists>w. idx_run 2 demo_ext 0 (demo_world (demo_empty\<lparr>d_names := [''a.app''], d_sizes := [3]\<rparr>)) =
     Some (Inr w) \<and> SendText (file_entry False 0 (json_esc ''a.app'' 128) 3) \<in> set (w_out w)"
proof -
  let ?f = "demo_empty\<lparr>d_names := [''a.app''], d_sizes := [3]\<rparr>"
  have "fd_chain demo_ext (w_fs (demo_world ?f)) APPFS_INVALID_FD [0]"
    by (simp add: demo_ext_def demo_next_def demo_world_def APPFS_INVALID_FD_def demo_empty_def)
  from file_index_lists_all [OF this] show ?thesis
    by (simp add: numeral_eq_Suc del: idx_run.simps)
      (simp add: demo_ext_def demo_world_def demo_empty_def)
qed

end
