(* ===== verification/Dev_Cgi.thy ===== *)
theory Dev_Cgi
  imports Chunked_Transfer Appfs_Cgi
begin

text \<open>
  \<open>main/cgidev.c\<close>: \<open>cgiDownloadFlash\<close> sends a range of the raw flash, \<open>cgiDownloadLog\<close> sends the log
  that survives in RTC memory, a ring buffer. Both share the piecewise tail of \<open>Chunked_Transfer\<close>.
\<close>

section \<open>cgiDownloadFlash\<close>

record flash_state =
  fl_size :: int
  fl_pos :: int

definition flash_init :: flash_state where
  "flash_init = \<lparr>fl_size = 0, fl_pos = 0\<rparr>"

definition flash_open ::
  "'fs ext \<Rightarrow> flash_state conn \<Rightarrow> flash_state \<Rightarrow> 'fs world
    \<Rightarrow> (flash_state option \<times> 'fs world) result" where
  "flash_open x c st w =
     (let (n1, abuf1) = httpdFindArg x (getArgs c) ''size'' [] 15;
          st1 = (if 0 < n1 then st\<lparr>fl_size := strtol 0 abuf1\<rparr> else st);
          (n2, abuf2) = httpdFindArg x (getArgs c) ''off'' abuf1 15;
          st2 = (if 0 < n2 then st1\<lparr>fl_pos := strtol 0 abuf2\<rparr> else st1);
          (n3, abuf3) = httpdFindArg x (getArgs c) ''name'' ''data.dat'' 15
      in if fl_size st2 = 0 then
           Inr (None,
                emit [StartResponse 404, Header ''Content-Type'' ''text/plain'', EndHeaders,
                      SendText (''Invalid args (size, off, name)'' @ [CHR 0x0A])] w)
         else
           bindE (in_buffer 256
                    (''attachment; filename='' @ [CHR 0x22] @ abuf3 @ [CHR 0x22])) (\<lambda>disp.
             Inr (Some st2,
                  emit [StartResponse 200,
                        Header ''Content-Type'' ''application/octet-stream'',
                        Header ''Content-Disposition'' disp,
                        Header ''Content-Length'' (fmt_d (fl_size st2)), EndHeaders] w)))"

definition flash_push ::
  "'fs ext \<Rightarrow> 'fs \<Rightarrow> flash_state \<Rightarrow> (byte list \<times> flash_state \<times> bool) result" where
  \<comment> \<open>a negative length becomes a huge size in the call of \<open>spi_flash_read\<close>\<close>
  "flash_push x f st =
     (let len = chunk_len (fl_size st) (fl_pos st) in
      if len < 0 then Inl NegativeSize
      else let data = spiFlashRead x f (fl_pos st) len;
               st' = st\<lparr>fl_pos := fl_pos st + len\<rparr>
           in Inr (take (nat len) data, st', fl_pos st' = fl_size st'))"

definition cgiDownloadFlash ::
  "'fs ext \<Rightarrow> bool \<Rightarrow> flash_state conn \<Rightarrow> 'fs world
    \<Rightarrow> (cgi_ret \<times> flash_state conn \<times> 'fs world) result" where
  "cgiDownloadFlash x calloc_ok c w =
     (if \<not> connected c then cgi_aborted c w
      else case cgiData c of
             PNull \<Rightarrow>
               (if \<not> calloc_ok then Inr (HTTPD_CGI_DONE, c, w)
                else bindE (flash_open x c flash_init (w\<lparr>w_blocks := w_blocks w + 1\<rparr>))
                       (\<lambda>(o_st, w1).
                          case o_st of
                            None \<Rightarrow> Inr (HTTPD_CGI_DONE, c\<lparr>cgiData := PLive flash_init\<rparr>, w1)
                          | Some st \<Rightarrow> transfer_tail (flash_push x (w_fs w1))
                                        (c\<lparr>cgiData := PLive st\<rparr>) st w1))
           | _ \<Rightarrow> bindE (deref (cgiData c))
                    (\<lambda>st. transfer_tail (flash_push x (w_fs w)) c st w))"

text \<open>The flash as a byte sequence, and the range from the position to the end of the request.\<close>

definition flash_is :: "'fs ext \<Rightarrow> 'fs \<Rightarrow> (int \<Rightarrow> byte) \<Rightarrow> bool" where
  "flash_is x f mem \<longleftrightarrow>
     (\<forall>p n. 0 \<le> p \<and> 0 \<le> n \<longrightarrow> spiFlashRead x f p n = map (\<lambda>i. mem (p + int i)) [0..<nat n])"

definition flash_rest :: "(int \<Rightarrow> byte) \<Rightarrow> flash_state \<Rightarrow> byte list" where
  "flash_rest mem st = map (\<lambda>i. mem (fl_pos st + int i)) [0..<nat (fl_size st - fl_pos st)]"

definition flash_good :: "'fs ext \<Rightarrow> 'fs \<Rightarrow> (int \<Rightarrow> byte) \<Rightarrow> flash_state \<Rightarrow> bool" where
  "flash_good x f mem st \<longleftrightarrow> flash_is x f mem \<and> 0 \<le> fl_pos st \<and> fl_pos st \<le> fl_size st"

lemma take_map_upt: "take k (map g [0..<n]) = map g [0..<min k n]"
  by (rule nth_equalityI) simp_all

lemma drop_map_upt: "drop k (map g [0..<n]) = map (\<lambda>i. g (k + i)) [0..<n - k]"
  by (rule nth_equalityI) simp_all

interpretation flash: chunked_source "flash_push x f" "flash_rest mem" "flash_good x f mem"
  for x f mem
proof
  fix st
  assume g: "flash_good x f mem st"
  then have pos: "0 \<le> fl_pos st" "fl_pos st \<le> fl_size st" and fl: "flash_is x f mem"
    by (auto simp: flash_good_def)
  let ?n = "min 1024 (fl_size st - fl_pos st)"
  let ?st = "st\<lparr>fl_pos := fl_pos st + ?n\<rparr>"
  have len: "length (flash_rest mem st) = nat (fl_size st - fl_pos st)"
    by (simp add: flash_rest_def)
  have "spiFlashRead x f (fl_pos st) ?n = map (\<lambda>i. mem (fl_pos st + int i)) [0..<nat ?n]"
    using fl pos by (simp add: flash_is_def)
  moreover have "map (\<lambda>i. mem (fl_pos st + int i)) [0..<nat ?n] = take 1024 (flash_rest mem st)"
    using pos by (simp add: flash_rest_def take_map_upt nat_min_1024)
  moreover have "(fl_pos st + ?n = fl_size st) = (length (flash_rest mem st) \<le> 1024)"
    using pos len by auto
  moreover have "take (nat ?n) (flash_rest mem st) = take 1024 (flash_rest mem st)"
    using pos len by (auto simp: nat_min_1024 min_def)
  ultimately have "flash_push x f st =
      Inr (take 1024 (flash_rest mem st), ?st, length (flash_rest mem st) \<le> 1024)"
    using pos by (simp add: flash_push_def chunk_len_cases Let_def)
  moreover have "flash_good x f mem ?st \<and> flash_rest mem ?st = drop 1024 (flash_rest mem st)"
    if "1024 < length (flash_rest mem st)"
  proof -
    have n: "?n = 1024" using that len by auto
    have m: "nat (fl_size st - (fl_pos st + 1024)) = nat (fl_size st - fl_pos st) - 1024"
      using that len by linarith
    have "flash_rest mem (st\<lparr>fl_pos := fl_pos st + 1024\<rparr>) = drop 1024 (flash_rest mem st)"
      by (cases st) (use m in \<open>simp only: flash_rest_def drop_map_upt flash_state.simps of_nat_add
        of_nat_numeral add.assoc\<close>)
    then show ?thesis using that pos len fl n by (simp add: flash_good_def)
  qed
  ultimately show "\<exists>st'. flash_push x f st =
        Inr (take 1024 (flash_rest mem st), st', length (flash_rest mem st) \<le> 1024) \<and>
      (1024 < length (flash_rest mem st) \<longrightarrow>
        flash_good x f mem st' \<and> flash_rest mem st' = drop 1024 (flash_rest mem st))"
    by blast
qed

section \<open>cgiDownloadLog\<close>

text \<open>
  The ring buffer of the log, of the SDK's type \<open>kchal_stdout_rtc_buf_t\<close>: the fields the handler
  reads. The magic number the SDK gives is a parameter.
\<close>

record rtc_buf =
  rb_magic :: u32
  rb_bufsz :: int
  rb_writeptr :: int
  rb_has_wrapped :: bool
  rb_buffer :: "byte list"

record log_state =
  lg_size :: int
  lg_pos :: int
  lg_ptr :: int

definition log_init :: log_state where
  "log_init = \<lparr>lg_size = 0, lg_pos = 0, lg_ptr = 0\<rparr>"

definition log_open ::
  "u32 \<Rightarrow> rtc_buf \<Rightarrow> log_state \<Rightarrow> 'fs world \<Rightarrow> log_state option \<times> 'fs world" where
  "log_open magic rb st w =
     (if rb_magic rb \<noteq> magic then
        (None, emit [StartResponse 404, Header ''Content-Type'' ''text/plain'', EndHeaders,
                     SendText (''Bad RTC mem magic.'' @ [CHR 0x0A])] w)
      else
        (let st1 = (if rb_has_wrapped rb
                    then st\<lparr>lg_size := rb_bufsz rb, lg_ptr := rb_writeptr rb\<rparr>
                    else st\<lparr>lg_size := rb_writeptr rb, lg_ptr := 0\<rparr>)
         in (Some st1,
             emit [StartResponse 200, Header ''Content-Type'' ''application/octet-stream'',
                   Header ''Content-Disposition''
                     (''attachment; filename='' @ [CHR 0x22] @ ''log.txt'' @ [CHR 0x22]),
                   Header ''Content-Length'' (fmt_d (lg_size st1)), EndHeaders] w)))"

fun log_copy :: "rtc_buf \<Rightarrow> nat \<Rightarrow> int \<Rightarrow> byte list \<Rightarrow> (byte list \<times> int) result" where
  "log_copy rb 0 ptr data = Inr (data, ptr)"
| "log_copy rb (Suc n) ptr data =
     (if ptr < 0 \<or> int (length (rb_buffer rb)) \<le> ptr then Inl BufferOverflow
      else let data' = data @ [rb_buffer rb ! nat ptr];
               ptr' = ptr + 1
           in log_copy rb n (if ptr' = rb_bufsz rb then 0 else ptr') data')"

definition log_push :: "rtc_buf \<Rightarrow> log_state \<Rightarrow> (byte list \<times> log_state \<times> bool) result" where
  "log_push rb st =
     (let len = chunk_len (lg_size st) (lg_pos st) in
      if len < 0 then Inl NegativeSize
      else bindE (log_copy rb (nat len) (lg_ptr st) []) (\<lambda>(data, ptr).
             let st' = st\<lparr>lg_ptr := ptr, lg_pos := lg_pos st + len\<rparr>
             in Inr (data, st', lg_pos st' = lg_size st')))"

definition cgiDownloadLog ::
  "u32 \<Rightarrow> rtc_buf \<Rightarrow> bool \<Rightarrow> log_state conn \<Rightarrow> 'fs world
    \<Rightarrow> (cgi_ret \<times> log_state conn \<times> 'fs world) result" where
  "cgiDownloadLog magic rb calloc_ok c w =
     (if \<not> connected c then cgi_aborted c w
      else case cgiData c of
             PNull \<Rightarrow>
               (if \<not> calloc_ok then Inr (HTTPD_CGI_DONE, c, w)
                else case log_open magic rb log_init (w\<lparr>w_blocks := w_blocks w + 1\<rparr>) of
                       (None, w1) \<Rightarrow> Inr (HTTPD_CGI_DONE, c\<lparr>cgiData := PLive log_init\<rparr>, w1)
                     | (Some st, w1) \<Rightarrow>
                         transfer_tail (log_push rb) (c\<lparr>cgiData := PLive st\<rparr>) st w1)
           | _ \<Rightarrow> bindE (deref (cgiData c)) (\<lambda>st. transfer_tail (log_push rb) c st w))"

text \<open>A well-formed ring buffer, and what is left to send from a position in it.\<close>

definition rb_ok :: "rtc_buf \<Rightarrow> bool" where
  "rb_ok rb \<longleftrightarrow> rb_bufsz rb = int (length (rb_buffer rb)) \<and> 0 < rb_bufsz rb \<and>
     0 \<le> rb_writeptr rb \<and> rb_writeptr rb < rb_bufsz rb"

definition log_rest :: "rtc_buf \<Rightarrow> log_state \<Rightarrow> byte list" where
  "log_rest rb st = take (nat (lg_size st - lg_pos st)) (rotate (nat (lg_ptr st)) (rb_buffer rb))"

definition log_good :: "rtc_buf \<Rightarrow> log_state \<Rightarrow> bool" where
  "log_good rb st \<longleftrightarrow> rb_ok rb \<and> 0 \<le> lg_ptr st \<and> lg_ptr st < rb_bufsz rb \<and>
     lg_pos st \<le> lg_size st \<and> lg_size st - lg_pos st \<le> rb_bufsz rb"

lemma log_copy_rotate:
  assumes "rb_ok rb" "0 \<le> ptr" "ptr < rb_bufsz rb" "n \<le> length (rb_buffer rb)"
  shows "log_copy rb n ptr data =
    Inr (data @ take n (rotate (nat ptr) (rb_buffer rb)), (ptr + int n) mod rb_bufsz rb)"
  using assms(2-)
proof (induction n arbitrary: ptr data)
  case 0
  then show ?case by simp
next
  case (Suc n)
  let ?B = "rb_buffer rb" and ?N = "rb_bufsz rb"
  let ?p = "if ptr + 1 = ?N then 0 else ptr + 1"
  have N: "?N = int (length ?B)" "0 < ?N" using assms(1) by (auto simp: rb_ok_def)
  have p: "0 \<le> ?p" "?p < ?N" "?p = (ptr + 1) mod ?N" using Suc.prems by (auto simp: mod_pos_pos_trivial)
  have ne: "?B \<noteq> []" using N by auto
  have np: "nat ?p mod length ?B = Suc (nat ptr) mod length ?B"
  proof (cases "ptr + 1 = ?N")
    case True
    then have "Suc (nat ptr) = length ?B" using N Suc.prems by linarith
    with True show ?thesis by simp
  next
    case False
    then show ?thesis using Suc.prems by (simp add: nat_add_distrib)
  qed
  then have rot: "rotate (nat ?p) ?B = rotate1 (rotate (nat ptr) ?B)"
    using rotate_conv_mod [of "nat ?p" ?B] rotate_conv_mod [of "Suc (nat ptr)" ?B] by simp
  have hd0: "rotate (nat ptr) ?B ! 0 = ?B ! nat ptr"
    using nth_rotate [of 0 ?B "nat ptr"] ne Suc.prems N by simp
  have len: "length (rotate (nat ptr) ?B) = length ?B" "0 < length ?B" "Suc n \<le> length ?B"
    using N Suc.prems by auto
  then have len: "0 < length (rotate (nat ptr) ?B)" "Suc n \<le> length (rotate (nat ptr) ?B)"
    by (simp_all only:)
  have tk: "take (Suc n) (rotate (nat ptr) ?B) = ?B ! nat ptr # take n (rotate1 (rotate (nat ptr) ?B))"
    using hd0 len by (cases "rotate (nat ptr) ?B") auto
  from Suc.IH [OF p(1,2), of "data @ [?B ! nat ptr]"] Suc.prems N
  have "log_copy rb (Suc n) ptr data =
      Inr ((data @ [?B ! nat ptr]) @ take n (rotate (nat ?p) ?B), (?p + int n) mod ?N)"
    by (auto simp: Let_def)
  moreover have "(?p + int n) mod ?N = (ptr + int (Suc n)) mod ?N"
    by (simp only: p(3) mod_add_left_eq) (simp add: add.assoc)
  ultimately show ?case by (simp add: rot tk)
qed

interpretation rtc_log: chunked_source "log_push rb" "log_rest rb" "log_good rb" for rb
proof
  fix st
  assume g: "log_good rb st"
  let ?B = "rb_buffer rb" and ?N = "rb_bufsz rb" and ?m = "lg_size st - lg_pos st"
  let ?n = "min 1024 ?m"
  have ok: "rb_ok rb" and N: "?N = int (length ?B)" "0 < ?N"
    and p: "0 \<le> lg_ptr st" "lg_ptr st < ?N" "0 \<le> ?m" "?m \<le> ?N"
    using g by (auto simp: log_good_def rb_ok_def)
  let ?st = "st\<lparr>lg_ptr := (lg_ptr st + ?n) mod ?N, lg_pos := lg_pos st + ?n\<rparr>"
  have lenr: "length (log_rest rb st) = nat ?m" using p N by (simp add: log_rest_def)
  have cp: "log_copy rb (nat ?n) (lg_ptr st) [] =
      Inr (take (nat ?n) (rotate (nat (lg_ptr st)) ?B), (lg_ptr st + ?n) mod ?N)"
    using log_copy_rotate [OF ok p(1,2), of "nat ?n" "[]"] p N by simp
  have tk: "take (nat ?n) (rotate (nat (lg_ptr st)) ?B) = take 1024 (log_rest rb st)"
    using p by (simp add: log_rest_def nat_min_1024)
  have "(lg_pos st + ?n = lg_size st) = (length (log_rest rb st) \<le> 1024)"
    using lenr p by auto
  with cp tk p have push: "log_push rb st =
      Inr (take 1024 (log_rest rb st), ?st, length (log_rest rb st) \<le> 1024)"
    by (simp add: log_push_def chunk_len_cases Let_def)
  have "log_good rb ?st \<and> log_rest rb ?st = drop 1024 (log_rest rb st)"
    if "1024 < length (log_rest rb st)"
  proof -
    have n: "?n = 1024" and m: "1024 < ?m" using that lenr by auto
    let ?R = "rotate (nat (lg_ptr st)) ?B"
    have "nat ((lg_ptr st + 1024) mod ?N) = (1024 + nat (lg_ptr st)) mod length ?B"
      using N p by (simp add: nat_mod_distrib nat_add_distrib add.commute)
    then have rr: "rotate (nat ((lg_ptr st + 1024) mod ?N)) ?B = rotate 1024 ?R"
      using rotate_conv_mod [of "1024 + nat (lg_ptr st)" ?B] rotate_rotate [of 1024 "nat (lg_ptr st)" ?B]
      by (simp add: rotate_conv_mod [symmetric])
    have "rotate 1024 ?R = drop 1024 ?R @ take 1024 ?R"
      using m p N by (simp add: rotate_drop_take)
    then have "take (nat (?m - 1024)) (rotate 1024 ?R) = drop 1024 (take (nat ?m) ?R)"
      using m p N by (simp add: drop_take nat_diff_distrib)
    with rr n p m N ok show ?thesis
      by (auto simp: log_good_def log_rest_def algebra_simps)
  qed
  with push show "\<exists>st'. log_push rb st =
        Inr (take 1024 (log_rest rb st), st', length (log_rest rb st) \<le> 1024) \<and>
      (1024 < length (log_rest rb st) \<longrightarrow>
        log_good rb st' \<and> log_rest rb st' = drop 1024 (log_rest rb st))"
    by blast
qed

end
