(* ===== verification/Dev_Props.thy ===== *)
theory Dev_Props
  imports Dev_Cgi Appfs_Props
begin

text \<open>
  Properties of the handlers of \<open>main/cgidev.c\<close>: what a client receives when it downloads a range of
  the flash or the log, and what a range outside of the announced size does.
\<close>

section \<open>The log\<close>

definition log_chronological :: "rtc_buf \<Rightarrow> byte list" where
  \<comment> \<open>oldest byte first: the write pointer is where the next byte goes, so what lies there is oldest\<close>
  "log_chronological rb =
     (if rb_has_wrapped rb
      then drop (nat (rb_writeptr rb)) (rb_buffer rb) @ take (nat (rb_writeptr rb)) (rb_buffer rb)
      else take (nat (rb_writeptr rb)) (rb_buffer rb))"

lemma log_run:
  assumes "connected c" "cgiData c = PLive st" "log_good rb st"
  shows "\<exists>c'. cgi_run (length (chunks_of (log_rest rb st))) (cgiDownloadLog magic rb True) c w =
      Some (Inr (c', w\<lparr>w_out := w_out w @ map SendData (chunks_of (log_rest rb st)),
                        w_blocks := w_blocks w - 1\<rparr>)) \<and> cgiData c' = PDangling"
  by (rule rtc_log.transfer_run [OF _ assms(1,2) refl assms(3)])
    (simp add: cgiDownloadLog_def)

text \<open>
  C36. The log arrives oldest byte first. For a well-formed ring buffer the handler, called until it
  is done, answers 200, announces the number of bytes it then sends, sends the bytes of the ring in
  the order they were written whether or not the ring has wrapped, and frees its state.
\<close>

theorem log_download_chronological:
  assumes c: "connected c" "cgiData c = PNull"
    and rb: "rb_ok rb" "rb_magic rb = magic"
  shows "\<exists>n c' w' ds. cgi_run n (cgiDownloadLog magic rb True) c w = Some (Inr (c', w')) \<and>
    cgiData c' = PDangling \<and> w_blocks w' = w_blocks w \<and> w_fs w' = w_fs w \<and>
    w_out w' = w_out w @ [StartResponse 200,
      Header ''Content-Type'' ''application/octet-stream'',
      Header ''Content-Disposition''
        (''attachment; filename='' @ [CHR 0x22] @ ''log.txt'' @ [CHR 0x22]),
      Header ''Content-Length'' (fmt_d (int (length (log_chronological rb)))), EndHeaders]
      @ map SendData ds \<and>
    concat ds = log_chronological rb \<and> (\<forall>d \<in> set ds. length d \<le> 1024)"
proof -
  define st where "st =
    (if rb_has_wrapped rb then \<lparr>lg_size = rb_bufsz rb, lg_pos = 0, lg_ptr = rb_writeptr rb\<rparr>
     else \<lparr>lg_size = rb_writeptr rb, lg_pos = 0, lg_ptr = 0\<rparr>)"
  define hs where "hs = [StartResponse 200,
      Header ''Content-Type'' ''application/octet-stream'',
      Header ''Content-Disposition''
        (''attachment; filename='' @ [CHR 0x22] @ ''log.txt'' @ [CHR 0x22]),
      Header ''Content-Length'' (fmt_d (lg_size st)), EndHeaders]"
  let ?c = "c\<lparr>cgiData := PLive st\<rparr>" and ?w = "emit hs (w\<lparr>w_blocks := w_blocks w + 1\<rparr>)"
  let ?n = "length (chunks_of (log_rest rb st))"
  have good: "log_good rb st" using rb(1) by (auto simp: log_good_def st_def rb_ok_def)
  have rest: "log_rest rb st = log_chronological rb"
    using rb(1) by (auto simp: log_rest_def log_chronological_def st_def rb_ok_def rotate_drop_take)
  have size: "lg_size st = int (length (log_chronological rb))"
    using rb(1) by (auto simp: log_chronological_def st_def rb_ok_def)
  have "cgiDownloadLog magic rb True c w = cgiDownloadLog magic rb True ?c ?w"
    using c rb(2)
    by (simp add: cgiDownloadLog_def log_open_def log_init_def st_def hs_def)
  then have first: "cgi_run ?n (cgiDownloadLog magic rb True) c w =
      cgi_run ?n (cgiDownloadLog magic rb True) ?c ?w"
    by (rule cgi_run_first_call) (rule length_chunks_pos)
  have live: "connected ?c" "cgiData ?c = PLive st" using c(1) by simp_all
  obtain c' where r: "cgi_run ?n (cgiDownloadLog magic rb True) ?c ?w =
      Some (Inr (c', ?w\<lparr>w_out := w_out ?w @ map SendData (chunks_of (log_rest rb st)),
        w_blocks := w_blocks ?w - 1\<rparr>))" "cgiData c' = PDangling"
    using log_run [OF live good] by blast
  show ?thesis
    using r first chunks_of_bound concat_chunks_of [of "log_chronological rb"]
    by (intro exI [of _ ?n] exI [of _ c'] exI [of _ "?w\<lparr>w_out := w_out ?w
          @ map SendData (chunks_of (log_rest rb st)), w_blocks := w_blocks ?w - 1\<rparr>"]
        exI [of _ "chunks_of (log_chronological rb)"])
      (auto simp: hs_def rest size)
qed

definition demo_ring :: rtc_buf where
  "demo_ring = \<lparr>rb_magic = 7, rb_bufsz = 4, rb_writeptr = 1, rb_has_wrapped = True,
                rb_buffer = [40, 10, 20, 30]\<rparr>"

theorem log_download_chronological_witness:
  "\<exists>n c' w' ds. cgi_run n (cgiDownloadLog 7 demo_ring True) (demo_conn [] 0) (demo_world demo_empty)
     = Some (Inr (c', w')) \<and> w_blocks w' = 0 \<and> concat ds = [10, 20, 30, 40] \<and>
     drop 5 (w_out w') = map SendData ds"
proof -
  have ok: "rb_ok demo_ring" "rb_magic demo_ring = 7" "connected (demo_conn [] 0)"
    "cgiData (demo_conn [] 0) = PNull"
    by (simp_all add: rb_ok_def demo_ring_def demo_conn_def)
  have ch: "log_chronological demo_ring = [10, 20, 30, 40]"
    by (simp add: log_chronological_def demo_ring_def)
  from log_download_chronological [OF ok(3,4,1,2), of "demo_world demo_empty", unfolded ch]
  obtain n c' w' ds where r:
    "cgi_run n (cgiDownloadLog 7 demo_ring True) (demo_conn [] 0) (demo_world demo_empty)
      = Some (Inr (c', w'))" "w_blocks w' = 0" "concat ds = [10, 20, 30, 40]"
    "drop 5 (w_out w') = map SendData ds"
    by (auto simp: demo_world_def)
  then show ?thesis by blast
qed

section \<open>Ranges of the flash\<close>

definition arg_num :: "int \<Rightarrow> string \<Rightarrow> int" where
  \<comment> \<open>the number of an argument, 0 when the request does not give it\<close>
  "arg_num n abuf = (if 0 < n then strtol 0 abuf else 0)"

lemma flash_run:
  assumes "connected c" "cgiData c = PLive st" "flash_good x (w_fs w) mem st"
  shows "\<exists>c'. cgi_run (length (chunks_of (flash_rest mem st))) (cgiDownloadFlash x True) c w =
      Some (Inr (c', w\<lparr>w_out := w_out w @ map SendData (chunks_of (flash_rest mem st)),
                        w_blocks := w_blocks w - 1\<rparr>)) \<and> cgiData c' = PDangling"
  by (rule flash.transfer_run [where f = "w_fs w", OF _ assms(1,2) refl assms(3)])
    (simp add: cgiDownloadFlash_def)

lemma flash_first_call:
  assumes c: "connected c" "cgiData c = PNull"
    and args: "httpdFindArg x (getArgs c) ''size'' [] 15 = (n1, a1)"
      "httpdFindArg x (getArgs c) ''off'' a1 15 = (n2, a2)"
      "httpdFindArg x (getArgs c) ''name'' ''data.dat'' 15 = (n3, a3)"
    and len: "length a3 \<le> 15" and size: "arg_num n1 a1 \<noteq> 0"
  shows "cgiDownloadFlash x True c w =
    (let st = \<lparr>fl_size = arg_num n1 a1, fl_pos = arg_num n2 a2\<rparr>
     in transfer_tail (flash_push x (w_fs w)) (c\<lparr>cgiData := PLive st\<rparr>) st
       (emit [StartResponse 200, Header ''Content-Type'' ''application/octet-stream'',
              Header ''Content-Disposition''
                (''attachment; filename='' @ [CHR 0x22] @ a3 @ [CHR 0x22]),
              Header ''Content-Length'' (fmt_d (arg_num n1 a1)), EndHeaders]
         (w\<lparr>w_blocks := w_blocks w + 1\<rparr>)))"
  using assms
  by (auto simp: cgiDownloadFlash_def flash_open_def flash_init_def arg_num_def in_buffer_def Let_def)

text \<open>
  C28. A flash download sends the bytes from the offset up to the address \<open>size\<close>. So \<open>size\<close> is the end
  of the range and not its length: the content length that is announced is \<open>size\<close>, while the number
  of bytes sent is \<open>size - off\<close>.
\<close>

theorem flash_download_sends_range:
  assumes c: "connected c" "cgiData c = PNull"
    and args: "httpdFindArg x (getArgs c) ''size'' [] 15 = (n1, a1)"
      "httpdFindArg x (getArgs c) ''off'' a1 15 = (n2, a2)"
      "httpdFindArg x (getArgs c) ''name'' ''data.dat'' 15 = (n3, a3)"
    and len: "length a3 \<le> 15"
    and range: "0 \<le> arg_num n2 a2" "arg_num n2 a2 \<le> arg_num n1 a1" "arg_num n1 a1 \<noteq> 0"
    and fl: "flash_is x (w_fs w) mem"
  shows "\<exists>n c' w' ds. cgi_run n (cgiDownloadFlash x True) c w = Some (Inr (c', w')) \<and>
    cgiData c' = PDangling \<and> w_blocks w' = w_blocks w \<and>
    w_out w' = w_out w @ [StartResponse 200,
      Header ''Content-Type'' ''application/octet-stream'',
      Header ''Content-Disposition'' (''attachment; filename='' @ [CHR 0x22] @ a3 @ [CHR 0x22]),
      Header ''Content-Length'' (fmt_d (arg_num n1 a1)), EndHeaders] @ map SendData ds \<and>
    concat ds = map (\<lambda>i. mem (arg_num n2 a2 + int i)) [0..<nat (arg_num n1 a1 - arg_num n2 a2)]"
proof -
  define st where "st = \<lparr>fl_size = arg_num n1 a1, fl_pos = arg_num n2 a2\<rparr>"
  define hs where "hs = [StartResponse 200,
      Header ''Content-Type'' ''application/octet-stream'',
      Header ''Content-Disposition'' (''attachment; filename='' @ [CHR 0x22] @ a3 @ [CHR 0x22]),
      Header ''Content-Length'' (fmt_d (arg_num n1 a1)), EndHeaders]"
  let ?c = "c\<lparr>cgiData := PLive st\<rparr>" and ?w = "emit hs (w\<lparr>w_blocks := w_blocks w + 1\<rparr>)"
  let ?n = "length (chunks_of (flash_rest mem st))"
  have good: "flash_good x (w_fs ?w) mem st" using range fl by (simp add: flash_good_def st_def)
  have live: "connected ?c" "cgiData ?c = PLive st" using c(1) by simp_all
  have "cgiDownloadFlash x True c w = cgiDownloadFlash x True ?c ?w"
    using flash_first_call [OF c args len range(3), of w] live
    by (simp add: cgiDownloadFlash_def st_def hs_def Let_def)
  then have first: "cgi_run ?n (cgiDownloadFlash x True) c w = cgi_run ?n (cgiDownloadFlash x True) ?c ?w"
    by (rule cgi_run_first_call) (rule length_chunks_pos)
  obtain c' where r: "cgi_run ?n (cgiDownloadFlash x True) ?c ?w =
      Some (Inr (c', ?w\<lparr>w_out := w_out ?w @ map SendData (chunks_of (flash_rest mem st)),
        w_blocks := w_blocks ?w - 1\<rparr>))" "cgiData c' = PDangling"
    using flash_run [OF live good] by blast
  show ?thesis
    using r first concat_chunks_of [of "flash_rest mem st"]
    by (intro exI [of _ ?n] exI [of _ c'] exI [of _ "?w\<lparr>w_out := w_out ?w
          @ map SendData (chunks_of (flash_rest mem st)), w_blocks := w_blocks ?w - 1\<rparr>"]
        exI [of _ "chunks_of (flash_rest mem st)"])
      (auto simp: hs_def flash_rest_def st_def)
qed

definition demo_args :: "string \<Rightarrow> string \<Rightarrow> demo_fs ext" where
  "demo_args sz off = demo_ext\<lparr>httpdFindArg := \<lambda>line arg old n.
     if arg = ''size'' then (int (length sz), sz)
     else if arg = ''off'' then (int (length off), off) else (- 1, old)\<rparr>"

lemma strtol_digits:
  "strtol 0 ''8'' = 8" "strtol 0 ''5'' = 5" "strtol 0 ''3'' = 3"
  by (simp_all add: strtol_def strtol_unsigned_def isspace_def digit_val_def saturate32_def
      has_hex_prefix_def)

theorem flash_download_sends_range_witness:
  "\<exists>n c' w' ds. cgi_run n (cgiDownloadFlash (demo_args ''8'' ''5'') True) (demo_conn [] 0)
      (demo_world demo_empty) = Some (Inr (c', w')) \<and> w_blocks w' = 0 \<and>
    Header ''Content-Length'' (fmt_d 8) \<in> set (w_out w') \<and> concat ds = [5, 6, 7] \<and>
    drop 5 (w_out w') = map SendData ds"
proof -
  have fl: "flash_is (demo_args ''8'' ''5'') f (\<lambda>i. word_of_int i)" for f
    by (simp add: flash_is_def demo_args_def demo_ext_def)
  have a: "arg_num 1 ''8'' = 8" "arg_num 1 ''5'' = 5"
    by (simp_all add: arg_num_def strtol_digits)
  have u: "[0..<3] = [0, 1, 2 :: nat]" by (simp add: numeral_eq_Suc)
  let ?c = "demo_conn [] 0" and ?x = "demo_args ''8'' ''5''" and ?w = "demo_world demo_empty"
  have ar: "connected ?c" "cgiData ?c = PNull"
    "httpdFindArg ?x (getArgs ?c) ''size'' [] 15 = (1, ''8'')"
    "httpdFindArg ?x (getArgs ?c) ''off'' ''8'' 15 = (1, ''5'')"
    "httpdFindArg ?x (getArgs ?c) ''name'' ''data.dat'' 15 = (- 1, ''data.dat'')"
    "length ''data.dat'' \<le> 15"
    by (simp_all add: demo_conn_def demo_args_def)
  obtain n c' w' ds where r: "cgi_run n (cgiDownloadFlash ?x True) ?c ?w = Some (Inr (c', w'))"
    "w_blocks w' = w_blocks ?w"
    "w_out w' = w_out ?w @ [StartResponse 200,
      Header ''Content-Type'' ''application/octet-stream'',
      Header ''Content-Disposition''
        (''attachment; filename='' @ [CHR 0x22] @ ''data.dat'' @ [CHR 0x22]),
      Header ''Content-Length'' (fmt_d 8), EndHeaders] @ map SendData ds"
    "concat ds = map (\<lambda>i. word_of_int (5 + int i)) [0..<3]"
    using flash_download_sends_range [OF ar, of ?w "\<lambda>i. word_of_int i", unfolded a, OF _ _ _ fl]
    by auto
  have "w_blocks w' = 0" "Header ''Content-Length'' (fmt_d 8) \<in> set (w_out w')"
    "drop 5 (w_out w') = map SendData ds"
    using r(2,3) by (simp_all add: demo_world_def)
  with r(1,4) show ?thesis by (auto simp: u)
qed

text \<open>
  C31. A request whose offset lies beyond \<open>size\<close> is not refused: after the header the handler asks for
  a negative number of bytes of the flash, which \<open>spi_flash_read\<close> takes as a huge size and so
  overruns the 1024 bytes on the stack.
\<close>

theorem flash_offset_beyond_size_overruns:
  assumes "connected c" "cgiData c = PNull"
    and "httpdFindArg x (getArgs c) ''size'' [] 15 = (n1, a1)"
      "httpdFindArg x (getArgs c) ''off'' a1 15 = (n2, a2)"
      "httpdFindArg x (getArgs c) ''name'' ''data.dat'' 15 = (n3, a3)"
    and "length a3 \<le> 15" "arg_num n1 a1 \<noteq> 0" "arg_num n1 a1 < arg_num n2 a2"
  shows "cgiDownloadFlash x True c w = Inl NegativeSize"
  using flash_first_call [OF assms(1-7), of w] assms(8)
  by (simp add: Let_def transfer_tail_def flash_push_def chunk_len_def DOWNLOAD_CHUNK_SIZE_def)

theorem flash_offset_beyond_size_overruns_witness:
  "cgiDownloadFlash (demo_args ''3'' ''5'') True (demo_conn [] 0) (demo_world demo_empty)
    = Inl NegativeSize"
  using flash_offset_beyond_size_overruns [of "demo_conn [] 0" "demo_args ''3'' ''5''" 1 "''3''" 1
      "''5''" "- 1" "''data.dat''"]
  by (simp add: demo_conn_def demo_args_def demo_ext_def arg_num_def strtol_digits)

end
