(* ===== verification/Gui.thy ===== *)
theory Gui
  imports Http_Api
begin

text \<open>
  \<open>main/gui.c\<close>: the icons, the splash screen, the debug screen, the options menu and the menu that
  starts an application. The uGUI library, the menu and file chooser widgets, the hardware layer and
  the non-volatile storage are not in the repository: drawing is recorded as a list of calls, the
  hardware is the record \<open>hal\<close> of functions, its constants are the record \<open>kc\<close>, and what the user
  does is a list of events.
\<close>

section \<open>Drawing\<close>

datatype ug_color = C_WHITE | C_YELLOW | C_RED | C_BLACK

datatype gui_call =
    Cls | Flush | GuiInit
  | FontSelect
  | SetForecolor ug_color
  | SetBackcolor ug_color
  | PutString int int string
  | DrawPixel int int byte byte byte     \<comment> \<open>with the arguments of \<open>kchal_ugui_rgb\<close>\<close>

definition GFX_W :: nat where "GFX_W = 41"
definition GFX_IH :: nat where "GFX_IH = 11"
definition GFX_O_EMPTY :: nat where "GFX_O_EMPTY = 0"
definition GFX_O_FULL :: nat where "GFX_O_FULL = 1"
definition GFX_O_CHG :: nat where "GFX_O_CHG = 2"
definition GFX_O_CHGNEARFULL :: nat where "GFX_O_CHGNEARFULL = 3"

text \<open>
  \<open>gfx\<close> is the contents of the generated file \<open>graphics.inc\<close>. The two loops advance one pointer
  through it; reading past its end is a fault.
\<close>

fun draw_row :: "byte list \<Rightarrow> int \<Rightarrow> int \<Rightarrow> nat \<Rightarrow> nat \<Rightarrow> nat \<Rightarrow> (gui_call list \<times> nat) result" where
  "draw_row gfx px py y 0 p = Inr ([], p)"
| "draw_row gfx px py y (Suc n) p =
     (if length gfx < p + 3 then Inl BufferOverflow
      else bindE (draw_row gfx px py y n (p + 4)) (\<lambda>(cs, p').
        Inr (DrawPixel (int (GFX_W - Suc n) + px) (int y + py) (gfx ! p) (gfx ! (p + 1)) (gfx ! (p + 2))
               # cs, p')))"

fun draw_rows :: "byte list \<Rightarrow> int \<Rightarrow> int \<Rightarrow> nat \<Rightarrow> nat \<Rightarrow> gui_call list result" where
  "draw_rows gfx px py 0 p = Inr []"
| "draw_rows gfx px py (Suc n) p =
     bindE (draw_row gfx px py (GFX_IH - Suc n) GFX_W p) (\<lambda>(cs, p').
       bindE (draw_rows gfx px py n p') (\<lambda>cs'. Inr (cs @ cs')))"

definition drawIcon :: "byte list \<Rightarrow> int \<Rightarrow> int \<Rightarrow> nat \<Rightarrow> gui_call list result" where
  "drawIcon gfx px py ico = draw_rows gfx px py GFX_IH (ico * GFX_IH * GFX_W * 4)"

definition gui_icon_screen :: "byte list \<Rightarrow> nat \<Rightarrow> gui_call list result" where
  "gui_icon_screen gfx ico = bindE (drawIcon gfx 20 26 ico) (\<lambda>cs. Inr ([Cls] @ cs @ [Flush]))"

definition guiCharging :: "byte list \<Rightarrow> bool \<Rightarrow> gui_call list result" where
  "guiCharging gfx almostFull =
     gui_icon_screen gfx (if \<not> almostFull then GFX_O_CHG else GFX_O_CHGNEARFULL)"

definition guiFull :: "byte list \<Rightarrow> gui_call list result" where
  "guiFull gfx = gui_icon_screen gfx GFX_O_FULL"

definition guiBatEmpty :: "byte list \<Rightarrow> gui_call list result" where
  "guiBatEmpty gfx = gui_icon_screen gfx GFX_O_EMPTY"

definition guiInit :: "gui_call list" where
  "guiInit = [GuiInit, Flush]"

section \<open>The hardware layer\<close>

record kc =
  KC_BTN_A :: u32
  KC_BTN_B :: u32
  KC_BTN_LEFT :: u32
  KC_BTN_RIGHT :: u32
  KC_BTN_POWER :: u32
  KC_BTN_START :: u32
  KC_BTN_SELECT :: u32
  KCUGUI_CB_CANCEL :: int
  KCUGUI_CB_REFRESH :: int
  KC_CHG_FULL :: int
  KC_CHG_CHARGING :: int
  KC_CHG_NOCHARGER :: int

record 'h hal =
  kchal_get_volume :: "'h \<Rightarrow> int"
  kchal_set_volume :: "int \<Rightarrow> 'h \<Rightarrow> 'h"
  kchal_get_brightness :: "'h \<Rightarrow> int"
  kchal_set_brightness :: "int \<Rightarrow> 'h \<Rightarrow> 'h"
  nvs_open_ok :: "'h \<Rightarrow> bool"                       \<comment> \<open>\<open>nvs_open("8bkc", ..) == ESP_OK\<close>\<close>
  nvs_get_u8 :: "'h \<Rightarrow> string \<Rightarrow> byte option"       \<comment> \<open>\<open>None\<close> is an error, the output is untouched\<close>
  nvs_get_u32 :: "'h \<Rightarrow> string \<Rightarrow> u32 option"
  nvs_set_u8 :: "string \<Rightarrow> byte \<Rightarrow> 'h \<Rightarrow> 'h"

section \<open>Splash screen\<close>

definition guiSplash :: "'h hal \<Rightarrow> 'h \<Rightarrow> gui_call list" where
  "guiSplash x h =
     (let wifi_en = (if nvs_open_ok x h then case nvs_get_u8 x h ''wifi'' of None \<Rightarrow> 1 | Some b \<Rightarrow> b
                     else 1)
      in [FontSelect] @
         (if wifi_en \<noteq> 0 then
            [SetForecolor C_WHITE, PutString 0 0 ''WIFI AP'',
             SetForecolor C_YELLOW, PutString 0 8 '' pkspr'',
             SetForecolor C_WHITE, PutString 0 16 ''GO TO:'',
             SetForecolor C_YELLOW, PutString 0 24 ''HTTP://192.168.4.1/'']
          else
            [SetForecolor C_WHITE, PutString 0 0 ''   NOTE:'',
             SetForecolor C_YELLOW, PutString 0 8 ''WiFi is off'', PutString 0 16 ''and can be '',
             PutString 0 24 ''enabled in '', PutString 0 32 ''the options'',
             PutString 0 40 ''menu.      '']) @
         [SetForecolor C_RED, PutString 30 56 ''MENU'', SetBackcolor C_BLACK, Flush])"

section \<open>Debug screen\<close>

record dbg_sample =
  dk_keys :: u32
  dk_chg :: u32
  dk_mv :: int

definition debug_frame :: "string \<Rightarrow> string \<Rightarrow> u32 \<Rightarrow> dbg_sample \<Rightarrow> gui_call list result" where
  "debug_frame gitrev date adc s =
     bindE (in_buffer 32 (''KEYS: '' @ fmt_X (unat (dk_keys s)))) (\<lambda>b1.
     bindE (in_buffer 32 (''CHG: '' @ fmt_X (unat (dk_chg s)))) (\<lambda>b2.
     bindE (in_buffer 32 (''VBATMV:'' @ fmt_d (dk_mv s))) (\<lambda>b3.
     bindE (in_buffer 32 (''ADCCAL:'' @ fmt_d (sint adc))) (\<lambda>b4.
     Inr [Cls, FontSelect, SetForecolor C_YELLOW, PutString 0 0 ''DEBUG'', SetForecolor C_WHITE,
          PutString 0 8 b1, PutString 0 16 b2, PutString 0 24 b3, PutString 0 32 b4,
          SetForecolor C_YELLOW, PutString 0 40 ''Gitrev/date'', SetForecolor C_WHITE,
          PutString 0 48 gitrev, PutString 0 56 date, Flush]))))"

fun debug_loop ::
  "kc \<Rightarrow> string \<Rightarrow> string \<Rightarrow> u32 \<Rightarrow> bool \<Rightarrow> dbg_sample list \<Rightarrow> (gui_call list \<times> dbg_sample list option) result"
where
  \<comment> \<open>one sample of the keys, the charger and the battery per iteration; the second result is what
     is left of the samples when the loop has ended, \<open>None\<close> while it still runs\<close>
  "debug_loop k gitrev date adc selReleased [] = Inr ([], None)"
| "debug_loop k gitrev date adc selReleased (s # ss) =
     bindE (debug_frame gitrev date adc s) (\<lambda>cs.
       if dk_keys s AND KC_BTN_SELECT k \<noteq> 0 \<and> selReleased then Inr (cs, Some ss)
       else bindE (debug_loop k gitrev date adc
                     (selReleased \<or> dk_keys s AND KC_BTN_SELECT k = 0) ss) (\<lambda>(cs', r).
              Inr (cs @ cs', r)))"

definition debug_screen ::
  "kc \<Rightarrow> 'h hal \<Rightarrow> string \<Rightarrow> string \<Rightarrow> 'h \<Rightarrow> dbg_sample list
    \<Rightarrow> (gui_call list \<times> dbg_sample list option) result" where
  "debug_screen k x gitrev date h ss =
     (let adc = (if nvs_open_ok x h then case nvs_get_u32 x h ''batadc'' of None \<Rightarrow> 0 | Some v \<Rightarrow> v
                 else 0)
      in debug_loop k gitrev date adc False ss)"

section \<open>Options\<close>

definition OPT_KEYLOCK :: int where "OPT_KEYLOCK = 0"
definition OPT_WIFI :: int where "OPT_WIFI = 1"
definition OPT_VOL :: int where "OPT_VOL = 2"
definition OPT_BRIGHT :: int where "OPT_BRIGHT = 3"
definition OPT_CHANNEL :: int where "OPT_CHANNEL = 4"

lemmas OPT_defs = OPT_KEYLOCK_def OPT_WIFI_def OPT_VOL_def OPT_BRIGHT_def OPT_CHANNEL_def

text \<open>The local variables of \<open>show_options\<close> that the entries point to, and its text buffers.\<close>

datatype opt_var = Keylock | Wifi_en | Channel

record opts =
  o_var :: "opt_var \<Rightarrow> int"
  o_text :: "string list"

record opt_data =
  opt_id :: int
  opt_name :: nat                   \<comment> \<open>index of the text buffer\<close>
  opt_val :: "opt_var option"

definition deref_val :: "opts \<Rightarrow> opt_data \<Rightarrow> int result" where
  "deref_val s t = (case opt_val t of None \<Rightarrow> Inl NullDeref | Some v \<Rightarrow> Inr (o_var s v))"

definition store_val :: "int \<Rightarrow> opt_data \<Rightarrow> opts \<Rightarrow> opts result" where
  "store_val n t s =
     (case opt_val t of None \<Rightarrow> Inl NullDeref | Some v \<Rightarrow> Inr (s\<lparr>o_var := (o_var s)(v := n)\<rparr>))"

definition on_off :: "int \<Rightarrow> string" where
  "on_off n = (if n \<noteq> 0 then ''ON'' else ''OFF'')"

definition set_buffer :: "opt_data \<Rightarrow> string \<Rightarrow> opts \<Rightarrow> opts result" where
  "set_buffer t str s = bindE (in_buffer 32 str) (\<lambda>b. Inr (s\<lparr>o_text := (o_text s)[opt_name t := b]\<rparr>))"

definition option_set_text :: "'h hal \<Rightarrow> 'h \<Rightarrow> opt_data \<Rightarrow> opts \<Rightarrow> opts result" where
  "option_set_text x h t s =
     (if opt_id t = OPT_KEYLOCK then
        bindE (deref_val s t) (\<lambda>v. set_buffer t (''Keylock '' @ on_off v) s)
      else if opt_id t = OPT_WIFI then
        bindE (deref_val s t) (\<lambda>v. set_buffer t (''WiFi    '' @ on_off v) s)
      else if opt_id t = OPT_CHANNEL then
        bindE (deref_val s t) (\<lambda>v. set_buffer t (''Channel '' @ fmt_d v) s)
      else if opt_id t = OPT_VOL then set_buffer t (''Volume '' @ fmt_d (kchal_get_volume x h)) s
      else if opt_id t = OPT_BRIGHT then set_buffer t (''Bright '' @ fmt_d (kchal_get_brightness x h)) s
      else Inr s)"

definition step_clamped :: "int \<Rightarrow> int \<Rightarrow> int \<Rightarrow> bool \<Rightarrow> int \<Rightarrow> int" where
  \<comment> \<open>the three numeric options: a step down or up, kept within the bounds\<close>
  "step_clamped d lo hi left n =
     (let n1 = (if left then n - d else n + d);
          n2 = (if n1 < lo then lo else n1)
      in if hi < n2 then hi else n2)"

record menu_item =
  mi_user :: "opt_data option"

definition option_menu_cb ::
  "kc \<Rightarrow> 'h hal \<Rightarrow> u32 \<Rightarrow> menu_item list \<Rightarrow> nat \<Rightarrow> opts \<times> 'h \<Rightarrow> (int \<times> opts \<times> 'h) result" where
  "option_menu_cb k x button menu item_selected = (\<lambda>(s, h).
     (let od = mi_user (menu ! item_selected); left = (button = KC_BTN_LEFT k) in
      if button = KC_BTN_B k then Inr (KCUGUI_CB_CANCEL k, s, h)
      else if button \<noteq> KC_BTN_LEFT k \<and> button \<noteq> KC_BTN_RIGHT k then Inr (0, s, h)
      else case od of
        None \<Rightarrow> Inl NullDeref
      | Some od \<Rightarrow>
          bindE (if opt_id od = OPT_KEYLOCK \<or> opt_id od = OPT_WIFI then
                   bindE (deref_val s od) (\<lambda>v.
                   bindE (store_val (if v = 0 then 1 else 0) od s) (\<lambda>s'. Inr (s', h)))
                 else if opt_id od = OPT_VOL then
                   Inr (s, kchal_set_volume x (step_clamped 10 0 255 left (kchal_get_volume x h)) h)
                 else if opt_id od = OPT_BRIGHT then
                   Inr (s, kchal_set_brightness x
                             (step_clamped 10 0 255 left (kchal_get_brightness x h)) h)
                 else if opt_id od = OPT_CHANNEL then
                   bindE (deref_val s od) (\<lambda>v.
                   bindE (store_val (step_clamped 1 1 13 left v) od s) (\<lambda>s'. Inr (s', h)))
                 else Inr (s, h))
            (\<lambda>(s', h'). bindE (option_set_text x h' od s') (\<lambda>s''.
               Inr (KCUGUI_CB_REFRESH k, s'', h')))))"

text \<open>The tables of \<open>show_options\<close>.\<close>

definition odata :: "opt_data list" where
  "odata =
     [\<lparr>opt_id = OPT_KEYLOCK, opt_name = 0, opt_val = Some Keylock\<rparr>,
      \<lparr>opt_id = OPT_WIFI, opt_name = 1, opt_val = Some Wifi_en\<rparr>,
      \<lparr>opt_id = OPT_VOL, opt_name = 2, opt_val = None\<rparr>,
      \<lparr>opt_id = OPT_BRIGHT, opt_name = 3, opt_val = None\<rparr>,
      \<lparr>opt_id = OPT_CHANNEL, opt_name = 4, opt_val = Some Channel\<rparr>]"

definition options_menu :: "menu_item list" where
  "options_menu =
     [\<lparr>mi_user = Some (odata ! 0)\<rparr>, \<lparr>mi_user = Some (odata ! 1)\<rparr>, \<lparr>mi_user = Some (odata ! 4)\<rparr>,
      \<lparr>mi_user = Some (odata ! 2)\<rparr>, \<lparr>mi_user = Some (odata ! 3)\<rparr>,
      \<lparr>mi_user = None\<rparr>, \<lparr>mi_user = None\<rparr>]"

text \<open>
  What the user does in one call of \<open>kcugui_menu\<close>: buttons that reach the callback, each on a menu
  entry, and the entry (or -1) the call returns.
\<close>

record menu_visit =
  mv_buttons :: "(u32 \<times> nat) list"
  mv_choice :: int
  mv_debug :: "dbg_sample list"     \<comment> \<open>what \<open>debug_screen\<close> samples if it is entered\<close>

fun callbacks ::
  "kc \<Rightarrow> 'h hal \<Rightarrow> (u32 \<times> nat) list \<Rightarrow> opts \<times> 'h \<Rightarrow> (opts \<times> 'h) result" where
  "callbacks k x [] sh = Inr sh"
| "callbacks k x ((b, i) # bs) sh =
     bindE (option_menu_cb k x b options_menu i sh) (\<lambda>(_, s', h'). callbacks k x bs (s', h'))"

definition toggle :: "opt_var \<Rightarrow> opts \<Rightarrow> opts" where
  "toggle v s = s\<lparr>o_var := (o_var s)(v := if o_var s v = 0 then 1 else 0)\<rparr>"

definition options_visit ::
  "kc \<Rightarrow> 'h hal \<Rightarrow> string \<Rightarrow> string \<Rightarrow> menu_visit \<Rightarrow> opts \<times> 'h \<Rightarrow> (opts \<times> 'h) result" where
  "options_visit k x gitrev date v sh =
     bindE (callbacks k x (mv_buttons v) sh) (\<lambda>(s1, h1).
     bindE (if mv_choice v = 0 then option_set_text x h1 (odata ! 0) (toggle Keylock s1) else Inr s1)
       (\<lambda>s2.
     bindE (if mv_choice v = 1 then option_set_text x h1 (odata ! 1) (toggle Wifi_en s2) else Inr s2)
       (\<lambda>s3.
     bindE (if mv_choice v = 5
            then bindE (debug_screen k x gitrev date h1 (mv_debug v)) (\<lambda>_. Inr ())
            else Inr ()) (\<lambda>_. Inr (s3, h1)))))"

fun options_loop ::
  "kc \<Rightarrow> 'h hal \<Rightarrow> string \<Rightarrow> string \<Rightarrow> menu_visit list \<Rightarrow> opts \<times> 'h \<Rightarrow> (opts \<times> 'h) option result" where
  \<comment> \<open>\<open>None\<close> while the menu is still shown\<close>
  "options_loop k x gitrev date [] sh = Inr None"
| "options_loop k x gitrev date (v # vs) sh =
     bindE (options_visit k x gitrev date v sh) (\<lambda>sh'.
       if mv_choice v = 6 \<or> mv_choice v = - 1 then Inr (Some sh')
       else options_loop k x gitrev date vs sh')"

definition read_low_byte :: "'h hal \<Rightarrow> 'h \<Rightarrow> string \<Rightarrow> int \<Rightarrow> int" where
  \<comment> \<open>\<open>nvs_get_u8\<close> into the first byte of an \<open>int\<close>, on a little-endian processor\<close>
  "read_low_byte x h key v =
     (case nvs_get_u8 x h key of None \<Rightarrow> v | Some b \<Rightarrow> v div 256 * 256 + uint b)"

fun set_texts :: "'h hal \<Rightarrow> 'h \<Rightarrow> opt_data list \<Rightarrow> opts \<Rightarrow> opts result" where
  "set_texts x h [] s = Inr s"
| "set_texts x h (t # ts) s = bindE (option_set_text x h t s) (set_texts x h ts)"

definition options_start :: "'h hal \<Rightarrow> 'h \<Rightarrow> (int \<times> int \<times> opts) result" where
  \<comment> \<open>up to the loop: the old WiFi and channel values, and the state\<close>
  "options_start x h =
     (let keylock = read_low_byte x h ''kl'' 0 mod 256;
          wifi_en = read_low_byte x h ''wifi'' 1 mod 256;
          channel_old = read_low_byte x h ''channel'' 5;
          channel = (if channel_old < 1 \<or> 13 < channel_old then 5 else channel_old);
          s = \<lparr>o_var = (\<lambda>_. 0)(Keylock := keylock, Wifi_en := wifi_en, Channel := channel),
               o_text = replicate 5 []\<rparr>
      in bindE (set_texts x h odata s) (\<lambda>s'. Inr (wifi_en, channel_old, s')))"

definition options_save :: "'h hal \<Rightarrow> int \<Rightarrow> int \<Rightarrow> opts \<times> 'h \<Rightarrow> bool \<times> 'h" where
  \<comment> \<open>whether the device restarts, and the storage\<close>
  "options_save x wifi_old channel_old = (\<lambda>(s, h).
     (wifi_old \<noteq> o_var s Wifi_en \<or> o_var s Channel \<noteq> channel_old,
      nvs_set_u8 x ''channel'' (word_of_int (o_var s Channel))
        (nvs_set_u8 x ''wifi'' (word_of_int (o_var s Wifi_en))
          (nvs_set_u8 x ''kl'' (word_of_int (o_var s Keylock)) h))))"

definition show_options ::
  "kc \<Rightarrow> 'h hal \<Rightarrow> string \<Rightarrow> string \<Rightarrow> menu_visit list \<Rightarrow> 'h \<Rightarrow> (bool \<times> 'h) option result" where
  "show_options k x gitrev date vs h =
     bindE (options_start x h) (\<lambda>(wifi_old, channel_old, s).
     bindE (options_loop k x gitrev date vs (s, h)) (\<lambda>r.
       Inr (map_option (options_save x wifi_old channel_old) r)))"

section \<open>The application menu\<close>

datatype fc_action = FcPowerDown | FcOptions | FcDebug

definition fccallback :: "kc \<Rightarrow> u32 \<Rightarrow> fc_action list \<times> int" where
  "fccallback k button =
     ((if button AND KC_BTN_POWER k \<noteq> 0 then [FcPowerDown] else []) @
      (if button AND KC_BTN_START k \<noteq> 0 then [FcOptions] else []) @
      (if button AND KC_BTN_SELECT k \<noteq> 0 then [FcDebug] else []), 0)"

definition app_select_filter_fn :: "(string \<Rightarrow> string \<Rightarrow> bool) \<Rightarrow> string \<Rightarrow> string \<Rightarrow> bool" where
  "app_select_filter_fn filter_glob name filterarg =
     (if name = ''chooser.app'' then False else filter_glob name filterarg)"

text \<open>The keys are a list of samples; the result is what is left of it when the loop ends.\<close>

definition wait_released :: "u32 list \<Rightarrow> u32 list option" where
  "wait_released ks = (case dropWhile (\<lambda>k. k \<noteq> 0) ks of [] \<Rightarrow> None | _ # r \<Rightarrow> Some r)"

definition wait_pressed :: "u32 list \<Rightarrow> u32 list option" where
  "wait_pressed ks = (case dropWhile (\<lambda>k. k = 0) ks of [] \<Rightarrow> None | _ # r \<Rightarrow> Some r)"

datatype boot_call = SetNewApp appfs_fd | BootNewApp

definition guiMenu :: "u32 list \<Rightarrow> (u32 list \<Rightarrow> appfs_fd \<times> u32 list) \<Rightarrow> boot_call list option" where
  \<comment> \<open>\<open>chooser\<close> is the file chooser widget: the file chosen and the samples it leaves\<close>
  "guiMenu ks chooser =
     (case wait_released ks of None \<Rightarrow> None
      | Some k1 \<Rightarrow> case wait_pressed k1 of None \<Rightarrow> None
        | Some k2 \<Rightarrow> (let (fd, k3) = chooser k2 in
            case wait_released k3 of None \<Rightarrow> None
            | Some _ \<Rightarrow> Some [SetNewApp fd, BootNewApp]))"

end
