(* ===== verification/Gui_Props.thy ===== *)
theory Gui_Props
  imports Gui
begin

text \<open>
  Properties of \<open>main/gui.c\<close>: the icons stay within the picture data and their rectangle, the options
  menu shows and saves what the user has set and keeps it in range, and where it faults, the debug
  screen can be left.
\<close>

section \<open>Icons\<close>

definition icon_pixel :: "byte list \<Rightarrow> int \<Rightarrow> int \<Rightarrow> nat \<Rightarrow> nat \<Rightarrow> nat \<Rightarrow> gui_call" where
  "icon_pixel gfx px py ico y x =
     (let p = ((ico * 11 + y) * 41 + x) * 4
      in DrawPixel (int x + px) (int y + py) (gfx ! p) (gfx ! (p + 1)) (gfx ! (p + 2)))"

lemma draw_row_eq:
  assumes "p + 4 * n \<le> length gfx" "n \<le> 41"
  shows "draw_row gfx px py y n p =
    Inr (map (\<lambda>i. DrawPixel (int (41 - n + i) + px) (int y + py) (gfx ! (p + 4 * i)) (gfx ! (p + 4 * i + 1))
          (gfx ! (p + 4 * i + 2))) [0..<n], p + 4 * n)"
  using assms
proof (induction n arbitrary: p)
  case 0
  then show ?case by simp
next
  case (Suc n)
  then have "p + 4 + 4 * n \<le> length gfx" "n \<le> 41" "\<not> length gfx < p + 3" by auto
  moreover have "Suc (41 - Suc n) = 41 - n" using Suc.prems by simp
  ultimately show ?case
    using Suc.IH [of "p + 4"]
    by (simp add: GFX_W_def upt_conv_Cons del: upt_Suc)
      (simp add: map_Suc_upt [symmetric] comp_def algebra_simps del: upt_Suc)
qed

lemma draw_rows_eq:
  assumes "p + 164 * n \<le> length gfx" "n \<le> 11"
  shows "draw_rows gfx px py n p =
    Inr (concat (map (\<lambda>j. map (\<lambda>i. let q = p + 164 * j + 4 * i in
           DrawPixel (int i + px) (int (11 - n + j) + py) (gfx ! q) (gfx ! (q + 1)) (gfx ! (q + 2)))
           [0..<41]) [0..<n]))"
  using assms
proof (induction n arbitrary: p)
  case 0
  then show ?case by simp
next
  case (Suc n)
  have len: "p + 4 * 41 \<le> length gfx" "p + 164 + 164 * n \<le> length gfx" "n \<le> 11"
    using Suc.prems by auto
  have k: "Suc (11 - Suc n) = 11 - n" using Suc.prems by simp
  have row: "draw_row gfx px py (11 - Suc n) 41 p =
      Inr (map (\<lambda>i. let q = p + 4 * i in
        DrawPixel (int i + px) (int (11 - Suc n) + py) (gfx ! q) (gfx ! (q + 1)) (gfx ! (q + 2)))
        [0..<41], p + 164)"
    using draw_row_eq [OF len(1), of px py] by (simp add: Let_def)
  have "[0..<Suc n] = 0 # map Suc [0..<n]" by (simp add: upt_conv_Cons map_Suc_upt del: upt_Suc)
  with row Suc.IH [OF len(2,3)] k show ?case
    by (simp add: GFX_W_def GFX_IH_def Let_def comp_def algebra_simps del: upt_Suc)
qed

text \<open>
  Drawing an icon reads inside the picture data and draws each point of the icon's 41 by 11
  rectangle once, row by row, with the colour that the picture data holds for it, when the data is
  long enough for the icon.
\<close>

theorem drawIcon_draws_rectangle:
  assumes "(ico + 1) * (11 * 41 * 4) \<le> length gfx"
  shows "drawIcon gfx px py ico =
    Inr (concat (map (\<lambda>y. map (icon_pixel gfx px py ico y) [0..<41]) [0..<11]))"
proof -
  have "ico * 11 * 41 * 4 + 164 * 11 \<le> length gfx" using assms by simp
  from draw_rows_eq [OF this, of px py] show ?thesis
    unfolding drawIcon_def GFX_W_def GFX_IH_def icon_pixel_def [abs_def] Let_def
    by (simp add: algebra_simps del: upt_Suc)
qed

theorem drawIcon_draws_rectangle_witness:
  "drawIcon (replicate 7216 9) 20 26 3 =
    Inr (concat (map (\<lambda>y. map (icon_pixel (replicate 7216 9) 20 26 3 y) [0..<41]) [0..<11]))"
  by (rule drawIcon_draws_rectangle) simp

section \<open>The options menu\<close>

definition hal_ok :: "'h hal \<Rightarrow> bool" where
  \<comment> \<open>the documented behaviour of the volume, the brightness and the storage\<close>
  "hal_ok x \<longleftrightarrow>
     (\<forall>h. 0 \<le> kchal_get_volume x h \<and> kchal_get_volume x h \<le> 255) \<and>
     (\<forall>h. 0 \<le> kchal_get_brightness x h \<and> kchal_get_brightness x h \<le> 255) \<and>
     (\<forall>n h. kchal_get_brightness x (kchal_set_volume x n h) = kchal_get_brightness x h) \<and>
     (\<forall>n h. kchal_get_volume x (kchal_set_brightness x n h) = kchal_get_volume x h) \<and>
     (\<forall>k k' v h. nvs_get_u8 x (nvs_set_u8 x k v h) k' = (if k' = k then Some v else nvs_get_u8 x h k'))"

definition menu_texts :: "'h hal \<Rightarrow> opts \<Rightarrow> 'h \<Rightarrow> string list" where
  "menu_texts x s h =
     [''Keylock '' @ on_off (o_var s Keylock), ''WiFi    '' @ on_off (o_var s Wifi_en),
      ''Volume '' @ fmt_d (kchal_get_volume x h), ''Bright '' @ fmt_d (kchal_get_brightness x h),
      ''Channel '' @ fmt_d (o_var s Channel)]"

definition opts_inv :: "'h hal \<Rightarrow> opts \<times> 'h \<Rightarrow> bool" where
  "opts_inv x = (\<lambda>(s, h). o_text s = menu_texts x s h \<and> 1 \<le> o_var s Channel \<and> o_var s Channel \<le> 13 \<and>
     0 \<le> o_var s Keylock \<and> o_var s Keylock \<le> 255 \<and> 0 \<le> o_var s Wifi_en \<and> o_var s Wifi_en \<le> 255)"

lemma fmt_d_small:
  assumes "0 \<le> i" "i < 1000"
  shows "length (fmt_d i) \<le> 3"
  using assms text_of_nat_base_length [of "nat i" 3] by (simp add: fmt_d_def nat_less_iff)

lemma on_off_length: "length (on_off n) \<le> 3"
  by (simp add: on_off_def)

lemma in_buffer_fmt:
  assumes "0 \<le> i" "i < 1000" "length p \<le> 20"
  shows "in_buffer 32 (p @ fmt_d i) = Inr (p @ fmt_d i)"
  using fmt_d_small [OF assms(1,2)] assms(3) by (simp add: in_buffer_def)

lemma in_buffer_on_off: "length p \<le> 20 \<Longrightarrow> in_buffer 32 (p @ on_off n) = Inr (p @ on_off n)"
  using on_off_length [of n] by (simp add: in_buffer_def)

lemma hal_bounds:
  assumes "hal_ok x"
  shows "0 \<le> kchal_get_volume x h" "kchal_get_volume x h < 1000"
    "0 \<le> kchal_get_brightness x h" "kchal_get_brightness x h < 1000"
proof -
  from assms have "0 \<le> kchal_get_volume x h \<and> kchal_get_volume x h \<le> 255"
    "0 \<le> kchal_get_brightness x h \<and> kchal_get_brightness x h \<le> 255"
    unfolding hal_ok_def by blast+
  then show "0 \<le> kchal_get_volume x h" "kchal_get_volume x h < 1000"
    "0 \<le> kchal_get_brightness x h" "kchal_get_brightness x h < 1000" by auto
qed

definition opts_ranged :: "opts \<Rightarrow> bool" where
  "opts_ranged s \<longleftrightarrow> 1 \<le> o_var s Channel \<and> o_var s Channel \<le> 13 \<and>
     0 \<le> o_var s Keylock \<and> o_var s Keylock \<le> 255 \<and> 0 \<le> o_var s Wifi_en \<and> o_var s Wifi_en \<le> 255"

lemma opts_inv_alt: "opts_inv x (s, h) \<longleftrightarrow> o_text s = menu_texts x s h \<and> opts_ranged s"
  by (simp add: opts_inv_def opts_ranged_def)

lemmas odata_simps = odata_def OPT_defs

lemma option_set_text_fresh:
  assumes "hal_ok x" "i < 5" "opts_ranged s"
  shows "option_set_text x h (odata ! i) s =
    Inr (s\<lparr>o_text := (o_text s)[i := menu_texts x s h ! i]\<rparr>)"
proof -
  have r: "0 \<le> o_var s Channel" "o_var s Channel < 1000" using assms(3) by (auto simp: opts_ranged_def)
  have len: "length (fmt_d (kchal_get_volume x h)) \<le> 3" "length (fmt_d (kchal_get_brightness x h)) \<le> 3"
    "length (fmt_d (o_var s Channel)) \<le> 3" "length (on_off (o_var s Keylock)) \<le> 3"
    "length (on_off (o_var s Wifi_en)) \<le> 3"
    using hal_bounds [OF assms(1)] r by (auto intro: fmt_d_small on_off_length)
  from assms(2) have "i \<in> {0, 1, 2, 3, 4}" by auto
  then show ?thesis
    using len
    by (elim insertE emptyE)
      (simp_all add: odata_simps option_set_text_def deref_val_def set_buffer_def menu_texts_def
        in_buffer_def)
qed

lemma step_clamped_range: "lo \<le> hi \<Longrightarrow> lo \<le> step_clamped d lo hi l n \<and> step_clamped d lo hi l n \<le> hi"
  by (simp add: step_clamped_def Let_def)

lemma menu_texts_length [simp]: "length (menu_texts x s h) = 5"
  by (simp add: menu_texts_def)

lemma menu_user: "i < 5 \<Longrightarrow> mi_user (options_menu ! i) = Some (odata ! ([0, 1, 4, 2, 3] ! i))"
  by (auto simp: options_menu_def less_Suc_eq numeral_eq_Suc)

lemma menu_user_none: "5 \<le> i \<Longrightarrow> i < 7 \<Longrightarrow> mi_user (options_menu ! i) = None"
  by (auto simp: options_menu_def le_Suc_eq less_Suc_eq numeral_eq_Suc)

lemma hal_frame:
  assumes "hal_ok x"
  shows "kchal_get_brightness x (kchal_set_volume x n h) = kchal_get_brightness x h"
    "kchal_get_volume x (kchal_set_brightness x n h) = kchal_get_volume x h"
  using assms by (simp_all add: hal_ok_def)

lemma fresh_after:
  assumes "o_text s = menu_texts x s h" "i < 5"
    and "\<forall>j < 5. j \<noteq> i \<longrightarrow> menu_texts x s' h' ! j = menu_texts x s h ! j" "o_text s' = o_text s"
  shows "(o_text s')[i := menu_texts x s' h' ! i] = menu_texts x s' h'"
  using assms by (intro nth_equalityI) (auto simp: nth_list_update)

lemma all_less_5: "(\<forall>j < (5::nat). P j) \<longleftrightarrow> P 0 \<and> P 1 \<and> P 2 \<and> P 3 \<and> P 4"
  by (auto simp: less_Suc_eq numeral_eq_Suc)

lemma finish_option:
  assumes ok: "hal_ok x" and inv: "opts_inv x (s, h)" and i: "i < 5" and r: "opts_ranged s'"
    and same_text: "o_text s' = o_text s"
    and others: "\<forall>j < 5. j \<noteq> i \<longrightarrow> menu_texts x s' h' ! j = menu_texts x s h ! j"
  shows "\<exists>s''. option_set_text x h' (odata ! i) s' = Inr s'' \<and> opts_inv x (s'', h') \<and>
    o_var s'' = o_var s'"
proof -
  have t: "o_text s = menu_texts x s h" using inv by (simp add: opts_inv_alt)
  have "menu_texts x (s'\<lparr>o_text := ts\<rparr>) h' = menu_texts x s' h'" for ts by (simp add: menu_texts_def)
  then show ?thesis
    using option_set_text_fresh [OF ok i r, of h'] fresh_after [OF t i others same_text] r
    by (simp add: opts_inv_alt opts_ranged_def)
qed

definition option_move ::
  "kc \<Rightarrow> 'h hal \<Rightarrow> bool \<Rightarrow> opt_data option \<Rightarrow> opts \<Rightarrow> 'h \<Rightarrow> (int \<times> opts \<times> 'h) result" where
  \<comment> \<open>what the callback does with the left and the right button\<close>
  "option_move k x left user s h =
     (case user of
        None \<Rightarrow> Inl NullDeref
      | Some od \<Rightarrow>
          bindE (if opt_id od = OPT_KEYLOCK \<or> opt_id od = OPT_WIFI then
                   bindE (deref_val s od) (\<lambda>v.
                   bindE (store_val (if v = 0 then 1 else 0) od s) (\<lambda>s'. Inr (s', h)))
                 else if opt_id od = OPT_VOL then
                   Inr (s, kchal_set_volume x (step_clamped 10 0 255 left (kchal_get_volume x h)) h)
                 else if opt_id od = OPT_BRIGHT then
                   Inr (s, kchal_set_brightness x
                             (step_clamped 10 0 255 left (kchal_get_brightness x h)) h)
                 else if opt_id od = OPT_CHANNEL then
                   bindE (deref_val s od) (\<lambda>v.
                   bindE (store_val (step_clamped 1 1 13 left v) od s) (\<lambda>s'. Inr (s', h)))
                 else Inr (s, h))
            (\<lambda>(s', h'). bindE (option_set_text x h' od s') (\<lambda>s''.
               Inr (KCUGUI_CB_REFRESH k, s'', h'))))"

lemma option_menu_cb_move:
  "b \<noteq> KC_BTN_B k \<Longrightarrow> b = KC_BTN_LEFT k \<or> b = KC_BTN_RIGHT k \<Longrightarrow>
    option_menu_cb k x b menu i (s, h) = option_move k x (b = KC_BTN_LEFT k) (mi_user (menu ! i)) s h"
  unfolding option_menu_cb_def option_move_def Let_def prod.case by (simp only: simp_thms if_False) (rule if_not_P, blast)

lemma option_menu_cb_inv:
  assumes ok: "hal_ok x" and inv: "opts_inv x (s, h)" and i: "i < 5"
  shows "\<exists>r s' h'. option_menu_cb k x b options_menu i (s, h) = Inr (r, s', h') \<and> opts_inv x (s', h')"
proof (cases "b = KC_BTN_B k \<or> (b \<noteq> KC_BTN_LEFT k \<and> b \<noteq> KC_BTN_RIGHT k)")
  case True
  then show ?thesis using inv by (auto simp: option_menu_cb_def Let_def)
next
  case False
  let ?l = "b = KC_BTN_LEFT k"
  have cb: "option_menu_cb k x b options_menu i (s, h) =
      option_move k x ?l (mi_user (options_menu ! i)) s h"
    by (rule option_menu_cb_move) (use False in auto)
  have rng: "opts_ranged s" using inv by (simp add: opts_inv_alt)
  have user: "mi_user (options_menu ! i) = Some (odata ! ([0, 1, 4, 2, 3] ! i))" by (rule menu_user [OF i])
  consider "i = 0" | "i = 1" | "i = 2" | "i = 3" | "i = 4" using i by linarith
  then show ?thesis
  proof cases
    case 1
    let ?s = "s\<lparr>o_var := (o_var s)(Keylock := if o_var s Keylock = 0 then 1 else 0)\<rparr>"
    have r: "opts_ranged ?s" using rng by (simp add: opts_ranged_def)
    have others: "\<forall>j < 5. j \<noteq> 0 \<longrightarrow> menu_texts x ?s h ! j = menu_texts x s h ! j"
      by (simp add: all_less_5 menu_texts_def)
    obtain s'' where "option_set_text x h (odata ! 0) ?s = Inr s''" "opts_inv x (s'', h)"
      using finish_option [OF ok inv _ r _ others] by auto
    with 1 user cb show ?thesis
      by (simp add: option_move_def odata_simps deref_val_def store_val_def)
  next
    case 2
    let ?s = "s\<lparr>o_var := (o_var s)(Wifi_en := if o_var s Wifi_en = 0 then 1 else 0)\<rparr>"
    have r: "opts_ranged ?s" using rng by (simp add: opts_ranged_def)
    have others: "\<forall>j < 5. j \<noteq> 1 \<longrightarrow> menu_texts x ?s h ! j = menu_texts x s h ! j"
      by (simp add: all_less_5 menu_texts_def)
    obtain s'' where "option_set_text x h (odata ! 1) ?s = Inr s''" "opts_inv x (s'', h)"
      using finish_option [OF ok inv _ r _ others] by auto
    with 2 user cb show ?thesis
      by (simp add: option_move_def odata_simps deref_val_def store_val_def)
  next
    case 3
    let ?s = "s\<lparr>o_var := (o_var s)(Channel := step_clamped 1 1 13 ?l (o_var s Channel))\<rparr>"
    have r: "opts_ranged ?s" using rng step_clamped_range [of 1 13 1 ?l "o_var s Channel"]
      by (simp add: opts_ranged_def)
    have others: "\<forall>j < 5. j \<noteq> 4 \<longrightarrow> menu_texts x ?s h ! j = menu_texts x s h ! j"
      by (simp add: all_less_5 menu_texts_def)
    obtain s'' where "option_set_text x h (odata ! 4) ?s = Inr s''" "opts_inv x (s'', h)"
      using finish_option [OF ok inv _ r _ others] by auto
    with 3 user cb show ?thesis
      by (simp add: option_move_def odata_simps deref_val_def store_val_def)
  next
    case 4
    let ?h = "kchal_set_volume x (step_clamped 10 0 255 ?l (kchal_get_volume x h)) h"
    have others: "\<forall>j < 5. j \<noteq> 2 \<longrightarrow> menu_texts x s ?h ! j = menu_texts x s h ! j"
      by (simp add: all_less_5 menu_texts_def hal_frame [OF ok])
    obtain s'' where "option_set_text x ?h (odata ! 2) s = Inr s''" "opts_inv x (s'', ?h)"
      using finish_option [OF ok inv _ rng _ others] by auto
    with 4 user cb show ?thesis by (simp add: option_move_def odata_simps)
  next
    case 5
    let ?h = "kchal_set_brightness x (step_clamped 10 0 255 ?l (kchal_get_brightness x h)) h"
    have others: "\<forall>j < 5. j \<noteq> 3 \<longrightarrow> menu_texts x s ?h ! j = menu_texts x s h ! j"
      by (simp add: all_less_5 menu_texts_def hal_frame [OF ok])
    obtain s'' where "option_set_text x ?h (odata ! 3) s = Inr s''" "opts_inv x (s'', ?h)"
      using finish_option [OF ok inv _ rng _ others] by auto
    with 5 user cb show ?thesis by (simp add: option_move_def odata_simps)
  qed
qed

text \<open>
  The callback of the options menu faults exactly when the left or right button is pressed on one
  of the entries "Debug info" and "Exit": they carry no option, and the callback dereferences their
  null pointer.
\<close>

theorem option_menu_cb_null_deref:
  assumes "hal_ok x" "opts_inv x (s, h)" "i < 7" "KC_BTN_B k \<notin> {KC_BTN_LEFT k, KC_BTN_RIGHT k}"
  shows "(\<exists>e. option_menu_cb k x b options_menu i (s, h) = Inl e) \<longleftrightarrow>
    i \<in> {5, 6} \<and> b \<in> {KC_BTN_LEFT k, KC_BTN_RIGHT k}"
proof (cases "i < 5")
  case True
  with option_menu_cb_inv [OF assms(1,2), of i k b] show ?thesis by auto
next
  case False
  then have "mi_user (options_menu ! i) = None" "i \<in> {5, 6}" using assms(3) menu_user_none by auto
  then show ?thesis using assms(4) by (auto simp: option_menu_cb_def Let_def)
qed

section \<open>A session of the options menu\<close>

type_synonym demo_hw = "int \<times> int \<times> (string \<Rightarrow> byte option)"

definition demo_hal :: "demo_hw hal" where
  "demo_hal =
     \<lparr>kchal_get_volume = (\<lambda>(v, b, n). v mod 256), kchal_set_volume = (\<lambda>m (v, b, n). (m, b, n)),
      kchal_get_brightness = (\<lambda>(v, b, n). b mod 256),
      kchal_set_brightness = (\<lambda>m (v, b, n). (v, m, n)),
      nvs_open_ok = (\<lambda>_. True), nvs_get_u8 = (\<lambda>(v, b, n) k. n k), nvs_get_u32 = (\<lambda>_ _. None),
      nvs_set_u8 = (\<lambda>k c (v, b, n). (v, b, n(k \<mapsto> c)))\<rparr>"

definition demo_kc :: kc where
  "demo_kc = \<lparr>KC_BTN_A = 1, KC_BTN_B = 2, KC_BTN_LEFT = 4, KC_BTN_RIGHT = 8, KC_BTN_POWER = 16,
     KC_BTN_START = 32, KC_BTN_SELECT = 64, KCUGUI_CB_CANCEL = 1, KCUGUI_CB_REFRESH = 2,
     KC_CHG_FULL = 2, KC_CHG_CHARGING = 1, KC_CHG_NOCHARGER = 0\<rparr>"

lemma mod_256_le: "(n :: int) mod 256 \<le> 255"
  using pos_mod_bound [of 256 n] by simp

lemma demo_hal_ok: "hal_ok demo_hal"
  by (simp add: hal_ok_def demo_hal_def mod_256_le split: prod.splits)

definition visit_ok :: "kc \<Rightarrow> menu_visit \<Rightarrow> bool" where
  \<comment> \<open>the user moves no entry that has no option, and the battery voltage is an \<open>int\<close>\<close>
  "visit_ok k v \<longleftrightarrow>
     (\<forall>(b, i) \<in> set (mv_buttons v). i < 5 \<or> (i < 7 \<and> b \<notin> {KC_BTN_LEFT k, KC_BTN_RIGHT k})) \<and>
     (\<forall>s \<in> set (mv_debug v). - (2 ^ 31) \<le> dk_mv s \<and> dk_mv s < 2 ^ 31)"

lemma callbacks_inv:
  assumes "hal_ok x" "opts_inv x sh"
    "\<forall>(b, i) \<in> set bs. i < 5 \<or> (i < 7 \<and> b \<notin> {KC_BTN_LEFT k, KC_BTN_RIGHT k})"
  shows "\<exists>sh'. callbacks k x bs sh = Inr sh' \<and> opts_inv x sh'"
  using assms(2-)
proof (induction bs arbitrary: sh)
  case Nil
  then show ?case by simp
next
  case (Cons bi bs)
  obtain b i s h where bi: "bi = (b, i)" and sh: "sh = (s, h)" by (cases bi, cases sh) auto
  have "\<exists>r s' h'. option_menu_cb k x b options_menu i (s, h) = Inr (r, s', h') \<and> opts_inv x (s', h')"
  proof (cases "i < 5")
    case True
    then show ?thesis using option_menu_cb_inv [OF assms(1)] Cons.prems(1) sh by blast
  next
    case False
    then have "b \<noteq> KC_BTN_LEFT k \<and> b \<noteq> KC_BTN_RIGHT k" using Cons.prems(2) bi by auto
    then show ?thesis using Cons.prems(1) sh by (auto simp: option_menu_cb_def Let_def)
  qed
  then obtain r s' h' where
    "option_menu_cb k x b options_menu i (s, h) = Inr (r, s', h')" "opts_inv x (s', h')" by blast
  with Cons.IH [of "(s', h')"] Cons.prems(2) show ?case by (simp add: bi sh)
qed

lemma debug_frame_ok:
  assumes "- (2 ^ 31) \<le> dk_mv s" "dk_mv s < 2 ^ 31"
  shows "\<exists>cs. debug_frame g d adc s = Inr cs"
  using fmt_X_length [of "dk_keys s"] fmt_X_length [of "dk_chg s"] fmt_d_length [OF assms]
    fmt_d_length [of "sint adc"] sint_range_size [of adc]
  by (simp add: debug_frame_def in_buffer_def word_size)

lemma debug_loop_ok:
  assumes "\<forall>s \<in> set ss. - (2 ^ 31) \<le> dk_mv s \<and> dk_mv s < 2 ^ 31"
  shows "\<exists>cs r. debug_loop k g d adc sel ss = Inr (cs, r)"
  using assms
proof (induction ss arbitrary: sel)
  case Nil
  then show ?case by simp
next
  case (Cons s ss)
  obtain cs where f: "debug_frame g d adc s = Inr cs" using debug_frame_ok Cons.prems by fastforce
  obtain cs' r where "debug_loop k g d adc (sel \<or> dk_keys s AND KC_BTN_SELECT k = 0) ss = Inr (cs', r)"
    using Cons by fastforce
  with f show ?case by (auto simp del: de_Morgan_conj)
qed

lemma toggle_ranged: "opts_ranged s \<Longrightarrow> v \<noteq> Channel \<Longrightarrow> opts_ranged (toggle v s)"
  by (cases v) (simp_all add: opts_ranged_def toggle_def)

lemma options_visit_inv:
  assumes ok: "hal_ok x" and inv: "opts_inv x sh" and v: "visit_ok k v"
  shows "\<exists>sh'. options_visit k x g d v sh = Inr sh' \<and> opts_inv x sh'"
proof -
  obtain s1 h1 where cb: "callbacks k x (mv_buttons v) sh = Inr (s1, h1)" and i1: "opts_inv x (s1, h1)"
    using callbacks_inv [OF ok inv, of "mv_buttons v" k] v by (auto simp: visit_ok_def)
  have tg: "\<exists>s''. option_set_text x h1 (odata ! j) (toggle w s) = Inr s'' \<and> opts_inv x (s'', h1)"
    if "opts_inv x (s, h1)" "(j = 0 \<and> w = Keylock) \<or> (j = 1 \<and> w = Wifi_en)" for s j w
  proof -
    have r: "opts_ranged (toggle w s)" using that toggle_ranged by (auto simp: opts_inv_alt)
    have "\<forall>i < 5. i \<noteq> j \<longrightarrow> menu_texts x (toggle w s) h1 ! i = menu_texts x s h1 ! i"
      using that(2) by (auto simp: all_less_5 menu_texts_def toggle_def)
    then show ?thesis using finish_option [OF ok that(1) _ r, of j h1] that(2)
      by (auto simp: toggle_def)
  qed
  obtain s2 where s2: "(if mv_choice v = 0 then option_set_text x h1 (odata ! 0) (toggle Keylock s1)
      else Inr s1) = Inr s2" "opts_inv x (s2, h1)"
    using tg [OF i1, of 0 Keylock] i1 by (cases "mv_choice v = 0") auto
  obtain s3 where s3: "(if mv_choice v = 1 then option_set_text x h1 (odata ! 1) (toggle Wifi_en s2)
      else Inr s2) = Inr s3" "opts_inv x (s3, h1)"
    using tg [OF s2(2), of 1 Wifi_en] s2(2) by (cases "mv_choice v = 1") auto
  have "\<exists>cs r. debug_screen k x g d h1 (mv_debug v) = Inr (cs, r)"
    unfolding debug_screen_def Let_def by (rule debug_loop_ok) (use v in \<open>simp add: visit_ok_def\<close>)
  with cb s2 s3 show ?thesis unfolding options_visit_def by auto
qed

lemma options_loop_inv:
  assumes "hal_ok x" "opts_inv x sh" "\<forall>v \<in> set vs. visit_ok k v"
    "\<exists>v \<in> set vs. mv_choice v = 6 \<or> mv_choice v = - 1"
  shows "\<exists>sh'. options_loop k x g d vs sh = Inr (Some sh') \<and> opts_inv x sh'"
  using assms(2-)
proof (induction vs arbitrary: sh)
  case Nil
  then show ?case by simp
next
  case (Cons v vs)
  obtain sh' where "options_visit k x g d v sh = Inr sh'" "opts_inv x sh'"
    using options_visit_inv [OF assms(1) Cons.prems(1)] Cons.prems(2) by fastforce
  with Cons show ?case
    by (cases sh', cases "mv_choice v = 6 \<or> mv_choice v = - 1") auto
qed

lemma menu_texts_text [simp]: "menu_texts x (s\<lparr>o_text := ts\<rparr>) h = menu_texts x s h"
  by (simp add: menu_texts_def)

lemma opts_ranged_text [simp]: "opts_ranged (s\<lparr>o_text := ts\<rparr>) = opts_ranged s"
  by (simp add: opts_ranged_def)

lemma set_texts_fresh:
  assumes "hal_ok x" "opts_ranged s" "length (o_text s) = 5"
  shows "set_texts x h odata s = Inr (s\<lparr>o_text := menu_texts x s h\<rparr>)"
proof -
  have o: "set_texts x h odata s = set_texts x h [odata ! 0, odata ! 1, odata ! 2, odata ! 3, odata ! 4] s"
    by (simp add: odata_def)
  obtain a b c d e where "o_text s = [a, b, c, d, e]"
    using assms(3) by (auto simp: numeral_eq_Suc length_Suc_conv)
  then show ?thesis unfolding o
    by (simp add: option_set_text_fresh assms) (simp add: menu_texts_def)
qed

definition stored :: "'h hal \<Rightarrow> 'h \<Rightarrow> string \<Rightarrow> int \<Rightarrow> int" where
  \<comment> \<open>a setting, with its default\<close>
  "stored x h key v = (case nvs_get_u8 x h key of None \<Rightarrow> v | Some b \<Rightarrow> uint b)"

lemma read_low_byte_stored:
  "0 \<le> v \<Longrightarrow> v < 256 \<Longrightarrow> read_low_byte x h key v = stored x h key v"
  by (simp add: read_low_byte_def stored_def split: option.splits)

lemma stored_mod: "0 \<le> v \<Longrightarrow> v < 256 \<Longrightarrow> stored x h key v mod 256 = stored x h key v"
  using uint_lt2p [of "b :: 8 word" for b] by (auto simp: stored_def split: option.splits)

lemma options_start_inv:
  assumes "hal_ok x"
  shows "\<exists>s. options_start x h = Inr (stored x h ''wifi'' 1, stored x h ''channel'' 5, s) \<and>
    opts_inv x (s, h)"
proof -
  define s0 where "s0 = \<lparr>o_var = (\<lambda>_. 0)(Keylock := stored x h ''kl'' 0, Wifi_en := stored x h ''wifi'' 1,
     Channel := if stored x h ''channel'' 5 < 1 \<or> 13 < stored x h ''channel'' 5 then 5
       else stored x h ''channel'' 5), o_text = replicate 5 []\<rparr>"
  have b: "0 \<le> stored x h key v \<and> stored x h key v \<le> 255" if "0 \<le> v" "v < 256" for key v
    using stored_mod [OF that, of x h key] mod_256_le [of "stored x h key v"]
      pos_mod_sign [of 256 "stored x h key v"] by simp
  have "opts_ranged s0" using b by (simp add: opts_ranged_def s0_def)
  moreover have "length (o_text s0) = 5" by (simp add: s0_def)
  ultimately have "set_texts x h odata s0 = Inr (s0\<lparr>o_text := menu_texts x s0 h\<rparr>)"
    "opts_inv x (s0\<lparr>o_text := menu_texts x s0 h\<rparr>, h)"
    using set_texts_fresh [OF assms] by (simp_all add: opts_inv_alt)
  then show ?thesis
    by (simp add: options_start_def Let_def read_low_byte_stored stored_mod s0_def)
qed

text \<open>
  C34. A session of the options menu. If the user leaves the menu, and moves no entry without an
  option, \<open>show_options\<close> does not fault and returns. The values it saves are those its texts show; the
  channel saved is one of 1 to 13, whatever was stored before; and it restarts the device exactly
  when the WiFi setting or the channel saved is not the one that was stored.
\<close>

theorem show_options_session:
  assumes "hal_ok x" "\<forall>v \<in> set vs. visit_ok k v"
    and "\<exists>v \<in> set vs. mv_choice v = 6 \<or> mv_choice v = - 1"
  shows "\<exists>reboot h' s h1. show_options k x g d vs h = Inr (Some (reboot, h')) \<and>
    o_text s = menu_texts x s h1 \<and>
    stored x h' ''kl'' 0 = o_var s Keylock \<and> stored x h' ''wifi'' 1 = o_var s Wifi_en \<and>
    stored x h' ''channel'' 5 = o_var s Channel \<and>
    1 \<le> stored x h' ''channel'' 5 \<and> stored x h' ''channel'' 5 \<le> 13 \<and>
    (reboot \<longleftrightarrow> stored x h' ''wifi'' 1 \<noteq> stored x h ''wifi'' 1 \<or>
      stored x h' ''channel'' 5 \<noteq> stored x h ''channel'' 5)"
proof -
  obtain s0 where s0: "options_start x h = Inr (stored x h ''wifi'' 1, stored x h ''channel'' 5, s0)"
    "opts_inv x (s0, h)" using options_start_inv [OF assms(1)] by blast
  obtain s h1 where l: "options_loop k x g d vs (s0, h) = Inr (Some (s, h1))" "opts_inv x (s, h1)"
    using options_loop_inv [OF assms(1) s0(2) assms(2,3)] by fastforce
  obtain rb h' where sv: "options_save x (stored x h ''wifi'' 1) (stored x h ''channel'' 5) (s, h1) = (rb, h')"
    by (cases "options_save x (stored x h ''wifi'' 1) (stored x h ''channel'' 5) (s, h1)")
  have rng: "opts_ranged s" "o_text s = menu_texts x s h1" using l(2) by (simp_all add: opts_inv_alt)
  have st: "nvs_get_u8 x (nvs_set_u8 x k1 v h0) k2 = (if k2 = k1 then Some v else nvs_get_u8 x h0 k2)"
    for k1 k2 v h0 using assms(1) by (simp add: hal_ok_def)
  have u: "uint (word_of_int n :: byte) = n" if "0 \<le> n" "n \<le> 255" for n
    using that by (simp add: unsigned_of_int take_bit_eq_mod)
  have saved: "stored x h' ''kl'' 0 = o_var s Keylock" "stored x h' ''wifi'' 1 = o_var s Wifi_en"
    "stored x h' ''channel'' 5 = o_var s Channel"
    using sv rng(1) by (auto simp: options_save_def stored_def st u opts_ranged_def)
  have "show_options k x g d vs h = Inr (Some (rb, h'))" by (simp add: show_options_def s0(1) l(1) sv)
  moreover have "rb \<longleftrightarrow> stored x h ''wifi'' 1 \<noteq> o_var s Wifi_en \<or> o_var s Channel \<noteq> stored x h ''channel'' 5"
    using sv by (auto simp: options_save_def)
  ultimately show ?thesis using saved rng by (auto simp: opts_ranged_def)
qed

theorem show_options_session_witness:
  "\<exists>reboot h'. show_options demo_kc demo_hal ''rev'' ''date''
      [\<lparr>mv_buttons = [(4, 0), (8, 2)], mv_choice = 0, mv_debug = []\<rparr>,
       \<lparr>mv_buttons = [], mv_choice = 6, mv_debug = []\<rparr>] (0, 0, Map.empty) = Inr (Some (reboot, h')) \<and>
    1 \<le> stored demo_hal h' ''channel'' 5"
  using show_options_session [OF demo_hal_ok, of "[\<lparr>mv_buttons = [(4, 0), (8, 2)], mv_choice = 0,
      mv_debug = []\<rparr>, \<lparr>mv_buttons = [], mv_choice = 6, mv_debug = []\<rparr>]" demo_kc "''rev''" "''date''"
      "(0, 0, Map.empty)"]
  by (auto simp: visit_ok_def)

theorem option_menu_cb_null_deref_witness:
  "\<exists>s e. option_menu_cb demo_kc demo_hal 4 options_menu 5 (s, (0, 0, Map.empty)) = Inl e"
proof -
  obtain s where "opts_inv demo_hal (s, (0, 0, Map.empty))"
    using options_start_inv [OF demo_hal_ok] by blast
  then show ?thesis
    using option_menu_cb_null_deref [OF demo_hal_ok, of s "(0, 0, Map.empty)" 5 demo_kc 4]
    by (auto simp: demo_kc_def)
qed

section \<open>The debug screen\<close>

lemma ex_less_Suc_split: "(\<exists>i < Suc n. P i) \<longleftrightarrow> P 0 \<or> (\<exists>i < n. P (Suc i))"
  by (metis less_Suc_eq_0_disj)

lemma debug_loop_exit:
  assumes "\<forall>s \<in> set ss. - (2 ^ 31) \<le> dk_mv s \<and> dk_mv s < 2 ^ 31"
  shows "(\<exists>cs r. debug_loop k g d adc sel ss = Inr (cs, Some r)) \<longleftrightarrow>
    (\<exists>i < length ss. dk_keys (ss ! i) AND KC_BTN_SELECT k \<noteq> 0 \<and>
       (sel \<or> (\<exists>j < i. dk_keys (ss ! j) AND KC_BTN_SELECT k = 0)))"
  using assms
proof (induction ss arbitrary: sel)
  case Nil
  then show ?case by simp
next
  case (Cons s ss)
  let ?pr = "\<lambda>s. dk_keys s AND KC_BTN_SELECT k \<noteq> 0"
  obtain cs where f: "debug_frame g d adc s = Inr cs" using debug_frame_ok Cons.prems by fastforce
  have split: "(\<exists>i < length (s # ss). ?pr ((s # ss) ! i) \<and> (sel \<or> (\<exists>j < i. \<not> ?pr ((s # ss) ! j)))) \<longleftrightarrow>
      (?pr s \<and> sel) \<or>
      (\<exists>i < length ss. ?pr (ss ! i) \<and> (sel \<or> \<not> ?pr s \<or> (\<exists>j < i. \<not> ?pr (ss ! j))))"
    (is "?L = ?R")
    unfolding length_Cons ex_less_Suc_split [of "length ss"] nth_Cons_0 nth_Cons_Suc
    by (simp add: ex_less_Suc_split)
  show ?case
  proof (cases "?pr s \<and> sel")
    case True
    then show ?thesis using f unfolding split [unfolded not_not] by simp
  next
    case False
    let ?sel = "sel \<or> dk_keys s AND KC_BTN_SELECT k = 0"
    have "(\<exists>cs r. debug_loop k g d adc sel (s # ss) = Inr (cs, Some r)) \<longleftrightarrow>
        (\<exists>cs r. debug_loop k g d adc ?sel ss = Inr (cs, Some r))"
      using f False by (auto simp: bindE_Inr_iff simp del: de_Morgan_conj)
    with Cons.IH [of ?sel] Cons.prems False show ?thesis unfolding split [unfolded not_not] by (simp, blast)
  qed
qed

text \<open>
  C35. The debug screen is left by a fresh press of SELECT: exactly when some sample has the button
  down and an earlier sample has it up, so the press that opened the screen does not close it.
\<close>

theorem debug_screen_exit:
  assumes "\<forall>s \<in> set ss. - (2 ^ 31) \<le> dk_mv s \<and> dk_mv s < 2 ^ 31"
  shows "(\<exists>cs r. debug_screen k x g d h ss = Inr (cs, Some r)) \<longleftrightarrow>
    (\<exists>i j. j < i \<and> i < length ss \<and> dk_keys (ss ! i) AND KC_BTN_SELECT k \<noteq> 0 \<and>
       dk_keys (ss ! j) AND KC_BTN_SELECT k = 0)"
  unfolding debug_screen_def Let_def debug_loop_exit [OF assms] by auto

theorem debug_screen_exit_witness:
  "\<exists>cs r. debug_screen demo_kc demo_hal ''rev'' ''date'' (0, 0, Map.empty)
     [\<lparr>dk_keys = 64, dk_chg = 0, dk_mv = 4000\<rparr>, \<lparr>dk_keys = 0, dk_chg = 0, dk_mv = 4000\<rparr>,
      \<lparr>dk_keys = 64, dk_chg = 0, dk_mv = 4000\<rparr>] = Inr (cs, Some r)"
proof -
  let ?ss = "[\<lparr>dk_keys = 64, dk_chg = 0, dk_mv = 4000\<rparr>, \<lparr>dk_keys = 0, dk_chg = 0, dk_mv = 4000\<rparr>,
      \<lparr>dk_keys = 64, dk_chg = 0, dk_mv = 4000\<rparr>]"
  have "\<exists>i j. j < i \<and> i < length ?ss \<and> dk_keys (?ss ! i) AND KC_BTN_SELECT demo_kc \<noteq> 0 \<and>
       dk_keys (?ss ! j) AND KC_BTN_SELECT demo_kc = 0"
    by (intro exI [of _ 2] exI [of _ 1]) (simp add: demo_kc_def)
  then show ?thesis by (subst debug_screen_exit) simp_all
qed

end
