(* ===== verification/Boot.thy ===== *)
theory Boot
  imports Gui
begin

text \<open>
  \<open>main/main.c\<close>: what the device does when it starts. It may go to the recovery menu, to the charging
  screen, to the key lock, or on to the web server and the application menu. The calls into the
  hardware layer and the SDK are recorded as a list of actions; \<open>kchal_boot_into_new_app\<close> and
  \<open>kchal_power_down\<close> do not return, so they end a run.
\<close>

record ap_config =
  \<comment> \<open>the fields of \<open>wifi_config_t.ap\<close> that are not left zero; the access point is open\<close>
  ac_ssid :: string
  ac_channel :: byte
  ac_max_connection :: int
  ac_beacon_interval :: int

datatype dev_call =
    Screen "gui_call list"
  | SetBrightness int                \<comment> \<open>ssd1331SetBrightness\<close>
  | AppCpuClockGate                  \<comment> \<open>DPORT_SET_PERI_REG_MASK(DPORT_APPCPU_CTRL_B_REG, ..)\<close>
  | CpuFreqMHz nat                   \<comment> \<open>rtc_clk_cpu_freq_set\<close>
  | WriteStore0 u32                  \<comment> \<open>REG_WRITE(RTC_CNTL_STORE0_REG, ..)\<close>
  | CalAdc                           \<comment> \<open>kchal_cal_adc\<close>
  | SetRtcReg u32                    \<comment> \<open>kchal_set_rtc_reg\<close>
  | EraseAppfs int                   \<comment> \<open>esp_partition_erase_range, 0x10000 bytes from here\<close>
  | EraseNvs u32                     \<comment> \<open>esp_partition_erase_range of all the partition\<close>
  | Delay nat
  | GuiDeinit
  | InitHw                           \<comment> \<open>kchal_init_hw\<close>
  | InitSdk                          \<comment> \<open>kchal_init_sdk\<close>
  | AppfsDump
  | NvsFlashInit
  | TcpipAdapterInit
  | EventLoopInit
  | WifiInit
  | WifiSetStorageRam
  | WifiSetModeAp
  | WifiSetConfig ap_config
  | WifiStart
  | EspFsInit
  | HttpdInit int                    \<comment> \<open>httpdInit(builtInUrls, port)\<close>

datatype run_end = IntoNewApp | PoweredDown

section \<open>Charging\<close>

record chg_in =
  \<comment> \<open>what one iteration of the loop reads\<close>
  ci_status :: int
  ci_mv :: int
  ci_keys :: u32
  ci_store0 :: u32

record chg_state =
  fullCtr :: int
  fixFull :: bool

definition charge_display ::
  "kc \<Rightarrow> byte list \<Rightarrow> chg_state \<Rightarrow> chg_in \<Rightarrow> (dev_call list \<times> int) result" where
  "charge_display k gfx st s =
     (if ci_status s = KC_CHG_FULL k \<or> fixFull st then
        bindE (guiFull gfx) (\<lambda>cs. Inr ([Screen cs], fullCtr st + 1))
      else if ci_status s = KC_CHG_CHARGING k then
        bindE (guiCharging gfx (4100 < ci_mv s)) (\<lambda>cs. Inr ([Screen cs], 0))
      else Inr ([], fullCtr st))"

definition charge_iter ::
  "kc \<Rightarrow> byte list \<Rightarrow> chg_state \<Rightarrow> chg_in \<Rightarrow> (dev_call list \<times> chg_state \<times> run_end option) result" where
  "charge_iter k gfx st s =
     bindE (charge_display k gfx st s) (\<lambda>(cs, ctr).
       if ci_keys s AND KC_BTN_POWER k \<noteq> 0 then
         Inr (cs @ [CpuFreqMHz 80, WriteStore0 (ci_store0 s OR 0x100)],
              \<lparr>fullCtr = ctr, fixFull = fixFull st\<rparr>, Some IntoNewApp)
       else
         let cal = (ctr = 32);
             cs' = cs @ (if cal then [CalAdc] else []) @ [Delay 1];
             st' = \<lparr>fullCtr = ctr, fixFull = fixFull st \<or> cal\<rparr>
         in if ci_status s = KC_CHG_NOCHARGER k
            then Inr (cs' @ [CpuFreqMHz 80], st', Some PoweredDown)
            else Inr (cs', st', None))"

fun charge_loop ::
  "kc \<Rightarrow> byte list \<Rightarrow> chg_state \<Rightarrow> chg_in list \<Rightarrow> (dev_call list list \<times> run_end option) result" where
  \<comment> \<open>the actions of each iteration; no end while the samples last\<close>
  "charge_loop k gfx st [] = Inr ([], None)"
| "charge_loop k gfx st (s # ss) =
     bindE (charge_iter k gfx st s) (\<lambda>(cs, st', e).
       case e of
         Some e \<Rightarrow> Inr ([cs], Some e)
       | None \<Rightarrow> bindE (charge_loop k gfx st' ss) (\<lambda>(fs, e'). Inr (cs # fs, e')))"

definition handleCharging ::
  "kc \<Rightarrow> byte list \<Rightarrow> bool \<Rightarrow> chg_in list \<Rightarrow> (dev_call list list \<times> run_end option) result" where
  \<comment> \<open>\<open>arg\<close> is whatever the first call of \<open>guiCharging\<close>, which passes no argument, finds\<close>
  "handleCharging k gfx arg ss =
     bindE (guiCharging gfx arg) (\<lambda>cs.
     bindE (charge_loop k gfx \<lparr>fullCtr = 0, fixFull = False\<rparr> ss) (\<lambda>(fs, e).
       Inr ([SetBrightness 32, Screen guiInit, Screen cs, AppCpuClockGate, CpuFreqMHz 2] # fs, e)))"

section \<open>Recovery\<close>

definition percent_text :: "int \<Rightarrow> u32 \<Rightarrow> string result" where
  \<comment> \<open>\<open>(i*100)/p->size\<close> in unsigned arithmetic, printed as \<open>%d\<close> into ten characters\<close>
  "percent_text i sz = in_buffer 10 (fmt_d (sint (word_of_int (i * 100) div sz)) @ [CHR 0x25])"

function erase_blocks :: "u32 \<Rightarrow> (int \<Rightarrow> esp_err) \<Rightarrow> int \<Rightarrow> esp_err \<Rightarrow> (dev_call list \<times> esp_err) result" where
  \<comment> \<open>\<open>erase_err\<close> is what \<open>esp_partition_erase_range\<close> answers for a block\<close>
  "erase_blocks sz erase_err i r =
     (if i < uint sz then
        bindE (percent_text i sz) (\<lambda>pct.
        bindE (erase_blocks sz erase_err (i + 0x10000)
                 (if erase_err i \<noteq> ESP_OK then erase_err i else r)) (\<lambda>(cs, r').
          Inr ([Screen [Cls, FontSelect, SetForecolor C_YELLOW, PutString 0 0 ''ERASING...'',
                        SetForecolor C_WHITE, PutString 0 24 pct, Flush],
                EraseAppfs i, Delay 1] @ cs, r')))
      else Inr ([], r))"
  by pat_completeness auto
termination
  by (relation "measure (\<lambda>(sz, _, i, _). nat (uint sz - i))") auto

declare erase_blocks.simps [simp del]

definition failed_note :: "esp_err \<Rightarrow> dev_call list" where
  "failed_note r = (if r \<noteq> ESP_OK then [Screen [PutString 0 8 ''FAILED''], Delay 3000] else [])"

definition do_recovery_mode ::
  "int \<Rightarrow> u32 option \<Rightarrow> (int \<Rightarrow> esp_err) \<Rightarrow> u32 option \<Rightarrow> esp_err \<Rightarrow> dev_call list result" where
  \<comment> \<open>the choice in the menu; the size of each partition, \<open>None\<close> when it is not found\<close>
  "do_recovery_mode choice appfs erase_err nvs nvs_err =
     bindE (if choice = 1 \<or> choice = 3 then
              (case appfs of
                 None \<Rightarrow> Inl NullDeref
               | Some sz \<Rightarrow> bindE (erase_blocks sz erase_err 0 ESP_OK) (\<lambda>(cs, r).
                   Inr (cs @ failed_note r)))
            else if choice = 2 \<or> choice = 3 then
              (case nvs of
                 None \<Rightarrow> Inl NullDeref
               | Some sz \<Rightarrow> Inr ([Screen [Cls, FontSelect, SetForecolor C_YELLOW,
                                         PutString 0 0 ''CLEARING...'', Flush], EraseNvs sz] @
                                failed_note nvs_err))
            else Inr []) (\<lambda>cs. Inr ([Screen guiInit] @ cs @ [GuiDeinit]))"

section \<open>Key lock\<close>

definition keylock_reg :: "u32 \<Rightarrow> u32" where
  "keylock_reg v = (v AND 0xffffff) OR 0xa5000000"

fun keylock_loop :: "kc \<Rightarrow> u32 \<Rightarrow> nat \<Rightarrow> u32 \<Rightarrow> (nat \<Rightarrow> u32) \<Rightarrow> dev_call list \<times> run_end" where
  \<comment> \<open>\<open>btn\<close> gives the samples of the keys, the next one first\<close>
  "keylock_loop k rtc 0 oldbtn btn = ([], PoweredDown)"
| "keylock_loop k rtc (Suc n) oldbtn btn =
     (if btn 0 AND KC_BTN_POWER k = 0 \<and> oldbtn AND KC_BTN_A k = 0 \<and> btn 0 AND KC_BTN_A k \<noteq> 0
      then ([SetRtcReg (keylock_reg rtc)], IntoNewApp)
      else let (cs, e) = keylock_loop k rtc n (btn 0) (\<lambda>i. btn (Suc i)) in (Delay 100 # cs, e))"

definition handleKeyLock :: "kc \<Rightarrow> u32 \<Rightarrow> (nat \<Rightarrow> u32) \<Rightarrow> dev_call list \<times> run_end" where
  "handleKeyLock k rtc btn =
     (let (cs, e) = keylock_loop k rtc 15 (btn 0) (\<lambda>i. btn (Suc i))
      in (Screen (guiInit @ [Cls, FontSelect, SetForecolor C_YELLOW, PutString 0 0 '' KEY LOCK '',
                             SetForecolor C_WHITE, PutString 0 24 ''  Press A   '', Flush]) # cs, e))"

section \<open>Left-over temporary files\<close>

text \<open>\<open>fnmatch\<close> without flags, for patterns whose only special character is the star.\<close>

fun fnmatch :: "string \<Rightarrow> string \<Rightarrow> bool" where
  "fnmatch [] s = (s = [])"
| "fnmatch (p # ps) s =
     (if p = CHR ''*'' then list_ex (\<lambda>n. fnmatch ps (drop n s)) [0..<Suc (length s)]
      else case s of [] \<Rightarrow> False | c # cs \<Rightarrow> c = p \<and> fnmatch ps cs)"

partial_function (option) delete_temp_files :: "'fs ext \<Rightarrow> appfs_fd \<Rightarrow> 'fs \<Rightarrow> 'fs option" where
  \<comment> \<open>\<open>None\<close> when the walk does not end\<close>
  "delete_temp_files x h f =
     (let h' = appfsNextEntry x f h in
      if h' = APPFS_INVALID_FD then Some f
      else let name = fst (appfsEntryInfo x f h')
           in delete_temp_files x h'
                (if fnmatch ''__*.tmp'' name then snd (appfsDeleteFile x name f) else f))"

section \<open>The web server's URLs\<close>

datatype url_cgi =
    cgiRedirectApClientToHostname | cgiRedirect | cgiRebootFirmware | CgiUploadFile | CgiDownloadFile
  | CgiFileIdx | CgiDelete | CgiDownloadLog | CgiDownloadFlash | cgiEspFsHook

definition builtInUrls :: "(string \<times> url_cgi \<times> string option) list" where
  \<comment> \<open>URL, handler and argument, tried from the top\<close>
  "builtInUrls =
     [(''*'', cgiRedirectApClientToHostname, Some ''esp8266.nonet''),
      (''/'', cgiRedirect, Some ''/index.html''),
      (''/reboot.cgi'', cgiRebootFirmware, None),
      (''/upload.cgi'', CgiUploadFile, None),
      (''/download.cgi'', CgiDownloadFile, None),
      (''/fileidx.cgi'', CgiFileIdx, None),
      (''/delete.cgi'', CgiDelete, None),
      (''/getlog.cgi'', CgiDownloadLog, None),
      (''/getflash.cgi'', CgiDownloadFlash, None),
      (''*'', cgiEspFsHook, None)]"

section \<open>The start of the program\<close>

record boot_in =
  bi_keys :: u32
  bi_choice :: int
  bi_appfs :: "u32 option"
  bi_erase_err :: "int \<Rightarrow> esp_err"
  bi_nvs :: "u32 option"
  bi_nvs_err :: esp_err
  bi_rtc :: u32
  bi_status :: int
  bi_arg :: bool
  bi_charge :: "chg_in list"
  bi_btn :: "nat \<Rightarrow> u32"

record start_in =
  \<comment> \<open>what the calls under \<open>ESP_ERROR_CHECK\<close> answer, and the user's keys\<close>
  si_event_loop :: esp_err
  si_wifi_init :: esp_err
  si_wifi_storage :: esp_err
  si_wifi_mode :: esp_err
  si_wifi_config :: "ap_config \<Rightarrow> esp_err"
  si_wifi_start :: esp_err
  si_keys :: "u32 list"
  si_chooser :: "u32 list \<Rightarrow> appfs_fd \<times> u32 list"

datatype boot_end =
    Running                    \<comment> \<open>still in \<open>handleCharging\<close> when its samples end\<close>
  | Ended run_end
  | Aborted                    \<comment> \<open>a failed \<open>ESP_ERROR_CHECK\<close>\<close>
  | InMenu "boot_call list option"   \<comment> \<open>the server runs; what \<open>guiMenu\<close> came to\<close>

definition boot_recovery :: "kc \<Rightarrow> boot_in \<Rightarrow> dev_call list result" where
  "boot_recovery k b =
     (if bi_keys b = KC_BTN_START k OR KC_BTN_SELECT k
      then do_recovery_mode (bi_choice b) (bi_appfs b) (bi_erase_err b) (bi_nvs b) (bi_nvs_err b)
      else Inr [])"

definition ap_channel :: "'h hal \<Rightarrow> 'h \<Rightarrow> byte" where
  "ap_channel x h =
     (if nvs_open_ok x h then case nvs_get_u8 x h ''channel'' of None \<Rightarrow> 5 | Some c \<Rightarrow> c else 5)"

definition ap_settings :: "'h hal \<Rightarrow> 'h \<Rightarrow> ap_config" where
  "ap_settings x h =
     \<lparr>ac_ssid = ''pkspr'', ac_channel = ap_channel x h, ac_max_connection = 2, ac_beacon_interval = 200\<rparr>"

fun checked :: "(dev_call \<times> esp_err) list \<Rightarrow> dev_call list \<times> bool" where
  \<comment> \<open>\<open>ESP_ERROR_CHECK\<close> around each call: the calls made, and whether all succeeded\<close>
  "checked [] = ([], True)"
| "checked ((c, e) # cs) =
     (if e \<noteq> ESP_OK then ([c], False) else let (ds, ok) = checked cs in (c # ds, ok))"

definition start_wifi :: "'h hal \<Rightarrow> 'h \<Rightarrow> start_in \<Rightarrow> dev_call list \<times> bool" where
  "start_wifi x h si =
     checked [(EventLoopInit, si_event_loop si), (WifiInit, si_wifi_init si),
       (WifiSetStorageRam, si_wifi_storage si), (WifiSetModeAp, si_wifi_mode si),
       (WifiSetConfig (ap_settings x h), si_wifi_config si (ap_settings x h)),
       (WifiStart, si_wifi_start si)]"

definition start_server :: "'h hal \<Rightarrow> 'h \<Rightarrow> start_in \<Rightarrow> dev_call list \<times> boot_end" where
  \<comment> \<open>from \<open>appfsDump\<close> on, without the removal of the temporary files\<close>
  "start_server x h si =
     (let (ws, ok) = start_wifi x h si; cs = [NvsFlashInit, TcpipAdapterInit] @ ws
      in if ok then (cs @ [EspFsInit, HttpdInit 80, Screen guiInit, Screen (guiSplash x h)],
                     InMenu (guiMenu (si_keys si) (si_chooser si)))
         else (cs, Aborted))"

definition app_main ::
  "kc \<Rightarrow> byte list \<Rightarrow> 'fs ext \<Rightarrow> 'h hal \<Rightarrow> boot_in \<Rightarrow> start_in \<Rightarrow> 'h \<Rightarrow> 'fs \<Rightarrow>
    (dev_call list \<times> boot_end \<times> 'fs) result" where
  "app_main k gfx ext x b si h f =
     bindE (boot_recovery k b) (\<lambda>rs.
       let cs = InitHw # rs @ [InitSdk] in
       if bi_status b \<noteq> KC_CHG_NOCHARGER k \<and> bi_rtc b AND 0x100 = 0 then
         bindE (handleCharging k gfx (bi_arg b) (bi_charge b)) (\<lambda>(fs, e).
           Inr (cs @ concat fs, case e of None \<Rightarrow> Running | Some e \<Rightarrow> Ended e, f))
       else if bi_rtc b AND 0xff000000 = 0xA6000000 then
         (let (ks, e) = handleKeyLock k (bi_rtc b) (bi_btn b) in Inr (cs @ ks, Ended e, f))
       else
         case delete_temp_files ext APPFS_INVALID_FD f of
           None \<Rightarrow> Inl Hang
         | Some f' \<Rightarrow> (let (ss, e) = start_server x h si in Inr (cs @ [AppfsDump] @ ss, e, f')))"

end
