(* ===== verification/Boot_Props.thy ===== *)
theory Boot_Props
  imports Boot Gui_Props
begin

text \<open>
  Properties of \<open>main/main.c\<close>: the charging screen and its latch, the way out of it, what each entry
  of the recovery menu erases, the key lock, and the removal of left-over temporary files.
\<close>

section \<open>Charging\<close>

definition gfx_ok :: "byte list \<Rightarrow> bool" where
  \<comment> \<open>the picture data holds its four icons\<close>
  "gfx_ok gfx \<longleftrightarrow> 7216 \<le> length gfx"

lemma icon_screen_ok:
  assumes "gfx_ok gfx" "ico < 4"
  shows "\<exists>cs. gui_icon_screen gfx ico = Inr cs"
proof -
  have "(ico + 1) * (11 * 41 * 4) \<le> 4 * (11 * 41 * 4)" by (rule mult_le_mono1) (use assms(2) in simp)
  then have le: "ico * 11 * 41 * 4 + 164 * 11 \<le> length gfx" using assms(1) by (simp add: gfx_ok_def)
  obtain cs where "draw_rows gfx 20 26 11 (ico * 11 * 41 * 4) = Inr cs"
    using draw_rows_eq [OF le order_refl] by blast
  then show ?thesis by (simp add: gui_icon_screen_def drawIcon_def GFX_IH_def GFX_W_def)
qed

lemma gui_screens_ok:
  assumes "gfx_ok gfx"
  shows "\<exists>cs. guiFull gfx = Inr cs" "\<exists>cs. guiCharging gfx b = Inr cs"
  using icon_screen_ok [OF assms]
  by (auto simp: guiFull_def guiCharging_def GFX_O_FULL_def GFX_O_CHG_def GFX_O_CHGNEARFULL_def)

definition full_streak :: "kc \<Rightarrow> chg_in list \<Rightarrow> nat" where
  \<comment> \<open>how often the charger has said full since it last said charging\<close>
  "full_streak k ss =
     length (filter (\<lambda>s. ci_status s = KC_CHG_FULL k)
               (takeWhile (\<lambda>s. ci_status s \<noteq> KC_CHG_CHARGING k) (rev ss)))"

definition chg_consts :: "kc \<Rightarrow> bool" where
  "chg_consts k \<longleftrightarrow> distinct [KC_CHG_FULL k, KC_CHG_CHARGING k, KC_CHG_NOCHARGER k]"

lemma full_streak_snoc:
  "chg_consts k \<Longrightarrow> full_streak k (ss @ [s]) =
    (if ci_status s = KC_CHG_FULL k then Suc (full_streak k ss)
     else if ci_status s = KC_CHG_CHARGING k then 0 else full_streak k ss)"
  by (simp add: full_streak_def chg_consts_def)

definition reached_32 :: "kc \<Rightarrow> chg_in list \<Rightarrow> bool" where
  "reached_32 k ss \<longleftrightarrow> (\<exists>n \<le> length ss. full_streak k (take n ss) = 32)"

definition chg_inv :: "kc \<Rightarrow> chg_in list \<Rightarrow> chg_state \<Rightarrow> bool" where
  \<comment> \<open>the state of the loop after the samples \<open>ss\<close>\<close>
  "chg_inv k ss st \<longleftrightarrow> fixFull st = reached_32 k ss \<and>
     (if fixFull st then 32 \<le> fullCtr st else fullCtr st = int (full_streak k ss) \<and> fullCtr st < 32)"

lemma reached_32_snoc:
  "reached_32 k (ss @ [s]) \<longleftrightarrow> reached_32 k ss \<or> full_streak k (ss @ [s]) = 32"
proof
  assume "reached_32 k (ss @ [s])"
  then obtain n where n: "n \<le> Suc (length ss)" "full_streak k (take n (ss @ [s])) = 32"
    by (auto simp: reached_32_def)
  show "reached_32 k ss \<or> full_streak k (ss @ [s]) = 32"
  proof (cases "n \<le> length ss")
    case True
    with n(2) have "full_streak k (take n ss) = 32" by simp
    with True show ?thesis by (auto simp: reached_32_def)
  next
    case False
    with n show ?thesis by simp
  qed
next
  assume "reached_32 k ss \<or> full_streak k (ss @ [s]) = 32"
  then show "reached_32 k (ss @ [s])"
  proof
    assume "reached_32 k ss"
    then obtain n where "n \<le> length ss" "full_streak k (take n ss) = 32" by (auto simp: reached_32_def)
    then show ?thesis unfolding reached_32_def by (intro exI [of _ n]) simp
  next
    assume "full_streak k (ss @ [s]) = 32"
    then show ?thesis unfolding reached_32_def by (intro exI [of _ "Suc (length ss)"]) simp
  qed
qed

definition frame_ok :: "kc \<Rightarrow> byte list \<Rightarrow> chg_in list \<Rightarrow> chg_in \<Rightarrow> dev_call list \<Rightarrow> bool" where
  \<comment> \<open>what one iteration does, given the samples before it: once the battery has been full for 32
     iterations the full icon is shown whatever the charger says; the converter is calibrated at the
     iteration at which that happens, if the user does not leave there\<close>
  "frame_ok k gfx ss s cs \<longleftrightarrow>
     (reached_32 k ss \<longrightarrow> (\<exists>sc. guiFull gfx = Inr sc \<and> Screen sc \<in> set cs) \<and>
        (\<forall>sc b. guiCharging gfx b = Inr sc \<longrightarrow> Screen sc \<in> set cs \<longrightarrow> guiFull gfx = Inr sc)) \<and>
     (CalAdc \<in> set cs \<longleftrightarrow>
        \<not> reached_32 k ss \<and> reached_32 k (ss @ [s]) \<and> ci_keys s AND KC_BTN_POWER k = 0)"

lemma charge_iter_frame:
  assumes "gfx_ok gfx" "chg_consts k" "chg_inv k ss st"
  shows "\<exists>cs st' e. charge_iter k gfx st s = Inr (cs, st', e) \<and> frame_ok k gfx ss s cs \<and>
    (e = None \<longrightarrow> chg_inv k (ss @ [s]) st')"
proof -
  obtain fu ch where sc: "guiFull gfx = Inr fu" "guiCharging gfx (4100 < ci_mv s) = Inr ch"
    using gui_screens_ok [OF assms(1)] by blast
  let ?full = "ci_status s = KC_CHG_FULL k" and ?chg = "ci_status s = KC_CHG_CHARGING k"
  show ?thesis
  proof (cases "fixFull st")
    case True
    then have r: "reached_32 k ss" "reached_32 k (ss @ [s])" "32 \<le> fullCtr st"
      using assms(3) by (auto simp: chg_inv_def reached_32_snoc)
    show ?thesis
      using True sc(1) r
      by (cases "ci_keys s AND KC_BTN_POWER k = 0")
        (auto simp: charge_iter_def charge_display_def frame_ok_def chg_inv_def Let_def)
  next
    case False
    then have r: "\<not> reached_32 k ss" "fullCtr st = int (full_streak k ss)" "fullCtr st < 32"
      using assms(3) by (auto simp: chg_inv_def)
    have st: "full_streak k (ss @ [s]) =
        (if ?full then Suc (full_streak k ss) else if ?chg then 0 else full_streak k ss)"
      by (rule full_streak_snoc [OF assms(2)])
    have r': "reached_32 k (ss @ [s]) \<longleftrightarrow> full_streak k (ss @ [s]) = 32" using r(1) by (simp add: reached_32_snoc)
    show ?thesis
      using False sc r
      by (cases "?full"; cases "?chg"; cases "ci_keys s AND KC_BTN_POWER k = 0")
        (auto simp: charge_iter_def charge_display_def frame_ok_def chg_inv_def Let_def r' st)
  qed
qed

lemma charge_loop_frames:
  assumes "gfx_ok gfx" "chg_consts k" "chg_inv k ss st"
  shows "\<exists>fs e. charge_loop k gfx st ts = Inr (fs, e) \<and> length fs \<le> length ts \<and>
    (\<forall>n < length fs. frame_ok k gfx (ss @ take n ts) (ts ! n) (fs ! n))"
  using assms(3)
proof (induction ts arbitrary: ss st)
  case Nil
  then show ?case by simp
next
  case (Cons t ts)
  obtain cs st' e where it: "charge_iter k gfx st t = Inr (cs, st', e)" "frame_ok k gfx ss t cs"
    "e = None \<Longrightarrow> chg_inv k (ss @ [t]) st'"
    using charge_iter_frame [OF assms(1,2) Cons.prems, of t] by blast
  show ?case
  proof (cases e)
    case (Some r)
    with it show ?thesis by simp
  next
    case None
    from Cons.IH [OF it(3) [OF None]] obtain fs e' where
      l: "charge_loop k gfx st' ts = Inr (fs, e')" "length fs \<le> length ts"
      "\<forall>n < length fs. frame_ok k gfx ((ss @ [t]) @ take n ts) (ts ! n) (fs ! n)" by blast
    have "\<forall>n < length (cs # fs). frame_ok k gfx (ss @ take n (t # ts)) ((t # ts) ! n) ((cs # fs) ! n)"
    proof (intro allI impI)
      fix n assume "n < length (cs # fs)"
      then show "frame_ok k gfx (ss @ take n (t # ts)) ((t # ts) ! n) ((cs # fs) ! n)"
        using l(3) it(2) by (cases n) auto
    qed
    with it(1) None l(1,2) show ?thesis by simp
  qed
qed

text \<open>
  C26. The charging screen latches. In every run of \<open>handleCharging\<close>, for every sequence of charger
  readings and key presses, no iteration faults; once the charger has said full 32 times since it
  last said charging, every later iteration shows the full icon whatever the charger says; and the
  converter is calibrated in the one iteration in which that number is reached, unless the user
  presses the power button in it.
\<close>

theorem charging_full_latches:
  assumes "gfx_ok gfx" "chg_consts k"
  shows "\<exists>hd fs e. handleCharging k gfx arg ss = Inr (hd # fs, e) \<and> CalAdc \<notin> set hd \<and>
    length fs \<le> length ss \<and>
    (\<forall>n < length fs. frame_ok k gfx (take n ss) (ss ! n) (fs ! n))"
proof -
  have "chg_inv k [] \<lparr>fullCtr = 0, fixFull = False\<rparr>"
    by (simp add: chg_inv_def reached_32_def full_streak_def)
  from charge_loop_frames [OF assms this, of ss] obtain fs e where
    "charge_loop k gfx \<lparr>fullCtr = 0, fixFull = False\<rparr> ss = Inr (fs, e)" "length fs \<le> length ss"
    "\<forall>n < length fs. frame_ok k gfx (take n ss) (ss ! n) (fs ! n)" by auto
  moreover obtain cs where "guiCharging gfx arg = Inr cs" using gui_screens_ok [OF assms(1)] by blast
  ultimately show ?thesis by (simp add: handleCharging_def)
qed

definition demo_charging :: "int \<Rightarrow> chg_in" where
  "demo_charging n = \<lparr>ci_status = n, ci_mv = 4000, ci_keys = 0, ci_store0 = 0\<rparr>"

theorem charging_full_latches_witness:
  "\<exists>hd fs e. handleCharging demo_kc (replicate 7216 0) False (replicate 32 (demo_charging 2) @
      [demo_charging 1]) = Inr (hd # fs, e) \<and>
    (\<forall>n < length fs. frame_ok demo_kc (replicate 7216 0)
      (take n (replicate 32 (demo_charging 2) @ [demo_charging 1]))
      ((replicate 32 (demo_charging 2) @ [demo_charging 1]) ! n) (fs ! n))"
  using charging_full_latches [of "replicate 7216 0" demo_kc False
      "replicate 32 (demo_charging 2) @ [demo_charging 1]"]
  by (auto simp: gfx_ok_def chg_consts_def demo_kc_def)

lemma or_bit_8: "(v OR 0x100) AND 0x100 = (0x100 :: u32)"
  by (simp add: word_ao_dist2 word_bw_comms word_ao_absorbs)

text \<open>
  The power button leaves the charging screen for good. The iteration that sees it writes the
  boot register with its other bits kept and the override bit set, and a start with that value in the
  register skips the charging screen: it goes to the key lock if the register asks for it, and
  otherwise to the server and the menu.
\<close>

lemma power_button_overrides_charging:
  assumes "gfx_ok gfx" "ci_keys s AND KC_BTN_POWER k \<noteq> 0"
  shows "\<exists>cs st'. charge_iter k gfx st s = Inr (cs, st', Some IntoNewApp) \<and>
    (\<exists>v. last cs = WriteStore0 v \<and> v = ci_store0 s OR 0x100 \<and>
      (bi_rtc b = v \<and> bi_keys b \<noteq> KC_BTN_START k OR KC_BTN_SELECT k \<longrightarrow>
        app_main k gfx ext x b si h f =
          (if v AND 0xff000000 = 0xA6000000
           then (let (ks, e) = handleKeyLock k v (bi_btn b) in Inr ([InitHw, InitSdk] @ ks, Ended e, f))
           else case delete_temp_files ext APPFS_INVALID_FD f of
             None \<Rightarrow> Inl Hang
           | Some f' \<Rightarrow> (let (ss, e) = start_server x h si in Inr ([InitHw, InitSdk, AppfsDump] @ ss, e, f')))))"
proof -
  obtain fu ch where sc: "guiFull gfx = Inr fu" "guiCharging gfx (4100 < ci_mv s) = Inr ch"
    using gui_screens_ok [OF assms(1)] by blast
  obtain cs ctr where d: "charge_display k gfx st s = Inr (cs, ctr)"
    by (cases "ci_status s = KC_CHG_FULL k \<or> fixFull st"; cases "ci_status s = KC_CHG_CHARGING k")
      (auto simp: charge_display_def sc)
  show ?thesis
    using assms(2)
    by (auto simp: charge_iter_def d app_main_def boot_recovery_def or_bit_8 split: prod.split option.split)
qed

section \<open>Recovery\<close>

fun erased :: "dev_call list \<Rightarrow> int list" where
  "erased [] = []"
| "erased (EraseAppfs i # cs) = i # erased cs"
| "erased (_ # cs) = erased cs"

lemma erased_append [simp]: "erased (xs @ ys) = erased xs @ erased ys"
  by (induction xs rule: erased.induct) simp_all

lemma percent_ok:
  assumes "0 \<le> i" "i < uint sz" "sz \<le> 0x1000000"
  shows "\<exists>s. percent_text i sz = Inr s"
proof -
  have sz: "uint sz \<le> 0x1000000" using assms(3) by (simp add: word_le_def)
  have m: "i * 100 < 2 ^ 31" using assms sz by simp
  have u: "uint (word_of_int (i * 100) :: u32) = i * 100"
    using assms(1) m by (simp only: uint_word_of_int_eq) (simp add: take_bit_int_eq_self)
  have "uint sz * (i * 100 div uint sz) \<le> i * 100"
    using mult_div_mod_eq [of "uint sz" "i * 100"] pos_mod_sign [of "uint sz" "i * 100"] assms(1,2)
    by linarith
  then have "uint sz * (i * 100 div uint sz) < uint sz * 100" using assms(2) by linarith
  then have "i * 100 div uint sz < 100" using assms(1,2) by (simp add: mult_less_cancel_left_pos)
  moreover have "0 \<le> i * 100 div uint sz" using assms by (simp add: pos_imp_zdiv_nonneg_iff)
  moreover have q: "uint (word_of_int (i * 100) div sz) = i * 100 div uint sz"
    by (simp only: uint_div u)
  ultimately have "sint (word_of_int (i * 100) div sz) = i * 100 div uint sz"
    by (simp add: sint_uint signed_take_bit_int_eq_self)
  then show ?thesis
    using fmt_d_small [of "i * 100 div uint sz"] \<open>i * 100 div uint sz < 100\<close> \<open>0 \<le> i * 100 div uint sz\<close>
    by (simp add: percent_text_def in_buffer_def)
qed

lemma erase_blocks_ok:
  assumes "0 \<le> i" "sz \<le> 0x1000000"
  shows "\<exists>cs r'. erase_blocks sz err i r = Inr (cs, r') \<and>
    erased cs = map (\<lambda>j. i + 0x10000 * int j) [0..<nat ((uint sz - i + 0xffff) div 0x10000)] \<and>
    (\<forall>n. EraseNvs n \<notin> set cs)"
  using assms
proof (induction sz err i r rule: erase_blocks.induct)
  case (1 sz err i r)
  show ?case
  proof (cases "i < uint sz")
    case True
    then obtain p where p: "percent_text i sz = Inr p" using percent_ok 1 by blast
    from "1.IH" [OF True] obtain cs r' where
      e: "erase_blocks sz err (i + 0x10000) (if err i \<noteq> ESP_OK then err i else r) = Inr (cs, r')"
      "erased cs = map (\<lambda>j. i + 0x10000 + 0x10000 * int j)
        [0..<nat ((uint sz - (i + 0x10000) + 0xffff) div 0x10000)]"
      "\<forall>n. EraseNvs n \<notin> set cs"
      using "1.prems" by auto
    have n: "nat ((uint sz - i + 0xffff) div 0x10000) =
        Suc (nat ((uint sz - (i + 0x10000) + 0xffff) div 0x10000))"
      using True by simp
    have "map (\<lambda>j. i + 0x10000 * int j) [0..<nat ((uint sz - i + 0xffff) div 0x10000)] = i # erased cs"
      unfolding n e(2)
      by (simp add: upt_conv_Cons map_Suc_upt [symmetric] comp_def algebra_simps del: upt_Suc)
    with True p e show ?thesis by (simp add: erase_blocks.simps [of sz err i r])
  next
    case False
    then have "nat ((uint sz - i + 0xffff) div 0x10000) = 0" by simp
    with False show ?thesis by (simp add: erase_blocks.simps [of sz err i r])
  qed
qed

text \<open>
  What the recovery menu erases, for partitions of at most 16 MiB. "Erase Flash" erases every 64
  KiB block of the application partition once, in order, whatever each erase answers, and not the
  storage; "Reset NVS" erases all of the storage and nothing else; and "Factory Rst" does exactly
  what "Erase Flash" does, so it leaves the storage as it is.
\<close>

theorem recovery_erases:
  assumes "sz \<le> 0x1000000"
  shows "\<exists>cs cs'. do_recovery_mode 1 (Some sz) err (Some nsz) nerr = Inr cs \<and>
    erased cs = map (\<lambda>j. 0x10000 * int j) [0..<nat ((uint sz + 0xffff) div 0x10000)] \<and>
    (\<forall>n. EraseNvs n \<notin> set cs) \<and>
    do_recovery_mode 2 (Some sz) err (Some nsz) nerr = Inr cs' \<and> erased cs' = [] \<and>
    EraseNvs nsz \<in> set cs' \<and>
    do_recovery_mode 3 (Some sz) err (Some nsz) nerr = Inr cs"
proof -
  obtain cs r where "erase_blocks sz err 0 ESP_OK = Inr (cs, r)"
    "erased cs = map (\<lambda>j. 0x10000 * int j) [0..<nat ((uint sz + 0xffff) div 0x10000)]"
    "\<forall>n. EraseNvs n \<notin> set cs"
    using erase_blocks_ok [OF order_refl assms, of err ESP_OK] by auto
  then show ?thesis by (simp add: do_recovery_mode_def failed_note_def)
qed

theorem recovery_erases_witness:
  "\<exists>cs. do_recovery_mode 3 (Some 0x20000) (\<lambda>_. 0) (Some 0x6000) 0 = Inr cs \<and>
    erased cs = [0, 0x10000] \<and> (\<forall>n. EraseNvs n \<notin> set cs)"
proof -
  have u: "[0..<2] = [0, 1 :: nat]" by (simp add: numeral_eq_Suc)
  have "(0x20000 :: u32) \<le> 0x1000000" by simp
  from recovery_erases [OF this, of "\<lambda>_. 0" "0x6000" 0] obtain cs where
    "do_recovery_mode 3 (Some 0x20000) (\<lambda>_. 0) (Some 0x6000) 0 = Inr cs"
    "erased cs = map (\<lambda>j. 0x10000 * int j) [0..<2]" "\<forall>n. EraseNvs n \<notin> set cs"
    by auto
  then show ?thesis by (simp add: u)
qed

section \<open>Key lock\<close>

definition a_pressed :: "kc \<Rightarrow> (nat \<Rightarrow> u32) \<Rightarrow> nat \<Rightarrow> bool" where
  \<comment> \<open>the A button goes down between two samples and the power button is up\<close>
  "a_pressed k btn n \<longleftrightarrow> btn (Suc n) AND KC_BTN_POWER k = 0 \<and>
     btn n AND KC_BTN_A k = 0 \<and> btn (Suc n) AND KC_BTN_A k \<noteq> 0"

lemma keylock_loop_end:
  "snd (keylock_loop k rtc n (btn 0) (\<lambda>i. btn (Suc i))) =
    (if \<exists>i < n. a_pressed k btn i then IntoNewApp else PoweredDown) \<and>
   (\<exists>m. fst (keylock_loop k rtc n (btn 0) (\<lambda>i. btn (Suc i))) = replicate m (Delay 100) @
    (if \<exists>i < n. a_pressed k btn i then [SetRtcReg (keylock_reg rtc)] else []))"
proof (induction n arbitrary: btn)
  case 0
  then show ?case by simp
next
  case (Suc n)
  have ex: "(\<exists>i < Suc n. a_pressed k btn i) \<longleftrightarrow> a_pressed k btn 0 \<or> (\<exists>i < n. a_pressed k (\<lambda>i. btn (Suc i)) i)"
    unfolding ex_less_Suc_split by (simp add: a_pressed_def)
  show ?case
  proof (cases "a_pressed k btn 0")
    case True
    then show ?thesis unfolding ex by (auto simp: a_pressed_def intro: exI [of _ 0])
  next
    case False
    have ne: "\<not> (btn (Suc 0) AND KC_BTN_POWER k = 0 \<and> btn 0 AND KC_BTN_A k = 0 \<and>
        btn (Suc 0) AND KC_BTN_A k \<noteq> 0)" using False by (simp add: a_pressed_def)
    obtain cs e where l: "keylock_loop k rtc n (btn (Suc 0)) (\<lambda>i. btn (Suc (Suc i))) = (cs, e)" by fastforce
    from Suc.IH [of "\<lambda>i. btn (Suc i)"] obtain m where
      "e = (if \<exists>i < n. a_pressed k (\<lambda>i. btn (Suc i)) i then IntoNewApp else PoweredDown)"
      "cs = replicate m (Delay 100) @
        (if \<exists>i < n. a_pressed k (\<lambda>i. btn (Suc i)) i then [SetRtcReg (keylock_reg rtc)] else [])"
      by (auto simp: l)
    then show ?thesis unfolding ex using False
      by (simp add: l if_not_P [OF ne]) (metis append_Cons replicate_Suc)
  qed
qed

text \<open>
  The key lock opens exactly when the A button is pressed, with the power button up, between two
  of the sixteen samples; then the boot register gets the code for the locked application in its top
  byte, its other bits unchanged, and otherwise the register is not written and the device powers
  down.
\<close>

theorem key_lock_opens_iff:
  "(snd (handleKeyLock k rtc btn) = IntoNewApp \<longleftrightarrow> (\<exists>i < 15. a_pressed k btn i)) \<and>
   (snd (handleKeyLock k rtc btn) = PoweredDown \<longleftrightarrow> \<not> (\<exists>i < 15. a_pressed k btn i)) \<and>
   (\<forall>v. SetRtcReg v \<in> set (fst (handleKeyLock k rtc btn)) \<longleftrightarrow>
      (\<exists>i < 15. a_pressed k btn i) \<and> v AND 0xffffff = rtc AND 0xffffff \<and> v AND 0xff000000 = 0xa5000000)"
proof -
  have "(0xffffffff :: u32) = - 1" by simp
  then have all_ones: "v AND 0xffffffff = v" for v :: u32 by (simp only: and.right_neutral)
  have reg: "v = keylock_reg rtc \<longleftrightarrow> v AND 0xffffff = rtc AND 0xffffff \<and> v AND 0xff000000 = 0xa5000000"
    for v
  proof
    show "v AND 0xffffff = rtc AND 0xffffff \<and> v AND 0xff000000 = 0xa5000000" if "v = keylock_reg rtc"
      unfolding that keylock_reg_def
      by (simp add: word_ao_dist word_bw_assocs)
    assume v: "v AND 0xffffff = rtc AND 0xffffff \<and> v AND 0xff000000 = 0xa5000000"
    have "v = (v AND 0xffffff) OR (v AND 0xff000000)"
      using word_ao_dist2 [of v "0xffffff" "0xff000000"] all_ones by simp
    then show "v = keylock_reg rtc" using v by (simp add: keylock_reg_def)
  qed
  obtain m where l: "snd (keylock_loop k rtc 15 (btn 0) (\<lambda>i. btn (Suc i))) =
      (if \<exists>i < 15. a_pressed k btn i then IntoNewApp else PoweredDown)"
    "fst (keylock_loop k rtc 15 (btn 0) (\<lambda>i. btn (Suc i))) = replicate m (Delay 100) @
      (if \<exists>i < 15. a_pressed k btn i then [SetRtcReg (keylock_reg rtc)] else [])"
    using keylock_loop_end [of k rtc 15 btn] by blast
  then show ?thesis
    unfolding handleKeyLock_def reg [symmetric]
    by (auto simp: case_prod_unfold Let_def guiInit_def)
qed

section \<open>Left-over temporary files\<close>

lemma fnmatch_literal: "CHR ''*'' \<notin> set p \<Longrightarrow> fnmatch p s \<longleftrightarrow> s = p"
  by (induction p arbitrary: s) (auto split: list.splits)

lemma fnmatch_star_literal:
  assumes "CHR ''*'' \<notin> set p"
  shows "fnmatch (CHR ''*'' # p) s \<longleftrightarrow> (\<exists>m. s = m @ p)"
proof -
  have "fnmatch (CHR ''*'' # p) s \<longleftrightarrow> (\<exists>n \<le> length s. drop n s = p)"
    by (auto simp: list_ex_iff fnmatch_literal [OF assms] less_Suc_eq_le simp del: upt_Suc)
  also have "\<dots> \<longleftrightarrow> (\<exists>m. s = m @ p)"
    by (metis append_eq_conv_conj append_take_drop_id le_add1 length_append)
  finally show ?thesis .
qed

definition is_temp :: "string \<Rightarrow> bool" where
  "is_temp name \<longleftrightarrow> (\<exists>m. name = ''__'' @ m @ ''.tmp'')"

lemma fnmatch_temp: "fnmatch ''__*.tmp'' name \<longleftrightarrow> is_temp name"
proof -
  have "fnmatch ''__*.tmp'' name \<longleftrightarrow> (\<exists>r. name = CHR ''_'' # CHR ''_'' # r \<and> fnmatch (CHR ''*'' # ''.tmp'') r)"
    by (auto split: list.splits simp del: fnmatch.simps(2)
        simp: fnmatch.simps(2) [of "CHR ''_''"])
  also have "\<dots> \<longleftrightarrow> is_temp name"
    by (subst fnmatch_star_literal) (auto simp: is_temp_def)
  finally show ?thesis .
qed

definition walk_laws :: "'fs ext \<Rightarrow> ('fs \<Rightarrow> appfs_fd \<Rightarrow> string option) \<Rightarrow> bool" where
  \<comment> \<open>the documented behaviour of the directory walk and of deletion, for a view of the directory as
     a map from descriptors to names\<close>
  "walk_laws x dir \<longleftrightarrow>
     (\<forall>f. finite (dom (dir f)) \<and> (\<forall>g \<in> dom (dir f). 0 \<le> g)) \<and>
     (\<forall>f h. (if \<exists>g \<in> dom (dir f). h < g
            then appfsNextEntry x f h \<in> dom (dir f) \<and> h < appfsNextEntry x f h \<and>
                 (\<forall>g \<in> dom (dir f). h < g \<longrightarrow> appfsNextEntry x f h \<le> g)
            else appfsNextEntry x f h = APPFS_INVALID_FD)) \<and>
     (\<forall>f h nm. dir f h = Some nm \<longrightarrow> fst (appfsEntryInfo x f h) = nm) \<and>
     (\<forall>f nm. dir (snd (appfsDeleteFile x nm f)) = (\<lambda>h. if dir f h = Some nm then None else dir f h))"

definition without_temp :: "appfs_fd \<Rightarrow> (appfs_fd \<Rightarrow> string option) \<Rightarrow> appfs_fd \<Rightarrow> string option" where
  \<comment> \<open>the directory without the temporary files from a descriptor on\<close>
  "without_temp h d = (\<lambda>g. case d g of None \<Rightarrow> None
     | Some nm \<Rightarrow> if is_temp nm \<and> h < g then None else Some nm)"

definition left_after :: "appfs_fd \<Rightarrow> (appfs_fd \<Rightarrow> string option) \<Rightarrow> nat" where
  "left_after h d = card {g \<in> dom d. h < g}"

lemma delete_temp_files_step:
  assumes laws: "walk_laws x dir" and inj: "inj_on (dir f) (dom (dir f))" and h: "- 1 \<le> h"
  shows "\<exists>f'. delete_temp_files x h f = Some f' \<and> dir f' = without_temp h (dir f)"
  using inj h
proof (induction "left_after h (dir f)" arbitrary: h f rule: less_induct)
  case less
  let ?D = "dom (dir f)" and ?h = "appfsNextEntry x f h"
  have fin: "finite ?D" "\<And>g. g \<in> ?D \<Longrightarrow> 0 \<le> g" using laws by (auto simp: walk_laws_def)
  have nx: "if \<exists>g \<in> ?D. h < g then ?h \<in> ?D \<and> h < ?h \<and> (\<forall>g \<in> ?D. h < g \<longrightarrow> ?h \<le> g)
      else ?h = APPFS_INVALID_FD" using laws unfolding walk_laws_def by blast
  show ?case
  proof (cases "\<exists>g \<in> ?D. h < g")
    case False
    then have "without_temp h (dir f) = dir f"
      by (intro ext) (auto simp: without_temp_def split: option.splits)
    with nx False show ?thesis by (subst delete_temp_files.simps) (simp add: Let_def)
  next
    case True
    with nx have h': "?h \<in> ?D" "h < ?h" "\<And>g. g \<in> ?D \<Longrightarrow> h < g \<Longrightarrow> ?h \<le> g" by auto
    then obtain nm where nm: "dir f ?h = Some nm" by blast
    have valid: "?h \<noteq> APPFS_INVALID_FD" "- 1 \<le> ?h" using fin(2) [OF h'(1)] by (auto simp: APPFS_INVALID_FD_def)
    have name: "fst (appfsEntryInfo x f ?h) = nm" using laws nm by (simp add: walk_laws_def)
    define f1 where "f1 = (if is_temp nm then snd (appfsDeleteFile x nm f) else f)"
    have "dir (snd (appfsDeleteFile x nm f)) = (\<lambda>g. if dir f g = Some nm then None else dir f g)"
      using laws by (simp add: walk_laws_def)
    moreover have "dir f g = Some nm \<longleftrightarrow> g = ?h" for g
      using less.prems(1) nm h'(1) unfolding inj_on_def by (metis domI)
    ultimately have d1: "dir f1 = (if is_temp nm then (dir f)(?h := None) else dir f)"
      by (auto simp: f1_def)
    have "{g \<in> dom (dir f1). ?h < g} \<subset> {g \<in> ?D. h < g}"
      using h' by (auto simp: d1 order_less_le split: if_splits)
    then have "left_after ?h (dir f1) < left_after h (dir f)"
      using fin(1) unfolding left_after_def by (intro psubset_card_mono) auto
    moreover have "inj_on (dir f1) (dom (dir f1))"
      using less.prems(1) unfolding d1 inj_on_def by auto
    ultimately obtain f' where f': "delete_temp_files x ?h f1 = Some f'"
      "dir f' = without_temp ?h (dir f1)"
      using less.hyps [of ?h f1] valid by blast
    have "delete_temp_files x h f = Some f'"
      using f'(1) valid
      by (subst delete_temp_files.simps) (simp only: Let_def name fnmatch_temp f1_def if_False)
    moreover have "without_temp ?h (dir f1) = without_temp h (dir f)"
    proof
      fix g
      show "without_temp ?h (dir f1) g = without_temp h (dir f) g"
        using h' nm by (cases "g = ?h"; cases "dir f g")
          (fastforce simp: without_temp_def d1 split: option.splits)+
    qed
    ultimately show ?thesis using f'(2) by simp
  qed
qed

text \<open>
  The walk over the directory that deletes while it goes terminates and misses nothing: with no
  two files of one name, after it exactly the files whose names begin with two underscores and end
  in ".tmp" are gone, and every other file is as it was.
\<close>

lemma temp_files_removed:
  assumes "walk_laws x dir" "inj_on (dir f) (dom (dir f))"
  shows "\<exists>f'. delete_temp_files x APPFS_INVALID_FD f = Some f' \<and>
    dir f' = (\<lambda>h. case dir f h of None \<Rightarrow> None | Some nm \<Rightarrow> if is_temp nm then None else Some nm)"
proof -
  obtain f' where "delete_temp_files x (- 1) f = Some f'" "dir f' = without_temp (- 1) (dir f)"
    using delete_temp_files_step [OF assms, of "- 1"] by auto
  moreover have "without_temp (- 1) (dir f) =
      (\<lambda>h. case dir f h of None \<Rightarrow> None | Some nm \<Rightarrow> if is_temp nm then None else Some nm)"
  proof
    fix h
    have "dir f h = Some nm \<Longrightarrow> 0 \<le> h" for nm
      using assms(1) unfolding walk_laws_def by blast
    then show "without_temp (- 1) (dir f) h =
        (case dir f h of None \<Rightarrow> None | Some nm \<Rightarrow> if is_temp nm then None else Some nm)"
      by (auto simp: without_temp_def split: option.splits)
  qed
  ultimately show ?thesis unfolding APPFS_INVALID_FD_def by metis
qed

section \<open>The way to the server\<close>

definition normal_start :: "kc \<Rightarrow> boot_in \<Rightarrow> bool" where
  \<comment> \<open>no recovery keys, no charging screen, no key lock\<close>
  "normal_start k b \<longleftrightarrow> bi_keys b \<noteq> KC_BTN_START k OR KC_BTN_SELECT k \<and>
     (bi_status b = KC_CHG_NOCHARGER k \<or> bi_rtc b AND 0x100 \<noteq> 0) \<and>
     bi_rtc b AND 0xff000000 \<noteq> 0xA6000000"

definition wifi_ok :: "'h hal \<Rightarrow> 'h \<Rightarrow> start_in \<Rightarrow> bool" where
  "wifi_ok x h si \<longleftrightarrow> si_event_loop si = ESP_OK \<and> si_wifi_init si = ESP_OK \<and> si_wifi_storage si = ESP_OK \<and>
     si_wifi_mode si = ESP_OK \<and> si_wifi_config si (ap_settings x h) = ESP_OK \<and> si_wifi_start si = ESP_OK"

lemma checked_run:
  "checked cs = (take (Suc (length (takeWhile (\<lambda>e. e = ESP_OK) (map snd cs)))) (map fst cs),
     \<forall>e \<in> set (map snd cs). e = ESP_OK)"
  by (induction cs) auto

text \<open>
  C38. A normal start removes the left-over temporary files and nothing else, and then brings up the open
  access point "pkspr" on the stored channel, or on channel 5, before the server, which listens on
  port 80, and the menu. If one of the checked calls fails the program aborts at the first that does: the
  calls made are those before it, which succeeded, and itself, and neither the server nor the menu
  starts.
\<close>

theorem start_serves:
  assumes "normal_start k b" "walk_laws ext dir" "inj_on (dir f) (dom (dir f))"
  shows "\<exists>cs e f'. app_main k gfx ext x b si h f = Inr (cs, e, f') \<and>
    dir f' = (\<lambda>h. case dir f h of None \<Rightarrow> None | Some nm \<Rightarrow> if is_temp nm then None else Some nm) \<and>
    (let ws = [EventLoopInit, WifiInit, WifiSetStorageRam, WifiSetModeAp, WifiSetConfig (ap_settings x h), WifiStart];
         es = [si_event_loop si, si_wifi_init si, si_wifi_storage si, si_wifi_mode si,
               si_wifi_config si (ap_settings x h), si_wifi_start si];
         succeeded = length (takeWhile (\<lambda>e. e = ESP_OK) es)
     in if wifi_ok x h si
        then cs = [InitHw, InitSdk, AppfsDump, NvsFlashInit, TcpipAdapterInit] @ ws @
                [EspFsInit, HttpdInit 80, Screen guiInit, Screen (guiSplash x h)] \<and>
             e = InMenu (guiMenu (si_keys si) (si_chooser si))
        else e = Aborted \<and> succeeded < length ws \<and>
             cs = [InitHw, InitSdk, AppfsDump, NvsFlashInit, TcpipAdapterInit] @ take (Suc succeeded) ws)"
proof -
  obtain f' where f': "delete_temp_files ext APPFS_INVALID_FD f = Some f'"
    "dir f' = (\<lambda>h. case dir f h of None \<Rightarrow> None | Some nm \<Rightarrow> if is_temp nm then None else Some nm)"
    using temp_files_removed [OF assms(2,3)] by blast
  define ws where "ws = [EventLoopInit, WifiInit, WifiSetStorageRam, WifiSetModeAp, WifiSetConfig (ap_settings x h), WifiStart]"
  define es where "es = [si_event_loop si, si_wifi_init si, si_wifi_storage si, si_wifi_mode si,
    si_wifi_config si (ap_settings x h), si_wifi_start si]"
  define n where "n = length (takeWhile (\<lambda>e. e = ESP_OK) es)"
  have a: "app_main k gfx ext x b si h f =
      (let (ss, e) = start_server x h si in Inr ([InitHw, InitSdk, AppfsDump] @ ss, e, f'))"
    using assms(1) f'(1) by (auto simp: app_main_def boot_recovery_def normal_start_def)
  have ok: "wifi_ok x h si \<longleftrightarrow> (\<forall>e \<in> set es. e = ESP_OK)" by (auto simp: wifi_ok_def es_def)
  have w: "start_wifi x h si = (take (Suc n) ws, wifi_ok x h si)"
    unfolding start_wifi_def checked_run ok n_def es_def ws_def by simp
  have l: "length ws = 6" "length es = 6" by (simp_all add: ws_def es_def)
  have "n \<le> 6" using length_takeWhile_le [of "\<lambda>e. e = ESP_OK" es] l by (simp add: n_def)
  moreover have "wifi_ok x h si \<longleftrightarrow> n = 6"
  proof
    assume "wifi_ok x h si"
    then have "takeWhile (\<lambda>e. e = ESP_OK) es = es" by (simp add: ok takeWhile_eq_all_conv)
    then show "n = 6" unfolding n_def by (simp only: l)
  next
    assume "n = 6"
    then have "takeWhile (\<lambda>e. e = ESP_OK) es = es" using takeWhile_eq_take [of "\<lambda>e. e = ESP_OK" es] by (simp add: n_def l)
    then show "wifi_ok x h si" by (simp add: ok takeWhile_eq_all_conv)
  qed
  ultimately show ?thesis
    unfolding a ws_def [symmetric] es_def [symmetric] Let_def n_def [symmetric]
    using f'(2) by (cases "n = 6") (simp_all add: start_server_def w l)
qed

text \<open>A directory of at most three entries shows that the hypotheses can hold.\<close>

type_synonym demo_dir = "string option \<times> string option \<times> string option"

definition demo_names :: "demo_dir \<Rightarrow> appfs_fd \<Rightarrow> string option" where
  "demo_names = (\<lambda>(a, b, c) h. if h = 0 then a else if h = 1 then b else if h = 2 then c else None)"

definition demo_walk :: "demo_dir \<Rightarrow> appfs_fd \<Rightarrow> appfs_fd" where
  "demo_walk d h =
     (if h < 0 \<and> demo_names d 0 \<noteq> None then 0
      else if h < 1 \<and> demo_names d 1 \<noteq> None then 1
      else if h < 2 \<and> demo_names d 2 \<noteq> None then 2 else - 1)"

definition demo_drop :: "string \<Rightarrow> demo_dir \<Rightarrow> demo_dir" where
  "demo_drop nm = (\<lambda>(a, b, c). (if a = Some nm then None else a, if b = Some nm then None else b,
     if c = Some nm then None else c))"

definition demo_walker :: "demo_dir ext" where
  "demo_walker =
     \<lparr>httpdFindArg = (\<lambda>line arg old n. (- 1, old)),
      appfsCreateFile = (\<lambda>nm n f. ((1, 0), f)), appfsErase = (\<lambda>h a n f. (1, f)),
      appfsWrite = (\<lambda>h a bs f. (1, f)), appfsRename = (\<lambda>a b f. (1, f)),
      appfsDeleteFile = (\<lambda>nm f. (ESP_OK, demo_drop nm f)),
      appfsNextEntry = demo_walk,
      appfsFdValid = (\<lambda>f h. demo_names f h \<noteq> None),
      appfsEntryInfo = (\<lambda>f h. (the (demo_names f h), 0)),
      appfsRead = (\<lambda>f h p n. []), appfsGetFreeMem = (\<lambda>f. 0), spiFlashRead = (\<lambda>f p n. []),
      nvsOpen = (\<lambda>nm f. ((ESP_OK, 1), f)), nvsEraseAll = (\<lambda>h f. f), nvsCommit = (\<lambda>h f. f),
      nvsClose = (\<lambda>h f. f)\<rparr>"

lemma demo_names_dom: "g \<in> dom (demo_names d) \<Longrightarrow> g = 0 \<or> g = 1 \<or> g = 2"
  by (cases d) (auto simp: demo_names_def split: if_splits)

lemma demo_names_ball:
  "(\<forall>g \<in> dom (demo_names d). P g) \<longleftrightarrow>
    (demo_names d 0 \<noteq> None \<longrightarrow> P 0) \<and> (demo_names d 1 \<noteq> None \<longrightarrow> P 1) \<and> (demo_names d 2 \<noteq> None \<longrightarrow> P 2)"
  (is "?L \<longleftrightarrow> ?R")
proof
  show "?L \<Longrightarrow> ?R" by blast
  assume r: ?R
  show ?L
  proof
    fix g assume "g \<in> dom (demo_names d)"
    with demo_names_dom [OF this] r show "P g" by auto
  qed
qed

lemma demo_walk_laws: "walk_laws demo_walker demo_names"
proof -
  have "finite (dom (demo_names d))" for d
    using demo_names_dom [of _ d] by (intro finite_subset [of "dom (demo_names d)" "{0, 1, 2}"]) blast+
  moreover have "\<forall>g \<in> dom (demo_names d). 0 \<le> g" for d by (auto dest!: demo_names_dom)
  moreover have "if \<exists>g \<in> dom (demo_names d). h < g
      then demo_walk d h \<in> dom (demo_names d) \<and> h < demo_walk d h \<and>
           (\<forall>g \<in> dom (demo_names d). h < g \<longrightarrow> demo_walk d h \<le> g)
      else demo_walk d h = - 1" for d h
  proof (cases "\<exists>g \<in> dom (demo_names d). h < g")
    case True
    then obtain g where "g \<in> dom (demo_names d)" "h < g" by blast
    then have "(h < 0 \<and> demo_names d 0 \<noteq> None) \<or> (h < 1 \<and> demo_names d 1 \<noteq> None) \<or>
        (h < 2 \<and> demo_names d 2 \<noteq> None)" using demo_names_dom [of g d] by auto
    then have "demo_walk d h \<in> dom (demo_names d) \<and> h < demo_walk d h \<and>
        (\<forall>g \<in> dom (demo_names d). h < g \<longrightarrow> demo_walk d h \<le> g)"
      by (auto simp: demo_walk_def demo_names_ball)
    then show ?thesis unfolding if_P [OF True] .
  next
    case False
    then have "demo_names d g = None" if "h < g" for g using that by blast
    then have "demo_walk d h = - 1" by (auto simp: demo_walk_def)
    with False show ?thesis by (simp only: if_False)
  qed
  moreover have "demo_names (demo_drop nm d) =
      (\<lambda>h. if demo_names d h = Some nm then None else demo_names d h)" for nm d
    by (cases d) (auto simp: demo_names_def demo_drop_def)
  ultimately show ?thesis by (simp add: walk_laws_def demo_walker_def APPFS_INVALID_FD_def)
qed

definition demo_start :: start_in where
  "demo_start =
     \<lparr>si_event_loop = 0, si_wifi_init = 0, si_wifi_storage = 0, si_wifi_mode = 0, si_wifi_config = (\<lambda>c. 0),
      si_wifi_start = 0, si_keys = [], si_chooser = (\<lambda>ks. (0, []))\<rparr>"

definition demo_boot :: boot_in where
  "demo_boot =
     \<lparr>bi_keys = 0, bi_choice = 0, bi_appfs = None, bi_erase_err = (\<lambda>i. 0), bi_nvs = None, bi_nvs_err = 0,
      bi_rtc = 0, bi_status = KC_CHG_NOCHARGER demo_kc, bi_arg = False, bi_charge = [], bi_btn = (\<lambda>i. 0)\<rparr>"

theorem start_serves_witness:
  "\<exists>cs e f'. app_main demo_kc [] demo_walker demo_hal demo_boot demo_start (0, 0, Map.empty)
      (Some ''__upload.tmp'', None, Some ''a.app'') = Inr (cs, e, f') \<and>
    demo_names f' 0 = None \<and> demo_names f' 2 = Some ''a.app'' \<and> HttpdInit 80 \<in> set cs"
proof -
  define d :: demo_dir where "d = (Some ''__upload.tmp'', None, Some ''a.app'')"
  have inj: "inj_on (demo_names d) (dom (demo_names d))" by (auto simp: inj_on_def demo_names_def d_def)
  have t: "is_temp ''__upload.tmp''" unfolding is_temp_def by (intro exI [of _ "''upload''"]) simp
  have a: "\<not> is_temp ''a.app''" by (simp add: is_temp_def)
  have n: "normal_start demo_kc demo_boot" by (simp add: normal_start_def demo_boot_def demo_kc_def)
  have w: "wifi_ok demo_hal (0, 0, Map.empty) demo_start" by (simp add: wifi_ok_def demo_start_def ESP_OK_def)
  have names: "demo_names d 0 = Some ''__upload.tmp''" "demo_names d 2 = Some ''a.app''"
    by (simp_all add: d_def demo_names_def)
  obtain cs e f' where r: "app_main demo_kc [] demo_walker demo_hal demo_boot demo_start (0, 0, Map.empty) d = Inr (cs, e, f')"
    "demo_names f' = (\<lambda>h. case demo_names d h of None \<Rightarrow> None | Some nm \<Rightarrow> if is_temp nm then None else Some nm)"
    "HttpdInit 80 \<in> set cs"
    using start_serves [OF n demo_walk_laws inj, of "[]" demo_hal demo_start "(0, 0, Map.empty)"] w
    by (elim exE conjE) (simp add: Let_def)
  have "demo_names f' 0 = None \<and> demo_names f' 2 = Some ''a.app''"
    unfolding r(2) using t a names by simp
  with r(1,3) show ?thesis unfolding d_def by blast
qed

end
