(* ===== verification/Net_Addr.thy ===== *)
theory Net_Addr
  imports Prelude
begin

text \<open>
  Byte order and IPv4 addresses: \<open>components/lwip/core/def.c\<close> and the macros of
  \<open>include/lwip/lwip/ip4_addr.h\<close> the address code uses. An address is kept in network order in a
  \<open>u32\<close> of a little-endian processor, so its first octet is the lowest byte: the comparisons of the
  DHCP server are comparisons of such words. The lemmas relate them to the host numbers in a /24
  network.
\<close>

section \<open>Byte swapping\<close>

definition lwip_htons :: "u16 \<Rightarrow> u16" where
  "lwip_htons n = push_bit 8 (n AND 0xff) OR drop_bit 8 (n AND 0xff00)"

definition lwip_ntohs :: "u16 \<Rightarrow> u16" where
  "lwip_ntohs n = lwip_htons n"

definition lwip_htonl :: "u32 \<Rightarrow> u32" where
  "lwip_htonl n =
     push_bit 24 (n AND 0xff) OR push_bit 8 (n AND 0xff00) OR
     drop_bit 8 (n AND 0xff0000) OR drop_bit 24 (n AND 0xff000000)"

definition lwip_ntohl :: "u32 \<Rightarrow> u32" where
  "lwip_ntohl n = lwip_htonl n"

section \<open>Octets\<close>

definition IP4_ADDR :: "u32 \<Rightarrow> u32 \<Rightarrow> u32 \<Rightarrow> u32 \<Rightarrow> u32" where
  "IP4_ADDR a b c d =
     push_bit 24 (d AND 0xff) OR push_bit 16 (c AND 0xff) OR push_bit 8 (b AND 0xff) OR (a AND 0xff)"

definition ip4_addr1 :: "u32 \<Rightarrow> byte" where "ip4_addr1 x = ucast x"
definition ip4_addr2 :: "u32 \<Rightarrow> byte" where "ip4_addr2 x = ucast (drop_bit 8 x)"
definition ip4_addr3 :: "u32 \<Rightarrow> byte" where "ip4_addr3 x = ucast (drop_bit 16 x)"
definition ip4_addr4 :: "u32 \<Rightarrow> byte" where "ip4_addr4 x = ucast (drop_bit 24 x)"

definition le_bytes :: "u32 \<Rightarrow> byte list" where
  \<comment> \<open>the four bytes of a word in memory\<close>
  "le_bytes x = [ip4_addr1 x, ip4_addr2 x, ip4_addr3 x, ip4_addr4 x]"

definition IPADDR_ANY :: u32 where "IPADDR_ANY = 0"
definition IPADDR_BROADCAST :: u32 where "IPADDR_BROADCAST = 0xffffffff"
definition IPADDR_NONE :: u32 where "IPADDR_NONE = 0xffffffff"

definition ip4_addr_netcmp :: "u32 \<Rightarrow> u32 \<Rightarrow> u32 \<Rightarrow> bool" where
  "ip4_addr_netcmp a b m \<longleftrightarrow> a AND m = b AND m"

lemma bit_mask_8: "bit (0xff :: 'a::len word) n \<longleftrightarrow> n < 8 \<and> n < LENGTH('a)"
proof -
  have m: "(0xff :: 'a word) = mask 8" by (simp add: mask_eq_exp_minus_1)
  show ?thesis unfolding m by (simp only: bit_mask_iff possible_bit_word) auto
qed

lemma bit_masks:
  "bit (0xff00 :: 'a::len word) n \<longleftrightarrow> 8 \<le> n \<and> n < 16 \<and> n < LENGTH('a)"
  "bit (0xff0000 :: 'a word) n \<longleftrightarrow> 16 \<le> n \<and> n < 24 \<and> n < LENGTH('a)"
  "bit (0xff000000 :: 'a word) n \<longleftrightarrow> 24 \<le> n \<and> n < 32 \<and> n < LENGTH('a)"
proof -
  have m: "(0xff00 :: 'a word) = push_bit 8 (0xff)" "(0xff0000 :: 'a word) = push_bit 16 0xff"
    "(0xff000000 :: 'a word) = push_bit 24 0xff"
    by (simp_all add: push_bit_eq_mult)
  show "bit (0xff00 :: 'a::len word) n \<longleftrightarrow> 8 \<le> n \<and> n < 16 \<and> n < LENGTH('a)"
    unfolding m by (simp only: bit_push_bit_iff bit_mask_8 possible_bit_word) auto
  show "bit (0xff0000 :: 'a word) n \<longleftrightarrow> 16 \<le> n \<and> n < 24 \<and> n < LENGTH('a)"
    unfolding m by (simp only: bit_push_bit_iff bit_mask_8 possible_bit_word) auto
  show "bit (0xff000000 :: 'a word) n \<longleftrightarrow> 24 \<le> n \<and> n < 32 \<and> n < LENGTH('a)"
    unfolding m by (simp only: bit_push_bit_iff bit_mask_8 possible_bit_word) auto
qed

lemma word_bit_less: "bit (x :: 'a::len word) n \<Longrightarrow> n < LENGTH('a)"
  by (rule bit_imp_le_length)

lemma bit_lwip_htonl:
  "bit (lwip_htonl x) n \<longleftrightarrow> n < 32 \<and>
    bit x (if n < 8 then n + 24 else if n < 16 then n + 8 else if n < 24 then n - 8 else n - 24)"
  unfolding lwip_htonl_def
  by (simp only: bit_or_iff bit_and_iff bit_push_bit_iff bit_drop_bit_eq bit_mask_8 bit_masks
    possible_bit_word o_apply len_num1 len_bit0 len_bit1) (auto simp: add.commute [of n] dest: word_bit_less)

lemma lwip_htonl_htonl [simp]: "lwip_htonl (lwip_htonl x) = x"
  by (rule bit_word_eqI) (auto simp: bit_lwip_htonl)

lemma lwip_htonl_inject [simp]: "lwip_htonl x = lwip_htonl y \<longleftrightarrow> x = y"
  by (metis lwip_htonl_htonl)

lemma bit_lwip_htons:
  "bit (lwip_htons x) n \<longleftrightarrow> n < 16 \<and> bit x (if n < 8 then n + 8 else n - 8)"
  unfolding lwip_htons_def
  by (simp only: bit_or_iff bit_and_iff bit_push_bit_iff bit_drop_bit_eq bit_mask_8 bit_masks
    possible_bit_word o_apply len_num1 len_bit0 len_bit1) (auto simp: add.commute [of n] dest: word_bit_less)

lemma lwip_htons_htons [simp]: "lwip_htons (lwip_htons x) = x"
  by (rule bit_word_eqI) (auto simp: bit_lwip_htons)

section \<open>Host numbers in a /24 network\<close>

definition net24 :: "u32 \<Rightarrow> u32" where
  \<comment> \<open>the first three octets\<close>
  "net24 x = x AND 0xffffff"

definition host24 :: "u32 \<Rightarrow> nat" where
  \<comment> \<open>the last octet\<close>
  "host24 x = unat (drop_bit 24 x)"

definition addr24 :: "u32 \<Rightarrow> nat \<Rightarrow> u32" where
  "addr24 net h = net OR push_bit 24 (of_nat h)"

lemma mask_24: "(0xffffff :: u32) = mask 24"
  by (simp add: mask_eq_exp_minus_1)

lemma unat_and_mask: "unat (x AND mask n) = unat x mod 2 ^ n"
  by (simp only: take_bit_eq_mask [symmetric] unsigned_take_bit_eq) (simp only: take_bit_eq_mod)

lemma host24_div: "host24 x = unat x div 2 ^ 24"
  unfolding host24_def by (simp only: unat_drop_bit_eq) (simp only: drop_bit_eq_div)

lemma unat_split24: "unat x = unat (net24 x) + host24 x * 2 ^ 24"
proof -
  have "unat (net24 x) = unat x mod 2 ^ 24"
    unfolding net24_def mask_24 by (simp only: unat_and_mask)
  moreover have "host24 x = unat x div 2 ^ 24" by (rule host24_div)
  ultimately show ?thesis by simp
qed

lemma net24_less: "unat (net24 x) < 2 ^ 24"
  unfolding net24_def mask_24 unat_and_mask by simp

lemma host24_less: "host24 x < 256"
proof -
  have "unat x < 2 ^ LENGTH(32)" by (rule unsigned_less)
  then have "unat x div 2 ^ 24 < 256" by (simp add: div_less_iff_less_mult)
  then show ?thesis by (simp only: host24_div)
qed

lemma addr_eq_iff24: "x = y \<longleftrightarrow> net24 x = net24 y \<and> host24 x = host24 y"
  by (metis unat_split24 word_unat_eq_iff)

lemma addr_less_iff24: "net24 x = net24 y \<Longrightarrow> x < y \<longleftrightarrow> host24 x < host24 y"
  by (simp add: word_less_nat_alt unat_split24 [of x] unat_split24 [of y])

lemma addr_le_iff24: "net24 x = net24 y \<Longrightarrow> x \<le> y \<longleftrightarrow> host24 x \<le> host24 y"
  by (simp add: word_le_nat_alt unat_split24 [of x] unat_split24 [of y])

lemma addr24_net_host:
  assumes "h < 256" "net = net24 net"
  shows "net24 (addr24 net h) = net" "host24 (addr24 net h) = h"
proof -
  have bn: "bit net n \<Longrightarrow> n < 24" for n
    using assms(2) unfolding net24_def mask_24 by (metis bit_and_iff bit_mask_iff)
  have "(of_nat h :: u32) = take_bit 8 (of_nat h)"
    using assms(1) by (simp only: take_bit_of_nat) (simp add: take_bit_nat_eq_self)
  then have bh: "bit (of_nat h :: u32) n \<Longrightarrow> n < 8" for n by (metis bit_take_bit_iff)
  show "net24 (addr24 net h) = net"
    unfolding net24_def addr24_def mask_24
    by (rule bit_word_eqI)
      (simp only: bit_and_iff bit_or_iff bit_push_bit_iff bit_mask_iff possible_bit_word, auto dest: bn)
  have "drop_bit 24 (addr24 net h) = of_nat h"
    unfolding addr24_def
    by (rule bit_word_eqI)
      (simp only: bit_drop_bit_eq o_apply bit_or_iff bit_push_bit_iff possible_bit_word, auto dest: bn bh)
  then show "host24 (addr24 net h) = h"
    unfolding host24_def using assms(1) by (simp add: unsigned_of_nat take_bit_nat_eq_self)
qed

definition next_addr :: "u32 \<Rightarrow> u32" where
  \<comment> \<open>the address with the next host number, through host order as the DHCP server computes it\<close>
  "next_addr x = lwip_htonl (lwip_htonl x + 1)"

lemma host24_htonl: "host24 x = unat (lwip_htonl x) mod 256"
proof -
  have "drop_bit 24 x = lwip_htonl x AND mask 8"
    by (rule bit_word_eqI)
      (simp only: bit_drop_bit_eq o_apply bit_and_iff bit_mask_iff bit_lwip_htonl possible_bit_word,
        auto simp: add.commute dest: word_bit_less)
  then have "host24 x = unat (lwip_htonl x) mod 2 ^ 8" by (simp only: host24_def unat_and_mask)
  then show ?thesis by simp
qed

lemma net24_htonl: "net24 x = lwip_htonl (lwip_htonl x AND NOT (mask 8))"
  unfolding net24_def mask_24
  by (rule bit_word_eqI)
    (simp only: bit_and_iff bit_not_iff bit_mask_iff bit_lwip_htonl possible_bit_word, auto dest: word_bit_less)

lemma next_addr24:
  assumes "host24 x < 255"
  shows "net24 (next_addr x) = net24 x" "host24 (next_addr x) = Suc (host24 x)"
proof -
  let ?y = "lwip_htonl x"
  have h: "unat ?y mod 256 < 255" using assms by (simp add: host24_htonl)
  have ne: "?y \<noteq> - 1"
  proof
    assume "?y = - 1"
    then have "unat ?y = 2 ^ 32 - 1" by (simp add: unsigned_minus_1_eq_mask mask_eq_exp_minus_1)
    with h show False by simp
  qed
  then have "1 + ?y \<noteq> 0" by (simp add: add_eq_0_iff)
  then have y1: "unat (?y + 1) = unat ?y + 1" using unatSuc [of ?y] by (simp add: add.commute)
  have m: "(unat ?y + 1) mod 256 = unat ?y mod 256 + 1" using h by (simp add: mod_Suc)
  then have "(unat ?y + 1) div 256 = unat ?y div 256" by (simp add: div_Suc)
  have "(?y + 1) AND NOT (mask 8) = ?y AND NOT (mask 8)"
  proof -
    have "drop_bit 8 (?y + 1) = drop_bit 8 ?y"
      unfolding word_unat_eq_iff unat_drop_bit_eq y1
      using \<open>(unat ?y + 1) div 256 = unat ?y div 256\<close> by (simp add: drop_bit_eq_div)
    then have "push_bit 8 (drop_bit 8 (?y + 1)) = push_bit 8 (drop_bit 8 ?y)" by simp
    moreover have "push_bit 8 (drop_bit 8 z) = z AND NOT (mask 8)" for z :: u32
      by (rule bit_word_eqI)
        (simp only: bit_push_bit_iff bit_drop_bit_eq o_apply bit_and_iff bit_not_iff bit_mask_iff
          possible_bit_word, auto)
    ultimately show ?thesis by simp
  qed
  then show "net24 (next_addr x) = net24 x" by (simp add: net24_htonl next_addr_def)
  show "host24 (next_addr x) = Suc (host24 x)"
    using y1 m by (simp add: host24_htonl next_addr_def)
qed

end
