(* ===== verification/Dhcp_Leases.thy ===== *)
theory Dhcp_Leases
  imports Net_Addr
begin

text \<open>
  The lease list of the DHCP server, \<open>components/lwip/apps/dhcpserver.c\<close>: \<open>node_insert_to_list\<close>,
  \<open>node_remove_from_list\<close>, the search that \<open>parse_msg\<close> makes through it for a client and for a free
  address, the one-second timer and the search for a client's address. A node of the list is its
  address in memory and the lease it points to. The locale \<open>lease_table\<close> is what the server relies
  on; the list is its interpretation.
\<close>

section \<open>Leases and list nodes\<close>

record dhcps_pool =
  dp_ip :: u32
  dp_mac :: "byte list"
  dp_lease_timer :: u32

record list_node =
  n_ptr :: nat
  pnode :: dhcps_pool

abbreviation n_ip :: "list_node \<Rightarrow> u32" where
  "n_ip n \<equiv> dp_ip (pnode n)"

abbreviation n_mac :: "list_node \<Rightarrow> byte list" where
  "n_mac n \<equiv> dp_mac (pnode n)"

definition MAX_STATION_NUM :: nat where
  "MAX_STATION_NUM = 8"

section \<open>Insertion and removal\<close>

fun insert_loop :: "list_node list \<Rightarrow> list_node \<Rightarrow> list_node list" where
  \<comment> \<open>the loop along \<open>plist->pnext\<close>\<close>
  "insert_loop [] p = [p]"
| "insert_loop (q # qs) p = (if n_ip p < n_ip q then p # q # qs else q # insert_loop qs p)"

fun node_insert_to_list :: "list_node list \<Rightarrow> list_node \<Rightarrow> list_node list" where
  "node_insert_to_list [] p = [p]"
| "node_insert_to_list (h # t) p = (if n_ip p < n_ip h then p # h # t else h # insert_loop t p)"

fun remove_loop :: "list_node list \<Rightarrow> nat \<Rightarrow> list_node list" where
  "remove_loop [] d = []"
| "remove_loop (q # qs) d =
     (if n_ptr q = d then (case qs of [] \<Rightarrow> [] | r # rs \<Rightarrow> r # remove_loop rs d)
      else q # remove_loop qs d)"

fun node_remove_from_list :: "list_node list \<Rightarrow> nat \<Rightarrow> list_node list" where
  "node_remove_from_list [] d = []"
| "node_remove_from_list (h # t) d = (if n_ptr h = d then t else h # remove_loop t d)"

definition timer_node :: "nat \<Rightarrow> u32 \<Rightarrow> list_node \<Rightarrow> list_node" where
  "timer_node d t n = (if n_ptr n = d then n\<lparr>pnode := (pnode n)\<lparr>dp_lease_timer := t\<rparr>\<rparr> else n)"

definition set_timer :: "nat \<Rightarrow> u32 \<Rightarrow> list_node list \<Rightarrow> list_node list" where
  \<comment> \<open>\<open>pdhcps_pool->lease_timer = t\<close> through the pointer of one node\<close>
  "set_timer d t l = map (timer_node d t) l"

lemma timer_node_simps [simp]:
  "n_ip (timer_node d t n) = n_ip n" "n_mac (timer_node d t n) = n_mac n"
  "n_ptr (timer_node d t n) = n_ptr n"
  by (simp_all add: timer_node_def)

section \<open>The search of \<open>parse_msg\<close>\<close>

record search =
  sr_plus :: u32        \<comment> \<open>client_address_plus\<close>
  sr_client :: u32      \<comment> \<open>client_address\<close>
  sr_first :: u32       \<comment> \<open>first_address\<close>
  sr_flag :: bool

definition search_plus :: "u32 \<Rightarrow> search \<Rightarrow> search" where
  "search_plus addr s =
     (if addr = sr_plus s
      then s\<lparr>sr_plus := next_addr (sr_plus s), sr_client := next_addr (sr_plus s)\<rparr> else s)"

definition search_first :: "u32 \<Rightarrow> search \<Rightarrow> search" where
  "search_first addr s =
     (if \<not> sr_flag s
      then if sr_first s < addr then s\<lparr>sr_flag := True\<rparr>
           else s\<lparr>sr_first := next_addr (sr_first s)\<rparr>
      else s)"

fun search_leases :: "byte list \<Rightarrow> list_node list \<Rightarrow> search \<Rightarrow> list_node option \<times> search" where
  "search_leases mac [] s = (None, s)"
| "search_leases mac (n # ns) s =
     (if n_mac n = mac then (Some n, s)
      else search_leases mac ns (search_first (n_ip n) (search_plus (n_ip n) s)))"

section \<open>Timer and lookup\<close>

text \<open>
  The timer runs over the list once. The node it unlinks is the one it stands on, so the rest of the
  list is as it was; \<open>remove_here\<close> below shows that this is what \<open>node_remove_from_list\<close> does.
\<close>

definition count_down :: "list_node \<Rightarrow> list_node" where
  "count_down n = n\<lparr>pnode := (pnode n)\<lparr>dp_lease_timer := dp_lease_timer (pnode n) - 1\<rparr>\<rparr>"

fun tick_loop :: "list_node list \<Rightarrow> list_node list" where
  "tick_loop [] = []"
| "tick_loop (n # ns) =
     (if dp_lease_timer (pnode (count_down n)) = 0 then tick_loop ns
      else count_down n # tick_loop ns)"

fun oldest :: "list_node \<Rightarrow> list_node list \<Rightarrow> list_node" where
  \<comment> \<open>\<open>minp\<close> at the end of the loop of \<open>kill_oldest_dhcps_pool\<close>\<close>
  "oldest m [] = m"
| "oldest m (p # ps) =
     oldest (if dp_lease_timer (pnode p) < dp_lease_timer (pnode m) then p else m) ps"

fun unlink_node :: "nat \<Rightarrow> list_node list \<Rightarrow> list_node list" where
  \<comment> \<open>\<open>minpre->pnext = minp->pnext\<close>\<close>
  "unlink_node d [] = []"
| "unlink_node d (q # qs) = (if n_ptr q = d then qs else q # unlink_node d qs)"

fun kill_oldest_dhcps_pool :: "list_node list \<Rightarrow> list_node list result" where
  "kill_oldest_dhcps_pool [] = Inl NullDeref"
| "kill_oldest_dhcps_pool [h] = Inl NullDeref"
| "kill_oldest_dhcps_pool (h # q # qs) = Inr (h # unlink_node (n_ptr (oldest q (q # qs))) (q # qs))"

definition dhcps_coarse_tmr :: "list_node list \<Rightarrow> list_node list result" where
  \<comment> \<open>the number of nodes left is counted in eight bits\<close>
  "dhcps_coarse_tmr l =
     (let l' = tick_loop l; num_dhcps_pool = (of_nat (length l') :: byte)
      in if MAX_STATION_NUM \<le> unat num_dhcps_pool then kill_oldest_dhcps_pool l' else Inr l')"

fun dhcp_search_ip_on_mac :: "byte list \<Rightarrow> list_node list \<Rightarrow> u32 option" where
  "dhcp_search_ip_on_mac mac [] = None"
| "dhcp_search_ip_on_mac mac (n # ns) =
     (if n_mac n = mac then Some (n_ip n) else dhcp_search_ip_on_mac mac ns)"

section \<open>The contract of the lease table\<close>

locale lease_table =
  fixes inv :: "'t \<Rightarrow> bool"
    and nodes :: "'t \<Rightarrow> list_node set"
    and ins :: "'t \<Rightarrow> list_node \<Rightarrow> 't"
    and rem :: "'t \<Rightarrow> nat \<Rightarrow> 't"
  assumes unique: "inv t \<Longrightarrow> n \<in> nodes t \<Longrightarrow> n' \<in> nodes t \<Longrightarrow>
      n_ip n = n_ip n' \<or> n_mac n = n_mac n' \<or> n_ptr n = n_ptr n' \<Longrightarrow> n = n'"
    and ins_ok: "inv t \<Longrightarrow> \<forall>n' \<in> nodes t. n_ip n \<noteq> n_ip n' \<and> n_mac n \<noteq> n_mac n' \<and> n_ptr n \<noteq> n_ptr n' \<Longrightarrow>
      inv (ins t n) \<and> nodes (ins t n) = insert n (nodes t)"
    and rem_ok: "inv t \<Longrightarrow> inv (rem t d) \<and> nodes (rem t d) = {n \<in> nodes t. n_ptr n \<noteq> d}"
begin

definition holds :: "'t \<Rightarrow> byte list \<Rightarrow> u32 \<Rightarrow> bool" where
  \<comment> \<open>the client with this MAC has the lease of this address\<close>
  "holds t mac ip \<longleftrightarrow> (\<exists>n \<in> nodes t. n_mac n = mac \<and> n_ip n = ip)"

lemma holds_one_ip: "inv t \<Longrightarrow> holds t mac ip \<Longrightarrow> holds t mac ip' \<Longrightarrow> ip = ip'"
  using unique unfolding holds_def by blast

lemma holds_one_client: "inv t \<Longrightarrow> holds t mac ip \<Longrightarrow> holds t mac' ip \<Longrightarrow> mac = mac'"
  using unique unfolding holds_def by blast

lemma ins_holds:
  assumes "inv t" "\<forall>n' \<in> nodes t. n_ip n \<noteq> n_ip n' \<and> n_mac n \<noteq> n_mac n' \<and> n_ptr n \<noteq> n_ptr n'"
  shows "holds (ins t n) mac ip \<longleftrightarrow> (mac = n_mac n \<and> ip = n_ip n) \<or> holds t mac ip"
  using ins_ok [OF assms] unfolding holds_def by auto

lemma rem_holds:
  assumes "inv t" "n \<in> nodes t"
  shows "holds (rem t (n_ptr n)) mac ip \<longleftrightarrow> holds t mac ip \<and> mac \<noteq> n_mac n"
  using rem_ok [OF assms(1), of "n_ptr n"] unique [OF assms(1) _ assms(2)]
  unfolding holds_def by blast

end

definition lease_inv :: "list_node list \<Rightarrow> bool" where
  "lease_inv l \<longleftrightarrow> sorted_wrt (\<lambda>a b. n_ip a < n_ip b) l \<and> distinct (map n_mac l) \<and>
     distinct (map n_ptr l)"

lemma insert_is_loop: "node_insert_to_list l n = insert_loop l n"
  by (cases l) simp_all

lemma set_insert_loop [simp]: "set (insert_loop l n) = insert n (set l)"
  by (induction l) auto

lemma insert_loop_inv:
  assumes "sorted_wrt (\<lambda>a b. n_ip a < n_ip b) l" "\<forall>q \<in> set l. n_ip n \<noteq> n_ip q"
  shows "sorted_wrt (\<lambda>a b. n_ip a < n_ip b) (insert_loop l n)"
  using assms by (induction l) (auto simp: less_le_not_le intro: order_trans dest: order_less_trans)

lemma distinct_insert_loop:
  "distinct (map f (insert_loop l n)) \<longleftrightarrow> f n \<notin> f ` set l \<and> distinct (map f l)"
  by (induction l) auto

lemma remove_loop_other: "d \<notin> n_ptr ` set l \<Longrightarrow> remove_loop l d = l"
  by (induction l) auto

lemma filter_other: "d \<notin> n_ptr ` set l \<Longrightarrow> filter (\<lambda>n. n_ptr n \<noteq> d) l = l"
  by (induction l) auto

lemma remove_loop_filter: "distinct (map n_ptr l) \<Longrightarrow> remove_loop l d = filter (\<lambda>n. n_ptr n \<noteq> d) l"
proof (induction l d rule: remove_loop.induct)
  case (1 d)
  then show ?case by simp
next
  case (2 q qs d)
  show ?case
  proof (cases "n_ptr q = d")
    case True
    then have "d \<notin> n_ptr ` set qs" using "2.prems" by auto
    with True show ?thesis
      by (cases qs) (auto simp: filter_other remove_loop_other)
  next
    case False
    then show ?thesis using 2 by simp
  qed
qed

lemma node_remove_filter:
  "distinct (map n_ptr l) \<Longrightarrow> node_remove_from_list l d = filter (\<lambda>n. n_ptr n \<noteq> d) l"
  by (cases l) (auto simp: remove_loop_filter filter_other)

lemma remove_here:
  "distinct (map n_ptr (xs @ n # ys)) \<Longrightarrow> node_remove_from_list (xs @ n # ys) (n_ptr n) = xs @ ys"
  by (subst node_remove_filter) (auto simp: filter_other)

interpretation leases: lease_table lease_inv set node_insert_to_list node_remove_from_list
proof
  fix t n n'
  assume t: "lease_inv t" "n \<in> set t" "n' \<in> set t"
    and eq: "n_ip n = n_ip n' \<or> n_mac n = n_mac n' \<or> n_ptr n = n_ptr n'"
  have "distinct (map n_ip t)"
    using t(1) by (auto simp: lease_inv_def distinct_map sorted_wrt_iff_nth_less inj_on_def
        dest!: in_set_conv_nth [THEN iffD1]) (metis less_irrefl linorder_neqE_nat)+
  with t eq show "n = n'" by (auto simp: lease_inv_def distinct_map inj_on_def)
next
  fix t n
  assume "lease_inv t"
    "\<forall>n' \<in> set t. n_ip n \<noteq> n_ip n' \<and> n_mac n \<noteq> n_mac n' \<and> n_ptr n \<noteq> n_ptr n'"
  then show "lease_inv (node_insert_to_list t n) \<and> set (node_insert_to_list t n) = insert n (set t)"
    by (auto simp: lease_inv_def insert_is_loop distinct_insert_loop insert_loop_inv)
next
  fix t d
  assume "lease_inv t"
  then show "lease_inv (node_remove_from_list t d) \<and>
      set (node_remove_from_list t d) = {n \<in> set t. n_ptr n \<noteq> d}"
    by (auto simp: lease_inv_def node_remove_filter sorted_wrt_filter distinct_map_filter)
qed

end
