(* ===== verification/Dhcp_Server.thy ===== *)
theory Dhcp_Server
  imports Dhcp_Leases
begin

text \<open>
  The DHCP server, \<open>components/lwip/apps/dhcpserver.c\<close>: its state, its options, the messages it
  builds, the parsing of a request, the choice of an address, and starting and stopping it. UDP is a
  list of recorded calls; whether an allocation succeeds is an argument of the operation that
  allocates. A message is the byte list of \<open>struct dhcps_msg\<close> with whatever follows it in its buffer.
\<close>

section \<open>State\<close>

record dhcps_lease =
  enable :: bool
  start_ip :: u32
  end_ip :: u32

record dhcps =
  server_address :: u32
  dns_server :: u32
  client_address :: u32
  client_address_plus :: u32
  broadcast_dhcps :: u32
  plist :: "list_node list"
  renew :: bool
  dhcps_poll :: dhcps_lease
  dhcps_lease_time :: u32
  dhcps_offer :: byte
  dhcps_dns :: byte
  pcb_dhcps :: bool              \<comment> \<open>the server has a UDP control block\<close>
  next_ptr :: nat                \<comment> \<open>where the next list node is allocated\<close>

definition DHCPS_LEASE_UNIT :: u32 where "DHCPS_LEASE_UNIT = 60"
definition DHCPS_COARSE_TIMER_SECS :: u32 where "DHCPS_COARSE_TIMER_SECS = 1"
definition DHCPS_MAX_LEASE :: u32 where "DHCPS_MAX_LEASE = 0x64"
definition DHCPS_LEASE_TIME_DEF :: u32 where "DHCPS_LEASE_TIME_DEF = 120"

definition dhcps_initial :: dhcps where
  \<comment> \<open>the static variables before the first start\<close>
  "dhcps_initial =
     \<lparr>server_address = 0, dns_server = 0, client_address = 0, client_address_plus = 0,
      broadcast_dhcps = 0, plist = [], renew = False,
      dhcps_poll = \<lparr>enable = False, start_ip = 0, end_ip = 0\<rparr>,
      dhcps_lease_time = DHCPS_LEASE_TIME_DEF, dhcps_offer = 0xFF, dhcps_dns = 0x00,
      pcb_dhcps = False, next_ptr = 1\<rparr>"

section \<open>Options of the server\<close>

definition IP_ADDRESS_LEASE_TIME :: byte where "IP_ADDRESS_LEASE_TIME = 51"
definition REQUESTED_IP_ADDRESS :: byte where "REQUESTED_IP_ADDRESS = 50"
definition ROUTER_SOLICITATION_ADDRESS :: byte where "ROUTER_SOLICITATION_ADDRESS = 32"
definition DOMAIN_NAME_SERVER :: byte where "DOMAIN_NAME_SERVER = 6"

text \<open>The variable a pointer of \<open>dhcps_option_info\<close> points to, and the value read or written there.\<close>

datatype opt_ref = RefLeaseTime | RefPoll | RefOffer | RefDns

datatype opt_value = OptTime u32 | OptPoll dhcps_lease | OptByte byte

definition dhcps_option_info :: "byte \<Rightarrow> u32 \<Rightarrow> opt_ref option" where
  "dhcps_option_info op_id opt_len =
     (if op_id = IP_ADDRESS_LEASE_TIME then (if opt_len = 4 then Some RefLeaseTime else None)
      else if op_id = REQUESTED_IP_ADDRESS then (if opt_len = 12 then Some RefPoll else None)
      else if op_id = ROUTER_SOLICITATION_ADDRESS then (if opt_len = 1 then Some RefOffer else None)
      else if op_id = DOMAIN_NAME_SERVER then (if opt_len = 1 then Some RefDns else None)
      else None)"

fun read_ref :: "opt_ref \<Rightarrow> dhcps \<Rightarrow> opt_value" where
  "read_ref RefLeaseTime s = OptTime (dhcps_lease_time s)"
| "read_ref RefPoll s = OptPoll (dhcps_poll s)"
| "read_ref RefOffer s = OptByte (dhcps_offer s)"
| "read_ref RefDns s = OptByte (dhcps_dns s)"

fun write_ref :: "opt_ref \<Rightarrow> opt_value \<Rightarrow> dhcps \<Rightarrow> dhcps" where
  "write_ref RefLeaseTime (OptTime t) s = s\<lparr>dhcps_lease_time := t\<rparr>"
| "write_ref RefPoll (OptPoll p) s = s\<lparr>dhcps_poll := p\<rparr>"
| "write_ref RefOffer (OptByte b) s = s\<lparr>dhcps_offer := b\<rparr>"
| "write_ref RefDns (OptByte b) s = s\<lparr>dhcps_dns := b\<rparr>"
| "write_ref _ _ s = s"

definition dhcps_set_option_info :: "byte \<Rightarrow> opt_value option \<Rightarrow> u32 \<Rightarrow> dhcps \<Rightarrow> dhcps" where
  "dhcps_set_option_info op_id opt_info opt_len s =
     (case opt_info of
        None \<Rightarrow> s
      | Some v \<Rightarrow>
          if op_id = IP_ADDRESS_LEASE_TIME then (if opt_len = 4 then write_ref RefLeaseTime v s else s)
          else if op_id = REQUESTED_IP_ADDRESS then (if opt_len = 12 then write_ref RefPoll v s else s)
          else if op_id = ROUTER_SOLICITATION_ADDRESS then
            (if opt_len = 1 then write_ref RefOffer v s else s)
          else if op_id = DOMAIN_NAME_SERVER then (if opt_len = 1 then write_ref RefDns v s else s)
          else s)"

definition OFFER_ROUTER :: byte where "OFFER_ROUTER = 1"
definition OFFER_DNS :: byte where "OFFER_DNS = 2"

definition dhcps_router_enabled :: "byte \<Rightarrow> bool" where
  "dhcps_router_enabled offer \<longleftrightarrow> offer AND OFFER_ROUTER \<noteq> 0"

definition dhcps_dns_enabled :: "byte \<Rightarrow> bool" where
  "dhcps_dns_enabled offer \<longleftrightarrow> offer AND OFFER_DNS \<noteq> 0"

definition dhcps_dns_setserver :: "u32 option \<Rightarrow> dhcps \<Rightarrow> dhcps" where
  "dhcps_dns_setserver d s =
     (case d of None \<Rightarrow> s\<lparr>dns_server := IPADDR_ANY\<rparr> | Some a \<Rightarrow> s\<lparr>dns_server := a\<rparr>)"

definition dhcps_dns_getserver :: "dhcps \<Rightarrow> u32" where
  "dhcps_dns_getserver s = dns_server s"

section \<open>Messages\<close>

definition DHCPS_MSG_SIZE :: nat where "DHCPS_MSG_SIZE = 548"   \<comment> \<open>\<open>sizeof(struct dhcps_msg)\<close>\<close>
definition off_yiaddr :: nat where "off_yiaddr = 16"
definition off_options :: nat where "off_options = 236"

definition field :: "byte list \<Rightarrow> nat \<Rightarrow> nat \<Rightarrow> byte list" where
  "field m off n = take n (drop off m)"

definition put :: "nat \<Rightarrow> byte list \<Rightarrow> byte list \<Rightarrow> byte list" where
  \<comment> \<open>bytes written into a message\<close>
  "put off bs m = take off m @ bs @ drop (off + length bs) m"

definition magic_cookie :: u32 where "magic_cookie = 0x63538263"

definition DHCPDISCOVER :: byte where "DHCPDISCOVER = 1"
definition DHCPOFFER :: byte where "DHCPOFFER = 2"
definition DHCPREQUEST :: byte where "DHCPREQUEST = 3"
definition DHCPDECLINE :: byte where "DHCPDECLINE = 4"
definition DHCPACK :: byte where "DHCPACK = 5"
definition DHCPNAK :: byte where "DHCPNAK = 6"
definition DHCPRELEASE :: byte where "DHCPRELEASE = 7"

lemmas message_types = DHCPDISCOVER_def DHCPOFFER_def DHCPREQUEST_def DHCPDECLINE_def DHCPACK_def
  DHCPNAK_def DHCPRELEASE_def

definition add_msg_type :: "byte \<Rightarrow> byte list" where
  "add_msg_type type = [53, 1, type]"

definition be_bytes :: "u32 \<Rightarrow> byte list" where
  "be_bytes x = [ucast (drop_bit 24 x AND 0xFF), ucast (drop_bit 16 x AND 0xFF),
                 ucast (drop_bit 8 x AND 0xFF), ucast (drop_bit 0 x AND 0xFF)]"

definition add_offer_options :: "u32 \<Rightarrow> dhcps \<Rightarrow> byte list" where
  \<comment> \<open>\<open>gw\<close> is the gateway that \<open>tcpip_adapter_get_ip_info\<close> gives for the access point\<close>
  "add_offer_options gw s =
     (let ipadd = server_address s in
      [1, 4, 255, 255, 255, 0] @
      [51, 4] @ be_bytes (dhcps_lease_time s * DHCPS_LEASE_UNIT) @
      [54, 4] @ le_bytes ipadd @
      (if dhcps_router_enabled (dhcps_offer s) \<and> gw \<noteq> 0 then [3, 4] @ le_bytes gw else []) @
      [6, 4] @ (if dhcps_dns_enabled (dhcps_dns s) then le_bytes (dns_server s) else le_bytes ipadd) @
      [28, 4, ip4_addr1 ipadd, ip4_addr2 ipadd, ip4_addr3 ipadd, 255] @
      [26, 2, 0x02, 0x40] @
      [31, 1, 0x00] @
      [43, 6, 0x01, 4, 0x00, 0x00, 0x00, 0x02])"

definition add_end :: "byte list" where
  "add_end = [255]"

definition create_msg :: "dhcps \<Rightarrow> byte list \<Rightarrow> byte list" where
  "create_msg s m =
     put off_options (le_bytes magic_cookie)
      (put off_options (replicate 312 0)          \<comment> \<open>options\<close>
      (put 108 (replicate 128 0)                  \<comment> \<open>file\<close>
      (put 44 (replicate 64 0)                    \<comment> \<open>sname\<close>
      (put 24 (replicate 4 0)                     \<comment> \<open>giaddr\<close>
      (put 20 (replicate 4 0)                     \<comment> \<open>siaddr\<close>
      (put 12 (replicate 4 0)                     \<comment> \<open>ciaddr\<close>
      (put off_yiaddr (le_bytes (client_address s))
      (put 8 [0, 0, 0x80, 0]                      \<comment> \<open>secs, flags in network order\<close>
      (put 0 [2, 1, 6, 0] m)))))))))"             \<comment> \<open>op, htype, hlen, hops\<close>

datatype udp_call =
    UdpNew
  | UdpRemove
  | UdpDisconnect
  | UdpBind u32 nat
  | UdpRecv
  | UdpSendto "byte list" u32 nat

definition DHCPS_SERVER_PORT :: nat where "DHCPS_SERVER_PORT = 67"
definition DHCPS_CLIENT_PORT :: nat where "DHCPS_CLIENT_PORT = 68"

definition dhcps_pbuf_len :: "nat \<Rightarrow> nat" where
  \<comment> \<open>the length \<open>dhcps_pbuf_alloc\<close> asks for\<close>
  "dhcps_pbuf_len len = (if DHCPS_MSG_SIZE < len then len else DHCPS_MSG_SIZE)"

definition send_msg :: "bool \<Rightarrow> dhcps \<Rightarrow> byte list \<Rightarrow> nat \<Rightarrow> udp_call list result" where
  \<comment> \<open>the common end of the three: one \<open>PBUF_RAM\<close> buffer, filled from the message\<close>
  "send_msg pbuf_ok s m len =
     (if \<not> pbuf_ok then Inr []
      else if length m < dhcps_pbuf_len len then Inl BufferOverflow
      else Inr [UdpSendto (take (dhcps_pbuf_len len) m) (broadcast_dhcps s) DHCPS_CLIENT_PORT])"

definition put_options :: "byte list \<Rightarrow> byte list \<Rightarrow> byte list result" where
  "put_options opts m =
     (if length m < off_options + 4 + length opts then Inl BufferOverflow
      else Inr (put (off_options + 4) opts m))"

definition send_offer :: "bool \<Rightarrow> u32 \<Rightarrow> dhcps \<Rightarrow> byte list \<Rightarrow> nat \<Rightarrow> udp_call list result" where
  "send_offer pbuf_ok gw s m len =
     bindE (put_options (add_msg_type DHCPOFFER @ add_offer_options gw s @ add_end) (create_msg s m))
       (\<lambda>m'. send_msg pbuf_ok s m' len)"

definition send_nak :: "bool \<Rightarrow> dhcps \<Rightarrow> byte list \<Rightarrow> nat \<Rightarrow> udp_call list result" where
  "send_nak pbuf_ok s m len =
     bindE (put_options (add_msg_type DHCPNAK @ add_end) (create_msg s m))
       (\<lambda>m'. send_msg pbuf_ok s m' len)"

definition send_ack :: "bool \<Rightarrow> u32 \<Rightarrow> dhcps \<Rightarrow> byte list \<Rightarrow> nat \<Rightarrow> udp_call list result" where
  "send_ack pbuf_ok gw s m len =
     bindE (put_options (add_msg_type DHCPACK @ add_offer_options gw s @ add_end) (create_msg s m))
       (\<lambda>m'. send_msg pbuf_ok s m' len)"

section \<open>Parsing a request\<close>

definition DHCPS_STATE_OFFER :: int where "DHCPS_STATE_OFFER = 1"
definition DHCPS_STATE_DECLINE :: int where "DHCPS_STATE_DECLINE = 2"
definition DHCPS_STATE_ACK :: int where "DHCPS_STATE_ACK = 3"
definition DHCPS_STATE_NAK :: int where "DHCPS_STATE_NAK = 4"
definition DHCPS_STATE_IDLE :: int where "DHCPS_STATE_IDLE = 5"
definition DHCPS_STATE_RELEASE :: int where "DHCPS_STATE_RELEASE = 6"

lemmas dhcps_states = DHCPS_STATE_OFFER_def DHCPS_STATE_DECLINE_def DHCPS_STATE_ACK_def
  DHCPS_STATE_NAK_def DHCPS_STATE_IDLE_def DHCPS_STATE_RELEASE_def

definition read_byte :: "byte list \<Rightarrow> nat \<Rightarrow> byte result" where
  "read_byte m i = (if i < length m then Inr (m ! i) else Inl BufferOverflow)"

definition read_field :: "byte list \<Rightarrow> nat \<Rightarrow> nat \<Rightarrow> byte list result" where
  "read_field m i n = (if i + n \<le> length m then Inr (field m i n) else Inl BufferOverflow)"

definition option_step :: "byte list \<Rightarrow> u32 \<Rightarrow> nat \<Rightarrow> byte \<times> int \<Rightarrow> (byte \<times> int) result" where
  \<comment> \<open>the \<open>switch\<close> of the loop of \<open>parse_options\<close>: the message type and the state so far\<close>
  "option_step m client p = (\<lambda>(type, st).
     bindE (read_byte m p) (\<lambda>b.
       if b = 53 then bindE (read_byte m (p + 2)) (\<lambda>t. Inr (t, st))
       else if b = 50 then
         bindE (read_field m (p + 2) 4) (\<lambda>a.
           Inr (type, if a = le_bytes client then DHCPS_STATE_ACK else DHCPS_STATE_NAK))
       else Inr (type, st)))"

function parse_loop :: "byte list \<Rightarrow> u32 \<Rightarrow> int \<Rightarrow> nat \<Rightarrow> byte \<times> int \<Rightarrow> (byte \<times> int) result" where
  \<comment> \<open>\<open>lim\<close> is the pointer \<open>end\<close>, which lies before the options when the length is negative\<close>
  "parse_loop m client lim p ts =
     (if int p < lim then
        bindE (option_step m client p ts) (\<lambda>ts'.
          if read_byte m p = Inr 255 then Inr ts'
          else bindE (read_byte m (p + 1)) (\<lambda>l. parse_loop m client lim (p + unat l + 2) ts'))
      else Inr ts)"
  by pat_completeness auto
termination
proof (relation "measure (\<lambda>(m, client, lim, p, ts). nat (lim - int p))")
  fix m :: "byte list" and client lim p ts l x
  assume "int p < lim"
  then show "((m, client, lim, p + unat (l :: byte) + 2, x), m, client, lim, p, ts) \<in>
      measure (\<lambda>(m, client, lim, p, ts). nat (lim - int p))"
    by simp (use uint_ge_0 [of l] in linarith)
qed simp

declare parse_loop.simps [simp del]

definition finish_parse :: "bool \<Rightarrow> byte \<times> int \<Rightarrow> int" where
  "finish_parse rn = (\<lambda>(type, st).
     if type = DHCPDISCOVER then DHCPS_STATE_OFFER
     else if type = DHCPREQUEST then
       (if \<not> (st = DHCPS_STATE_ACK \<or> st = DHCPS_STATE_NAK)
        then if rn then DHCPS_STATE_ACK else DHCPS_STATE_NAK else st)
     else if type = DHCPDECLINE then DHCPS_STATE_IDLE
     else if type = DHCPRELEASE then DHCPS_STATE_RELEASE
     else st)"

definition parse_options :: "dhcps \<Rightarrow> byte list \<Rightarrow> int \<Rightarrow> int result" where
  \<comment> \<open>\<open>len\<close> is the \<open>s16_t\<close> length; the options start at \<open>m->options[4]\<close>\<close>
  "parse_options s m len =
     bindE (parse_loop m (client_address s) (int (off_options + 4) + len) (off_options + 4)
              (0, DHCPS_STATE_IDLE))
       (\<lambda>ts. Inr (finish_parse (renew s) ts))"

section \<open>Choosing an address\<close>

definition lease_ticks :: "dhcps \<Rightarrow> u32" where
  "lease_ticks s = (dhcps_lease_time s * DHCPS_LEASE_UNIT) div DHCPS_COARSE_TIMER_SECS"

definition release_node :: "list_node option \<Rightarrow> dhcps \<Rightarrow> dhcps" where
  "release_node nd s =
     (case nd of None \<Rightarrow> s
      | Some n \<Rightarrow> s\<lparr>plist := node_remove_from_list (plist s) (n_ptr n)\<rparr>)"

definition pool_check ::
  "byte list \<Rightarrow> int \<Rightarrow> list_node option \<Rightarrow> dhcps \<Rightarrow> (int \<times> dhcps) result" where
  \<comment> \<open>from the label \<open>POOL_CHECK\<close> on, with the node found or inserted\<close>
  "pool_check m len nd s =
     (if end_ip (dhcps_poll s) < client_address s \<or> client_address s = 0
      then Inr (DHCPS_STATE_NAK, release_node nd s)
      else bindE (parse_options s m len) (\<lambda>ret.
        if ret = DHCPS_STATE_RELEASE then Inr (ret, (release_node nd s)\<lparr>client_address := 0\<rparr>)
        else Inr (ret, s)))"

definition new_lease :: "bool \<Rightarrow> byte list \<Rightarrow> dhcps \<Rightarrow> (list_node option \<times> dhcps) result" where
  \<comment> \<open>the address is chosen: allocate a lease for it, or find that the pool is used up\<close>
  "new_lease malloc_ok mac s =
     (if end_ip (dhcps_poll s) < client_address s then
        Inr (None, s\<lparr>client_address_plus := start_ip (dhcps_poll s)\<rparr>)
      else if \<not> malloc_ok then Inl NullDeref
      else
        let n = \<lparr>n_ptr = next_ptr s,
                 pnode = \<lparr>dp_ip = client_address s, dp_mac = mac, dp_lease_timer = lease_ticks s\<rparr>\<rparr>
        in Inr (Some n,
             s\<lparr>plist := node_insert_to_list (plist s) n, next_ptr := next_ptr s + 1,
               client_address_plus :=
                 (if client_address s = end_ip (dhcps_poll s) then start_ip (dhcps_poll s)
                  else next_addr (client_address s))\<rparr>))"

definition parse_msg :: "bool \<Rightarrow> byte list \<Rightarrow> int \<Rightarrow> dhcps \<Rightarrow> (int \<times> dhcps) result" where
  "parse_msg malloc_ok m len s =
     (if field m off_options 4 \<noteq> le_bytes magic_cookie then Inr (0, s)
      else
        let mac = field m 28 6;
            plus = client_address_plus s;
            start = start_ip (dhcps_poll s);
            (found, r) = search_leases mac (plist s)
              \<lparr>sr_plus = plus, sr_client = plus, sr_first = start, sr_flag = False\<rparr>;
            s1 = s\<lparr>renew := False, client_address_plus := sr_plus r\<rparr>
        in case found of
             Some n \<Rightarrow>
               pool_check m len (Some n)
                 (s1\<lparr>renew := (le_bytes (n_ip n) = field m 12 4), client_address := n_ip n,
                     plist := set_timer (n_ptr n) (lease_ticks s) (plist s)\<rparr>)
           | None \<Rightarrow>
               let client = (if plist s = [] then start else sr_client r);
                   client' = (if end_ip (dhcps_poll s) < sr_plus r then sr_first r else client)
               in bindE (new_lease malloc_ok mac (s1\<lparr>client_address := client'\<rparr>)) (\<lambda>(nd, s2).
                    pool_check m len nd s2))"

section \<open>Receiving a packet\<close>

record packet =
  pk_payload :: "byte list"                \<comment> \<open>the first buffer of the chain\<close>
  pk_next :: "byte list option"            \<comment> \<open>the second\<close>
  pk_tot_len :: u16

record mem_ok =
  msg_ok :: bool           \<comment> \<open>\<open>mem_malloc\<close> of the message\<close>
  lease_ok :: bool         \<comment> \<open>\<open>mem_malloc\<close> of the lease and of its list node\<close>
  pbuf_ok :: bool          \<comment> \<open>\<open>pbuf_alloc\<close> of the answer\<close>

definition s16_of :: "u16 \<Rightarrow> int" where
  "s16_of x = sint x"

definition copy_packet :: "packet \<Rightarrow> nat \<Rightarrow> byte list result" where
  "copy_packet p n =
     (let data = pk_payload p @ (case pk_next p of None \<Rightarrow> [] | Some d \<Rightarrow> d) in
      if n < length data then Inl BufferOverflow else Inr (data @ replicate (n - length data) 0))"

definition handle_dhcp ::
  "mem_ok \<Rightarrow> u32 \<Rightarrow> packet option \<Rightarrow> dhcps \<Rightarrow> (udp_call list \<times> dhcps) result" where
  "handle_dhcp ok gw p s =
     (case p of
        None \<Rightarrow> Inr ([], s)
      | Some p \<Rightarrow>
          let malloc_len = (if int DHCPS_MSG_SIZE < uint (pk_tot_len p) then s16_of (pk_tot_len p)
                            else int DHCPS_MSG_SIZE);
              tlen = s16_of (pk_tot_len p);
              len = sint (word_of_int (tlen - 240) :: u16)
          in if \<not> msg_ok ok \<or> malloc_len < 0 then Inr ([], s)
             else bindE (copy_packet p (nat malloc_len)) (\<lambda>m.
               bindE (parse_msg (lease_ok ok) m len s) (\<lambda>(ret, s').
                 bindE (if ret = DHCPS_STATE_OFFER then send_offer (pbuf_ok ok) gw s' m (nat malloc_len)
                        else if ret = DHCPS_STATE_ACK then send_ack (pbuf_ok ok) gw s' m (nat malloc_len)
                        else if ret = DHCPS_STATE_NAK then send_nak (pbuf_ok ok) s' m (nat malloc_len)
                        else Inr []) (\<lambda>out. Inr (out, s')))))"

section \<open>The address pool\<close>

definition poll_invalid :: "u32 \<Rightarrow> dhcps_lease \<Rightarrow> bool" where
  \<comment> \<open>the two reasons for which a configured pool is given up\<close>
  "poll_invalid ip p \<longleftrightarrow>
     (let softap_ip = lwip_htonl ip; start = lwip_htonl (start_ip p); stop = lwip_htonl (end_ip p)
      in (start \<le> softap_ip \<and> softap_ip \<le> stop) \<or>
         (drop_bit 8 start \<noteq> drop_bit 8 softap_ip \<or> drop_bit 8 stop \<noteq> drop_bit 8 softap_ip) \<or>
         DHCPS_MAX_LEASE < stop - start)"

definition default_pool :: "u32 \<Rightarrow> dhcps_lease" where
  "default_pool ip =
     (let softap_ip = lwip_htonl ip AND 0xFFFFFF00;
          local_ip = lwip_htonl ip AND 0xFF;
          local_ip' = (if 0x80 \<le> local_ip then local_ip - DHCPS_MAX_LEASE else local_ip + 1)
      in \<lparr>enable = False,
          start_ip = lwip_htonl (softap_ip OR local_ip'),
          end_ip = lwip_htonl (softap_ip OR (local_ip' + DHCPS_MAX_LEASE - 1))\<rparr>)"

definition dhcps_poll_set :: "u32 \<Rightarrow> dhcps_lease \<Rightarrow> dhcps_lease" where
  "dhcps_poll_set ip p = (if enable p \<and> \<not> poll_invalid ip p then p else default_pool ip)"

section \<open>Starting and stopping\<close>

definition dhcps_start ::
  "bool \<Rightarrow> bool \<Rightarrow> u32 \<Rightarrow> u32 \<Rightarrow> dhcps \<Rightarrow> (udp_call list \<times> dhcps) result" where
  \<comment> \<open>whether \<open>udp_new\<close> succeeds and the interface has a control block; the interface's address and
     the server's. Without a control block the message is printed and the code goes on, to write the
     callback into a null pointer\<close>
  "dhcps_start new_ok had_pcb netif_ip ip s =
     (let poll = dhcps_poll_set ip (dhcps_poll s);
          s' = s\<lparr>broadcast_dhcps := IP4_ADDR 255 255 255 255, server_address := ip,
                 dhcps_poll := poll, client_address_plus := start_ip poll, pcb_dhcps := new_ok\<rparr>
      in if \<not> new_ok then Inl NullDeref
         else Inr ((if had_pcb then [UdpRemove] else []) @
                   [UdpNew, UdpBind netif_ip DHCPS_SERVER_PORT, UdpRecv], s'))"

fun stop_loop :: "nat \<Rightarrow> list_node list \<Rightarrow> list_node list" where
  \<comment> \<open>take off the head, as often as there are nodes\<close>
  "stop_loop 0 l = l"
| "stop_loop (Suc n) l = (case l of [] \<Rightarrow> [] | h # _ \<Rightarrow> stop_loop n (node_remove_from_list l (n_ptr h)))"

definition dhcps_stop :: "bool option \<Rightarrow> dhcps \<Rightarrow> udp_call list \<times> bool option \<times> dhcps" where
  \<comment> \<open>the interface: none, or whether it has a control block\<close>
  "dhcps_stop netif s =
     (case netif of
        None \<Rightarrow> ([], None, s)
      | Some pcb \<Rightarrow>
          ((if pcb then [UdpDisconnect, UdpRemove] else []), Some False,
           s\<lparr>plist := stop_loop (length (plist s)) (plist s)\<rparr>))"

end
