(* ===== verification/Dhcp_Choice.thy ===== *)
theory Dhcp_Choice
  imports Dhcp_Server
begin

text \<open>
  Which address the DHCP server gives to a new client. The search of \<open>parse_msg\<close> is a fold along the
  sorted list; its two candidates are the first free address from the running pointer on and the
  first free address of the pool, and the server's choice is correct when the pool lies in one /24
  network and does not end in 255.
\<close>

section \<open>The search as a fold\<close>

definition search_run :: "list_node list \<Rightarrow> search \<Rightarrow> search" where
  "search_run l s = foldl (\<lambda>s n. search_first (n_ip n) (search_plus (n_ip n) s)) s l"

lemma search_found:
  "search_leases mac l s = (Some n, r) \<Longrightarrow>
    \<exists>pre post. l = pre @ n # post \<and> n_mac n = mac \<and> mac \<notin> n_mac ` set pre \<and> r = search_run pre s"
proof (induction mac l s rule: search_leases.induct)
  case (1 mac s)
  then show ?case by simp
next
  case (2 mac q qs s)
  show ?case
  proof (cases "n_mac q = mac")
    case True
    with "2.prems" show ?thesis
      by (intro exI [of _ "[]"] exI [of _ qs]) (simp add: search_run_def)
  next
    case False
    with 2 obtain pre post where "qs = pre @ n # post" "n_mac n = mac" "mac \<notin> n_mac ` set pre"
      "r = search_run pre (search_first (n_ip q) (search_plus (n_ip q) s))" by auto
    with False show ?thesis
      by (intro exI [of _ "q # pre"] exI [of _ post]) (auto simp: search_run_def)
  qed
qed

lemma search_new:
  "search_leases mac l s = (None, r) \<Longrightarrow> mac \<notin> n_mac ` set l \<and> r = search_run l s"
  by (induction mac l s rule: search_leases.induct) (auto simp: search_run_def split: if_splits)

lemma search_new_iff: "fst (search_leases mac l s) = None \<longleftrightarrow> mac \<notin> n_mac ` set l"
  by (induction mac l s rule: search_leases.induct) auto

definition plus_run :: "u32 list \<Rightarrow> u32 \<Rightarrow> u32" where
  "plus_run ips p = foldl (\<lambda>p a. if a = p then next_addr p else p) p ips"

definition first_run :: "u32 list \<Rightarrow> u32 \<times> bool \<Rightarrow> u32 \<times> bool" where
  "first_run ips fb =
     foldl (\<lambda>(f, b) a. if b then (f, b) else if f < a then (f, True) else (next_addr f, b)) fb ips"

lemma search_run_plus: "sr_plus (search_run l s) = plus_run (map n_ip l) (sr_plus s)"
  by (induction l arbitrary: s)
    (simp_all add: search_run_def plus_run_def search_plus_def search_first_def)

lemma search_run_client:
  "sr_client s = sr_plus s \<Longrightarrow> sr_client (search_run l s) = sr_plus (search_run l s)"
  by (induction l arbitrary: s) (simp_all add: search_run_def search_plus_def search_first_def)

lemma search_run_first:
  "(sr_first (search_run l s), sr_flag (search_run l s)) =
    first_run (map n_ip l) (sr_first s, sr_flag s)"
  by (induction l arbitrary: s)
    (simp_all add: search_run_def first_run_def search_plus_def search_first_def)

section \<open>The first free address\<close>

definition one_net :: "u32 \<Rightarrow> u32 list \<Rightarrow> bool" where
  "one_net net ips \<longleftrightarrow> (\<forall>a \<in> set ips. net24 a = net \<and> host24 a < 255)"

definition free_from :: "u32 \<Rightarrow> u32 list \<Rightarrow> u32 \<Rightarrow> bool" where
  \<comment> \<open>the first address from \<open>p\<close> on, in its network, that is not in the list\<close>
  "free_from p ips r \<longleftrightarrow> net24 r = net24 p \<and> host24 p \<le> host24 r \<and> r \<notin> set ips \<and>
     (\<forall>h. host24 p \<le> h \<and> h < host24 r \<longrightarrow> h \<in> host24 ` set ips)"

lemma free_from_le:
  assumes "free_from p ips r" "net24 a = net24 p" "host24 p \<le> host24 a" "a \<notin> set ips"
    "one_net (net24 p) ips"
  shows "host24 r \<le> host24 a"
proof (rule ccontr)
  assume "\<not> ?thesis"
  with assms(1,3) obtain b where b: "b \<in> set ips" "host24 b = host24 a"
    unfolding free_from_def by (metis imageE not_le)
  then have "net24 b = net24 a" using assms(2,5) by (auto simp: one_net_def)
  with b assms(4) show False by (metis addr_eq_iff24)
qed

lemma plus_run_free:
  assumes "sorted_wrt (<) ips" "one_net (net24 p) ips"
  shows "free_from p ips (plus_run ips p)"
  using assms
proof (induction ips arbitrary: p)
  case Nil
  then show ?case by (simp add: plus_run_def free_from_def)
next
  case (Cons a ips)
  have net: "net24 a = net24 p" "host24 a < 255" "one_net (net24 p) ips"
    using Cons.prems(2) by (auto simp: one_net_def)
  show ?case
  proof (cases "a = p")
    case True
    then have nx: "net24 (next_addr p) = net24 p" "host24 (next_addr p) = Suc (host24 p)"
      using next_addr24 net(2) by auto
    have "free_from (next_addr p) ips (plus_run ips (next_addr p))"
      using Cons.IH [of "next_addr p"] Cons.prems(1) net(3) nx by simp
    then have f: "net24 (plus_run ips (next_addr p)) = net24 p"
      "Suc (host24 p) \<le> host24 (plus_run ips (next_addr p))" "plus_run ips (next_addr p) \<notin> set ips"
      "\<And>h. Suc (host24 p) \<le> h \<Longrightarrow> h < host24 (plus_run ips (next_addr p)) \<Longrightarrow> h \<in> host24 ` set ips"
      unfolding free_from_def nx by auto
    have "h \<in> host24 ` set (a # ips)" if "host24 p \<le> h" "h < host24 (plus_run ips (next_addr p))" for h
      using that f(4) [of h] True by (cases "h = host24 p") auto
    moreover have "plus_run (a # ips) p = plus_run ips (next_addr p)" using True by (simp add: plus_run_def)
    ultimately show ?thesis using f True by (auto simp: free_from_def)
  next
    case False
    then have run: "plus_run (a # ips) p = plus_run ips p" by (simp add: plus_run_def)
    have f: "free_from p ips (plus_run ips p)" using Cons.IH [of p] Cons.prems(1) net(3) by simp
    have "plus_run ips p \<noteq> a"
    proof
      assume r: "plus_run ips p = a"
      with f False net(1) have "host24 p < host24 a"
        unfolding free_from_def by (metis addr_eq_iff24 le_neq_implies_less)
      with f r obtain b where b: "b \<in> set ips" "host24 b = host24 p" unfolding free_from_def by fastforce
      then have "a < b" "net24 b = net24 a" using Cons.prems(1) net by (auto simp: one_net_def)
      then show False using addr_less_iff24 b(2) \<open>host24 p < host24 a\<close> by fastforce
    qed
    with f run show ?thesis by (auto simp: free_from_def)
  qed
qed

lemma first_run_done [simp]: "first_run ips (f, True) = (f, True)"
  by (induction ips) (simp_all add: first_run_def)

lemma first_run_free:
  assumes "sorted_wrt (<) ips" "one_net (net24 f) ips" "\<forall>a \<in> set ips. f \<le> a"
  shows "free_from f ips (fst (first_run ips (f, False)))"
  using assms
proof (induction ips arbitrary: f)
  case Nil
  then show ?case by (simp add: first_run_def free_from_def)
next
  case (Cons a ips)
  have net: "net24 a = net24 f" "host24 a < 255" "one_net (net24 f) ips"
    using Cons.prems(2) by (auto simp: one_net_def)
  show ?case
  proof (cases "f < a")
    case True
    then have "first_run (a # ips) (f, False) = first_run ips (f, True)" by (simp add: first_run_def)
    then have "fst (first_run (a # ips) (f, False)) = f" by simp
    with True Cons.prems(1) show ?thesis by (auto simp: free_from_def)
  next
    case False
    then have af: "a = f" using Cons.prems(3) by auto
    then have nx: "net24 (next_addr f) = net24 f" "host24 (next_addr f) = Suc (host24 f)"
      using next_addr24 net(2) by auto
    have run: "first_run (a # ips) (f, False) = first_run ips (next_addr f, False)"
      using False by (simp add: first_run_def)
    let ?r = "fst (first_run ips (next_addr f, False))"
    have "next_addr f \<le> b" if "b \<in> set ips" for b
    proof -
      have "a < b" "net24 b = net24 f" using that Cons.prems(1) net(3) by (auto simp: one_net_def)
      then show ?thesis using af nx by (simp add: addr_le_iff24 addr_less_iff24)
    qed
    then have "free_from (next_addr f) ips ?r"
      using Cons.IH [of "next_addr f"] Cons.prems(1) net(3) nx by simp
    then have r: "net24 ?r = net24 f" "Suc (host24 f) \<le> host24 ?r" "?r \<notin> set ips"
      "\<And>h. Suc (host24 f) \<le> h \<Longrightarrow> h < host24 ?r \<Longrightarrow> h \<in> host24 ` set ips"
      unfolding free_from_def nx by auto
    have "h \<in> host24 ` set (a # ips)" if "host24 f \<le> h" "h < host24 ?r" for h
      using that r(4) [of h] af by (cases "h = host24 f") auto
    with r af show ?thesis unfolding run by (auto simp: free_from_def)
  qed
qed

section \<open>The pool and the invariant of the server\<close>

definition in_pool :: "dhcps_lease \<Rightarrow> u32 \<Rightarrow> bool" where
  "in_pool p a \<longleftrightarrow> net24 a = net24 (start_ip p) \<and>
     host24 (start_ip p) \<le> host24 a \<and> host24 a \<le> host24 (end_ip p)"

definition pool_ok :: "dhcps_lease \<Rightarrow> bool" where
  "pool_ok p \<longleftrightarrow> net24 (end_ip p) = net24 (start_ip p) \<and>
     host24 (start_ip p) \<le> host24 (end_ip p) \<and> host24 (end_ip p) < 255 \<and> start_ip p \<noteq> 0"

definition dhcps_inv :: "dhcps \<Rightarrow> bool" where
  "dhcps_inv s \<longleftrightarrow> pool_ok (dhcps_poll s) \<and> lease_inv (plist s) \<and>
     (\<forall>n \<in> set (plist s). in_pool (dhcps_poll s) (n_ip n) \<and> n_ptr n < next_ptr s) \<and>
     in_pool (dhcps_poll s) (client_address_plus s)"

lemma in_pool_nonzero: "pool_ok p \<Longrightarrow> in_pool p a \<Longrightarrow> a \<noteq> 0"
proof
  assume p: "pool_ok p" "in_pool p a" and a: "a = 0"
  have z: "net24 (0 :: u32) = 0" "host24 0 = 0" by (simp_all add: net24_def host24_def)
  with p(2) a have "net24 (start_ip p) = 0" "host24 (start_ip p) = 0" by (auto simp: in_pool_def)
  with z p(1) show False by (metis addr_eq_iff24 pool_ok_def)
qed

lemma in_pool_end: "pool_ok p \<Longrightarrow> in_pool p a \<Longrightarrow> a \<le> end_ip p"
  by (simp add: pool_ok_def in_pool_def addr_le_iff24)

lemma in_pool_iff:
  "pool_ok p \<Longrightarrow> net24 a = net24 (start_ip p) \<Longrightarrow> host24 (start_ip p) \<le> host24 a \<Longrightarrow>
    in_pool p a \<longleftrightarrow> a \<le> end_ip p"
  by (simp add: pool_ok_def in_pool_def addr_le_iff24)

lemma in_pool_next:
  assumes "pool_ok p" "in_pool p a" "a \<noteq> end_ip p"
  shows "in_pool p (next_addr a)"
proof -
  have "host24 a < 255" using assms(1,2) by (auto simp: pool_ok_def in_pool_def)
  moreover have "host24 a \<noteq> host24 (end_ip p)"
    using assms addr_eq_iff24 [of a "end_ip p"] by (auto simp: pool_ok_def in_pool_def)
  ultimately show ?thesis using assms next_addr24 [of a] by (auto simp: pool_ok_def in_pool_def)
qed

lemma inv_ips:
  assumes "dhcps_inv s"
  shows "sorted_wrt (<) (map n_ip (plist s))" "one_net (net24 (start_ip (dhcps_poll s))) (map n_ip (plist s))"
    "\<forall>a \<in> set (map n_ip (plist s)). start_ip (dhcps_poll s) \<le> a"
proof -
  let ?p = "dhcps_poll s"
  show "sorted_wrt (<) (map n_ip (plist s))"
    using assms unfolding dhcps_inv_def lease_inv_def sorted_wrt_map by blast
  have in_p: "in_pool ?p (n_ip n)" if "n \<in> set (plist s)" for n
    using assms that by (simp add: dhcps_inv_def)
  have last: "host24 (end_ip ?p) < 255" using assms by (simp add: dhcps_inv_def pool_ok_def)
  have "net24 (n_ip n) = net24 (start_ip ?p) \<and> host24 (n_ip n) < 255" if "n \<in> set (plist s)" for n
    using in_p [OF that] last by (simp add: in_pool_def)
  then show "one_net (net24 (start_ip ?p)) (map n_ip (plist s))" by (simp add: one_net_def)
  have "start_ip ?p \<le> n_ip n" if "n \<in> set (plist s)" for n
    using in_p [OF that] addr_le_iff24 [of "start_ip ?p" "n_ip n"] by (simp add: in_pool_def)
  then show "\<forall>a \<in> set (map n_ip (plist s)). start_ip ?p \<le> a" by simp
qed

definition chosen :: "dhcps \<Rightarrow> search \<Rightarrow> u32" where
  \<comment> \<open>\<open>client_address\<close> after the search, for a client without a lease\<close>
  "chosen s r =
     (if end_ip (dhcps_poll s) < sr_plus r then sr_first r
      else if plist s = [] then start_ip (dhcps_poll s) else sr_client r)"

definition start_search :: "dhcps \<Rightarrow> search" where
  "start_search s =
     \<lparr>sr_plus = client_address_plus s, sr_client = client_address_plus s,
      sr_first = start_ip (dhcps_poll s), sr_flag = False\<rparr>"

definition leased :: "dhcps \<Rightarrow> u32 set" where
  "leased s = n_ip ` set (plist s)"

lemma chosen_address:
  assumes inv: "dhcps_inv s" and r: "r = search_run (plist s) (start_search s)"
  shows "if \<exists>a. in_pool (dhcps_poll s) a \<and> a \<notin> leased s
    then in_pool (dhcps_poll s) (chosen s r) \<and> chosen s r \<notin> leased s
    else end_ip (dhcps_poll s) < chosen s r"
proof -
  let ?p = "dhcps_poll s" and ?ips = "map n_ip (plist s)"
  have p: "pool_ok ?p" and plus: "in_pool ?p (client_address_plus s)" using inv by (auto simp: dhcps_inv_def)
  note ips = inv_ips [OF inv]
  have fp: "free_from (client_address_plus s) ?ips (sr_plus r)"
    using plus_run_free [OF ips(1), of "client_address_plus s"] ips(2) plus
    by (simp add: r search_run_plus start_search_def in_pool_def)
  have ff: "free_from (start_ip ?p) ?ips (sr_first r)"
    using first_run_free [OF ips] search_run_first [of "plist s" "start_search s"]
    by (simp add: r start_search_def) (metis fst_conv)
  have client: "sr_client r = sr_plus r"
    unfolding r by (rule search_run_client) (simp add: start_search_def)
  have l: "leased s = set ?ips" by (simp add: leased_def)
  show ?thesis
  proof (cases "\<exists>a. in_pool ?p a \<and> a \<notin> leased s")
    case True
    then obtain a where a: "in_pool ?p a" "a \<notin> set ?ips" unfolding l by blast
    have "host24 (sr_first r) \<le> host24 a"
      by (rule free_from_le [OF ff]) (use a ips(2) in \<open>auto simp: in_pool_def\<close>)
    then have first: "in_pool ?p (sr_first r)" using a(1) ff by (auto simp: in_pool_def free_from_def)
    have "in_pool ?p (sr_plus r)" if "\<not> end_ip ?p < sr_plus r"
      using that fp plus p by (subst in_pool_iff) (auto simp: in_pool_def free_from_def)
    then have "in_pool ?p (chosen s r) \<and> chosen s r \<notin> leased s"
      using first ff fp client p unfolding l chosen_def
      by (auto simp: free_from_def in_pool_def pool_ok_def)
    with True show ?thesis by simp
  next
    case False
    then have all: "\<And>a. in_pool ?p a \<Longrightarrow> a \<in> set ?ips" unfolding l by blast
    have ne: "plist s \<noteq> []" using all [OF plus] by auto
    have "\<not> in_pool ?p (sr_plus r)" "\<not> in_pool ?p (sr_first r)"
      using all fp ff by (auto simp: free_from_def)
    then have "end_ip ?p < sr_plus r" "end_ip ?p < sr_first r"
      using in_pool_iff [OF p, of "sr_plus r"] in_pool_iff [OF p, of "sr_first r"] fp ff plus
      by (auto simp: free_from_def in_pool_def)
    then have "end_ip ?p < chosen s r" by (simp add: chosen_def)
    then show ?thesis unfolding if_not_P [OF False] .
  qed
qed

end
