(* ===== verification/Dhcp_Lease_Proofs.thy ===== *)
theory Dhcp_Lease_Proofs
  imports Dhcp_Choice
begin

text \<open>
  What one message does to the leases: the invariant of the server is kept, no other client's lease
  changes, and the client that sent the message keeps its address, gets a free one, or learns that
  there is none.
\<close>

definition has_lease :: "dhcps \<Rightarrow> byte list \<Rightarrow> u32 \<Rightarrow> bool" where
  "has_lease s mac ip \<longleftrightarrow> (\<exists>n \<in> set (plist s). n_mac n = mac \<and> n_ip n = ip)"

lemma has_lease_holds: "has_lease s mac ip \<longleftrightarrow> leases.holds (plist s) mac ip"
  by (simp add: has_lease_def leases.holds_def)

lemma has_lease_mac: "(\<exists>ip. has_lease s mac ip) \<longleftrightarrow> mac \<in> n_mac ` set (plist s)"
  unfolding has_lease_def image_iff by metis

definition same_leases :: "dhcps \<Rightarrow> dhcps \<Rightarrow> bool" where
  "same_leases s s' \<longleftrightarrow> (\<forall>mac ip. has_lease s' mac ip \<longleftrightarrow> has_lease s mac ip)"

section \<open>Renewing and releasing\<close>

lemma set_timer_lease_inv: "lease_inv (set_timer d t l) = lease_inv l"
  by (simp add: lease_inv_def set_timer_def sorted_wrt_map comp_def)

lemma set_timer_has: "(\<exists>n \<in> set (set_timer d t l). n_mac n = mac \<and> n_ip n = ip) \<longleftrightarrow>
    (\<exists>n \<in> set l. n_mac n = mac \<and> n_ip n = ip)"
  by (simp add: set_timer_def)

lemma set_timer_all: "(\<forall>n \<in> set (set_timer d t l). in_pool p (n_ip n) \<and> n_ptr n < k) \<longleftrightarrow>
    (\<forall>n \<in> set l. in_pool p (n_ip n) \<and> n_ptr n < k)"
  by (simp add: set_timer_def)

lemma release_node_inv:
  assumes "dhcps_inv s"
  shows "dhcps_inv (release_node nd s)"
  using assms leases.rem_ok [of "plist s"]
  by (cases nd) (auto simp: release_node_def dhcps_inv_def)

lemma release_node_has:
  assumes "dhcps_inv s" "n \<in> set (plist s)"
  shows "has_lease (release_node (Some n) s) mac ip \<longleftrightarrow> has_lease s mac ip \<and> mac \<noteq> n_mac n"
  using leases.rem_holds [of "plist s" n mac ip] assms
  by (simp add: has_lease_holds release_node_def dhcps_inv_def)

lemma dhcps_inv_frame [simp]:
  "dhcps_inv (s\<lparr>client_address := a\<rparr>) = dhcps_inv s"
  "dhcps_inv (s\<lparr>renew := b\<rparr>) = dhcps_inv s"
  by (simp_all add: dhcps_inv_def)

lemma has_lease_frame [simp]:
  "has_lease (s\<lparr>client_address := a\<rparr>) = has_lease s"
  "has_lease (s\<lparr>renew := b\<rparr>) = has_lease s"
  "has_lease (s\<lparr>client_address_plus := p\<rparr>) = has_lease s"
  by (simp_all add: has_lease_def fun_eq_iff)

section \<open>A client that has a lease\<close>

definition found_state :: "byte list \<Rightarrow> list_node \<Rightarrow> search \<Rightarrow> dhcps \<Rightarrow> dhcps" where
  "found_state m n r s =
     s\<lparr>client_address_plus := sr_plus r, renew := (le_bytes (n_ip n) = field m 12 4),
       client_address := n_ip n, plist := set_timer (n_ptr n) (lease_ticks s) (plist s)\<rparr>"

lemma plus_stays_in_pool:
  assumes inv: "dhcps_inv s" and l: "plist s = pre @ n # post"
  shows "in_pool (dhcps_poll s) (sr_plus (search_run pre (start_search s)))"
proof -
  let ?p = "dhcps_poll s" and ?r = "sr_plus (search_run pre (start_search s))"
  let ?ips = "map n_ip pre"
  have plus: "in_pool ?p (client_address_plus s)" and p: "pool_ok ?p" using inv by (auto simp: dhcps_inv_def)
  note ips = inv_ips [OF inv]
  have pre: "sorted_wrt (<) ?ips" "one_net (net24 (client_address_plus s)) ?ips"
    using ips(1,2) plus by (auto simp: l sorted_wrt_append one_net_def in_pool_def)
  have f: "free_from (client_address_plus s) ?ips ?r"
    using plus_run_free [OF pre] by (simp add: search_run_plus start_search_def)
  have n: "in_pool ?p (n_ip n)" using inv l by (simp add: dhcps_inv_def)
  have less: "a < n_ip n" if "a \<in> set ?ips" for a
    using ips(1) that by (auto simp: l sorted_wrt_append)
  have "host24 ?r \<le> host24 (end_ip ?p)"
  proof (rule ccontr)
    assume "\<not> ?thesis"
    then have "host24 (end_ip ?p) \<in> host24 ` set ?ips"
      using f plus by (auto simp: free_from_def in_pool_def)
    then obtain a where a: "a \<in> set ?ips" "host24 a = host24 (end_ip ?p)" by (metis imageE)
    have "net24 a = net24 (n_ip n)" using pre(2) a(1) n plus by (auto simp: one_net_def in_pool_def)
    with less [OF a(1)] have "host24 a < host24 (n_ip n)" using addr_less_iff24 by blast
    with a(2) n show False by (auto simp: in_pool_def)
  qed
  with f plus show ?thesis by (auto simp: free_from_def in_pool_def)
qed

lemma found_state_inv:
  assumes inv: "dhcps_inv s" and f: "search_leases mac (plist s) (start_search s) = (Some n, r)"
  shows "dhcps_inv (found_state m n r s)" "same_leases s (found_state m n r s)"
    "in_pool (dhcps_poll s) (n_ip n)" "n_mac n = mac" "has_lease s mac (n_ip n)"
proof -
  from search_found [OF f] obtain pre post where
    l: "plist s = pre @ n # post" "n_mac n = mac" "r = search_run pre (start_search s)" by blast
  have n: "n \<in> set (plist s)" using l by simp
  have "in_pool (dhcps_poll s) (sr_plus r)" using plus_stays_in_pool [OF inv l(1)] l(3) by simp
  then show "dhcps_inv (found_state m n r s)"
    using inv by (simp add: dhcps_inv_def found_state_def set_timer_lease_inv set_timer_all)
  show "same_leases s (found_state m n r s)"
    by (simp add: same_leases_def has_lease_def found_state_def set_timer_has)
  show "in_pool (dhcps_poll s) (n_ip n)" using inv n by (simp add: dhcps_inv_def)
  show "n_mac n = mac" by (rule l(2))
  then show "has_lease s mac (n_ip n)" using n by (auto simp: has_lease_def)
qed

section \<open>A new client\<close>

definition chosen_state :: "search \<Rightarrow> dhcps \<Rightarrow> dhcps" where
  "chosen_state r s =
     s\<lparr>renew := False, client_address_plus := sr_plus r, client_address := chosen s r\<rparr>"

lemma chosen_state_simps [simp]:
  "plist (chosen_state r s) = plist s" "dhcps_poll (chosen_state r s) = dhcps_poll s"
  "client_address (chosen_state r s) = chosen s r" "next_ptr (chosen_state r s) = next_ptr s"
  "lease_ticks (chosen_state r s) = lease_ticks s" "dhcps_lease_time (chosen_state r s) = dhcps_lease_time s"
  by (simp_all add: chosen_state_def lease_ticks_def)

definition pool_free :: "dhcps \<Rightarrow> bool" where
  "pool_free s \<longleftrightarrow> (\<exists>a. in_pool (dhcps_poll s) a \<and> a \<notin> leased s)"

lemma new_lease_full:
  assumes inv: "dhcps_inv s" and new: "search_leases mac (plist s) (start_search s) = (None, r)"
    and full: "\<not> pool_free s"
  shows "new_lease ok mac (chosen_state r s) =
      Inr (None, (chosen_state r s)\<lparr>client_address_plus := start_ip (dhcps_poll s)\<rparr>)"
    "dhcps_inv ((chosen_state r s)\<lparr>client_address_plus := start_ip (dhcps_poll s)\<rparr>)"
    "end_ip (dhcps_poll s) < chosen s r"
proof -
  have r: "r = search_run (plist s) (start_search s)" using search_new [OF new] by blast
  show e: "end_ip (dhcps_poll s) < chosen s r"
    using chosen_address [OF inv r] unfolding if_not_P [OF full [unfolded pool_free_def]] .
  then show "new_lease ok mac (chosen_state r s) =
      Inr (None, (chosen_state r s)\<lparr>client_address_plus := start_ip (dhcps_poll s)\<rparr>)"
    by (simp add: new_lease_def)
  show "dhcps_inv ((chosen_state r s)\<lparr>client_address_plus := start_ip (dhcps_poll s)\<rparr>)"
    using inv by (auto simp: dhcps_inv_def in_pool_def pool_ok_def)
qed

lemma new_lease_given:
  assumes inv: "dhcps_inv s" and new: "search_leases mac (plist s) (start_search s) = (None, r)"
    and free: "pool_free s"
  shows "\<exists>n s2. new_lease True mac (chosen_state r s) = Inr (Some n, s2) \<and> dhcps_inv s2 \<and>
    n \<in> set (plist s2) \<and> n_mac n = mac \<and> n_ip n = chosen s r \<and> client_address s2 = chosen s r \<and>
    in_pool (dhcps_poll s) (chosen s r) \<and> chosen s r \<notin> leased s \<and> dhcps_poll s2 = dhcps_poll s \<and>
    (\<forall>mac' ip. has_lease s2 mac' ip \<longleftrightarrow> (mac' = mac \<and> ip = chosen s r) \<or> has_lease s mac' ip)"
proof -
  have r: "r = search_run (plist s) (start_search s)" and mac: "mac \<notin> n_mac ` set (plist s)"
    using search_new [OF new] by blast+
  have c: "in_pool (dhcps_poll s) (chosen s r)" "chosen s r \<notin> leased s"
    using chosen_address [OF inv r] unfolding if_P [OF free [unfolded pool_free_def]] by blast+
  have p: "pool_ok (dhcps_poll s)" using inv by (simp add: dhcps_inv_def)
  have ne: "\<not> end_ip (dhcps_poll s) < chosen s r" using in_pool_end [OF p c(1)] by simp
  define n where "n = \<lparr>n_ptr = next_ptr s, pnode = \<lparr>dp_ip = chosen s r, dp_mac = mac,
      dp_lease_timer = lease_ticks s\<rparr>\<rparr>"
  have fresh: "\<forall>n' \<in> set (plist s). n_ip n \<noteq> n_ip n' \<and> n_mac n \<noteq> n_mac n' \<and> n_ptr n \<noteq> n_ptr n'"
    using c(2) mac inv by (auto simp: n_def leased_def dhcps_inv_def)
  have li: "lease_inv (plist s)" using inv by (simp add: dhcps_inv_def)
  note ins = leases.ins_ok [OF li fresh]
  let ?plus = "if chosen s r = end_ip (dhcps_poll s) then start_ip (dhcps_poll s) else next_addr (chosen s r)"
  define s2 where "s2 = (chosen_state r s)\<lparr>plist := node_insert_to_list (plist s) n,
      next_ptr := next_ptr s + 1, client_address_plus := ?plus\<rparr>"
  have nl: "new_lease True mac (chosen_state r s) = Inr (Some n, s2)"
    using ne by (simp add: new_lease_def n_def s2_def Let_def)
  have "in_pool (dhcps_poll s) ?plus"
    using in_pool_next [OF p c(1)] p by (auto simp: in_pool_def pool_ok_def)
  then have "dhcps_inv s2"
    using inv ins c(1) by (auto simp: dhcps_inv_def s2_def n_def)
  moreover have "has_lease s2 mac' ip \<longleftrightarrow> (mac' = mac \<and> ip = chosen s r) \<or> has_lease s mac' ip" for mac' ip
    using leases.ins_holds [OF li fresh, of mac' ip] by (simp add: has_lease_holds s2_def n_def)
  moreover have "n \<in> set (plist s2)" using ins by (simp add: s2_def)
  ultimately show ?thesis using nl c by (intro exI [of _ n] exI [of _ s2]) (auto simp: n_def s2_def)
qed

section \<open>The check at the end\<close>

lemma pool_check_keeps:
  assumes p: "dhcps_inv s" "in_pool (dhcps_poll s) (client_address s)" "n \<in> set (plist s)" "n_mac n = mac"
    and r: "pool_check m len (Some n) s = Inr (ret, s')"
  shows "dhcps_inv s' \<and> dhcps_poll s' = dhcps_poll s \<and>
    (if ret = DHCPS_STATE_RELEASE
     then (\<forall>mac' ip. has_lease s' mac' ip \<longleftrightarrow> has_lease s mac' ip \<and> mac' \<noteq> mac)
     else same_leases s s' \<and> client_address s' = client_address s) \<and>
    parse_options s m len = Inr ret"
proof -
  have po: "pool_ok (dhcps_poll s)" using p(1) by (simp add: dhcps_inv_def)
  have "\<not> (end_ip (dhcps_poll s) < client_address s \<or> client_address s = 0)"
    using in_pool_end [OF po p(2)] in_pool_nonzero [OF po p(2)] by auto
  with r obtain v where v: "parse_options s m len = Inr v"
    "Inr (ret, s') = (if v = DHCPS_STATE_RELEASE
      then Inr (v, (release_node (Some n) s)\<lparr>client_address := 0\<rparr>) else Inr (v, s) :: (int \<times> dhcps) result)"
    by (auto simp: pool_check_def bindE_Inr_iff)
  show ?thesis
  proof (cases "v = DHCPS_STATE_RELEASE")
    case True
    then show ?thesis
      using v release_node_inv [OF p(1), of "Some n"] release_node_has [OF p(1,3)] p(4)
      by (auto simp: release_node_def)
  next
    case False
    then show ?thesis using v p(1) by (auto simp: same_leases_def)
  qed
qed

lemma parse_msg_unfold:
  assumes "field m off_options 4 = le_bytes magic_cookie"
  shows "parse_msg ok m len s =
    (case search_leases (field m 28 6) (plist s) (start_search s) of
       (Some n, r) \<Rightarrow> pool_check m len (Some n) (found_state m n r s)
     | (None, r) \<Rightarrow> bindE (new_lease ok (field m 28 6) (chosen_state r s))
                      (\<lambda>(nd, s2). pool_check m len nd s2))"
  using assms
  by (auto simp: parse_msg_def start_search_def found_state_def chosen_state_def chosen_def Let_def
      lease_ticks_def split: prod.split option.split)

definition msg_effect :: "dhcps \<Rightarrow> byte list \<Rightarrow> int \<Rightarrow> dhcps \<Rightarrow> bool" where
  \<comment> \<open>what a message of the client \<open>mac\<close> that is answered with \<open>ret\<close> does to the leases\<close>
  "msg_effect s mac ret s' \<longleftrightarrow>
     (\<forall>mac' ip. mac' \<noteq> mac \<longrightarrow> has_lease s' mac' ip = has_lease s mac' ip) \<and>
     (if ret = DHCPS_STATE_RELEASE then \<forall>ip. \<not> has_lease s' mac ip
      else if \<exists>ip. has_lease s mac ip then
        (\<forall>ip. has_lease s' mac ip = has_lease s mac ip) \<and> has_lease s mac (client_address s')
      else if pool_free s then
        has_lease s' mac (client_address s') \<and> in_pool (dhcps_poll s) (client_address s') \<and>
        client_address s' \<notin> leased s
      else ret = DHCPS_STATE_NAK \<and> (\<forall>ip. \<not> has_lease s' mac ip))"

lemma parse_msg_effect:
  assumes inv: "dhcps_inv s" and ck: "field m off_options 4 = le_bytes magic_cookie"
    and r: "parse_msg True m len s = Inr (ret, s')"
  shows "dhcps_inv s' \<and> dhcps_poll s' = dhcps_poll s \<and> msg_effect s (field m 28 6) ret s'"
proof -
  let ?mac = "field m 28 6"
  obtain fo sr where sl: "search_leases ?mac (plist s) (start_search s) = (fo, sr)" by fastforce
  have no: "fo = None \<longleftrightarrow> \<not> (\<exists>ip. has_lease s ?mac ip)"
    using search_new_iff [of ?mac "plist s" "start_search s"] sl by (simp add: has_lease_mac)
  show ?thesis
  proof (cases fo)
    case (Some n)
    note f = found_state_inv [OF inv sl [unfolded Some]]
    have "\<exists>n'. n' \<in> set (plist (found_state m n sr s)) \<and> n_mac n' = ?mac \<and> n_ptr n' = n_ptr n"
      using search_found [OF sl [unfolded Some]] by (auto simp: found_state_def set_timer_def intro!: bexI [of _ n])
    then obtain n' where n': "n' \<in> set (plist (found_state m n sr s))" "n_mac n' = ?mac" "n_ptr n' = n_ptr n"
      by blast
    have "pool_check m len (Some n') (found_state m n sr s) = Inr (ret, s')"
    proof -
      have rn: "release_node (Some n') = release_node (Some n)"
        by (intro ext) (simp add: release_node_def n'(3))
      have "pool_check m len (Some n) (found_state m n sr s) = Inr (ret, s')"
        using r sl Some by (simp add: parse_msg_unfold [OF ck])
      then show ?thesis by (simp only: pool_check_def rn)
    qed
    from pool_check_keeps [OF f(1) _ n'(1,2) this] f(2) [of m] f(3,5) no Some show ?thesis
      by (auto simp: found_state_def msg_effect_def same_leases_def split: if_splits)
  next
    case None
    show ?thesis
    proof (cases "pool_free s")
      case True
      from new_lease_given [OF inv sl [unfolded None] True] obtain n s2 where
        nl: "new_lease True ?mac (chosen_state sr s) = Inr (Some n, s2)" "dhcps_inv s2" "n \<in> set (plist s2)"
        "n_mac n = ?mac" "client_address s2 = chosen s sr" "in_pool (dhcps_poll s) (chosen s sr)"
        "chosen s sr \<notin> leased s" "dhcps_poll s2 = dhcps_poll s"
        "\<And>mac' ip. has_lease s2 mac' ip \<longleftrightarrow> (mac' = ?mac \<and> ip = chosen s sr) \<or> has_lease s mac' ip"
        by blast
      have "pool_check m len (Some n) s2 = Inr (ret, s')"
        using r sl None nl(1) by (simp add: parse_msg_unfold [OF ck])
      from pool_check_keeps [OF nl(2) _ nl(3,4) this] nl(5-9) no None True show ?thesis
        by (auto simp: msg_effect_def same_leases_def split: if_splits)
    next
      case False
      note nl = new_lease_full [OF inv sl [unfolded None] False]
      have "pool_check m len None ((chosen_state sr s)\<lparr>client_address_plus := start_ip (dhcps_poll s)\<rparr>)
          = Inr (ret, s')"
        using r sl None nl(1) [of True] by (simp add: parse_msg_unfold [OF ck])
      then have "ret = DHCPS_STATE_NAK"
        "s' = (chosen_state sr s)\<lparr>client_address_plus := start_ip (dhcps_poll s)\<rparr>"
        using nl(3) by (auto simp: pool_check_def release_node_def)
      moreover from this have "has_lease s' = has_lease s" by (simp add: fun_eq_iff has_lease_def)
      ultimately show ?thesis using nl(2) no None False
        by (simp add: msg_effect_def dhcps_states)
    qed
  qed
qed

lemma parse_msg_inv:
  assumes "dhcps_inv s" "parse_msg True m len s = Inr (ret, s')"
  shows "dhcps_inv s' \<and> dhcps_poll s' = dhcps_poll s"
  using assms parse_msg_effect [OF assms(1) _ assms(2)]
  by (cases "field m off_options 4 = le_bytes magic_cookie") (auto simp: parse_msg_def)

lemma pool_check_parses:
  assumes "pool_check m len nd s = Inr (ret, s')" "pool_ok (dhcps_poll s)"
    "in_pool (dhcps_poll s) (client_address s)"
  shows "parse_options s m len = Inr ret \<and> (ret \<noteq> DHCPS_STATE_RELEASE \<longrightarrow> s' = s)"
proof -
  have "\<not> (end_ip (dhcps_poll s) < client_address s \<or> client_address s = 0)"
    using in_pool_end [OF assms(2,3)] in_pool_nonzero [OF assms(2,3)] by auto
  with assms(1) show ?thesis by (auto simp: pool_check_def bindE_Inr_iff split: if_splits)
qed

lemma parse_msg_parses:
  assumes inv: "dhcps_inv s" and ck: "field m off_options 4 = le_bytes magic_cookie"
    and r: "parse_msg True m len s = Inr (ret, s')"
    and served: "(\<exists>ip. has_lease s (field m 28 6) ip) \<or> pool_free s"
  shows "\<exists>s2. parse_options s2 m len = Inr ret \<and> (ret \<noteq> DHCPS_STATE_RELEASE \<longrightarrow> s' = s2)"
proof -
  let ?mac = "field m 28 6"
  obtain fo sr where sl: "search_leases ?mac (plist s) (start_search s) = (fo, sr)" by fastforce
  have po: "pool_ok (dhcps_poll s)" using inv by (simp add: dhcps_inv_def)
  show ?thesis
  proof (cases fo)
    case (Some n)
    note f = found_state_inv [OF inv sl [unfolded Some]]
    have "pool_check m len (Some n) (found_state m n sr s) = Inr (ret, s')"
      using r sl Some by (simp add: parse_msg_unfold [OF ck])
    from pool_check_parses [OF this] f(3) po show ?thesis by (auto simp: found_state_def)
  next
    case None
    have "pool_free s"
      using served search_new_iff [of ?mac "plist s" "start_search s"] sl None
      by (simp add: has_lease_mac)
    from new_lease_given [OF inv sl [unfolded None] this] obtain n s2 where
      nl: "new_lease True ?mac (chosen_state sr s) = Inr (Some n, s2)" "client_address s2 = chosen s sr"
      "in_pool (dhcps_poll s) (chosen s sr)" "dhcps_poll s2 = dhcps_poll s" by blast
    have "pool_check m len (Some n) s2 = Inr (ret, s')"
      using r sl None nl(1) by (simp add: parse_msg_unfold [OF ck])
    from pool_check_parses [OF this] nl po show ?thesis by auto
  qed
qed

end
