(* ===== verification/Dhcp_Options.thy ===== *)
theory Dhcp_Options
  imports Dhcp_Lease_Proofs
begin

text \<open>
  The options of DHCP messages as type, length and value: how \<open>parse_options\<close> reads a well-formed
  request, when it stays inside the message, and what a client reads in the answers of the server.
\<close>

section \<open>Type, length, value\<close>

type_synonym dhcp_opt = "byte \<times> byte list"

definition enc_opt :: "dhcp_opt \<Rightarrow> byte list" where
  "enc_opt ov = fst ov # of_nat (length (snd ov)) # snd ov"

definition enc_opts :: "dhcp_opt list \<Rightarrow> byte list" where
  "enc_opts os = concat (map enc_opt os)"

definition opt_ok :: "dhcp_opt \<Rightarrow> bool" where
  \<comment> \<open>a length that fits its byte, and at least the bytes the server reads\<close>
  "opt_ok ov \<longleftrightarrow> fst ov \<noteq> 255 \<and> length (snd ov) < 256 \<and>
     (fst ov = 53 \<longrightarrow> 1 \<le> length (snd ov)) \<and> (fst ov = 50 \<longrightarrow> 4 \<le> length (snd ov))"

definition opt_seen :: "u32 \<Rightarrow> byte \<times> int \<Rightarrow> dhcp_opt \<Rightarrow> byte \<times> int" where
  \<comment> \<open>what the server takes from one option\<close>
  "opt_seen client = (\<lambda>(type, st) (op, v).
     if op = 53 then (hd v, st)
     else if op = 50 then (type, if take 4 v = le_bytes client then DHCPS_STATE_ACK else DHCPS_STATE_NAK)
     else (type, st))"

lemma enc_opts_Cons [simp]: "enc_opts (x # xs) = enc_opt x @ enc_opts xs"
  by (simp add: enc_opts_def)

lemma enc_opts_Nil [simp]: "enc_opts [] = []"
  by (simp add: enc_opts_def)

lemma length_enc_opt [simp]: "length (enc_opt x) = length (snd x) + 2"
  by (simp add: enc_opt_def)

lemma unat_of_length: "n < 256 \<Longrightarrow> unat (of_nat n :: byte) = n"
  by (simp add: unsigned_of_nat take_bit_nat_eq_self)

lemma option_step_enc:
  assumes m: "m = pre @ enc_opt x @ rest" and x: "opt_ok x"
  shows "option_step m client (length pre) ts = Inr (opt_seen client ts x)"
    "read_byte m (length pre) = Inr (fst x)"
    "read_byte m (length pre + 1) = Inr (of_nat (length (snd x)))"
proof -
  obtain op v where xv: "x = (op, v)" by (cases x)
  have b0: "read_byte m (length pre) = Inr op" by (simp add: m xv enc_opt_def read_byte_def)
  then show "read_byte m (length pre) = Inr (fst x)" by (simp add: xv)
  show "read_byte m (length pre + 1) = Inr (of_nat (length (snd x)))"
    by (simp add: m xv enc_opt_def read_byte_def nth_append)
  show "option_step m client (length pre) ts = Inr (opt_seen client ts x)"
  proof (cases "op = 53")
    case True
    then obtain t v' where "v = t # v'" using x xv by (cases v) (auto simp: opt_ok_def)
    then have "read_byte m (length pre + 2) = Inr (hd v)"
      by (simp add: m xv enc_opt_def read_byte_def nth_append)
    with True b0 show ?thesis by (cases ts) (simp add: option_step_def opt_seen_def xv)
  next
    case False
    show ?thesis
    proof (cases "op = 50")
      case True
      then have "4 \<le> length v" using x xv by (simp add: opt_ok_def)
      then have "read_field m (length pre + 2) 4 = Inr (take 4 v)"
        by (simp add: m xv enc_opt_def read_field_def field_def)
      with True False b0 show ?thesis by (cases ts) (simp add: option_step_def opt_seen_def xv)
    next
      case False
      with \<open>op \<noteq> 53\<close> b0 show ?thesis by (cases ts) (simp add: option_step_def opt_seen_def xv)
    qed
  qed
qed

lemma parse_loop_enc:
  assumes "m = pre @ enc_opts os @ rest" "\<forall>x \<in> set os. opt_ok x"
    "int (length pre + length (enc_opts os)) \<le> lim"
  shows "parse_loop m client lim (length pre) ts =
    parse_loop m client lim (length pre + length (enc_opts os)) (foldl (opt_seen client) ts os)"
  using assms
proof (induction os arbitrary: pre ts)
  case Nil
  then show ?case by simp
next
  case (Cons x xs)
  have m: "m = pre @ enc_opt x @ (enc_opts xs @ rest)" and m': "m = (pre @ enc_opt x) @ enc_opts xs @ rest"
    using Cons.prems(1) by simp_all
  have x: "opt_ok x" using Cons.prems(2) by simp
  note st = option_step_enc [OF m x]
  have lt: "int (length pre) < lim" using Cons.prems(3) by simp
  have l: "length (pre @ enc_opt x) = length pre + unat (of_nat (length (snd x)) :: byte) + 2"
    using x by (simp add: opt_ok_def unat_of_length)
  have "parse_loop m client lim (length pre) ts =
      parse_loop m client lim (length (pre @ enc_opt x)) (opt_seen client ts x)"
    using lt st x unfolding l by (subst parse_loop.simps) (simp add: opt_ok_def)
  also have "\<dots> = parse_loop m client lim (length (pre @ enc_opt x) + length (enc_opts xs))
      (foldl (opt_seen client) (opt_seen client ts x) xs)"
    by (rule Cons.IH [OF m']) (use Cons.prems in auto)
  finally show ?case by (simp add: add.assoc)
qed

lemma parse_loop_end:
  assumes "int p < lim" "p < length m" "m ! p = 255"
  shows "parse_loop m client lim p ts = Inr ts"
  using assms by (subst parse_loop.simps) (simp add: option_step_def read_byte_def split: prod.split)

lemma parse_loop_stop: "\<not> int p < lim \<Longrightarrow> parse_loop m client lim p ts = Inr ts"
  by (subst parse_loop.simps) simp

lemma parse_loop_last_byte:
  assumes "int p < lim" "Suc p = length m" "m ! p \<noteq> 255"
  shows "parse_loop m client lim p ts = Inl BufferOverflow"
  using assms
  by (subst parse_loop.simps)
    (auto simp: option_step_def read_byte_def read_field_def split: prod.split)

definition request_meaning :: "u32 \<Rightarrow> bool \<Rightarrow> dhcp_opt list \<Rightarrow> int" where
  "request_meaning client rn os =
     (let type = (case filter (\<lambda>x. fst x = 53) os of [] \<Rightarrow> 0 | ts \<Rightarrow> hd (snd (last ts)));
          req = (case filter (\<lambda>x. fst x = 50) os of [] \<Rightarrow> None | rs \<Rightarrow> Some (take 4 (snd (last rs))));
          idle = (case req of None \<Rightarrow> 5 | Some a \<Rightarrow> if a = le_bytes client then 3 else 4)
      in if type = 1 then 1
         else if type = 3 then
           (case req of None \<Rightarrow> if rn then 3 else 4 | Some a \<Rightarrow> if a = le_bytes client then 3 else 4)
         else if type = 4 then 5
         else if type = 7 then 6
         else idle)"

lemma foldl_opt_seen:
  "foldl (opt_seen client) (0, DHCPS_STATE_IDLE) os =
    (case filter (\<lambda>x. fst x = 53) os of [] \<Rightarrow> 0 | ts \<Rightarrow> hd (snd (last ts)),
     case filter (\<lambda>x. fst x = 50) os of [] \<Rightarrow> DHCPS_STATE_IDLE
     | rs \<Rightarrow> if take 4 (snd (last rs)) = le_bytes client then DHCPS_STATE_ACK else DHCPS_STATE_NAK)"
proof (induction os rule: rev_induct)
  case Nil
  then show ?case by simp
next
  case (snoc x xs)
  obtain op v where "x = (op, v)" by (cases x)
  with snoc show ?case
    by (cases "op = 53"; cases "op = 50")
      (auto simp: opt_seen_def split: list.splits)
qed

lemma parse_options_raw:
  assumes "length hdr = 240" "\<forall>x \<in> set os. opt_ok x"
    and "int (length (enc_opts os)) < len"
  shows "parse_options s (hdr @ enc_opts os @ [255] @ rest) len =
    Inr (request_meaning (client_address s) (renew s) os)"
proof -
  let ?m = "hdr @ enc_opts os @ [255] @ rest"
  have "parse_loop ?m (client_address s) (240 + len) 240 (0, DHCPS_STATE_IDLE) =
      Inr (foldl (opt_seen (client_address s)) (0, DHCPS_STATE_IDLE) os)"
  proof -
    have "parse_loop ?m (client_address s) (240 + len) (length hdr) (0, DHCPS_STATE_IDLE) =
        parse_loop ?m (client_address s) (240 + len) (length hdr + length (enc_opts os))
          (foldl (opt_seen (client_address s)) (0, DHCPS_STATE_IDLE) os)"
      by (rule parse_loop_enc [where rest = "[255] @ rest"]) (use assms in auto)
    also have "\<dots> = Inr (foldl (opt_seen (client_address s)) (0, DHCPS_STATE_IDLE) os)"
      by (rule parse_loop_end) (use assms in \<open>auto simp: nth_append\<close>)
    finally show ?thesis using assms(1) by simp
  qed
  then have "parse_options s ?m len =
      Inr (finish_parse (renew s) (foldl (opt_seen (client_address s)) (0, DHCPS_STATE_IDLE) os))"
    by (simp add: parse_options_def off_options_def)
  then show ?thesis
    unfolding foldl_opt_seen
    by (auto simp: finish_parse_def request_meaning_def dhcps_states message_types Let_def
        split: list.splits)
qed

text \<open>
  C31. How a well-formed request is understood. For a message whose options are a list of types,
  lengths and values closed by the end option, the answer is determined by the last message type and
  the last requested address: a discover is offered, a request is acknowledged if it asks for the
  address the server has for the client, or if it asks for none and comes from an address that is
  being renewed, and is otherwise refused; a release is released; a decline is not answered.
\<close>

theorem parse_options_meaning:
  assumes "length hdr = 240" "\<forall>x \<in> set os. opt_ok x"
    and "int (length (enc_opts os)) < len"
  shows "parse_options s (hdr @ enc_opts os @ [255] @ rest) len =
    Inr (request_meaning (client_address s) (renew s) os)"
  by (rule parse_options_raw [OF assms])

theorem parse_options_meaning_witness:
  "parse_options (dhcps_initial\<lparr>client_address := 0x0204A8C0\<rparr>)
     (replicate 240 0 @ enc_opts [(53, [3]), (50, [0xC0, 0xA8, 4, 2])] @ [255] @ []) 30 = Inr 3"
proof -
  have "request_meaning 0x0204A8C0 False [(53, [3]), (50, [0xC0, 0xA8, 4, 2])] = 3"
    by (simp add: request_meaning_def le_bytes_def ip4_addr1_def ip4_addr2_def ip4_addr3_def
        ip4_addr4_def drop_bit_eq_div)
  then show ?thesis
    using parse_options_meaning [of "replicate 240 0" "[(53, [3]), (50, [0xC0, 0xA8, 4, 2])]" 30
        "dhcps_initial\<lparr>client_address := 0x0204A8C0\<rparr>" "[]"]
    by (simp add: opt_ok_def dhcps_initial_def)
qed

end
