(* ===== verification/Dhcp_Answers.thy ===== *)
theory Dhcp_Answers
  imports Dhcp_Options
begin

text \<open>
  What the DHCP server sends, and that it neither reads nor writes outside its message while it deals
  with a packet: the bound on the packet's length that makes this true, and what happens beyond it.
\<close>

section \<open>Writing into a message\<close>

lemma length_put [simp]: "off + length bs \<le> length m \<Longrightarrow> length (put off bs m) = length m"
  by (simp add: put_def)

lemma field_put_same:
  "off + length bs \<le> length m \<Longrightarrow> n = length bs \<Longrightarrow> field (put off bs m) off n = bs"
  by (simp add: field_def put_def)

lemma nth_put:
  "off + length bs \<le> length m \<Longrightarrow> i < length m \<Longrightarrow>
    put off bs m ! i = (if off \<le> i \<and> i < off + length bs then bs ! (i - off) else m ! i)"
  by (auto simp: put_def nth_append min_def)

lemma field_put_other:
  assumes "off + length bs \<le> length m" "a + n \<le> length m" "a + n \<le> off \<or> off + length bs \<le> a"
  shows "field (put off bs m) a n = field m a n"
  using assms by (intro nth_equalityI) (auto simp: field_def nth_put)

lemma drop_put_same: "off + length bs \<le> length m \<Longrightarrow> drop off (put off bs m) = bs @ drop (off + length bs) m"
  by (simp add: put_def)

lemma length_create_msg [simp]: "DHCPS_MSG_SIZE \<le> length m \<Longrightarrow> length (create_msg s m) = length m"
  by (simp add: create_msg_def DHCPS_MSG_SIZE_def off_options_def off_yiaddr_def le_bytes_def)

lemma create_msg_fields:
  assumes "DHCPS_MSG_SIZE \<le> length m"
  shows "field (create_msg s m) 0 4 = [2, 1, 6, 0]" "field (create_msg s m) 4 4 = field m 4 4"
    "field (create_msg s m) 16 4 = le_bytes (client_address s)"
    "field (create_msg s m) 28 16 = field m 28 16"
    "field (create_msg s m) 236 4 = le_bytes magic_cookie"
  using assms
  by (simp_all add: create_msg_def DHCPS_MSG_SIZE_def off_options_def off_yiaddr_def
      field_put_same field_put_other le_bytes_def)

section \<open>Reading an answer\<close>

fun dec_opts :: "byte list \<Rightarrow> dhcp_opt list" where
  \<comment> \<open>how a client reads options, up to the end option\<close>
  "dec_opts (t # l # rest) =
     (if t = 255 then [] else (t, take (unat l) rest) # dec_opts (drop (unat l) rest))"
| "dec_opts _ = []"

lemma dec_enc_opts:
  "\<forall>x \<in> set os. fst x \<noteq> 255 \<and> length (snd x) < 256 \<Longrightarrow> dec_opts (enc_opts os @ 255 # rest) = os"
proof (induction os)
  case Nil
  then show ?case by (cases rest) simp_all
next
  case (Cons x xs)
  then show ?case by (cases x) (simp add: enc_opt_def unat_of_length)
qed

definition offer_opts :: "u32 \<Rightarrow> dhcps \<Rightarrow> dhcp_opt list" where
  \<comment> \<open>the options of an offer and of an acknowledgement\<close>
  "offer_opts gw s =
     [(1, [255, 255, 255, 0]),
      (51, be_bytes (dhcps_lease_time s * DHCPS_LEASE_UNIT)),
      (54, le_bytes (server_address s))] @
     (if dhcps_router_enabled (dhcps_offer s) \<and> gw \<noteq> 0 then [(3, le_bytes gw)] else []) @
     [(6, if dhcps_dns_enabled (dhcps_dns s) then le_bytes (dns_server s) else le_bytes (server_address s)),
      (28, take 3 (le_bytes (server_address s)) @ [255]),
      (26, [0x02, 0x40]), (31, [0]), (43, [1, 4, 0, 0, 0, 2])]"

lemma length_bytes [simp]: "length (le_bytes x) = 4" "length (be_bytes x) = 4"
  by (simp_all add: le_bytes_def be_bytes_def)

lemma add_offer_options_enc: "add_offer_options gw s = enc_opts (offer_opts gw s)"
  by (simp add: add_offer_options_def offer_opts_def enc_opt_def Let_def le_bytes_def)

lemma offer_opts_ok: "\<forall>x \<in> set (offer_opts gw s). fst x \<noteq> 255 \<and> length (snd x) < 256"
  by (auto simp: offer_opts_def)

lemma length_offer_options: "length (add_offer_options gw s) \<le> 51"
  by (simp add: add_offer_options_def Let_def)

definition answer_ok :: "dhcps \<Rightarrow> byte list \<Rightarrow> dhcp_opt list \<Rightarrow> byte list \<Rightarrow> bool" where
  \<comment> \<open>\<open>out\<close> answers the request \<open>m\<close> with these options\<close>
  "answer_ok s m os out \<longleftrightarrow>
     length out = length m \<and> field out 0 4 = [2, 1, 6, 0] \<and>
     field out 4 4 = field m 4 4 \<and> field out 28 16 = field m 28 16 \<and>
     field out 16 4 = le_bytes (client_address s) \<and>
     field out 236 4 = le_bytes magic_cookie \<and> dec_opts (drop 240 out) = os \<and>
     (\<exists>rest. drop 240 out = enc_opts os @ 255 # rest)"

lemma send_options:
  assumes "DHCPS_MSG_SIZE \<le> length m" "length (enc_opts os) \<le> 300"
    "\<forall>x \<in> set os. fst x \<noteq> 255 \<and> length (snd x) < 256"
  shows "\<exists>out. bindE (put_options (enc_opts os @ add_end) (create_msg s m))
      (\<lambda>m'. send_msg True s m' (length m)) = Inr [UdpSendto out (broadcast_dhcps s) 68] \<and>
    answer_ok s m os out"
proof -
  let ?c = "create_msg s m" and ?b = "enc_opts os @ add_end"
  have len: "548 \<le> length m" "length ?c = length m" using assms(1) by (simp_all add: DHCPS_MSG_SIZE_def)
  have fits: "240 + length ?b \<le> length ?c" using len assms(2) by (simp add: add_end_def)
  define out where "out = put 240 ?b ?c"
  have lo: "length out = length m" using fits len by (simp add: out_def)
  have dr: "drop 240 out = enc_opts os @ 255 # drop (240 + length ?b) ?c"
    using drop_put_same [OF fits] by (simp add: out_def add_end_def)
  then have "dec_opts (drop 240 out) = os" using dec_enc_opts [OF assms(3)] by simp
  moreover have "field out a n = field ?c a n" if "a + n \<le> 240" for a n
    unfolding out_def by (rule field_put_other [OF fits]) (use that len in auto)
  ultimately have "answer_ok s m os out"
    using lo create_msg_fields [OF assms(1), of s] dr by (simp add: answer_ok_def)
  moreover have "put_options ?b ?c = Inr out"
    using fits by (simp add: put_options_def off_options_def out_def)
  moreover have "send_msg True s out (length m) = Inr [UdpSendto out (broadcast_dhcps s) 68]"
    using lo len by (simp add: send_msg_def dhcps_pbuf_len_def DHCPS_MSG_SIZE_def DHCPS_CLIENT_PORT_def)
  ultimately show ?thesis by auto
qed

lemma enc_msg_type: "add_msg_type t = enc_opts [(53, [t])]"
  by (simp add: add_msg_type_def enc_opt_def)

lemma enc_opts_append: "enc_opts (xs @ ys) = enc_opts xs @ enc_opts ys"
  by (simp add: enc_opts_def)

lemma answers_decode_raw:
  assumes "DHCPS_MSG_SIZE \<le> length m"
  shows "\<exists>o1 o2 o3.
    send_offer True gw s m (length m) = Inr [UdpSendto o1 (broadcast_dhcps s) 68] \<and>
    answer_ok s m ((53, [2]) # offer_opts gw s) o1 \<and>
    send_ack True gw s m (length m) = Inr [UdpSendto o2 (broadcast_dhcps s) 68] \<and>
    answer_ok s m ((53, [5]) # offer_opts gw s) o2 \<and>
    send_nak True s m (length m) = Inr [UdpSendto o3 (broadcast_dhcps s) 68] \<and>
    answer_ok s m [(53, [6])] o3"
proof -
  have l: "length (enc_opts ((53, [t]) # offer_opts gw s)) \<le> 300" for t
    using length_offer_options [of gw s] by (simp add: add_offer_options_enc)
  have ok: "\<forall>x \<in> set ((53, [t]) # offer_opts gw s). fst x \<noteq> 255 \<and> length (snd x) < 256" for t
    using offer_opts_ok [of gw s] by simp
  have e: "add_msg_type t @ add_offer_options gw s @ add_end = enc_opts ((53, [t]) # offer_opts gw s) @ add_end"
    "add_msg_type t @ add_end = enc_opts [(53, [t])] @ add_end" for t
    by (simp_all add: enc_msg_type add_offer_options_enc)
  show ?thesis
    unfolding send_offer_def send_ack_def send_nak_def message_types e
    using send_options [where s = s, OF assms l ok] send_options [where s = s, OF assms, of "[(53, [6])]"]
    by simp
qed

text \<open>
  A client can read the answers. For every message buffer as large as the structure, the three
  answers are sent to the broadcast address and port 68; they keep the transaction number and the
  hardware address of the request, carry the client's address, and the options in them decode, up to
  the end option, to exactly the message type and, for an offer and an acknowledgement, the mask, the
  lease time, the server, the router if one is to be announced, the name server, the broadcast
  address of the server's network, and the rest.
\<close>

theorem answers_decode:
  assumes "DHCPS_MSG_SIZE \<le> length m"
  shows "\<exists>o1 o2 o3.
    send_offer True gw s m (length m) = Inr [UdpSendto o1 (broadcast_dhcps s) 68] \<and>
    answer_ok s m ((53, [2]) # offer_opts gw s) o1 \<and>
    send_ack True gw s m (length m) = Inr [UdpSendto o2 (broadcast_dhcps s) 68] \<and>
    answer_ok s m ((53, [5]) # offer_opts gw s) o2 \<and>
    send_nak True s m (length m) = Inr [UdpSendto o3 (broadcast_dhcps s) 68] \<and>
    answer_ok s m [(53, [6])] o3"
  by (rule answers_decode_raw [OF assms])

theorem answers_decode_witness:
  "\<exists>out. send_offer True 0x0104A8C0 dhcps_initial (replicate 548 7) 548 =
     Inr [UdpSendto out 0 68] \<and> field out 4 4 = [7, 7, 7, 7] \<and> hd (dec_opts (drop 240 out)) = (53, [2])"
proof -
  obtain out where o: "send_offer True 0x0104A8C0 dhcps_initial (replicate 548 7) 548 =
      Inr [UdpSendto out 0 68]"
    "answer_ok dhcps_initial (replicate 548 7) ((53, [2]) # offer_opts 0x0104A8C0 dhcps_initial) out"
    using answers_decode [of "replicate 548 7" "0x0104A8C0" dhcps_initial]
    by (auto simp: DHCPS_MSG_SIZE_def dhcps_initial_def)
  then show ?thesis by (simp add: answer_ok_def field_def numeral_eq_Suc)
qed

section \<open>Staying inside the message\<close>

lemma parse_loop_safe:
  assumes "lim + 5 \<le> int (length m)"
  shows "\<exists>ts'. parse_loop m client lim p ts = Inr ts'"
  using assms
proof (induction m client lim p ts rule: parse_loop.induct)
  case (1 m client lim p ts)
  show ?case
  proof (cases "int p < lim")
    case True
    then have len: "p + 5 < length m" using "1.prems" by linarith
    obtain ts' where st: "option_step m client p ts = Inr ts'"
      using len by (cases ts; cases "m ! p = 53"; cases "m ! p = 50")
        (auto simp: option_step_def read_byte_def read_field_def)
    have rd: "read_byte m p = Inr (m ! p)" "read_byte m (p + 1) = Inr (m ! (p + 1))"
      using len by (simp_all add: read_byte_def)
    show ?thesis
    proof (cases "m ! p = 255")
      case True
      with \<open>int p < lim\<close> st rd show ?thesis by (subst parse_loop.simps) simp
    next
      case False
      then obtain ts2 where "parse_loop m client lim (p + unat (m ! (p + 1)) + 2) ts' = Inr ts2"
        using "1.IH" [OF True _, of "m ! (p + 1)" ts'] False rd "1.prems" by auto
      with True False st rd show ?thesis by (subst parse_loop.simps) simp
    qed
  next
    case False
    then show ?thesis by (simp add: parse_loop_stop)
  qed
qed

lemma parse_options_safe:
  "240 + len + 5 \<le> int (length m) \<Longrightarrow> \<exists>ret. parse_options s m len = Inr ret"
  using parse_loop_safe [of "240 + len" m "client_address s" 240 "(0, DHCPS_STATE_IDLE)"]
  by (auto simp: parse_options_def off_options_def)

lemma pool_check_safe:
  "240 + len + 5 \<le> int (length m) \<Longrightarrow> \<exists>ret s'. pool_check m len nd s = Inr (ret, s')"
  using parse_options_safe [of len m s] by (auto simp: pool_check_def)

lemma parse_msg_safe:
  assumes "240 + len + 5 \<le> int (length m)"
  shows "\<exists>ret s'. parse_msg True m len s = Inr (ret, s')"
proof (cases "field m off_options 4 = le_bytes magic_cookie")
  case True
  obtain fo sr where sl: "search_leases (field m 28 6) (plist s) (start_search s) = (fo, sr)" by fastforce
  show ?thesis
  proof (cases fo)
    case (Some n)
    with sl pool_check_safe [OF assms] show ?thesis by (simp add: parse_msg_unfold [OF True])
  next
    case None
    obtain nd s2 where "new_lease True (field m 28 6) (chosen_state sr s) = Inr (nd, s2)"
      by (cases "end_ip (dhcps_poll s) < chosen s sr") (auto simp: new_lease_def Let_def)
    with sl None pool_check_safe [OF assms] show ?thesis by (simp add: parse_msg_unfold [OF True])
  qed
next
  case False
  then show ?thesis by (simp add: parse_msg_def)
qed

definition packet_data :: "packet \<Rightarrow> byte list" where
  "packet_data p = pk_payload p @ (case pk_next p of None \<Rightarrow> [] | Some d \<Rightarrow> d)"

definition buffer_len :: "packet \<Rightarrow> nat" where
  "buffer_len p = max 548 (unat (pk_tot_len p))"

lemma uint_small_iff: "uint (w :: u16) < 2 ^ 15 \<longleftrightarrow> unat w < 32768" "548 < uint w \<longleftrightarrow> 548 < unat w"
proof -
  have "(nat (uint w) < nat 32768) = (uint w < 32768)" "(nat 548 < nat (uint w)) = (548 < uint w)"
    using uint_ge_0 [of w] by (auto simp del: nat_uint_eq)
  then show "uint w < 2 ^ 15 \<longleftrightarrow> unat w < 32768" "548 < uint w \<longleftrightarrow> 548 < unat w" by simp_all
qed

lemma s16_small:
  assumes "unat n < 32768"
  shows "s16_of n = int (unat n)" "sint (word_of_int (s16_of n - 240) :: u16) = int (unat n) - 240"
proof -
  have u: "uint n < 2 ^ 15" "0 \<le> uint n" using assms uint_small_iff(1) [of n] by simp_all
  have "sint n = uint n"
  proof -
    have "- (2 ^ 15) \<le> (0 :: int)" by simp
    then have "- (2 ^ 15) \<le> uint n" using u(2) by (rule order_trans)
    then show ?thesis unfolding sint_uint using u(1) by (simp add: signed_take_bit_int_eq_self)
  qed
  then show s: "s16_of n = int (unat n)" by (simp add: s16_of_def)
  have "sint (word_of_int (uint n - 240) :: u16) = signed_take_bit 15 (uint n - 240)"
    by (simp only: signed_of_int) simp
  also have "\<dots> = uint n - 240"
  proof (rule signed_take_bit_int_eq_self)
    have "(2 :: int) ^ 15 = 32768" by simp
    then show "- (2 ^ 15) \<le> uint n - 240" "uint n - 240 < 2 ^ 15" using u by linarith+
  qed
  finally show "sint (word_of_int (s16_of n - 240) :: u16) = int (unat n) - 240" unfolding s by simp
qed

lemma handle_dhcp_unfold:
  assumes "unat (pk_tot_len p) < 32768" "length (packet_data p) \<le> unat (pk_tot_len p)" "msg_ok ok"
  shows "handle_dhcp ok gw (Some p) s =
    (let m = packet_data p @ replicate (buffer_len p - length (packet_data p)) 0;
         len = int (unat (pk_tot_len p)) - 240
     in bindE (parse_msg (lease_ok ok) m len s) (\<lambda>(ret, s').
          bindE (if ret = DHCPS_STATE_OFFER then send_offer (pbuf_ok ok) gw s' m (length m)
                 else if ret = DHCPS_STATE_ACK then send_ack (pbuf_ok ok) gw s' m (length m)
                 else if ret = DHCPS_STATE_NAK then send_nak (pbuf_ok ok) s' m (length m)
                 else Inr []) (\<lambda>out. Inr (out, s'))))"
proof -
  note n = s16_small [OF assms(1)]
  have ml: "(if int DHCPS_MSG_SIZE < uint (pk_tot_len p) then s16_of (pk_tot_len p) else int DHCPS_MSG_SIZE)
      = int (buffer_len p)"
    using n(1) uint_small_iff(2) [of "pk_tot_len p"] by (auto simp: DHCPS_MSG_SIZE_def buffer_len_def max_def)
  have d: "length (packet_data p) \<le> buffer_len p" using assms(2) by (simp add: buffer_len_def)
  then have cp: "copy_packet p (nat (int (buffer_len p))) =
      Inr (packet_data p @ replicate (buffer_len p - length (packet_data p)) 0)"
    by (simp add: copy_packet_def packet_data_def Let_def)
  have bl: "buffer_len p =
      length (packet_data p @ replicate (buffer_len p - length (packet_data p)) 0)" using d by simp
  show ?thesis
    unfolding handle_dhcp_def option.case Let_def ml n(2) bl [symmetric] nat_int
    using assms(3) cp by simp
qed

text \<open>
  C32. Packets of at most 543 bytes are handled safely. Whatever bytes such a packet holds, and
  whether or not memory for the answer is there, the server reads and writes only inside its copy of
  the message: a packet is always dealt with, and the invariant of the leases is kept.
\<close>

theorem short_packets_safe:
  assumes "dhcps_inv s" "unat (pk_tot_len p) \<le> 543"
    and "length (packet_data p) \<le> unat (pk_tot_len p)" "lease_ok ok"
  shows "\<exists>out s'. handle_dhcp ok gw (Some p) s = Inr (out, s') \<and> dhcps_inv s'"
proof (cases "msg_ok ok")
  case True
  define m where "m = packet_data p @ replicate (buffer_len p - length (packet_data p)) 0"
  define len where "len = int (unat (pk_tot_len p)) - 240"
  have lm: "length m = 548" using assms(2,3) by (simp add: m_def buffer_len_def)
  obtain ret s' where pm: "parse_msg True m len s = Inr (ret, s')"
  proof -
    have "240 + len + 5 \<le> int (length m)" unfolding len_def lm using assms(2) by linarith
    then show thesis using parse_msg_safe [of len m s] that by blast
  qed
  have inv: "dhcps_inv s'" using parse_msg_inv [OF assms(1) pm] by simp
  have sz: "DHCPS_MSG_SIZE \<le> length m" by (simp add: lm DHCPS_MSG_SIZE_def)
  have any: "\<exists>out. send_offer b gw s' m (length m) = Inr out"
    "\<exists>out. send_ack b gw s' m (length m) = Inr out" "\<exists>out. send_nak b s' m (length m) = Inr out" for b
  proof -
    have "\<exists>out. send_offer True gw s' m (length m) = Inr out" "\<exists>out. send_ack True gw s' m (length m) = Inr out"
      "\<exists>out. send_nak True s' m (length m) = Inr out"
      using answers_decode_raw [OF sz, of gw s'] by blast+
    then show "\<exists>out. send_offer b gw s' m (length m) = Inr out"
      "\<exists>out. send_ack b gw s' m (length m) = Inr out" "\<exists>out. send_nak b s' m (length m) = Inr out"
      by (cases b; auto simp: send_offer_def send_ack_def send_nak_def send_msg_def bindE_Inr_iff)+
  qed
  have "handle_dhcp ok gw (Some p) s =
      bindE (if ret = DHCPS_STATE_OFFER then send_offer (pbuf_ok ok) gw s' m (length m)
             else if ret = DHCPS_STATE_ACK then send_ack (pbuf_ok ok) gw s' m (length m)
             else if ret = DHCPS_STATE_NAK then send_nak (pbuf_ok ok) s' m (length m)
             else Inr []) (\<lambda>out. Inr (out, s'))"
    using handle_dhcp_unfold [of p ok gw s] assms(2-4) True pm by (simp add: Let_def m_def len_def)
  moreover have "\<exists>out. (if ret = DHCPS_STATE_OFFER then send_offer (pbuf_ok ok) gw s' m (length m)
             else if ret = DHCPS_STATE_ACK then send_ack (pbuf_ok ok) gw s' m (length m)
             else if ret = DHCPS_STATE_NAK then send_nak (pbuf_ok ok) s' m (length m)
             else Inr []) = Inr out"
    using any [of "pbuf_ok ok"] by auto
  ultimately show ?thesis using inv by auto
next
  case False
  then show ?thesis using assms(1) by (simp add: handle_dhcp_def Let_def)
qed

end
