(* ===== verification/Dhcp_Pool.thy ===== *)
theory Dhcp_Pool
  imports Dhcp_Lease_Proofs
begin

text \<open>
  The address pool that \<open>dhcps_poll_set\<close> settles on when the server starts: either the configured one,
  or, if there is none or it does not fit the server's address, one hundred addresses beside it.
\<close>

section \<open>Network and host part in host order\<close>

lemma and_not_mask8: "z AND NOT (mask 8) = push_bit 8 (drop_bit 8 (z :: u32))"
  by (rule bit_word_eqI)
    (simp only: bit_push_bit_iff bit_drop_bit_eq o_apply bit_and_iff bit_not_iff bit_mask_iff
      possible_bit_word, auto)

lemma drop_push_drop8: "drop_bit 8 (push_bit 8 (drop_bit 8 (z :: u32))) = drop_bit 8 z"
  by (rule bit_word_eqI)
    (simp only: bit_push_bit_iff bit_drop_bit_eq o_apply possible_bit_word, auto dest: word_bit_less)

lemma net24_eq_iff: "net24 x = net24 y \<longleftrightarrow> drop_bit 8 (lwip_htonl x) = drop_bit 8 (lwip_htonl y)"
  unfolding net24_htonl lwip_htonl_inject and_not_mask8 by (metis drop_push_drop8)

lemma htonl_split: "unat (lwip_htonl x) = unat (drop_bit 8 (lwip_htonl x)) * 256 + host24 x"
proof -
  have "unat (drop_bit 8 (lwip_htonl x)) = unat (lwip_htonl x) div 256"
    by (simp only: unat_drop_bit_eq) (simp add: drop_bit_eq_div)
  then show ?thesis by (simp add: host24_htonl)
qed

lemma htonl_le_iff: "net24 x = net24 y \<Longrightarrow> lwip_htonl x \<le> lwip_htonl y \<longleftrightarrow> host24 x \<le> host24 y"
  unfolding word_le_nat_alt htonl_split [of x] htonl_split [of y] by (simp add: net24_eq_iff)

lemma htonl_diff:
  assumes "net24 x = net24 y" "host24 x \<le> host24 y"
  shows "unat (lwip_htonl y - lwip_htonl x) = host24 y - host24 x"
proof -
  have "lwip_htonl x \<le> lwip_htonl y" using htonl_le_iff assms by blast
  then have "unat (lwip_htonl y - lwip_htonl x) = unat (lwip_htonl y) - unat (lwip_htonl x)"
    by (rule unat_sub)
  then show ?thesis
    using assms(1) unfolding htonl_split [of x] htonl_split [of y] by (simp add: net24_eq_iff)
qed

lemma htonl_diff_wraps:
  assumes "net24 x = net24 y" "host24 y < host24 x"
  shows "DHCPS_MAX_LEASE < lwip_htonl y - lwip_htonl x"
proof -
  have "unat (lwip_htonl y) < unat (lwip_htonl x)"
    "unat (lwip_htonl x) - unat (lwip_htonl y) < 256"
    using assms host24_less [of x] unfolding htonl_split [of x] htonl_split [of y]
    by (simp_all add: net24_eq_iff)
  moreover from this have "unat (lwip_htonl y - lwip_htonl x) =
      unat (lwip_htonl y) + 2 ^ 32 - unat (lwip_htonl x)"
    using unat_sub_if_size [of "lwip_htonl y" "lwip_htonl x"] by (simp add: word_size)
  ultimately show ?thesis by (simp add: word_less_nat_alt DHCPS_MAX_LEASE_def)
qed

section \<open>The default pool\<close>

lemma in_segment:
  assumes "unat l < 256"
  shows "net24 (lwip_htonl ((lwip_htonl ip AND 0xFFFFFF00) OR l)) = net24 ip"
    "host24 (lwip_htonl ((lwip_htonl ip AND 0xFFFFFF00) OR l)) = unat l"
proof -
  let ?y = "(lwip_htonl ip AND NOT (mask 8)) OR l"
  have c: "(0xFFFFFF00 :: u32) = NOT (mask 8)" by (simp add: not_eq_complement mask_eq_exp_minus_1)
  have l: "l = take_bit 8 l"
    unfolding word_unat_eq_iff unsigned_take_bit_eq using assms by (simp add: take_bit_nat_eq_self)
  then have bl: "bit l n \<Longrightarrow> n < 8" for n by (metis bit_take_bit_iff)
  have "drop_bit 8 ?y = drop_bit 8 (lwip_htonl ip)"
    by (rule bit_word_eqI)
      (simp only: bit_drop_bit_eq o_apply bit_or_iff bit_and_iff bit_not_iff bit_mask_iff possible_bit_word,
        auto dest: bl word_bit_less)
  then show "net24 (lwip_htonl ((lwip_htonl ip AND 0xFFFFFF00) OR l)) = net24 ip"
    unfolding c by (simp only: net24_eq_iff lwip_htonl_htonl)
  have "?y AND mask 8 = l"
    by (rule bit_word_eqI)
      (simp only: bit_or_iff bit_and_iff bit_not_iff bit_mask_iff possible_bit_word, auto dest: bl)
  then have "unat ?y mod 2 ^ 8 = unat l" unfolding unat_and_mask [symmetric] by (rule arg_cong)
  then show "host24 (lwip_htonl ((lwip_htonl ip AND 0xFFFFFF00) OR l)) = unat l"
    unfolding c host24_htonl lwip_htonl_htonl by simp
qed

lemma unat_local_ip: "unat (lwip_htonl ip AND 0xFF) = host24 ip"
proof -
  have c: "(0xFF :: u32) = mask 8" by (simp add: mask_eq_exp_minus_1)
  show ?thesis unfolding c unat_and_mask host24_htonl by simp
qed

definition pool_start :: "nat \<Rightarrow> nat" where
  \<comment> \<open>the first host number of the default pool\<close>
  "pool_start h = (if 128 \<le> h then h - 100 else h + 1)"

lemma plus_99:
  assumes "unat w + 99 < 256"
  shows "unat (w + DHCPS_MAX_LEASE - 1) = unat w + 99"
proof -
  have w: "w + DHCPS_MAX_LEASE - 1 = w + 99" by (simp add: DHCPS_MAX_LEASE_def)
  have "unat (w + 99) = unat w + 99" using assms by (simp add: unat_plus_if_size word_size)
  then show ?thesis unfolding w .
qed

lemma default_pool_range:
  "net24 (start_ip (default_pool ip)) = net24 ip" "net24 (end_ip (default_pool ip)) = net24 ip"
  "host24 (start_ip (default_pool ip)) = pool_start (host24 ip)"
  "host24 (end_ip (default_pool ip)) = pool_start (host24 ip) + 99"
proof -
  let ?l = "lwip_htonl ip AND 0xFF"
  let ?l' = "if 0x80 \<le> ?l then ?l - DHCPS_MAX_LEASE else ?l + 1"
  have h: "unat ?l = host24 ip" "host24 ip < 256" using unat_local_ip host24_less by auto
  have l': "unat ?l' = pool_start (host24 ip)"
  proof (cases "0x80 \<le> ?l")
    case True
    then have "128 \<le> host24 ip" unfolding word_le_nat_alt h(1) by simp
    moreover have "DHCPS_MAX_LEASE \<le> ?l" using True unfolding word_le_nat_alt h(1)
      by (simp add: DHCPS_MAX_LEASE_def)
    ultimately show ?thesis using True h(1) by (simp add: unat_sub pool_start_def DHCPS_MAX_LEASE_def)
  next
    case False
    then have "host24 ip < 128" unfolding word_le_nat_alt h(1) by simp
    moreover from this have "unat (?l + 1) = Suc (host24 ip)"
      using h(1) by (simp add: unat_plus_if_size word_size)
    ultimately show ?thesis using False by (simp add: pool_start_def)
  qed
  have small: "pool_start (host24 ip) + 99 < 256" using h(2) by (auto simp: pool_start_def)
  have e: "unat (?l' + DHCPS_MAX_LEASE - 1) = pool_start (host24 ip) + 99"
    using plus_99 small unfolding l' [symmetric] by blast
  have "unat ?l' < 256" "unat (?l' + DHCPS_MAX_LEASE - 1) < 256" using small unfolding e l' by simp_all
  from in_segment [OF this(1), of ip] in_segment [OF this(2), of ip] show
    "net24 (start_ip (default_pool ip)) = net24 ip" "net24 (end_ip (default_pool ip)) = net24 ip"
    "host24 (start_ip (default_pool ip)) = pool_start (host24 ip)"
    "host24 (end_ip (default_pool ip)) = pool_start (host24 ip) + 99"
    unfolding default_pool_def Let_def dhcps_lease.simps e l' by simp_all
qed

section \<open>The configured pool\<close>

lemma poll_valid_iff:
  "\<not> poll_invalid ip p \<longleftrightarrow>
    net24 (start_ip p) = net24 ip \<and> net24 (end_ip p) = net24 ip \<and>
    host24 (start_ip p) \<le> host24 (end_ip p) \<and> host24 (end_ip p) - host24 (start_ip p) \<le> 100 \<and>
    (host24 ip < host24 (start_ip p) \<or> host24 (end_ip p) < host24 ip)"
proof -
  have seg: "drop_bit 8 (lwip_htonl a) = drop_bit 8 (lwip_htonl ip) \<longleftrightarrow> net24 a = net24 ip" for a
    by (simp only: net24_eq_iff)
  show ?thesis
  proof (cases "net24 (start_ip p) = net24 ip \<and> net24 (end_ip p) = net24 ip")
    case True
    then have le: "lwip_htonl (start_ip p) \<le> lwip_htonl ip \<longleftrightarrow> host24 (start_ip p) \<le> host24 ip"
      "lwip_htonl ip \<le> lwip_htonl (end_ip p) \<longleftrightarrow> host24 ip \<le> host24 (end_ip p)"
      by (simp_all only: htonl_le_iff)
    have "DHCPS_MAX_LEASE < lwip_htonl (end_ip p) - lwip_htonl (start_ip p) \<longleftrightarrow>
        host24 (end_ip p) < host24 (start_ip p) \<or> 100 < host24 (end_ip p) - host24 (start_ip p)"
    proof (cases "host24 (start_ip p) \<le> host24 (end_ip p)")
      case le: True
      with True have "unat (lwip_htonl (end_ip p) - lwip_htonl (start_ip p)) =
          host24 (end_ip p) - host24 (start_ip p)" by (intro htonl_diff) auto
      with le show ?thesis by (simp add: word_less_nat_alt DHCPS_MAX_LEASE_def)
    next
      case False
      with True have "DHCPS_MAX_LEASE < lwip_htonl (end_ip p) - lwip_htonl (start_ip p)"
        by (intro htonl_diff_wraps) auto
      with False show ?thesis by simp
    qed
    with True show ?thesis unfolding poll_invalid_def Let_def seg le by (simp add: not_le) linarith
  next
    case False
    then show ?thesis unfolding poll_invalid_def Let_def seg by blast
  qed
qed

lemma poll_set_facts:
  "let p' = dhcps_poll_set ip p in
     net24 (start_ip p') = net24 ip \<and> net24 (end_ip p') = net24 ip \<and>
     host24 (start_ip p') \<le> host24 (end_ip p') \<and>
     host24 (end_ip p') - host24 (start_ip p') \<le> 100 \<and> \<not> in_pool p' ip \<and>
     (enable p \<and> net24 (start_ip p) = net24 ip \<and> net24 (end_ip p) = net24 ip \<and>
       host24 (start_ip p) \<le> host24 (end_ip p) \<and> host24 (end_ip p) - host24 (start_ip p) \<le> 100 \<and>
       \<not> in_pool p ip \<and> p' = p \<or>
      host24 (end_ip p') - host24 (start_ip p') = 99 \<and> host24 (end_ip p') < 255)"
proof (cases "enable p \<and> \<not> poll_invalid ip p")
  case True
  then have "dhcps_poll_set ip p = p" by (simp add: dhcps_poll_set_def)
  with True show ?thesis by (auto simp: poll_valid_iff in_pool_def Let_def)
next
  case False
  have d: "dhcps_poll_set ip p = default_pool ip" unfolding dhcps_poll_set_def if_not_P [OF False] ..
  have "host24 ip < 256" by (rule host24_less)
  then have "\<not> in_pool (default_pool ip) ip" "pool_start (host24 ip) + 99 < 255"
    by (auto simp: in_pool_def default_pool_range pool_start_def)
  then show ?thesis unfolding d Let_def by (simp add: default_pool_range)
qed

text \<open>
  The address pool of a starting server. Whatever is configured, the pool lies in the /24 network
  of the server's address, is not empty, has at most 101 addresses and does not contain the server's
  own address. A configured pool with these properties is used as it is; in every other case the pool
  has exactly 100 addresses.
\<close>

theorem poll_set_pool:
  "let p' = dhcps_poll_set ip p in
     net24 (start_ip p') = net24 ip \<and> net24 (end_ip p') = net24 ip \<and>
     host24 (start_ip p') \<le> host24 (end_ip p') \<and>
     host24 (end_ip p') - host24 (start_ip p') \<le> 100 \<and> \<not> in_pool p' ip \<and>
     (enable p \<and> net24 (start_ip p) = net24 ip \<and> net24 (end_ip p) = net24 ip \<and>
       host24 (start_ip p) \<le> host24 (end_ip p) \<and> host24 (end_ip p) - host24 (start_ip p) \<le> 100 \<and>
       \<not> in_pool p ip \<and> p' = p \<or>
      host24 (end_ip p') - host24 (start_ip p') = 99 \<and> host24 (end_ip p') < 255)"
  by (rule poll_set_facts)

end
