(* ===== verification/Dhcp_Props.thy ===== *)
theory Dhcp_Props
  imports Dhcp_Answers Dhcp_Pool
begin

text \<open>
  Properties of the whole DHCP server: the states it can reach keep the leases apart, what a message
  does to them, the timer, and the inputs on which it fails.
\<close>

section \<open>The timer\<close>

lemma tick_loop_filter:
  "tick_loop l = filter (\<lambda>n. dp_lease_timer (pnode n) \<noteq> 0) (map count_down l)"
  by (induction l) simp_all

lemma count_down_simps [simp]:
  "n_ip (count_down n) = n_ip n" "n_mac (count_down n) = n_mac n" "n_ptr (count_down n) = n_ptr n"
  by (simp_all add: count_down_def)

lemma lease_inv_filter: "lease_inv l \<Longrightarrow> lease_inv (filter P l)"
  by (simp add: lease_inv_def sorted_wrt_filter distinct_map_filter)

lemma lease_inv_count_down: "lease_inv (map count_down l) = lease_inv l"
  by (simp add: lease_inv_def sorted_wrt_map comp_def)

lemma tick_loop_inv: "lease_inv l \<Longrightarrow> lease_inv (tick_loop l)"
  by (simp add: tick_loop_filter lease_inv_filter lease_inv_count_down)

lemma unlink_filter: "distinct (map n_ptr l) \<Longrightarrow> unlink_node d l = filter (\<lambda>n. n_ptr n \<noteq> d) l"
  by (induction l) (auto simp: filter_other)

lemma oldest_least:
  "oldest m ps \<in> insert m (set ps) \<and>
    (\<forall>p \<in> insert m (set ps). dp_lease_timer (pnode (oldest m ps)) \<le> dp_lease_timer (pnode p))"
proof (induction ps arbitrary: m)
  case Nil
  then show ?case by simp
next
  case (Cons p ps)
  show ?case
  proof (cases "dp_lease_timer (pnode p) < dp_lease_timer (pnode m)")
    case True
    with Cons [of p] show ?thesis by (auto intro: order_trans less_imp_le)
  next
    case False
    with Cons [of m] show ?thesis by (auto intro: order_trans simp: not_less)
  qed
qed

lemma kill_oldest_filter:
  assumes "distinct (map n_ptr l)" "2 \<le> length l"
  shows "\<exists>n \<in> set (tl l). kill_oldest_dhcps_pool l = Inr (filter (\<lambda>q. n_ptr q \<noteq> n_ptr n) l) \<and>
    (\<forall>q \<in> set (tl l). dp_lease_timer (pnode n) \<le> dp_lease_timer (pnode q))"
proof -
  obtain h q qs where l: "l = h # q # qs" using assms(2) by (auto simp: numeral_2_eq_2 Suc_le_length_iff)
  let ?n = "oldest q (q # qs)"
  have n: "?n \<in> set (q # qs)" "\<forall>p \<in> set (q # qs). dp_lease_timer (pnode ?n) \<le> dp_lease_timer (pnode p)"
    using oldest_least [of q "q # qs"] by (metis insert_absorb2 list.simps(15))+
  have "n_ptr h \<noteq> n_ptr ?n" using assms(1) n(1) by (auto simp: l simp del: oldest.simps)
  moreover have "unlink_node (n_ptr ?n) (q # qs) = filter (\<lambda>q. n_ptr q \<noteq> n_ptr ?n) (q # qs)"
    by (rule unlink_filter) (use assms(1) l in simp)
  ultimately have "kill_oldest_dhcps_pool l = Inr (filter (\<lambda>q. n_ptr q \<noteq> n_ptr ?n) l)"
    by (simp add: l del: oldest.simps unlink_node.simps)
  with n show ?thesis unfolding l list.sel by blast
qed

text \<open>
  One second of the timer, for a list of at most 255 leases. The leases whose count runs out are
  gone and the others are counted down; if fewer than eight are left nothing else happens, and
  otherwise one more is removed, one with the least time left among all but the first. The first of
  the list, the one with the lowest address, is never removed this way, whatever its age.
\<close>

theorem timer_second:
  assumes "lease_inv l" "length l \<le> 255"
  shows "let left = filter (\<lambda>n. dp_lease_timer (pnode n) \<noteq> 0) (map count_down l) in
    (length left < 8 \<longrightarrow> dhcps_coarse_tmr l = Inr left) \<and>
    (8 \<le> length left \<longrightarrow> (\<exists>n \<in> set (tl left).
       dhcps_coarse_tmr l = Inr (filter (\<lambda>q. n_ptr q \<noteq> n_ptr n) left) \<and>
       hd left \<in> set (filter (\<lambda>q. n_ptr q \<noteq> n_ptr n) left) \<and>
       (\<forall>q \<in> set (tl left). dp_lease_timer (pnode n) \<le> dp_lease_timer (pnode q))))"
proof -
  define left where "left = tick_loop l"
  have inv: "lease_inv left" using tick_loop_inv [OF assms(1)] by (simp add: left_def)
  have "length left \<le> 255" using assms(2) by (auto simp: left_def tick_loop_filter intro: order_trans length_filter_le [THEN order_trans])
  then have cnt: "unat (of_nat (length left) :: byte) = length left" by (simp add: unat_of_length)
  have tm: "dhcps_coarse_tmr l = (if 8 \<le> length left then kill_oldest_dhcps_pool left else Inr left)"
    by (simp add: dhcps_coarse_tmr_def Let_def left_def [symmetric] cnt MAX_STATION_NUM_def)
  have "\<exists>n \<in> set (tl left). dhcps_coarse_tmr l = Inr (filter (\<lambda>q. n_ptr q \<noteq> n_ptr n) left) \<and>
      hd left \<in> set (filter (\<lambda>q. n_ptr q \<noteq> n_ptr n) left) \<and>
      (\<forall>q \<in> set (tl left). dp_lease_timer (pnode n) \<le> dp_lease_timer (pnode q))" if big: "8 \<le> length left"
  proof -
    have d: "distinct (map n_ptr left)" using inv by (simp add: lease_inv_def)
    obtain n where n: "n \<in> set (tl left)"
      "kill_oldest_dhcps_pool left = Inr (filter (\<lambda>q. n_ptr q \<noteq> n_ptr n) left)"
      "\<forall>q \<in> set (tl left). dp_lease_timer (pnode n) \<le> dp_lease_timer (pnode q)"
      using kill_oldest_filter [OF d] big by auto
    have "hd left \<in> set left" "n_ptr (hd left) \<noteq> n_ptr n" using big d n(1) by (cases left; auto)+
    with n big show ?thesis by (auto simp: tm)
  qed
  then show ?thesis unfolding Let_def tick_loop_filter [symmetric] left_def [symmetric] by (auto simp: tm)
qed

definition demo_leases :: "list_node list" where
  "demo_leases = map (\<lambda>i. \<lparr>n_ptr = i, pnode = \<lparr>dp_ip = of_nat i, dp_mac = [of_nat i],
     dp_lease_timer = if i = 1 then 2 else 100\<rparr>\<rparr>) [1, 2, 3, 4, 5, 6, 7, 8]"

theorem timer_second_witness:
  "\<exists>l. dhcps_coarse_tmr demo_leases = Inr l \<and>
     hd (map (\<lambda>n. dp_lease_timer (pnode n)) l) = 1 \<and> length l = 7"
proof -
  have inv: "lease_inv demo_leases" by (simp add: lease_inv_def demo_leases_def)
  have left: "filter (\<lambda>n. dp_lease_timer (pnode n) \<noteq> 0) (map count_down demo_leases) =
      map count_down demo_leases" by (simp add: demo_leases_def count_down_def)
  have n8: "length (map count_down demo_leases) = 8" by (simp add: demo_leases_def)
  from timer_second [OF inv, unfolded Let_def left] n8 obtain n where
    n: "n \<in> set (tl (map count_down demo_leases))"
    "dhcps_coarse_tmr demo_leases =
      Inr (filter (\<lambda>q. n_ptr q \<noteq> n_ptr n) (map count_down demo_leases))" by auto
  then have "n_ptr n \<in> {2, 3, 4, 5, 6, 7, 8}" by (auto simp: demo_leases_def)
  then have "hd (map (\<lambda>n. dp_lease_timer (pnode n))
       (filter (\<lambda>q. n_ptr q \<noteq> n_ptr n) (map count_down demo_leases))) = 1 \<and>
     length (filter (\<lambda>q. n_ptr q \<noteq> n_ptr n) (map count_down demo_leases)) = 7"
    by (auto simp: demo_leases_def count_down_def)
  with n(2) show ?thesis by blast
qed

section \<open>Reachable states\<close>

text \<open>
  The states of a server with this address. It starts with an empty list of leases, as the program does
  (\<open>dhcps_initial\<close>) and as \<open>dhcps_stop\<close> leaves it (\<open>stop_leaves_none\<close>), with any configured pool; then come
  packets, seconds of the timer and changes of the name server in any order.
\<close>

definition dhcps_tick :: "dhcps \<Rightarrow> dhcps result" where
  "dhcps_tick s = bindE (dhcps_coarse_tmr (plist s)) (\<lambda>l. Inr (s\<lparr>plist := l\<rparr>))"

inductive dhcps_reachable :: "u32 \<Rightarrow> dhcps \<Rightarrow> bool" for ip where
  start: "dhcps_start True had_pcb netif_ip ip s0 = Inr (out, s) \<Longrightarrow> plist s0 = [] \<Longrightarrow>
    dhcps_reachable ip s"
| packet: "dhcps_reachable ip s \<Longrightarrow> handle_dhcp ok gw p s = Inr (out, s') \<Longrightarrow> dhcps_reachable ip s'"
| tick: "dhcps_reachable ip s \<Longrightarrow> dhcps_tick s = Inr s' \<Longrightarrow> dhcps_reachable ip s'"
| name_server: "dhcps_reachable ip s \<Longrightarrow> dhcps_reachable ip (dhcps_dns_setserver d s)"

inductive_cases dhcps_reachableE: "dhcps_reachable ip s"

definition same_config :: "dhcps \<Rightarrow> dhcps \<Rightarrow> bool" where
  \<comment> \<open>what the server announces, and its pool\<close>
  "same_config s s' \<longleftrightarrow> server_address s' = server_address s \<and> dhcps_lease_time s' = dhcps_lease_time s \<and>
     dhcps_offer s' = dhcps_offer s \<and> dhcps_dns s' = dhcps_dns s \<and> dns_server s' = dns_server s \<and>
     broadcast_dhcps s' = broadcast_dhcps s \<and> dhcps_poll s' = dhcps_poll s"

lemma same_config_steps [simp]:
  "same_config s s" "same_config s (release_node nd s') = same_config s s'"
  "same_config s (s'\<lparr>client_address := a\<rparr>) = same_config s s'"
  "same_config s (s'\<lparr>client_address_plus := a\<rparr>) = same_config s s'"
  "same_config s (s'\<lparr>renew := b\<rparr>) = same_config s s'"
  "same_config s (s'\<lparr>plist := l\<rparr>) = same_config s s'"
  "same_config s (s'\<lparr>next_ptr := n\<rparr>) = same_config s s'"
  by (simp_all add: same_config_def release_node_def split: option.splits)

lemma pool_check_config: "pool_check m len nd s = Inr (ret, s') \<Longrightarrow> same_config s0 s' = same_config s0 s"
  by (auto simp: pool_check_def bindE_Inr_iff split: if_splits)

lemma new_lease_config: "new_lease b mac s = Inr (nd, s') \<Longrightarrow> same_config s0 s' = same_config s0 s"
  by (auto simp: new_lease_def Let_def split: if_splits)

lemma parse_msg_config: "parse_msg b m len s = Inr (ret, s') \<Longrightarrow> same_config s s'"
  by (auto simp: parse_msg_def Let_def bindE_Inr_iff pool_check_config new_lease_config
      split: if_splits prod.splits option.splits)

lemma start_pool_ok:
  assumes "start_ip (dhcps_poll_set ip p) \<noteq> 0" "host24 (end_ip (dhcps_poll_set ip p)) < 255"
  shows "pool_ok (dhcps_poll_set ip p)" "\<not> in_pool (dhcps_poll_set ip p) ip"
    "net24 (start_ip (dhcps_poll_set ip p)) = net24 ip"
proof -
  let ?p = "dhcps_poll_set ip p"
  have e: "net24 (start_ip ?p) = net24 ip" "net24 (end_ip ?p) = net24 ip"
    "host24 (start_ip ?p) \<le> host24 (end_ip ?p)" "\<not> in_pool ?p ip"
  proof -
    show "net24 (start_ip ?p) = net24 ip" "net24 (end_ip ?p) = net24 ip"
      "host24 (start_ip ?p) \<le> host24 (end_ip ?p)" "\<not> in_pool ?p ip"
      using poll_set_facts [of ip p] by (simp_all add: Let_def)
  qed
  from e assms show "pool_ok ?p" by (simp add: pool_ok_def)
  show "\<not> in_pool ?p ip" "net24 (start_ip ?p) = net24 ip" by (rule e)+
qed

lemma handle_dhcp_state:
  assumes "handle_dhcp ok gw p s = Inr (out, s')"
  shows "s' = s \<or> (\<exists>m len ret. parse_msg (lease_ok ok) m len s = Inr (ret, s'))"
  using assms
  by (auto simp: handle_dhcp_def Let_def bindE_Inr_iff split: option.splits if_splits)

lemma parse_msg_alloc:
  assumes "parse_msg b m len s = Inr r"
  shows "parse_msg True m len s = Inr r"
proof (cases b)
  case True
  then show ?thesis using assms by simp
next
  case False
  have "new_lease b mac t = Inr x \<Longrightarrow> new_lease True mac t = Inr x" for mac t x
    using False by (auto simp: new_lease_def split: if_splits)
  then have nl: "bindE (new_lease b mac t) f = Inr x \<Longrightarrow> bindE (new_lease True mac t) f = Inr x"
    for mac t f and x :: "int \<times> dhcps" by (cases "new_lease b mac t") auto
  show ?thesis
  proof (cases "field m off_options 4 = le_bytes magic_cookie")
    case True
    with assms nl show ?thesis by (auto simp: parse_msg_unfold split: prod.splits option.splits)
  next
    case False
    with assms show ?thesis by (simp add: parse_msg_def)
  qed
qed

lemma tick_inv:
  assumes "dhcps_inv s" "dhcps_tick s = Inr s'"
  shows "dhcps_inv s' \<and> dhcps_poll s' = dhcps_poll s \<and> server_address s' = server_address s"
proof -
  obtain l where l: "dhcps_coarse_tmr (plist s) = Inr l" "s' = s\<lparr>plist := l\<rparr>"
    using assms(2) by (auto simp: dhcps_tick_def bindE_Inr_iff)
  have inv: "lease_inv (tick_loop (plist s))" using assms(1) tick_loop_inv by (simp add: dhcps_inv_def)
  have "\<exists>P. l = filter P (tick_loop (plist s))"
  proof (cases "kill_oldest_dhcps_pool (tick_loop (plist s)) = Inr l")
    case True
    then have "2 \<le> length (tick_loop (plist s))"
      by (cases "tick_loop (plist s)" rule: kill_oldest_dhcps_pool.cases) auto
    then show ?thesis using kill_oldest_filter [of "tick_loop (plist s)"] inv True
      by (auto simp: lease_inv_def)
  next
    case False
    then have "l = tick_loop (plist s)" using l(1) by (auto simp: dhcps_coarse_tmr_def Let_def split: if_splits)
    then show ?thesis by (intro exI [of _ "\<lambda>_. True"]) simp
  qed
  then obtain P where P: "l = filter P (tick_loop (plist s))" by blast
  have "lease_inv l" unfolding P by (rule lease_inv_filter [OF inv])
  moreover have "\<exists>q \<in> set (plist s). n_ip n = n_ip q \<and> n_ptr n = n_ptr q" if "n \<in> set l" for n
    using that unfolding P tick_loop_filter by auto
  ultimately show ?thesis using assms(1) by (fastforce simp: dhcps_inv_def l(2))
qed

lemma handle_dhcp_config: "handle_dhcp ok gw p s = Inr (out, s') \<Longrightarrow> same_config s s'"
  using handle_dhcp_state parse_msg_config by fastforce

lemma stop_loop_nil: "stop_loop (length l) l = []"
  by (induction l) simp_all

lemma stop_leaves_none: "dhcps_stop (Some pcb) s = (out, pcb', s') \<Longrightarrow> plist s' = []"
  by (auto simp: dhcps_stop_def stop_loop_nil)

lemma tick_config: "dhcps_tick s = Inr s' \<Longrightarrow> same_config s s'"
  by (auto simp: dhcps_tick_def bindE_Inr_iff)

lemma reachable_inv:
  assumes "dhcps_reachable ip s" "start_ip (dhcps_poll s) \<noteq> 0" "host24 (end_ip (dhcps_poll s)) < 255"
  shows "dhcps_inv s \<and> \<not> in_pool (dhcps_poll s) ip \<and> net24 (start_ip (dhcps_poll s)) = net24 ip"
  using assms
proof (induction rule: dhcps_reachable.induct)
  case (start had_pcb netif_ip s0 out s)
  from start(1) have s: "dhcps_poll s = dhcps_poll_set ip (dhcps_poll s0)" "plist s = plist s0"
    "client_address_plus s = start_ip (dhcps_poll s)" by (auto simp: dhcps_start_def Let_def)
  note p = start_pool_ok [OF start(3,4) [unfolded s(1)]]
  have "in_pool (dhcps_poll s) (client_address_plus s)"
    using p(1) by (simp add: s in_pool_def pool_ok_def)
  with p start(2) s show ?case by (simp add: dhcps_inv_def lease_inv_def)
next
  case (packet s ok gw p out s')
  have "dhcps_poll s' = dhcps_poll s" using handle_dhcp_config [OF packet(2)] by (simp add: same_config_def)
  with packet show ?case
    using handle_dhcp_state [OF packet(2)] parse_msg_alloc parse_msg_inv by metis
next
  case (tick s s')
  have "dhcps_poll s' = dhcps_poll s" using tick_config [OF tick(2)] by (simp add: same_config_def)
  with tick show ?case using tick_inv by metis
next
  case (name_server s d)
  then show ?case by (cases d) (simp_all add: dhcps_dns_setserver_def dhcps_inv_def)
qed

text \<open>
  C2. The DHCP server never gives one address to two clients, if its pool does not begin with 0.0.0.0 and
  does not end in 255. The server starts with any configured pool and no leases; in every state it reaches
  from there through any packets whose handling does not fail (\<open>short_packets_safe\<close> and
  \<open>cut_off_option_overreads\<close> say which), any seconds of its timer and any change of the name server it
  announces, with any results of its allocations, no two clients have a lease of the same address, no
  client has two leases, and every leased address lies in the pool, in the network of the server, and is
  not the server's own address. The default pool never ends in 255, but a configured one may; then a client
  is leased an address outside the pool (\<open>pool_end_255_leases_outside\<close>).
\<close>

theorem leases_stay_apart:
  assumes "dhcps_reachable ip s" "start_ip (dhcps_poll s) \<noteq> 0" "host24 (end_ip (dhcps_poll s)) < 255"
    and "has_lease s mac1 ip1" "has_lease s mac2 ip2"
  shows "(ip1 = ip2 \<longleftrightarrow> mac1 = mac2) \<and> in_pool (dhcps_poll s) ip1 \<and> net24 ip1 = net24 ip \<and> ip1 \<noteq> ip"
proof -
  have inv: "dhcps_inv s" and ip: "\<not> in_pool (dhcps_poll s) ip" "net24 (start_ip (dhcps_poll s)) = net24 ip"
    using reachable_inv [OF assms(1-3)] by auto
  have li: "lease_inv (plist s)" using inv by (simp add: dhcps_inv_def)
  have "in_pool (dhcps_poll s) ip1" using assms(4) inv by (auto simp: has_lease_def dhcps_inv_def)
  moreover from this ip have "net24 ip1 = net24 ip" "ip1 \<noteq> ip" by (auto simp: in_pool_def)
  ultimately show ?thesis
    using leases.holds_one_ip [OF li] leases.holds_one_client [OF li] assms(4,5)
    by (auto simp: has_lease_holds)
qed

section \<open>Offers and acknowledgements\<close>

definition wf_request :: "packet \<Rightarrow> byte list \<Rightarrow> dhcp_opt list \<Rightarrow> bool" where
  \<comment> \<open>a packet of at most 543 bytes: the fixed part with the cookie, options, the end option, and padding\<close>
  "wf_request p hdr os \<longleftrightarrow> (\<exists>pad. packet_data p = hdr @ enc_opts os @ [255] @ pad) \<and> length hdr = 240 \<and>
     field hdr 236 4 = le_bytes magic_cookie \<and> (\<forall>x \<in> set os. opt_ok x) \<and>
     unat (pk_tot_len p) = length (packet_data p) \<and> length (packet_data p) \<le> 543"

definition all_ok :: mem_ok where
  "all_ok = \<lparr>msg_ok = True, lease_ok = True, pbuf_ok = True\<rparr>"

definition request_buffer :: "packet \<Rightarrow> byte list" where
  "request_buffer p = packet_data p @ replicate (548 - length (packet_data p)) 0"

definition asks :: "byte \<Rightarrow> dhcp_opt list \<Rightarrow> bool" where
  \<comment> \<open>the message type\<close>
  "asks t os \<longleftrightarrow> (\<exists>v. filter (\<lambda>x. fst x = 53) os \<noteq> [] \<and> last (filter (\<lambda>x. fst x = 53) os) = (53, t # v))"

definition wants :: "u32 \<Rightarrow> dhcp_opt list \<Rightarrow> bool" where
  \<comment> \<open>the requested address\<close>
  "wants ip os \<longleftrightarrow> filter (\<lambda>x. fst x = 50) os \<noteq> [] \<and>
     take 4 (snd (last (filter (\<lambda>x. fst x = 50) os))) = le_bytes ip"

lemma asks_meaning:
  "asks 1 os \<Longrightarrow> request_meaning c rn os = 1"
  "asks 3 os \<Longrightarrow> wants ip os \<Longrightarrow> request_meaning c rn os = (if le_bytes ip = le_bytes c then 3 else 4)"
  by (auto simp: asks_def wants_def request_meaning_def Let_def split: list.splits)

lemma le_bytes_inject: "le_bytes a = le_bytes b \<longleftrightarrow> a = b"
proof
  assume e: "le_bytes a = le_bytes b"
  show "a = b"
  proof (rule bit_word_eqI)
    fix n assume n: "n < LENGTH(32)"
    have bits: "bit (ucast (drop_bit k x) :: byte) i \<longleftrightarrow> i < 8 \<and> bit x (k + i)" for k i and x :: u32
      by (simp only: bit_ucast_iff bit_drop_bit_eq o_apply) (auto dest: word_bit_less)
    have "(ucast (drop_bit k a) :: byte) = ucast (drop_bit k b)" if "k \<in> {0, 8, 16, 24}" for k
      using e that by (auto simp: le_bytes_def ip4_addr1_def ip4_addr2_def ip4_addr3_def ip4_addr4_def)
    then have eq: "bit a (k + i) \<longleftrightarrow> bit b (k + i)" if "k \<in> {0, 8, 16, 24}" "i < 8" for k i
      using bits [of k a i] bits [of k b i] that by metis
    have "n div 8 < 4" using n by (simp add: div_less_iff_less_mult)
    then have "n div 8 = 0 \<or> n div 8 = 1 \<or> n div 8 = 2 \<or> n div 8 = 3" by linarith
    then have "n div 8 * 8 \<in> {0, 8, 16, 24}" by auto
    then have "bit a (n div 8 * 8 + n mod 8) \<longleftrightarrow> bit b (n div 8 * 8 + n mod 8)" by (rule eq) simp
    then show "bit a n \<longleftrightarrow> bit b n" by simp
  qed
qed simp

lemma wf_request_len:
  "wf_request p hdr os \<Longrightarrow> length (packet_data p) \<le> 543 \<and> unat (pk_tot_len p) = length (packet_data p)"
  unfolding wf_request_def by blast

lemma length_request_buffer: "wf_request p hdr os \<Longrightarrow> length (request_buffer p) = 548"
  using wf_request_len [of p hdr os] by (simp add: request_buffer_def)

lemma wf_request_parse:
  assumes inv: "dhcps_inv s" and wf: "wf_request p hdr os"
    and served: "(\<exists>ip. has_lease s (field hdr 28 6) ip) \<or> pool_free s"
  shows "\<exists>ret s' c rn. parse_msg True (request_buffer p) (int (unat (pk_tot_len p)) - 240) s = Inr (ret, s') \<and>
    dhcps_inv s' \<and> dhcps_poll s' = dhcps_poll s \<and> msg_effect s (field hdr 28 6) ret s' \<and>
    ret = request_meaning c rn os \<and> (ret \<noteq> DHCPS_STATE_RELEASE \<longrightarrow> c = client_address s')"
proof -
  let ?m = "request_buffer p" and ?len = "int (unat (pk_tot_len p)) - 240"
  obtain pad where pad: "packet_data p = hdr @ enc_opts os @ [255] @ pad" using wf by (auto simp: wf_request_def)
  define fill where "fill = pad @ replicate (548 - length (packet_data p)) 0"
  have m: "?m = hdr @ enc_opts os @ [255] @ fill" by (simp add: request_buffer_def fill_def pad)
  have hl: "length hdr = 240" using wf by (simp add: wf_request_def)
  have ck: "field ?m off_options 4 = le_bytes magic_cookie" and mac: "field ?m 28 6 = field hdr 28 6"
    using wf hl by (simp_all add: m field_def off_options_def wf_request_def)
  have lm: "length ?m = 548" by (rule length_request_buffer [OF wf])
  have tl: "unat (pk_tot_len p) = 241 + length (enc_opts os) + length pad" "unat (pk_tot_len p) \<le> 543"
    using wf_request_len [OF wf] pad hl by simp_all
  have "240 + ?len + 5 \<le> int (length ?m)" unfolding lm using tl(2) by linarith
  then obtain ret s' where pm: "parse_msg True ?m ?len s = Inr (ret, s')" using parse_msg_safe by blast
  obtain s2 where s2: "parse_options s2 ?m ?len = Inr ret" "ret \<noteq> DHCPS_STATE_RELEASE \<longrightarrow> s' = s2"
    using parse_msg_parses [OF inv ck pm] served mac by auto
  have lt: "int (length (enc_opts os)) < ?len" unfolding tl(1) by simp
  have opts: "\<forall>x \<in> set os. opt_ok x" using wf by (simp add: wf_request_def)
  have "parse_options s2 ?m ?len = Inr (request_meaning (client_address s2) (renew s2) os)"
    unfolding m by (rule parse_options_raw [OF hl opts lt])
  then have "ret = request_meaning (client_address s2) (renew s2) os" using s2(1) by simp
  with pm parse_msg_effect [OF inv ck pm] s2(2) mac show ?thesis by auto
qed

lemma wf_request_handle:
  assumes "wf_request p hdr os"
    "parse_msg True (request_buffer p) (int (unat (pk_tot_len p)) - 240) s = Inr (ret, s')"
  shows "handle_dhcp all_ok gw (Some p) s =
    bindE (if ret = DHCPS_STATE_OFFER then send_offer True gw s' (request_buffer p) 548
           else if ret = DHCPS_STATE_ACK then send_ack True gw s' (request_buffer p) 548
           else if ret = DHCPS_STATE_NAK then send_nak True s' (request_buffer p) 548
           else Inr []) (\<lambda>out. Inr (out, s'))"
proof -
  have tl: "length (packet_data p) \<le> 543" "unat (pk_tot_len p) = length (packet_data p)"
    using wf_request_len [OF assms(1)] by blast+
  have bl: "buffer_len p = 548" using tl by (simp add: buffer_len_def)
  have b: "packet_data p @ replicate (buffer_len p - length (packet_data p)) 0 = request_buffer p"
    "length (request_buffer p) = 548"
    using tl by (simp_all add: request_buffer_def bl)
  have "unat (pk_tot_len p) < 32768" "length (packet_data p) \<le> unat (pk_tot_len p)" "msg_ok all_ok"
    using tl by (simp_all add: all_ok_def)
  from handle_dhcp_unfold [OF this, of gw s] show ?thesis
    unfolding Let_def b using assms(2) by (simp add: all_ok_def)
qed

lemma discover_answer:
  assumes "dhcps_inv s" "wf_request p hdr os" "asks 1 os"
    and "(\<exists>ip. has_lease s (field hdr 28 6) ip) \<or> pool_free s"
  shows "\<exists>out s'. handle_dhcp all_ok gw (Some p) s = Inr ([UdpSendto out (broadcast_dhcps s') 68], s') \<and>
    answer_ok s' (request_buffer p) ((53, [2]) # offer_opts gw s') out \<and>
    has_lease s' (field hdr 28 6) (client_address s') \<and> in_pool (dhcps_poll s) (client_address s') \<and>
    (has_lease s (field hdr 28 6) (client_address s') \<or> client_address s' \<notin> leased s) \<and>
    dhcps_inv s' \<and> same_config s s'"
proof -
  from wf_request_parse [OF assms(1,2,4)] obtain ret s' c rn where pm:
    "parse_msg True (request_buffer p) (int (unat (pk_tot_len p)) - 240) s = Inr (ret, s')"
    "dhcps_inv s'" "dhcps_poll s' = dhcps_poll s" "msg_effect s (field hdr 28 6) ret s'"
    "ret = request_meaning c rn os" by blast
  have ret: "ret = DHCPS_STATE_OFFER" using pm(5) asks_meaning(1) [OF assms(3)] by (simp add: dhcps_states)
  have lease: "has_lease s' (field hdr 28 6) (client_address s')"
    "has_lease s (field hdr 28 6) (client_address s') \<or> client_address s' \<notin> leased s"
    using pm(4) assms(4) ret by (auto simp: msg_effect_def dhcps_states split: if_splits)
  then have "in_pool (dhcps_poll s) (client_address s')"
    using pm(2,3) by (auto simp: has_lease_def dhcps_inv_def)
  moreover have "DHCPS_MSG_SIZE \<le> length (request_buffer p)"
    using length_request_buffer [OF assms(2)] by (simp add: DHCPS_MSG_SIZE_def)
  from answers_decode_raw [OF this, of gw s'] obtain out where
    "send_offer True gw s' (request_buffer p) 548 = Inr [UdpSendto out (broadcast_dhcps s') 68]"
    "answer_ok s' (request_buffer p) ((53, [2]) # offer_opts gw s') out"
    unfolding length_request_buffer [OF assms(2)] by blast
  ultimately show ?thesis
    using wf_request_handle [OF assms(2) pm(1), of gw] ret lease pm(2) parse_msg_config [OF pm(1)] by auto
qed

text \<open>
  C3. A client that asks is offered an address. If the server has a lease for the client or a free
  address, it answers a discover with one offer that the client can read, for an address of the pool
  that is the client's earlier lease or was free, and holds that address for the client.
\<close>

theorem discover_is_offered:
  assumes "dhcps_inv s" "wf_request p hdr os" "asks 1 os"
    and "(\<exists>ip. has_lease s (field hdr 28 6) ip) \<or> pool_free s"
  shows "\<exists>out s'. handle_dhcp all_ok gw (Some p) s = Inr ([UdpSendto out (broadcast_dhcps s') 68], s') \<and>
    answer_ok s' (request_buffer p) ((53, [2]) # offer_opts gw s') out \<and>
    has_lease s' (field hdr 28 6) (client_address s') \<and> in_pool (dhcps_poll s) (client_address s') \<and>
    (has_lease s (field hdr 28 6) (client_address s') \<or> client_address s' \<notin> leased s)"
  using discover_answer [OF assms, of gw] by blast

lemma request_answer:
  assumes "dhcps_inv s" "wf_request p hdr os" "asks 3 os" "wants req os"
    and "has_lease s (field hdr 28 6) ip"
  shows "\<exists>out s'. handle_dhcp all_ok gw (Some p) s = Inr ([UdpSendto out (broadcast_dhcps s') 68], s') \<and>
    client_address s' = ip \<and> has_lease s' (field hdr 28 6) ip \<and>
    answer_ok s' (request_buffer p)
      (if req = ip then (53, [5]) # offer_opts gw s' else [(53, [6])]) out \<and>
    dhcps_inv s' \<and> same_config s s'"
proof -
  from wf_request_parse [OF assms(1,2)] assms(5) obtain ret s' c rn where pm:
    "parse_msg True (request_buffer p) (int (unat (pk_tot_len p)) - 240) s = Inr (ret, s')"
    "dhcps_inv s'" "dhcps_poll s' = dhcps_poll s" "msg_effect s (field hdr 28 6) ret s'"
    "ret = request_meaning c rn os" "ret \<noteq> DHCPS_STATE_RELEASE \<longrightarrow> c = client_address s'" by blast
  have ret0: "ret = (if req = c then 3 else 4)"
    using pm(5) asks_meaning(2) [OF assms(3,4)] by (simp add: le_bytes_inject)
  then have c: "c = client_address s'" using pm(6) by (auto simp: dhcps_states)
  have "has_lease s (field hdr 28 6) (client_address s')" "has_lease s' (field hdr 28 6) ip"
    using pm(4) assms(5) ret0 by (auto simp: msg_effect_def dhcps_states split: if_splits)
  then have ip: "client_address s' = ip"
    using leases.holds_one_ip [of "plist s"] assms(1,5) by (auto simp: has_lease_holds dhcps_inv_def)
  have "DHCPS_MSG_SIZE \<le> length (request_buffer p)"
    using length_request_buffer [OF assms(2)] by (simp add: DHCPS_MSG_SIZE_def)
  from answers_decode_raw [OF this, of gw s'] obtain o2 o3 where
    "send_ack True gw s' (request_buffer p) 548 = Inr [UdpSendto o2 (broadcast_dhcps s') 68]"
    "answer_ok s' (request_buffer p) ((53, [5]) # offer_opts gw s') o2"
    "send_nak True s' (request_buffer p) 548 = Inr [UdpSendto o3 (broadcast_dhcps s') 68]"
    "answer_ok s' (request_buffer p) [(53, [6])] o3"
    unfolding length_request_buffer [OF assms(2)] by blast
  then show ?thesis
    using wf_request_handle [OF assms(2) pm(1), of gw] ret0 c ip \<open>has_lease s' (field hdr 28 6) ip\<close>
      pm(2) parse_msg_config [OF pm(1)]
    by (cases "req = ip") (auto simp: dhcps_states)
qed

text \<open>
  C14. A client that requests its address is acknowledged, and no other address is. For a client that
  has a lease, a request that names the leased address is answered with one acknowledgement of that
  address, a request that names any other address with one refusal, and the lease stays as it is.
\<close>

theorem request_is_answered:
  assumes "dhcps_inv s" "wf_request p hdr os" "asks 3 os" "wants req os"
    and "has_lease s (field hdr 28 6) ip"
  shows "\<exists>out s'. handle_dhcp all_ok gw (Some p) s = Inr ([UdpSendto out (broadcast_dhcps s') 68], s') \<and>
    client_address s' = ip \<and> has_lease s' (field hdr 28 6) ip \<and>
    answer_ok s' (request_buffer p)
      (if req = ip then (53, [5]) # offer_opts gw s' else [(53, [6])]) out"
  using request_answer [OF assms, of gw] by blast

end
