(* ===== verification/Dhcp_Failures.thy ===== *)
theory Dhcp_Failures
  imports Dhcp_Props
begin

text \<open>
  A small network to show that the hypotheses of the DHCP properties hold together, and where the server
  fails: an option cut off at the end of a long packet, and a configured pool that ends in 255.
\<close>

section \<open>A running server and a client\<close>

definition demo_server :: u32 where
  \<comment> \<open>192.168.4.1\<close>
  "demo_server = 0x0104A8C0"

definition demo_started :: dhcps where
  "demo_started = snd (projr (dhcps_start True False demo_server demo_server dhcps_initial))"

definition demo_mac :: "byte list" where
  "demo_mac = [1, 2, 3, 4, 5, 6]"

definition demo_hdr :: "byte list" where
  "demo_hdr = replicate 28 0 @ demo_mac @ replicate 202 0 @ [0x63, 0x82, 0x53, 0x63]"

definition demo_packet :: "dhcp_opt list \<Rightarrow> packet" where
  "demo_packet os = \<lparr>pk_payload = demo_hdr @ enc_opts os @ [255], pk_next = None,
     pk_tot_len = of_nat (241 + length (enc_opts os))\<rparr>"

lemma demo_net: "net24 demo_server \<noteq> 0" "host24 demo_server = 1"
  by (simp_all add: demo_server_def net24_def host24_def drop_bit_eq_div)

lemma demo_start:
  "\<exists>out. dhcps_start True False demo_server demo_server dhcps_initial = Inr (out, demo_started)"
  "dhcps_poll demo_started = dhcps_poll_set demo_server (dhcps_poll dhcps_initial)"
  "plist demo_started = []"
  by (auto simp: demo_started_def dhcps_start_def Let_def dhcps_initial_def)

lemma demo_pool: "dhcps_poll demo_started = default_pool demo_server"
  by (simp add: demo_start(2) dhcps_poll_set_def dhcps_initial_def)

lemma demo_reachable: "dhcps_reachable demo_server demo_started"
  using demo_start(1) by (auto simp: dhcps_initial_def intro: dhcps_reachable.start)

lemma demo_pool_ok: "start_ip (dhcps_poll demo_started) \<noteq> 0" "host24 (end_ip (dhcps_poll demo_started)) < 255"
proof -
  have "net24 (0 :: u32) = 0" by (simp add: net24_def)
  moreover have "net24 (start_ip (dhcps_poll demo_started)) \<noteq> 0"
    using demo_net(1) unfolding demo_pool default_pool_range .
  ultimately show "start_ip (dhcps_poll demo_started) \<noteq> 0" by metis
  show "host24 (end_ip (dhcps_poll demo_started)) < 255"
    by (simp add: demo_pool default_pool_range demo_net pool_start_def)
qed

lemma demo_inv: "dhcps_inv demo_started"
  using reachable_inv [OF demo_reachable demo_pool_ok] by blast

lemma demo_free: "pool_free demo_started"
proof -
  have "in_pool (dhcps_poll demo_started) (client_address_plus demo_started)"
    using demo_inv by (simp add: dhcps_inv_def)
  then show ?thesis by (auto simp: pool_free_def leased_def demo_start(3))
qed

lemma demo_hdr_fields:
  "length demo_hdr = 240" "field demo_hdr 28 6 = demo_mac" "field demo_hdr 236 4 = le_bytes magic_cookie"
  by (simp_all add: demo_hdr_def demo_mac_def field_def le_bytes_def magic_cookie_def ip4_addr1_def
      ip4_addr2_def ip4_addr3_def ip4_addr4_def drop_bit_eq_div)

lemma demo_packet_wf:
  assumes "\<forall>x \<in> set os. opt_ok x" "length (enc_opts os) \<le> 302"
  shows "wf_request (demo_packet os) demo_hdr os"
proof -
  have "unat (of_nat (241 + length (enc_opts os)) :: u16) = 241 + length (enc_opts os)"
    using assms(2) by (simp only: unsigned_of_nat) (simp add: take_bit_nat_eq_self)
  then show ?thesis
    using assms demo_hdr_fields unfolding wf_request_def
    by (intro conjI exI [of _ "[]"]) (simp_all add: demo_packet_def packet_data_def)
qed

lemma demo_discover: "wf_request (demo_packet [(53, [1])]) demo_hdr [(53, [1])]"
  by (rule demo_packet_wf) (simp_all add: opt_ok_def)

theorem discover_is_offered_witness:
  "\<exists>out s'. handle_dhcp all_ok demo_server (Some (demo_packet [(53, [1])])) demo_started =
     Inr ([UdpSendto out (broadcast_dhcps s') 68], s') \<and>
   has_lease s' demo_mac (client_address s')"
proof -
  have "asks 1 [(53, [1])]" by (simp add: asks_def)
  from discover_is_offered [OF demo_inv demo_discover this, of demo_server] demo_free
  show ?thesis unfolding demo_hdr_fields(2) by blast
qed

lemma demo_served:
  obtains s ip where "dhcps_reachable demo_server s" "dhcps_inv s" "dhcps_poll s = dhcps_poll demo_started"
    "has_lease s demo_mac ip"
proof -
  have "asks 1 [(53, [1])]" by (simp add: asks_def)
  from discover_answer [OF demo_inv demo_discover this, of demo_server] demo_free obtain out s' where
    "handle_dhcp all_ok demo_server (Some (demo_packet [(53, [1])])) demo_started =
      Inr ([UdpSendto out (broadcast_dhcps s') 68], s')"
    "has_lease s' demo_mac (client_address s')" "dhcps_inv s'" "same_config demo_started s'"
    unfolding demo_hdr_fields(2) by blast
  moreover from this(1) have "dhcps_reachable demo_server s'" by (rule dhcps_reachable.packet [OF demo_reachable])
  ultimately show thesis using that [of s'] by (simp add: same_config_def)
qed

theorem leases_stay_apart_witness:
  "\<exists>s ip. dhcps_reachable demo_server s \<and> has_lease s demo_mac ip \<and> ip \<noteq> demo_server"
proof -
  obtain s ip where s: "dhcps_reachable demo_server s" "dhcps_poll s = dhcps_poll demo_started" "has_lease s demo_mac ip"
    by (rule demo_served)
  then show ?thesis using leases_stay_apart [OF s(1) _ _ s(3,3)] demo_pool_ok by auto
qed

theorem short_packets_safe_witness:
  "\<exists>out s'. handle_dhcp all_ok demo_server (Some (demo_packet [(53, [1])])) demo_started = Inr (out, s')"
proof -
  have "unat (pk_tot_len (demo_packet [(53, [1])])) \<le> 543"
    "length (packet_data (demo_packet [(53, [1])])) \<le> unat (pk_tot_len (demo_packet [(53, [1])]))"
    using wf_request_len [OF demo_discover] by simp_all
  from short_packets_safe [OF demo_inv this, of all_ok demo_server] show ?thesis
    by (auto simp: all_ok_def)
qed

theorem request_is_answered_witness:
  "\<exists>s ip out s'. dhcps_reachable demo_server s \<and> has_lease s demo_mac ip \<and>
     handle_dhcp all_ok demo_server (Some (demo_packet [(53, [3]), (50, le_bytes ip)])) s =
       Inr ([UdpSendto out (broadcast_dhcps s') 68], s') \<and> client_address s' = ip"
proof -
  obtain s ip where s: "dhcps_reachable demo_server s" "has_lease s demo_mac ip" "dhcps_inv s"
    by (rule demo_served)
  let ?os = "[(53, [3]), (50, le_bytes ip)]"
  have wf: "wf_request (demo_packet ?os) demo_hdr ?os"
    by (rule demo_packet_wf) (simp_all add: opt_ok_def)
  have "asks 3 ?os" "wants ip ?os" by (simp_all add: asks_def wants_def)
  from request_is_answered [OF _ wf this, of s ip demo_server] s(2,3)
  have "\<exists>out s'. handle_dhcp all_ok demo_server (Some (demo_packet ?os)) s =
      Inr ([UdpSendto out (broadcast_dhcps s') 68], s') \<and> client_address s' = ip"
    by (auto simp: demo_hdr_fields)
  with s show ?thesis by blast
qed

section \<open>A pool that ends in 255\<close>

definition pool_255 :: dhcps_lease where
  \<comment> \<open>the one address 192.168.4.255\<close>
  "pool_255 = \<lparr>enable = True, start_ip = 0xFF04A8C0, end_ip = 0xFF04A8C0\<rparr>"

definition discover_of :: "byte list \<Rightarrow> byte list" where
  "discover_of mac = replicate 28 0 @ mac @ replicate 202 0 @ [0x63, 0x82, 0x53, 0x63, 53, 1, 1, 255]"

text \<open>
  The server accepts a pool that ends in 255. When that address is taken the search goes on with the
  next one, 192.168.5.0, and the test for the end of the pool compares addresses in the order of the
  network, in which it is smaller: the next client is leased an address outside the pool.
\<close>

lemma pool_end_255_leases_outside:
  "case dhcps_start True False demo_server demo_server (dhcps_initial\<lparr>dhcps_poll := pool_255\<rparr>) of
     Inl _ \<Rightarrow> False
   | Inr (_, s) \<Rightarrow> dhcps_poll s = pool_255 \<and>
       (case parse_msg True (discover_of [1, 2, 3, 4, 5, 6]) 4 s of
          Inl _ \<Rightarrow> False
        | Inr (_, s1) \<Rightarrow>
            (case parse_msg True (discover_of [1, 2, 3, 4, 5, 7]) 4 s1 of
               Inl _ \<Rightarrow> False
             | Inr (ret, s2) \<Rightarrow> ret = DHCPS_STATE_OFFER \<and> map n_ip (plist s2) = [0x0005A8C0, 0xFF04A8C0]))"
  by code_simp

section \<open>An option cut off at the end of a packet\<close>

lemma parse_loop_only_overflow:
  "parse_loop m client lim p ts = Inl e \<Longrightarrow> e = BufferOverflow"
proof (induction m client lim p ts rule: parse_loop.induct)
  case (1 m client lim p ts)
  have step: "option_step m client p ts = Inl e \<Longrightarrow> e = BufferOverflow"
    by (cases ts) (auto simp: option_step_def read_byte_def read_field_def split: if_splits)
  show ?case
  proof (cases "int p < lim")
    case True
    show ?thesis
    proof (cases "option_step m client p ts")
      case (Inl e')
      then show ?thesis using "1.prems" True step by (subst (asm) parse_loop.simps) simp
    next
      case (Inr ts')
      then show ?thesis using "1.prems" True "1.IH" [OF True]
        by (subst (asm) parse_loop.simps)
          (auto simp: read_byte_def split: if_splits)
    qed
  next
    case False
    then show ?thesis using "1.prems" by (simp add: parse_loop_stop)
  qed
qed

lemma pool_check_only_overflow:
  "pool_check m len nd s = Inl e \<Longrightarrow> e = BufferOverflow"
  by (cases "parse_options s m len")
    (auto simp: pool_check_def parse_options_def split: if_splits sum.splits prod.splits
      dest: parse_loop_only_overflow simp: bindE_def)

lemma parse_msg_only_overflow:
  assumes "field m off_options 4 = le_bytes magic_cookie" "parse_msg True m len s = Inl e"
  shows "parse_msg True m len s = Inl BufferOverflow"
proof -
  have "new_lease True mac t \<noteq> Inl e" for mac t by (simp add: new_lease_def Let_def)
  with assms(2) have "e = BufferOverflow"
    by (auto simp: parse_msg_unfold [OF assms(1)] bindE_def pool_check_only_overflow
        split: prod.splits option.splits sum.splits)
  with assms(2) show ?thesis by simp
qed

text \<open>
  C33. A long packet can make the server read past its message. If a packet of 548 bytes or more ends
  in the type of an option whose length and value are missing, then, whatever the server's state, the
  server reads beyond the memory it allocated for the message when it comes to that option.
\<close>

theorem cut_off_option_overreads:
  assumes "dhcps_inv s" "length hdr = 240" "field hdr 236 4 = le_bytes magic_cookie"
    and "\<forall>x \<in> set os. opt_ok x" "t \<noteq> 255"
    and "packet_data p = hdr @ enc_opts os @ [t]" "unat (pk_tot_len p) = length (packet_data p)"
    and "548 \<le> unat (pk_tot_len p)" "unat (pk_tot_len p) < 32768"
    and "(\<exists>ip. has_lease s (field hdr 28 6) ip) \<or> pool_free s" "msg_ok ok" "lease_ok ok"
  shows "handle_dhcp ok gw (Some p) s = Inl BufferOverflow"
proof -
  let ?m = "packet_data p" and ?len = "int (unat (pk_tot_len p)) - 240"
  have buf: "?m @ replicate (buffer_len p - length ?m) 0 = ?m" using assms(7,8) by (simp add: buffer_len_def)
  have ck: "field ?m off_options 4 = le_bytes magic_cookie"
    using assms(2,3) by (simp add: assms(6) field_def off_options_def)
  have lm: "length ?m = 241 + length (enc_opts os)" by (simp add: assms(2,6))
  have po: "parse_options s2 ?m ?len = Inl BufferOverflow" for s2
  proof -
    have "parse_loop ?m (client_address s2) (240 + ?len) (length hdr) (0, DHCPS_STATE_IDLE) =
        parse_loop ?m (client_address s2) (240 + ?len) (length hdr + length (enc_opts os))
          (foldl (opt_seen (client_address s2)) (0, DHCPS_STATE_IDLE) os)"
      by (rule parse_loop_enc [where rest = "[t]"]) (use assms(2,4,6,7) lm in auto)
    also have "\<dots> = Inl BufferOverflow"
      by (rule parse_loop_last_byte) (use assms(2,5,7) lm in \<open>auto simp: assms(6) nth_append\<close>)
    finally show ?thesis using assms(2) by (simp add: parse_options_def off_options_def)
  qed
  have "parse_msg True ?m ?len s = Inl BufferOverflow"
  proof (cases "parse_msg True ?m ?len s")
    case (Inr r)
    then obtain ret s' where "parse_msg True ?m ?len s = Inr (ret, s')" by (cases r) auto
    from parse_msg_parses [OF assms(1) ck this] assms(10) po show ?thesis
      by (auto simp: assms(6) field_def assms(2))
  next
    case (Inl e)
    then show ?thesis by (rule parse_msg_only_overflow [OF ck])
  qed
  then show ?thesis
    using handle_dhcp_unfold [of p ok gw s] assms(7,9,11,12) by (simp add: buf Let_def)
qed

definition demo_cut :: packet where
  \<comment> \<open>two options that are skipped, and the type of a third as the last of 548 bytes\<close>
  "demo_cut = \<lparr>pk_payload = demo_hdr @ enc_opts [(1, replicate 255 0), (1, replicate 48 0)] @ [53],
     pk_next = None, pk_tot_len = 548\<rparr>"

theorem cut_off_option_overreads_witness:
  "handle_dhcp all_ok demo_server (Some demo_cut) demo_started = Inl BufferOverflow"
proof (rule cut_off_option_overreads [OF demo_inv demo_hdr_fields(1,3)])
  show "packet_data demo_cut = demo_hdr @ enc_opts [(1, replicate 255 0), (1, replicate 48 0)] @ [53]"
    by (simp add: packet_data_def demo_cut_def)
  then show "unat (pk_tot_len demo_cut) = length (packet_data demo_cut)"
    by (simp add: demo_hdr_fields enc_opts_def enc_opt_def) (simp add: demo_cut_def)
qed (use demo_free in \<open>auto simp: opt_ok_def demo_cut_def all_ok_def\<close>)

end
