(* ===== verification/Netif.thy ===== *)
theory Netif
  imports Net_Addr
begin

text \<open>
  Network interfaces: \<open>components/lwip/core/netif.c\<close> in the configuration of this device (IPv4, ARP and
  IGMP, no loop interface, no status or link callbacks) and the initialisation routines of the WiFi and
  Ethernet drivers in \<open>port/netif\<close>. The interfaces are linked into a list through their \<open>next\<close> fields, so
  they live in a store from pointers to structures: adding an interface that is already linked makes
  the list circular, and a loop along it need not end. Calls into the rest of the stack are recorded.
\<close>

section \<open>The interface structure\<close>

type_synonym nptr = nat

definition NETIF_FLAG_UP :: u8 where "NETIF_FLAG_UP = 0x01"
definition NETIF_FLAG_BROADCAST :: u8 where "NETIF_FLAG_BROADCAST = 0x02"
definition NETIF_FLAG_LINK_UP :: u8 where "NETIF_FLAG_LINK_UP = 0x04"
definition NETIF_FLAG_ETHARP :: u8 where "NETIF_FLAG_ETHARP = 0x08"
definition NETIF_FLAG_IGMP :: u8 where "NETIF_FLAG_IGMP = 0x20"

lemmas netif_flags = NETIF_FLAG_UP_def NETIF_FLAG_BROADCAST_def NETIF_FLAG_LINK_UP_def
  NETIF_FLAG_ETHARP_def NETIF_FLAG_IGMP_def

record netif =
  nf_next :: "nptr option"
  nf_ip :: u32
  nf_netmask :: u32
  nf_gw :: u32
  nf_last_ip :: u32
  nf_flags :: u8
  nf_num :: u8
  nf_name :: "byte list"          \<comment> \<open>two characters\<close>
  nf_hwaddr :: "byte list"
  nf_hostname :: string
  nf_mtu :: nat
  nf_dhcp :: bool                 \<comment> \<open>a DHCP client is attached\<close>
  nf_dhcps_pcb :: bool            \<comment> \<open>a DHCP server's control block is attached\<close>

definition netif_zero :: netif where
  \<comment> \<open>what \<open>calloc\<close> gives\<close>
  "netif_zero =
     \<lparr>nf_next = None, nf_ip = 0, nf_netmask = 0, nf_gw = 0, nf_last_ip = 0, nf_flags = 0, nf_num = 0,
      nf_name = [0, 0], nf_hwaddr = replicate 6 0, nf_hostname = [], nf_mtu = 0, nf_dhcp = False,
      nf_dhcps_pcb = False\<rparr>"

datatype net_call =
    TcpAddrChanged u32 "u32 option"      \<comment> \<open>\<open>tcp_netif_ipv4_addr_changed\<close>\<close>
  | UdpAddrChanged u32 "u32 option"      \<comment> \<open>\<open>udp_netif_ipv4_addr_changed\<close>\<close>
  | GratuitousArp nptr                   \<comment> \<open>\<open>etharp_gratuitous\<close>\<close>
  | ArpCleanup nptr                      \<comment> \<open>\<open>etharp_cleanup_netif\<close>\<close>
  | IgmpStart nptr
  | IgmpStop nptr
  | IgmpReport nptr                      \<comment> \<open>\<open>igmp_report_groups\<close>\<close>
  | DhcpNetworkChanged nptr

record nstate =
  n_store :: "nptr \<Rightarrow> netif"
  n_list :: "nptr option"                \<comment> \<open>\<open>netif_list\<close>\<close>
  n_default :: "nptr option"             \<comment> \<open>\<open>netif_default\<close>\<close>
  n_num :: u8                            \<comment> \<open>\<open>netif_num\<close>\<close>
  n_log :: "net_call list"

definition net_initial :: nstate where
  "net_initial = \<lparr>n_store = (\<lambda>_. netif_zero), n_list = None, n_default = None, n_num = 0, n_log = []\<rparr>"

definition upd_nif :: "nptr \<Rightarrow> (netif \<Rightarrow> netif) \<Rightarrow> nstate \<Rightarrow> nstate" where
  "upd_nif p f s = s\<lparr>n_store := (n_store s)(p := f (n_store s p))\<rparr>"

definition net_call :: "net_call list \<Rightarrow> nstate \<Rightarrow> nstate" where
  "net_call cs s = s\<lparr>n_log := n_log s @ cs\<rparr>"

definition flag_set :: "u8 \<Rightarrow> netif \<Rightarrow> bool" where
  "flag_set f n \<longleftrightarrow> nf_flags n AND f \<noteq> 0"

definition netif_is_up :: "nptr option \<Rightarrow> nstate \<Rightarrow> bool" where
  \<comment> \<open>with this stack's test for a null pointer\<close>
  "netif_is_up o_p s \<longleftrightarrow> (case o_p of None \<Rightarrow> False | Some p \<Rightarrow> flag_set NETIF_FLAG_UP (n_store s p))"

section \<open>Addresses and flags\<close>

definition NETIF_REPORT_TYPE_IPV4 :: u8 where "NETIF_REPORT_TYPE_IPV4 = 0x01"
definition NETIF_REPORT_TYPE_IPV6 :: u8 where "NETIF_REPORT_TYPE_IPV6 = 0x02"

definition netif_issue_reports :: "nptr \<Rightarrow> u8 \<Rightarrow> nstate \<Rightarrow> nstate" where
  "netif_issue_reports p report_type s =
     (let n = n_store s p in
      if report_type AND NETIF_REPORT_TYPE_IPV4 \<noteq> 0 \<and> nf_ip n \<noteq> 0
      then net_call ((if flag_set NETIF_FLAG_ETHARP n then [GratuitousArp p] else []) @
                     (if flag_set NETIF_FLAG_IGMP n then [IgmpReport p] else [])) s
      else s)"

definition netif_set_ipaddr :: "nptr \<Rightarrow> u32 option \<Rightarrow> nstate \<Rightarrow> nstate" where
  "netif_set_ipaddr p ipaddr s =
     (let new_addr = (case ipaddr of None \<Rightarrow> IPADDR_ANY | Some a \<Rightarrow> a);
          last = nf_last_ip (n_store s p);
          s1 = (if new_addr \<noteq> nf_ip (n_store s p) then
                  netif_issue_reports p NETIF_REPORT_TYPE_IPV4
                    (upd_nif p (\<lambda>n. n\<lparr>nf_ip := new_addr\<rparr>)
                      (net_call [TcpAddrChanged last ipaddr, UdpAddrChanged last ipaddr] s))
                else s)
      in case ipaddr of
           None \<Rightarrow> s1
         | Some a \<Rightarrow> if a \<noteq> 0 then upd_nif p (\<lambda>n. n\<lparr>nf_last_ip := a\<rparr>) s1 else s1)"

definition netif_set_gw :: "nptr \<Rightarrow> u32 option \<Rightarrow> nstate \<Rightarrow> nstate" where
  "netif_set_gw p g = upd_nif p (\<lambda>n. n\<lparr>nf_gw := (case g of None \<Rightarrow> 0 | Some a \<Rightarrow> a)\<rparr>)"

definition netif_set_netmask :: "nptr \<Rightarrow> u32 option \<Rightarrow> nstate \<Rightarrow> nstate" where
  "netif_set_netmask p m = upd_nif p (\<lambda>n. n\<lparr>nf_netmask := (case m of None \<Rightarrow> 0 | Some a \<Rightarrow> a)\<rparr>)"

definition netif_set_addr :: "nptr \<Rightarrow> u32 option \<Rightarrow> u32 option \<Rightarrow> u32 option \<Rightarrow> nstate \<Rightarrow> nstate" where
  "netif_set_addr p ipaddr netmask gw s =
     netif_set_ipaddr p ipaddr (netif_set_gw p gw (netif_set_netmask p netmask s))"

definition netif_set_default :: "nptr option \<Rightarrow> nstate \<Rightarrow> nstate" where
  "netif_set_default o_p s = s\<lparr>n_default := o_p\<rparr>"

definition set_flag :: "u8 \<Rightarrow> netif \<Rightarrow> netif" where
  "set_flag f n = n\<lparr>nf_flags := nf_flags n OR f\<rparr>"

definition clear_flag :: "u8 \<Rightarrow> netif \<Rightarrow> netif" where
  "clear_flag f n = n\<lparr>nf_flags := nf_flags n AND NOT f\<rparr>"

definition netif_set_up :: "nptr \<Rightarrow> nstate \<Rightarrow> nstate" where
  "netif_set_up p s =
     (if \<not> flag_set NETIF_FLAG_UP (n_store s p) then
        let s1 = upd_nif p (set_flag NETIF_FLAG_UP) s in
        if flag_set NETIF_FLAG_LINK_UP (n_store s1 p)
        then netif_issue_reports p (NETIF_REPORT_TYPE_IPV4 OR NETIF_REPORT_TYPE_IPV6) s1
        else s1
      else s)"

definition netif_set_down :: "nptr \<Rightarrow> nstate \<Rightarrow> nstate" where
  "netif_set_down p s =
     (if flag_set NETIF_FLAG_UP (n_store s p) then
        let s1 = upd_nif p (clear_flag NETIF_FLAG_UP) s in
        if flag_set NETIF_FLAG_ETHARP (n_store s1 p) then net_call [ArpCleanup p] s1 else s1
      else s)"

definition netif_set_link_up :: "nptr \<Rightarrow> nstate \<Rightarrow> nstate" where
  "netif_set_link_up p s =
     (if \<not> flag_set NETIF_FLAG_LINK_UP (n_store s p) then
        let s1 = upd_nif p (set_flag NETIF_FLAG_LINK_UP) s;
            s2 = (if nf_dhcp (n_store s1 p) then net_call [DhcpNetworkChanged p] s1 else s1)
        in if flag_set NETIF_FLAG_UP (n_store s2 p)
           then netif_issue_reports p (NETIF_REPORT_TYPE_IPV4 OR NETIF_REPORT_TYPE_IPV6) s2
           else s2
      else s)"

definition netif_set_link_down :: "nptr \<Rightarrow> nstate \<Rightarrow> nstate" where
  "netif_set_link_down p s =
     (if flag_set NETIF_FLAG_LINK_UP (n_store s p) then upd_nif p (clear_flag NETIF_FLAG_LINK_UP) s
      else s)"

section \<open>The list of interfaces\<close>

type_synonym netif_init_fn = "netif \<Rightarrow> int \<times> netif"

definition ERR_OK :: int where "ERR_OK = 0"
definition ERR_MEM :: int where "ERR_MEM = - 1"

definition netif_reset :: "u8 \<Rightarrow> netif \<Rightarrow> netif" where
  \<comment> \<open>\<open>netif_add\<close> up to the call of \<open>netif_set_addr\<close>\<close>
  "netif_reset num n =
     n\<lparr>nf_ip := 0, nf_netmask := 0, nf_gw := 0, nf_flags := 0, nf_dhcp := False,
       nf_dhcps_pcb := False, nf_num := num\<rparr>"

definition netif_add ::
  "nptr \<Rightarrow> u32 \<Rightarrow> u32 \<Rightarrow> u32 \<Rightarrow> netif_init_fn option \<Rightarrow> nstate \<Rightarrow> (bool \<times> nstate) result" where
  \<comment> \<open>\<open>False\<close> for the null pointer\<close>
  "netif_add p ipaddr netmask gw o_init s =
     (case o_init of
        None \<Rightarrow> Inl AssertFail
      | Some init \<Rightarrow>
          let s1 = (upd_nif p (netif_reset (n_num s)) s)\<lparr>n_num := n_num s + 1\<rparr>;
              s2 = netif_set_addr p (Some ipaddr) (Some netmask) (Some gw) s1;
              (err, n) = init (n_store s2 p);
              s3 = upd_nif p (\<lambda>_. n) s2
          in if err \<noteq> ERR_OK then Inr (False, s3)
             else let s4 = (upd_nif p (\<lambda>n. n\<lparr>nf_next := n_list s3\<rparr>) s3)\<lparr>n_list := Some p\<rparr>
                  in Inr (True, if flag_set NETIF_FLAG_IGMP (n_store s4 p)
                                then net_call [IgmpStart p] s4 else s4))"

partial_function (option) find_prev :: "(nptr \<Rightarrow> netif) \<Rightarrow> nptr \<Rightarrow> nptr option \<Rightarrow> nptr option option" where
  \<comment> \<open>the loop of \<open>netif_remove\<close>: the element whose next is the one sought, or the null pointer\<close>
  "find_prev st p cur =
     (case cur of
        None \<Rightarrow> Some None
      | Some q \<Rightarrow> if nf_next (st q) = Some p then Some (Some q) else find_prev st p (nf_next (st q)))"

definition netif_unlink :: "nptr \<Rightarrow> nstate \<Rightarrow> nstate result" where
  "netif_unlink p s =
     (if n_list s = Some p then Inr (s\<lparr>n_list := nf_next (n_store s p)\<rparr>)
      else case find_prev (n_store s) p (n_list s) of
             None \<Rightarrow> Inl Hang
           | Some None \<Rightarrow> Inr s
           | Some (Some q) \<Rightarrow> Inr (upd_nif q (\<lambda>n. n\<lparr>nf_next := nf_next (n_store s p)\<rparr>) s))"

definition netif_remove :: "nptr option \<Rightarrow> nstate \<Rightarrow> nstate result" where
  "netif_remove o_p s =
     (case o_p of
        None \<Rightarrow> Inr s
      | Some p \<Rightarrow>
          let s1 = (if nf_ip (n_store s p) \<noteq> 0
                    then net_call [TcpAddrChanged (nf_ip (n_store s p)) None] s else s);
              s2 = (if flag_set NETIF_FLAG_IGMP (n_store s1 p) then net_call [IgmpStop p] s1 else s1);
              s3 = netif_set_down p s2;
              s4 = upd_nif p (\<lambda>n. n\<lparr>nf_dhcp := False\<rparr>) s3;
              s5 = (if n_default s4 = Some p then netif_set_default None s4 else s4)
          in netif_unlink p s5)"

definition name_matches :: "u8 \<Rightarrow> byte list \<Rightarrow> netif \<Rightarrow> bool" where
  "name_matches num nm n \<longleftrightarrow> num = nf_num n \<and> nm = nf_name n"

partial_function (option) find_loop ::
  "(nptr \<Rightarrow> netif) \<Rightarrow> (netif \<Rightarrow> bool) \<Rightarrow> nptr option \<Rightarrow> nptr option option" where
  \<comment> \<open>the loop of \<open>netif_find\<close>, for the test it makes\<close>
  "find_loop st matches cur =
     (case cur of
        None \<Rightarrow> Some None
      | Some q \<Rightarrow> if matches (st q) then Some (Some q) else find_loop st matches (nf_next (st q)))"

definition netif_find :: "byte list option \<Rightarrow> nstate \<Rightarrow> nptr option result" where
  \<comment> \<open>the name with its terminator; three of its bytes are read\<close>
  "netif_find name s =
     (case name of
        None \<Rightarrow> Inr None
      | Some nm \<Rightarrow>
          if length nm < 3 then Inl BufferOverflow
          else case find_loop (n_store s) (name_matches (nm ! 2 - 48) (take 2 nm)) (n_list s) of
                 None \<Rightarrow> Inl Hang
               | Some r \<Rightarrow> Inr r)"

section \<open>Drivers\<close>

definition low_level_init :: "netif \<Rightarrow> netif" where
  "low_level_init n =
     n\<lparr>nf_mtu := 1500,
       nf_flags := (NETIF_FLAG_BROADCAST OR NETIF_FLAG_ETHARP OR NETIF_FLAG_LINK_UP) OR NETIF_FLAG_IGMP\<rparr>"

definition wlanif_init :: netif_init_fn where
  "wlanif_init n = (ERR_OK, low_level_init (n\<lparr>nf_hostname := ''espressif''\<rparr>))"

definition wlanif_init_sta :: netif_init_fn where
  "wlanif_init_sta n = wlanif_init (n\<lparr>nf_name := [0x73, 0x74]\<rparr>)"

definition wlanif_init_ap :: netif_init_fn where
  "wlanif_init_ap n = wlanif_init (n\<lparr>nf_name := [0x61, 0x70]\<rparr>)"

definition ethernetif_init :: netif_init_fn where
  "ethernetif_init n =
     (ERR_OK, low_level_init (n\<lparr>nf_hostname := ''espressif'', nf_name := [0x65, 0x6E]\<rparr>))"

section \<open>Receiving\<close>

datatype rx_call = FreeRxBuffer | InputPacket nptr | PbufFree

definition wlanif_input ::
  "nptr option \<Rightarrow> bool \<Rightarrow> bool \<Rightarrow> bool \<Rightarrow> bool \<Rightarrow> nstate \<Rightarrow> rx_call list" where
  \<comment> \<open>whether there is a buffer and a driver's handle for it, whether \<open>pbuf_alloc\<close> succeeds and whether
     the stack accepts the packet; the packet is a copy (\<open>ESP_L2_TO_L3_COPY\<close> is set), so the driver's buffer
     is freed before the packet goes to the stack\<close>
  "wlanif_input o_p buffer eb pbuf_ok accepted s =
     (if \<not> buffer \<or> \<not> netif_is_up o_p s then (if eb then [FreeRxBuffer] else [])
      else if \<not> pbuf_ok then [FreeRxBuffer]
      else FreeRxBuffer # InputPacket (the o_p) # (if accepted then [] else [PbufFree]))"

definition ethernetif_input ::
  "nptr option \<Rightarrow> bool \<Rightarrow> bool \<Rightarrow> bool \<Rightarrow> nstate \<Rightarrow> rx_call list" where
  \<comment> \<open>here the packet refers to the driver's buffer\<close>
  "ethernetif_input o_p buffer pbuf_ok accepted s =
     (if \<not> buffer \<or> \<not> netif_is_up o_p s then (if buffer then [FreeRxBuffer] else [])
      else if \<not> pbuf_ok then [FreeRxBuffer]
      else InputPacket (the o_p) # (if accepted then [] else [PbufFree]))"

end
