(* ===== verification/Dhcp_Client_Msg.thy ===== *)
theory Dhcp_Client_Msg
  imports Netif
begin

text \<open>
  The DHCP client, \<open>components/lwip/core/ipv4/dhcp.c\<close>, first part: \<open>struct dhcp\<close>, the state of the module,
  and how an outgoing message is built, in the configuration of this device (no ARP check of an
  offered address, no AutoIP, no boot file, no NTP servers, hostnames). A message is the byte list of
  \<open>struct dhcp_msg\<close>; a \<open>LWIP_ASSERT\<close> that fails is the fault \<open>AssertFail\<close>. Whether memory is there and what
  \<open>LWIP_RAND\<close> returns is decided by an environment that is asked again at every call.
\<close>

section \<open>Constants\<close>

definition ERR_BUF :: int where "ERR_BUF = - 2"
definition ERR_VAL :: int where "ERR_VAL = - 6"
definition ERR_ARG :: int where "ERR_ARG = - 15"

lemmas dhcp_errors = ERR_OK_def ERR_MEM_def ERR_BUF_def ERR_VAL_def ERR_ARG_def

datatype dhcp_state =
    DHCP_STATE_OFF | DHCP_STATE_REQUESTING | DHCP_STATE_INIT | DHCP_STATE_REBOOTING
  | DHCP_STATE_REBINDING | DHCP_STATE_RENEWING | DHCP_STATE_SELECTING | DHCP_STATE_INFORMING
  | DHCP_STATE_CHECKING | DHCP_STATE_BOUND | DHCP_STATE_BACKING_OFF

definition DHCP_BOOTREQUEST :: u8 where "DHCP_BOOTREQUEST = 1"
definition DHCP_BOOTREPLY :: u8 where "DHCP_BOOTREPLY = 2"
definition DHCP_HTYPE_ETH :: u8 where "DHCP_HTYPE_ETH = 1"
definition DHCP_MAGIC_COOKIE :: u32 where "DHCP_MAGIC_COOKIE = 0x63825363"

definition DHCP_DISCOVER :: u8 where "DHCP_DISCOVER = 1"
definition DHCP_OFFER :: u8 where "DHCP_OFFER = 2"
definition DHCP_REQUEST :: u8 where "DHCP_REQUEST = 3"
definition DHCP_DECLINE :: u8 where "DHCP_DECLINE = 4"
definition DHCP_ACK :: u8 where "DHCP_ACK = 5"
definition DHCP_NAK :: u8 where "DHCP_NAK = 6"
definition DHCP_RELEASE :: u8 where "DHCP_RELEASE = 7"
definition DHCP_INFORM :: u8 where "DHCP_INFORM = 8"

lemmas dhcp_types = DHCP_DISCOVER_def DHCP_OFFER_def DHCP_REQUEST_def DHCP_DECLINE_def DHCP_ACK_def
  DHCP_NAK_def DHCP_RELEASE_def DHCP_INFORM_def

definition DHCP_OPTION_PAD :: u8 where "DHCP_OPTION_PAD = 0"
definition DHCP_OPTION_SUBNET_MASK :: u8 where "DHCP_OPTION_SUBNET_MASK = 1"
definition DHCP_OPTION_ROUTER :: u8 where "DHCP_OPTION_ROUTER = 3"
definition DHCP_OPTION_DNS_SERVER :: u8 where "DHCP_OPTION_DNS_SERVER = 6"
definition DHCP_OPTION_HOSTNAME :: u8 where "DHCP_OPTION_HOSTNAME = 12"
definition DHCP_OPTION_REQUESTED_IP :: u8 where "DHCP_OPTION_REQUESTED_IP = 50"
definition DHCP_OPTION_LEASE_TIME :: u8 where "DHCP_OPTION_LEASE_TIME = 51"
definition DHCP_OPTION_OVERLOAD :: u8 where "DHCP_OPTION_OVERLOAD = 52"
definition DHCP_OPTION_MESSAGE_TYPE :: u8 where "DHCP_OPTION_MESSAGE_TYPE = 53"
definition DHCP_OPTION_SERVER_ID :: u8 where "DHCP_OPTION_SERVER_ID = 54"
definition DHCP_OPTION_PARAMETER_REQUEST_LIST :: u8 where "DHCP_OPTION_PARAMETER_REQUEST_LIST = 55"
definition DHCP_OPTION_MAX_MSG_SIZE :: u8 where "DHCP_OPTION_MAX_MSG_SIZE = 57"
definition DHCP_OPTION_T1 :: u8 where "DHCP_OPTION_T1 = 58"
definition DHCP_OPTION_T2 :: u8 where "DHCP_OPTION_T2 = 59"
definition DHCP_OPTION_END :: u8 where "DHCP_OPTION_END = 255"

lemmas dhcp_opts = DHCP_OPTION_PAD_def DHCP_OPTION_SUBNET_MASK_def DHCP_OPTION_ROUTER_def
  DHCP_OPTION_DNS_SERVER_def DHCP_OPTION_HOSTNAME_def DHCP_OPTION_REQUESTED_IP_def
  DHCP_OPTION_LEASE_TIME_def DHCP_OPTION_OVERLOAD_def DHCP_OPTION_MESSAGE_TYPE_def
  DHCP_OPTION_SERVER_ID_def DHCP_OPTION_PARAMETER_REQUEST_LIST_def DHCP_OPTION_MAX_MSG_SIZE_def
  DHCP_OPTION_T1_def DHCP_OPTION_T2_def DHCP_OPTION_END_def

definition DHCP_OPTIONS_LEN :: nat where "DHCP_OPTIONS_LEN = 68"
definition DHCP_MIN_OPTIONS_LEN :: nat where "DHCP_MIN_OPTIONS_LEN = 68"
definition DHCP_OPTIONS_OFS :: nat where "DHCP_OPTIONS_OFS = 240"
definition DHCP_SNAME_OFS :: nat where "DHCP_SNAME_OFS = 44"
definition DHCP_SNAME_LEN :: nat where "DHCP_SNAME_LEN = 64"
definition DHCP_FILE_OFS :: nat where "DHCP_FILE_OFS = 108"
definition DHCP_FILE_LEN :: nat where "DHCP_FILE_LEN = 128"
definition DHCP_CHADDR_LEN :: nat where "DHCP_CHADDR_LEN = 16"
definition NETIF_MAX_HWADDR_LEN :: nat where "NETIF_MAX_HWADDR_LEN = 6"
definition DHCP_SERVER_PORT :: nat where "DHCP_SERVER_PORT = 67"
definition DHCP_CLIENT_PORT :: nat where "DHCP_CLIENT_PORT = 68"

lemmas dhcp_sizes = DHCP_OPTIONS_LEN_def DHCP_MIN_OPTIONS_LEN_def DHCP_OPTIONS_OFS_def
  DHCP_SNAME_OFS_def DHCP_SNAME_LEN_def DHCP_FILE_OFS_def DHCP_FILE_LEN_def DHCP_CHADDR_LEN_def
  NETIF_MAX_HWADDR_LEN_def

definition dhcp_discover_select_options :: "u8 list" where
  \<comment> \<open>subnet mask, router, broadcast, name server, domain name, the NetBIOS options, router discovery,
     static routes, vendor information\<close>
  "dhcp_discover_select_options = [1, 3, 28, 6, 15, 44, 46, 47, 31, 33, 121, 43]"

section \<open>State\<close>

record dhcp =
  dc_xid :: u32
  dc_msg_in :: "byte list option"        \<comment> \<open>the first buffer of the reply, while it is handled\<close>
  dc_pcb_allocated :: bool
  dc_state :: dhcp_state
  dc_tries :: u8
  dc_subnet_mask_given :: bool
  dc_msg_out :: "byte list option"       \<comment> \<open>\<open>p_out\<close> and \<open>msg_out\<close>, which are set and reset together\<close>
  dc_options_out_len :: u16
  dc_request_timeout :: u16
  dc_t1_timeout :: u32
  dc_t2_timeout :: u32
  dc_t1_renew_time :: u32
  dc_t2_rebind_time :: u32
  dc_lease_used :: u32
  dc_t0_timeout :: u32
  dc_server_ip :: u32
  dc_offered_ip :: u32
  dc_offered_sn_mask :: u32
  dc_offered_gw :: u32
  dc_offered_t0_lease :: u32
  dc_offered_t1_renew :: u32
  dc_offered_t2_rebind :: u32
  dc_cb :: bool                          \<comment> \<open>a callback is set\<close>

definition dhcp_zero :: dhcp where
  \<comment> \<open>what \<open>memset\<close> leaves\<close>
  "dhcp_zero =
     \<lparr>dc_xid = 0, dc_msg_in = None, dc_pcb_allocated = False, dc_state = DHCP_STATE_OFF, dc_tries = 0,
      dc_subnet_mask_given = False, dc_msg_out = None, dc_options_out_len = 0, dc_request_timeout = 0,
      dc_t1_timeout = 0, dc_t2_timeout = 0, dc_t1_renew_time = 0, dc_t2_rebind_time = 0,
      dc_lease_used = 0, dc_t0_timeout = 0, dc_server_ip = 0, dc_offered_ip = 0, dc_offered_sn_mask = 0,
      dc_offered_gw = 0, dc_offered_t0_lease = 0, dc_offered_t1_renew = 0, dc_offered_t2_rebind = 0,
      dc_cb = False\<rparr>"

text \<open>
  The calls the client makes into the rest of the stack. Its UDP block is bound to the client's port
  and connected to the server's. The two ways of sending name the interface; the first also gives the
  source address, any.
\<close>

datatype dhcpc_call =
    ClientPcbNew
  | ClientPcbRemove
  | SendToIfSrc "byte list" u32 nat nptr
  | SendToIf "byte list" u32 nat nptr
  | ClientCallback nptr
  | SetNameServer u8 u32
  | FreeReply

record rx_options =
  rx_given :: "bool list"                \<comment> \<open>\<open>dhcp_rx_options_given\<close>\<close>
  rx_val :: "u32 list"                   \<comment> \<open>\<open>dhcp_rx_options_val\<close>\<close>

record dhcpc =
  c_net :: nstate
  c_dhcp :: "nptr \<Rightarrow> dhcp"               \<comment> \<open>the structure attached to an interface, if one is\<close>
  c_xid :: u32                           \<comment> \<open>the static \<open>xid\<close>\<close>
  c_pcb :: bool
  c_refcount :: u8
  c_rx :: rx_options
  c_asked :: nat                         \<comment> \<open>how often the environment was asked\<close>
  c_out :: "dhcpc_call list"

record dhcpc_env =
  ce_pbuf :: "nat \<Rightarrow> bool"
  ce_udp :: "nat \<Rightarrow> bool"
  ce_malloc :: "nat \<Rightarrow> bool"
  ce_rand :: "nat \<Rightarrow> u32"

definition asked :: "dhcpc \<Rightarrow> dhcpc" where
  "asked s = s\<lparr>c_asked := c_asked s + 1\<rparr>"

definition client_call :: "dhcpc_call \<Rightarrow> dhcpc \<Rightarrow> dhcpc" where
  "client_call c s = s\<lparr>c_out := c_out s @ [c]\<rparr>"

definition c_netif :: "dhcpc \<Rightarrow> nptr \<Rightarrow> netif" where
  "c_netif s p = n_store (c_net s) p"

definition set_dhcp :: "nptr \<Rightarrow> dhcp \<Rightarrow> dhcpc \<Rightarrow> dhcpc" where
  "set_dhcp p d s = s\<lparr>c_dhcp := (c_dhcp s)(p := d)\<rparr>"

definition with_dhcp :: "nptr \<Rightarrow> (dhcp \<Rightarrow> 'a result) \<Rightarrow> dhcpc \<Rightarrow> 'a result" where
  \<comment> \<open>\<open>netif->dhcp\<close> is dereferenced\<close>
  "with_dhcp p f s = (if nf_dhcp (c_netif s p) then f (c_dhcp s p) else Inl NullDeref)"

section \<open>Options of an outgoing message\<close>

lemma u16_suc: "unat (x :: u16) < 65535 \<Longrightarrow> unat (x + 1) = Suc (unat x)"
  by (simp add: unat_word_ariths)

definition put_option :: "u8 \<Rightarrow> dhcp \<Rightarrow> dhcp result" where
  \<comment> \<open>\<open>dhcp->msg_out->options[dhcp->options_out_len++] = v\<close>\<close>
  "put_option v d =
     (case dc_msg_out d of
        None \<Rightarrow> Inl NullDeref
      | Some m \<Rightarrow>
          let i = DHCP_OPTIONS_OFS + unat (dc_options_out_len d) in
          if i < length m
          then Inr (d\<lparr>dc_msg_out := Some (m[i := v]), dc_options_out_len := dc_options_out_len d + 1\<rparr>)
          else Inl BufferOverflow)"

fun put_options_out :: "u8 list \<Rightarrow> dhcp \<Rightarrow> dhcp result" where
  "put_options_out [] d = Inr d"
| "put_options_out (v # vs) d = bindE (put_option v d) (put_options_out vs)"

definition dhcp_option :: "u8 \<Rightarrow> u8 \<Rightarrow> dhcp \<Rightarrow> dhcp result" where
  "dhcp_option option_type option_len d =
     (if unat (dc_options_out_len d) + 2 + unat option_len \<le> DHCP_OPTIONS_LEN
      then put_options_out [option_type, option_len] d else Inl AssertFail)"

definition dhcp_option_byte :: "u8 \<Rightarrow> dhcp \<Rightarrow> dhcp result" where
  "dhcp_option_byte v d =
     (if unat (dc_options_out_len d) < DHCP_OPTIONS_LEN then put_option v d else Inl AssertFail)"

definition dhcp_option_short :: "u16 \<Rightarrow> dhcp \<Rightarrow> dhcp result" where
  "dhcp_option_short v d =
     (if unat (dc_options_out_len d) + 2 \<le> DHCP_OPTIONS_LEN
      then put_options_out [ucast (drop_bit 8 (v AND 0xff00)), ucast (v AND 0x00ff)] d
      else Inl AssertFail)"

definition dhcp_option_long :: "u32 \<Rightarrow> dhcp \<Rightarrow> dhcp result" where
  "dhcp_option_long v d =
     (if unat (dc_options_out_len d) + 4 \<le> DHCP_OPTIONS_LEN
      then put_options_out [ucast (drop_bit 24 (v AND 0xff000000)), ucast (drop_bit 16 (v AND 0x00ff0000)),
             ucast (drop_bit 8 (v AND 0x0000ff00)), ucast (v AND 0x000000ff)] d
      else Inl AssertFail)"

fun dhcp_option_bytes :: "u8 list \<Rightarrow> dhcp \<Rightarrow> dhcp result" where
  \<comment> \<open>a loop of \<open>dhcp_option_byte\<close>\<close>
  "dhcp_option_bytes [] d = Inr d"
| "dhcp_option_bytes (v # vs) d = bindE (dhcp_option_byte v d) (dhcp_option_bytes vs)"

definition dhcp_option_hostname :: "string \<Rightarrow> dhcp \<Rightarrow> dhcp result" where
  \<comment> \<open>the empty string also stands for no hostname; \<open>available\<close> is unsigned\<close>
  "dhcp_option_hostname hostname d =
     (let namelen = length hostname;
          available = of_nat DHCP_OPTIONS_LEN - ucast (dc_options_out_len d) - 3 :: u32
      in if namelen = 0 then Inr d
         else if unat available < namelen then Inl AssertFail
         else let len = of_nat (min namelen (unat available)) :: u8
              in bindE (dhcp_option DHCP_OPTION_HOSTNAME len d)
                   (dhcp_option_bytes (map of_char (take (unat len) hostname))))"

lemma bindE_cong [fundef_cong]:
  "r = r' \<Longrightarrow> (\<And>x. r' = Inr x \<Longrightarrow> f x = f' x) \<Longrightarrow> bindE r f = bindE r' f'"
  by (cases r') auto

function pad_options :: "dhcp \<Rightarrow> dhcp result" where
  "pad_options d =
     (if (unat (dc_options_out_len d) < DHCP_MIN_OPTIONS_LEN \<or> dc_options_out_len d AND 3 \<noteq> 0) \<and>
         unat (dc_options_out_len d) < DHCP_OPTIONS_LEN
      then bindE (put_option 0 d) (\<lambda>d'. pad_options d')
      else Inr d)"
  by pat_completeness auto
termination
proof (relation "measure (\<lambda>d. DHCP_OPTIONS_LEN - unat (dc_options_out_len d))")
  fix d d' :: dhcp
  assume c: "(unat (dc_options_out_len d) < DHCP_MIN_OPTIONS_LEN \<or> dc_options_out_len d AND 3 \<noteq> 0) \<and>
    unat (dc_options_out_len d) < DHCP_OPTIONS_LEN" and x: "put_option 0 d = Inr d'"
  have "unat (dc_options_out_len d + 1) = Suc (unat (dc_options_out_len d))"
    by (rule u16_suc) (use c in \<open>simp add: dhcp_sizes\<close>)
  with c x show "(d', d) \<in> measure (\<lambda>d. DHCP_OPTIONS_LEN - unat (dc_options_out_len d))"
    by (auto simp: put_option_def Let_def split: option.splits if_splits)
qed simp

declare pad_options.simps [simp del]

definition dhcp_option_trailer :: "dhcp \<Rightarrow> dhcp result" where
  "dhcp_option_trailer d =
     (if dc_msg_out d = None \<or> \<not> unat (dc_options_out_len d) < DHCP_OPTIONS_LEN then Inl AssertFail
      else bindE (put_option DHCP_OPTION_END d) pad_options)"

section \<open>Creating and sending a message\<close>

definition dhcp_chaddr :: "byte list \<Rightarrow> byte list" where
  "dhcp_chaddr hw = map (\<lambda>i. if i < length hw \<and> i < NETIF_MAX_HWADDR_LEN then hw ! i else 0) [0..<DHCP_CHADDR_LEN]"

definition dhcp_header :: "netif \<Rightarrow> dhcp \<Rightarrow> u8 \<Rightarrow> byte list" where
  \<comment> \<open>everything before the options\<close>
  "dhcp_header n d message_type =
     [DHCP_BOOTREQUEST, DHCP_HTYPE_ETH, of_nat (length (nf_hwaddr n)), 0] @
     le_bytes (lwip_htonl (dc_xid d)) @
     [0, 0, 0, 0] @
     le_bytes (if message_type = DHCP_INFORM \<or> message_type = DHCP_DECLINE \<or> message_type = DHCP_RELEASE \<or>
                  (message_type = DHCP_REQUEST \<and>
                   (dc_state d = DHCP_STATE_RENEWING \<or> dc_state d = DHCP_STATE_REBINDING))
               then nf_ip n else 0) @
     replicate 12 0 @
     dhcp_chaddr (nf_hwaddr n) @
     replicate DHCP_SNAME_LEN 0 @ replicate DHCP_FILE_LEN 0 @
     le_bytes (lwip_htonl DHCP_MAGIC_COOKIE)"

definition take_xid :: "dhcpc_env \<Rightarrow> u8 \<Rightarrow> dhcp \<Rightarrow> dhcpc \<Rightarrow> dhcp \<times> dhcpc" where
  \<comment> \<open>a request keeps the identifier; other messages take a new one on the first try\<close>
  "take_xid e message_type d s =
     (if message_type \<noteq> DHCP_REQUEST then
        let s1 = (if dc_tries d = 0 then asked (s\<lparr>c_xid := ce_rand e (c_asked s)\<rparr>) else s)
        in (d\<lparr>dc_xid := c_xid s1\<rparr>, s1)
      else (d, s))"

definition dhcp_create_msg ::
  "dhcpc_env \<Rightarrow> nptr \<Rightarrow> u8 \<Rightarrow> dhcp \<Rightarrow> dhcpc \<Rightarrow> (int \<times> dhcp \<times> dhcpc) result" where
  "dhcp_create_msg e p message_type d s =
     (if dc_msg_out d \<noteq> None then Inl AssertFail
      else if \<not> ce_pbuf e (c_asked s) then Inr (ERR_MEM, d, asked s)
      else
        let (d1, s1) = take_xid e message_type d (asked s);
            d2 = d1\<lparr>dc_msg_out := Some (dhcp_header (c_netif s p) d1 message_type @ map of_nat [0..<DHCP_OPTIONS_LEN]),
                    dc_options_out_len := 0\<rparr>
        in bindE (dhcp_option DHCP_OPTION_MESSAGE_TYPE 1 d2) (\<lambda>d3.
             bindE (dhcp_option_byte message_type d3) (\<lambda>d4. Inr (ERR_OK, d4, s1))))"

definition dhcp_delete_msg :: "dhcp \<Rightarrow> dhcp result" where
  "dhcp_delete_msg d = (if dc_msg_out d = None then Inl AssertFail else Inr (d\<lparr>dc_msg_out := None\<rparr>))"

definition udp_out :: "dhcpc_call \<Rightarrow> dhcpc \<Rightarrow> dhcpc result" where
  \<comment> \<open>\<open>udp_sendto_if\<close> on \<open>dhcp_pcb\<close>\<close>
  "udp_out c s = (if c_pcb s then Inr (client_call c s) else Inl NullDeref)"

definition finish_msg :: "(byte list \<Rightarrow> dhcpc_call) \<Rightarrow> dhcp \<Rightarrow> dhcpc \<Rightarrow> (dhcp \<times> dhcpc) result" where
  \<comment> \<open>the end of every message: trailer, \<open>pbuf_realloc\<close> to the bytes used, send, delete\<close>
  "finish_msg call d s =
     bindE (dhcp_option_trailer d) (\<lambda>d1.
       case dc_msg_out d1 of
         None \<Rightarrow> Inl NullDeref
       | Some m \<Rightarrow>
           bindE (udp_out (call (take (DHCP_OPTIONS_OFS + unat (dc_options_out_len d1)) m)) s) (\<lambda>s1.
             bindE (dhcp_delete_msg d1) (\<lambda>d2. Inr (d2, s1))))"

definition dhcp_message ::
  "dhcpc_env \<Rightarrow> nptr \<Rightarrow> u8 \<Rightarrow> (dhcp \<Rightarrow> dhcp result) \<Rightarrow> (byte list \<Rightarrow> dhcpc_call) \<Rightarrow> dhcp \<Rightarrow> dhcpc \<Rightarrow>
     (int \<times> dhcp \<times> dhcpc) result" where
  \<comment> \<open>what every message has in common: create it, add its options, send it; nothing without memory\<close>
  "dhcp_message e p message_type opts call d s =
     bindE (dhcp_create_msg e p message_type d s) (\<lambda>(err, d1, s1).
       if err = ERR_OK
       then bindE (opts d1) (\<lambda>d2. bindE (finish_msg call d2 s1) (\<lambda>(d3, s2). Inr (err, d3, s2)))
       else Inr (err, d1, s1))"

definition max_msg_size_option :: "u16 \<Rightarrow> dhcp \<Rightarrow> dhcp result" where
  "max_msg_size_option v d = bindE (dhcp_option DHCP_OPTION_MAX_MSG_SIZE 2 d) (dhcp_option_short v)"

definition address_option :: "u8 \<Rightarrow> u32 \<Rightarrow> dhcp \<Rightarrow> dhcp result" where
  "address_option t a d = bindE (dhcp_option t 4 d) (dhcp_option_long (lwip_ntohl a))"

definition parameter_list_option :: "dhcp \<Rightarrow> dhcp result" where
  "parameter_list_option d =
     bindE (dhcp_option DHCP_OPTION_PARAMETER_REQUEST_LIST (of_nat (length dhcp_discover_select_options)) d)
       (dhcp_option_bytes dhcp_discover_select_options)"

end
