(* ===== verification/Dhcp_Client_Rx.thy ===== *)
theory Dhcp_Client_Rx
  imports Dhcp_Client_Msg
begin

text \<open>
  The DHCP client, second part: \<open>dhcp_parse_reply\<close>, which takes the options out of a reply. A reply is
  the list of the payloads of its buffers. Reading a byte behind the end of a buffer's payload is the
  fault \<open>BufferOverflow\<close>; offsets are kept at their 16 bits. The two loops need not end for every input,
  so they are partial functions, and not ending is \<open>None\<close>.
\<close>

section \<open>Received values\<close>

definition DNS_MAX_SERVERS :: nat where "DNS_MAX_SERVERS = 3"
definition DNS_FALLBACK_SERVER_INDEX :: nat where "DNS_FALLBACK_SERVER_INDEX = 2"
definition DHCP_OPTION_IDX_OVERLOAD :: nat where "DHCP_OPTION_IDX_OVERLOAD = 0"
definition DHCP_OPTION_IDX_MSG_TYPE :: nat where "DHCP_OPTION_IDX_MSG_TYPE = 1"
definition DHCP_OPTION_IDX_SERVER_ID :: nat where "DHCP_OPTION_IDX_SERVER_ID = 2"
definition DHCP_OPTION_IDX_LEASE_TIME :: nat where "DHCP_OPTION_IDX_LEASE_TIME = 3"
definition DHCP_OPTION_IDX_T1 :: nat where "DHCP_OPTION_IDX_T1 = 4"
definition DHCP_OPTION_IDX_T2 :: nat where "DHCP_OPTION_IDX_T2 = 5"
definition DHCP_OPTION_IDX_SUBNET_MASK :: nat where "DHCP_OPTION_IDX_SUBNET_MASK = 6"
definition DHCP_OPTION_IDX_ROUTER :: nat where "DHCP_OPTION_IDX_ROUTER = 7"
definition DHCP_OPTION_IDX_DNS_SERVER :: nat where "DHCP_OPTION_IDX_DNS_SERVER = 8"
definition DHCP_OPTION_IDX_MAX :: nat where
  "DHCP_OPTION_IDX_MAX = DHCP_OPTION_IDX_DNS_SERVER + DNS_MAX_SERVERS"

lemmas dhcp_idx = DNS_MAX_SERVERS_def DNS_FALLBACK_SERVER_INDEX_def DHCP_OPTION_IDX_OVERLOAD_def
  DHCP_OPTION_IDX_MSG_TYPE_def DHCP_OPTION_IDX_SERVER_ID_def DHCP_OPTION_IDX_LEASE_TIME_def
  DHCP_OPTION_IDX_T1_def DHCP_OPTION_IDX_T2_def DHCP_OPTION_IDX_SUBNET_MASK_def
  DHCP_OPTION_IDX_ROUTER_def DHCP_OPTION_IDX_DNS_SERVER_def DHCP_OPTION_IDX_MAX_def

definition rx_initial :: rx_options where
  "rx_initial = \<lparr>rx_given = replicate DHCP_OPTION_IDX_MAX False, rx_val = replicate DHCP_OPTION_IDX_MAX 0\<rparr>"

definition dhcp_option_given :: "nat \<Rightarrow> rx_options \<Rightarrow> bool" where
  "dhcp_option_given idx r = rx_given r ! idx"

definition dhcp_got_option :: "nat \<Rightarrow> rx_options \<Rightarrow> rx_options" where
  "dhcp_got_option idx r = r\<lparr>rx_given := (rx_given r)[idx := True]\<rparr>"

definition dhcp_clear_option :: "nat \<Rightarrow> rx_options \<Rightarrow> rx_options" where
  "dhcp_clear_option idx r = r\<lparr>rx_given := (rx_given r)[idx := False]\<rparr>"

definition dhcp_clear_all_options :: "rx_options \<Rightarrow> rx_options" where
  "dhcp_clear_all_options r = r\<lparr>rx_given := replicate DHCP_OPTION_IDX_MAX False\<rparr>"

definition dhcp_get_option_value :: "nat \<Rightarrow> rx_options \<Rightarrow> u32" where
  "dhcp_get_option_value idx r = rx_val r ! idx"

definition dhcp_set_option_value :: "nat \<Rightarrow> u32 \<Rightarrow> rx_options \<Rightarrow> rx_options" where
  "dhcp_set_option_value idx v r = r\<lparr>rx_val := (rx_val r)[idx := v]\<rparr>"

definition of_le_bytes :: "byte list \<Rightarrow> u32" where
  \<comment> \<open>the word whose bytes in memory these four are\<close>
  "of_le_bytes b = ucast (b ! 0) OR push_bit 8 (ucast (b ! 1)) OR push_bit 16 (ucast (b ! 2)) OR
     push_bit 24 (ucast (b ! 3))"

section \<open>One option\<close>

type_synonym chain = "byte list list"      \<comment> \<open>the payloads of a chain of buffers\<close>

definition option_len_byte :: "byte list \<Rightarrow> chain \<Rightarrow> u16 \<Rightarrow> u8 result" where
  \<comment> \<open>the length byte, which may lie in the next buffer\<close>
  "option_len_byte q rest offset =
     (if unat offset + 1 < length q then Inr (q ! (unat offset + 1))
      else case rest of
             [] \<Rightarrow> Inr 0
           | n # _ \<Rightarrow> if n = [] then Inl BufferOverflow else Inr (n ! 0))"

definition option_plan :: "u8 \<Rightarrow> u8 \<Rightarrow> (u8 \<times> nat) option" where
  \<comment> \<open>the \<open>switch\<close>, but for the padding: how many bytes are decoded, and where to; \<open>None\<close> is \<open>ERR_VAL\<close>\<close>
  "option_plan op len =
     (if op = DHCP_OPTION_SUBNET_MASK then
        (if len = 4 then Some (len, DHCP_OPTION_IDX_SUBNET_MASK) else None)
      else if op = DHCP_OPTION_ROUTER then
        (if 4 \<le> len then Some (4, DHCP_OPTION_IDX_ROUTER) else None)
      else if op = DHCP_OPTION_DNS_SERVER then
        Some (min len (of_nat (4 * DNS_MAX_SERVERS)), DHCP_OPTION_IDX_DNS_SERVER)
      else if op = DHCP_OPTION_LEASE_TIME then
        (if len = 4 then Some (len, DHCP_OPTION_IDX_LEASE_TIME) else None)
      else if op = DHCP_OPTION_OVERLOAD then
        (if len = 1 then Some (len, DHCP_OPTION_IDX_OVERLOAD) else None)
      else if op = DHCP_OPTION_MESSAGE_TYPE then
        (if len = 1 then Some (len, DHCP_OPTION_IDX_MSG_TYPE) else None)
      else if op = DHCP_OPTION_SERVER_ID then
        (if len = 4 then Some (len, DHCP_OPTION_IDX_SERVER_ID) else None)
      else if op = DHCP_OPTION_T1 then (if len = 4 then Some (len, DHCP_OPTION_IDX_T1) else None)
      else if op = DHCP_OPTION_T2 then (if len = 4 then Some (len, DHCP_OPTION_IDX_T2) else None)
      else Some (0, DHCP_OPTION_IDX_MAX))"

definition copy_partial :: "chain \<Rightarrow> nat \<Rightarrow> nat \<Rightarrow> byte list" where
  \<comment> \<open>what \<open>pbuf_copy_partial\<close> copies: as much as there is\<close>
  "copy_partial qs n offset = take n (drop offset (concat qs))"

definition copy_value :: "chain \<Rightarrow> nat \<Rightarrow> nat \<Rightarrow> u32 \<Rightarrow> u32" where
  \<comment> \<open>\<open>pbuf_copy_partial\<close> into the first bytes of \<open>value\<close>\<close>
  "copy_value qs n offset v =
     (let b = copy_partial qs n offset in of_le_bytes (b @ drop (length b) (le_bytes v)))"

function decode_next :: "chain \<Rightarrow> nat \<Rightarrow> nat \<Rightarrow> u16 \<Rightarrow> u32 \<Rightarrow> rx_options \<Rightarrow> (int \<times> rx_options) result" where
  \<comment> \<open>from the label \<open>decode_next\<close>: the bytes still to decode, the index, where the bytes are, \<open>value\<close>\<close>
  "decode_next qs decode_len idx val_offset v r =
     (if \<not> idx < DHCP_OPTION_IDX_MAX then Inl AssertFail
      else if dhcp_option_given idx r then Inr (ERR_OK, r)
      else
        let v' = copy_value qs (min decode_len 4) (unat val_offset) v in
        if 4 < decode_len then
          decode_next qs (decode_len - 4) (idx + 1) (val_offset + 4) v'
            (dhcp_set_option_value idx (lwip_htonl v') (dhcp_got_option idx r))
        else if decode_len = 4 then
          Inr (ERR_OK, dhcp_set_option_value idx (lwip_ntohl v') (dhcp_got_option idx r))
        else if decode_len = 1 then
          Inr (ERR_OK, dhcp_set_option_value idx (ucast (ip4_addr1 v')) (dhcp_got_option idx r))
        else Inr (ERR_VAL, r))"
  by pat_completeness auto
termination by (relation "measure (\<lambda>(_, n, _). n)") auto

declare decode_next.simps [simp del]

datatype parse_step =
    ParseDone int rx_options
  | ParseNext chain u16 u16 rx_options

definition next_option :: "byte list \<Rightarrow> chain \<Rightarrow> u16 \<Rightarrow> u16 \<Rightarrow> rx_options \<Rightarrow> parse_step result" where
  \<comment> \<open>the end of the loop's body: go to the next buffer where the option ends behind this one\<close>
  "next_option q rest offset offset_max r =
     (if length q \<le> unat offset then
        let offset' = offset - of_nat (length q); max' = offset_max - of_nat (length q) in
        if offset' < max' \<and> max' \<noteq> 0
        then (if rest = [] then Inl AssertFail else Inr (ParseNext rest offset' max' r))
        else Inr (ParseDone ERR_OK r)
      else Inr (ParseNext (q # rest) offset offset_max r))"

definition option_body :: "byte list \<Rightarrow> chain \<Rightarrow> u16 \<Rightarrow> u16 \<Rightarrow> rx_options \<Rightarrow> parse_step result" where
  "option_body q rest offset offset_max r =
     bindE (option_len_byte q rest offset) (\<lambda>len.
       let op = q ! unat offset in
       if op = DHCP_OPTION_PAD then next_option q rest (offset - 1 + 2) offset_max r
       else case option_plan op len of
              None \<Rightarrow> Inr (ParseDone ERR_VAL r)
            | Some (decode_len, idx) \<Rightarrow>
                if 0 < decode_len then
                  bindE (decode_next (q # rest) (unat decode_len) idx (offset + 2) 0 r) (\<lambda>(err, r').
                    if err = ERR_OK then next_option q rest (offset + ucast len + 2) offset_max r'
                    else Inr (ParseDone err r'))
                else next_option q rest (offset + ucast len + 2) offset_max r)"

section \<open>The loops\<close>

partial_function (option) reply_options ::
  "chain \<Rightarrow> u16 \<Rightarrow> u16 \<Rightarrow> rx_options \<Rightarrow> (int \<times> rx_options) result option" where
  \<comment> \<open>the loop over the options of one area\<close>
  "reply_options qs offset offset_max r =
     (case qs of
        [] \<Rightarrow> Some (Inr (ERR_OK, r))
      | q # rest \<Rightarrow>
          if length q \<le> unat offset then Some (Inl BufferOverflow)
          else if q ! unat offset = DHCP_OPTION_END \<or> \<not> offset < offset_max then Some (Inr (ERR_OK, r))
          else case option_body q rest offset offset_max r of
                 Inl f \<Rightarrow> Some (Inl f)
               | Inr (ParseDone err r') \<Rightarrow> Some (Inr (err, r'))
               | Inr (ParseNext qs' offset' max' r') \<Rightarrow> reply_options qs' offset' max' r')"

fun find_area :: "chain \<Rightarrow> u16 \<Rightarrow> u16 \<Rightarrow> chain \<times> u16 \<times> u16" where
  \<comment> \<open>the buffer in which an area begins\<close>
  "find_area [] idx idx_max = ([], idx, idx_max)"
| "find_area (q # qs) idx idx_max =
     (if length q \<le> unat idx then find_area qs (idx - of_nat (length q)) (idx_max - of_nat (length q))
      else (q # qs, idx, idx_max))"

definition overload_fields :: "bool \<Rightarrow> bool \<Rightarrow> rx_options \<Rightarrow> bool \<times> bool \<times> rx_options" where
  \<comment> \<open>whether the fields for the file and for the server's name hold options\<close>
  "overload_fields file sname r =
     (if dhcp_option_given DHCP_OPTION_IDX_OVERLOAD r then
        let overload = dhcp_get_option_value DHCP_OPTION_IDX_OVERLOAD r;
            r' = dhcp_clear_option DHCP_OPTION_IDX_OVERLOAD r
        in if overload = 1 then (True, sname, r')
           else if overload = 2 then (file, True, r')
           else if overload = 3 then (True, True, r')
           else (file, sname, r')
      else (file, sname, r))"

partial_function (option) reply_areas ::
  "chain \<Rightarrow> bool \<Rightarrow> bool \<Rightarrow> u16 \<Rightarrow> u16 \<Rightarrow> rx_options \<Rightarrow> (int \<times> rx_options) result option" where
  \<comment> \<open>from the label \<open>again\<close>\<close>
  "reply_areas p file sname idx idx_max r =
     (case find_area p idx idx_max of
        (qs, offset, offset_max) \<Rightarrow>
          if qs = [] then Some (Inr (ERR_BUF, r))
          else case reply_options qs offset offset_max r of
                 None \<Rightarrow> None
               | Some (Inl f) \<Rightarrow> Some (Inl f)
               | Some (Inr (err, r1)) \<Rightarrow>
                   if err \<noteq> ERR_OK then Some (Inr (err, r1))
                   else case overload_fields file sname r1 of
                     (file', sname', r2) \<Rightarrow>
                       if file' then
                         reply_areas p False sname' (of_nat DHCP_FILE_OFS)
                           (of_nat (DHCP_FILE_OFS + DHCP_FILE_LEN)) r2
                       else if sname' then
                         reply_areas p file' False (of_nat DHCP_SNAME_OFS)
                           (of_nat (DHCP_SNAME_OFS + DHCP_SNAME_LEN)) r2
                       else Some (Inr (ERR_OK, r2)))"

definition dhcp_parse_reply :: "chain \<Rightarrow> dhcp \<Rightarrow> rx_options \<Rightarrow> (int \<times> dhcp \<times> rx_options) result" where
  \<comment> \<open>the packet, which has at least one buffer\<close>
  "dhcp_parse_reply p d r =
     (let r0 = dhcp_clear_all_options r in
      if length (hd p) < DHCP_SNAME_OFS then Inr (ERR_BUF, d, r0)
      else
        let d1 = d\<lparr>dc_msg_in := Some (hd p)\<rparr> in
        case reply_areas p False False (of_nat DHCP_OPTIONS_OFS) (of_nat (length (concat p))) r0 of
          None \<Rightarrow> Inl Hang
        | Some (Inl f) \<Rightarrow> Inl f
        | Some (Inr (err, r1)) \<Rightarrow> Inr (err, d1, r1))"

end
