(* ===== verification/Dhcp_Client.thy ===== *)
theory Dhcp_Client
  imports Dhcp_Client_Rx
begin

text \<open>
  The DHCP client, third part: its state machine, its timers and the functions other parts call. The
  structure of an interface is in \<open>c_dhcp\<close>; whether it is attached is the field \<open>nf_dhcp\<close> of the interface.
  The interface list, addresses and flags are those of \<open>Netif\<close>. The callback and the name server table
  are recorded calls. Functions whose names other theories use have the suffix \<open>_netif\<close>.
\<close>

section \<open>States and retries\<close>

definition dhcp_set_state :: "dhcp_state \<Rightarrow> dhcp \<Rightarrow> dhcp" where
  "dhcp_set_state new_state d =
     (if new_state \<noteq> dc_state d then d\<lparr>dc_state := new_state, dc_tries := 0, dc_request_timeout := 0\<rparr>
      else d)"

definition count_try :: "dhcp \<Rightarrow> dhcp" where
  "count_try d = (if dc_tries d < 255 then d\<lparr>dc_tries := dc_tries d + 1\<rparr> else d)"

definition set_request_timeout :: "u16 \<Rightarrow> dhcp \<Rightarrow> dhcp" where
  \<comment> \<open>milliseconds, in ticks of the fine timer, rounded up\<close>
  "set_request_timeout msecs d = d\<lparr>dc_request_timeout := of_nat ((unat msecs + 500 - 1) div 500)\<rparr>"

definition backoff :: "nat \<Rightarrow> u8 \<Rightarrow> u16" where
  \<comment> \<open>doubled with every try: \<open>(tries < 6 ? 1 << tries : 60) * unit\<close>\<close>
  "backoff u tries = of_nat ((if tries < 6 then 2 ^ unat tries else 60) * u)"

definition linear_backoff :: "nat \<Rightarrow> u8 \<Rightarrow> u16" where
  \<comment> \<open>\<open>tries < 10 ? tries * unit : 10 * unit\<close>\<close>
  "linear_backoff u tries = of_nat ((if tries < 10 then unat tries else 10) * u)"

definition after_try :: "nptr \<Rightarrow> (u8 \<Rightarrow> u16) \<Rightarrow> int \<times> dhcp \<times> dhcpc \<Rightarrow> (int \<times> dhcpc) result" where
  \<comment> \<open>the end of every request: count the try, set the timeout\<close>
  "after_try p msecs = (\<lambda>(err, d, s).
     let d' = count_try d in Inr (err, set_dhcp p (set_request_timeout (msecs (dc_tries d')) d') s))"

section \<open>The UDP block\<close>

definition dhcp_inc_pcb_refcount :: "dhcpc_env \<Rightarrow> dhcpc \<Rightarrow> (int \<times> dhcpc) result" where
  "dhcp_inc_pcb_refcount e s =
     (if c_refcount s = 0 then
        (if c_pcb s then Inl AssertFail
         else if \<not> ce_udp e (c_asked s) then Inr (ERR_MEM, asked s)
         else Inr (ERR_OK, (client_call ClientPcbNew (asked s))\<lparr>c_pcb := True, c_refcount := c_refcount s + 1\<rparr>))
      else Inr (ERR_OK, s\<lparr>c_refcount := c_refcount s + 1\<rparr>))"

definition dhcp_dec_pcb_refcount :: "dhcpc \<Rightarrow> dhcpc result" where
  "dhcp_dec_pcb_refcount s =
     (if \<not> 0 < c_refcount s then Inl AssertFail
      else
        let s1 = s\<lparr>c_refcount := c_refcount s - 1\<rparr> in
        if c_refcount s1 = 0 then Inr ((client_call ClientPcbRemove s1)\<lparr>c_pcb := False\<rparr>) else Inr s1)"

section \<open>Addresses and the callback\<close>

definition c_set_addr :: "nptr \<Rightarrow> u32 \<Rightarrow> u32 \<Rightarrow> u32 \<Rightarrow> dhcpc \<Rightarrow> dhcpc" where
  "c_set_addr p ip m gw s = s\<lparr>c_net := netif_set_addr p (Some ip) (Some m) (Some gw) (c_net s)\<rparr>"

definition call_back :: "nptr \<Rightarrow> dhcpc \<Rightarrow> dhcpc" where
  "call_back p s = (if dc_cb (c_dhcp s p) then client_call (ClientCallback p) s else s)"

definition dhcp_supplied_address :: "nptr option \<Rightarrow> dhcpc \<Rightarrow> bool" where
  "dhcp_supplied_address o_p s =
     (case o_p of
        None \<Rightarrow> False
      | Some p \<Rightarrow> nf_dhcp (c_netif s p) \<and>
          (dc_state (c_dhcp s p) = DHCP_STATE_BOUND \<or> dc_state (c_dhcp s p) = DHCP_STATE_RENEWING))"

section \<open>Messages of the states\<close>

definition mtu_short :: "dhcpc \<Rightarrow> nptr \<Rightarrow> u16" where
  "mtu_short s p = of_nat (nf_mtu (c_netif s p))"

definition discover_options :: "u16 \<Rightarrow> string \<Rightarrow> dhcp \<Rightarrow> dhcp result" where
  "discover_options mtu hostname d =
     bindE (max_msg_size_option mtu d) (\<lambda>d. bindE (dhcp_option_hostname hostname d) parameter_list_option)"

definition dhcp_discover :: "dhcpc_env \<Rightarrow> nptr \<Rightarrow> dhcpc \<Rightarrow> (int \<times> dhcpc) result" where
  "dhcp_discover e p s = with_dhcp p (\<lambda>d.
     bindE (dhcp_message e p DHCP_DISCOVER (discover_options (mtu_short s p) (nf_hostname (c_netif s p)))
              (\<lambda>m. SendToIfSrc m IPADDR_BROADCAST DHCP_SERVER_PORT p)
              (dhcp_set_state DHCP_STATE_SELECTING (d\<lparr>dc_offered_ip := 0\<rparr>)) s)
       (after_try p (backoff 250))) s"

definition select_options :: "u16 \<Rightarrow> string \<Rightarrow> u32 \<Rightarrow> u32 \<Rightarrow> dhcp \<Rightarrow> dhcp result" where
  "select_options mtu hostname offered server d =
     bindE (max_msg_size_option mtu d) (\<lambda>d.
       bindE (address_option DHCP_OPTION_REQUESTED_IP offered d) (\<lambda>d.
         bindE (address_option DHCP_OPTION_SERVER_ID server d) (\<lambda>d.
           bindE (parameter_list_option d) (dhcp_option_hostname hostname))))"

definition dhcp_select :: "dhcpc_env \<Rightarrow> nptr \<Rightarrow> dhcpc \<Rightarrow> (int \<times> dhcpc) result" where
  "dhcp_select e p s = with_dhcp p (\<lambda>d.
     bindE (dhcp_message e p DHCP_REQUEST
              (select_options (mtu_short s p) (nf_hostname (c_netif s p)) (dc_offered_ip d) (dc_server_ip d))
              (\<lambda>m. SendToIfSrc m IPADDR_BROADCAST DHCP_SERVER_PORT p)
              (dhcp_set_state DHCP_STATE_REQUESTING d) s)
       (after_try p (backoff 1000))) s"

definition renew_options :: "u16 \<Rightarrow> string \<Rightarrow> dhcp \<Rightarrow> dhcp result" where
  "renew_options mtu hostname d = bindE (max_msg_size_option mtu d) (dhcp_option_hostname hostname)"

definition dhcp_renew :: "dhcpc_env \<Rightarrow> nptr \<Rightarrow> dhcpc \<Rightarrow> (int \<times> dhcpc) result" where
  "dhcp_renew e p s = with_dhcp p (\<lambda>d.
     bindE (dhcp_message e p DHCP_REQUEST (renew_options (mtu_short s p) (nf_hostname (c_netif s p)))
              (\<lambda>m. SendToIf m (dc_server_ip d) DHCP_SERVER_PORT p)
              (dhcp_set_state DHCP_STATE_RENEWING d) s)
       (after_try p (linear_backoff 2000))) s"

definition dhcp_rebind :: "dhcpc_env \<Rightarrow> nptr \<Rightarrow> dhcpc \<Rightarrow> (int \<times> dhcpc) result" where
  "dhcp_rebind e p s = with_dhcp p (\<lambda>d.
     bindE (dhcp_message e p DHCP_REQUEST (renew_options (mtu_short s p) (nf_hostname (c_netif s p)))
              (\<lambda>m. SendToIf m IPADDR_BROADCAST DHCP_SERVER_PORT p)
              (dhcp_set_state DHCP_STATE_REBINDING d) s)
       (after_try p (linear_backoff 1000))) s"

definition reboot_options :: "u32 \<Rightarrow> dhcp \<Rightarrow> dhcp result" where
  "reboot_options offered d =
     bindE (max_msg_size_option 576 d) (address_option DHCP_OPTION_REQUESTED_IP offered)"

definition dhcp_reboot :: "dhcpc_env \<Rightarrow> nptr \<Rightarrow> dhcpc \<Rightarrow> (int \<times> dhcpc) result" where
  "dhcp_reboot e p s = with_dhcp p (\<lambda>d.
     bindE (dhcp_message e p DHCP_REQUEST (reboot_options (dc_offered_ip d))
              (\<lambda>m. SendToIf m IPADDR_BROADCAST DHCP_SERVER_PORT p)
              (dhcp_set_state DHCP_STATE_REBOOTING d) s)
       (after_try p (linear_backoff 1000))) s"

definition forget_offer :: "dhcp \<Rightarrow> dhcp" where
  "forget_offer d =
     d\<lparr>dc_server_ip := 0, dc_offered_ip := 0, dc_offered_sn_mask := 0, dc_offered_gw := 0,
       dc_offered_t0_lease := 0, dc_offered_t1_renew := 0, dc_offered_t2_rebind := 0,
       dc_t1_renew_time := 0, dc_t2_rebind_time := 0, dc_lease_used := 0, dc_t0_timeout := 0\<rparr>"

definition dhcp_release_netif :: "dhcpc_env \<Rightarrow> nptr \<Rightarrow> dhcpc \<Rightarrow> (int \<times> dhcpc) result" where
  "dhcp_release_netif e p s =
     (if \<not> nf_dhcp (c_netif s p) then Inr (ERR_ARG, s)
      else
        let d = c_dhcp s p; server = dc_server_ip d; supplied = dhcp_supplied_address (Some p) s;
            d1 = forget_offer (dhcp_set_state DHCP_STATE_OFF d)
        in if \<not> supplied then Inr (ERR_OK, set_dhcp p d1 s)
           else bindE (dhcp_message e p DHCP_RELEASE (address_option DHCP_OPTION_SERVER_ID server)
                         (\<lambda>m. SendToIf m server DHCP_SERVER_PORT p) d1 s) (\<lambda>(err, d2, s2).
                  Inr (err, call_back p (c_set_addr p 0 0 0 (set_dhcp p d2 s2)))))"

section \<open>Replies\<close>

definition dhcp_handle_nak :: "dhcpc_env \<Rightarrow> nptr \<Rightarrow> dhcpc \<Rightarrow> dhcpc result" where
  "dhcp_handle_nak e p s = with_dhcp p (\<lambda>_.
     let s1 = call_back p (c_set_addr p 0 0 0 s);
         s2 = set_dhcp p (dhcp_set_state DHCP_STATE_BACKING_OFF (c_dhcp s1 p)) s1
     in bindE (dhcp_discover e p s2) (\<lambda>(_, s3). Inr s3)) s"

definition msg_yiaddr :: "byte list \<Rightarrow> u32" where
  "msg_yiaddr m = of_le_bytes (take 4 (drop 16 m))"

definition dhcp_handle_offer :: "dhcpc_env \<Rightarrow> nptr \<Rightarrow> dhcpc \<Rightarrow> dhcpc result" where
  "dhcp_handle_offer e p s = with_dhcp p (\<lambda>d.
     if dhcp_option_given DHCP_OPTION_IDX_SERVER_ID (c_rx s) then
       case dc_msg_in d of
         None \<Rightarrow> Inl NullDeref
       | Some m \<Rightarrow>
           let d1 = d\<lparr>dc_server_ip := lwip_htonl (dhcp_get_option_value DHCP_OPTION_IDX_SERVER_ID (c_rx s)),
                      dc_offered_ip := msg_yiaddr m\<rparr>
           in bindE (dhcp_select e p (set_dhcp p d1 s)) (\<lambda>(_, s2). Inr s2)
     else Inr s) s"

fun name_servers :: "nat list \<Rightarrow> rx_options \<Rightarrow> (u8 \<times> u32) list" where
  \<comment> \<open>the loop over the name servers: up to the first that was not given, without the fallback\<close>
  "name_servers [] r = []"
| "name_servers (n # ns) r =
     (if dhcp_option_given (DHCP_OPTION_IDX_DNS_SERVER + n) r then
        (if n = DNS_FALLBACK_SERVER_INDEX then []
         else [(of_nat n, lwip_htonl (dhcp_get_option_value (DHCP_OPTION_IDX_DNS_SERVER + n) r))]) @
        name_servers ns r
      else [])"

definition dhcp_handle_ack :: "nptr \<Rightarrow> dhcpc \<Rightarrow> dhcpc result" where
  "dhcp_handle_ack p s = with_dhcp p (\<lambda>d.
     case dc_msg_in d of
       None \<Rightarrow> Inl NullDeref
     | Some m \<Rightarrow>
         let r = c_rx s;
             given = (\<lambda>i. dhcp_option_given i r);
             val = (\<lambda>i. dhcp_get_option_value i r);
             t0 = (if given DHCP_OPTION_IDX_LEASE_TIME then val DHCP_OPTION_IDX_LEASE_TIME
                   else dc_offered_t0_lease d);
             t1 = (if given DHCP_OPTION_IDX_T1 then val DHCP_OPTION_IDX_T1 else t0 div 2);
             t2 = (if given DHCP_OPTION_IDX_T2 then val DHCP_OPTION_IDX_T2 else (t0 * 7) div 8);
             d1 = d\<lparr>dc_offered_t0_lease := t0, dc_offered_t1_renew := t1, dc_offered_t2_rebind := t2,
                    dc_offered_ip := msg_yiaddr m,
                    dc_offered_sn_mask :=
                      (if given DHCP_OPTION_IDX_SUBNET_MASK
                       then lwip_htonl (val DHCP_OPTION_IDX_SUBNET_MASK) else 0),
                    dc_subnet_mask_given := given DHCP_OPTION_IDX_SUBNET_MASK,
                    dc_offered_gw :=
                      (if given DHCP_OPTION_IDX_ROUTER then lwip_htonl (val DHCP_OPTION_IDX_ROUTER) else 0)\<rparr>
         in Inr (foldl (\<lambda>t (n, a). client_call (SetNameServer n a) t) (set_dhcp p d1 s)
                   (name_servers [0..<DNS_MAX_SERVERS] r))) s"

definition class_mask :: "u32 \<Rightarrow> u32" where
  \<comment> \<open>the mask of the address's class, in network order\<close>
  "class_mask ip =
     (let first_octet = ip4_addr1 ip in
      if first_octet \<le> 127 then lwip_htonl 0xff000000
      else if 192 \<le> first_octet then lwip_htonl 0xffffff00
      else lwip_htonl 0xffff0000)"

definition bind_timers :: "dhcp \<Rightarrow> dhcp" where
  "bind_timers d =
     (let d0 = d\<lparr>dc_lease_used := 0\<rparr>;
          t0 = dc_offered_t0_lease d0;
          d1 = (if t0 \<noteq> 0xffffffff then d0\<lparr>dc_t0_timeout := (if t0 = 0 then 120 else t0)\<rparr> else d0);
          t1 = dc_offered_t1_renew d1;
          d2 = (if t1 \<noteq> 0xffffffff
                then let x = (if t1 = 0 then drop_bit 1 (dc_t0_timeout d1) else t1)
                     in d1\<lparr>dc_t1_timeout := x, dc_t1_renew_time := x\<rparr>
                else d1);
          t2 = dc_offered_t2_rebind d2;
          d3 = (if t2 \<noteq> 0xffffffff
                then let x = (if t2 = 0 then drop_bit 3 (dc_t0_timeout d2) * 7 else t2)
                     in d2\<lparr>dc_t2_timeout := x, dc_t2_rebind_time := x\<rparr>
                else d2)
      in if dc_t2_timeout d3 \<le> dc_t1_timeout d3 \<and> 0 < dc_t2_timeout d3 then d3\<lparr>dc_t1_timeout := 0\<rparr> else d3)"

definition dhcp_bind :: "nptr \<Rightarrow> dhcpc \<Rightarrow> dhcpc" where
  "dhcp_bind p s =
     (if \<not> nf_dhcp (c_netif s p) then s
      else
        let d = bind_timers (c_dhcp s p);
            sn_mask = (if dc_subnet_mask_given d then dc_offered_sn_mask d else class_mask (dc_offered_ip d));
            gw = (if dc_offered_gw d = 0 then (dc_offered_ip d AND sn_mask) OR lwip_htonl 1
                  else dc_offered_gw d);
            s1 = c_set_addr p (dc_offered_ip d) sn_mask gw (set_dhcp p d s)
        in call_back p (set_dhcp p (dhcp_set_state DHCP_STATE_BOUND d) s1))"

definition chaddr_matches :: "byte list \<Rightarrow> byte list \<Rightarrow> bool" where
  "chaddr_matches hw m = (\<forall>i \<in> {0..<min (length hw) (min NETIF_MAX_HWADDR_LEN DHCP_CHADDR_LEN)}. hw ! i = m ! (28 + i))"

definition handle_reply :: "dhcpc_env \<Rightarrow> nptr \<Rightarrow> dhcpc \<Rightarrow> dhcpc result" where
  \<comment> \<open>the end of \<open>dhcp_recv\<close>, once the options are there\<close>
  "handle_reply e p s =
     (let state = dc_state (c_dhcp s p);
          msg_type = ucast (dhcp_get_option_value DHCP_OPTION_IDX_MSG_TYPE (c_rx s)) :: u8
      in if \<not> dhcp_option_given DHCP_OPTION_IDX_MSG_TYPE (c_rx s) then Inr s
         else if msg_type = DHCP_ACK then
           (if state = DHCP_STATE_REQUESTING
            then bindE (dhcp_handle_ack p s) (\<lambda>s1. Inr (dhcp_bind p s1))
            else if state \<in> {DHCP_STATE_REBOOTING, DHCP_STATE_REBINDING, DHCP_STATE_RENEWING}
            then Inr (dhcp_bind p s)
            else Inr s)
         else if msg_type = DHCP_NAK \<and>
           state \<in> {DHCP_STATE_REBOOTING, DHCP_STATE_REQUESTING, DHCP_STATE_REBINDING, DHCP_STATE_RENEWING}
         then dhcp_handle_nak e p s
         else if msg_type = DHCP_OFFER \<and> state = DHCP_STATE_SELECTING
         then dhcp_handle_offer e p (set_dhcp p ((c_dhcp s p)\<lparr>dc_request_timeout := 0\<rparr>) s)
         else Inr s)"

definition free_reply :: "nptr \<Rightarrow> dhcpc \<Rightarrow> dhcpc result" where
  \<comment> \<open>the label \<open>free_pbuf_and_return\<close>, reached also without a client\<close>
  "free_reply p s = with_dhcp p (\<lambda>d. Inr (client_call FreeReply (set_dhcp p (d\<lparr>dc_msg_in := None\<rparr>) s))) s"

definition for_us :: "netif \<Rightarrow> dhcp \<Rightarrow> byte list \<Rightarrow> bool" where
  \<comment> \<open>the tests of the fixed part, which lies in the first buffer\<close>
  "for_us n d m \<longleftrightarrow> m ! 0 = DHCP_BOOTREPLY \<and> chaddr_matches (nf_hwaddr n) m \<and>
     lwip_ntohl (of_le_bytes (take 4 (drop 4 m))) = dc_xid d"

definition dhcp_recv :: "dhcpc_env \<Rightarrow> nptr \<Rightarrow> chain \<Rightarrow> dhcpc \<Rightarrow> dhcpc result" where
  \<comment> \<open>on the interface the packet came in at\<close>
  "dhcp_recv e p pk s =
     (let d = c_dhcp s p in
      if \<not> nf_dhcp (c_netif s p) \<or> \<not> dc_pcb_allocated d then free_reply p s
      else if dc_msg_in d \<noteq> None then Inl AssertFail
      else if length (hd pk) < 44 \<or> \<not> for_us (c_netif s p) d (hd pk) then free_reply p s
      else bindE (dhcp_parse_reply pk d (c_rx s)) (\<lambda>(err, d1, r).
        let s1 = (set_dhcp p d1 s)\<lparr>c_rx := r\<rparr> in
        if err \<noteq> ERR_OK then free_reply p s1
        else bindE (handle_reply e p s1) (free_reply p)))"

section \<open>Timeouts\<close>

definition REBOOT_TRIES :: u8 where "REBOOT_TRIES = 2"

definition dhcp_timeout :: "dhcpc_env \<Rightarrow> nptr \<Rightarrow> dhcpc \<Rightarrow> dhcpc result" where
  "dhcp_timeout e p s = with_dhcp p (\<lambda>d.
     bindE (if dc_state d = DHCP_STATE_BACKING_OFF \<or> dc_state d = DHCP_STATE_SELECTING then dhcp_discover e p s
            else if dc_state d = DHCP_STATE_REQUESTING then
              (if dc_tries d \<le> 5 then dhcp_select e p s
               else bindE (dhcp_release_netif e p s) (\<lambda>(_, s1). dhcp_discover e p s1))
            else if dc_state d = DHCP_STATE_REBOOTING then
              (if dc_tries d < REBOOT_TRIES then dhcp_reboot e p s else dhcp_discover e p s)
            else Inr (ERR_OK, s)) (\<lambda>(_, s1). Inr s1)) s"

definition half_of_rest :: "u32 \<Rightarrow> u32 \<Rightarrow> u32" where
  \<comment> \<open>\<open>(timeout - lease_used) / 2\<close>, which as a signed number is the same\<close>
  "half_of_rest timeout lease_used = (timeout - lease_used) div 2"

definition dhcp_t1_timeout :: "dhcpc_env \<Rightarrow> nptr \<Rightarrow> dhcpc \<Rightarrow> dhcpc result" where
  "dhcp_t1_timeout e p s = with_dhcp p (\<lambda>d.
     if dc_state d \<in> {DHCP_STATE_REQUESTING, DHCP_STATE_BOUND, DHCP_STATE_RENEWING} then
       bindE (dhcp_renew e p s) (\<lambda>(_, s1).
         let d1 = c_dhcp s1 p; half = half_of_rest (dc_t2_timeout d1) (dc_lease_used d1) in
         Inr (if 3 \<le> half then set_dhcp p (d1\<lparr>dc_t1_renew_time := half\<rparr>) s1 else s1))
     else Inr s) s"

definition dhcp_t2_timeout :: "dhcpc_env \<Rightarrow> nptr \<Rightarrow> dhcpc \<Rightarrow> dhcpc result" where
  "dhcp_t2_timeout e p s = with_dhcp p (\<lambda>d.
     if dc_state d \<in> {DHCP_STATE_REQUESTING, DHCP_STATE_BOUND, DHCP_STATE_RENEWING, DHCP_STATE_REBINDING} then
       bindE (dhcp_rebind e p s) (\<lambda>(_, s1).
         let d1 = c_dhcp s1 p; half = half_of_rest (dc_t0_timeout d1) (dc_lease_used d1) in
         Inr (if 3 \<le> half then set_dhcp p (d1\<lparr>dc_t2_rebind_time := half\<rparr>) s1 else s1))
     else Inr s) s"

definition coarse_tick :: "dhcpc_env \<Rightarrow> nptr \<Rightarrow> dhcpc \<Rightarrow> dhcpc result" where
  \<comment> \<open>the body of the loop of \<open>dhcp_coarse_tmr\<close>: a condition that fails may already have counted\<close>
  "coarse_tick e p s =
     (let d = c_dhcp s p in
      if nf_dhcp (c_netif s p) \<and> dc_state d \<noteq> DHCP_STATE_OFF then
        let d1 = (if dc_t0_timeout d \<noteq> 0 then d\<lparr>dc_lease_used := dc_lease_used d + 1\<rparr> else d) in
        if dc_t0_timeout d \<noteq> 0 \<and> dc_lease_used d1 = dc_t0_timeout d then
          bindE (dhcp_release_netif e p (set_dhcp p d1 s)) (\<lambda>(_, s1).
            bindE (dhcp_discover e p s1) (\<lambda>(_, s2). Inr s2))
        else
          let d2 = (if dc_t2_rebind_time d \<noteq> 0 then d1\<lparr>dc_t2_rebind_time := dc_t2_rebind_time d - 1\<rparr> else d1) in
          if dc_t2_rebind_time d = 1 then dhcp_t2_timeout e p (set_dhcp p d2 s)
          else
            let d3 = (if dc_t1_renew_time d \<noteq> 0 then d2\<lparr>dc_t1_renew_time := dc_t1_renew_time d - 1\<rparr> else d2) in
            if dc_t1_renew_time d = 1 then dhcp_t1_timeout e p (set_dhcp p d3 s)
            else Inr (set_dhcp p d3 s)
      else Inr s)"

definition fine_tick :: "dhcpc_env \<Rightarrow> nptr \<Rightarrow> dhcpc \<Rightarrow> dhcpc result" where
  \<comment> \<open>the body of the loop of \<open>dhcp_fine_tmr\<close>\<close>
  "fine_tick e p s =
     (let d = c_dhcp s p; d1 = d\<lparr>dc_request_timeout := dc_request_timeout d - 1\<rparr> in
      if \<not> nf_dhcp (c_netif s p) then Inr s
      else if 1 < dc_request_timeout d then Inr (set_dhcp p d1 s)
      else if dc_request_timeout d = 1 then dhcp_timeout e p (set_dhcp p d1 s)
      else Inr s)"

partial_function (option) each_netif ::
  "(nptr \<Rightarrow> dhcpc \<Rightarrow> dhcpc result) \<Rightarrow> nptr option \<Rightarrow> dhcpc \<Rightarrow> dhcpc result option" where
  \<comment> \<open>\<open>while (netif != NULL)\<close> along the list\<close>
  "each_netif body cur s =
     (case cur of
        None \<Rightarrow> Some (Inr s)
      | Some p \<Rightarrow>
          (case body p s of
             Inl f \<Rightarrow> Some (Inl f)
           | Inr s1 \<Rightarrow> each_netif body (nf_next (c_netif s1 p)) s1))"

definition or_hang :: "'a result option \<Rightarrow> 'a result" where
  "or_hang r = (case r of None \<Rightarrow> Inl Hang | Some x \<Rightarrow> x)"

definition dhcp_coarse_tmr :: "dhcpc_env \<Rightarrow> dhcpc \<Rightarrow> dhcpc result" where
  "dhcp_coarse_tmr e s = or_hang (each_netif (coarse_tick e) (n_list (c_net s)) s)"

definition dhcp_fine_tmr :: "dhcpc_env \<Rightarrow> dhcpc \<Rightarrow> dhcpc result" where
  "dhcp_fine_tmr e s = or_hang (each_netif (fine_tick e) (n_list (c_net s)) s)"

section \<open>What other parts call\<close>

definition attach :: "nptr \<Rightarrow> bool \<Rightarrow> dhcpc \<Rightarrow> dhcpc" where
  \<comment> \<open>\<open>netif->dhcp\<close> becomes a structure, or null\<close>
  "attach p b s = s\<lparr>c_net := upd_nif p (\<lambda>n. n\<lparr>nf_dhcp := b\<rparr>) (c_net s)\<rparr>"

definition dhcp_set_struct :: "nptr option \<Rightarrow> bool \<Rightarrow> dhcpc \<Rightarrow> dhcpc result" where
  \<comment> \<open>whether a structure is given\<close>
  "dhcp_set_struct o_p given s =
     (case o_p of
        None \<Rightarrow> Inl AssertFail
      | Some p \<Rightarrow>
          if \<not> given \<or> nf_dhcp (c_netif s p) then Inl AssertFail
          else Inr (attach p True (set_dhcp p dhcp_zero s)))"

definition dhcp_cleanup_netif :: "nptr option \<Rightarrow> dhcpc \<Rightarrow> dhcpc result" where
  "dhcp_cleanup_netif o_p s =
     (case o_p of
        None \<Rightarrow> Inl AssertFail
      | Some p \<Rightarrow> if nf_dhcp (c_netif s p) then Inr (attach p False s) else Inr s)"

definition dhcp_set_cb_netif :: "nptr option \<Rightarrow> bool \<Rightarrow> dhcpc \<Rightarrow> dhcpc result" where
  "dhcp_set_cb_netif o_p cb s =
     (case o_p of
        None \<Rightarrow> Inl AssertFail
      | Some p \<Rightarrow>
          if nf_dhcp (c_netif s p) then Inr (set_dhcp p ((c_dhcp s p)\<lparr>dc_cb := cb\<rparr>) s) else Inr s)"

definition dhcp_stop_netif :: "nptr option \<Rightarrow> dhcpc \<Rightarrow> dhcpc result" where
  "dhcp_stop_netif o_p s =
     (case o_p of
        None \<Rightarrow> Inr s
      | Some p \<Rightarrow>
          if \<not> nf_dhcp (c_netif s p) then Inr s
          else
            let d = dhcp_set_state DHCP_STATE_OFF (c_dhcp s p) in
            if dc_msg_in d \<noteq> None then Inl AssertFail
            else if dc_pcb_allocated d then
              bindE (dhcp_dec_pcb_refcount s) (\<lambda>s1. Inr (set_dhcp p (d\<lparr>dc_pcb_allocated := False\<rparr>) s1))
            else Inr (set_dhcp p d s))"

definition DHCP_MAX_MSG_LEN_MIN_REQUIRED :: nat where "DHCP_MAX_MSG_LEN_MIN_REQUIRED = 576"

definition get_struct :: "dhcpc_env \<Rightarrow> nptr \<Rightarrow> dhcpc \<Rightarrow> (bool \<times> dhcpc) result" where
  \<comment> \<open>\<open>dhcp_start\<close>: allocate the structure, or give up what the attached one holds\<close>
  "get_struct e p s =
     (if \<not> nf_dhcp (c_netif s p)
      then Inr (if ce_malloc e (c_asked s) then (True, attach p True (asked s)) else (False, asked s))
      else if dc_msg_out (c_dhcp s p) \<noteq> None \<or> dc_msg_in (c_dhcp s p) \<noteq> None then Inl AssertFail
      else if dc_pcb_allocated (c_dhcp s p) then bindE (dhcp_dec_pcb_refcount s) (\<lambda>s1. Inr (True, s1))
      else Inr (True, s))"

definition dhcp_start_netif :: "dhcpc_env \<Rightarrow> nptr option \<Rightarrow> dhcpc \<Rightarrow> (int \<times> dhcpc) result" where
  "dhcp_start_netif e o_p s =
     (case o_p of
        None \<Rightarrow> Inr (ERR_ARG, s)
      | Some p \<Rightarrow>
          if \<not> netif_is_up (Some p) (c_net s) then Inr (ERR_ARG, s)
          else if \<not> flag_set NETIF_FLAG_ETHARP (c_netif s p) then Inr (ERR_ARG, s)
          else if nf_mtu (c_netif s p) < DHCP_MAX_MSG_LEN_MIN_REQUIRED then Inr (ERR_MEM, s)
          else bindE (get_struct e p s) (\<lambda>(got, s1).
            if \<not> got then Inr (ERR_MEM, s1)
            else bindE (dhcp_inc_pcb_refcount e (set_dhcp p dhcp_zero s1)) (\<lambda>(err, s2).
              if err \<noteq> ERR_OK then Inr (ERR_MEM, s2)
              else bindE (dhcp_discover e p (set_dhcp p (dhcp_zero\<lparr>dc_pcb_allocated := True\<rparr>) s2)) (\<lambda>(err, s3).
                if err \<noteq> ERR_OK then bindE (dhcp_stop_netif (Some p) s3) (\<lambda>s4. Inr (ERR_MEM, s4))
                else Inr (err, s3)))))"

definition dhcp_inform :: "dhcpc_env \<Rightarrow> nptr option \<Rightarrow> dhcpc \<Rightarrow> dhcpc result" where
  \<comment> \<open>with a structure of its own\<close>
  "dhcp_inform e o_p s =
     (case o_p of
        None \<Rightarrow> Inr s
      | Some p \<Rightarrow>
          bindE (dhcp_inc_pcb_refcount e s) (\<lambda>(err, s1).
            if err \<noteq> ERR_OK then Inr s1
            else bindE (dhcp_message e p DHCP_INFORM (max_msg_size_option (mtu_short s p))
                          (\<lambda>m. SendToIf m IPADDR_BROADCAST DHCP_SERVER_PORT p)
                          (dhcp_set_state DHCP_STATE_INFORMING dhcp_zero) s1) (\<lambda>(_, _, s2).
              dhcp_dec_pcb_refcount s2)))"

definition dhcp_network_changed :: "dhcpc_env \<Rightarrow> nptr \<Rightarrow> dhcpc \<Rightarrow> dhcpc result" where
  "dhcp_network_changed e p s =
     (let d = c_dhcp s p; s1 = set_dhcp p (d\<lparr>dc_tries := 0\<rparr>) s in
      if \<not> nf_dhcp (c_netif s p) then Inr s
      else if dc_state d \<in> {DHCP_STATE_REBINDING, DHCP_STATE_RENEWING, DHCP_STATE_BOUND, DHCP_STATE_REBOOTING}
      then bindE (dhcp_reboot e p s1) (\<lambda>(_, s2). Inr s2)
      else if dc_state d = DHCP_STATE_OFF then Inr s
      else bindE (dhcp_discover e p s1) (\<lambda>(_, s2). Inr s2))"

end
