(* ===== verification/Dhcp_Client_Sends.thy ===== *)
theory Dhcp_Client_Sends
  imports Dhcp_Client
begin

text \<open>
  What the DHCP client sends. A routine that adds options is described by the bytes it appends and the
  room it needs; such routines compose, and with a hostname of at most 32 characters every message of
  the client fits the 68 bytes its options have. The result is one equation for every message.
\<close>

section \<open>Appending options\<close>

definition writing :: "byte list \<Rightarrow> byte list \<Rightarrow> dhcp \<Rightarrow> dhcp \<Rightarrow> bool" where
  \<comment> \<open>\<open>d\<close> is \<open>d0\<close> with these options written behind this header\<close>
  "writing hdr os d0 d \<longleftrightarrow> length hdr = 240 \<and>
     (\<exists>rest. length os + length rest = 68 \<and>
        d = d0\<lparr>dc_msg_out := Some (hdr @ os @ rest), dc_options_out_len := of_nat (length os)\<rparr>)"

definition appends :: "(dhcp \<Rightarrow> dhcp result) \<Rightarrow> nat \<Rightarrow> byte list \<Rightarrow> bool" where
  "appends f room bs \<longleftrightarrow>
     (\<forall>hdr os d0 d. writing hdr os d0 d \<and> length os + room \<le> 68 \<longrightarrow>
        (\<exists>d'. f d = Inr d' \<and> writing hdr (os @ bs) d0 d'))"

lemma appendsI:
  "(\<And>hdr os d0 d. writing hdr os d0 d \<Longrightarrow> length os + room \<le> 68 \<Longrightarrow>
     \<exists>d'. f d = Inr d' \<and> writing hdr (os @ bs) d0 d') \<Longrightarrow> appends f room bs"
  by (simp add: appends_def)

lemma appendsD:
  "appends f room bs \<Longrightarrow> writing hdr os d0 d \<Longrightarrow> length os + room \<le> 68 \<Longrightarrow>
     \<exists>d'. f d = Inr d' \<and> writing hdr (os @ bs) d0 d'"
  by (simp add: appends_def)

lemma writing_len: "writing hdr os d0 d \<Longrightarrow> unat (dc_options_out_len d) = length os \<and> length os \<le> 68"
  by (auto simp: writing_def unsigned_of_nat take_bit_nat_eq_self)

lemma put_option_appends: "appends (put_option v) 1 [v]"
proof (rule appendsI)
  fix hdr os d0 d
  assume w: "writing hdr os d0 d" and room: "length os + 1 \<le> 68"
  obtain rest where r: "length hdr = 240" "length os + length rest = 68"
    "d = d0\<lparr>dc_msg_out := Some (hdr @ os @ rest), dc_options_out_len := of_nat (length os)\<rparr>"
    using w unfolding writing_def by blast
  obtain x rest' where x: "rest = x # rest'" using r(2) room by (cases rest) auto
  have i: "240 + unat (dc_options_out_len d) = length (hdr @ os)" using writing_len [OF w] r(1) by simp
  have u: "(hdr @ os @ rest)[length (hdr @ os) := v] = hdr @ (os @ [v]) @ rest'"
    by (simp add: x list_update_append)
  have lt: "length (hdr @ os) < length (hdr @ os @ rest)" using x by simp
  have mo: "dc_msg_out d = Some (hdr @ os @ rest)" by (simp add: r(3))
  have "put_option v d = Inr (d\<lparr>dc_msg_out := Some (hdr @ (os @ [v]) @ rest'),
      dc_options_out_len := dc_options_out_len d + 1\<rparr>)"
    unfolding put_option_def mo option.case Let_def dhcp_sizes i u using lt by simp
  moreover have "writing hdr (os @ [v]) d0 (d\<lparr>dc_msg_out := Some (hdr @ (os @ [v]) @ rest'),
      dc_options_out_len := dc_options_out_len d + 1\<rparr>)"
    unfolding writing_def using r x by (auto intro!: exI [of _ rest'] simp: add.commute)
  ultimately show "\<exists>d'. put_option v d = Inr d' \<and> writing hdr (os @ [v]) d0 d'" by blast
qed

lemma appends_bind:
  assumes "appends f r1 b1" "appends g r2 b2" "r1 \<le> room" "length b1 + r2 \<le> room"
  shows "appends (\<lambda>d. bindE (f d) g) room (b1 @ b2)"
proof (rule appendsI)
  fix hdr os d0 d
  assume w: "writing hdr os d0 d" and room: "length os + room \<le> 68"
  obtain d1 where d1: "f d = Inr d1" "writing hdr (os @ b1) d0 d1"
    using appendsD [OF assms(1) w] room assms(3) by auto
  have "length (os @ b1) + r2 \<le> 68" using room assms(4) by simp
  from appendsD [OF assms(2) d1(2) this] d1(1)
  show "\<exists>d'. bindE (f d) g = Inr d' \<and> writing hdr (os @ b1 @ b2) d0 d'" by auto
qed

lemma appends_room: "appends f r bs \<Longrightarrow> r \<le> room \<Longrightarrow> appends f room bs"
  unfolding appends_def by (meson add_le_mono le_refl order_trans)

lemma appends_guarded:
  \<comment> \<open>an assertion about the room\<close>
  assumes "appends f r bs" "r \<le> room"
    and "\<And>d n. unat (dc_options_out_len d) = n \<Longrightarrow> n + room \<le> 68 \<Longrightarrow> P d"
  shows "appends (\<lambda>d. if P d then f d else Inl AssertFail) room bs"
proof (rule appendsI)
  fix hdr os d0 d
  assume w: "writing hdr os d0 d" and room: "length os + room \<le> 68"
  have "P d" using assms(3) [of d "length os"] writing_len [OF w] room by simp
  moreover have "length os + r \<le> 68" using room assms(2) by simp
  ultimately show "\<exists>d'. (if P d then f d else Inl AssertFail) = Inr d' \<and> writing hdr (os @ bs) d0 d'"
    using appendsD [OF assms(1) w] by simp
qed

lemma put_options_out_appends: "appends (put_options_out vs) (length vs) vs"
proof (induction vs)
  case Nil
  show ?case by (simp add: appends_def)
next
  case (Cons v vs)
  have "appends (\<lambda>d. bindE (put_option v d) (put_options_out vs)) (length (v # vs)) ([v] @ vs)"
    by (rule appends_bind [OF put_option_appends Cons.IH]) simp_all
  moreover have "put_options_out (v # vs) = (\<lambda>d. bindE (put_option v d) (put_options_out vs))"
    by (rule ext) simp
  ultimately show ?case by simp
qed

lemma dhcp_option_appends: "appends (dhcp_option t l) (2 + unat l) [t, l]"
proof -
  have f: "dhcp_option t l = (\<lambda>d. if unat (dc_options_out_len d) + 2 + unat l \<le> DHCP_OPTIONS_LEN
      then put_options_out [t, l] d else Inl AssertFail)"
    by (rule ext) (simp add: dhcp_option_def)
  show ?thesis
    unfolding f by (rule appends_guarded [OF put_options_out_appends]) (simp_all add: dhcp_sizes)
qed

lemma dhcp_option_byte_appends: "appends (dhcp_option_byte v) 1 [v]"
proof -
  have f: "dhcp_option_byte v = (\<lambda>d. if unat (dc_options_out_len d) < DHCP_OPTIONS_LEN
      then put_option v d else Inl AssertFail)"
    by (rule ext) (simp add: dhcp_option_byte_def)
  show ?thesis unfolding f by (rule appends_guarded [OF put_option_appends]) (simp_all add: dhcp_sizes)
qed

definition be16 :: "u16 \<Rightarrow> byte list" where
  "be16 v = [ucast (drop_bit 8 (v AND 0xff00)), ucast (v AND 0x00ff)]"

definition be32 :: "u32 \<Rightarrow> byte list" where
  "be32 v = [ucast (drop_bit 24 (v AND 0xff000000)), ucast (drop_bit 16 (v AND 0x00ff0000)),
     ucast (drop_bit 8 (v AND 0x0000ff00)), ucast (v AND 0x000000ff)]"

lemma length_be [simp]: "length (be16 v) = 2" "length (be32 w) = 4"
  by (simp_all add: be16_def be32_def)

lemma dhcp_option_short_appends: "appends (dhcp_option_short v) 2 (be16 v)"
proof -
  have f: "dhcp_option_short v = (\<lambda>d. if unat (dc_options_out_len d) + 2 \<le> DHCP_OPTIONS_LEN
      then put_options_out (be16 v) d else Inl AssertFail)"
    by (rule ext) (simp only: dhcp_option_short_def be16_def)
  show ?thesis
    unfolding f by (rule appends_guarded [OF put_options_out_appends]) (simp_all add: dhcp_sizes)
qed

lemma dhcp_option_long_appends: "appends (dhcp_option_long v) 4 (be32 v)"
proof -
  have f: "dhcp_option_long v = (\<lambda>d. if unat (dc_options_out_len d) + 4 \<le> DHCP_OPTIONS_LEN
      then put_options_out (be32 v) d else Inl AssertFail)"
    by (rule ext) (simp only: dhcp_option_long_def be32_def)
  show ?thesis
    unfolding f by (rule appends_guarded [OF put_options_out_appends]) (simp_all add: dhcp_sizes)
qed

lemma dhcp_option_bytes_appends: "appends (dhcp_option_bytes vs) (length vs) vs"
proof (induction vs)
  case Nil
  show ?case by (simp add: appends_def)
next
  case (Cons v vs)
  have "appends (\<lambda>d. bindE (dhcp_option_byte v d) (dhcp_option_bytes vs)) (length (v # vs)) ([v] @ vs)"
    by (rule appends_bind [OF dhcp_option_byte_appends Cons.IH]) simp_all
  moreover have "dhcp_option_bytes (v # vs) = (\<lambda>d. bindE (dhcp_option_byte v d) (dhcp_option_bytes vs))"
    by (rule ext) simp
  ultimately show ?case by simp
qed

definition hostname_bytes :: "string \<Rightarrow> byte list" where
  "hostname_bytes h = (if h = [] then [] else [12, of_nat (length h)] @ map of_char h)"

lemma dhcp_option_hostname_appends:
  assumes "length h \<le> 255"
  shows "appends (dhcp_option_hostname h) (if h = [] then 0 else length h + 3) (hostname_bytes h)"
proof (cases "h = []")
  case True
  then show ?thesis by (simp add: appends_def dhcp_option_hostname_def hostname_bytes_def)
next
  case False
  define len where "len = (of_nat (length h) :: u8)"
  have len: "unat len = length h" using assms by (simp add: len_def unsigned_of_nat take_bit_nat_eq_self)
  let ?g = "dhcp_option_bytes (map of_char h)"
  have tail: "appends (\<lambda>d. bindE (dhcp_option 12 len d) ?g) (length h + 2) ([12, len] @ map of_char h)"
    by (rule appends_bind [OF dhcp_option_appends dhcp_option_bytes_appends]) (simp_all add: len)
  show ?thesis
  proof (rule appendsI)
    fix hdr os d0 d
    assume w: "writing hdr os d0 d" and r: "length os + (if h = [] then 0 else length h + 3) \<le> 68"
    have room: "length os + length h + 3 \<le> 68" using r False by simp
    have o: "dc_options_out_len d = of_nat (length os)" using w by (auto simp: writing_def)
    have "ucast (of_nat (length os) :: u16) = (of_nat (length os) :: u32)"
      using room by (simp add: word_unat_eq_iff unsigned_ucast_eq unsigned_of_nat take_bit_nat_eq_self)
    then have "of_nat DHCP_OPTIONS_LEN - ucast (dc_options_out_len d) - 3 = (of_nat (65 - length os) :: u32)"
      using room by (simp add: o dhcp_sizes of_nat_diff)
    then have av: "unat (of_nat DHCP_OPTIONS_LEN - ucast (dc_options_out_len d) - 3 :: u32) = 65 - length os"
      by (simp add: unsigned_of_nat take_bit_nat_eq_self)
    have "\<not> 65 - length os < length h" "min (length h) (65 - length os) = length h" using room by simp_all
    then have "dhcp_option_hostname h d = bindE (dhcp_option 12 len d) ?g"
      unfolding dhcp_option_hostname_def Let_def av using False len by (simp add: len_def dhcp_opts)
    then show "\<exists>d'. dhcp_option_hostname h d = Inr d' \<and> writing hdr (os @ hostname_bytes h) d0 d'"
      using appendsD [OF tail w] room False by (simp add: hostname_bytes_def len_def)
  qed
qed

section \<open>The options of the messages\<close>

lemma max_msg_size_appends: "appends (max_msg_size_option v) 4 ([57, 2] @ be16 v)"
proof -
  have "appends (\<lambda>d. bindE (dhcp_option 57 2 d) (dhcp_option_short v)) 4 ([57, 2] @ be16 v)"
    by (rule appends_bind [OF dhcp_option_appends dhcp_option_short_appends]) simp_all
  then show ?thesis by (simp add: max_msg_size_option_def [abs_def] dhcp_opts)
qed

lemma address_option_appends: "appends (address_option t a) 6 ([t, 4] @ be32 (lwip_ntohl a))"
proof -
  have "appends (\<lambda>d. bindE (dhcp_option t 4 d) (dhcp_option_long (lwip_ntohl a))) 6 ([t, 4] @ be32 (lwip_ntohl a))"
    by (rule appends_bind [OF dhcp_option_appends dhcp_option_long_appends]) simp_all
  then show ?thesis by (simp add: address_option_def [abs_def])
qed

lemma parameter_list_appends:
  "appends parameter_list_option 14 ([55, 12] @ dhcp_discover_select_options)"
proof -
  have l: "of_nat (length dhcp_discover_select_options) = (12 :: u8)"
    by (simp add: dhcp_discover_select_options_def)
  have "appends (\<lambda>d. bindE (dhcp_option 55 12 d) (dhcp_option_bytes dhcp_discover_select_options)) 14
      ([55, 12] @ dhcp_discover_select_options)"
    by (rule appends_bind [OF dhcp_option_appends dhcp_option_bytes_appends])
      (simp_all add: dhcp_discover_select_options_def)
  then show ?thesis by (simp add: parameter_list_option_def [abs_def] dhcp_opts l)
qed

definition discover_bytes :: "u16 \<Rightarrow> string \<Rightarrow> byte list" where
  "discover_bytes mtu h = ([57, 2] @ be16 mtu) @ hostname_bytes h @ [55, 12] @ dhcp_discover_select_options"

definition select_bytes :: "u16 \<Rightarrow> string \<Rightarrow> u32 \<Rightarrow> u32 \<Rightarrow> byte list" where
  "select_bytes mtu h ip server =
     ([57, 2] @ be16 mtu) @ ([50, 4] @ be32 (lwip_ntohl ip)) @ ([54, 4] @ be32 (lwip_ntohl server)) @
     ([55, 12] @ dhcp_discover_select_options) @ hostname_bytes h"

definition renew_bytes :: "u16 \<Rightarrow> string \<Rightarrow> byte list" where
  "renew_bytes mtu h = ([57, 2] @ be16 mtu) @ hostname_bytes h"

definition reboot_bytes :: "u32 \<Rightarrow> byte list" where
  "reboot_bytes ip = ([57, 2] @ be16 576) @ [50, 4] @ be32 (lwip_ntohl ip)"

lemma length_hostname_bytes: "length h \<le> 32 \<Longrightarrow> length (hostname_bytes h) \<le> 34"
  by (simp add: hostname_bytes_def)

lemma hostname_appends:
  assumes "length h \<le> 32" shows "appends (dhcp_option_hostname h) 35 (hostname_bytes h)"
proof (rule appends_room [OF dhcp_option_hostname_appends])
  show "length h \<le> 255" using assms by simp
qed (use assms in simp)

lemma discover_appends:
  assumes "length h \<le> 32" shows "appends (discover_options mtu h) 60 (discover_bytes mtu h)"
proof -
  have "appends (\<lambda>d. bindE (max_msg_size_option mtu d)
      (\<lambda>d. bindE (dhcp_option_hostname h d) parameter_list_option)) 60 (discover_bytes mtu h)"
    unfolding discover_bytes_def
    by (rule appends_bind [OF max_msg_size_appends
          appends_bind [OF hostname_appends [OF assms] parameter_list_appends, where room = 50]])
      (use length_hostname_bytes [OF assms] in simp_all)
  then show ?thesis by (simp add: discover_options_def [abs_def])
qed

lemma select_appends:
  assumes "length h \<le> 32" shows "appends (select_options mtu h ip server) 65 (select_bytes mtu h ip server)"
proof -
  have "appends (\<lambda>d. bindE (parameter_list_option d) (dhcp_option_hostname h)) 49
      (([55, 12] @ dhcp_discover_select_options) @ hostname_bytes h)"
    by (rule appends_bind [OF parameter_list_appends hostname_appends [OF assms]])
      (simp_all add: dhcp_discover_select_options_def)
  from appends_bind [OF address_option_appends [where t = 54 and a = server] this, where room = 55]
  have "appends (\<lambda>d. bindE (address_option 54 server d) (\<lambda>d. bindE (parameter_list_option d) (dhcp_option_hostname h)))
      55 (([54, 4] @ be32 (lwip_ntohl server)) @ ([55, 12] @ dhcp_discover_select_options) @ hostname_bytes h)"
    by simp
  from appends_bind [OF address_option_appends [where t = 50 and a = ip] this, where room = 61]
  have "appends (\<lambda>d. bindE (address_option 50 ip d) (\<lambda>d. bindE (address_option 54 server d)
      (\<lambda>d. bindE (parameter_list_option d) (dhcp_option_hostname h)))) 61
      (([50, 4] @ be32 (lwip_ntohl ip)) @ ([54, 4] @ be32 (lwip_ntohl server)) @
       ([55, 12] @ dhcp_discover_select_options) @ hostname_bytes h)" by simp
  from appends_bind [OF max_msg_size_appends [where v = mtu] this, where room = 65]
  show ?thesis by (simp add: select_options_def [abs_def] select_bytes_def dhcp_opts)
qed

lemma renew_appends:
  assumes "length h \<le> 32" shows "appends (renew_options mtu h) 39 (renew_bytes mtu h)"
proof -
  have "appends (\<lambda>d. bindE (max_msg_size_option mtu d) (dhcp_option_hostname h)) 39 (renew_bytes mtu h)"
    unfolding renew_bytes_def
    by (rule appends_bind [OF max_msg_size_appends hostname_appends [OF assms]]) simp_all
  then show ?thesis by (simp add: renew_options_def [abs_def])
qed

lemma reboot_appends: "appends (reboot_options ip) 10 (reboot_bytes ip)"
proof -
  have "appends (\<lambda>d. bindE (max_msg_size_option 576 d) (address_option 50 ip)) 10 (reboot_bytes ip)"
    unfolding reboot_bytes_def
    by (rule appends_bind [OF max_msg_size_appends address_option_appends]) simp_all
  then show ?thesis by (simp add: reboot_options_def [abs_def] dhcp_opts)
qed

section \<open>A whole message\<close>

lemma length_dhcp_header [simp]: "length (dhcp_header n d t) = 240"
  by (simp add: dhcp_header_def dhcp_chaddr_def dhcp_sizes le_bytes_def)

lemma pad_options_writes:
  assumes "writing hdr os d0 d"
  shows "\<exists>d'. pad_options d = Inr d' \<and> writing hdr (os @ replicate (68 - length os) 0) d0 d'"
  using assms
proof (induction "68 - length os" arbitrary: os d)
  case 0
  then have "length os = 68" "unat (dc_options_out_len d) = 68" using writing_len [of hdr os d0 d] by auto
  then have "pad_options d = Inr d" by (subst pad_options.simps) (simp add: dhcp_sizes)
  with 0(2) \<open>length os = 68\<close> show ?case by simp
next
  case (Suc k)
  have lt: "length os < 68" using Suc(2) by simp
  have u: "unat (dc_options_out_len d) = length os" using writing_len [OF Suc(3)] by simp
  obtain d1 where d1: "put_option 0 d = Inr d1" "writing hdr (os @ [0]) d0 d1"
    using appendsD [OF put_option_appends Suc(3), of 0] lt by auto
  have "k = 68 - length (os @ [0])" using Suc(2) by simp
  from Suc(1) [OF this d1(2)] obtain d2 where d2: "pad_options d1 = Inr d2"
    "writing hdr ((os @ [0]) @ replicate (68 - length (os @ [0])) 0) d0 d2" by blast
  have "pad_options d = Inr d2"
    using lt u d1(1) d2(1) by (subst pad_options.simps) (simp add: dhcp_sizes)
  moreover have "(os @ [0]) @ replicate (68 - length (os @ [0])) 0 = os @ replicate (68 - length os) (0 :: byte)"
    using lt by (simp add: Suc_diff_Suc flip: replicate_Suc)
  ultimately show ?case using d2(2) by simp
qed

definition message_options :: "u8 \<Rightarrow> byte list \<Rightarrow> byte list" where
  \<comment> \<open>the type, the other options, the end, and zeros\<close>
  "message_options t bs = [53, 1, t] @ bs @ [255] @ replicate (64 - length bs) 0"

lemma finish_msg_writes:
  assumes "writing hdr os d0 d" "length os < 68" "c_pcb s"
  shows "finish_msg call d s =
    Inr (d0\<lparr>dc_msg_out := None, dc_options_out_len := 68\<rparr>,
      client_call (call (hdr @ os @ [255] @ replicate (67 - length os) 0)) s)"
proof -
  have u: "unat (dc_options_out_len d) = length os" and some: "dc_msg_out d \<noteq> None"
    using writing_len [OF assms(1)] assms(1) by (auto simp: writing_def)
  obtain d1 where d1: "put_option 255 d = Inr d1" "writing hdr (os @ [255]) d0 d1"
    using appendsD [OF put_option_appends assms(1), of 255] assms(2) by auto
  obtain d2 where d2: "pad_options d1 = Inr d2"
    "writing hdr ((os @ [255]) @ replicate (68 - length (os @ [255])) 0) d0 d2"
    using pad_options_writes [OF d1(2)] by blast
  define all where "all = (os @ [255]) @ replicate (68 - length (os @ [255])) 0"
  have la: "length all = 68" using assms(2) by (simp add: all_def)
  obtain rest where r: "length hdr = 240" "length all + length rest = 68"
    "d2 = d0\<lparr>dc_msg_out := Some (hdr @ all @ rest), dc_options_out_len := of_nat (length all)\<rparr>"
    using d2(2) unfolding writing_def all_def [symmetric] by blast
  have "rest = []" using r(2) la by simp
  then have d2': "d2 = d0\<lparr>dc_msg_out := Some (hdr @ all), dc_options_out_len := 68\<rparr>"
    using r(3) la by simp
  have tr: "dhcp_option_trailer d = Inr d2"
    using some u assms(2) d1(1) d2(1) by (simp add: dhcp_option_trailer_def dhcp_sizes dhcp_opts)
  have "all = os @ [255] @ replicate (67 - length os) 0" by (simp add: all_def)
  then show ?thesis
    using tr r(1) la assms(3)
    by (simp add: finish_msg_def d2' udp_out_def dhcp_delete_msg_def dhcp_sizes)
qed

lemma dhcp_message_sends:
  assumes ap: "appends opts room bs" "room \<le> 65" "length bs \<le> 64"
    and d: "dc_msg_out d = None" and s: "c_pcb s"
  shows "dhcp_message e p t opts call d s =
    (if ce_pbuf e (c_asked s) then
       (case take_xid e t d (asked s) of
          (d1, s1) \<Rightarrow> Inr (ERR_OK, d1\<lparr>dc_msg_out := None, dc_options_out_len := 68\<rparr>,
            client_call (call (dhcp_header (c_netif s p) d1 t @ message_options t bs)) s1))
     else Inr (ERR_MEM, d, asked s))"
proof (cases "ce_pbuf e (c_asked s)")
  case True
  obtain d1 s1 where x: "take_xid e t d (asked s) = (d1, s1)" by (cases "take_xid e t d (asked s)")
  have pcb: "c_pcb s1" using x s by (auto simp: take_xid_def asked_def Let_def split: if_splits)
  define hdr where "hdr = dhcp_header (c_netif s p) d1 t"
  have hl: "length hdr = 240" by (simp add: hdr_def)
  define d2 where "d2 = d1\<lparr>dc_msg_out := Some (hdr @ map of_nat [0..<DHCP_OPTIONS_LEN]), dc_options_out_len := 0\<rparr>"
  have w2: "writing hdr [] d1 d2"
    unfolding writing_def d2_def using hl
    by (auto intro!: exI [of _ "map of_nat [0..<DHCP_OPTIONS_LEN]"] simp: dhcp_sizes)
  obtain d3 where d3: "dhcp_option 53 1 d2 = Inr d3" "writing hdr ([] @ [53, 1]) d1 d3"
    using appendsD [OF dhcp_option_appends w2, of 1 53] by auto
  obtain d4 where d4: "dhcp_option_byte t d3 = Inr d4" "writing hdr (([] @ [53, 1]) @ [t]) d1 d4"
    using appendsD [OF dhcp_option_byte_appends d3(2), of t] by auto
  have cm: "dhcp_create_msg e p t d s = Inr (ERR_OK, d4, s1)"
    using True x d d3(1) d4(1) unfolding dhcp_create_msg_def hdr_def d2_def
    by (simp add: Let_def dhcp_opts hdr_def [symmetric] d2_def [unfolded hdr_def, symmetric])
  have "length (([] @ [53, 1]) @ [t]) + room \<le> 68" using ap(2) by simp
  from appendsD [OF ap(1) d4(2) this] obtain d5 where d5: "opts d4 = Inr d5"
    "writing hdr ((([] @ [53, 1]) @ [t]) @ bs) d1 d5" by blast
  have "length ((([] @ [53, 1]) @ [t]) @ bs) < 68" using ap(3) by simp
  from finish_msg_writes [OF d5(2) this pcb, of call]
  have "finish_msg call d5 s1 = Inr (d1\<lparr>dc_msg_out := None, dc_options_out_len := 68\<rparr>,
      client_call (call (hdr @ message_options t bs)) s1)"
    by (simp add: message_options_def)
  then show ?thesis using True x cm d5(1) by (simp add: dhcp_message_def hdr_def)
next
  case False
  then show ?thesis using d by (simp add: dhcp_message_def dhcp_create_msg_def dhcp_errors)
qed

lemma dhcp_message_bytes:
  assumes "length h \<le> 32"
  shows "length (discover_bytes mtu h) \<le> 64" "length (select_bytes mtu h ip server) \<le> 64"
    "length (renew_bytes mtu h) \<le> 64" "length (reboot_bytes ip) \<le> 64"
    "length ([54, 4 :: byte] @ be32 (lwip_ntohl server)) \<le> 64" "length ([57, 2 :: byte] @ be16 mtu) \<le> 64"
  using length_hostname_bytes [OF assms]
  by (simp_all add: discover_bytes_def select_bytes_def renew_bytes_def reboot_bytes_def
      dhcp_discover_select_options_def)

end
