(* ===== verification/Dhcp_Client_Reads.thy ===== *)
theory Dhcp_Client_Reads
  imports Dhcp_Client
begin

text \<open>
  How the DHCP client reads a reply. The reference is a reader of one flat list of bytes, which knows
  no buffers, offsets or 16-bit numbers; the loop of \<open>dhcp_parse_reply\<close> gives its result for every way a
  packet may be cut into buffers, as long as no buffer but the first and the last is shorter than the
  longest option.
\<close>

section \<open>The reference\<close>

function read_value :: "nat \<Rightarrow> nat \<Rightarrow> byte list \<Rightarrow> u32 \<Rightarrow> rx_options \<Rightarrow> int \<times> rx_options" where
  \<comment> \<open>the bytes to decode, the index, the bytes there are, the previous value\<close>
  "read_value n idx bs v r =
     (if n = 0 \<or> dhcp_option_given idx r then (ERR_OK, r)
      else
        let b = take (min n 4) bs; v' = of_le_bytes (b @ drop (length b) (le_bytes v)) in
        if 4 < n then
          read_value (n - 4) (idx + 1) (drop 4 bs) v'
            (dhcp_set_option_value idx (lwip_htonl v') (dhcp_got_option idx r))
        else if n = 4 then (ERR_OK, dhcp_set_option_value idx (lwip_ntohl v') (dhcp_got_option idx r))
        else if n = 1 then (ERR_OK, dhcp_set_option_value idx (ucast (ip4_addr1 v')) (dhcp_got_option idx r))
        else (ERR_VAL, r))"
  by pat_completeness auto
termination by (relation "measure (\<lambda>(n, _). n)") auto

declare read_value.simps [simp del]

definition second_byte :: "byte list \<Rightarrow> u8" where
  "second_byte bs = (case bs of _ # l # _ \<Rightarrow> l | _ \<Rightarrow> 0)"

function read_opts :: "byte list \<Rightarrow> rx_options \<Rightarrow> int \<times> rx_options" where
  "read_opts bs r =
     (if bs = [] \<or> hd bs = DHCP_OPTION_END then (ERR_OK, r)
      else if hd bs = DHCP_OPTION_PAD then read_opts (tl bs) r
      else case option_plan (hd bs) (second_byte bs) of
             None \<Rightarrow> (ERR_VAL, r)
           | Some (n, idx) \<Rightarrow>
               if fst (read_value (unat n) idx (drop 2 bs) 0 r) = ERR_OK
               then read_opts (drop (unat (second_byte bs) + 2) bs) (snd (read_value (unat n) idx (drop 2 bs) 0 r))
               else read_value (unat n) idx (drop 2 bs) 0 r)"
  by pat_completeness auto
termination by (relation "measure (\<lambda>(bs, _). length bs)") auto

declare read_opts.simps [simp del]

section \<open>Values\<close>

lemma u16_add_nat: "unat (x :: u16) + n < 65536 \<Longrightarrow> unat (x + of_nat n) = unat x + n"
  by (simp add: unat_word_ariths unsigned_of_nat take_bit_nat_eq_self)

lemma u16_sub_nat: "n \<le> unat (x :: u16) \<Longrightarrow> unat (x - of_nat n) = unat x - n"
proof -
  assume n: "n \<le> unat x"
  have "unat x < 65536" using unsigned_less [of x] by simp
  then have "unat (of_nat n :: u16) = n" using n by (simp add: unsigned_of_nat take_bit_nat_eq_self)
  then show ?thesis using n by (metis unat_sub word_le_nat_alt)
qed

lemma option_plan_idx:
  "option_plan op len = Some (n, idx) \<Longrightarrow> 0 < n \<Longrightarrow> idx + (unat n + 3) div 4 \<le> 11 \<and> unat n \<le> 12"
proof -
  assume p: "option_plan op len = Some (n, idx)" "0 < n"
  have m: "unat (min len 12) \<le> 12" by (simp add: min_def word_le_nat_alt)
  then have d: "(unat (min len 12) + 3) div 4 \<le> 3" by linarith
  show ?thesis
    using p d m unfolding option_plan_def
    by (auto simp: dhcp_idx min_def word_le_nat_alt split: if_splits)
qed

lemma decode_next_read:
  assumes "0 < n" "idx + (n + 3) div 4 \<le> 11" "unat off + n < 65536"
  shows "decode_next qs n idx off v r = Inr (read_value n idx (drop (unat off) (concat qs)) v r)"
  using assms
proof (induction qs n idx off v r rule: decode_next.induct)
  case (1 qs n idx off v r)
  have idx: "idx < DHCP_OPTION_IDX_MAX" using "1.prems" by (simp add: dhcp_idx)
  let ?v = "copy_value qs (min n 4) (unat off) v"
  have v: "of_le_bytes (take (min n 4) (drop (unat off) (concat qs)) @
      drop (length (take (min n 4) (drop (unat off) (concat qs)))) (le_bytes v)) = ?v"
    by (simp add: copy_value_def copy_partial_def Let_def)
  show ?case
  proof (cases "\<not> dhcp_option_given idx r \<and> 4 < n")
    case True
    let ?r = "dhcp_set_option_value idx (lwip_htonl ?v) (dhcp_got_option idx r)"
    have o4: "unat (off + 4) = unat off + 4" using u16_add_nat [of off 4] "1.prems" True by simp
    have d: "drop (unat off + 4) (concat qs) = drop 4 (drop (unat off) (concat qs))" by (simp add: add.commute)
    have "decode_next qs (n - 4) (idx + 1) (off + 4) ?v ?r =
        Inr (read_value (n - 4) (idx + 1) (drop (unat (off + 4)) (concat qs)) ?v ?r)"
    proof (rule "1.IH")
      show "\<not> \<not> idx < DHCP_OPTION_IDX_MAX" "\<not> dhcp_option_given idx r" "4 < n" using True idx by simp_all
      show "0 < n - 4" using True by simp
      have "(n + 3) div 4 = Suc ((n - 4 + 3) div 4)" using True by linarith
      then show "idx + 1 + (n - 4 + 3) div 4 \<le> 11" using "1.prems"(2) by simp
      show "unat (off + 4) + (n - 4) < 65536" unfolding o4 using "1.prems"(3) True by simp
    qed simp
    then show ?thesis
      using True idx
      by (subst decode_next.simps, subst read_value.simps) (simp only: v Let_def o4 d, simp)
  next
    case False
    then show ?thesis
      using "1.prems"(1) idx
      by (subst decode_next.simps, subst read_value.simps) (simp only: v Let_def, auto)
  qed
qed

section \<open>The loop over the options\<close>

definition wide_chain :: "chain \<Rightarrow> bool" where
  \<comment> \<open>no empty buffer, and an option never spans a whole buffer that is followed by another\<close>
  "wide_chain p \<longleftrightarrow> (\<forall>q \<in> set p. q \<noteq> []) \<and> (\<forall>q \<in> set (butlast (tl p)). 257 \<le> length q)"

lemma wide_chain_tl: "wide_chain (q # rest) \<Longrightarrow> wide_chain rest"
  unfolding wide_chain_def by (cases rest) (auto dest: in_set_butlastD split: if_splits)

lemma wide_chain_next:
  "wide_chain (q # n # rest) \<Longrightarrow> rest \<noteq> [] \<Longrightarrow> 257 \<le> length n"
  by (simp add: wide_chain_def)

lemma option_len_byte_flat:
  assumes "unat off < length q" "wide_chain (q # rest)"
  shows "option_len_byte q rest off = Inr (second_byte (drop (unat off) (concat (q # rest))))"
proof (cases "unat off + 1 < length q")
  case True
  then have "drop (unat off) q = q ! unat off # q ! (unat off + 1) # drop (unat off + 2) q"
    by (metis Cons_nth_drop_Suc Suc_eq_plus1 Suc_lessD add_2_eq_Suc')
  with True show ?thesis by (simp add: option_len_byte_def second_byte_def)
next
  case False
  then have "drop (unat off) q = [q ! unat off]"
    using assms(1) by (metis Cons_nth_drop_Suc Suc_eq_plus1 Suc_lessI drop_all le_refl linorder_not_less)
  moreover have "n # rest' = rest \<Longrightarrow> n \<noteq> []" for n rest' using assms(2) by (auto simp: wide_chain_def)
  ultimately show ?thesis
    using False assms(1)
    by (cases rest) (auto simp: option_len_byte_def second_byte_def neq_Nil_conv)
qed

definition at_flat :: "chain \<Rightarrow> u16 \<Rightarrow> u16 \<Rightarrow> byte list \<Rightarrow> bool" where
  \<comment> \<open>the loop stands before these remaining bytes\<close>
  "at_flat qs off mx bs \<longleftrightarrow> qs \<noteq> [] \<and> unat off < length (hd qs) \<and> wide_chain qs \<and>
     unat mx = length (concat qs) \<and> unat mx \<le> 65000 \<and> bs = drop (unat off) (concat qs)"

lemma next_option_flat:
  assumes "at_flat (q # rest) off mx bs" "0 < k" "k \<le> 257"
  shows "if length bs \<le> k
    then next_option q rest (off + of_nat k) mx r = Inr (ParseDone ERR_OK r)
    else \<exists>qs' off' mx'. next_option q rest (off + of_nat k) mx r = Inr (ParseNext qs' off' mx' r) \<and>
      at_flat qs' off' mx' (drop k bs)"
proof -
  have a: "unat off < length q" "wide_chain (q # rest)" "unat mx = length q + length (concat rest)"
    "unat mx \<le> 65000" "bs = drop (unat off) (concat (q # rest))"
    using assms(1) by (simp_all add: at_flat_def)
  have lb: "length bs = unat mx - unat off" using a by simp
  have o: "unat (off + of_nat k) = unat off + k" by (rule u16_add_nat) (use a assms(3) in simp)
  show ?thesis
  proof (cases "length q \<le> unat off + k")
    case False
    then have "\<not> length bs \<le> k" using lb a by simp
    moreover have "drop k bs = drop (unat off + k) (concat (q # rest))"
      by (simp only: a(5) drop_drop add.commute)
    ultimately show ?thesis
      using False a o by (simp add: next_option_def at_flat_def)
  next
    case True
    define off' where "off' = off + of_nat k - of_nat (length q)"
    define mx' where "mx' = mx - (of_nat (length q) :: u16)"
    have o': "unat off' = unat off + k - length q" unfolding off'_def o [symmetric]
      by (rule u16_sub_nat) (use True o in simp)
    have m': "unat mx' = length (concat rest)"
      unfolding mx'_def using u16_sub_nat [of "length q" mx] a(3) by simp
    have lt: "off' < mx' \<longleftrightarrow> \<not> length bs \<le> k"
      unfolding word_less_nat_alt o' m' lb a(3) using True a(1) by auto
    have step: "next_option q rest (off + of_nat k) mx r =
        (if off' < mx' \<and> mx' \<noteq> 0 then (if rest = [] then Inl AssertFail else Inr (ParseNext rest off' mx' r))
         else Inr (ParseDone ERR_OK r))"
      using True o by (simp add: next_option_def Let_def off'_def mx'_def)
    show ?thesis
    proof (cases "length bs \<le> k")
      case True
      then show ?thesis using lt step by simp
    next
      case False
      then have "off' < mx'" using lt by simp
      then have "0 < unat mx'" by (simp add: word_less_nat_alt)
      then have ne: "mx' \<noteq> 0" "rest \<noteq> []" using m' by auto
      then obtain n rest' where rest: "rest = n # rest'" by (cases rest) auto
      have "unat off' < length n"
      proof (cases "rest' = []")
        case True
        then show ?thesis using False lt o' m' rest by (simp add: word_less_nat_alt)
      next
        case False
        then have "257 \<le> length n" using wide_chain_next a(2) rest by blast
        then show ?thesis using o' a(1) assms(3) by simp
      qed
      moreover have "drop k bs = drop (unat off') (concat rest)"
        unfolding a(5) o' drop_drop using \<open>length q \<le> unat off + k\<close> by (simp add: add.commute)
      ultimately have "at_flat rest off' mx' (drop k bs)"
        using rest m' a wide_chain_tl [OF a(2)] by (auto simp: at_flat_def)
      then show ?thesis using False lt ne step by auto
    qed
  qed
qed

lemma at_flat_hd: "at_flat (q # rest) off mx bs \<Longrightarrow> bs \<noteq> [] \<and> hd bs = q ! unat off \<and> off < mx"
  by (auto simp: at_flat_def hd_drop_conv_nth nth_append word_less_nat_alt)

lemma read_opts_unfold:
  "read_opts [] r = (ERR_OK, r)"
  "bs \<noteq> [] \<Longrightarrow> hd bs = 255 \<Longrightarrow> read_opts bs r = (ERR_OK, r)"
  "bs \<noteq> [] \<Longrightarrow> hd bs = 0 \<Longrightarrow> read_opts bs r = read_opts (tl bs) r"
  by (subst read_opts.simps, simp add: dhcp_opts)+

lemma read_value_0 [simp]: "read_value 0 idx bs v r = (ERR_OK, r)"
  by (subst read_value.simps) simp

lemma option_body_flat:
  assumes a: "at_flat (q # rest) off mx bs" and op: "hd bs \<noteq> 255"
  shows "(\<exists>err r'. option_body q rest off mx r = Inr (ParseDone err r') \<and> read_opts bs r = (err, r')) \<or>
    (\<exists>qs' off' mx' r' bs'. option_body q rest off mx r = Inr (ParseNext qs' off' mx' r') \<and>
       at_flat qs' off' mx' bs' \<and> length bs' < length bs \<and> read_opts bs r = read_opts bs' r')"
proof -
  have h: "bs \<noteq> []" "hd bs = q ! unat off" using at_flat_hd [OF a] by blast+
  have w: "unat off < length q" "wide_chain (q # rest)" "bs = drop (unat off) (concat (q # rest))"
    "unat mx \<le> 65000" "unat mx = length (concat (q # rest))"
    using a by (simp_all add: at_flat_def)
  have len: "option_len_byte q rest off = Inr (second_byte bs)"
    using option_len_byte_flat [OF w(1,2)] w(3) by simp
  have go: "(\<exists>err r''. next_option q rest (off + of_nat k) mx r' = Inr (ParseDone err r'') \<and>
        read_opts (drop k bs) r' = (err, r'')) \<or>
      (\<exists>qs' off' mx' r'' bs'. next_option q rest (off + of_nat k) mx r' = Inr (ParseNext qs' off' mx' r'') \<and>
         at_flat qs' off' mx' bs' \<and> length bs' < length bs \<and> read_opts (drop k bs) r' = read_opts bs' r'')"
    if "0 < k" "k \<le> 257" for k r'
  proof -
    note step = next_option_flat [OF a that, of r'] and k = that
    show ?thesis
    proof (cases "length bs \<le> k")
      case True
      then show ?thesis using step by (simp add: read_opts_unfold)
    next
      case False
      then have "length (drop k bs) < length bs" using k(1) h(1) by simp
      moreover obtain qs' off' mx' where
        "next_option q rest (off + of_nat k) mx r' = Inr (ParseNext qs' off' mx' r')"
        "at_flat qs' off' mx' (drop k bs)" using step False by auto
      ultimately show ?thesis by blast
    qed
  qed
  show ?thesis
  proof (cases "hd bs = 0")
    case True
    have "option_body q rest off mx r = next_option q rest (off + of_nat 1) mx r"
      using True len h by (simp add: option_body_def dhcp_opts add.commute)
    then show ?thesis using go [of 1 r] True h by (simp add: read_opts_unfold drop_Suc)
  next
    case False
    show ?thesis
    proof (cases "option_plan (hd bs) (second_byte bs)")
      case None
      then show ?thesis
        using False len h op by (subst read_opts.simps) (simp add: option_body_def dhcp_opts)
    next
      case (Some plan)
      obtain n idx where plan: "plan = (n, idx)" by (cases plan)
      define k where "k = unat (second_byte bs) + 2"
      have "unat (second_byte bs) < 2 ^ LENGTH(8)" by (rule unsigned_less)
      then have k: "0 < k" "k \<le> 257" by (simp_all add: k_def)
      have ok: "off + ucast (second_byte bs) + 2 = off + of_nat k"
        by (simp add: k_def add.assoc)
      define rv where "rv = read_value (unat n) idx (drop 2 bs) 0 r"
      have flat: "read_opts bs r = (if fst rv = ERR_OK then read_opts (drop k bs) (snd rv) else rv)"
        using False op h(1) Some plan by (subst read_opts.simps) (simp add: dhcp_opts k_def rv_def)
      have body: "option_body q rest off mx r =
          (if fst rv = ERR_OK then next_option q rest (off + of_nat k) mx (snd rv)
           else Inr (ParseDone (fst rv) (snd rv)))"
      proof (cases "0 < n")
        case True
        note pi = option_plan_idx [OF Some [unfolded plan] True]
        have o2: "unat (off + 2) = unat off + 2" using u16_add_nat [of off 2] w by simp
        have "decode_next (q # rest) (unat n) idx (off + 2) 0 r = Inr rv"
        proof -
          have "decode_next (q # rest) (unat n) idx (off + 2) 0 r =
              Inr (read_value (unat n) idx (drop (unat (off + 2)) (concat (q # rest))) 0 r)"
            by (rule decode_next_read) (use pi True w o2 in \<open>auto simp: word_less_nat_alt\<close>)
          moreover have "drop (unat (off + 2)) (concat (q # rest)) = drop 2 bs"
            unfolding o2 w(3) by (simp only: drop_drop add.commute)
          ultimately show ?thesis by (simp add: rv_def)
        qed
        then show ?thesis
          using False len h Some plan True
          by (cases rv) (simp add: option_body_def dhcp_opts ok)
      next
        case n0: False
        then have "n = 0" using word_neq_0_conv by blast
        then have "rv = (ERR_OK, r)" by (simp add: rv_def)
        then show ?thesis
          using False len h Some plan n0 by (simp add: option_body_def dhcp_opts ok)
      qed
      show ?thesis
        using go [OF k, of "snd rv"] flat body by (cases "fst rv = ERR_OK") auto
    qed
  qed
qed

lemma reply_options_flat:
  "at_flat qs off mx bs \<Longrightarrow> reply_options qs off mx r = Some (Inr (read_opts bs r))"
proof (induction "length bs" arbitrary: qs off mx bs r rule: less_induct)
  case less
  obtain q rest where qs: "qs = q # rest" using less.prems by (cases qs) (auto simp: at_flat_def)
  note a = less.prems [unfolded qs]
  have h: "bs \<noteq> []" "hd bs = q ! unat off" "off < mx" using at_flat_hd [OF a] by blast+
  have inb: "\<not> length q \<le> unat off" using a by (simp add: at_flat_def)
  show ?case
  proof (cases "hd bs = 255")
    case True
    then show ?thesis
      using h inb unfolding qs by (subst reply_options.simps) (simp add: dhcp_opts read_opts_unfold)
  next
    case False
    from option_body_flat [OF a False, of r] show ?thesis
    proof (elim disjE exE conjE)
      fix err r'
      assume "option_body q rest off mx r = Inr (ParseDone err r')" "read_opts bs r = (err, r')"
      then show ?thesis using h inb False unfolding qs by (subst reply_options.simps) (simp add: dhcp_opts)
    next
      fix qs' off' mx' r' bs'
      assume n: "option_body q rest off mx r = Inr (ParseNext qs' off' mx' r')" "at_flat qs' off' mx' bs'"
        "length bs' < length bs" "read_opts bs r = read_opts bs' r'"
      then show ?thesis
        using h inb False less.hyps [OF n(3,2), of r'] unfolding qs
        by (subst reply_options.simps) (simp add: dhcp_opts)
    qed
  qed
qed

section \<open>The whole reply\<close>

lemma find_area_flat:
  assumes "wide_chain p" "length (concat p) \<le> 65000" "unat mx = length (concat p)" "unat idx < length (concat p)"
  shows "\<exists>qs off mx'. find_area p idx mx = (qs, off, mx') \<and> at_flat qs off mx' (drop (unat idx) (concat p))"
  using assms
proof (induction p arbitrary: idx mx)
  case Nil
  then show ?case by simp
next
  case (Cons q p)
  show ?case
  proof (cases "length q \<le> unat idx")
    case True
    have i: "unat (idx - of_nat (length q)) = unat idx - length q" by (rule u16_sub_nat [OF True])
    have m: "unat (mx - of_nat (length q)) = unat mx - length q"
      by (rule u16_sub_nat) (use Cons.prems in simp)
    have "\<exists>qs off mx'. find_area p (idx - of_nat (length q)) (mx - of_nat (length q)) = (qs, off, mx') \<and>
        at_flat qs off mx' (drop (unat (idx - of_nat (length q))) (concat p))"
      by (rule Cons.IH) (use Cons.prems True wide_chain_tl in \<open>auto simp: i m\<close>)
    then show ?thesis using True by (simp add: i)
  next
    case False
    then show ?thesis using Cons.prems by (simp add: at_flat_def)
  qed
qed

lemma find_area_short: "length (concat p) \<le> unat idx \<Longrightarrow> fst (find_area p idx mx) = []"
proof (induction p arbitrary: idx mx)
  case Nil
  then show ?case by simp
next
  case (Cons q p)
  have "length q \<le> unat idx" using Cons.prems by simp
  moreover from this have "unat (idx - of_nat (length q)) = unat idx - length q" by (rule u16_sub_nat)
  ultimately show ?case using Cons by simp
qed

definition read_reply :: "byte list \<Rightarrow> rx_options \<Rightarrow> int \<times> rx_options" where
  \<comment> \<open>the reference, for replies without the overload option\<close>
  "read_reply bs r =
     (if length bs \<le> 240 then (ERR_BUF, dhcp_clear_all_options r)
      else read_opts (drop 240 bs) (dhcp_clear_all_options r))"

lemma parse_reply_flat:
  assumes "wide_chain p" "length (concat p) \<le> 65000" "44 \<le> length (hd p)"
    and "\<not> dhcp_option_given DHCP_OPTION_IDX_OVERLOAD (snd (read_reply (concat p) r))"
  shows "dhcp_parse_reply p d r =
    Inr (fst (read_reply (concat p) r), d\<lparr>dc_msg_in := Some (hd p)\<rparr>, snd (read_reply (concat p) r))"
proof -
  define mx where "mx = (of_nat (length (concat p)) :: u16)"
  have m: "unat mx = length (concat p)"
    using assms(2) by (simp add: mx_def unsigned_of_nat take_bit_nat_eq_self del: length_concat)
  let ?r = "dhcp_clear_all_options r"
  have "reply_areas p False False 240 mx ?r = Some (Inr (read_reply (concat p) r))"
  proof (cases "length (concat p) \<le> 240")
    case True
    then have "length (concat p) \<le> unat (240 :: u16)" by simp
    from find_area_short [OF this, of mx] True show ?thesis
      by (subst reply_areas.simps) (auto simp: read_reply_def split: prod.split)
  next
    case False
    then have "unat (240 :: u16) < length (concat p)" by simp
    from find_area_flat [OF assms(1,2) m this] obtain qs off mx' where
      f: "find_area p 240 mx = (qs, off, mx')" "at_flat qs off mx' (drop 240 (concat p))" by auto
    have ro: "reply_options qs off mx' ?r = Some (Inr (read_reply (concat p) r))"
      using reply_options_flat [OF f(2)] False by (simp add: read_reply_def del: length_concat)
    have "qs \<noteq> []" using f(2) by (simp add: at_flat_def)
    then show ?thesis
      using f(1) ro assms(4)
      by (subst reply_areas.simps) (auto simp: overload_fields_def split: prod.split)
  qed
  then show ?thesis
    using assms(3) by (cases "read_reply (concat p) r") (simp add: dhcp_parse_reply_def dhcp_sizes mx_def Let_def)
qed

end
