(* ===== verification/Dhcp_Client_Steps.thy ===== *)
theory Dhcp_Client_Steps
  imports Dhcp_Client_Sends Dhcp_Client_Reads
begin

text \<open>
  The operations of the DHCP client as steps on its state. Every request does the same: it sends at
  most one message, counts a try and starts the request timer, and leaves everything else alone. On
  this rest the invariant: no message is left over, the UDP block lives exactly as long as a client
  holds it, and whoever waits for an answer has a running timer.
\<close>

section \<open>Frames\<close>

definition calm :: "dhcpc \<Rightarrow> dhcpc \<Rightarrow> bool" where
  \<comment> \<open>only the identifier, the count of questions and the calls differ\<close>
  "calm s s' \<longleftrightarrow> (\<exists>x a out. s' = s\<lparr>c_xid := x, c_asked := a, c_out := out\<rparr>)"

lemma calm_fields:
  "calm s s' \<Longrightarrow> c_net s' = c_net s \<and> c_dhcp s' = c_dhcp s \<and> c_pcb s' = c_pcb s \<and>
     c_refcount s' = c_refcount s \<and> c_rx s' = c_rx s"
  by (auto simp: calm_def)

lemma calm_refl [simp]: "calm s s"
  unfolding calm_def by (rule exI [of _ "c_xid s"], rule exI [of _ "c_asked s"], rule exI [of _ "c_out s"]) simp

lemma calm_asked [simp]: "calm s (asked s)"
  unfolding calm_def asked_def
  by (rule exI [of _ "c_xid s"], rule exI [of _ "c_asked s + 1"], rule exI [of _ "c_out s"]) simp

lemma calm_call [simp]: "calm s s' \<Longrightarrow> calm s (client_call c s')"
  by (fastforce simp: calm_def client_call_def)

definition retried :: "dhcp \<Rightarrow> dhcp \<Rightarrow> bool" where
  \<comment> \<open>after a request: a running timer, and otherwise only the bookkeeping of messages\<close>
  "retried d d' \<longleftrightarrow> (\<exists>x l n t. t \<noteq> 0 \<and>
     d' = d\<lparr>dc_xid := x, dc_options_out_len := l, dc_tries := n, dc_request_timeout := t\<rparr>)"

lemma retried_fields:
  assumes "retried d d'"
  shows "dc_state d' = dc_state d" "dc_msg_in d' = dc_msg_in d" "dc_msg_out d' = dc_msg_out d"
    "dc_pcb_allocated d' = dc_pcb_allocated d" "dc_cb d' = dc_cb d" "dc_request_timeout d' \<noteq> 0"
    "dc_t0_timeout d' = dc_t0_timeout d" "dc_lease_used d' = dc_lease_used d"
    "dc_offered_ip d' = dc_offered_ip d" "dc_server_ip d' = dc_server_ip d"
    "dc_t1_timeout d' = dc_t1_timeout d" "dc_t2_timeout d' = dc_t2_timeout d"
  using assms by (auto simp: retried_def)

section \<open>Timeouts of requests\<close>

lemma u16_small: "n < 65536 \<Longrightarrow> unat (of_nat n :: u16) = n"
  by (simp add: unsigned_of_nat take_bit_nat_eq_self)

lemma request_ticks:
  assumes "unat w = m" "0 < m"
  shows "dc_request_timeout (set_request_timeout w d) = of_nat ((m + 499) div 500)"
    "dc_request_timeout (set_request_timeout w d) \<noteq> 0"
proof -
  have "unat w < 2 ^ LENGTH(16)" by (rule unsigned_less)
  then have m: "m < 65536" using assms(1) by simp
  show t: "dc_request_timeout (set_request_timeout w d) = of_nat ((m + 499) div 500)"
    by (simp add: set_request_timeout_def assms(1) add.commute)
  have "(m + 499) div 500 < 65536" "0 < (m + 499) div 500" using m assms(2) by linarith+
  then have "unat (of_nat ((m + 499) div 500) :: u16) \<noteq> 0"
    by (simp add: unsigned_of_nat take_bit_nat_eq_self)
  then show "dc_request_timeout (set_request_timeout w d) \<noteq> 0" unfolding t by (metis unat_0)
qed

lemma count_try_pos: "0 < dc_tries (count_try d)"
proof -
  have "0 < dc_tries d + 1" if "dc_tries d < 255"
  proof -
    have "unat (dc_tries d) < 255" using that by (simp add: word_less_nat_alt)
    then have "unat (dc_tries d + 1) = unat (dc_tries d) + 1" by (simp add: unat_word_ariths)
    then show ?thesis by (simp add: word_less_nat_alt)
  qed
  moreover have "\<not> dc_tries d < 255 \<Longrightarrow> 0 < dc_tries d" by (auto simp: word_less_nat_alt)
  ultimately show ?thesis by (simp add: count_try_def)
qed

lemma backoff_unat:
  assumes "0 < t" "u \<in> {250, 1000}"
  shows "unat (backoff u t) = (if t < 6 then 2 ^ unat t else 60) * u" "0 < unat (backoff u t)"
proof -
  have "(if t < 6 then 2 ^ unat t else 60) \<le> (60 :: nat)"
  proof (cases "t < 6")
    case True
    then have "unat t \<le> 5" by (simp add: word_less_nat_alt)
    then have "(2::nat) ^ unat t \<le> 2 ^ 5" by (intro power_increasing) simp_all
    with True show ?thesis by simp
  qed simp
  then have "(if t < 6 then 2 ^ unat t else 60) * u \<le> 60 * 1000" using assms(2) by (intro mult_le_mono) auto
  then show e: "unat (backoff u t) = (if t < 6 then 2 ^ unat t else 60) * u"
    unfolding backoff_def by (intro u16_small) simp
  show "0 < unat (backoff u t)" unfolding e using assms(2) by auto
qed

lemma linear_backoff_unat:
  assumes "0 < t" "u \<in> {1000, 2000}"
  shows "unat (linear_backoff u t) = (if t < 10 then unat t else 10) * u" "0 < unat (linear_backoff u t)"
proof -
  have "(if t < 10 then unat t else 10) \<le> (10 :: nat)" by (auto simp: word_less_nat_alt)
  then have "(if t < 10 then unat t else 10) * u \<le> 10 * 2000" using assms(2) by (intro mult_le_mono) auto
  then show e: "unat (linear_backoff u t) = (if t < 10 then unat t else 10) * u"
    unfolding linear_backoff_def by (intro u16_small) simp
  have "0 < unat t" using assms(1) by (simp add: word_less_nat_alt)
  then show "0 < unat (linear_backoff u t)" unfolding e using assms(2) by auto
qed

section \<open>Requests\<close>

definition may_send :: "dhcpc \<Rightarrow> nptr \<Rightarrow> bool" where
  "may_send s p \<longleftrightarrow> nf_dhcp (c_netif s p) \<and> dc_msg_out (c_dhcp s p) = None \<and> c_pcb s \<and>
     length (nf_hostname (c_netif s p)) \<le> 32"

lemma take_xid_calm:
  "take_xid e t d s = (d1, s1) \<Longrightarrow> calm s s1 \<and> (\<exists>x. d1 = d\<lparr>dc_xid := x\<rparr>)"
proof -
  assume t: "take_xid e t d s = (d1, s1)"
  have "d = d\<lparr>dc_xid := dc_xid d\<rparr>" by simp
  then have k: "\<exists>x. d = d\<lparr>dc_xid := x\<rparr>" by blast
  have c: "calm s (asked (s\<lparr>c_xid := x\<rparr>))" for x
    unfolding calm_def asked_def
    by (rule exI [of _ x], rule exI [of _ "c_asked s + 1"], rule exI [of _ "c_out s"]) simp
  show ?thesis using t k c by (auto simp: take_xid_def Let_def split: if_splits)
qed

lemma calm_trans: "calm a b \<Longrightarrow> calm b c \<Longrightarrow> calm a c"
  unfolding calm_def
proof (elim exE)
  fix x y m n o1 o2
  assume "b = a\<lparr>c_xid := x, c_asked := m, c_out := o1\<rparr>" "c = b\<lparr>c_xid := y, c_asked := n, c_out := o2\<rparr>"
  then have "c = a\<lparr>c_xid := y, c_asked := n, c_out := o2\<rparr>" by simp
  then show "\<exists>x a' out. c = a\<lparr>c_xid := x, c_asked := a', c_out := out\<rparr>" by blast
qed

lemma dhcp_message_calm:
  assumes ap: "appends opts room bs" "room \<le> 65" "length bs \<le> 64"
    and "dc_msg_out d = None" "c_pcb s"
  shows "\<exists>err x l s1. dhcp_message e p t opts call d s = Inr (err, d\<lparr>dc_xid := x, dc_options_out_len := l\<rparr>, s1) \<and>
    calm s s1 \<and> (err = ERR_OK \<longleftrightarrow> ce_pbuf e (c_asked s)) \<and> err \<in> {ERR_OK, ERR_MEM}"
proof (cases "ce_pbuf e (c_asked s)")
  case True
  obtain d1 s1 where t: "take_xid e t d (asked s) = (d1, s1)" by (cases "take_xid e t d (asked s)")
  obtain x where x: "calm (asked s) s1" "d1 = d\<lparr>dc_xid := x\<rparr>" using take_xid_calm [OF t] by blast
  have c: "calm s s1" using calm_trans [OF calm_asked x(1)] .
  have "d1\<lparr>dc_msg_out := None, dc_options_out_len := 68\<rparr> = d\<lparr>dc_xid := x, dc_options_out_len := 68\<rparr>"
    using assms(4) by (simp add: x(2))
  then show ?thesis
    using dhcp_message_sends [OF assms, of e p t call] True t calm_call [OF c] by (auto simp: x(2))
next
  case False
  have same: "d\<lparr>dc_xid := dc_xid d, dc_options_out_len := dc_options_out_len d\<rparr> = d" by simp
  show ?thesis
    by (rule exI [of _ ERR_MEM], rule exI [of _ "dc_xid d"], rule exI [of _ "dc_options_out_len d"],
      rule exI [of _ "asked s"]) (use dhcp_message_sends [OF assms, of e p t call] False same in
        \<open>simp add: dhcp_errors\<close>)
qed

lemma request_result:
  assumes "appends opts room bs" "room \<le> 65" "length bs \<le> 64" "dc_msg_out d = None" "c_pcb s"
    and ms: "\<And>t. 0 < t \<Longrightarrow> 0 < unat (ms t)"
  shows "\<exists>err d' s1. bindE (dhcp_message e p t opts call d s) (after_try p ms) = Inr (err, set_dhcp p d' s1) \<and>
    retried d d' \<and> calm s s1 \<and> (err = ERR_OK \<longleftrightarrow> ce_pbuf e (c_asked s)) \<and> err \<in> {ERR_OK, ERR_MEM}"
proof -
  obtain err x l s1 where m: "dhcp_message e p t opts call d s = Inr (err, d\<lparr>dc_xid := x, dc_options_out_len := l\<rparr>, s1)"
    "calm s s1" "err = ERR_OK \<longleftrightarrow> ce_pbuf e (c_asked s)" "err \<in> {ERR_OK, ERR_MEM}"
    using dhcp_message_calm [OF assms(1-5)] by blast
  let ?d = "count_try (d\<lparr>dc_xid := x, dc_options_out_len := l\<rparr>)"
  let ?w = "ms (dc_tries ?d)"
  have nz: "dc_request_timeout (set_request_timeout ?w ?d) \<noteq> 0"
    by (rule request_ticks(2) [OF refl]) (rule ms [OF count_try_pos])
  have "set_request_timeout ?w ?d = d\<lparr>dc_xid := x, dc_options_out_len := l, dc_tries := dc_tries ?d,
      dc_request_timeout := dc_request_timeout (set_request_timeout ?w ?d)\<rparr>"
    by (simp add: count_try_def set_request_timeout_def)
  then have "retried d (set_request_timeout ?w ?d)" using nz unfolding retried_def by blast
  then show ?thesis using m by (auto simp: after_try_def Let_def)
qed

lemma may_send_options:
  assumes "may_send s p"
  shows "appends (discover_options m (nf_hostname (c_netif s p))) 60 (discover_bytes m (nf_hostname (c_netif s p)))"
    "appends (select_options m (nf_hostname (c_netif s p)) a b) 65 (select_bytes m (nf_hostname (c_netif s p)) a b)"
    "appends (renew_options m (nf_hostname (c_netif s p))) 39 (renew_bytes m (nf_hostname (c_netif s p)))"
  using assms discover_appends select_appends renew_appends by (simp_all add: may_send_def)

lemma set_state_fields [simp]:
  "dc_state (dhcp_set_state st d) = st" "dc_msg_out (dhcp_set_state st d) = dc_msg_out d"
  "dc_msg_in (dhcp_set_state st d) = dc_msg_in d" "dc_pcb_allocated (dhcp_set_state st d) = dc_pcb_allocated d"
  "dc_cb (dhcp_set_state st d) = dc_cb d" "dc_t0_timeout (dhcp_set_state st d) = dc_t0_timeout d"
  "dc_lease_used (dhcp_set_state st d) = dc_lease_used d"
  "dc_offered_ip (dhcp_set_state st d) = dc_offered_ip d" "dc_server_ip (dhcp_set_state st d) = dc_server_ip d"
  by (simp_all add: dhcp_set_state_def)

definition request_to :: "nptr \<Rightarrow> dhcp \<Rightarrow> dhcpc \<Rightarrow> (int \<times> dhcpc) result \<Rightarrow> bool \<Rightarrow> bool" where
  \<comment> \<open>the outcome of a request made with this structure, with or without memory\<close>
  "request_to p d s res mem \<longleftrightarrow> (\<exists>err d' s1. res = Inr (err, set_dhcp p d' s1) \<and> retried d d' \<and> calm s s1 \<and>
     (err = ERR_OK \<longleftrightarrow> mem) \<and> err \<in> {ERR_OK, ERR_MEM})"

lemma requests:
  assumes "may_send s p"
  defines "d \<equiv> c_dhcp s p"
  shows "request_to p (dhcp_set_state DHCP_STATE_SELECTING (d\<lparr>dc_offered_ip := 0\<rparr>)) s (dhcp_discover e p s) (ce_pbuf e (c_asked s))"
    "request_to p (dhcp_set_state DHCP_STATE_REQUESTING d) s (dhcp_select e p s) (ce_pbuf e (c_asked s))"
    "request_to p (dhcp_set_state DHCP_STATE_RENEWING d) s (dhcp_renew e p s) (ce_pbuf e (c_asked s))"
    "request_to p (dhcp_set_state DHCP_STATE_REBINDING d) s (dhcp_rebind e p s) (ce_pbuf e (c_asked s))"
    "request_to p (dhcp_set_state DHCP_STATE_REBOOTING d) s (dhcp_reboot e p s) (ce_pbuf e (c_asked s))"
proof -
  have s: "nf_dhcp (c_netif s p)" "dc_msg_out (c_dhcp s p) = None" "c_pcb s" "length (nf_hostname (c_netif s p)) \<le> 32"
    using assms(1) by (simp_all add: may_send_def)
  note o = may_send_options [OF assms(1)]
  have b: "0 < t \<Longrightarrow> 0 < unat (backoff 250 t)" "0 < t \<Longrightarrow> 0 < unat (backoff 1000 t)"
    "0 < t \<Longrightarrow> 0 < unat (linear_backoff 1000 t)" "0 < t \<Longrightarrow> 0 < unat (linear_backoff 2000 t)" for t
    using backoff_unat(2) linear_backoff_unat(2) by simp_all
  note l = dhcp_message_bytes [OF s(4)]
  show "request_to p (dhcp_set_state DHCP_STATE_SELECTING (d\<lparr>dc_offered_ip := 0\<rparr>)) s (dhcp_discover e p s) (ce_pbuf e (c_asked s))"
    unfolding request_to_def dhcp_discover_def with_dhcp_def if_P [OF s(1)] d_def
    by (rule request_result [OF o(1) _ l(1) _ s(3) b(1)]) (simp_all add: s)
  show "request_to p (dhcp_set_state DHCP_STATE_REQUESTING d) s (dhcp_select e p s) (ce_pbuf e (c_asked s))"
    unfolding request_to_def dhcp_select_def with_dhcp_def if_P [OF s(1)] d_def
    by (rule request_result [OF o(2) _ l(2) _ s(3) b(2)]) (simp_all add: s)
  show "request_to p (dhcp_set_state DHCP_STATE_RENEWING d) s (dhcp_renew e p s) (ce_pbuf e (c_asked s))"
    unfolding request_to_def dhcp_renew_def with_dhcp_def if_P [OF s(1)] d_def
    by (rule request_result [OF o(3) _ l(3) _ s(3) b(4)]) (simp_all add: s)
  show "request_to p (dhcp_set_state DHCP_STATE_REBINDING d) s (dhcp_rebind e p s) (ce_pbuf e (c_asked s))"
    unfolding request_to_def dhcp_rebind_def with_dhcp_def if_P [OF s(1)] d_def
    by (rule request_result [OF o(3) _ l(3) _ s(3) b(3)]) (simp_all add: s)
  show "request_to p (dhcp_set_state DHCP_STATE_REBOOTING d) s (dhcp_reboot e p s) (ce_pbuf e (c_asked s))"
    unfolding request_to_def dhcp_reboot_def with_dhcp_def if_P [OF s(1)] d_def
    by (rule request_result [OF reboot_appends _ l(4) _ s(3) b(3)]) (simp_all add: s)
qed

end
