(* ===== verification/Netif_Props.thy ===== *)
theory Netif_Props
  imports Netif
begin

text \<open>
  The list of interfaces as a list: while no interface is linked twice the pointers lead once through
  distinct interfaces, adding and removing are what they are on lists, and every loop along the
  pointers ends. An interface that is added while it is linked closes a circle.
\<close>

named_theorems nif_simps \<open>what the interface operations do to the fields of the state\<close>

section \<open>What each operation leaves alone\<close>

lemma upd_nif_simps [simp]:
  "n_store (upd_nif p f s) = (n_store s)(p := f (n_store s p))"
  "n_list (upd_nif p f s) = n_list s" "n_default (upd_nif p f s) = n_default s"
  "n_num (upd_nif p f s) = n_num s" "n_log (upd_nif p f s) = n_log s"
  by (simp_all add: upd_nif_def)

lemma net_call_simps [simp]:
  "n_store (net_call cs s) = n_store s" "n_list (net_call cs s) = n_list s"
  "n_default (net_call cs s) = n_default s" "n_num (net_call cs s) = n_num s"
  "n_log (net_call cs s) = n_log s @ cs"
  by (simp_all add: net_call_def)

lemma netif_issue_reports_simps [simp]:
  "n_store (netif_issue_reports p t s) = n_store s" "n_list (netif_issue_reports p t s) = n_list s"
  "n_default (netif_issue_reports p t s) = n_default s" "n_num (netif_issue_reports p t s) = n_num s"
  by (simp_all add: netif_issue_reports_def Let_def)

definition same_links :: "nstate \<Rightarrow> nstate \<Rightarrow> bool" where
  "same_links s s' \<longleftrightarrow> n_list s' = n_list s \<and> (\<forall>q. nf_next (n_store s' q) = nf_next (n_store s q))"

lemma same_links_refl [simp]: "same_links s s"
  by (simp add: same_links_def)

lemma same_links_trans: "same_links s s' \<Longrightarrow> same_links s' s'' \<Longrightarrow> same_links s s''"
  by (simp add: same_links_def)

lemma flag_after_set [simp]:
  "flag_set f (n\<lparr>nf_ip := a\<rparr>) = flag_set f n" "flag_set f (n\<lparr>nf_last_ip := a\<rparr>) = flag_set f n"
  "flag_set f (n\<lparr>nf_gw := a\<rparr>) = flag_set f n" "flag_set f (n\<lparr>nf_netmask := a\<rparr>) = flag_set f n"
  "flag_set f (n\<lparr>nf_dhcp := b\<rparr>) = flag_set f n" "flag_set f (n\<lparr>nf_dhcps_pcb := b\<rparr>) = flag_set f n"
  "flag_set f (n\<lparr>nf_hostname := h\<rparr>) = flag_set f n" "flag_set f (n\<lparr>nf_next := x\<rparr>) = flag_set f n"
  "flag_set f (n\<lparr>nf_hwaddr := m\<rparr>) = flag_set f n"
  by (simp_all add: flag_set_def)

lemma netif_set_addr_fields [nif_simps]:
  "n_list (netif_set_addr p a m g s) = n_list s"
  "n_default (netif_set_addr p a m g s) = n_default s"
  "n_num (netif_set_addr p a m g s) = n_num s"
  "nf_next (n_store (netif_set_addr p a m g s) q) = nf_next (n_store s q)"
  "nf_flags (n_store (netif_set_addr p a m g s) q) = nf_flags (n_store s q)"
  "nf_dhcps_pcb (n_store (netif_set_addr p a m g s) q) = nf_dhcps_pcb (n_store s q)"
  "nf_dhcp (n_store (netif_set_addr p a m g s) q) = nf_dhcp (n_store s q)"
  "nf_hostname (n_store (netif_set_addr p a m g s) q) = nf_hostname (n_store s q)"
  "q \<noteq> p \<Longrightarrow> n_store (netif_set_addr p a m g s) q = n_store s q"
  by (auto simp: netif_set_addr_def netif_set_ipaddr_def netif_set_gw_def netif_set_netmask_def Let_def
      split: option.splits)

lemma netif_set_addr_addr [nif_simps]:
  "nf_ip (n_store (netif_set_addr p (Some a) (Some m) (Some g) s) p) = a"
  "nf_netmask (n_store (netif_set_addr p (Some a) (Some m) (Some g) s) p) = m"
  "nf_gw (n_store (netif_set_addr p (Some a) (Some m) (Some g) s) p) = g"
  by (auto simp: netif_set_addr_def netif_set_ipaddr_def netif_set_gw_def netif_set_netmask_def Let_def)

lemma flag_set_set [simp]:
  "flag_set NETIF_FLAG_UP (set_flag NETIF_FLAG_UP n)"
  "\<not> flag_set NETIF_FLAG_UP (clear_flag NETIF_FLAG_UP n)"
  "flag_set NETIF_FLAG_IGMP (clear_flag NETIF_FLAG_UP n) = flag_set NETIF_FLAG_IGMP n"
  "flag_set NETIF_FLAG_ETHARP (clear_flag NETIF_FLAG_UP n) = flag_set NETIF_FLAG_ETHARP n"
proof -
  have b: "bit (1 :: u8) k \<longleftrightarrow> k = 0" for k by (simp add: bit_1_iff)
  have "bit (nf_flags (set_flag NETIF_FLAG_UP n) AND 1) 0"
    by (simp only: set_flag_def netif.simps netif_flags bit_and_iff bit_or_iff b netif.update_convs
        netif.select_convs) (simp add: bit_or_iff b del: bit_0)
  then have "nf_flags (set_flag NETIF_FLAG_UP n) AND 1 \<noteq> 0" by (metis bit_0_eq bot_apply bot_bool_def)
  then show "flag_set NETIF_FLAG_UP (set_flag NETIF_FLAG_UP n)" by (simp add: flag_set_def NETIF_FLAG_UP_def)
  have "(nf_flags n AND NOT 1) AND 1 = (0 :: u8)"
    by (rule bit_eqI) (simp only: bit_and_iff bit_not_iff b bit_0_eq bot_apply, auto)
  then show "\<not> flag_set NETIF_FLAG_UP (clear_flag NETIF_FLAG_UP n)"
    by (simp add: flag_set_def clear_flag_def NETIF_FLAG_UP_def)
  have "(x AND NOT 1) AND 32 = x AND (32 :: u8)" "(x AND NOT 1) AND 8 = x AND (8 :: u8)" for x
    by (simp_all add: and.assoc)
  then show "flag_set NETIF_FLAG_IGMP (clear_flag NETIF_FLAG_UP n) = flag_set NETIF_FLAG_IGMP n"
    "flag_set NETIF_FLAG_ETHARP (clear_flag NETIF_FLAG_UP n) = flag_set NETIF_FLAG_ETHARP n"
    by (simp_all add: flag_set_def clear_flag_def netif_flags)
qed

lemma flag_fields [simp]:
  "nf_next (set_flag f n) = nf_next n" "nf_ip (set_flag f n) = nf_ip n"
  "nf_netmask (set_flag f n) = nf_netmask n" "nf_gw (set_flag f n) = nf_gw n"
  "nf_dhcps_pcb (set_flag f n) = nf_dhcps_pcb n" "nf_dhcp (set_flag f n) = nf_dhcp n"
  "nf_next (clear_flag f n) = nf_next n" "nf_ip (clear_flag f n) = nf_ip n"
  "nf_netmask (clear_flag f n) = nf_netmask n" "nf_gw (clear_flag f n) = nf_gw n"
  "nf_dhcps_pcb (clear_flag f n) = nf_dhcps_pcb n" "nf_dhcp (clear_flag f n) = nf_dhcp n"
  by (simp_all add: set_flag_def clear_flag_def)

lemma netif_set_up_fields [nif_simps]:
  "n_list (netif_set_up p s) = n_list s" "n_default (netif_set_up p s) = n_default s"
  "nf_next (n_store (netif_set_up p s) q) = nf_next (n_store s q)"
  "nf_ip (n_store (netif_set_up p s) q) = nf_ip (n_store s q)"
  "nf_netmask (n_store (netif_set_up p s) q) = nf_netmask (n_store s q)"
  "nf_gw (n_store (netif_set_up p s) q) = nf_gw (n_store s q)"
  "nf_dhcps_pcb (n_store (netif_set_up p s) q) = nf_dhcps_pcb (n_store s q)"
  "q \<noteq> p \<Longrightarrow> n_store (netif_set_up p s) q = n_store s q"
  "flag_set NETIF_FLAG_UP (n_store (netif_set_up p s) p)"
  by (auto simp: netif_set_up_def Let_def)

lemma netif_set_down_fields [nif_simps]:
  "n_list (netif_set_down p s) = n_list s" "n_default (netif_set_down p s) = n_default s"
  "nf_next (n_store (netif_set_down p s) q) = nf_next (n_store s q)"
  "nf_ip (n_store (netif_set_down p s) q) = nf_ip (n_store s q)"
  "nf_netmask (n_store (netif_set_down p s) q) = nf_netmask (n_store s q)"
  "nf_gw (n_store (netif_set_down p s) q) = nf_gw (n_store s q)"
  "nf_dhcps_pcb (n_store (netif_set_down p s) q) = nf_dhcps_pcb (n_store s q)"
  "q \<noteq> p \<Longrightarrow> n_store (netif_set_down p s) q = n_store s q"
  "\<not> flag_set NETIF_FLAG_UP (n_store (netif_set_down p s) p)"
  by (auto simp: netif_set_down_def Let_def)

lemma netif_set_default_fields [nif_simps]:
  "n_list (netif_set_default d s) = n_list s" "n_default (netif_set_default d s) = d"
  "n_store (netif_set_default d s) = n_store s"
  by (simp_all add: netif_set_default_def)

section \<open>Chains of pointers\<close>

fun chain :: "(nptr \<Rightarrow> netif) \<Rightarrow> nptr option \<Rightarrow> nptr list \<Rightarrow> bool" where
  "chain st cur [] \<longleftrightarrow> cur = None"
| "chain st cur (p # ps) \<longleftrightarrow> cur = Some p \<and> chain st (nf_next (st p)) ps"

definition list_ok :: "nstate \<Rightarrow> nptr list \<Rightarrow> bool" where
  "list_ok s ps \<longleftrightarrow> chain (n_store s) (n_list s) ps \<and> distinct ps"

lemma chain_cong:
  "(\<And>q. q \<in> set ps \<Longrightarrow> nf_next (st' q) = nf_next (st q)) \<Longrightarrow> chain st' c ps = chain st c ps"
  by (induction ps arbitrary: c) auto

lemma chain_fun: "chain st c ps \<Longrightarrow> chain st c qs \<Longrightarrow> ps = qs"
proof (induction ps arbitrary: c qs)
  case Nil
  then show ?case by (cases qs) auto
next
  case (Cons p ps)
  then show ?case by (cases qs) auto
qed

lemma list_ok_links: "same_links s s' \<Longrightarrow> list_ok s' ps = list_ok s ps"
  using chain_cong [of ps "n_store s'" "n_store s"] by (simp add: list_ok_def same_links_def)

lemma find_prev_hit:
  "chain st c (as @ q # p # bs) \<Longrightarrow> distinct (as @ q # p # bs) \<Longrightarrow> find_prev st p c = Some (Some q)"
proof (induction as arbitrary: c)
  case Nil
  then show ?case by (subst find_prev.simps) simp
next
  case (Cons a as)
  have "nf_next (st a) \<noteq> Some p"
  proof (cases as)
    case Nil
    with Cons.prems show ?thesis by auto
  next
    case (Cons b bs')
    with Cons.prems show ?thesis by auto
  qed
  moreover have "c = Some a" "find_prev st p (nf_next (st a)) = Some (Some q)"
    using Cons.prems Cons.IH [of "nf_next (st a)"] by simp_all
  ultimately show ?case by (subst find_prev.simps) simp
qed

lemma find_prev_miss: "chain st c ps \<Longrightarrow> p \<notin> set (tl ps) \<Longrightarrow> find_prev st p c = Some None"
proof (induction ps arbitrary: c)
  case Nil
  then show ?case by (subst find_prev.simps) simp
next
  case (Cons a ps)
  then have "nf_next (st a) \<noteq> Some p" "p \<notin> set (tl ps)" by (cases ps; simp)+
  moreover from this Cons have "c = Some a" "find_prev st p (nf_next (st a)) = Some None" by simp_all
  ultimately show ?case by (subst find_prev.simps) simp
qed

lemma chain_relink:
  "chain st c (as @ q # p # bs) \<Longrightarrow> distinct (as @ q # p # bs) \<Longrightarrow>
   chain (st(q := (st q)\<lparr>nf_next := nf_next (st p)\<rparr>)) c (as @ q # bs)"
proof (induction as arbitrary: c)
  case Nil
  let ?st = "st(q := (st q)\<lparr>nf_next := nf_next (st p)\<rparr>)"
  have "chain ?st (nf_next (st p)) bs = chain st (nf_next (st p)) bs"
    by (rule chain_cong) (use Nil.prems(2) in auto)
  with Nil.prems show ?case by (simp add: fun_upd_def)
next
  case (Cons a as)
  then show ?case by auto
qed

lemma netif_unlink_remove1:
  assumes "list_ok s ps"
  shows "\<exists>s'. netif_unlink p s = Inr s' \<and> list_ok s' (remove1 p ps) \<and> n_default s' = n_default s \<and>
    (\<forall>q. \<exists>x. n_store s' q = (n_store s q)\<lparr>nf_next := x\<rparr>)"
proof (cases "n_list s = Some p")
  case True
  with assms obtain qs where ps: "ps = p # qs" by (cases ps) (auto simp: list_ok_def)
  have "\<exists>x. n = n\<lparr>nf_next := x\<rparr>" for n :: netif by (rule exI [of _ "nf_next n"]) simp
  with True assms show ?thesis by (auto simp: netif_unlink_def list_ok_def ps)
next
  case False
  have self: "\<exists>x. n = n\<lparr>nf_next := x\<rparr>" for n :: netif by (rule exI [of _ "nf_next n"]) simp
  show ?thesis
  proof (cases "p \<in> set (tl ps)")
    case True
    then obtain xs bs where "tl ps = xs @ p # bs" by (meson split_list)
    then obtain a where ps: "ps = a # xs @ p # bs" by (cases ps) auto
    obtain as q where q: "a # xs = as @ [q]" by (metis append_butlast_last_id list.distinct(1))
    have ps2: "ps = as @ q # p # bs" using ps q by (metis append.assoc append_Cons append_Nil)
    have r: "remove1 p ps = as @ q # bs"
      using assms by (simp add: ps2 list_ok_def remove1_append)
    have "find_prev (n_store s) p (n_list s) = Some (Some q)"
      using assms by (intro find_prev_hit) (auto simp: list_ok_def ps2)
    moreover have "chain ((n_store s)(q := (n_store s q)\<lparr>nf_next := nf_next (n_store s p)\<rparr>)) (n_list s) (as @ q # bs)"
      using assms by (intro chain_relink) (auto simp: list_ok_def ps2)
    ultimately show ?thesis
      using False assms self unfolding r by (auto simp: netif_unlink_def list_ok_def ps2)
  next
    case miss: False
    with False assms have "p \<notin> set ps" by (cases ps) (auto simp: list_ok_def)
    moreover have "find_prev (n_store s) p (n_list s) = Some None"
      using assms miss by (intro find_prev_miss) (auto simp: list_ok_def)
    ultimately show ?thesis
      using False assms self by (auto simp: netif_unlink_def remove1_idem)
  qed
qed

section \<open>Adding, removing, finding\<close>

lemma netif_add_list:
  assumes "list_ok s ps" "p \<notin> set ps" "\<And>n. fst (init n) = ERR_OK"
  shows "\<exists>s'. netif_add p a m g (Some init) s = Inr (True, s') \<and> list_ok s' (p # ps) \<and>
    n_default s' = n_default s \<and> (\<forall>q. q \<noteq> p \<longrightarrow> n_store s' q = n_store s q) \<and>
    (\<exists>n x. n_store s' p = (snd (init n))\<lparr>nf_next := x\<rparr> \<and> nf_ip n = a \<and> nf_netmask n = m \<and> nf_gw n = g \<and>
       nf_flags n = 0 \<and> \<not> nf_dhcps_pcb n \<and> \<not> nf_dhcp n)"
proof -
  define s2 where "s2 = netif_set_addr p (Some a) (Some m) (Some g)
      ((upd_nif p (netif_reset (n_num s)) s)\<lparr>n_num := n_num s + 1\<rparr>)"
  let ?n = "n_store s2 p"
  have f: "nf_ip ?n = a \<and> nf_netmask ?n = m \<and> nf_gw ?n = g \<and> nf_flags ?n = 0 \<and> \<not> nf_dhcps_pcb ?n \<and> \<not> nf_dhcp ?n"
    by (simp add: s2_def nif_simps) (simp add: netif_reset_def)
  have o: "n_list s2 = n_list s" "n_default s2 = n_default s" "q \<noteq> p \<Longrightarrow> n_store s2 q = n_store s q" for q
    by (simp_all add: s2_def nif_simps)
  have c: "chain st (n_list s) ps" if "\<And>q. q \<noteq> p \<Longrightarrow> nf_next (st q) = nf_next (n_store s q)" for st
  proof -
    have "chain st (n_list s) ps = chain (n_store s) (n_list s) ps"
      by (rule chain_cong) (use assms(2) that in metis)
    with assms(1) show ?thesis by (simp add: list_ok_def)
  qed
  obtain n' where i: "init ?n = (ERR_OK, n')" using assms(3) by (cases "init ?n") (metis fst_conv)
  show ?thesis
    using assms(1,2) f o i c
    by (auto simp: netif_add_def Let_def s2_def [symmetric] list_ok_def intro!: exI [of _ ?n])
qed

lemma netif_remove_list:
  assumes "list_ok s ps"
  shows "\<exists>s'. netif_remove (Some p) s = Inr s' \<and> list_ok s' (remove1 p ps) \<and>
    n_default s' = (if n_default s = Some p then None else n_default s) \<and>
    (\<forall>q. flag_set NETIF_FLAG_UP (n_store s' q) = (q \<noteq> p \<and> flag_set NETIF_FLAG_UP (n_store s q))) \<and>
    (\<forall>q. nf_ip (n_store s' q) = nf_ip (n_store s q)) \<and>
    (\<forall>q. nf_netmask (n_store s' q) = nf_netmask (n_store s q)) \<and>
    (\<forall>q. nf_gw (n_store s' q) = nf_gw (n_store s q)) \<and>
    (\<forall>q. nf_dhcps_pcb (n_store s' q) = nf_dhcps_pcb (n_store s q))"
proof -
  define s1 where "s1 = (if nf_ip (n_store s p) \<noteq> 0
     then net_call [TcpAddrChanged (nf_ip (n_store s p)) None] s else s)"
  define s2 where "s2 = (if flag_set NETIF_FLAG_IGMP (n_store s1 p) then net_call [IgmpStop p] s1 else s1)"
  define s4 where "s4 = upd_nif p (\<lambda>n. n\<lparr>nf_dhcp := False\<rparr>) (netif_set_down p s2)"
  define s5 where "s5 = (if n_default s4 = Some p then netif_set_default None s4 else s4)"
  have st2: "n_store s2 = n_store s" "n_list s2 = n_list s" "n_default s2 = n_default s"
    by (simp_all add: s2_def s1_def)
  have sd: "n_store (netif_set_down p s2) q = n_store s q" if "q \<noteq> p" for q
    using that by (simp add: nif_simps st2)
  have l: "same_links s s5"
    by (simp add: same_links_def s5_def s4_def nif_simps st2)
  have d: "n_default s5 = (if n_default s = Some p then None else n_default s)"
    by (simp add: s5_def s4_def nif_simps st2)
  have e: "n_store s5 q = n_store s q" if "q \<noteq> p" for q
    using that by (simp add: s5_def s4_def nif_simps st2)
  have p: "\<not> flag_set NETIF_FLAG_UP (n_store s5 p)" "nf_ip (n_store s5 p) = nf_ip (n_store s p)"
    "nf_netmask (n_store s5 p) = nf_netmask (n_store s p)" "nf_gw (n_store s5 p) = nf_gw (n_store s p)"
    "nf_dhcps_pcb (n_store s5 p) = nf_dhcps_pcb (n_store s p)"
    by (simp_all add: s5_def s4_def nif_simps st2)
  have "netif_remove (Some p) s = netif_unlink p s5"
    by (simp add: netif_remove_def Let_def s1_def s2_def s4_def s5_def)
  moreover obtain s' where s': "netif_unlink p s5 = Inr s'" "list_ok s' (remove1 p ps)"
    "n_default s' = n_default s5" "\<forall>q. \<exists>x. n_store s' q = (n_store s5 q)\<lparr>nf_next := x\<rparr>"
    using netif_unlink_remove1 [of s5 ps p] assms list_ok_links [OF l] by auto
  moreover have "flag_set NETIF_FLAG_UP (n_store s' q) = flag_set NETIF_FLAG_UP (n_store s5 q)"
    "nf_ip (n_store s' q) = nf_ip (n_store s5 q)" "nf_netmask (n_store s' q) = nf_netmask (n_store s5 q)"
    "nf_gw (n_store s' q) = nf_gw (n_store s5 q)"
    "nf_dhcps_pcb (n_store s' q) = nf_dhcps_pcb (n_store s5 q)" for q
    using s'(4) [rule_format, of q] by auto
  moreover have "flag_set NETIF_FLAG_UP (n_store s5 q) = (q \<noteq> p \<and> flag_set NETIF_FLAG_UP (n_store s q))"
    "nf_ip (n_store s5 q) = nf_ip (n_store s q)" "nf_netmask (n_store s5 q) = nf_netmask (n_store s q)"
    "nf_gw (n_store s5 q) = nf_gw (n_store s q)"
    "nf_dhcps_pcb (n_store s5 q) = nf_dhcps_pcb (n_store s q)" for q
    by (cases "q = p"; simp add: e p)+
  ultimately show ?thesis using d by simp
qed

lemma find_loop_chain:
  "chain st c ps \<Longrightarrow> find_loop st matches c = Some (find (\<lambda>q. matches (st q)) ps)"
proof (induction ps arbitrary: c)
  case Nil
  then show ?case by (subst find_loop.simps) simp
next
  case (Cons a ps)
  then show ?case by (subst find_loop.simps) simp
qed

lemma find_loop_circle:
  assumes "q \<in> C" "\<And>q. q \<in> C \<Longrightarrow> \<not> matches (st q) \<and> (\<exists>r \<in> C. nf_next (st q) = Some r)"
  shows "find_loop st matches (Some q) = None"
proof -
  have "st' = st \<longrightarrow> m = matches \<longrightarrow> c \<notin> Some ` C" if "find_loop st' m c = Some y" for st' m c y
  proof (rule find_loop.raw_induct
      [where P = "\<lambda>st' m c y. st' = st \<longrightarrow> m = matches \<longrightarrow> c \<notin> Some ` C", OF _ that], intro impI notI)
    fix f st' m c y
    assume ih: "\<And>st' m c y. f st' m c = Some y \<Longrightarrow> st' = st \<longrightarrow> m = matches \<longrightarrow> c \<notin> Some ` C"
      and eq: "(case c of None \<Rightarrow> Some None | Some q \<Rightarrow> if m (st' q) then Some (Some q) else f st' m (nf_next (st' q))) = Some y"
      and h: "st' = st" "m = matches" "c \<in> Some ` C"
    then obtain q where "q \<in> C" "c = Some q" by blast
    moreover from this assms(2) obtain r where "r \<in> C" "nf_next (st q) = Some r" "\<not> matches (st q)" by blast
    ultimately show False using ih [of st matches "Some r" y] eq h by auto
  qed
  then show ?thesis using assms(1) by (metis imageI not_None_eq)
qed

lemma netif_find_list:
  assumes "list_ok s ps"
  shows "netif_find (Some nm) s =
    (if length nm < 3 then Inl BufferOverflow
     else Inr (find (\<lambda>q. nf_num (n_store s q) = nm ! 2 - 48 \<and> nf_name (n_store s q) = take 2 nm) ps))"
  using assms
  by (auto simp: netif_find_def list_ok_def find_loop_chain name_matches_def cong: find_cong)
     (metis (mono_tags, lifting) find_cong)+

lemma chain_split:
  "chain st c (xs @ p # ys) \<Longrightarrow> q \<in> set xs \<Longrightarrow> \<exists>r \<in> set (xs @ [p]). nf_next (st q) = Some r"
proof (induction xs arbitrary: c)
  case (Cons a xs)
  show ?case
  proof (cases "q = a")
    case True
    with Cons.prems show ?thesis by (cases xs) auto
  next
    case False
    with Cons.prems Cons.IH [of "nf_next (st a)"] show ?thesis by auto
  qed
qed simp

text \<open>
  The list of interfaces. As long as every interface is linked once, adding an interface that is
  not linked puts it in front, removing one takes out exactly that one, brings it down and clears the
  default route if it was the default, and finding by name gives the first interface of that name; all
  three return. A name of fewer than three bytes, terminator included, is read beyond its end.
\<close>

theorem netif_list_operations:
  assumes "list_ok s ps"
  shows "(p \<notin> set ps \<and> (\<forall>n. fst (init n) = ERR_OK) \<longrightarrow>
      (\<exists>s'. netif_add p a m g (Some init) s = Inr (True, s') \<and> list_ok s' (p # ps))) \<and>
    (\<exists>s'. netif_remove (Some p) s = Inr s' \<and> list_ok s' (remove1 p ps) \<and>
      \<not> netif_is_up (Some p) s' \<and> n_default s' = (if n_default s = Some p then None else n_default s)) \<and>
    netif_find (Some nm) s =
      (if length nm < 3 then Inl BufferOverflow
       else Inr (find (\<lambda>q. nf_num (n_store s q) = nm ! 2 - 48 \<and> nf_name (n_store s q) = take 2 nm) ps))"
proof -
  obtain s' where "netif_remove (Some p) s = Inr s'" "list_ok s' (remove1 p ps)"
    "n_default s' = (if n_default s = Some p then None else n_default s)"
    "\<forall>q. flag_set NETIF_FLAG_UP (n_store s' q) = (q \<noteq> p \<and> flag_set NETIF_FLAG_UP (n_store s q))"
    using netif_remove_list [OF assms] by blast
  then show ?thesis
    using netif_add_list [OF assms, of p init a m g] netif_find_list [OF assms, of nm]
    by (auto simp: netif_is_up_def)
qed

text \<open>
  An interface that is added while it is linked makes the list circular: from then on a search for
  a name that no interface has does not return.
\<close>

theorem netif_added_twice:
  assumes "list_ok s ps" "p \<in> set ps" "\<forall>n. fst (init n) = ERR_OK" "3 \<le> length nm"
  shows "\<exists>s'. netif_add p a m g (Some init) s = Inr (True, s') \<and>
    ((\<forall>q \<in> set ps. nf_name (n_store s' q) \<noteq> take 2 nm) \<longrightarrow> netif_find (Some nm) s' = Inl Hang)"
proof -
  obtain xs ys where ps: "ps = xs @ p # ys" using assms(2) by (meson split_list)
  define s2 where "s2 = netif_set_addr p (Some a) (Some m) (Some g)
      ((upd_nif p (netif_reset (n_num s)) s)\<lparr>n_num := n_num s + 1\<rparr>)"
  obtain n' where i: "init (n_store s2 p) = (ERR_OK, n')"
    using assms(3) by (cases "init (n_store s2 p)") (metis fst_conv)
  have l: "n_list s2 = n_list s" "nf_next (n_store s2 q) = nf_next (n_store s q)" for q
    by (simp_all add: s2_def nif_simps netif_reset_def)
  obtain s' where s': "netif_add p a m g (Some init) s = Inr (True, s')" "n_list s' = Some p"
    "\<forall>q. nf_next (n_store s' q) = (if q = p then n_list s else nf_next (n_store s q))"
    using i l by (auto simp: netif_add_def Let_def s2_def [symmetric])
  have hd: "\<exists>r \<in> set (xs @ [p]). n_list s = Some r"
    using assms(1) by (cases xs) (auto simp: list_ok_def ps)
  have "netif_find (Some nm) s' = Inl Hang" if nm: "\<forall>q \<in> set ps. nf_name (n_store s' q) \<noteq> take 2 nm"
  proof -
    have "find_loop (n_store s') (name_matches (nm ! 2 - 48) (take 2 nm)) (Some p) = None"
    proof (rule find_loop_circle [where C = "set (xs @ [p])"])
      fix q assume q: "q \<in> set (xs @ [p])"
      have "\<exists>r \<in> set (xs @ [p]). nf_next (n_store s' q) = Some r"
        using q hd s'(3) chain_split [of "n_store s" "n_list s" xs p ys q] assms(1)
        by (cases "q = p") (auto simp: list_ok_def ps)
      with q nm show "\<not> name_matches (nm ! 2 - 48) (take 2 nm) (n_store s' q) \<and>
          (\<exists>r \<in> set (xs @ [p]). nf_next (n_store s' q) = Some r)"
        by (auto simp: name_matches_def ps)
    qed simp
    then show ?thesis using assms(4) by (simp add: netif_find_def s'(2))
  qed
  with s'(1) show ?thesis by blast
qed

section \<open>Witnesses\<close>

lemma drivers_ok [simp]:
  "fst (wlanif_init_sta n) = ERR_OK" "fst (wlanif_init_ap n) = ERR_OK" "fst (ethernetif_init n) = ERR_OK"
  by (simp_all add: wlanif_init_sta_def wlanif_init_ap_def wlanif_init_def ethernetif_init_def)

lemma initial_list_ok: "list_ok net_initial []"
  by (simp add: list_ok_def net_initial_def)

lemma station_name:
  "netif_add p a m g (Some wlanif_init_sta) s = Inr (b, s') \<Longrightarrow> nf_name (n_store s' p) = [0x73, 0x74]"
  by (auto simp: netif_add_def Let_def wlanif_init_sta_def wlanif_init_def low_level_init_def split: if_splits)

lemma station_added:
  obtains s where "netif_add 1 5 6 7 (Some wlanif_init_sta) net_initial = Inr (True, s)" "list_ok s [1]"
  using netif_add_list [OF initial_list_ok, of 1 wlanif_init_sta 5 6 7] by auto

theorem netif_list_operations_witness:
  "\<exists>s s'. netif_add 1 5 6 7 (Some wlanif_init_sta) net_initial = Inr (True, s) \<and>
     netif_remove (Some 1) s = Inr s' \<and> list_ok s' [] \<and>
     netif_find (Some [0x73, 0x74]) s = Inl BufferOverflow"
proof -
  obtain s where s: "netif_add 1 5 6 7 (Some wlanif_init_sta) net_initial = Inr (True, s)" "list_ok s [1]"
    by (rule station_added)
  from netif_list_operations [OF s(2), of 2 wlanif_init_ap 1 1 1 "[0x73, 0x74]"]
    netif_list_operations [OF s(2), of 1 wlanif_init_ap 1 1 1 "[]"] s(1)
  show ?thesis by auto
qed

theorem netif_added_twice_witness:
  "\<exists>s s'. list_ok s [1] \<and> netif_add 1 5 6 7 (Some wlanif_init_sta) s = Inr (True, s') \<and>
     netif_find (Some [0x61, 0x70, 0x30, 0]) s' = Inl Hang"
proof -
  obtain s where s: "list_ok s [1]" by (rule station_added)
  from netif_added_twice [OF s, of 1 wlanif_init_sta "[0x61, 0x70, 0x30, 0]" 5 6 7]
  obtain s' where a: "netif_add 1 5 6 7 (Some wlanif_init_sta) s = Inr (True, s')"
    "nf_name (n_store s' 1) \<noteq> [0x61, 0x70] \<longrightarrow> netif_find (Some [0x61, 0x70, 0x30, 0]) s' = Inl Hang"
    by auto
  then show ?thesis using s station_name [OF a(1)] by auto
qed

end
