(* ===== verification/Dhcp_Client_Inv.thy ===== *)
theory Dhcp_Client_Inv
  imports Dhcp_Client_Steps Netif_Props
begin

text \<open>
  The invariant of the DHCP client and that its operations keep it: every operation is a step that
  moves one client and leaves the others, the interface list and the UDP block alone.
\<close>

section \<open>Steps of one client\<close>

definition lease_ok :: "dhcp \<Rightarrow> bool" where
  "lease_ok d \<longleftrightarrow> (dc_t0_timeout d \<noteq> 0 \<longrightarrow> dc_lease_used d < dc_t0_timeout d)"

definition base_ok :: "dhcp \<Rightarrow> bool" where
  \<comment> \<open>no message left over, no activity without the UDP block, and a lease that has not run out\<close>
  "base_ok d \<longleftrightarrow> dc_msg_out d = None \<and> (dc_state d \<noteq> DHCP_STATE_OFF \<longrightarrow> dc_pcb_allocated d) \<and>
     dc_state d \<notin> {DHCP_STATE_INIT, DHCP_STATE_INFORMING, DHCP_STATE_CHECKING} \<and> lease_ok d"

definition timer_ok :: "dhcp \<Rightarrow> bool" where
  \<comment> \<open>who waits for an answer will be woken\<close>
  "timer_ok d \<longleftrightarrow> (dc_state d \<in> {DHCP_STATE_SELECTING, DHCP_STATE_REQUESTING, DHCP_STATE_REBOOTING,
     DHCP_STATE_BACKING_OFF} \<longrightarrow> dc_request_timeout d \<noteq> 0)"

definition moves :: "nptr \<Rightarrow> dhcpc \<Rightarrow> dhcpc \<Rightarrow> bool" where
  "moves p s s' \<longleftrightarrow> same_links (c_net s) (c_net s') \<and>
     (\<forall>q. nf_dhcp (c_netif s' q) = nf_dhcp (c_netif s q) \<and>
          nf_hostname (c_netif s' q) = nf_hostname (c_netif s q)) \<and>
     (\<forall>q. q \<noteq> p \<longrightarrow> c_dhcp s' q = c_dhcp s q) \<and> c_pcb s' = c_pcb s \<and> c_refcount s' = c_refcount s \<and>
     dc_pcb_allocated (c_dhcp s' p) = dc_pcb_allocated (c_dhcp s p)"

lemma moves_refl [simp]: "moves p s s"
  by (simp add: moves_def)

lemma moves_trans: "moves p s s' \<Longrightarrow> moves p s' s'' \<Longrightarrow> moves p s s''"
  by (simp add: moves_def same_links_def)

lemma set_dhcp_fields [simp]:
  "c_net (set_dhcp p d s) = c_net s" "c_pcb (set_dhcp p d s) = c_pcb s"
  "c_refcount (set_dhcp p d s) = c_refcount s" "c_rx (set_dhcp p d s) = c_rx s"
  "c_dhcp (set_dhcp p d s) p = d" "q \<noteq> p \<Longrightarrow> c_dhcp (set_dhcp p d s) q = c_dhcp s q"
  "c_netif (set_dhcp p d s) = c_netif s" "c_out (set_dhcp p d s) = c_out s" "c_asked (set_dhcp p d s) = c_asked s"
  "set_dhcp p d (set_dhcp p d' s) = set_dhcp p d s"
  by (simp_all add: set_dhcp_def c_netif_def fun_eq_iff)

lemma client_call_fields [simp]:
  "c_net (client_call c s) = c_net s" "c_dhcp (client_call c s) = c_dhcp s" "c_pcb (client_call c s) = c_pcb s"
  "c_refcount (client_call c s) = c_refcount s" "c_rx (client_call c s) = c_rx s"
  "c_netif (client_call c s) = c_netif s" "c_asked (client_call c s) = c_asked s"
  "c_out (client_call c s) = c_out s @ [c]"
  by (simp_all add: client_call_def c_netif_def fun_eq_iff)

lemma call_back_fields [simp]:
  "c_net (call_back p s) = c_net s" "c_dhcp (call_back p s) = c_dhcp s" "c_pcb (call_back p s) = c_pcb s"
  "c_refcount (call_back p s) = c_refcount s" "c_rx (call_back p s) = c_rx s"
  "c_netif (call_back p s) = c_netif s" "c_asked (call_back p s) = c_asked s"
  by (simp_all add: call_back_def)

lemma c_set_addr_fields [simp]:
  "c_dhcp (c_set_addr p a m g s) = c_dhcp s" "c_pcb (c_set_addr p a m g s) = c_pcb s"
  "c_refcount (c_set_addr p a m g s) = c_refcount s" "c_rx (c_set_addr p a m g s) = c_rx s"
  "c_asked (c_set_addr p a m g s) = c_asked s" "c_out (c_set_addr p a m g s) = c_out s"
  "nf_dhcp (c_netif (c_set_addr p a m g s) q) = nf_dhcp (c_netif s q)"
  "nf_hostname (c_netif (c_set_addr p a m g s) q) = nf_hostname (c_netif s q)"
  "same_links (c_net s) (c_net (c_set_addr p a m g s))"
  by (simp_all add: c_set_addr_def c_netif_def same_links_def nif_simps)

lemma moves_set_dhcp: "dc_pcb_allocated d = dc_pcb_allocated (c_dhcp s p) \<Longrightarrow> moves p s (set_dhcp p d s)"
  by (simp add: moves_def)

lemma moves_set_addr: "moves p s (c_set_addr p a m g s)"
  by (simp add: moves_def)

lemma moves_call: "moves p s (client_call c s)" "moves p s (call_back p s)"
  by (simp_all add: moves_def)

lemma moves_may_send: "moves p s s' \<Longrightarrow> may_send s p \<Longrightarrow> dc_msg_out (c_dhcp s' p) = None \<Longrightarrow> may_send s' p"
  by (simp add: moves_def may_send_def)

definition ready :: "nptr \<Rightarrow> dhcpc \<Rightarrow> bool" where
  "ready p s \<longleftrightarrow> may_send s p \<and> dc_pcb_allocated (c_dhcp s p)"

definition settled :: "nptr \<Rightarrow> dhcpc \<Rightarrow> dhcpc \<Rightarrow> bool" where
  "settled p s s' \<longleftrightarrow> moves p s s' \<and> base_ok (c_dhcp s' p) \<and> timer_ok (c_dhcp s' p) \<and>
     dc_msg_in (c_dhcp s' p) = dc_msg_in (c_dhcp s p)"

lemma ready_moves: "ready p s \<Longrightarrow> moves p s s' \<Longrightarrow> dc_msg_out (c_dhcp s' p) = None \<Longrightarrow> ready p s'"
  using moves_may_send by (simp add: ready_def) (simp add: moves_def)

lemma settled_after: "moves p s s' \<Longrightarrow> dc_msg_in (c_dhcp s' p) = dc_msg_in (c_dhcp s p) \<Longrightarrow>
    settled p s' s'' \<Longrightarrow> settled p s s''"
  unfolding settled_def using moves_trans by metis

definition settles_in :: "nptr \<Rightarrow> dhcpc \<Rightarrow> dhcp_state \<Rightarrow> bool \<Rightarrow> (int \<times> dhcpc) result \<Rightarrow> bool" where
  "settles_in p s st mem res \<longleftrightarrow> (\<exists>err s'. res = Inr (err, s') \<and> settled p s s' \<and> dc_state (c_dhcp s' p) = st \<and>
     (err = ERR_OK \<longleftrightarrow> mem) \<and> err \<in> {ERR_OK, ERR_MEM} \<and> c_net s' = c_net s)"

lemma request_settles:
  assumes r: "ready p s" and to: "request_to p d s res mem"
    and d: "dc_msg_out d = None" "dc_msg_in d = dc_msg_in (c_dhcp s p)" "dc_pcb_allocated d"
      "dc_state d \<notin> {DHCP_STATE_INIT, DHCP_STATE_INFORMING, DHCP_STATE_CHECKING}"
      "lease_ok d"
  shows "settles_in p s (dc_state d) mem res"
proof -
  obtain err d' s1 where x: "res = Inr (err, set_dhcp p d' s1)" "retried d d'" "calm s s1"
    "err = ERR_OK \<longleftrightarrow> mem" "err \<in> {ERR_OK, ERR_MEM}"
    using to unfolding request_to_def by blast
  note c = calm_fields [OF x(3)] and f = retried_fields [OF x(2)]
  have cn: "c_netif s1 = c_netif s" using c by (simp add: c_netif_def fun_eq_iff)
  have "dc_pcb_allocated (c_dhcp s p)" using r by (simp add: ready_def)
  then have "moves p s (set_dhcp p d' s1)"
    using c f d(3) cn by (simp add: moves_def)
  moreover have "base_ok d'" "timer_ok d'" using f d by (simp_all add: base_ok_def timer_ok_def lease_ok_def)
  ultimately have "settled p s (set_dhcp p d' s1)" using f d(2) by (simp add: settled_def)
  then show ?thesis using x f c unfolding settles_in_def by auto
qed

lemma settles:
  assumes r: "ready p s" "lease_ok (c_dhcp s p)"
  shows "settles_in p s DHCP_STATE_SELECTING (ce_pbuf e (c_asked s)) (dhcp_discover e p s)"
    "settles_in p s DHCP_STATE_REQUESTING (ce_pbuf e (c_asked s)) (dhcp_select e p s)"
    "settles_in p s DHCP_STATE_RENEWING (ce_pbuf e (c_asked s)) (dhcp_renew e p s)"
    "settles_in p s DHCP_STATE_REBINDING (ce_pbuf e (c_asked s)) (dhcp_rebind e p s)"
    "settles_in p s DHCP_STATE_REBOOTING (ce_pbuf e (c_asked s)) (dhcp_reboot e p s)"
proof -
  have m: "may_send s p" and b: "dc_msg_out (c_dhcp s p) = None" "dc_pcb_allocated (c_dhcp s p)"
    using r by (simp_all add: ready_def may_send_def)
  have l: "lease_ok (dhcp_set_state st (c_dhcp s p))"
    "lease_ok (dhcp_set_state st ((c_dhcp s p)\<lparr>dc_offered_ip := 0\<rparr>))" for st
    using r(2) by (simp_all add: lease_ok_def)
  note q = requests [OF m, of e] and t = request_settles [OF r(1)]
  show "settles_in p s DHCP_STATE_SELECTING (ce_pbuf e (c_asked s)) (dhcp_discover e p s)"
    using t [OF q(1)] b l by simp
  show "settles_in p s DHCP_STATE_REQUESTING (ce_pbuf e (c_asked s)) (dhcp_select e p s)"
    using t [OF q(2)] b l by simp
  show "settles_in p s DHCP_STATE_RENEWING (ce_pbuf e (c_asked s)) (dhcp_renew e p s)"
    using t [OF q(3)] b l by simp
  show "settles_in p s DHCP_STATE_REBINDING (ce_pbuf e (c_asked s)) (dhcp_rebind e p s)"
    using t [OF q(4)] b l by simp
  show "settles_in p s DHCP_STATE_REBOOTING (ce_pbuf e (c_asked s)) (dhcp_reboot e p s)"
    using t [OF q(5)] b l by simp
qed

lemma forget_offer_fields [simp]:
  "dc_state (forget_offer d) = dc_state d" "dc_msg_out (forget_offer d) = dc_msg_out d"
  "dc_msg_in (forget_offer d) = dc_msg_in d" "dc_pcb_allocated (forget_offer d) = dc_pcb_allocated d"
  "dc_cb (forget_offer d) = dc_cb d" "dc_t0_timeout (forget_offer d) = 0" "dc_lease_used (forget_offer d) = 0"
  by (simp_all add: forget_offer_def)

lemma release_settles:
  assumes r: "ready p s"
  shows "\<exists>err s'. dhcp_release_netif e p s = Inr (err, s') \<and> settled p s s' \<and> ready p s' \<and>
    dc_state (c_dhcp s' p) = DHCP_STATE_OFF \<and>
    c_net s' = (if dhcp_supplied_address (Some p) s
                then netif_set_addr p (Some 0) (Some 0) (Some 0) (c_net s) else c_net s)"
proof -
  have m: "nf_dhcp (c_netif s p)" "c_pcb s" "dc_msg_out (c_dhcp s p) = None" "length (nf_hostname (c_netif s p)) \<le> 32"
    and b: "dc_pcb_allocated (c_dhcp s p)"
    using r by (simp_all add: ready_def may_send_def)
  define d where "d = forget_offer (dhcp_set_state DHCP_STATE_OFF (c_dhcp s p))"
  have d: "base_ok d" "timer_ok d" "dc_msg_in d = dc_msg_in (c_dhcp s p)"
    "dc_pcb_allocated d = dc_pcb_allocated (c_dhcp s p)" "dc_state d = DHCP_STATE_OFF" "dc_msg_out d = None"
    using m(3) by (simp_all add: d_def base_ok_def timer_ok_def lease_ok_def)
  show ?thesis
  proof (cases "dhcp_supplied_address (Some p) s")
    case False
    have "settled p s (set_dhcp p d s)" using d moves_set_dhcp [of d s p] by (simp add: settled_def)
    moreover from this have "ready p (set_dhcp p d s)" using ready_moves [OF r] by (simp add: settled_def base_ok_def)
    ultimately show ?thesis using False m(1) d by (simp add: dhcp_release_netif_def d_def)
  next
    case True
    define server where "server = dc_server_ip (c_dhcp s p)"
    have "\<exists>err x l s1. dhcp_message e p DHCP_RELEASE (address_option DHCP_OPTION_SERVER_ID server)
        (\<lambda>m. SendToIf m server DHCP_SERVER_PORT p) d s = Inr (err, d\<lparr>dc_xid := x, dc_options_out_len := l\<rparr>, s1) \<and>
      calm s s1 \<and> (err = ERR_OK \<longleftrightarrow> ce_pbuf e (c_asked s)) \<and> err \<in> {ERR_OK, ERR_MEM}"
      by (rule dhcp_message_calm [OF address_option_appends _ _ d(6) m(2)]) simp_all
    then obtain err x l s1 where x: "dhcp_message e p DHCP_RELEASE (address_option DHCP_OPTION_SERVER_ID server)
        (\<lambda>m. SendToIf m server DHCP_SERVER_PORT p) d s = Inr (err, d\<lparr>dc_xid := x, dc_options_out_len := l\<rparr>, s1)"
      "calm s s1" by blast
    define d' where "d' = d\<lparr>dc_xid := x, dc_options_out_len := l\<rparr>"
    define s' where "s' = call_back p (c_set_addr p 0 0 0 (set_dhcp p d' s1))"
    have d': "base_ok d'" "timer_ok d'" "dc_msg_in d' = dc_msg_in (c_dhcp s p)" "dc_state d' = DHCP_STATE_OFF"
      "dc_pcb_allocated d' = dc_pcb_allocated (c_dhcp s p)"
      using d by (simp_all add: d'_def base_ok_def timer_ok_def lease_ok_def)
    note c = calm_fields [OF x(2)]
    have "c_netif s1 = c_netif s" using c by (simp add: c_netif_def fun_eq_iff)
    then have "moves p s (set_dhcp p d' s1)" using c d'(5) by (simp add: moves_def)
    then have mv: "moves p s s'"
      unfolding s'_def using moves_trans moves_set_addr moves_call(2) by blast
    have "settled p s s'" using mv d' by (simp add: settled_def s'_def)
    moreover have "ready p s'" by (rule ready_moves [OF r mv]) (simp add: s'_def d'_def d)
    moreover have "dhcp_release_netif e p s = Inr (err, s')"
      using True m(1) x(1) by (simp add: dhcp_release_netif_def Let_def server_def d_def s'_def d'_def)
    moreover have "c_net s' = netif_set_addr p (Some 0) (Some 0) (Some 0) (c_net s)"
      using c by (simp add: s'_def c_set_addr_def)
    ultimately show ?thesis using True d'(4) by (simp add: s'_def)
  qed
qed

lemma release_then_discover:
  assumes r: "ready p s"
  shows "\<exists>s'. bindE (dhcp_release_netif e p s) (\<lambda>(_, s1). bindE (dhcp_discover e p s1) (\<lambda>(_, s2). Inr s2)) = Inr s' \<and>
    settled p s s' \<and> dc_state (c_dhcp s' p) = DHCP_STATE_SELECTING \<and>
    c_net s' = (if dhcp_supplied_address (Some p) s
                then netif_set_addr p (Some 0) (Some 0) (Some 0) (c_net s) else c_net s)"
proof -
  obtain err s1 where s1: "dhcp_release_netif e p s = Inr (err, s1)" "settled p s s1" "ready p s1"
    "c_net s1 = (if dhcp_supplied_address (Some p) s
                then netif_set_addr p (Some 0) (Some 0) (Some 0) (c_net s) else c_net s)"
    using release_settles [OF r, of e] by blast
  have l1: "lease_ok (c_dhcp s1 p)" using s1(2) by (simp add: settled_def base_ok_def)
  obtain err2 s2 where s2: "dhcp_discover e p s1 = Inr (err2, s2)" "settled p s1 s2"
    "dc_state (c_dhcp s2 p) = DHCP_STATE_SELECTING" "c_net s2 = c_net s1"
    using settles(1) [OF s1(3) l1, of e] unfolding settles_in_def by blast
  have "settled p s s2" using settled_after s1(2) s2(2) unfolding settled_def by blast
  with s1 s2 show ?thesis by simp
qed

end
