(* ===== verification/Dhcp_Client_Safe.thy ===== *)
theory Dhcp_Client_Safe
  imports Dhcp_Client_Inv
begin

text \<open>
  Timeouts, replies and the functions other parts call keep the invariant of the DHCP client, and none
  of them fails: no assertion is violated and nothing is used that is not there.
\<close>

section \<open>Timeouts\<close>

definition steps_to :: "nptr \<Rightarrow> dhcpc \<Rightarrow> dhcpc result \<Rightarrow> bool" where
  "steps_to p s res \<longleftrightarrow> (\<exists>s'. res = Inr s' \<and> settled p s s')"

lemma settles_steps: "settles_in p s st mem res \<Longrightarrow> steps_to p s (bindE res (\<lambda>(_, s1). Inr s1))"
  by (auto simp: settles_in_def steps_to_def)

lemma ready_dhcp: "ready p s \<Longrightarrow> nf_dhcp (c_netif s p)"
  by (simp add: ready_def may_send_def)

lemma release_discover_steps:
  "ready p s \<Longrightarrow> steps_to p s (bindE (dhcp_release_netif e p s) (\<lambda>(_, s1). bindE (dhcp_discover e p s1) (\<lambda>(_, s2). Inr s2)))"
  using release_then_discover [of p s e] by (auto simp: steps_to_def)

lemma dhcp_timeout_steps:
  assumes r: "ready p s" and b: "base_ok (c_dhcp s p)"
  shows "steps_to p s (dhcp_timeout e p s)"
proof -
  let ?st = "dc_state (c_dhcp s p)"
  have l: "lease_ok (c_dhcp s p)" using b by (simp add: base_ok_def)
  note q = settles [OF r l, of e]
  consider "?st = DHCP_STATE_BACKING_OFF \<or> ?st = DHCP_STATE_SELECTING" | "?st = DHCP_STATE_REQUESTING"
    | "?st = DHCP_STATE_REBOOTING"
    | "?st \<notin> {DHCP_STATE_BACKING_OFF, DHCP_STATE_SELECTING, DHCP_STATE_REQUESTING, DHCP_STATE_REBOOTING}" by auto
  then show ?thesis
  proof cases
    case 1
    then show ?thesis using settles_steps [OF q(1)] ready_dhcp [OF r] by (simp add: dhcp_timeout_def with_dhcp_def)
  next
    case 2
    then show ?thesis using settles_steps [OF q(2)] release_discover_steps [OF r, of e] ready_dhcp [OF r]
      by (simp add: dhcp_timeout_def with_dhcp_def bindE_assoc case_prod_unfold)
  next
    case 3
    then show ?thesis using settles_steps [OF q(5)] settles_steps [OF q(1)] ready_dhcp [OF r]
      by (simp add: dhcp_timeout_def with_dhcp_def)
  next
    case 4
    then have "settled p s s" using b by (simp add: settled_def timer_ok_def)
    then show ?thesis using 4 ready_dhcp [OF r] by (simp add: dhcp_timeout_def with_dhcp_def steps_to_def)
  qed
qed

lemma set_timers_settled:
  assumes "settled p s s'"
  shows "settled p s (set_dhcp p ((c_dhcp s' p)\<lparr>dc_t1_renew_time := x\<rparr>) s')"
    "settled p s (set_dhcp p ((c_dhcp s' p)\<lparr>dc_t2_rebind_time := x\<rparr>) s')"
proof -
  have m: "moves p s' (set_dhcp p ((c_dhcp s' p)\<lparr>dc_t1_renew_time := x\<rparr>) s')"
    "moves p s' (set_dhcp p ((c_dhcp s' p)\<lparr>dc_t2_rebind_time := x\<rparr>) s')"
    by (simp_all add: moves_set_dhcp)
  have o: "base_ok ((c_dhcp s' p)\<lparr>dc_t1_renew_time := x\<rparr>) = base_ok (c_dhcp s' p)"
    "base_ok ((c_dhcp s' p)\<lparr>dc_t2_rebind_time := x\<rparr>) = base_ok (c_dhcp s' p)"
    "timer_ok ((c_dhcp s' p)\<lparr>dc_t1_renew_time := x\<rparr>) = timer_ok (c_dhcp s' p)"
    "timer_ok ((c_dhcp s' p)\<lparr>dc_t2_rebind_time := x\<rparr>) = timer_ok (c_dhcp s' p)"
    by (simp_all add: base_ok_def timer_ok_def lease_ok_def)
  have "moves p s s'" using assms by (simp add: settled_def)
  note mt = moves_trans [OF this m(1)] moves_trans [OF this m(2)]
  show "settled p s (set_dhcp p ((c_dhcp s' p)\<lparr>dc_t1_renew_time := x\<rparr>) s')"
    using assms o mt(1) by (simp add: settled_def)
  show "settled p s (set_dhcp p ((c_dhcp s' p)\<lparr>dc_t2_rebind_time := x\<rparr>) s')"
    using assms o mt(2) by (simp add: settled_def)
qed

lemma t1_timeout_steps:
  assumes r: "ready p s" and b: "base_ok (c_dhcp s p)"
  shows "dc_state (c_dhcp s p) \<in> {DHCP_STATE_REQUESTING, DHCP_STATE_BOUND, DHCP_STATE_RENEWING} \<Longrightarrow>
      steps_to p s (dhcp_t1_timeout e p s)"
    "dc_state (c_dhcp s p) \<notin> {DHCP_STATE_REQUESTING, DHCP_STATE_BOUND, DHCP_STATE_RENEWING} \<Longrightarrow>
      dhcp_t1_timeout e p s = Inr s"
proof -
  assume st: "dc_state (c_dhcp s p) \<in> {DHCP_STATE_REQUESTING, DHCP_STATE_BOUND, DHCP_STATE_RENEWING}"
  obtain err s1 where s1: "dhcp_renew e p s = Inr (err, s1)" "settled p s s1"
    using settles(3) [OF r, of e] b by (auto simp: settles_in_def base_ok_def)
  then show "steps_to p s (dhcp_t1_timeout e p s)"
    using st ready_dhcp [OF r] set_timers_settled [OF s1(2)]
    by (simp add: dhcp_t1_timeout_def with_dhcp_def steps_to_def Let_def)
qed (use ready_dhcp [OF r] in \<open>simp add: dhcp_t1_timeout_def with_dhcp_def\<close>)

lemma t2_timeout_steps:
  assumes r: "ready p s" and b: "base_ok (c_dhcp s p)"
  shows "dc_state (c_dhcp s p) \<in> {DHCP_STATE_REQUESTING, DHCP_STATE_BOUND, DHCP_STATE_RENEWING, DHCP_STATE_REBINDING} \<Longrightarrow>
      steps_to p s (dhcp_t2_timeout e p s)"
    "dc_state (c_dhcp s p) \<notin> {DHCP_STATE_REQUESTING, DHCP_STATE_BOUND, DHCP_STATE_RENEWING, DHCP_STATE_REBINDING} \<Longrightarrow>
      dhcp_t2_timeout e p s = Inr s"
proof -
  assume st: "dc_state (c_dhcp s p) \<in> {DHCP_STATE_REQUESTING, DHCP_STATE_BOUND, DHCP_STATE_RENEWING, DHCP_STATE_REBINDING}"
  obtain err s1 where s1: "dhcp_rebind e p s = Inr (err, s1)" "settled p s s1"
    using settles(4) [OF r, of e] b by (auto simp: settles_in_def base_ok_def)
  then show "steps_to p s (dhcp_t2_timeout e p s)"
    using st ready_dhcp [OF r] set_timers_settled [OF s1(2)]
    by (simp add: dhcp_t2_timeout_def with_dhcp_def steps_to_def Let_def)
qed (use ready_dhcp [OF r] in \<open>simp add: dhcp_t2_timeout_def with_dhcp_def\<close>)

section \<open>The invariant\<close>

definition holds :: "dhcpc \<Rightarrow> nptr \<Rightarrow> bool" where
  "holds s p \<longleftrightarrow> nf_dhcp (c_netif s p) \<and> dc_pcb_allocated (c_dhcp s p)"

definition dhcp_ok :: "dhcp \<Rightarrow> bool" where
  "dhcp_ok d \<longleftrightarrow> base_ok d \<and> timer_ok d \<and> dc_msg_in d = None"

definition client_inv :: "nptr set \<Rightarrow> dhcpc \<Rightarrow> bool" where
  \<comment> \<open>for a set of fewer than 255 interfaces\<close>
  "client_inv ps s \<longleftrightarrow> finite ps \<and> card ps < 255 \<and> {p. holds s p} \<subseteq> ps \<and>
     unat (c_refcount s) = card {p. holds s p} \<and> c_pcb s = (c_refcount s \<noteq> 0) \<and>
     (\<forall>p. nf_dhcp (c_netif s p) \<longrightarrow> dhcp_ok (c_dhcp s p) \<and> length (nf_hostname (c_netif s p)) \<le> 32)"

lemma inv_pcb: "client_inv ps s \<Longrightarrow> holds s p \<Longrightarrow> c_pcb s \<and> 0 < c_refcount s"
proof -
  assume i: "client_inv ps s" and h: "holds s p"
  then have "finite {p. holds s p}" "{p. holds s p} \<noteq> {}" using finite_subset by (auto simp: client_inv_def)
  then have "card {p. holds s p} \<noteq> 0" by simp
  then have "unat (c_refcount s) \<noteq> 0" using i by (simp add: client_inv_def)
  then show ?thesis using i by (auto simp: client_inv_def word_less_nat_alt)
qed

lemma inv_dhcp: "client_inv ps s \<Longrightarrow> nf_dhcp (c_netif s p) \<Longrightarrow> dhcp_ok (c_dhcp s p) \<and> length (nf_hostname (c_netif s p)) \<le> 32"
  by (simp add: client_inv_def)

lemma inv_ready: "client_inv ps s \<Longrightarrow> holds s p \<Longrightarrow> ready p s"
  using inv_pcb [of ps s p] inv_dhcp [of ps s p]
  by (simp add: ready_def may_send_def holds_def dhcp_ok_def base_ok_def)

lemma moves_inv:
  assumes i: "client_inv ps s" and m: "moves p s s'"
    and d: "nf_dhcp (c_netif s p) \<Longrightarrow> dhcp_ok (c_dhcp s' p)"
  shows "client_inv ps s'"
proof -
  have h: "holds s' q = holds s q" for q using m by (cases "q = p") (auto simp: moves_def holds_def)
  have "dhcp_ok (c_dhcp s' q) \<and> length (nf_hostname (c_netif s' q)) \<le> 32" if "nf_dhcp (c_netif s' q)" for q
  proof -
    have nd: "nf_dhcp (c_netif s q)" and hn: "nf_hostname (c_netif s' q) = nf_hostname (c_netif s q)"
      using that m by (simp_all add: moves_def)
    have "dhcp_ok (c_dhcp s' q)"
      using d nd m inv_dhcp [OF i nd] by (cases "q = p") (simp_all add: moves_def)
    then show ?thesis using hn inv_dhcp [OF i nd] by simp
  qed
  then show ?thesis using i m by (simp add: client_inv_def h) (simp add: moves_def)
qed

lemma steps_inv:
  assumes "client_inv ps s" "steps_to p s res" "nf_dhcp (c_netif s p)"
  shows "\<exists>s'. res = Inr s' \<and> client_inv ps s' \<and> moves p s s'"
proof -
  obtain s' where s': "res = Inr s'" "settled p s s'" using assms(2) by (auto simp: steps_to_def)
  have "client_inv ps s'"
    by (rule moves_inv [OF assms(1)]) (use s'(2) assms inv_dhcp [OF assms(1,3)] in \<open>auto simp: settled_def dhcp_ok_def\<close>)
  with s' show ?thesis by (auto simp: settled_def)
qed

lemma steps_after:
  assumes "moves p s s'" "dc_msg_in (c_dhcp s' p) = dc_msg_in (c_dhcp s p)" "steps_to p s' res"
  shows "steps_to p s res"
  using assms settled_after unfolding steps_to_def by blast

lemma off_unless_holds:
  "client_inv ps s \<Longrightarrow> nf_dhcp (c_netif s p) \<Longrightarrow> \<not> holds s p \<Longrightarrow> dc_state (c_dhcp s p) = DHCP_STATE_OFF"
  using inv_dhcp [of ps s p] by (auto simp: dhcp_ok_def base_ok_def holds_def)

section \<open>The two timers\<close>

lemma tick_ready:
  assumes "ready p s" "dc_msg_out d = None" "dc_pcb_allocated d = dc_pcb_allocated (c_dhcp s p)"
  shows "ready p (set_dhcp p d s)"
  by (rule ready_moves [OF assms(1) moves_set_dhcp [OF assms(3)]]) (use assms(2) in simp)

lemma fine_tick_inv:
  assumes i: "client_inv ps s"
  shows "\<exists>s'. fine_tick e p s = Inr s' \<and> client_inv ps s' \<and> moves p s s'"
proof (cases "nf_dhcp (c_netif s p)")
  case False
  then show ?thesis using i by (simp add: fine_tick_def Let_def)
next
  case nd: True
  define d where "d = c_dhcp s p"
  define d1 where "d1 = d\<lparr>dc_request_timeout := dc_request_timeout d - 1\<rparr>"
  have dk: "dhcp_ok d" using inv_dhcp [OF i nd] by (simp add: d_def)
  have mv: "moves p s (set_dhcp p d1 s)" by (rule moves_set_dhcp) (simp add: d1_def d_def)
  have b1: "base_ok d1" using dk by (simp add: d1_def dhcp_ok_def base_ok_def lease_ok_def)
  show ?thesis
  proof (cases "dc_request_timeout d = 1")
    case False
    show ?thesis
    proof (cases "1 < dc_request_timeout d")
      case True
      have "dc_request_timeout d - 1 \<noteq> 0" using True by auto
      then have "dhcp_ok d1" using dk b1 by (simp add: dhcp_ok_def timer_ok_def d1_def)
      then have "client_inv ps (set_dhcp p d1 s)" by (intro moves_inv [OF i mv]) simp
      then show ?thesis using True nd mv by (simp add: fine_tick_def Let_def d1_def d_def)
    next
      case False
      then have "fine_tick e p s = Inr s"
        using nd \<open>dc_request_timeout d \<noteq> 1\<close> by (simp add: fine_tick_def Let_def d_def)
      then show ?thesis using i by simp
    qed
  next
    case one: True
    then have ft: "fine_tick e p s = dhcp_timeout e p (set_dhcp p d1 s)"
      using nd by (simp add: fine_tick_def Let_def d1_def d_def)
    have "steps_to p s (dhcp_timeout e p (set_dhcp p d1 s))"
    proof (cases "holds s p")
      case True
      have "ready p (set_dhcp p d1 s)"
        by (rule tick_ready [OF inv_ready [OF i True]]) (use b1 in \<open>simp_all add: d1_def d_def base_ok_def\<close>)
      from dhcp_timeout_steps [OF this] b1 have "steps_to p (set_dhcp p d1 s) (dhcp_timeout e p (set_dhcp p d1 s))"
        by simp
      then show ?thesis
        by (rule steps_after [OF mv, rotated]) (simp add: d1_def d_def)
    next
      case False
      then have off: "dc_state d1 = DHCP_STATE_OFF" using off_unless_holds [OF i nd] by (simp add: d1_def d_def)
      have "dhcp_timeout e p (set_dhcp p d1 s) = Inr (set_dhcp p d1 s)"
        using off nd by (simp add: dhcp_timeout_def with_dhcp_def)
      moreover have "settled p s (set_dhcp p d1 s)"
        using mv b1 off by (simp add: settled_def timer_ok_def) (simp add: d1_def d_def)
      ultimately show ?thesis by (simp add: steps_to_def)
    qed
    from steps_inv [OF i this nd] show ?thesis by (simp add: ft)
  qed
qed

lemma coarse_tick_inv:
  assumes i: "client_inv ps s"
  shows "\<exists>s'. coarse_tick e p s = Inr s' \<and> client_inv ps s' \<and> moves p s s'"
proof (cases "nf_dhcp (c_netif s p) \<and> dc_state (c_dhcp s p) \<noteq> DHCP_STATE_OFF")
  case False
  then show ?thesis using i by (auto simp: coarse_tick_def Let_def)
next
  case True
  then have nd: "nf_dhcp (c_netif s p)" and st: "dc_state (c_dhcp s p) \<noteq> DHCP_STATE_OFF" by blast+
  define d where "d = c_dhcp s p"
  define d1 where "d1 = (if dc_t0_timeout d \<noteq> 0 then d\<lparr>dc_lease_used := dc_lease_used d + 1\<rparr> else d)"
  define d2 where "d2 = (if dc_t2_rebind_time d \<noteq> 0 then d1\<lparr>dc_t2_rebind_time := dc_t2_rebind_time d - 1\<rparr> else d1)"
  define d3 where "d3 = (if dc_t1_renew_time d \<noteq> 0 then d2\<lparr>dc_t1_renew_time := dc_t1_renew_time d - 1\<rparr> else d2)"
  have dk: "dhcp_ok d" using inv_dhcp [OF i nd] by (simp add: d_def)
  have hold: "holds s p" using off_unless_holds [OF i nd] st by blast
  note r = inv_ready [OF i hold]
  have f: "dc_msg_in x = dc_msg_in d \<and> dc_pcb_allocated x = dc_pcb_allocated d \<and> dc_state x = dc_state d \<and>
      dc_request_timeout x = dc_request_timeout d \<and> dc_msg_out x = dc_msg_out d \<and> dc_t0_timeout x = dc_t0_timeout d"
    if "x \<in> {d1, d2, d3}" for x
    using that unfolding d3_def d2_def d1_def by (auto split: if_splits)
  have l: "dc_lease_used d2 = dc_lease_used d1" "dc_lease_used d3 = dc_lease_used d1"
    by (simp_all add: d3_def d2_def)
  have mv: "moves p s (set_dhcp p x s)" if "x \<in> {d1, d2, d3}" for x
    by (rule moves_set_dhcp) (use f [OF that] in \<open>simp add: d_def\<close>)
  have rx: "ready p (set_dhcp p x s)" if "x \<in> {d1, d2, d3}" for x
    by (rule tick_ready [OF r]) (use f [OF that] dk in \<open>simp_all add: d_def dhcp_ok_def base_ok_def\<close>)
  have sx: "steps_to p s res" if "x \<in> {d1, d2, d3}" "steps_to p (set_dhcp p x s) res" for x res
    by (rule steps_after [OF mv [OF that(1)] _ that(2)]) (use f [OF that(1)] in \<open>simp add: d_def\<close>)
  have "steps_to p s (coarse_tick e p s)"
  proof (cases "dc_t0_timeout d \<noteq> 0 \<and> dc_lease_used d1 = dc_t0_timeout d")
    case True
    then have ct: "coarse_tick e p s = bindE (dhcp_release_netif e p (set_dhcp p d1 s)) (\<lambda>(_, s1).
        bindE (dhcp_discover e p s1) (\<lambda>(_, s2). Inr s2))"
      using nd st unfolding coarse_tick_def Let_def d_def [symmetric] d1_def [symmetric] by simp
    show ?thesis unfolding ct by (rule sx [of d1]) (use release_discover_steps [OF rx [of d1]] in simp_all)
  next
    case notyet: False
    have lk: "lease_ok d1"
    proof (cases "dc_t0_timeout d = 0")
      case False
      have "dc_lease_used d < dc_t0_timeout d" using dk False by (simp add: dhcp_ok_def base_ok_def lease_ok_def)
      then have "dc_lease_used d + 1 \<le> dc_t0_timeout d" by (rule inc_le)
      then show ?thesis using notyet False by (simp add: lease_ok_def d1_def)
    qed (simp add: lease_ok_def d1_def)
    have bx: "base_ok x" if x: "x \<in> {d1, d2, d3}" for x
    proof -
      have "dc_lease_used x = dc_lease_used d1" "dc_t0_timeout x = dc_t0_timeout d1"
        using x l f [OF x] f [of d1] by auto
      then have "lease_ok x" using lk by (simp add: lease_ok_def)
      then show ?thesis using dk f [OF x] by (simp add: dhcp_ok_def base_ok_def)
    qed
    have tx: "timer_ok x" if "x \<in> {d1, d2, d3}" for x
      using dk f [OF that] by (simp add: dhcp_ok_def timer_ok_def)
    have stay: "steps_to p s (Inr (set_dhcp p x s))" if "x \<in> {d1, d2, d3}" for x
      using mv [OF that] bx [OF that] tx [OF that] f [OF that]
      by (simp add: steps_to_def settled_def d_def)
    have ct: "coarse_tick e p s =
        (if dc_t2_rebind_time d = 1 then dhcp_t2_timeout e p (set_dhcp p d2 s)
         else if dc_t1_renew_time d = 1 then dhcp_t1_timeout e p (set_dhcp p d3 s)
         else Inr (set_dhcp p d3 s))"
      using notyet nd st
      unfolding coarse_tick_def Let_def d_def [symmetric] d1_def [symmetric] d2_def [symmetric] d3_def [symmetric]
      by auto
    have t2: "steps_to p s (dhcp_t2_timeout e p (set_dhcp p d2 s))"
      using t2_timeout_steps [OF rx [of d2], of e] sx [of d2] stay [of d2] bx [of d2]
      by (cases "dc_state d2 \<in> {DHCP_STATE_REQUESTING, DHCP_STATE_BOUND, DHCP_STATE_RENEWING, DHCP_STATE_REBINDING}")
        simp_all
    have t1: "steps_to p s (dhcp_t1_timeout e p (set_dhcp p d3 s))"
      using t1_timeout_steps [OF rx [of d3], of e] sx [of d3] stay [of d3] bx [of d3]
      by (cases "dc_state d3 \<in> {DHCP_STATE_REQUESTING, DHCP_STATE_BOUND, DHCP_STATE_RENEWING}") simp_all
    show ?thesis unfolding ct using t1 t2 stay [of d3] by simp
  qed
  from steps_inv [OF i this nd] show ?thesis .
qed

end
