(* ===== verification/Dhcp_Client_Ops.thy ===== *)
theory Dhcp_Client_Ops
  imports Dhcp_Client_Safe
begin

text \<open>
  The remaining operations of the DHCP client keep its invariant: the walks over the interface list,
  the handling of a reply, and what other parts call.
\<close>

section \<open>Along the interface list\<close>

lemma each_netif_inv:
  assumes body: "\<And>p s. client_inv ps s \<Longrightarrow> \<exists>s'. body p s = Inr s' \<and> client_inv ps s' \<and> moves p s s'"
    and "chain (n_store (c_net s)) cur qs" "client_inv ps s"
  shows "\<exists>s'. each_netif body cur s = Some (Inr s') \<and> client_inv ps s' \<and> same_links (c_net s) (c_net s')"
  using assms(2,3)
proof (induction qs arbitrary: cur s)
  case Nil
  then show ?case by (subst each_netif.simps) simp
next
  case (Cons q qs)
  have cur: "cur = Some q" and ch: "chain (n_store (c_net s)) (nf_next (n_store (c_net s) q)) qs"
    using Cons.prems by simp_all
  obtain s1 where s1: "body q s = Inr s1" "client_inv ps s1" "moves q s s1" using body [OF Cons.prems(2)] by blast
  have sl: "same_links (c_net s) (c_net s1)" using s1(3) by (simp add: moves_def)
  then have nx: "nf_next (n_store (c_net s1) x) = nf_next (n_store (c_net s) x)" for x by (simp add: same_links_def)
  have "chain (n_store (c_net s1)) (nf_next (c_netif s1 q)) qs"
    using ch nx chain_cong [of qs "n_store (c_net s1)" "n_store (c_net s)"] by (simp add: c_netif_def)
  from Cons.IH [OF this s1(2)] obtain s2 where s2: "each_netif body (nf_next (c_netif s1 q)) s1 = Some (Inr s2)"
    "client_inv ps s2" "same_links (c_net s1) (c_net s2)" by blast
  have "each_netif body cur s = Some (Inr s2)"
    using cur s1(1) s2(1) by (subst each_netif.simps) simp
  then show ?case using s2 same_links_trans [OF sl] by blast
qed

lemma timers_inv:
  assumes "client_inv ps s" "list_ok (c_net s) qs"
  shows "\<exists>s'. dhcp_coarse_tmr e s = Inr s' \<and> client_inv ps s' \<and> same_links (c_net s) (c_net s')"
    "\<exists>s'. dhcp_fine_tmr e s = Inr s' \<and> client_inv ps s' \<and> same_links (c_net s) (c_net s')"
proof -
  have c: "chain (n_store (c_net s)) (n_list (c_net s)) qs" using assms(2) by (simp add: list_ok_def)
  show "\<exists>s'. dhcp_coarse_tmr e s = Inr s' \<and> client_inv ps s' \<and> same_links (c_net s) (c_net s')"
    using each_netif_inv [of ps "coarse_tick e", OF coarse_tick_inv c assms(1)]
    by (auto simp: dhcp_coarse_tmr_def or_hang_def)
  show "\<exists>s'. dhcp_fine_tmr e s = Inr s' \<and> client_inv ps s' \<and> same_links (c_net s) (c_net s')"
    using each_netif_inv [of ps "fine_tick e", OF fine_tick_inv c assms(1)]
    by (auto simp: dhcp_fine_tmr_def or_hang_def)
qed

section \<open>Replies\<close>

lemma bind_timers_fields [simp]:
  "dc_state (bind_timers d) = dc_state d" "dc_msg_out (bind_timers d) = dc_msg_out d"
  "dc_msg_in (bind_timers d) = dc_msg_in d" "dc_pcb_allocated (bind_timers d) = dc_pcb_allocated d"
  "dc_cb (bind_timers d) = dc_cb d" "dc_lease_used (bind_timers d) = 0"
  "dc_offered_ip (bind_timers d) = dc_offered_ip d" "dc_offered_gw (bind_timers d) = dc_offered_gw d"
  "dc_offered_sn_mask (bind_timers d) = dc_offered_sn_mask d"
  "dc_subnet_mask_given (bind_timers d) = dc_subnet_mask_given d"
  "dc_server_ip (bind_timers d) = dc_server_ip d"
  by (simp_all add: bind_timers_def Let_def)

lemma bind_settled:
  assumes r: "ready p s" and b: "base_ok (c_dhcp s p)"
  shows "settled p s (dhcp_bind p s)"
proof -
  let ?d = "bind_timers (c_dhcp s p)"
  have l: "lease_ok (dhcp_set_state DHCP_STATE_BOUND ?d)"
    by (simp add: lease_ok_def word_neq_0_conv)
  have "base_ok (dhcp_set_state DHCP_STATE_BOUND ?d)" "timer_ok (dhcp_set_state DHCP_STATE_BOUND ?d)"
    using b r l by (simp_all add: base_ok_def timer_ok_def ready_def)
  moreover have "moves p s (dhcp_bind p s)"
  proof -
    obtain ip m gw where f: "dhcp_bind p s =
        call_back p (set_dhcp p (dhcp_set_state DHCP_STATE_BOUND ?d) (c_set_addr p ip m gw (set_dhcp p ?d s)))"
      using ready_dhcp [OF r] by (simp add: dhcp_bind_def Let_def)
    have "moves p s (set_dhcp p ?d s)" by (rule moves_set_dhcp) simp
    from moves_trans [OF this moves_set_addr]
    have m: "moves p s (c_set_addr p ip m gw (set_dhcp p ?d s))" .
    have "moves p s (set_dhcp p (dhcp_set_state DHCP_STATE_BOUND ?d) (c_set_addr p ip m gw (set_dhcp p ?d s)))"
      by (rule moves_trans [OF m moves_set_dhcp]) simp
    from moves_trans [OF this moves_call(2)] show ?thesis by (simp add: f)
  qed
  ultimately show ?thesis
    using ready_dhcp [OF r] by (simp add: settled_def dhcp_bind_def Let_def)
qed

lemma foldl_calls:
  "c_net (foldl (\<lambda>t (n, a). client_call (SetNameServer n a) t) s xs) = c_net s"
  "c_dhcp (foldl (\<lambda>t (n, a). client_call (SetNameServer n a) t) s xs) = c_dhcp s"
  "c_pcb (foldl (\<lambda>t (n, a). client_call (SetNameServer n a) t) s xs) = c_pcb s"
  "c_refcount (foldl (\<lambda>t (n, a). client_call (SetNameServer n a) t) s xs) = c_refcount s"
  "c_rx (foldl (\<lambda>t (n, a). client_call (SetNameServer n a) t) s xs) = c_rx s"
  "c_out (foldl (\<lambda>t (n, a). client_call (SetNameServer n a) t) s xs) = c_out s @ map (\<lambda>(n, a). SetNameServer n a) xs"
  by (induction xs arbitrary: s) auto

lemma handle_ack_moves:
  assumes r: "ready p s" and b: "base_ok (c_dhcp s p)" and m: "dc_msg_in (c_dhcp s p) = Some m"
  shows "\<exists>s'. dhcp_handle_ack p s = Inr s' \<and> moves p s s' \<and> base_ok (c_dhcp s' p) \<and>
    dc_msg_in (c_dhcp s' p) = Some m \<and> dc_state (c_dhcp s' p) = dc_state (c_dhcp s p)"
proof -
  obtain d1 xs where d1: "dhcp_handle_ack p s =
      Inr (foldl (\<lambda>t (n, a). client_call (SetNameServer n a) t) (set_dhcp p d1 s) xs)"
    "dc_msg_in d1 = Some m" "base_ok d1 = base_ok (c_dhcp s p)" "dc_pcb_allocated d1 = dc_pcb_allocated (c_dhcp s p)"
    "dc_state d1 = dc_state (c_dhcp s p)"
    using ready_dhcp [OF r] m
    by (simp add: dhcp_handle_ack_def with_dhcp_def Let_def base_ok_def lease_ok_def)
  show ?thesis
    unfolding d1(1) using d1(2-5) b by (simp add: moves_def foldl_calls c_netif_def)
qed

lemma handle_nak_steps:
  assumes r: "ready p s" and b: "base_ok (c_dhcp s p)"
  shows "steps_to p s (dhcp_handle_nak e p s)"
proof -
  define s1 where "s1 = call_back p (c_set_addr p 0 0 0 s)"
  define s2 where "s2 = set_dhcp p (dhcp_set_state DHCP_STATE_BACKING_OFF (c_dhcp s1 p)) s1"
  have m1: "moves p s s1" unfolding s1_def using moves_trans moves_set_addr moves_call(2) by blast
  have d1: "c_dhcp s1 = c_dhcp s" by (simp add: s1_def)
  have m2: "moves p s s2" unfolding s2_def
    by (rule moves_trans [OF m1 moves_set_dhcp]) simp
  have d2: "c_dhcp s2 p = dhcp_set_state DHCP_STATE_BACKING_OFF (c_dhcp s p)" by (simp add: s2_def d1)
  have "ready p s2" by (rule ready_moves [OF r m2]) (use b in \<open>simp add: d2 base_ok_def\<close>)
  moreover have "lease_ok (c_dhcp s2 p)" using b by (simp add: d2 base_ok_def lease_ok_def)
  ultimately have "steps_to p s2 (bindE (dhcp_discover e p s2) (\<lambda>(_, s3). Inr s3))"
    using settles_steps [OF settles(1)] by blast
  then have "steps_to p s (bindE (dhcp_discover e p s2) (\<lambda>(_, s3). Inr s3))"
    by (rule steps_after [OF m2, rotated]) (simp add: d2)
  then show ?thesis
    using ready_dhcp [OF r] by (simp add: dhcp_handle_nak_def with_dhcp_def Let_def s1_def s2_def)
qed

lemma handle_offer_steps:
  assumes r: "ready p s" and b: "base_ok (c_dhcp s p)" and m: "dc_msg_in (c_dhcp s p) = Some m"
    and g: "dhcp_option_given DHCP_OPTION_IDX_SERVER_ID (c_rx s)"
  shows "steps_to p s (dhcp_handle_offer e p s)"
proof -
  define d where "d = (c_dhcp s p)\<lparr>dc_server_ip :=
      lwip_htonl (dhcp_get_option_value DHCP_OPTION_IDX_SERVER_ID (c_rx s)), dc_offered_ip := msg_yiaddr m\<rparr>"
  have mv: "moves p s (set_dhcp p d s)" by (rule moves_set_dhcp) (simp add: d_def)
  have "ready p (set_dhcp p d s)" by (rule ready_moves [OF r mv]) (use b in \<open>simp add: d_def base_ok_def\<close>)
  moreover have "lease_ok d" using b by (simp add: d_def base_ok_def lease_ok_def)
  ultimately have "steps_to p (set_dhcp p d s) (bindE (dhcp_select e p (set_dhcp p d s)) (\<lambda>(_, s2). Inr s2))"
    using settles_steps [OF settles(2)] by simp
  then have "steps_to p s (bindE (dhcp_select e p (set_dhcp p d s)) (\<lambda>(_, s2). Inr s2))"
    by (rule steps_after [OF mv, rotated]) (simp add: d_def)
  then show ?thesis
    using ready_dhcp [OF r] m g by (simp add: dhcp_handle_offer_def with_dhcp_def Let_def d_def)
qed

definition offer_named :: "rx_options \<Rightarrow> bool" where
  \<comment> \<open>if it is an offer, it names its server\<close>
  "offer_named r \<longleftrightarrow>
     (dhcp_option_given DHCP_OPTION_IDX_MSG_TYPE r \<and>
      ucast (dhcp_get_option_value DHCP_OPTION_IDX_MSG_TYPE r) = DHCP_OFFER \<longrightarrow>
      dhcp_option_given DHCP_OPTION_IDX_SERVER_ID r)"

lemma handle_reply_steps:
  assumes r: "ready p s" and b: "base_ok (c_dhcp s p)" and t: "timer_ok (c_dhcp s p)"
    and m: "dc_msg_in (c_dhcp s p) = Some m" and o: "offer_named (c_rx s)"
  shows "steps_to p s (handle_reply e p s)"
proof -
  define ty where "ty = (ucast (dhcp_get_option_value DHCP_OPTION_IDX_MSG_TYPE (c_rx s)) :: u8)"
  define st where "st = dc_state (c_dhcp s p)"
  have same: "steps_to p s (Inr s)" using b t by (simp add: steps_to_def settled_def)
  have bind: "steps_to p s (Inr (dhcp_bind p s))" using bind_settled [OF r b] by (simp add: steps_to_def)
  have ack: "steps_to p s (bindE (dhcp_handle_ack p s) (\<lambda>s1. Inr (dhcp_bind p s1)))"
  proof -
    obtain s1 where s1: "dhcp_handle_ack p s = Inr s1" "moves p s s1" "base_ok (c_dhcp s1 p)"
      "dc_msg_in (c_dhcp s1 p) = Some m" using handle_ack_moves [OF r b m] by blast
    have "ready p s1" by (rule ready_moves [OF r s1(2)]) (use s1(3) in \<open>simp add: base_ok_def\<close>)
    from bind_settled [OF this s1(3)] have "steps_to p s1 (Inr (dhcp_bind p s1))" by (simp add: steps_to_def)
    then have "steps_to p s (Inr (dhcp_bind p s1))" by (rule steps_after [OF s1(2), rotated]) (simp add: s1 m)
    then show ?thesis by (simp add: s1)
  qed
  have off: "steps_to p s (dhcp_handle_offer e p (set_dhcp p ((c_dhcp s p)\<lparr>dc_request_timeout := 0\<rparr>) s))"
    if g: "dhcp_option_given DHCP_OPTION_IDX_SERVER_ID (c_rx s)"
  proof -
    let ?d = "(c_dhcp s p)\<lparr>dc_request_timeout := 0\<rparr>"
    have mv: "moves p s (set_dhcp p ?d s)" by (rule moves_set_dhcp) simp
    have bd: "base_ok ?d" using b by (simp add: base_ok_def lease_ok_def)
    have rd: "ready p (set_dhcp p ?d s)" by (rule ready_moves [OF r mv]) (use bd in \<open>simp add: base_ok_def\<close>)
    have "steps_to p (set_dhcp p ?d s) (dhcp_handle_offer e p (set_dhcp p ?d s))"
      by (rule handle_offer_steps [OF rd, where m = m]) (use bd m g in simp_all)
    then show ?thesis by (rule steps_after [OF mv, rotated]) simp
  qed
  have "handle_reply e p s =
    (if \<not> dhcp_option_given DHCP_OPTION_IDX_MSG_TYPE (c_rx s) then Inr s
     else if ty = DHCP_ACK then
       (if st = DHCP_STATE_REQUESTING then bindE (dhcp_handle_ack p s) (\<lambda>s1. Inr (dhcp_bind p s1))
        else if st \<in> {DHCP_STATE_REBOOTING, DHCP_STATE_REBINDING, DHCP_STATE_RENEWING} then Inr (dhcp_bind p s)
        else Inr s)
     else if ty = DHCP_NAK \<and>
       st \<in> {DHCP_STATE_REBOOTING, DHCP_STATE_REQUESTING, DHCP_STATE_REBINDING, DHCP_STATE_RENEWING}
     then dhcp_handle_nak e p s
     else if ty = DHCP_OFFER \<and> st = DHCP_STATE_SELECTING
     then dhcp_handle_offer e p (set_dhcp p ((c_dhcp s p)\<lparr>dc_request_timeout := 0\<rparr>) s)
     else Inr s)"
    unfolding handle_reply_def Let_def ty_def st_def by (rule refl)
  moreover have "dhcp_option_given DHCP_OPTION_IDX_SERVER_ID (c_rx s)"
    if "dhcp_option_given DHCP_OPTION_IDX_MSG_TYPE (c_rx s)" "ty = DHCP_OFFER"
    using o that by (simp add: offer_named_def ty_def)
  ultimately show ?thesis using same bind ack off handle_nak_steps [OF r b, of e] by simp
qed

definition reply_sane :: "chain \<Rightarrow> rx_options \<Rightarrow> bool" where
  \<comment> \<open>no option spans a whole buffer, nothing is overloaded, an offer names its server\<close>
  "reply_sane pk r \<longleftrightarrow> wide_chain pk \<and> length (concat pk) \<le> 65000 \<and>
     (let x = snd (read_reply (concat pk) r) in
      \<not> dhcp_option_given DHCP_OPTION_IDX_OVERLOAD x \<and> offer_named x)"

definition takes_reply :: "dhcpc \<Rightarrow> nptr \<Rightarrow> chain \<Rightarrow> bool" where
  \<comment> \<open>the tests of \<open>dhcp_recv\<close> before it parses\<close>
  "takes_reply s p pk \<longleftrightarrow> dc_pcb_allocated (c_dhcp s p) \<and> 44 \<le> length (hd pk) \<and> for_us (c_netif s p) (c_dhcp s p) (hd pk)"

lemma free_reply_inv:
  assumes "dhcp_ok ((c_dhcp s p)\<lparr>dc_msg_in := None\<rparr>)" "nf_dhcp (c_netif s p)"
  shows "\<exists>s'. free_reply p s = Inr s' \<and> moves p s s' \<and> dhcp_ok (c_dhcp s' p)"
  using assms by (simp add: free_reply_def with_dhcp_def moves_def)

lemma dhcp_recv_inv:
  assumes i: "client_inv ps s" and nd: "nf_dhcp (c_netif s p)" and sane: "takes_reply s p pk \<Longrightarrow> reply_sane pk (c_rx s)"
  shows "\<exists>s'. dhcp_recv e p pk s = Inr s' \<and> client_inv ps s' \<and> moves p s s'"
proof -
  have dk: "dhcp_ok (c_dhcp s p)" using inv_dhcp [OF i nd] by blast
  then have mi: "dc_msg_in (c_dhcp s p) = None" by (simp add: dhcp_ok_def)
  have goal: "\<exists>s'. res = Inr s' \<and> client_inv ps s' \<and> moves p s s'"
    if h: "\<exists>s1. moves p s s1 \<and> base_ok (c_dhcp s1 p) \<and> timer_ok (c_dhcp s1 p) \<and> res = free_reply p s1" for res
  proof -
    obtain s1 where s1: "moves p s s1" "base_ok (c_dhcp s1 p)" "timer_ok (c_dhcp s1 p)" "res = free_reply p s1"
      using h by blast
    have "dhcp_ok ((c_dhcp s1 p)\<lparr>dc_msg_in := None\<rparr>)"
      using s1(2,3) by (simp add: dhcp_ok_def base_ok_def timer_ok_def lease_ok_def)
    moreover have "nf_dhcp (c_netif s1 p)" using s1(1) nd by (simp add: moves_def)
    ultimately obtain s2 where s2: "free_reply p s1 = Inr s2" "moves p s1 s2" "dhcp_ok (c_dhcp s2 p)"
      using free_reply_inv by blast
    have mv: "moves p s s2" by (rule moves_trans [OF s1(1) s2(2)])
    then show ?thesis using moves_inv [OF i mv] s2 s1(4) by simp
  qed
  have keep: "\<exists>s1. moves p s s1 \<and> base_ok (c_dhcp s1 p) \<and> timer_ok (c_dhcp s1 p) \<and> free_reply p s = free_reply p s1"
    using dk by (intro exI [of _ s]) (simp add: dhcp_ok_def)
  show ?thesis
  proof (cases "dc_pcb_allocated (c_dhcp s p) \<and> \<not> (length (hd pk) < 44 \<or> \<not> for_us (c_netif s p) (c_dhcp s p) (hd pk))")
    case False
    then have "dhcp_recv e p pk s = free_reply p s" using nd mi by (auto simp: dhcp_recv_def Let_def)
    then show ?thesis using goal [OF keep] by simp
  next
    case True
    then have hold: "holds s p" using nd by (simp add: holds_def)
    have sane: "reply_sane pk (c_rx s)" by (rule sane) (use True in \<open>simp add: takes_reply_def\<close>)
    define x where "x = read_reply (concat pk) (c_rx s)"
    define d1 where "d1 = (c_dhcp s p)\<lparr>dc_msg_in := Some (hd pk)\<rparr>"
    have ps: "dhcp_parse_reply pk (c_dhcp s p) (c_rx s) = Inr (fst x, d1, snd x)"
      unfolding x_def d1_def
      by (rule parse_reply_flat) (use sane True in \<open>simp_all add: reply_sane_def Let_def del: length_concat\<close>)
    define s1 where "s1 = (set_dhcp p d1 s)\<lparr>c_rx := snd x\<rparr>"
    have c1: "c_dhcp s1 p = d1" "c_rx s1 = snd x" by (simp_all add: s1_def)
    have mv: "moves p s s1" by (simp add: s1_def moves_def d1_def c_netif_def)
    have b1: "base_ok d1" "timer_ok d1" using dk by (simp_all add: d1_def dhcp_ok_def base_ok_def timer_ok_def lease_ok_def)
    have rv: "dhcp_recv e p pk s = (if fst x \<noteq> ERR_OK then free_reply p s1
        else bindE (handle_reply e p s1) (free_reply p))"
      using True nd mi ps by (auto simp: dhcp_recv_def Let_def s1_def)
    show ?thesis
    proof (cases "fst x = ERR_OK")
      case False
      then show ?thesis using goal [of "free_reply p s1"] rv mv b1 c1 by auto
    next
      case True
      have r1: "ready p s1" by (rule ready_moves [OF inv_ready [OF i hold] mv]) (use b1 in \<open>simp add: c1 base_ok_def\<close>)
      have on: "offer_named (c_rx s1)" using sane by (simp add: c1 x_def reply_sane_def Let_def)
      have "steps_to p s1 (handle_reply e p s1)"
        by (rule handle_reply_steps [OF r1 _ _ _ on, where m = "hd pk"]) (use b1 in \<open>simp_all add: c1 d1_def\<close>)
      then obtain s2 where s2: "handle_reply e p s1 = Inr s2" "settled p s1 s2" by (auto simp: steps_to_def)
      have "moves p s s2" using moves_trans [OF mv] s2(2) by (simp add: settled_def)
      then show ?thesis using goal [of "free_reply p s2"] rv True s2 by (auto simp: settled_def)
    qed
  qed
qed

end
