(* ===== verification/Dhcp_Client_Api.thy ===== *)
theory Dhcp_Client_Api
  imports Dhcp_Client_Ops
begin

text \<open>
  What other parts call of the DHCP client: taking and giving up the UDP block, starting, stopping,
  informing, a changed network. Together with the timers and replies these are the operations of the
  client; a run of the client is a sequence of them.
\<close>

section \<open>Taking and giving up the UDP block\<close>

lemma inv_refcount:
  assumes "client_inv ps s"
  shows "unat (c_refcount s) < 255" "finite {p. holds s p}"
proof -
  have f: "finite ps" "{p. holds s p} \<subseteq> ps" "card ps < 255" "unat (c_refcount s) = card {p. holds s p}"
    using assms by (simp_all add: client_inv_def)
  then show "finite {p. holds s p}" using finite_subset by blast
  show "unat (c_refcount s) < 255" using f card_mono [OF f(1,2)] by simp
qed

lemma u8_suc: "unat (x :: u8) < 255 \<Longrightarrow> unat (x + 1) = unat x + 1"
  by (simp add: unat_word_ariths)

lemma u8_pred: "x \<noteq> (0 :: u8) \<Longrightarrow> unat (x - 1) = unat x - 1"
  by (simp add: unat_minus_one)

lemma others_ok:
  assumes "client_inv ps s" "\<forall>q. nf_dhcp (c_netif s' q) = nf_dhcp (c_netif s q) \<and>
      nf_hostname (c_netif s' q) = nf_hostname (c_netif s q)"
    "\<forall>q. q \<noteq> p \<longrightarrow> c_dhcp s' q = c_dhcp s q" "nf_dhcp (c_netif s p) \<longrightarrow> dhcp_ok (c_dhcp s' p)"
  shows "\<forall>q. nf_dhcp (c_netif s' q) \<longrightarrow> dhcp_ok (c_dhcp s' q) \<and> length (nf_hostname (c_netif s' q)) \<le> 32"
  using assms inv_dhcp by metis

lemma dec_inv:
  assumes i: "client_inv ps s" and h: "holds s p" and d: "dhcp_ok d" "\<not> dc_pcb_allocated d"
  shows "\<exists>s1. dhcp_dec_pcb_refcount s = Inr s1 \<and> client_inv ps (set_dhcp p d s1) \<and> c_net s1 = c_net s \<and>
    c_dhcp s1 = c_dhcp s"
proof -
  have pos: "0 < c_refcount s" "c_pcb s" using inv_pcb [OF i h] by blast+
  then have nz: "c_refcount s \<noteq> 0" by auto
  define s1 where "s1 = (if c_refcount s - 1 = 0
    then (client_call ClientPcbRemove (s\<lparr>c_refcount := c_refcount s - 1\<rparr>))\<lparr>c_pcb := False\<rparr>
    else s\<lparr>c_refcount := c_refcount s - 1\<rparr>)"
  have dec: "dhcp_dec_pcb_refcount s = Inr s1" using pos by (simp add: dhcp_dec_pcb_refcount_def Let_def s1_def)
  have f: "c_net s1 = c_net s" "c_dhcp s1 = c_dhcp s" "c_refcount s1 = c_refcount s - 1"
    "c_pcb s1 = (c_refcount s1 \<noteq> 0)"
    using pos by (simp_all add: s1_def)
  let ?t = "set_dhcp p d s1"
  have cn: "c_netif s1 = c_netif s" by (simp add: c_netif_def f fun_eq_iff)
  have "holds ?t q \<longleftrightarrow> holds s q \<and> q \<noteq> p" for q
    using d(2) by (cases "q = p") (simp_all add: holds_def cn f)
  then have hs: "{q. holds ?t q} = {q. holds s q} - {p}" by auto
  have "client_inv ps ?t"
    unfolding client_inv_def
  proof (intro conjI)
    show "finite ps" "card ps < 255" "{q. holds ?t q} \<subseteq> ps" using i hs by (auto simp: client_inv_def)
    show "unat (c_refcount ?t) = card {q. holds ?t q}"
      using u8_pred [OF nz] i h inv_refcount(2) [OF i] by (simp add: hs f client_inv_def)
    show "c_pcb ?t = (c_refcount ?t \<noteq> 0)" by (simp add: f(4))
    show "\<forall>q. nf_dhcp (c_netif ?t q) \<longrightarrow> dhcp_ok (c_dhcp ?t q) \<and> length (nf_hostname (c_netif ?t q)) \<le> 32"
      by (rule others_ok [OF i, of _ p]) (simp_all add: cn d f)
  qed
  with dec f show ?thesis by blast
qed

lemma inc_inv:
  assumes i: "client_inv ps s" and h: "\<not> holds s p" "nf_dhcp (c_netif s p)" "p \<in> ps"
    and d: "dhcp_ok d" "dc_pcb_allocated d"
  shows "\<exists>err s1. dhcp_inc_pcb_refcount e s = Inr (err, s1) \<and>
    (if err = ERR_OK then client_inv ps (set_dhcp p d s1) else client_inv ps s1) \<and>
    c_net s1 = c_net s \<and> c_dhcp s1 = c_dhcp s"
proof -
  have cp: "c_pcb s = (c_refcount s \<noteq> 0)" using i by (simp add: client_inv_def)
  have ok: "client_inv ps (set_dhcp p d s1)"
    if f: "c_net s1 = c_net s" "c_dhcp s1 = c_dhcp s" "c_refcount s1 = c_refcount s + 1" "c_pcb s1" for s1
  proof -
    let ?t = "set_dhcp p d s1"
    have cn: "c_netif s1 = c_netif s" by (simp add: c_netif_def f fun_eq_iff)
    have u: "unat (c_refcount s + 1) = unat (c_refcount s) + 1" by (rule u8_suc [OF inv_refcount(1) [OF i]])
    have "holds ?t q \<longleftrightarrow> holds s q \<or> q = p" for q
      using d(2) h(2) by (cases "q = p") (simp_all add: holds_def cn f)
    then have hs: "{q. holds ?t q} = insert p {q. holds s q}" by auto
    show ?thesis
      unfolding client_inv_def
    proof (intro conjI)
      show "finite ps" "card ps < 255" "{q. holds ?t q} \<subseteq> ps" using i hs h(3) by (auto simp: client_inv_def)
      show "unat (c_refcount ?t) = card {q. holds ?t q}"
        using u i h(1) inv_refcount(2) [OF i] by (simp add: hs f client_inv_def)
      have "c_refcount s + 1 \<noteq> 0" using u by (metis Suc_eq_plus1 nat.distinct(1) unat_0)
      then show "c_pcb ?t = (c_refcount ?t \<noteq> 0)" by (simp add: f)
      show "\<forall>q. nf_dhcp (c_netif ?t q) \<longrightarrow> dhcp_ok (c_dhcp ?t q) \<and> length (nf_hostname (c_netif ?t q)) \<le> 32"
        by (rule others_ok [OF i, of _ p]) (simp_all add: cn d f)
    qed
  qed
  show ?thesis
  proof (cases "c_refcount s = 0 \<and> \<not> ce_udp e (c_asked s)")
    case True
    have "moves p s (asked s)" by (simp add: moves_def asked_def c_netif_def)
    then have "client_inv ps (asked s)" by (rule moves_inv [OF i]) (use inv_dhcp [OF i] in \<open>simp add: asked_def\<close>)
    moreover have "dhcp_inc_pcb_refcount e s = Inr (ERR_MEM, asked s)"
      using True cp by (simp add: dhcp_inc_pcb_refcount_def)
    ultimately show ?thesis by (simp add: dhcp_errors) (simp add: asked_def)
  next
    case False
    define s1 where "s1 = (if c_refcount s = 0
      then (client_call ClientPcbNew (asked s))\<lparr>c_pcb := True, c_refcount := c_refcount s + 1\<rparr>
      else s\<lparr>c_refcount := c_refcount s + 1\<rparr>)"
    have inc: "dhcp_inc_pcb_refcount e s = Inr (ERR_OK, s1)"
      using False cp by (simp add: dhcp_inc_pcb_refcount_def s1_def)
    have f: "c_net s1 = c_net s" "c_dhcp s1 = c_dhcp s" "c_refcount s1 = c_refcount s + 1" "c_pcb s1"
      using cp by (simp_all add: s1_def asked_def)
    show ?thesis using inc ok [OF f] f by simp
  qed
qed

section \<open>Starting and stopping\<close>

lemma dhcp_zero_ok [simp]:
  "dhcp_ok dhcp_zero" "\<not> dc_pcb_allocated dhcp_zero" "dhcp_ok (dhcp_zero\<lparr>dc_pcb_allocated := True\<rparr>)"
  by (simp_all add: dhcp_ok_def base_ok_def timer_ok_def lease_ok_def dhcp_zero_def)

lemma stop_inv:
  assumes i: "client_inv ps s"
  shows "\<exists>s'. dhcp_stop_netif (Some p) s = Inr s' \<and> client_inv ps s' \<and> c_net s' = c_net s \<and> \<not> holds s' p"
proof (cases "nf_dhcp (c_netif s p)")
  case False
  then show ?thesis using i by (simp add: dhcp_stop_netif_def holds_def)
next
  case nd: True
  define d where "d = dhcp_set_state DHCP_STATE_OFF (c_dhcp s p)"
  have dk: "dhcp_ok (c_dhcp s p)" using inv_dhcp [OF i nd] by blast
  then have d: "dhcp_ok d" by (simp add: d_def dhcp_ok_def base_ok_def timer_ok_def lease_ok_def)
  then have mi: "dc_msg_in d = None" by (simp add: dhcp_ok_def)
  show ?thesis
  proof (cases "dc_pcb_allocated (c_dhcp s p)")
    case True
    then have h: "holds s p" using nd by (simp add: holds_def)
    have d2: "dhcp_ok (d\<lparr>dc_pcb_allocated := False\<rparr>)"
      using d by (simp add: d_def dhcp_ok_def base_ok_def timer_ok_def lease_ok_def)
    obtain s1 where s1: "dhcp_dec_pcb_refcount s = Inr s1" "client_inv ps (set_dhcp p (d\<lparr>dc_pcb_allocated := False\<rparr>) s1)"
      "c_net s1 = c_net s" using dec_inv [OF i h d2] by auto
    have "dhcp_stop_netif (Some p) s = Inr (set_dhcp p (d\<lparr>dc_pcb_allocated := False\<rparr>) s1)"
      using nd True mi s1(1) by (simp add: dhcp_stop_netif_def Let_def d_def)
    then show ?thesis using s1 by (simp add: holds_def)
  next
    case False
    have mv: "moves p s (set_dhcp p d s)" by (rule moves_set_dhcp) (simp add: d_def)
    have "client_inv ps (set_dhcp p d s)" by (rule moves_inv [OF i mv]) (simp add: d)
    moreover have "dhcp_stop_netif (Some p) s = Inr (set_dhcp p d s)"
      using nd False mi by (simp add: dhcp_stop_netif_def Let_def d_def)
    ultimately show ?thesis using False by (simp add: holds_def d_def)
  qed
qed

lemma attach_fields [simp]:
  "c_dhcp (attach p b s) = c_dhcp s" "c_pcb (attach p b s) = c_pcb s" "c_refcount (attach p b s) = c_refcount s"
  "nf_dhcp (c_netif (attach p b s) q) = (if q = p then b else nf_dhcp (c_netif s q))"
  "nf_hostname (c_netif (attach p b s) q) = nf_hostname (c_netif s q)"
  "same_links (c_net s) (c_net (attach p b s))"
  by (simp_all add: attach_def c_netif_def same_links_def)

lemma attach_inv:
  assumes i: "client_inv ps s" and nd: "\<not> nf_dhcp (c_netif s p)" and hn: "length (nf_hostname (c_netif s p)) \<le> 32"
  shows "client_inv ps (set_dhcp p dhcp_zero (attach p True s))"
proof -
  let ?t = "set_dhcp p dhcp_zero (attach p True s)"
  have tn: "c_netif ?t = c_netif (attach p True s)" by simp
  have td: "c_dhcp ?t q = (if q = p then dhcp_zero else c_dhcp s q)" for q by simp
  have "holds ?t q = holds s q" for q
    using nd by (cases "q = p") (simp_all add: holds_def tn td del: set_dhcp_fields)
  moreover have "dhcp_ok (c_dhcp ?t q) \<and> length (nf_hostname (c_netif ?t q)) \<le> 32" if "nf_dhcp (c_netif ?t q)" for q
    using that hn inv_dhcp [OF i, of q] by (cases "q = p") simp_all
  ultimately show ?thesis using i by (simp add: client_inv_def)
qed

lemma detach_inv:
  assumes i: "client_inv ps s" and nh: "\<not> holds s p"
  shows "client_inv ps (attach p False s)"
proof -
  have "holds (attach p False s) q = holds s q" for q using nh by (simp add: holds_def)
  moreover have "dhcp_ok (c_dhcp (attach p False s) q) \<and> length (nf_hostname (c_netif (attach p False s) q)) \<le> 32"
    if "nf_dhcp (c_netif (attach p False s) q)" for q
    using that inv_dhcp [OF i, of q] by (simp split: if_splits)
  ultimately show ?thesis using i by (simp add: client_inv_def)
qed

lemma asked_inv: "client_inv ps s \<Longrightarrow> client_inv ps (asked s) \<and> c_net (asked s) = c_net s"
  by (simp add: client_inv_def holds_def asked_def c_netif_def)

lemma get_struct_inv:
  assumes i: "client_inv ps s" and hn: "length (nf_hostname (c_netif s p)) \<le> 32"
  shows "\<exists>got s1. get_struct e p s = Inr (got, s1) \<and> same_links (c_net s) (c_net s1) \<and>
    (if got then client_inv ps (set_dhcp p dhcp_zero s1) \<and> nf_dhcp (c_netif s1 p) else client_inv ps s1)"
proof (cases "nf_dhcp (c_netif s p)")
  case False
  have a: "client_inv ps (asked s)" "c_netif (asked s) = c_netif s" "same_links (c_net s) (c_net (asked s))"
    using asked_inv [OF i] by (simp_all add: c_netif_def fun_eq_iff)
  have "client_inv ps (set_dhcp p dhcp_zero (attach p True (asked s)))"
    by (rule attach_inv [OF a(1)]) (use False hn in \<open>simp_all add: a\<close>)
  moreover have "same_links (c_net s) (c_net (attach p True (asked s)))"
    using same_links_trans [OF a(3)] by simp
  ultimately show ?thesis using False a
    by (intro exI [of _ "ce_malloc e (c_asked s)"]) (simp add: get_struct_def)
next
  case nd: True
  have dk: "dc_msg_out (c_dhcp s p) = None" "dc_msg_in (c_dhcp s p) = None"
    using inv_dhcp [OF i nd] by (simp_all add: dhcp_ok_def base_ok_def)
  show ?thesis
  proof (cases "dc_pcb_allocated (c_dhcp s p)")
    case True
    then have h: "holds s p" using nd by (simp add: holds_def)
    obtain s1 where s1: "dhcp_dec_pcb_refcount s = Inr s1" "client_inv ps (set_dhcp p dhcp_zero s1)"
      "c_net s1 = c_net s" using dec_inv [OF i h dhcp_zero_ok(1,2)] by blast
    then show ?thesis using nd dk True
      by (intro exI [of _ True] exI [of _ s1]) (simp add: get_struct_def c_netif_def)
  next
    case False
    have "client_inv ps (set_dhcp p dhcp_zero s)"
      by (rule moves_inv [OF i moves_set_dhcp]) (use False in simp_all)
    then show ?thesis using nd dk False by (intro exI [of _ True] exI [of _ s]) (simp add: get_struct_def)
  qed
qed

lemma start_inv:
  assumes i: "client_inv ps s" and p: "p \<in> ps" and hn: "length (nf_hostname (c_netif s p)) \<le> 32"
  shows "\<exists>err s'. dhcp_start_netif e (Some p) s = Inr (err, s') \<and> client_inv ps s' \<and> same_links (c_net s) (c_net s')"
proof (cases "netif_is_up (Some p) (c_net s) \<and> flag_set NETIF_FLAG_ETHARP (c_netif s p) \<and>
    \<not> nf_mtu (c_netif s p) < DHCP_MAX_MSG_LEN_MIN_REQUIRED")
  case False
  then show ?thesis using i by (auto simp: dhcp_start_netif_def)
next
  case up: True
  obtain got s1 where g: "get_struct e p s = Inr (got, s1)" "same_links (c_net s) (c_net s1)"
    "if got then client_inv ps (set_dhcp p dhcp_zero s1) \<and> nf_dhcp (c_netif s1 p) else client_inv ps s1"
    using get_struct_inv [OF i hn] by blast
  show ?thesis
  proof (cases got)
    case False
    then show ?thesis using up g by (simp add: dhcp_start_netif_def)
  next
    case True
    let ?d = "dhcp_zero\<lparr>dc_pcb_allocated := True\<rparr>"
    define t where "t = set_dhcp p dhcp_zero s1"
    have t: "client_inv ps t" "nf_dhcp (c_netif t p)" "\<not> holds t p" "same_links (c_net s) (c_net t)"
      using g True by (simp_all add: t_def holds_def)
    obtain err s2 where s2: "dhcp_inc_pcb_refcount e t = Inr (err, s2)"
      "if err = ERR_OK then client_inv ps (set_dhcp p ?d s2) else client_inv ps s2"
      "c_net s2 = c_net t" using inc_inv [OF t(1,3,2) p dhcp_zero_ok(3), of e] by auto
    show ?thesis
    proof (cases "err = ERR_OK")
      case False
      then have "dhcp_start_netif e (Some p) s = Inr (ERR_MEM, s2)"
        using up g(1) True s2(1) by (simp add: dhcp_start_netif_def t_def)
      then show ?thesis using s2 False t(4) by simp
    next
      case ok: True
      define u where "u = set_dhcp p ?d s2"
      have u: "client_inv ps u" "holds u p" "c_net u = c_net t" "c_dhcp u p = ?d"
        using s2 ok t(2) by (simp_all add: u_def holds_def c_netif_def)
      have l: "lease_ok (c_dhcp u p)" by (simp add: u lease_ok_def dhcp_zero_def)
      obtain err3 s3 where s3: "dhcp_discover e p u = Inr (err3, s3)" "settled p u s3" "c_net s3 = c_net u"
        using settles(1) [OF inv_ready [OF u(1,2)] l, of e] by (auto simp: settles_in_def)
      have nu: "nf_dhcp (c_netif u p)" using u(2) by (simp add: holds_def)
      have i3: "client_inv ps s3"
        using steps_inv [OF u(1), of p "Inr s3"] s3(2) nu by (auto simp: steps_to_def)
      obtain s4 where s4: "dhcp_stop_netif (Some p) s3 = Inr s4" "client_inv ps s4" "c_net s4 = c_net s3"
        using stop_inv [OF i3] by blast
      have st: "dhcp_start_netif e (Some p) s = (if err3 \<noteq> ERR_OK then Inr (ERR_MEM, s4) else Inr (err3, s3))"
        using up g(1) True s2(1) ok s3(1) s4(1) by (simp add: dhcp_start_netif_def t_def u_def)
      show ?thesis unfolding st using i3 s4 s3(3) u(3) t(4) by simp
    qed
  qed
qed

section \<open>The other calls\<close>

lemma release_inv:
  assumes i: "client_inv ps s"
  shows "\<exists>err s'. dhcp_release_netif e p s = Inr (err, s') \<and> client_inv ps s' \<and> same_links (c_net s) (c_net s')"
proof (cases "nf_dhcp (c_netif s p)")
  case False
  then show ?thesis using i by (simp add: dhcp_release_netif_def)
next
  case nd: True
  show ?thesis
  proof (cases "holds s p")
    case True
    obtain err s' where s': "dhcp_release_netif e p s = Inr (err, s')" "settled p s s'"
      using release_settles [OF inv_ready [OF i True], of e] by blast
    then show ?thesis using steps_inv [OF i, of p "Inr s'"] nd by (auto simp: steps_to_def moves_def)
  next
    case False
    then have off: "dc_state (c_dhcp s p) = DHCP_STATE_OFF" by (rule off_unless_holds [OF i nd])
    let ?d = "forget_offer (dhcp_set_state DHCP_STATE_OFF (c_dhcp s p))"
    have "dhcp_ok ?d"
      using inv_dhcp [OF i nd] by (simp add: dhcp_ok_def base_ok_def timer_ok_def lease_ok_def)
    then have "client_inv ps (set_dhcp p ?d s)" by (intro moves_inv [OF i moves_set_dhcp]) simp_all
    then show ?thesis using nd off by (simp add: dhcp_release_netif_def dhcp_supplied_address_def)
  qed
qed

lemma inform_inv:
  assumes i: "client_inv ps s"
  shows "\<exists>s'. dhcp_inform e (Some p) s = Inr s' \<and> client_inv ps s' \<and> c_net s' = c_net s"
proof -
  have cp: "c_pcb s = (c_refcount s \<noteq> 0)" using i by (simp add: client_inv_def)
  have u: "unat (c_refcount s + 1) = unat (c_refcount s) + 1" by (rule u8_suc [OF inv_refcount(1) [OF i]])
  then have nz: "c_refcount s + 1 \<noteq> 0" by (metis Suc_eq_plus1 nat.distinct(1) unat_0)
  show ?thesis
  proof (cases "c_refcount s = 0 \<and> \<not> ce_udp e (c_asked s)")
    case True
    then have "dhcp_inc_pcb_refcount e s = Inr (ERR_MEM, asked s)"
      using cp by (simp add: dhcp_inc_pcb_refcount_def)
    then show ?thesis using asked_inv [OF i] by (simp add: dhcp_inform_def dhcp_errors)
  next
    case False
    define s1 where "s1 = (if c_refcount s = 0
      then (client_call ClientPcbNew (asked s))\<lparr>c_pcb := True, c_refcount := c_refcount s + 1\<rparr>
      else s\<lparr>c_refcount := c_refcount s + 1\<rparr>)"
    have inc: "dhcp_inc_pcb_refcount e s = Inr (ERR_OK, s1)"
      using False cp by (simp add: dhcp_inc_pcb_refcount_def s1_def)
    have f: "c_net s1 = c_net s" "c_dhcp s1 = c_dhcp s" "c_refcount s1 = c_refcount s + 1" "c_pcb s1"
      using cp by (simp_all add: s1_def asked_def)
    let ?d = "dhcp_set_state DHCP_STATE_INFORMING dhcp_zero"
    have "\<exists>err x l s2. dhcp_message e p DHCP_INFORM (max_msg_size_option (mtu_short s p))
        (\<lambda>m. SendToIf m IPADDR_BROADCAST DHCP_SERVER_PORT p) ?d s1 =
          Inr (err, ?d\<lparr>dc_xid := x, dc_options_out_len := l\<rparr>, s2) \<and>
        calm s1 s2 \<and> (err = ERR_OK \<longleftrightarrow> ce_pbuf e (c_asked s1)) \<and> err \<in> {ERR_OK, ERR_MEM}"
      by (rule dhcp_message_calm [OF max_msg_size_appends _ _ _ f(4)]) (simp_all add: dhcp_zero_def)
    then obtain err x l s2 where m: "dhcp_message e p DHCP_INFORM (max_msg_size_option (mtu_short s p))
        (\<lambda>m. SendToIf m IPADDR_BROADCAST DHCP_SERVER_PORT p) ?d s1 =
          Inr (err, ?d\<lparr>dc_xid := x, dc_options_out_len := l\<rparr>, s2)" "calm s1 s2" by blast
    note c = calm_fields [OF m(2)]
    have pos: "0 < c_refcount s2" using c f nz by (simp add: word_neq_0_conv)
    define s3 where "s3 = (if c_refcount s = 0
      then (client_call ClientPcbRemove (s2\<lparr>c_refcount := c_refcount s\<rparr>))\<lparr>c_pcb := False\<rparr>
      else s2\<lparr>c_refcount := c_refcount s\<rparr>)"
    have dec: "dhcp_dec_pcb_refcount s2 = Inr s3"
      using pos c f by (simp add: dhcp_dec_pcb_refcount_def Let_def s3_def)
    have g: "c_net s3 = c_net s" "c_dhcp s3 = c_dhcp s" "c_refcount s3 = c_refcount s" "c_pcb s3 = c_pcb s"
      using c f cp by (simp_all add: s3_def)
    have "moves p s s3" using g by (simp add: moves_def c_netif_def)
    then have "client_inv ps s3" by (rule moves_inv [OF i]) (use inv_dhcp [OF i] g in simp)
    moreover have "dhcp_inform e (Some p) s = Inr s3"
      using inc m(1) dec by (simp add: dhcp_inform_def)
    ultimately show ?thesis using g by simp
  qed
qed

lemma network_changed_inv:
  assumes i: "client_inv ps s"
  shows "\<exists>s'. dhcp_network_changed e p s = Inr s' \<and> client_inv ps s' \<and> moves p s s'"
proof (cases "nf_dhcp (c_netif s p) \<and> dc_state (c_dhcp s p) \<noteq> DHCP_STATE_OFF")
  case False
  then show ?thesis using i by (auto simp: dhcp_network_changed_def Let_def)
next
  case True
  then have nd: "nf_dhcp (c_netif s p)" by blast
  have hold: "holds s p" using off_unless_holds [OF i nd] True by blast
  have dk: "dhcp_ok (c_dhcp s p)" using inv_dhcp [OF i nd] by blast
  let ?t = "set_dhcp p ((c_dhcp s p)\<lparr>dc_tries := 0\<rparr>) s"
  have mv: "moves p s ?t" by (rule moves_set_dhcp) simp
  have r: "ready p ?t"
    by (rule ready_moves [OF inv_ready [OF i hold] mv]) (use dk in \<open>simp add: dhcp_ok_def base_ok_def\<close>)
  have l: "lease_ok (c_dhcp ?t p)" using dk by (simp add: dhcp_ok_def base_ok_def lease_ok_def)
  have st: "steps_to p s (bindE (dhcp_reboot e p ?t) (\<lambda>(_, s2). Inr s2))"
    "steps_to p s (bindE (dhcp_discover e p ?t) (\<lambda>(_, s2). Inr s2))"
    using settles_steps [OF settles(5) [OF r l]] settles_steps [OF settles(1) [OF r l]] steps_after [OF mv] by simp_all
  have "steps_to p s (dhcp_network_changed e p s)"
    using st True by (simp add: dhcp_network_changed_def Let_def)
  from steps_inv [OF i this nd] show ?thesis .
qed

section \<open>Runs\<close>

datatype client_op =
    OpStart nptr | OpStop nptr | OpRelease nptr | OpCleanup nptr | OpSetCb nptr bool | OpSetStruct nptr
  | OpInform nptr | OpNetworkChanged nptr | OpCoarse | OpFine | OpRecv nptr chain

fun exec_client :: "dhcpc_env \<Rightarrow> client_op \<Rightarrow> dhcpc \<Rightarrow> dhcpc result" where
  "exec_client e (OpStart p) s = bindE (dhcp_start_netif e (Some p) s) (\<lambda>(_, s'). Inr s')"
| "exec_client e (OpStop p) s = dhcp_stop_netif (Some p) s"
| "exec_client e (OpRelease p) s = bindE (dhcp_release_netif e p s) (\<lambda>(_, s'). Inr s')"
| "exec_client e (OpCleanup p) s = dhcp_cleanup_netif (Some p) s"
| "exec_client e (OpSetCb p b) s = dhcp_set_cb_netif (Some p) b s"
| "exec_client e (OpSetStruct p) s = dhcp_set_struct (Some p) True s"
| "exec_client e (OpInform p) s = dhcp_inform e (Some p) s"
| "exec_client e (OpNetworkChanged p) s = dhcp_network_changed e p s"
| "exec_client e OpCoarse s = dhcp_coarse_tmr e s"
| "exec_client e OpFine s = dhcp_fine_tmr e s"
| "exec_client e (OpRecv p pk) s = dhcp_recv e p pk s"

text \<open>
  What the callers and the network have to keep to: clients are started on the interfaces of a set, with
  hostnames of at most 32 characters; a client is detached only when it does not hold the UDP block;
  \<open>dhcp_set_struct\<close> is for interfaces without a client; packets come only to interfaces with a client, and
  a reply that the client takes as its own is \<open>reply_sane\<close>.
\<close>

fun op_allowed :: "nptr set \<Rightarrow> dhcpc \<Rightarrow> client_op \<Rightarrow> bool" where
  "op_allowed ps s (OpStart p) \<longleftrightarrow> p \<in> ps \<and> length (nf_hostname (c_netif s p)) \<le> 32"
| "op_allowed ps s (OpCleanup p) \<longleftrightarrow> \<not> holds s p"
| "op_allowed ps s (OpSetStruct p) \<longleftrightarrow> \<not> nf_dhcp (c_netif s p) \<and> length (nf_hostname (c_netif s p)) \<le> 32"
| "op_allowed ps s (OpRecv p pk) \<longleftrightarrow> nf_dhcp (c_netif s p) \<and> (takes_reply s p pk \<longrightarrow> reply_sane pk (c_rx s))"
| "op_allowed ps s _ \<longleftrightarrow> True"

lemma exec_client_inv:
  assumes i: "client_inv ps s" and l: "list_ok (c_net s) qs" and a: "op_allowed ps s op"
  shows "\<exists>s'. exec_client e op s = Inr s' \<and> client_inv ps s' \<and> same_links (c_net s) (c_net s')"
proof (cases op)
  case (OpStart p)
  then show ?thesis using start_inv [OF i, of p e] a by auto
next
  case (OpStop p)
  then show ?thesis using stop_inv [OF i, of p] by auto
next
  case (OpRelease p)
  then show ?thesis using release_inv [OF i, of e p] by auto
next
  case (OpCleanup p)
  then show ?thesis using detach_inv [OF i, of p] i a by (simp add: dhcp_cleanup_netif_def)
next
  case (OpSetCb p b)
  have "client_inv ps (set_dhcp p ((c_dhcp s p)\<lparr>dc_cb := b\<rparr>) s)" if nd: "nf_dhcp (c_netif s p)"
    by (rule moves_inv [OF i moves_set_dhcp])
      (use inv_dhcp [OF i nd] in \<open>simp_all add: dhcp_ok_def base_ok_def timer_ok_def lease_ok_def\<close>)
  then show ?thesis using i OpSetCb by (simp add: dhcp_set_cb_netif_def)
next
  case (OpSetStruct p)
  have e: "attach p True (set_dhcp p dhcp_zero s) = set_dhcp p dhcp_zero (attach p True s)"
    by (simp add: attach_def set_dhcp_def)
  have "client_inv ps (attach p True (set_dhcp p dhcp_zero s))"
    unfolding e by (rule attach_inv [OF i]) (use a OpSetStruct in simp_all)
  moreover have "same_links (c_net s) (c_net (attach p True (set_dhcp p dhcp_zero s)))"
    unfolding e by simp
  ultimately show ?thesis using a OpSetStruct by (simp add: dhcp_set_struct_def)
next
  case (OpInform p)
  then show ?thesis using inform_inv [OF i, of e p] by auto
next
  case (OpNetworkChanged p)
  then show ?thesis using network_changed_inv [OF i, of e p] by (auto simp: moves_def)
next
  case OpCoarse
  then show ?thesis using timers_inv(1) [OF i l, of e] by simp
next
  case OpFine
  then show ?thesis using timers_inv(2) [OF i l, of e] by simp
next
  case (OpRecv p pk)
  then show ?thesis using dhcp_recv_inv [OF i, of p pk e] a by (auto simp: moves_def)
qed

end
