(* ===== verification/Dhcp_Client_Props.thy ===== *)
theory Dhcp_Client_Props
  imports Dhcp_Client_Api
begin

text \<open>
  What the DHCP client guarantees, and where it does not do what it means to: with sane replies no run of
  it violates an assertion and whoever waits is woken, and a reply cut into wide buffers is read like a
  flat one; and the replies and expiries with which it goes wrong.
\<close>

section \<open>Runs from the start\<close>

inductive client_reaches :: "dhcpc_env \<Rightarrow> nptr set \<Rightarrow> dhcpc \<Rightarrow> dhcpc \<Rightarrow> bool" for e ps s0 where
  client_start: "client_reaches e ps s0 s0"
| client_step: "client_reaches e ps s0 s \<Longrightarrow> op_allowed ps s op \<Longrightarrow> exec_client e op s = Inr s' \<Longrightarrow>
    client_reaches e ps s0 s'"

definition client_initial :: "nptr list \<Rightarrow> dhcpc \<Rightarrow> bool" where
  \<comment> \<open>a proper interface list, no client attached, the statics zero\<close>
  "client_initial qs s \<longleftrightarrow> list_ok (c_net s) qs \<and> (\<forall>p. \<not> nf_dhcp (c_netif s p)) \<and> \<not> c_pcb s \<and> c_refcount s = 0"

definition woken :: "dhcp \<Rightarrow> bool" where
  \<comment> \<open>no message is left over, and a client that waits for an answer has a running timer\<close>
  "woken d \<longleftrightarrow> dc_msg_out d = None \<and> dc_msg_in d = None \<and>
     (dc_state d \<in> {DHCP_STATE_SELECTING, DHCP_STATE_REQUESTING, DHCP_STATE_REBOOTING, DHCP_STATE_BACKING_OFF} \<longrightarrow>
      dc_request_timeout d \<noteq> 0) \<and>
     (dc_t0_timeout d \<noteq> 0 \<longrightarrow> dc_lease_used d < dc_t0_timeout d)"

lemma ok_woken: "dhcp_ok d \<Longrightarrow> woken d"
  by (simp add: dhcp_ok_def base_ok_def timer_ok_def lease_ok_def woken_def)

lemma client_initial_inv:
  "client_initial qs s \<Longrightarrow> finite ps \<Longrightarrow> card ps < 255 \<Longrightarrow> client_inv ps s"
  by (simp add: client_initial_def client_inv_def holds_def)

lemma reaches_inv:
  assumes "client_reaches e ps s0 s" "client_initial qs s0" "finite ps" "card ps < 255"
  shows "client_inv ps s \<and> list_ok (c_net s) qs"
  using assms
proof (induction rule: client_reaches.induct)
  case client_start
  then show ?case using client_initial_inv by (auto simp: client_initial_def)
next
  case (client_step s op s')
  then have i: "client_inv ps s" "list_ok (c_net s) qs" by blast+
  obtain s'' where s'': "exec_client e op s = Inr s''" "client_inv ps s''" "same_links (c_net s) (c_net s'')"
    using exec_client_inv [OF i client_step.hyps(2), of e] by blast
  then have "s'' = s'" using client_step.hyps(3) by simp
  then show ?case using s'' i(2) list_ok_links by blast
qed

lemma inv_counts:
  assumes "client_inv ps s"
  shows "c_pcb s = (\<exists>p. holds s p)" "unat (c_refcount s) = card {p. holds s p}"
proof -
  show u: "unat (c_refcount s) = card {p. holds s p}" using assms by (simp add: client_inv_def)
  have "c_pcb s = (c_refcount s \<noteq> 0)" using assms by (simp add: client_inv_def)
  also have "\<dots> = (card {p. holds s p} \<noteq> 0)" using u by (metis unat_eq_zero)
  also have "\<dots> = (\<exists>p. holds s p)" using inv_refcount(2) [OF assms] by auto
  finally show "c_pcb s = (\<exists>p. holds s p)" .
qed

text \<open>
  C5. In every run of allowed operations of the DHCP client from a state with no client attached, the next
  allowed operation returns, whatever memory there is: no assertion fails, no null pointer is used and no loop
  hangs. After it, the UDP block exists exactly while a client holds it and the count is the number of
  those clients; every attached client has no message left over, a running timer if it waits for an
  answer, and a lease that has not run out. The operations - starting, stopping, releasing, detaching,
  informing, both timers and packets, in any order - are allowed (\<open>op_allowed\<close>) on fewer than 255
  interfaces with hostnames of at most 32 characters, detaching for a client that does not hold the
  block, \<open>dhcp_set_struct\<close> for an interface without a client, and packets for an interface with a client; a
  packet that the client takes for its own reply has at most 65000 bytes in buffers of which no one is
  empty and those between the first and the last have 257 bytes or more, does not overload the file or server
  name field, and names its server if it is an offer. What goes wrong otherwise is shown by
  \<open>overloaded_file_faults\<close>, \<open>offer_without_server_stalls\<close> and \<open>narrow_buffers_overread\<close>.
\<close>

theorem client_never_fails:
  assumes "client_initial qs s0" "finite ps" "card ps < 255" "client_reaches e ps s0 s" "op_allowed ps s op"
  shows "\<exists>s'. exec_client e op s = Inr s' \<and> c_pcb s' = (\<exists>p. holds s' p) \<and>
    unat (c_refcount s') = card {p. holds s' p} \<and>
    (\<forall>p. nf_dhcp (c_netif s' p) \<longrightarrow> woken (c_dhcp s' p))"
proof -
  note i = reaches_inv [OF assms(4,1-3)]
  obtain s' where s': "exec_client e op s = Inr s'" "client_inv ps s'"
    using exec_client_inv [of ps s qs op e] i assms(5) by blast
  then show ?thesis using inv_counts [OF s'(2)] inv_dhcp [OF s'(2)] ok_woken by blast
qed

definition client_net :: nstate where
  \<comment> \<open>one interface, up\<close>
  "client_net = net_initial\<lparr>n_store := (\<lambda>_. netif_zero\<lparr>nf_flags := 0x2f, nf_mtu := 1500,
     nf_hwaddr := [2, 0, 0, 0, 0, 1], nf_hostname := ''sprite''\<rparr>), n_list := Some 0, n_default := Some 0\<rparr>"

definition client_zero :: dhcpc where
  "client_zero = \<lparr>c_net = client_net, c_dhcp = (\<lambda>_. dhcp_zero), c_xid = 0, c_pcb = False, c_refcount = 0,
     c_rx = rx_initial, c_asked = 0, c_out = []\<rparr>"

definition client_env :: dhcpc_env where
  "client_env = \<lparr>ce_pbuf = (\<lambda>_. True), ce_udp = (\<lambda>_. True), ce_malloc = (\<lambda>_. True), ce_rand = (\<lambda>n. of_nat n)\<rparr>"

lemma client_zero_initial: "client_initial [0] client_zero"
  by (simp add: client_initial_def client_zero_def client_net_def net_initial_def c_netif_def list_ok_def netif_zero_def)

theorem client_never_fails_witness:
  "\<exists>s1 s'. exec_client client_env (OpStart 0) client_zero = Inr s1 \<and> exec_client client_env OpFine s1 = Inr s' \<and>
     c_pcb s' = (\<exists>p. holds s' p)"
proof -
  have a: "op_allowed {0} client_zero (OpStart 0)"
    by (simp add: client_zero_def client_net_def c_netif_def)
  note t = client_never_fails [OF client_zero_initial, of "{0}" client_env]
  obtain s1 where s1: "exec_client client_env (OpStart 0) client_zero = Inr s1"
    using t [OF _ _ client_start a] by auto
  have "client_reaches client_env {0} client_zero s1" by (rule client_step [OF client_start a s1])
  then show ?thesis using t [of s1 OpFine] s1 by auto
qed

section \<open>Reading a reply\<close>

text \<open>
  C6. Into how many wide buffers a reply is cut, and where, does not change what is read: if the packet has
  at most 65000 bytes, the first buffer at least the 44 bytes up to the server name, no buffer is empty,
  every one between the first and the last has at least 257 bytes (the longest option), and the options do
  not go on in the file or server name field, then \<open>dhcp_parse_reply\<close> gives the error and the options that a
  reader of the whole packet as one list of bytes gives. With a narrow buffer in the middle the code can
  read behind its end (\<open>narrow_buffers_overread\<close>).
\<close>

theorem reply_cut_irrelevant:
  assumes "wide_chain p" "length (concat p) \<le> 65000" "44 \<le> length (hd p)"
    and "\<not> dhcp_option_given DHCP_OPTION_IDX_OVERLOAD (snd (read_reply (concat p) r))"
  shows "dhcp_parse_reply p d r =
    Inr (fst (read_reply (concat p) r), d\<lparr>dc_msg_in := Some (hd p)\<rparr>, snd (read_reply (concat p) r))"
  using assms by (rule parse_reply_flat)


definition cut_reply :: chain where
  \<comment> \<open>an offer's type cut behind its length byte\<close>
  "cut_reply = [replicate 240 0 @ [53], [1, 2, 255]]"

lemma read_cut_reply:
  "read_reply (concat cut_reply) rx_initial =
     (ERR_OK, dhcp_set_option_value 1 2 (dhcp_got_option 1 (dhcp_clear_all_options rx_initial)))"
proof -
  have d: "drop 240 (concat cut_reply) = [53, 1, 2, 255]" by (simp add: cut_reply_def)
  have l: "length (concat cut_reply) = 244" by (simp add: cut_reply_def)
  show ?thesis
    unfolding read_reply_def d l
    by (simp add: read_opts.simps read_value.simps option_plan_def dhcp_opts dhcp_idx second_byte_def
        dhcp_option_given_def dhcp_clear_all_options_def rx_initial_def of_le_bytes_def le_bytes_def
        ip4_addr1_def ip4_addr2_def ip4_addr3_def ip4_addr4_def dhcp_errors)
qed

theorem reply_cut_irrelevant_witness:
  "dhcp_parse_reply cut_reply dhcp_zero rx_initial =
     Inr (ERR_OK, dhcp_zero\<lparr>dc_msg_in := Some (replicate 240 0 @ [53])\<rparr>,
       dhcp_set_option_value 1 2 (dhcp_got_option 1 (dhcp_clear_all_options rx_initial)))"
proof -
  have w: "wide_chain cut_reply" "length (concat cut_reply) \<le> 65000" "44 \<le> length (hd cut_reply)"
    by (simp_all add: wide_chain_def cut_reply_def)
  have o: "\<not> dhcp_option_given DHCP_OPTION_IDX_OVERLOAD (snd (read_reply (concat cut_reply) rx_initial))"
    by (simp add: read_cut_reply dhcp_option_given_def dhcp_set_option_value_def dhcp_got_option_def
        dhcp_clear_all_options_def dhcp_idx)
  show ?thesis
    using reply_cut_irrelevant [OF w o, of dhcp_zero] unfolding read_cut_reply by (simp add: cut_reply_def)
qed

text \<open>
  The loop over the options goes to the next buffer at most once after an option. With a buffer in the
  middle that is shorter than an option the loop reads behind the end of that buffer: here a host name of
  three bytes goes over a buffer of one byte.
\<close>

definition narrow_reply :: chain where
  "narrow_reply = [replicate 240 0 @ [12, 3], [97], [98, 99, 53, 1, 2, 255]]"

lemma narrow_buffers_overread:
  "\<not> wide_chain narrow_reply \<and> dhcp_parse_reply narrow_reply d r = Inl BufferOverflow"
proof -
  let ?q = "replicate 240 0 @ [12, 3 :: byte]" and ?rest = "[[97], [98, 99, 53, 1, 2, 255 :: byte]]"
  have pl: "option_plan 12 l = Some (0, 11)" for l by (simp add: option_plan_def dhcp_opts dhcp_idx)
  have b: "option_body ?q ?rest 240 249 x = Inr (ParseNext ?rest 3 7 x)" for x
    by (simp add: option_body_def option_len_byte_def next_option_def DHCP_OPTION_PAD_def pl Let_def nth_append)
  have "reply_options (?q # ?rest) 240 249 x = reply_options ?rest 3 7 x" for x
    by (subst reply_options.simps) (simp add: b DHCP_OPTION_END_def nth_append)
  moreover have "reply_options ?rest 3 7 x = Some (Inl BufferOverflow)" for x
    by (subst reply_options.simps) simp
  ultimately have "reply_areas narrow_reply False False 240 249 x = Some (Inl BufferOverflow)" for x
    by (subst reply_areas.simps) (simp add: narrow_reply_def)
  moreover have "of_nat (length (concat narrow_reply)) = (249 :: u16)" by (simp add: narrow_reply_def)
  moreover have "\<not> length (hd narrow_reply) < DHCP_SNAME_OFS" by (simp add: narrow_reply_def dhcp_sizes)
  ultimately have "dhcp_parse_reply narrow_reply d r = Inl BufferOverflow"
    by (simp only: dhcp_parse_reply_def Let_def if_False) (simp add: dhcp_sizes)
  then show ?thesis by (simp add: wide_chain_def narrow_reply_def)
qed

section \<open>Waiting for offers\<close>

lemma set_dhcp_same [simp]: "set_dhcp p (c_dhcp s p) s = s"
  by (simp add: set_dhcp_def)

lemma discover_again:
  assumes m: "may_send s p" and st: "dc_state (c_dhcp s p) = DHCP_STATE_SELECTING" "dc_tries (c_dhcp s p) \<noteq> 0"
    and mem: "ce_pbuf e (c_asked s)"
  defines "d \<equiv> (c_dhcp s p)\<lparr>dc_offered_ip := 0, dc_xid := c_xid s, dc_msg_out := None, dc_options_out_len := 68\<rparr>"
  shows "dhcp_discover e p s =
    Inr (ERR_OK, set_dhcp p (set_request_timeout (backoff 250 (dc_tries (count_try d))) (count_try d))
      (client_call (SendToIfSrc (dhcp_header (c_netif s p) d DHCP_DISCOVER @
          message_options DHCP_DISCOVER (discover_bytes (mtu_short s p) (nf_hostname (c_netif s p))))
        IPADDR_BROADCAST DHCP_SERVER_PORT p) (asked s)))"
proof -
  have s: "nf_dhcp (c_netif s p)" "dc_msg_out (c_dhcp s p) = None" "c_pcb s" "length (nf_hostname (c_netif s p)) \<le> 32"
    using m by (simp_all add: may_send_def)
  note o = may_send_options(1) [OF m, of "mtu_short s p"] and l = dhcp_message_bytes(1) [OF s(4), of "mtu_short s p"]
  have "dhcp_set_state DHCP_STATE_SELECTING ((c_dhcp s p)\<lparr>dc_offered_ip := 0\<rparr>) = (c_dhcp s p)\<lparr>dc_offered_ip := 0\<rparr>"
    using st by (simp add: dhcp_set_state_def)
  moreover have "take_xid e DHCP_DISCOVER ((c_dhcp s p)\<lparr>dc_offered_ip := 0\<rparr>) (asked s) =
      ((c_dhcp s p)\<lparr>dc_offered_ip := 0, dc_xid := c_xid s\<rparr>, asked s)"
    using st by (simp add: take_xid_def dhcp_types asked_def)
  ultimately show ?thesis
    using dhcp_message_sends [OF o _ l _ s(3), of "(c_dhcp s p)\<lparr>dc_offered_ip := 0\<rparr>" e p DHCP_DISCOVER] mem s
    by (simp add: dhcp_discover_def with_dhcp_def after_try_def Let_def d_def dhcp_header_def)
qed


fun fine_ticks :: "dhcpc_env \<Rightarrow> nptr \<Rightarrow> nat \<Rightarrow> dhcpc \<Rightarrow> dhcpc result" where
  "fine_ticks e p 0 s = Inr s"
| "fine_ticks e p (Suc n) s = bindE (fine_tick e p s) (fine_ticks e p n)"

lemma fine_ticks_add: "fine_ticks e p (m + n) s = bindE (fine_ticks e p m s) (fine_ticks e p n)"
proof (induction m arbitrary: s)
  case (Suc m)
  then have "fine_ticks e p (m + n) = (\<lambda>x. bindE (fine_ticks e p m x) (fine_ticks e p n))" by (simp add: fun_eq_iff)
  then show ?case by (simp add: bindE_assoc)
qed simp

lemma u16_less_minus: "1 < (x :: u16) \<Longrightarrow> unat (x - 1) = unat x - 1"
  by (rule unat_minus_one) auto

lemma fine_ticks_wait:
  assumes "nf_dhcp (c_netif s p)" "n < unat (dc_request_timeout (c_dhcp s p))"
  shows "\<exists>t. fine_ticks e p n s = Inr (set_dhcp p ((c_dhcp s p)\<lparr>dc_request_timeout := t\<rparr>) s) \<and>
    unat t = unat (dc_request_timeout (c_dhcp s p)) - n"
  using assms
proof (induction n arbitrary: s)
  case 0
  then show ?case by (intro exI [of _ "dc_request_timeout (c_dhcp s p)"]) simp
next
  case (Suc n)
  let ?t = "dc_request_timeout (c_dhcp s p)"
  let ?s = "set_dhcp p ((c_dhcp s p)\<lparr>dc_request_timeout := ?t - 1\<rparr>) s"
  have g: "1 < ?t" using Suc.prems(2) by (simp add: word_less_nat_alt)
  have "fine_tick e p s = Inr ?s" using g Suc.prems(1) by (simp add: fine_tick_def Let_def)
  moreover have "n < unat (dc_request_timeout (c_dhcp ?s p))" using u16_less_minus [OF g] Suc.prems(2) by simp
  ultimately show ?case using Suc.IH [of ?s] Suc.prems u16_less_minus [OF g] by auto
qed

definition discover_wait :: "nat \<Rightarrow> nat" where
  \<comment> \<open>ticks of 500 ms after this try\<close>
  "discover_wait n = (if n < 6 then 2 ^ (n - 1) else 30)"

lemma discover_timeout:
  assumes "0 < t"
  shows "unat (dc_request_timeout (set_request_timeout (backoff 250 t) d)) = discover_wait (unat t)"
proof -
  have u: "unat (backoff 250 t) = (if t < 6 then 2 ^ unat t else 60) * 250" using backoff_unat(1) [OF assms] by simp
  have pos: "0 < unat (backoff 250 t)" using backoff_unat(2) [OF assms] by simp
  have t0: "0 < unat t" using assms by (simp add: word_less_nat_alt)
  have q: "((if t < 6 then 2 ^ unat t else 60) * 250 + 499) div 500 = discover_wait (unat t)"
  proof (cases "unat t < 6")
    case True
    then have lt: "t < 6" by (simp add: word_less_nat_alt)
    have "unat t \<in> {1, 2, 3, 4, 5}" using True t0 by auto
    then show ?thesis using lt by (auto simp: discover_wait_def)
  next
    case False
    then have "\<not> t < 6" by (simp add: word_less_nat_alt)
    then show ?thesis using False by (simp add: discover_wait_def)
  qed
  have "discover_wait (unat t) < 65536"
  proof -
    have "discover_wait (unat t) \<le> 60 * 250" unfolding discover_wait_def
    proof (split if_split, intro conjI impI)
      assume "unat t < 6"
      then have "(2::nat) ^ (unat t - 1) \<le> 2 ^ 5" by (intro power_increasing) simp_all
      then show "(2::nat) ^ (unat t - 1) \<le> 60 * 250" by simp
    qed simp
    then show ?thesis by simp
  qed
  then show ?thesis
    using request_ticks(1) [OF u [symmetric, THEN sym] pos [unfolded u], of d] by (simp add: q u16_small)
qed


fun discover_ticks :: "nat \<Rightarrow> nat \<Rightarrow> nat" where
  \<comment> \<open>after so many tries, the ticks until that many further messages\<close>
  "discover_ticks t 0 = 0"
| "discover_ticks t (Suc k) = discover_wait t + discover_ticks (min 255 (Suc t)) k"

definition discover_call :: "dhcpc \<Rightarrow> nptr \<Rightarrow> dhcpc_call" where
  \<comment> \<open>the DISCOVER of this state's identifier\<close>
  "discover_call s p =
     SendToIfSrc (dhcp_header (c_netif s p) (dhcp_zero\<lparr>dc_xid := c_xid s\<rparr>) DHCP_DISCOVER @
        message_options DHCP_DISCOVER (discover_bytes (mtu_short s p) (nf_hostname (c_netif s p))))
       IPADDR_BROADCAST DHCP_SERVER_PORT p"

lemma discover_header:
  "dhcp_header n d DHCP_DISCOVER = dhcp_header n (dhcp_zero\<lparr>dc_xid := dc_xid d\<rparr>) DHCP_DISCOVER"
  by (simp add: dhcp_header_def dhcp_types)

lemma count_try_tries: "unat (dc_tries (count_try d)) = min 255 (Suc (unat (dc_tries d)))"
proof (cases "dc_tries d < 255")
  case True
  then have "unat (dc_tries d) < 255" by (simp add: word_less_nat_alt)
  with True u8_suc [OF this] show ?thesis by (simp add: count_try_def)
next
  case False
  then have "255 \<le> unat (dc_tries d)" by (simp add: word_less_nat_alt)
  moreover have "unat (dc_tries d) < 2 ^ LENGTH(8)" by (rule unsigned_less)
  ultimately show ?thesis using False by (simp add: count_try_def)
qed

definition searching :: "nptr \<Rightarrow> dhcpc \<Rightarrow> bool" where
  \<comment> \<open>after a DISCOVER that was sent\<close>
  "searching p s \<longleftrightarrow> may_send s p \<and> dc_state (c_dhcp s p) = DHCP_STATE_SELECTING \<and> dc_tries (c_dhcp s p) \<noteq> 0 \<and>
     unat (dc_request_timeout (c_dhcp s p)) = discover_wait (unat (dc_tries (c_dhcp s p)))"

lemma discover_round:
  assumes w: "searching p s" and mem: "\<And>n. ce_pbuf e n"
  shows "\<exists>s'. fine_ticks e p (discover_wait (unat (dc_tries (c_dhcp s p)))) s = Inr s' \<and> searching p s' \<and>
    c_out s' = c_out s @ [discover_call s p] \<and> discover_call s' p = discover_call s p \<and>
    unat (dc_tries (c_dhcp s' p)) = min 255 (Suc (unat (dc_tries (c_dhcp s p))))"
proof -
  let ?d = "c_dhcp s p"
  have w': "nf_dhcp (c_netif s p)" "dc_msg_out ?d = None" "c_pcb s" "length (nf_hostname (c_netif s p)) \<le> 32"
    "dc_state ?d = DHCP_STATE_SELECTING" "dc_tries ?d \<noteq> 0"
    and n: "discover_wait (unat (dc_tries ?d)) = unat (dc_request_timeout ?d)"
    using w by (simp_all add: searching_def may_send_def)
  have "0 < discover_wait (unat (dc_tries ?d))" by (simp add: discover_wait_def)
  then obtain m where m: "unat (dc_request_timeout ?d) = Suc m" using n gr0_implies_Suc by metis
  obtain t where t: "fine_ticks e p m s = Inr (set_dhcp p (?d\<lparr>dc_request_timeout := t\<rparr>) s)" "unat t = 1"
    using fine_ticks_wait [of s p m e] w'(1) m by auto
  have t1: "t = 1" using t(2) by (metis unat_1 word_unat_eq_iff)
  let ?u = "set_dhcp p (?d\<lparr>dc_request_timeout := 0\<rparr>) s"
  have mu: "may_send ?u p" "dc_state (c_dhcp ?u p) = DHCP_STATE_SELECTING" "dc_tries (c_dhcp ?u p) \<noteq> 0"
    using w' by (simp_all add: may_send_def)
  define d where "d = (c_dhcp ?u p)\<lparr>dc_offered_ip := 0, dc_xid := c_xid ?u, dc_msg_out := None, dc_options_out_len := 68\<rparr>"
  define d' where "d' = set_request_timeout (backoff 250 (dc_tries (count_try d))) (count_try d)"
  define s' where "s' = set_dhcp p d' (client_call (discover_call s p) (asked ?u))"
  have cx: "c_xid ?u = c_xid s" "mtu_short ?u p = mtu_short s p" by (simp_all add: set_dhcp_def mtu_short_def c_netif_def)
  have h: "dhcp_header (c_netif s p) d DHCP_DISCOVER = dhcp_header (c_netif s p) (dhcp_zero\<lparr>dc_xid := c_xid s\<rparr>) DHCP_DISCOVER"
    by (subst discover_header) (simp add: d_def cx)
  have dis: "dhcp_discover e p ?u = Inr (ERR_OK, s')"
    using discover_again [OF mu, of e] mem unfolding d_def [symmetric]
    by (simp add: s'_def d'_def discover_call_def h cx)
  have "fine_tick e p (set_dhcp p (?d\<lparr>dc_request_timeout := t\<rparr>) s) = dhcp_timeout e p ?u"
    using w'(1) by (simp add: fine_tick_def Let_def t1)
  also have "\<dots> = Inr s'" using dis mu w'(1) by (simp add: dhcp_timeout_def with_dhcp_def)
  finally have ft: "fine_ticks e p (Suc m) s = Inr s'"
    using fine_ticks_add [of e p m 1 s] t(1) by simp
  have dt: "unat (dc_tries d') = min 255 (Suc (unat (dc_tries ?d)))"
    using count_try_tries [of d] by (simp add: d'_def set_request_timeout_def d_def)
  have dd: "dc_state d' = DHCP_STATE_SELECTING" "dc_msg_out d' = None" "dc_tries d' = dc_tries (count_try d)"
    "unat (dc_request_timeout d') = discover_wait (unat (dc_tries (count_try d)))"
    using mu discover_timeout [OF count_try_pos, of d "count_try d"]
    by (simp_all add: d'_def set_request_timeout_def d_def count_try_def)
  have nz: "dc_tries d' \<noteq> 0" using count_try_pos [of d] dd(3) by auto
  have f: "c_netif s' = c_netif s" "c_pcb s'" "c_dhcp s' p = d'" "c_xid s' = c_xid s"
    "c_out s' = c_out s @ [discover_call s p]"
    using w'(3) by (simp_all add: s'_def asked_def c_netif_def fun_eq_iff set_dhcp_def client_call_def)
  have "mtu_short s' p = mtu_short s p" by (simp add: mtu_short_def f)
  then have "searching p s' \<and> discover_call s' p = discover_call s p"
    using w' f dd nz by (simp add: searching_def may_send_def discover_call_def)
  then show ?thesis using ft m n f dt by simp
qed

text \<open>
  C7. A client that gets no answer keeps asking: with memory, from a DISCOVER that was sent on, the next
  ones follow after 1, 2, 4, 8, 16 and then every 30 ticks of the fine timer (half a second each), for
  ever; every one is the same broadcast message, with the same transaction identifier.
\<close>

theorem discover_schedule:
  assumes "searching p s" "\<forall>n. ce_pbuf e n" "unat (dc_tries (c_dhcp s p)) = t"
  shows "\<exists>s'. fine_ticks e p (discover_ticks t k) s = Inr s' \<and> searching p s' \<and>
    c_out s' = c_out s @ replicate k (discover_call s p)"
  using assms
proof (induction k arbitrary: s t)
  case 0
  then show ?case by simp
next
  case (Suc k)
  obtain s1 where s1: "fine_ticks e p (discover_wait t) s = Inr s1" "searching p s1"
    "c_out s1 = c_out s @ [discover_call s p]" "discover_call s1 p = discover_call s p"
    "unat (dc_tries (c_dhcp s1 p)) = min 255 (Suc t)"
    using discover_round [of p s e] Suc.prems by auto
  obtain s' where s': "fine_ticks e p (discover_ticks (min 255 (Suc t)) k) s1 = Inr s'" "searching p s'"
    "c_out s' = c_out s1 @ replicate k (discover_call s1 p)"
    using Suc.IH [OF s1(2) Suc.prems(2) s1(5)] by blast
  then show ?case using s1 by (auto simp: fine_ticks_add)
qed


definition asking :: dhcpc where
  \<comment> \<open>a client that has sent its first DISCOVER\<close>
  "asking = client_zero
     \<lparr>c_net := upd_nif 0 (\<lambda>n. n\<lparr>nf_dhcp := True\<rparr>) client_net,
      c_dhcp := (\<lambda>_. dhcp_zero\<lparr>dc_pcb_allocated := True, dc_state := DHCP_STATE_SELECTING, dc_tries := 1,
        dc_request_timeout := 1\<rparr>), c_pcb := True, c_refcount := 1\<rparr>"

theorem discover_schedule_witness:
  "\<exists>s'. fine_ticks client_env 0 7 asking = Inr s' \<and> c_out s' = replicate 3 (discover_call asking 0)"
proof -
  have "searching 0 asking"
    by (simp add: searching_def asking_def may_send_def c_netif_def upd_nif_def client_net_def client_zero_def
        dhcp_zero_def discover_wait_def netif_zero_def)
  moreover have "discover_ticks 1 3 = 7" by (simp add: numeral_3_eq_3 discover_wait_def)
  moreover have "\<forall>n. ce_pbuf client_env n" "unat (dc_tries (c_dhcp asking 0)) = 1" "c_out asking = []"
    by (simp_all add: client_env_def asking_def client_zero_def)
  ultimately show ?thesis using discover_schedule [of 0 asking client_env 1 3] by auto
qed

section \<open>Replies that go wrong\<close>

definition reply_for :: "nptr \<Rightarrow> dhcpc \<Rightarrow> byte list \<Rightarrow> bool" where
  \<comment> \<open>a reply in one buffer that the client of this interface takes as its own\<close>
  "reply_for p s m \<longleftrightarrow> nf_dhcp (c_netif s p) \<and> dc_pcb_allocated (c_dhcp s p) \<and> dc_msg_in (c_dhcp s p) = None \<and>
     244 \<le> length m \<and> length m \<le> 65000 \<and> for_us (c_netif s p) (c_dhcp s p) m"

definition handed :: "nptr \<Rightarrow> byte list \<Rightarrow> rx_options \<Rightarrow> dhcpc \<Rightarrow> dhcpc" where
  \<comment> \<open>the state in which a reply is handled\<close>
  "handed p m r s = (set_dhcp p ((c_dhcp s p)\<lparr>dc_msg_in := Some m\<rparr>) s)\<lparr>c_rx := r\<rparr>"

lemma recv_single:
  assumes f: "reply_for p s m" and r: "read_reply m (c_rx s) = (ERR_OK, r)"
    and o: "\<not> dhcp_option_given DHCP_OPTION_IDX_OVERLOAD r"
  shows "dhcp_recv e p [m] s = bindE (handle_reply e p (handed p m r s)) (free_reply p)"
proof -
  have w: "wide_chain [m]" using f by (auto simp: wide_chain_def reply_for_def)
  have "dhcp_parse_reply [m] (c_dhcp s p) (c_rx s) = Inr (ERR_OK, (c_dhcp s p)\<lparr>dc_msg_in := Some m\<rparr>, r)"
    using parse_reply_flat [OF w, of "c_rx s" "c_dhcp s p"] f r o by (simp add: reply_for_def)
  then show ?thesis using f by (simp add: dhcp_recv_def reply_for_def handed_def)
qed

lemma handed_fields [simp]:
  "c_dhcp (handed p m r s) p = (c_dhcp s p)\<lparr>dc_msg_in := Some m\<rparr>" "c_netif (handed p m r s) = c_netif s"
  "c_rx (handed p m r s) = r" "c_net (handed p m r s) = c_net s" "c_out (handed p m r s) = c_out s"
  by (simp_all add: handed_def c_netif_def fun_eq_iff)

text \<open>
  C11. An offer that does not name its server stops the search: the client stops its request timer before
  it looks for the server's address, finds none, and stays in SELECTING without having sent anything; the
  fine timer, which would send the next DISCOVER, does nothing to it from then on. A client whose lease
  times are zero, as on its first search, is not woken by the coarse timer either: it never asks again.
  (One that had a lease before may still be woken when one of the old lease times comes.)
\<close>

theorem offer_without_server_stalls:
  assumes f: "reply_for p s m" and r: "read_reply m (c_rx s) = (ERR_OK, r)"
    and o: "\<not> dhcp_option_given DHCP_OPTION_IDX_OVERLOAD r" "\<not> dhcp_option_given DHCP_OPTION_IDX_SERVER_ID r"
    and t: "dhcp_option_given DHCP_OPTION_IDX_MSG_TYPE r" "dhcp_get_option_value DHCP_OPTION_IDX_MSG_TYPE r = 2"
    and st: "dc_state (c_dhcp s p) = DHCP_STATE_SELECTING"
  shows "\<exists>s'. dhcp_recv e p [m] s = Inr s' \<and> dc_state (c_dhcp s' p) = DHCP_STATE_SELECTING \<and>
    dc_request_timeout (c_dhcp s' p) = 0 \<and> c_out s' = c_out s @ [FreeReply] \<and>
    fine_tick e p s' = Inr s' \<and>
    (dc_t0_timeout (c_dhcp s p) = 0 \<and> dc_t1_renew_time (c_dhcp s p) = 0 \<and> dc_t2_rebind_time (c_dhcp s p) = 0 \<longrightarrow>
      coarse_tick e p s' = Inr s')"
proof -
  have nd: "nf_dhcp (c_netif s p)" using f by (simp add: reply_for_def)
  let ?d = "(c_dhcp s p)\<lparr>dc_request_timeout := 0, dc_msg_in := None\<rparr>"
  let ?s = "client_call FreeReply (set_dhcp p ?d (handed p m r s))"
  have "handle_reply e p (handed p m r s) =
      Inr (set_dhcp p ((c_dhcp s p)\<lparr>dc_msg_in := Some m, dc_request_timeout := 0\<rparr>) (handed p m r s))"
    using st t o nd by (simp add: handle_reply_def Let_def dhcp_types dhcp_handle_offer_def with_dhcp_def)
  then have "dhcp_recv e p [m] s = Inr ?s"
    using recv_single [OF f r o(1), of e] nd by (simp add: free_reply_def with_dhcp_def)
  moreover have "fine_tick e p ?s = Inr ?s" using nd by (simp add: fine_tick_def Let_def)
  moreover have "coarse_tick e p ?s = Inr ?s"
    if fresh: "dc_t0_timeout (c_dhcp s p) = 0" "dc_t1_renew_time (c_dhcp s p) = 0" "dc_t2_rebind_time (c_dhcp s p) = 0"
  proof -
    have d: "c_dhcp ?s p = ?d" by simp
    have same: "set_dhcp p ?d ?s = ?s" using set_dhcp_same [of p ?s] unfolding d .
    show ?thesis using nd st fresh same by (simp add: coarse_tick_def)
  qed
  ultimately show ?thesis using st by simp
qed

lemma bind_timers_msg_in: "bind_timers (d\<lparr>dc_msg_in := x\<rparr>) = (bind_timers d)\<lparr>dc_msg_in := x\<rparr>"
proof -
  define f0 :: "dhcp \<Rightarrow> dhcp" where "f0 = (\<lambda>d. d\<lparr>dc_lease_used := 0\<rparr>)"
  define f1 :: "dhcp \<Rightarrow> dhcp" where "f1 = (\<lambda>d. if dc_offered_t0_lease d \<noteq> 0xffffffff
    then d\<lparr>dc_t0_timeout := (if dc_offered_t0_lease d = 0 then 120 else dc_offered_t0_lease d)\<rparr> else d)"
  define f2 :: "dhcp \<Rightarrow> dhcp" where "f2 = (\<lambda>d. if dc_offered_t1_renew d \<noteq> 0xffffffff
    then let x = (if dc_offered_t1_renew d = 0 then drop_bit 1 (dc_t0_timeout d) else dc_offered_t1_renew d)
         in d\<lparr>dc_t1_timeout := x, dc_t1_renew_time := x\<rparr> else d)"
  define f3 :: "dhcp \<Rightarrow> dhcp" where "f3 = (\<lambda>d. if dc_offered_t2_rebind d \<noteq> 0xffffffff
    then let x = (if dc_offered_t2_rebind d = 0 then drop_bit 3 (dc_t0_timeout d) * 7 else dc_offered_t2_rebind d)
         in d\<lparr>dc_t2_timeout := x, dc_t2_rebind_time := x\<rparr> else d)"
  define f4 :: "dhcp \<Rightarrow> dhcp" where "f4 = (\<lambda>d. if dc_t2_timeout d \<le> dc_t1_timeout d \<and> 0 < dc_t2_timeout d then d\<lparr>dc_t1_timeout := 0\<rparr> else d)"
  have b: "bind_timers d = f4 (f3 (f2 (f1 (f0 d))))" for d :: dhcp
    unfolding bind_timers_def f0_def f1_def f2_def f3_def f4_def Let_def by (rule refl)
  have "f0 (d\<lparr>dc_msg_in := x\<rparr>) = (f0 d)\<lparr>dc_msg_in := x\<rparr>" "f1 (d\<lparr>dc_msg_in := x\<rparr>) = (f1 d)\<lparr>dc_msg_in := x\<rparr>"
    "f2 (d\<lparr>dc_msg_in := x\<rparr>) = (f2 d)\<lparr>dc_msg_in := x\<rparr>" "f3 (d\<lparr>dc_msg_in := x\<rparr>) = (f3 d)\<lparr>dc_msg_in := x\<rparr>"
    "f4 (d\<lparr>dc_msg_in := x\<rparr>) = (f4 d)\<lparr>dc_msg_in := x\<rparr>" for d :: dhcp
    by (simp_all add: f0_def f1_def f2_def f3_def f4_def Let_def)
  then show ?thesis by (simp add: b)
qed
text \<open>
  C10. The answer to a renewal is not read: in RENEWING, REBINDING and REBOOTING an ACK restarts the
  timers of the lease and sets the address with the values of the first ACK, whatever lease time,
  address, mask, router or timers the new one gives; the name servers are not set either.
\<close>

theorem renewal_ignores_lease:
  assumes f: "reply_for p s m" and r: "read_reply m (c_rx s) = (ERR_OK, r)"
    and o: "\<not> dhcp_option_given DHCP_OPTION_IDX_OVERLOAD r"
    and t: "dhcp_option_given DHCP_OPTION_IDX_MSG_TYPE r" "dhcp_get_option_value DHCP_OPTION_IDX_MSG_TYPE r = 5"
    and st: "dc_state (c_dhcp s p) \<in> {DHCP_STATE_RENEWING, DHCP_STATE_REBINDING, DHCP_STATE_REBOOTING}"
  shows "\<exists>s'. dhcp_recv e p [m] s = Inr s' \<and>
    c_dhcp s' p = dhcp_set_state DHCP_STATE_BOUND (bind_timers (c_dhcp s p)) \<and>
    c_net s' = c_net (dhcp_bind p s) \<and>
    c_out s' = c_out s @ (if dc_cb (c_dhcp s p) then [ClientCallback p] else []) @ [FreeReply]"
proof -
  have nd: "nf_dhcp (c_netif s p)" and mi: "dc_msg_in (c_dhcp s p) = None" using f by (simp_all add: reply_for_def)
  let ?h = "handed p m r s"
  note b = bind_timers_msg_in
  have c: "(dhcp_set_state DHCP_STATE_BOUND (d\<lparr>dc_msg_in := x\<rparr>))\<lparr>dc_msg_in := y\<rparr> =
      (dhcp_set_state DHCP_STATE_BOUND d)\<lparr>dc_msg_in := y\<rparr>" for d x y
    by (simp add: dhcp_set_state_def)
  have n: "(dhcp_set_state DHCP_STATE_BOUND (bind_timers (c_dhcp s p)))\<lparr>dc_msg_in := None\<rparr> =
      dhcp_set_state DHCP_STATE_BOUND (bind_timers (c_dhcp s p))"
    using mi by (simp add: dhcp_set_state_def)
  have h: "handle_reply e p ?h = Inr (dhcp_bind p ?h)"
    using st t by (auto simp: handle_reply_def Let_def dhcp_types)
  have nb: "nf_dhcp (c_netif (dhcp_bind p ?h) p)" using nd by (simp add: dhcp_bind_def Let_def)
  have "dhcp_recv e p [m] s =
      Inr (client_call FreeReply (set_dhcp p ((c_dhcp (dhcp_bind p ?h) p)\<lparr>dc_msg_in := None\<rparr>) (dhcp_bind p ?h)))"
    using recv_single [OF f r o, of e] h nb by (simp add: free_reply_def with_dhcp_def)
  moreover have "(c_dhcp (dhcp_bind p ?h) p)\<lparr>dc_msg_in := None\<rparr> = dhcp_set_state DHCP_STATE_BOUND (bind_timers (c_dhcp s p))"
    using nd by (simp add: dhcp_bind_def Let_def b c n)
  moreover have "c_net (dhcp_bind p ?h) = c_net (dhcp_bind p s)"
    using nd by (simp add: dhcp_bind_def Let_def b c_set_addr_def)
  moreover have "c_out (dhcp_bind p ?h) = c_out s @ (if dc_cb (c_dhcp s p) then [ClientCallback p] else [])"
    using nd by (simp add: dhcp_bind_def Let_def b call_back_def)
  ultimately show ?thesis by simp
qed


section \<open>Options in the other fields\<close>

lemma reply_options_loops:
  assumes q: "take 4 (drop n m) = [52, 1, 1, 255 :: byte]" "n + 4 \<le> length m" "n < 60000"
    and mx: "n + 3 < unat mx" "length m \<le> 65000"
    and r: "length (rx_given r) = 11" "\<not> rx_given r ! 0" "length (rx_val r) = 11"
  shows "reply_options [m] (of_nat n) mx r =
    Some (Inr (ERR_OK, dhcp_set_option_value 0 1 (dhcp_got_option 0 r)))"
proof -
  have b: "m ! n = 52" "m ! (n + 1) = 1" "m ! (n + 2) = 1" "m ! (n + 3) = 255"
  proof -
    have k: "m ! (n + k) = [52, 1, 1, 255] ! k" if "k < 4" for k
    proof -
      have "take 4 (drop n m) ! k = m ! (n + k)" using that q(2) by (simp add: nth_append)
      then show ?thesis unfolding q(1) by (rule sym)
    qed
    show "m ! n = 52" "m ! (n + 1) = 1" "m ! (n + 2) = 1" "m ! (n + 3) = 255"
      using k [of 0] k [of 1] k [of 2] k [of 3] by simp_all
  qed
  have u: "unat (of_nat n :: u16) = n" using q(3) by (simp add: u16_small)
  have u2: "unat (of_nat n + 2 :: u16) = n + 2" using u16_add_nat [of "of_nat n" 2] q(3) u by simp
  have u3: "unat (of_nat n + 3 :: u16) = n + 3" using u16_add_nat [of "of_nat n" 3] q(3) u by simp
  have lt: "(of_nat n :: u16) < mx" using u mx by (simp add: word_less_nat_alt)
  have cv: "copy_value [m] 1 (n + 2) 0 = of_le_bytes [1, 0, 0, 0]"
  proof -
    have "take 1 (drop (n + 2) m) = [1]" using q(2) b(3) by (simp add: take_Suc_conv_app_nth take_drop)
    then show ?thesis by (simp add: copy_value_def copy_partial_def le_bytes_def ip4_addr1_def ip4_addr2_def
        ip4_addr3_def ip4_addr4_def)
  qed
  have v: "ucast (ip4_addr1 (of_le_bytes [1, 0, 0, 0])) = (1 :: u32)"
    by (simp add: of_le_bytes_def ip4_addr1_def)
  have dn: "decode_next [m] 1 0 (of_nat n + 2) 0 r = Inr (ERR_OK, dhcp_set_option_value 0 1 (dhcp_got_option 0 r))"
    using r cv v by (subst decode_next.simps) (simp add: dhcp_idx dhcp_option_given_def u2 Let_def)
  have ol: "option_len_byte m [] (of_nat n) = Inr 1" using q(2) b(2) u by (simp add: option_len_byte_def)
  have nx: "next_option m [] (of_nat n + 3) mx x = Inr (ParseNext [m] (of_nat n + 3) mx x)" for x
    using q(2) u3 by (simp add: next_option_def Let_def)
  have pl: "option_plan 52 1 = Some (1, 0)" by (simp add: option_plan_def dhcp_opts dhcp_idx)
  have nx': "next_option m [] (3 + of_nat n) mx x = Inr (ParseNext [m] (of_nat n + 3) mx x)" for x
    by (subst add.commute) (rule nx)
  have ob: "option_body m [] (of_nat n) mx r =
      Inr (ParseNext [m] (of_nat n + 3) mx (dhcp_set_option_value 0 1 (dhcp_got_option 0 r)))"
    using b(1) u dn unfolding option_body_def ol Let_def
    by (simp add: DHCP_OPTION_PAD_def pl nx')
  have e: "reply_options [m] (of_nat n + 3) mx x = Some (Inr (ERR_OK, x))" for x
    using q(2) b(4) u3 by (subst reply_options.simps) (simp add: dhcp_opts)
  show ?thesis
    using q(2) b(1) u lt ob e by (subst reply_options.simps) (simp add: dhcp_opts)
qed



definition rx_clean :: "rx_options \<Rightarrow> bool" where
  "rx_clean r \<longleftrightarrow> length (rx_given r) = 11 \<and> length (rx_val r) = 11 \<and> \<not> rx_given r ! 0"

lemma overloaded_once:
  assumes "rx_clean r"
  shows "\<exists>r2. overload_fields False False (dhcp_set_option_value 0 1 (dhcp_got_option 0 r)) = (True, False, r2) \<and>
    rx_clean r2"
  using assms
  by (simp add: overload_fields_def dhcp_option_given_def dhcp_set_option_value_def dhcp_got_option_def
      dhcp_get_option_value_def dhcp_clear_option_def dhcp_idx rx_clean_def Let_def)

lemma file_area_loops:
  assumes m: "take 4 (drop 108 m) = [52, 1, 1, 255 :: byte]" "244 \<le> length m" "length m \<le> 65000"
    and r: "rx_clean r"
  shows "reply_areas [m] False False 108 236 r = None"
proof -
  define again where "again = (\<lambda>p fl sname idx mx x.
    p = [m] \<and> \<not> fl \<and> \<not> sname \<and> idx = (108 :: u16) \<and> mx = (236 :: u16) \<and> rx_clean x)"
  have "\<not> again p fl sname idx mx x" if "reply_areas p fl sname idx mx x = Some y" for p fl sname idx mx x y
  proof (rule reply_areas.raw_induct
      [where P = "\<lambda>p fl sname idx mx x y. \<not> again p fl sname idx mx x", OF _ that], rule notI)
    fix f p fl sname idx mx x y
    assume ih: "\<And>p fl sname idx mx x y. f p fl sname idx mx x = Some y \<Longrightarrow> \<not> again p fl sname idx mx x"
      and eq: "(case find_area p idx mx of
        (qs, offset, offset_max) \<Rightarrow>
          if qs = [] then Some (Inr (ERR_BUF, x))
          else case reply_options qs offset offset_max x of
                 None \<Rightarrow> None
               | Some (Inl f) \<Rightarrow> Some (Inl f)
               | Some (Inr (err, r1)) \<Rightarrow>
                   if err \<noteq> ERR_OK then Some (Inr (err, r1))
                   else case overload_fields fl sname r1 of
                     (file', sname', r2) \<Rightarrow>
                       if file' then f p False sname' (of_nat DHCP_FILE_OFS) (of_nat (DHCP_FILE_OFS + DHCP_FILE_LEN)) r2
                       else if sname' then f p file' False (of_nat DHCP_SNAME_OFS) (of_nat (DHCP_SNAME_OFS + DHCP_SNAME_LEN)) r2
                       else Some (Inr (ERR_OK, r2))) = Some y"
      and a: "again p fl sname idx mx x"
    have h: "p = [m]" "\<not> fl" "\<not> sname" "idx = 108" "mx = 236" "rx_clean x" using a by (simp_all add: again_def)
    obtain x2 where x2: "overload_fields False False (dhcp_set_option_value 0 1 (dhcp_got_option 0 x)) = (True, False, x2)"
      "rx_clean x2" using overloaded_once [OF h(6)] by blast
    have "reply_options [m] 108 236 x = Some (Inr (ERR_OK, dhcp_set_option_value 0 1 (dhcp_got_option 0 x)))"
      using reply_options_loops [of 108 m 236 x] m h by (simp add: rx_clean_def)
    then have "f [m] False False 108 236 x2 = Some y"
      using eq h x2(1) m(2) by (simp add: dhcp_sizes dhcp_errors)
    from ih [OF this] show False using x2(2) by (simp add: again_def)
  qed
  from this [of "[m]" False False 108 236 r] r
  have "reply_areas [m] False False 108 236 r \<noteq> Some y" for y by (auto simp: again_def)
  then show ?thesis by (metis not_None_eq)
qed

lemma file_area_runs_off:
  assumes m: "m ! 108 = (12 :: byte)" "244 \<le> length m" "length m \<le> 110 + unat (m ! 109)"
  shows "reply_areas [m] False False 108 236 r = Some (Inl AssertFail)"
proof -
  let ?n = "m ! 109"
  have nb: "unat ?n < 256" using unsigned_less [of ?n] by simp
  have lm: "length m \<le> 365" using m(3) nb by linarith
  have ul: "unat (ucast ?n :: u16) = unat ?n" by (simp add: unsigned_ucast_eq take_bit_nat_eq_self nb less_trans [OF nb])
  have off: "unat (108 + ucast ?n + 2 :: u16) = 110 + unat ?n"
  proof -
    have "108 + ucast ?n + 2 = (of_nat (110 + unat ?n) :: u16)" by (simp add: word_unat_eq_iff unat_word_ariths ul unsigned_of_nat take_bit_eq_mod)
    then show ?thesis using nb by (simp only: u16_small)
  qed
  define o' where "o' = (108 + ucast ?n + 2 :: u16) - of_nat (length m)"
  define m' where "m' = (236 :: u16) - of_nat (length m)"
  have o': "unat o' = 110 + unat ?n - length m"
    unfolding o'_def using u16_sub_nat [of "length m" "108 + ucast ?n + 2"] off m(3) by simp
  have m': "unat m' = 65772 - length m"
  proof -
    have "m' = of_nat (65772 - length m)"
    proof -
      have "(of_nat (65772 - length m) :: u16) = of_nat 65772 - of_nat (length m)"
        using lm by (intro of_nat_diff) simp
      then show ?thesis by (simp add: m'_def)
    qed
    then show ?thesis using m(2) by (simp add: u16_small)
  qed
  have lt: "o' < m'" "m' \<noteq> 0"
  proof -
    show "o' < m'" using o' m' nb lm m(2) by (simp add: word_less_nat_alt)
    then show "m' \<noteq> 0" by auto
  qed
  have nx: "next_option m [] (108 + ucast ?n + 2) 236 x = Inl AssertFail" for x
    using off m(3) lt by (simp add: next_option_def Let_def o'_def m'_def)
  have ol: "option_len_byte m [] 108 = Inr ?n" using m(2) by (simp add: option_len_byte_def)
  have pl: "option_plan 12 l = Some (0, 11)" for l by (simp add: option_plan_def dhcp_opts dhcp_idx)
  have ob: "option_body m [] 108 236 r = Inl AssertFail"
    using m(1) nx unfolding option_body_def ol Let_def by (simp add: DHCP_OPTION_PAD_def pl)
  have "reply_options [m] 108 236 r = Some (Inl AssertFail)"
    using m(1,2) ob by (subst reply_options.simps) (simp add: dhcp_opts)
  then show ?thesis using m(2) by (subst reply_areas.simps) simp
qed

text \<open>
  C8. Two replies that bring the client down. Both are for this client, in one buffer, and their options are
  just option 52 with value 1: the options go on in the file field. If that field begins with the same four
  bytes again, the reading of it never ends; if it begins with a host name option (12) that
  reaches to the end of the packet or beyond, an assertion fails, because the end of the field is computed by a
  subtraction that wraps around.
\<close>

theorem overloaded_file_faults:
  assumes f: "reply_for p s m" and m: "take 4 (drop 240 m) = [52, 1, 1, 255]"
    and r: "length (rx_val (c_rx s)) = 11"
  shows "(take 4 (drop 108 m) = [52, 1, 1, 255] \<longrightarrow> dhcp_recv e p [m] s = Inl Hang) \<and>
    (m ! 108 = 12 \<and> length m \<le> 110 + unat (m ! 109) \<longrightarrow> dhcp_recv e p [m] s = Inl AssertFail)"
proof -
  have l: "244 \<le> length m" "length m \<le> 65000" using f by (simp_all add: reply_for_def)
  let ?r = "dhcp_clear_all_options (c_rx s)"
  have c: "rx_clean ?r" using r by (simp add: rx_clean_def dhcp_clear_all_options_def dhcp_idx)
  obtain r2 where r2: "overload_fields False False (dhcp_set_option_value 0 1 (dhcp_got_option 0 ?r)) = (True, False, r2)"
    "rx_clean r2" using overloaded_once [OF c] by blast
  have "reply_options [m] 240 (of_nat (length m)) ?r =
      Some (Inr (ERR_OK, dhcp_set_option_value 0 1 (dhcp_got_option 0 ?r)))"
    using reply_options_loops [of 240 m "of_nat (length m)" ?r] m l c by (simp add: rx_clean_def u16_small)
  then have again: "reply_areas [m] False False 240 (of_nat (length m)) ?r = reply_areas [m] False False 108 236 r2"
    using l r2(1) by (subst reply_areas.simps) (simp add: dhcp_sizes dhcp_errors)
  have rv: "reply_areas [m] False False 240 (of_nat (length m)) ?r = None \<Longrightarrow> dhcp_recv e p [m] s = Inl Hang"
    "reply_areas [m] False False 240 (of_nat (length m)) ?r = Some (Inl AssertFail) \<Longrightarrow>
       dhcp_recv e p [m] s = Inl AssertFail"
    using f l by (simp_all add: dhcp_recv_def reply_for_def dhcp_parse_reply_def dhcp_sizes Let_def)
  show ?thesis using rv again file_area_loops [OF _ l r2(2)] file_area_runs_off [OF _ l(1)] by auto
qed


section \<open>Expiry\<close>

text \<open>
  C9. When the lease runs out the client starts over with a DISCOVER. In BOUND and RENEWING it first takes
  the address from the interface; but in REBINDING, the state in which a lease normally runs out, and in
  REBOOTING the address of the lease that has expired stays configured.
\<close>

theorem expired_lease_keeps_address:
  assumes i: "client_inv ps s" and nd: "nf_dhcp (c_netif s p)"
    and st: "dc_state (c_dhcp s p) \<in> {DHCP_STATE_BOUND, DHCP_STATE_RENEWING, DHCP_STATE_REBINDING, DHCP_STATE_REBOOTING}"
    and t: "dc_t0_timeout (c_dhcp s p) \<noteq> 0" "dc_lease_used (c_dhcp s p) + 1 = dc_t0_timeout (c_dhcp s p)"
  shows "\<exists>s'. coarse_tick e p s = Inr s' \<and> dc_state (c_dhcp s' p) = DHCP_STATE_SELECTING \<and>
    c_net s' = (if dc_state (c_dhcp s p) \<in> {DHCP_STATE_BOUND, DHCP_STATE_RENEWING}
      then netif_set_addr p (Some 0) (Some 0) (Some 0) (c_net s) else c_net s)"
proof -
  have h: "holds s p" using off_unless_holds [OF i nd] st by (cases "holds s p") auto
  let ?d = "(c_dhcp s p)\<lparr>dc_lease_used := dc_lease_used (c_dhcp s p) + 1\<rparr>"
  let ?s = "set_dhcp p ?d s"
  have "ready p ?s"
    by (rule tick_ready [OF inv_ready [OF i h]]) (use inv_dhcp [OF i nd] in \<open>simp_all add: dhcp_ok_def base_ok_def\<close>)
  from release_then_discover [OF this, of e] obtain s' where
    s': "bindE (dhcp_release_netif e p ?s) (\<lambda>(_, s1). bindE (dhcp_discover e p s1) (\<lambda>(_, s2). Inr s2)) = Inr s'"
    "dc_state (c_dhcp s' p) = DHCP_STATE_SELECTING"
    "c_net s' = (if dhcp_supplied_address (Some p) ?s
       then netif_set_addr p (Some 0) (Some 0) (Some 0) (c_net s) else c_net s)"
    by auto
  have "coarse_tick e p s = Inr s'" using s'(1) nd st t by (auto simp: coarse_tick_def Let_def)
  moreover have "dhcp_supplied_address (Some p) ?s = (dc_state (c_dhcp s p) \<in> {DHCP_STATE_BOUND, DHCP_STATE_RENEWING})"
    using nd by (simp add: dhcp_supplied_address_def)
  ultimately show ?thesis using s' by simp
qed

section \<open>Witnesses\<close>

definition holding :: "dhcp_state \<Rightarrow> dhcpc" where
  \<comment> \<open>a client in this state whose lease of two seconds has one left\<close>
  "holding st = asking
     \<lparr>c_net := upd_nif 0 (\<lambda>n. n\<lparr>nf_dhcp := True, nf_ip := 0x0204a8c0\<rparr>) client_net,
      c_dhcp := (\<lambda>_. dhcp_zero\<lparr>dc_pcb_allocated := True, dc_state := st, dc_tries := 1, dc_request_timeout := 1,
        dc_t0_timeout := 2, dc_lease_used := 1\<rparr>)\<rparr>"

lemmas holding_defs = holding_def asking_def client_zero_def client_net_def net_initial_def upd_nif_def
  c_netif_def netif_zero_def dhcp_zero_def

theorem expired_lease_keeps_address_witness:
  "\<exists>s'. coarse_tick client_env 0 (holding DHCP_STATE_REBINDING) = Inr s' \<and>
     nf_ip (c_netif s' 0) = 0x0204a8c0 \<and> dc_state (c_dhcp s' 0) = DHCP_STATE_SELECTING"
proof -
  let ?s = "holding DHCP_STATE_REBINDING"
  have hs: "{p. holds ?s p} = {0}" by (auto simp: holds_def holding_defs)
  have i: "client_inv {0} ?s"
    unfolding client_inv_def hs
    by (simp add: holding_defs dhcp_ok_def base_ok_def timer_ok_def lease_ok_def)
  have f: "nf_dhcp (c_netif ?s 0)" "dc_state (c_dhcp ?s 0) = DHCP_STATE_REBINDING"
    "dc_t0_timeout (c_dhcp ?s 0) = 2" "dc_lease_used (c_dhcp ?s 0) + 1 = 2"
    "nf_ip (c_netif ?s 0) = 0x0204a8c0"
    by (simp_all add: holding_defs)
  obtain s' where "coarse_tick client_env 0 ?s = Inr s'" "c_net s' = c_net ?s" "dc_state (c_dhcp s' 0) = DHCP_STATE_SELECTING"
    using expired_lease_keeps_address [OF i f(1), of client_env] f(2-4) by auto
  then show ?thesis using f(5) by (auto simp: c_netif_def)
qed

definition demo_reply :: "byte list \<Rightarrow> byte list \<Rightarrow> byte list" where
  \<comment> \<open>a reply to the interface of the witnesses: its file field and its options\<close>
  "demo_reply fl os = [2] @ replicate 27 0 @ [2, 0, 0, 0, 0, 1] @ replicate 74 0 @ fl @ replicate (132 - length fl) 0 @ os"

lemma demo_reply_parts:
  "length fl \<le> 128 \<Longrightarrow> length (demo_reply fl os) = 240 + length os"
  "length fl \<le> 128 \<Longrightarrow> drop 240 (demo_reply fl os) = os"
  "length fl = 4 \<Longrightarrow> take 4 (drop 108 (demo_reply fl os)) = fl"
  by (simp_all add: demo_reply_def)

lemma reply_for_holding:
  assumes "length fl \<le> 128" "4 \<le> length os" "length os \<le> 100"
  shows "reply_for 0 (holding st) (demo_reply fl os)"
proof -
  have "chaddr_matches [2, 0, 0, 0, 0, 1] (demo_reply fl os)"
    by (simp add: chaddr_matches_def NETIF_MAX_HWADDR_LEN_def DHCP_CHADDR_LEN_def demo_reply_def atLeast0LessThan
        lessThan_Suc eval_nat_numeral nth_append del: replicate_Suc)
  moreover have "lwip_ntohl 0 = 0" by (simp add: lwip_ntohl_def lwip_htonl_def)
  ultimately show ?thesis
    using assms demo_reply_parts(1) [OF assms(1), of os]
    by (simp add: reply_for_def for_us_def holding_defs) (simp add: demo_reply_def DHCP_BOOTREPLY_def of_le_bytes_def)
qed


definition typed :: "u32 \<Rightarrow> rx_options" where
  \<comment> \<open>only the message type was given\<close>
  "typed v = dhcp_set_option_value 1 v (dhcp_got_option 1 (dhcp_clear_all_options rx_initial))"

lemma read_type_reply:
  assumes "length fl \<le> 128" "c_rx s = rx_initial"
  shows "read_reply (demo_reply fl [53, 1, ty, 255]) (c_rx s) = (ERR_OK, typed (ucast ty))"
proof -
  have v: "ucast (ip4_addr1 (of_le_bytes [ty, 0, 0, 0])) = (ucast ty :: u32)"
  proof -
    have "ucast (ucast ty :: u32) = ty" by (rule bit_word_eqI) (auto simp: bit_simps)
    then show ?thesis by (simp add: of_le_bytes_def ip4_addr1_def)
  qed
  have z: "le_bytes 0 = [0, 0, 0, 0]"
    by (simp add: le_bytes_def ip4_addr1_def ip4_addr2_def ip4_addr3_def ip4_addr4_def)
  show ?thesis
    unfolding read_reply_def demo_reply_parts(1,2) [OF assms(1)] assms(2) typed_def
    by (simp add: read_opts.simps read_value.simps option_plan_def dhcp_opts dhcp_idx second_byte_def
        dhcp_option_given_def dhcp_clear_all_options_def rx_initial_def z v dhcp_errors)
qed

lemma typed_options:
  "dhcp_option_given DHCP_OPTION_IDX_MSG_TYPE (typed v)" "dhcp_get_option_value DHCP_OPTION_IDX_MSG_TYPE (typed v) = v"
  "\<not> dhcp_option_given DHCP_OPTION_IDX_OVERLOAD (typed v)" "\<not> dhcp_option_given DHCP_OPTION_IDX_SERVER_ID (typed v)"
  by (simp_all add: typed_def dhcp_option_given_def dhcp_get_option_value_def dhcp_set_option_value_def
      dhcp_got_option_def dhcp_clear_all_options_def rx_initial_def dhcp_idx)

lemma holding_fields [simp]:
  "c_rx (holding st) = rx_initial" "dc_state (c_dhcp (holding st) p) = st"
  by (simp_all add: holding_defs)

theorem renewal_ignores_lease_witness:
  "\<exists>s'. dhcp_recv client_env 0 [demo_reply [] [53, 1, 5, 255]] (holding DHCP_STATE_RENEWING) = Inr s' \<and>
     c_dhcp s' 0 = dhcp_set_state DHCP_STATE_BOUND (bind_timers (c_dhcp (holding DHCP_STATE_RENEWING) 0))"
proof -
  have f: "reply_for 0 (holding DHCP_STATE_RENEWING) (demo_reply [] [53, 1, 5, 255])"
    by (rule reply_for_holding) simp_all
  have r: "read_reply (demo_reply [] [53, 1, 5, 255]) (c_rx (holding DHCP_STATE_RENEWING)) = (ERR_OK, typed 5)"
    using read_type_reply [of "[]" "holding DHCP_STATE_RENEWING" 5] by simp
  show ?thesis
    using renewal_ignores_lease [OF f r, of client_env] typed_options [of 5] by auto
qed

theorem offer_without_server_stalls_witness:
  "\<exists>s'. dhcp_recv client_env 0 [demo_reply [] [53, 1, 2, 255]]
       ((holding DHCP_STATE_SELECTING)\<lparr>c_dhcp := (\<lambda>_. (c_dhcp asking 0))\<rparr>) = Inr s' \<and>
     dc_request_timeout (c_dhcp s' 0) = 0 \<and> fine_tick client_env 0 s' = Inr s'"
proof -
  let ?s = "(holding DHCP_STATE_SELECTING)\<lparr>c_dhcp := (\<lambda>_. (c_dhcp asking 0))\<rparr>"
  have f: "reply_for 0 ?s (demo_reply [] [53, 1, 2, 255])"
    using reply_for_holding [of "[]" "[53, 1, 2, 255]" DHCP_STATE_SELECTING]
    by (simp add: reply_for_def for_us_def holding_defs)
  have r: "read_reply (demo_reply [] [53, 1, 2, 255]) (c_rx ?s) = (ERR_OK, typed 2)"
    using read_type_reply [of "[]" ?s 2] by simp
  have d: "dc_state (c_dhcp ?s 0) = DHCP_STATE_SELECTING" "dc_t0_timeout (c_dhcp ?s 0) = 0"
    "dc_t1_renew_time (c_dhcp ?s 0) = 0" "dc_t2_rebind_time (c_dhcp ?s 0) = 0"
    by (simp_all add: asking_def dhcp_zero_def)
  show ?thesis
    using offer_without_server_stalls [OF f r, of client_env] typed_options [of 2] d by auto
qed

theorem overloaded_file_faults_witness:
  "dhcp_recv client_env 0 [demo_reply [52, 1, 1, 255] [52, 1, 1, 255]] (holding DHCP_STATE_RENEWING) = Inl Hang \<and>
   dhcp_recv client_env 0 [demo_reply [12, 200, 0, 0] [52, 1, 1, 255]] (holding DHCP_STATE_RENEWING) = Inl AssertFail"
proof -
  let ?s = "holding DHCP_STATE_RENEWING"
  let ?m = "\<lambda>fl. demo_reply fl [52, 1, 1, 255]"
  have f: "reply_for 0 ?s (?m fl)" if "length fl = 4" for fl
    by (rule reply_for_holding) (use that in simp_all)
  have p: "take 4 (drop 240 (?m fl)) = [52, 1, 1, 255]" "take 4 (drop 108 (?m fl)) = fl" if "length fl = 4" for fl
    using demo_reply_parts [of fl "[52, 1, 1, 255]"] that by simp_all
  have rx: "length (rx_val (c_rx ?s)) = 11" by (simp add: rx_initial_def dhcp_idx)
  have n: "?m [12, 200, 0, 0] ! 108 = 12" "?m [12, 200, 0, 0] ! 109 = 200" "length (?m [12, 200, 0, 0]) = 244"
    by (simp_all add: demo_reply_def nth_append)
  show ?thesis
    using overloaded_file_faults [OF f p(1) rx, of "[52, 1, 1, 255]" client_env] p(2) [of "[52, 1, 1, 255]"]
      overloaded_file_faults [OF f p(1) rx, of "[12, 200, 0, 0]" client_env] n by simp
qed

end
