(* ===== verification/Dhcp_Wire.thy ===== *)
theory Dhcp_Wire
  imports Dhcp_Props Dhcp_Client_Props
begin

text \<open>
  What the DHCP client and the DHCP server of this device say to each other, byte for byte: the
  messages of the client are requests the server understands, and the answers of the server are replies
  the client takes and reads.
\<close>

section \<open>Words in memory\<close>

lemma bit_ucast_drop:
  "bit (ucast (drop_bit k x) :: u8) n \<longleftrightarrow> n < 8 \<and> bit (x :: u32) (k + n)"
  by (simp only: bit_ucast_iff bit_drop_bit_eq o_apply) (auto simp: add.commute dest: word_bit_less)

lemma bit_ucast_8: "bit (ucast x :: u8) n \<longleftrightarrow> n < 8 \<and> bit (x :: u32) n"
  by (simp only: bit_ucast_iff) (auto simp: add.commute dest: word_bit_less)

lemma bit_ucast_32: "bit (ucast x :: u32) n \<longleftrightarrow> bit (x :: u8) n"
  by (simp only: bit_ucast_iff) (auto simp: add.commute dest: word_bit_less)

lemma of_le_le_bytes [simp]: "of_le_bytes (le_bytes x) = x"
proof (rule bit_word_eqI)
  fix n assume n: "n < LENGTH(32)"
  have "bit (of_le_bytes (le_bytes x)) n \<longleftrightarrow>
      (n < 8 \<and> bit x n) \<or> (8 \<le> n \<and> n - 8 < 8 \<and> bit x (8 + (n - 8))) \<or>
      (16 \<le> n \<and> n - 16 < 8 \<and> bit x (16 + (n - 16))) \<or> (24 \<le> n \<and> n - 24 < 8 \<and> bit x (24 + (n - 24)))"
    using n
    by (simp add: of_le_bytes_def le_bytes_def ip4_addr1_def ip4_addr2_def ip4_addr3_def ip4_addr4_def
        bit_or_iff bit_push_bit_iff bit_ucast_32 bit_ucast_drop bit_ucast_8 bit_drop_bit_eq)
  also have "\<dots> \<longleftrightarrow> bit x n" using n by (cases "n < 8"; cases "n < 16"; cases "n < 24") auto
  finally show "bit (of_le_bytes (le_bytes x)) n \<longleftrightarrow> bit x n" .
qed

lemma be32_le: "be32 (lwip_ntohl x) = le_bytes x"
proof -
  have "ucast (drop_bit 24 (lwip_htonl x AND 0xff000000)) = (ucast x :: u8)"
    by (rule bit_word_eqI) (simp only: bit_ucast_drop, (simp only: bit_ucast_8)?, simp only: bit_and_iff bit_masks bit_mask_8 bit_lwip_htonl, auto simp: add.commute dest: word_bit_less)
  moreover have "ucast (drop_bit 16 (lwip_htonl x AND 0x00ff0000)) = (ucast (drop_bit 8 x) :: u8)"
    by (rule bit_word_eqI) (simp only: bit_ucast_drop, (simp only: bit_ucast_8)?, simp only: bit_and_iff bit_masks bit_mask_8 bit_lwip_htonl, auto simp: add.commute dest: word_bit_less)
  moreover have "ucast (drop_bit 8 (lwip_htonl x AND 0x0000ff00)) = (ucast (drop_bit 16 x) :: u8)"
    by (rule bit_word_eqI) (simp only: bit_ucast_drop, (simp only: bit_ucast_8)?, simp only: bit_and_iff bit_masks bit_mask_8 bit_lwip_htonl, auto simp: add.commute dest: word_bit_less)
  moreover have "ucast (lwip_htonl x AND 0x000000ff) = (ucast (drop_bit 24 x) :: u8)"
    by (rule bit_word_eqI) (simp only: bit_ucast_drop, (simp only: bit_ucast_8)?, simp only: bit_and_iff bit_masks bit_mask_8 bit_lwip_htonl, auto simp: add.commute dest: word_bit_less)
  ultimately show ?thesis
    by (simp add: be32_def le_bytes_def ip4_addr1_def ip4_addr2_def ip4_addr3_def ip4_addr4_def lwip_ntohl_def)
qed
lemma be_bytes_le: "be_bytes x = le_bytes (lwip_htonl x)"
proof -
  have "be_bytes x = be32 x"
  proof -
    have a: "ucast (drop_bit 24 x AND 0xFF) = (ucast (drop_bit 24 (x AND 0xff000000)) :: u8)"
      "ucast (drop_bit 16 x AND 0xFF) = (ucast (drop_bit 16 (x AND 0x00ff0000)) :: u8)"
      "ucast (drop_bit 8 x AND 0xFF) = (ucast (drop_bit 8 (x AND 0x0000ff00)) :: u8)"
      by (simp_all add: drop_bit_and)
    show ?thesis unfolding be_bytes_def be32_def a by simp
  qed
  also have "\<dots> = le_bytes (lwip_htonl x)" using be32_le [of "lwip_htonl x"] by (simp add: lwip_ntohl_def)
  finally show ?thesis .
qed

section \<open>Requests\<close>

definition packet_of :: "byte list \<Rightarrow> packet" where
  \<comment> \<open>a message delivered in one buffer\<close>
  "packet_of m = \<lparr>pk_payload = m, pk_next = None, pk_tot_len = of_nat (length m)\<rparr>"

lemma length_chaddr [simp]: "length (dhcp_chaddr hw) = 16"
  by (simp add: dhcp_chaddr_def dhcp_sizes)

lemma chaddr_mac: "length hw = 6 \<Longrightarrow> take 6 (dhcp_chaddr hw) = hw"
  by (rule nth_equalityI) (simp_all add: dhcp_chaddr_def dhcp_sizes)

lemma header_fields:
  "field (dhcp_header n d t) 4 4 = le_bytes (lwip_htonl (dc_xid d))"
  "field (dhcp_header n d t) 28 16 = dhcp_chaddr (nf_hwaddr n)"
  "length (nf_hwaddr n) = 6 \<Longrightarrow> field (dhcp_header n d t) 28 6 = nf_hwaddr n"
  "field (dhcp_header n d t) 236 4 = le_bytes magic_cookie"
proof -
  have ck: "lwip_htonl DHCP_MAGIC_COOKIE = magic_cookie"
    by (simp add: lwip_htonl_def DHCP_MAGIC_COOKIE_def magic_cookie_def)
  show "field (dhcp_header n d t) 4 4 = le_bytes (lwip_htonl (dc_xid d))"
    "field (dhcp_header n d t) 28 16 = dhcp_chaddr (nf_hwaddr n)"
    "field (dhcp_header n d t) 236 4 = le_bytes magic_cookie"
    by (simp_all add: dhcp_header_def field_def dhcp_sizes ck)
  have "field (dhcp_header n d t) 28 6 = take 6 (field (dhcp_header n d t) 28 16)" by (simp add: field_def)
  also have "\<dots> = take 6 (dhcp_chaddr (nf_hwaddr n))" by (simp add: dhcp_header_def field_def dhcp_sizes)
  finally show "length (nf_hwaddr n) = 6 \<Longrightarrow> field (dhcp_header n d t) 28 6 = nf_hwaddr n"
    by (simp add: chaddr_mac)
qed

lemma length_message_options: "length bs \<le> 64 \<Longrightarrow> length (message_options t bs) = 68"
  by (simp add: message_options_def)

lemma message_wf:
  assumes "bs = enc_opts os" "length bs \<le> 64" "\<forall>x \<in> set os. opt_ok x"
  shows "wf_request (packet_of (dhcp_header n d t @ message_options t bs)) (dhcp_header n d t) ((53, [t]) # os)"
  unfolding wf_request_def
proof (intro conjI exI [of _ "replicate (64 - length bs) 0"])
  let ?m = "dhcp_header n d t @ message_options t bs"
  have pd: "packet_data (packet_of ?m) = ?m" by (simp add: packet_data_def packet_of_def)
  have lm: "length ?m = 308" using assms(2) by (simp add: length_message_options)
  show "packet_data (packet_of ?m) = dhcp_header n d t @ enc_opts ((53, [t]) # os) @ [255] @ replicate (64 - length bs) 0"
    unfolding pd by (simp add: message_options_def enc_opt_def assms(1))
  show "field (dhcp_header n d t) 236 4 = le_bytes magic_cookie" by (rule header_fields)
  show "\<forall>x \<in> set ((53, [t]) # os). opt_ok x" using assms(3) by (simp add: opt_ok_def)
  show "unat (pk_tot_len (packet_of ?m)) = length (packet_data (packet_of ?m))"
    unfolding pd using lm by (simp add: packet_of_def)
  show "length (packet_data (packet_of ?m)) \<le> 543" unfolding pd using lm by simp
qed (simp_all)

definition discover_opts :: "u16 \<Rightarrow> string \<Rightarrow> dhcp_opt list" where
  "discover_opts mtu h = [(57, be16 mtu)] @ (if h = [] then [] else [(12, map of_char h)]) @
     [(55, dhcp_discover_select_options)]"

definition select_opts :: "u16 \<Rightarrow> string \<Rightarrow> u32 \<Rightarrow> u32 \<Rightarrow> dhcp_opt list" where
  "select_opts mtu h ip server = [(57, be16 mtu), (50, le_bytes ip), (54, le_bytes server),
     (55, dhcp_discover_select_options)] @ (if h = [] then [] else [(12, map of_char h)])"

lemma request_opts:
  "discover_bytes mtu h = enc_opts (discover_opts mtu h)"
  "select_bytes mtu h ip server = enc_opts (select_opts mtu h ip server)"
  by (simp_all add: discover_bytes_def discover_opts_def select_bytes_def select_opts_def hostname_bytes_def
      enc_opt_def be32_le dhcp_discover_select_options_def)

lemma request_opts_ok:
  assumes "length h \<le> 32"
  shows "\<forall>x \<in> set (discover_opts mtu h). opt_ok x" "\<forall>x \<in> set (select_opts mtu h ip server). opt_ok x"
  using assms by (auto simp: discover_opts_def select_opts_def opt_ok_def dhcp_discover_select_options_def)

lemma requests_understood:
  assumes "length h \<le> 32"
  shows "wf_request (packet_of (dhcp_header n d 1 @ message_options 1 (discover_bytes mtu h))) (dhcp_header n d 1)
      ((53, [1]) # discover_opts mtu h)"
    "asks 1 ((53, [1]) # discover_opts mtu h)"
    "wf_request (packet_of (dhcp_header n d 3 @ message_options 3 (select_bytes mtu h ip server))) (dhcp_header n d 3)
      ((53, [3]) # select_opts mtu h ip server)"
    "asks 3 ((53, [3]) # select_opts mtu h ip server)" "wants ip ((53, [3]) # select_opts mtu h ip server)"
  using message_wf [OF request_opts(1) dhcp_message_bytes(1) [OF assms] request_opts_ok(1) [OF assms]]
    message_wf [OF request_opts(2) dhcp_message_bytes(2) [OF assms] request_opts_ok(2) [OF assms]]
  by (simp_all add: asks_def wants_def discover_opts_def select_opts_def)

section \<open>Answers\<close>

definition keep_value :: "nat \<Rightarrow> u32 \<Rightarrow> rx_options \<Rightarrow> rx_options" where
  "keep_value idx v r = dhcp_set_option_value idx v (dhcp_got_option idx r)"

lemma keep_value_fields:
  "length (rx_given (keep_value idx v r)) = length (rx_given r)" "length (rx_val (keep_value idx v r)) = length (rx_val r)"
  "idx < length (rx_given r) \<Longrightarrow> dhcp_option_given i (keep_value idx v r) = (i = idx \<or> dhcp_option_given i r)"
  "idx < length (rx_val r) \<Longrightarrow> dhcp_get_option_value i (keep_value idx v r) = (if i = idx then v else dhcp_get_option_value i r)"
  by (auto simp: keep_value_def dhcp_set_option_value_def dhcp_got_option_def dhcp_option_given_def
      dhcp_get_option_value_def nth_list_update)

lemma read_four:
  assumes "option_plan op 4 = Some (4, idx)" "length v = 4" "\<not> dhcp_option_given idx r" "op \<noteq> 0" "op \<noteq> 255"
  shows "read_opts (enc_opt (op, v) @ bs) r = read_opts bs (keep_value idx (lwip_ntohl (of_le_bytes v)) r)"
proof -
  have e: "enc_opt (op, v) @ bs = op # 4 # v @ bs" using assms(2) by (simp add: enc_opt_def)
  have rv: "read_value 4 idx (v @ bs) 0 r = (ERR_OK, keep_value idx (lwip_ntohl (of_le_bytes v)) r)"
  proof -
    have "of_le_bytes (v @ xs) = of_le_bytes v" for xs using assms(2) by (simp add: of_le_bytes_def nth_append)
    then show ?thesis using assms(2,3) by (subst read_value.simps) (simp add: Let_def keep_value_def)
  qed
  show ?thesis
    unfolding e using assms rv by (subst read_opts.simps) (simp add: dhcp_opts second_byte_def dhcp_errors)
qed

lemma read_type:
  assumes "\<not> dhcp_option_given 1 r"
  shows "read_opts (enc_opt (53, [t]) @ bs) r = read_opts bs (keep_value 1 (ucast t) r)"
proof -
  have z: "le_bytes 0 = [0, 0, 0, 0]"
    by (simp add: le_bytes_def ip4_addr1_def ip4_addr2_def ip4_addr3_def ip4_addr4_def)
  have u: "ucast (ip4_addr1 (of_le_bytes [t, 0, 0, 0])) = (ucast t :: u32)"
  proof -
    have "ucast (ucast t :: u32) = t" by (rule bit_word_eqI) (auto simp: bit_simps)
    then show ?thesis by (simp add: of_le_bytes_def ip4_addr1_def)
  qed
  have e: "enc_opt (53, [t]) @ bs = 53 # 1 # t # bs" by (simp add: enc_opt_def)
  have rv: "read_value 1 1 (t # bs) 0 r = (ERR_OK, keep_value 1 (ucast t) r)"
    using assms by (subst read_value.simps) (simp add: Let_def z u keep_value_def)
  show ?thesis
    unfolding e using rv by (subst read_opts.simps) (simp add: option_plan_def dhcp_opts dhcp_idx second_byte_def dhcp_errors)
qed

lemma read_skip:
  assumes "option_plan op (of_nat (length v)) = Some (0, idx)" "length v < 256" "op \<noteq> 0" "op \<noteq> 255"
  shows "read_opts (enc_opt (op, v) @ bs) r = read_opts bs r"
proof -
  have e: "enc_opt (op, v) @ bs = op # of_nat (length v) # v @ bs" by (simp add: enc_opt_def)
  have d: "drop (unat (of_nat (length v) :: u8) + 2) (op # of_nat (length v) # v @ bs) = bs"
    using assms(2) by (simp add: unsigned_of_nat take_bit_nat_eq_self)
  show ?thesis
    unfolding e using assms d by (subst read_opts.simps) (simp add: dhcp_opts second_byte_def dhcp_errors)
qed

lemma read_end: "read_opts (255 # bs) r = (ERR_OK, r)"
  by (subst read_opts.simps) (simp add: dhcp_opts)

definition announces :: "u8 \<Rightarrow> u32 \<Rightarrow> dhcps \<Rightarrow> rx_options \<Rightarrow> bool" where
  \<comment> \<open>what a client knows from an offer or acknowledgement\<close>
  "announces t gw s x \<longleftrightarrow>
     (\<forall>i \<in> {1, 2, 3, 6, 8}. dhcp_option_given i x) \<and> (\<forall>i \<in> {0, 4, 5, 9, 10}. \<not> dhcp_option_given i x) \<and>
     dhcp_get_option_value 1 x = ucast t \<and> dhcp_get_option_value 2 x = lwip_ntohl (server_address s) \<and>
     dhcp_get_option_value 3 x = dhcps_lease_time s * DHCPS_LEASE_UNIT \<and>
     dhcp_get_option_value 6 x = lwip_ntohl (of_le_bytes [255, 255, 255, 0]) \<and>
     dhcp_get_option_value 8 x =
       lwip_ntohl (if dhcps_dns_enabled (dhcps_dns s) then dns_server s else server_address s) \<and>
     dhcp_option_given 7 x = (dhcps_router_enabled (dhcps_offer s) \<and> gw \<noteq> 0) \<and>
     (dhcp_option_given 7 x \<longrightarrow> dhcp_get_option_value 7 x = lwip_ntohl gw) \<and> length (rx_val x) = 11"

lemma plans:
  "option_plan 1 4 = Some (4, 6)" "option_plan 51 4 = Some (4, 3)" "option_plan 54 4 = Some (4, 2)"
  "option_plan 3 4 = Some (4, 7)" "option_plan 6 4 = Some (4, 8)" "option_plan 28 l = Some (0, 11)"
  "option_plan 26 l = Some (0, 11)" "option_plan 31 l = Some (0, 11)" "option_plan 43 l = Some (0, 11)"
  by (simp_all add: option_plan_def dhcp_opts dhcp_idx)

lemma offer_opts_read:
  assumes g: "length (rx_given r) = 11" "length (rx_val r) = 11" "\<forall>i < 11. \<not> dhcp_option_given i r"
  shows "\<exists>x. read_opts (enc_opts ((53, [t]) # offer_opts gw s) @ 255 # rest) r = (ERR_OK, x) \<and> announces t gw s x"
proof -
  define r1 where "r1 = keep_value 1 (ucast t) r"
  define r2 where "r2 = keep_value 6 (lwip_ntohl (of_le_bytes [255, 255, 255, 0])) r1"
  define r3 where "r3 = keep_value 3 (dhcps_lease_time s * DHCPS_LEASE_UNIT) r2"
  define r4 where "r4 = keep_value 2 (lwip_ntohl (server_address s)) r3"
  define r5 where "r5 = (if dhcps_router_enabled (dhcps_offer s) \<and> gw \<noteq> 0 then keep_value 7 (lwip_ntohl gw) r4 else r4)"
  define r6 where "r6 = keep_value 8 (lwip_ntohl (if dhcps_dns_enabled (dhcps_dns s) then dns_server s else server_address s)) r5"
  note kf = keep_value_fields
  have l: "length (rx_given ri) = 11 \<and> length (rx_val ri) = 11" if "ri \<in> {r1, r2, r3, r4, r5, r6}" for ri
    using that g by (auto simp: r1_def r2_def r3_def r4_def r5_def r6_def kf)
  note l6 = l [of r1] l [of r2] l [of r3] l [of r4] l [of r5] l [of r6]
  have g1: "\<not> dhcp_option_given i r1" if "i < 11" "i \<noteq> 1" for i using that g by (simp add: r1_def kf)
  have g2: "\<not> dhcp_option_given i r2" if "i < 11" "i \<notin> {1, 6}" for i using that g1 l6 by (simp add: r2_def kf)
  have g3: "\<not> dhcp_option_given i r3" if "i < 11" "i \<notin> {1, 6, 3}" for i using that g2 l6 by (simp add: r3_def kf)
  have g4: "\<not> dhcp_option_given i r4" if "i < 11" "i \<notin> {1, 6, 3, 2}" for i using that g3 l6 by (simp add: r4_def kf)
  have g5: "\<not> dhcp_option_given i r5" if "i < 11" "i \<notin> {1, 6, 3, 2, 7}" for i using that g4 l6 by (simp add: r5_def kf)
  have lt: "lwip_ntohl (of_le_bytes (be_bytes x)) = x" for x by (simp add: be_bytes_le lwip_ntohl_def)
  have a: "announces t gw s r6"
    unfolding announces_def using l6 g5
    by (auto simp: r6_def r5_def r4_def r3_def r2_def r1_def kf g)
  have st: "read_opts (enc_opt (53, [t]) @ bs) r = read_opts bs r1"
    "read_opts (enc_opt (1, [255, 255, 255, 0]) @ bs) r1 = read_opts bs r2"
    "read_opts (enc_opt (51, be_bytes (dhcps_lease_time s * DHCPS_LEASE_UNIT)) @ bs) r2 = read_opts bs r3"
    "read_opts (enc_opt (54, le_bytes (server_address s)) @ bs) r3 = read_opts bs r4"
    "read_opts (enc_opt (6, le_bytes y) @ bs) r5 = read_opts bs (keep_value 8 (lwip_ntohl y) r5)"
    "read_opts (enc_opt (3, le_bytes gw) @ bs) r4 = read_opts bs (keep_value 7 (lwip_ntohl gw) r4)" for bs y
    using read_type [of r t bs] g
      read_four [OF plans(1), of "[255, 255, 255, 0]" r1 bs] g1 [of 6]
      read_four [OF plans(2), of "be_bytes (dhcps_lease_time s * DHCPS_LEASE_UNIT)" r2 bs] g2 [of 3]
      read_four [OF plans(3), of "le_bytes (server_address s)" r3 bs] g3 [of 2]
      read_four [OF plans(5), of "le_bytes y" r5 bs] g5 [of 8]
      read_four [OF plans(4), of "le_bytes gw" r4 bs] g4 [of 7]
    by (simp_all add: r1_def r2_def r3_def r4_def lt)
  have sk: "read_opts (enc_opt (28, v) @ bs) q = read_opts bs q" "read_opts (enc_opt (26, v) @ bs) q = read_opts bs q"
    "read_opts (enc_opt (31, v) @ bs) q = read_opts bs q" "read_opts (enc_opt (43, v) @ bs) q = read_opts bs q"
    if "length v < 256" for v bs q
    using that by (simp_all add: read_skip plans)
  have "read_opts (enc_opts ((53, [t]) # offer_opts gw s) @ 255 # rest) r = (ERR_OK, r6)"
  proof (cases "dhcps_router_enabled (dhcps_offer s) \<and> gw \<noteq> 0")
    case True
    then have "read_opts (enc_opt (3, le_bytes gw) @ bs) r4 = read_opts bs r5" for bs using st(6) by (simp add: r5_def)
    then show ?thesis using True
      by (cases "dhcps_dns_enabled (dhcps_dns s)") (simp_all add: offer_opts_def st(1-5) sk read_end r6_def)
  next
    case False
    then have "r5 = r4" unfolding r5_def by (simp only: if_False)
    moreover have "offer_opts gw s = [(1, [255, 255, 255, 0]), (51, be_bytes (dhcps_lease_time s * DHCPS_LEASE_UNIT)),
        (54, le_bytes (server_address s)),
        (6, if dhcps_dns_enabled (dhcps_dns s) then le_bytes (dns_server s) else le_bytes (server_address s)),
        (28, take 3 (le_bytes (server_address s)) @ [255]), (26, [0x02, 0x40]), (31, [0]), (43, [1, 4, 0, 0, 0, 2])]"
      using False by (auto simp: offer_opts_def)
    ultimately show ?thesis using st(5)
      by (cases "dhcps_dns_enabled (dhcps_dns s)") (simp_all add: st(1-4) sk read_end r6_def)
  qed
  with a show ?thesis by blast
qed


definition answer_to :: "dhcps \<Rightarrow> byte list \<Rightarrow> u8 \<Rightarrow> u32 \<Rightarrow> byte list \<Rightarrow> bool" where
  \<comment> \<open>an answer of this type to the message\<close>
  "answer_to s m t gw out \<longleftrightarrow> length m = 308 \<and>
     answer_ok s (request_buffer (packet_of m)) ((53, [t]) # offer_opts gw s) out"

lemma answer_read:
  assumes a: "answer_to s m t gw out" and r: "length (rx_val r) = 11"
  shows "length out = 548" "\<exists>x. read_reply out r = (ERR_OK, x) \<and> announces t gw s x"
    "msg_yiaddr out = client_address s"
proof -
  have lr: "length (request_buffer (packet_of m)) = 548"
    using a by (simp add: answer_to_def request_buffer_def packet_data_def packet_of_def)
  then show l: "length out = 548" using a by (simp add: answer_to_def answer_ok_def)
  obtain rest where d: "drop 240 out = enc_opts ((53, [t]) # offer_opts gw s) @ 255 # rest"
    using a by (auto simp: answer_to_def answer_ok_def)
  have c: "length (rx_given (dhcp_clear_all_options r)) = 11" "length (rx_val (dhcp_clear_all_options r)) = 11"
    "\<forall>i < 11. \<not> dhcp_option_given i (dhcp_clear_all_options r)"
    using r by (simp_all add: dhcp_clear_all_options_def dhcp_option_given_def dhcp_idx)
  show "\<exists>x. read_reply out r = (ERR_OK, x) \<and> announces t gw s x"
    using offer_opts_read [OF c, of t gw s rest] l d by (simp add: read_reply_def)
  have "take 4 (drop 16 out) = le_bytes (client_address s)"
    using a by (simp add: answer_to_def answer_ok_def field_def)
  then show "msg_yiaddr out = client_address s" by (simp add: msg_yiaddr_def)
qed

lemma field_nth: "i < k \<Longrightarrow> a + k \<le> length m \<Longrightarrow> m ! (a + i) = field m a k ! i"
  by (simp add: field_def)

lemma answer_for_us:
  assumes a: "answer_to s (dhcp_header n d t' @ opts) t gw out" and n: "length (nf_hwaddr n) = 6"
    and x: "dc_xid d' = dc_xid d"
  shows "for_us n d' out"
proof -
  let ?m = "dhcp_header n d t' @ opts"
  have l: "length out = 548" by (rule answer_read(1) [OF a, of rx_initial]) (simp add: rx_initial_def dhcp_idx)
  have rb: "field (request_buffer (packet_of ?m)) b k = field (dhcp_header n d t') b k" if "b + k \<le> 240" for b k
    using that by (simp add: field_def request_buffer_def packet_data_def packet_of_def)
  have f: "field out 0 4 = [2, 1, 6, 0]" "field out 4 4 = le_bytes (lwip_htonl (dc_xid d))"
    "field out 28 16 = dhcp_chaddr (nf_hwaddr n)"
    using a by (simp_all add: answer_to_def answer_ok_def rb header_fields)
  have "out ! 0 = 2" using field_nth [of 0 4 0 out] f(1) l by simp
  moreover have "chaddr_matches (nf_hwaddr n) out"
    unfolding chaddr_matches_def
  proof
    fix i assume i: "i \<in> {0..<min (length (nf_hwaddr n)) (min NETIF_MAX_HWADDR_LEN DHCP_CHADDR_LEN)}"
    then have "i < 6" by (simp add: n)
    then have "out ! (28 + i) = dhcp_chaddr (nf_hwaddr n) ! i" using field_nth [of i 16 28 out] f(3) l by simp
    also have "\<dots> = nf_hwaddr n ! i" using \<open>i < 6\<close> n by (simp add: dhcp_chaddr_def dhcp_sizes)
    finally show "nf_hwaddr n ! i = out ! (28 + i)" by simp
  qed
  moreover have "lwip_ntohl (of_le_bytes (take 4 (drop 4 out))) = dc_xid d'"
    using f(2) x by (simp add: field_def lwip_ntohl_def)
  ultimately show ?thesis by (simp add: for_us_def DHCP_BOOTREPLY_def)
qed

lemma answer_reply_for:
  assumes "answer_to s (dhcp_header (c_netif c p) d t' @ opts) t gw out" "length (nf_hwaddr (c_netif c p)) = 6"
    "dc_xid (c_dhcp c p) = dc_xid d" "may_send c p" "dc_pcb_allocated (c_dhcp c p)" "dc_msg_in (c_dhcp c p) = None"
    "length (rx_val (c_rx c)) = 11"
  shows "reply_for p c out"
  using answer_for_us [OF assms(1-3)] answer_read(1) [OF assms(1,7)] assms(4-6)
  by (simp add: reply_for_def may_send_def)

end
