(* ===== verification/Dhcp_Handshake.thy ===== *)
theory Dhcp_Handshake
  imports Dhcp_Wire Dhcp_Failures
begin

text \<open>
  The DHCP client against the DHCP server of this device: the four messages by which a client gets its
  address. The network between the two delivers each message in one buffer, unchanged.
\<close>

section \<open>The client's steps\<close>

lemma take_xid_out: "take_xid e t d s = (d1, s1) \<Longrightarrow> c_out s1 = c_out s"
  by (auto simp: take_xid_def asked_def Let_def split: if_splits)

lemma after_try_fields:
  "dc_state (set_request_timeout w (count_try d)) = dc_state d" "dc_msg_out (set_request_timeout w (count_try d)) = dc_msg_out d"
  "dc_msg_in (set_request_timeout w (count_try d)) = dc_msg_in d" "dc_xid (set_request_timeout w (count_try d)) = dc_xid d"
  "dc_pcb_allocated (set_request_timeout w (count_try d)) = dc_pcb_allocated d"
  "dc_server_ip (set_request_timeout w (count_try d)) = dc_server_ip d"
  by (simp_all add: set_request_timeout_def count_try_def)

definition talking :: "nptr \<Rightarrow> dhcpc \<Rightarrow> bool" where
  \<comment> \<open>a client that can send and is not in the middle of a message\<close>
  "talking p c \<longleftrightarrow> may_send c p \<and> dc_pcb_allocated (c_dhcp c p) \<and> dc_msg_in (c_dhcp c p) = None \<and>
     length (nf_hwaddr (c_netif c p)) = 6 \<and> length (rx_val (c_rx c)) = 11"

lemma discover_step:
  assumes t: "talking p c" and mem: "\<forall>n. ce_pbuf e n"
  shows "\<exists>c1. dhcp_discover e p c = Inr (ERR_OK, c1) \<and> talking p c1 \<and> c_netif c1 = c_netif c \<and>
    dc_state (c_dhcp c1 p) = DHCP_STATE_SELECTING \<and>
    c_out c1 = c_out c @ [SendToIfSrc (dhcp_header (c_netif c p) (c_dhcp c1 p) 1 @
      message_options 1 (discover_bytes (mtu_short c p) (nf_hostname (c_netif c p)))) IPADDR_BROADCAST DHCP_SERVER_PORT p]"
proof -
  have m: "may_send c p" using t by (simp add: talking_def)
  then have s: "nf_dhcp (c_netif c p)" "dc_msg_out (c_dhcp c p) = None" "c_pcb c" "length (nf_hostname (c_netif c p)) \<le> 32"
    by (simp_all add: may_send_def)
  define d0 where "d0 = dhcp_set_state DHCP_STATE_SELECTING ((c_dhcp c p)\<lparr>dc_offered_ip := 0\<rparr>)"
  have d0: "dc_state d0 = DHCP_STATE_SELECTING" "dc_msg_out d0 = None" "dc_msg_in d0 = dc_msg_in (c_dhcp c p)"
    "dc_pcb_allocated d0 = dc_pcb_allocated (c_dhcp c p)" using s(2) by (simp_all add: d0_def)
  obtain d1 s1 where x: "take_xid e DHCP_DISCOVER d0 (asked c) = (d1, s1)" by fastforce
  obtain xid where d1: "d1 = d0\<lparr>dc_xid := xid\<rparr>" and ca: "calm (asked c) s1" using take_xid_calm [OF x] by blast
  have o1: "c_out s1 = c_out c" using take_xid_out [OF x] by (simp add: asked_def)
  define h where "h = dhcp_header (c_netif c p) d1 1"
  define call where "call = SendToIfSrc (h @
      message_options 1 (discover_bytes (mtu_short c p) (nf_hostname (c_netif c p)))) IPADDR_BROADCAST DHCP_SERVER_PORT p"
  define d2 where "d2 = d1\<lparr>dc_msg_out := None, dc_options_out_len := 68\<rparr>"
  define d3 where "d3 = set_request_timeout (backoff 250 (dc_tries (count_try d2))) (count_try d2)"
  define c1 where "c1 = set_dhcp p d3 (client_call call s1)"
  have dis: "dhcp_discover e p c = Inr (ERR_OK, c1)"
    using dhcp_message_sends [OF may_send_options(1) [OF m, of "mtu_short c p"] _ dhcp_message_bytes(1) [OF s(4)] d0(2) s(3), of e p 1
        "\<lambda>m. SendToIfSrc m IPADDR_BROADCAST DHCP_SERVER_PORT p"] mem x s(1)
    by (simp add: dhcp_discover_def with_dhcp_def after_try_def Let_def d0_def [symmetric] c1_def d3_def d2_def call_def h_def
        dhcp_types)
  note c = calm_fields [OF calm_trans [OF calm_asked ca]]
  have cn: "c_netif c1 = c_netif c" using c by (simp add: c1_def c_netif_def fun_eq_iff)
  have dd: "c_dhcp c1 p = d3" by (simp add: c1_def)
  have f: "dc_state d3 = DHCP_STATE_SELECTING" "dc_msg_out d3 = None" "dc_msg_in d3 = dc_msg_in (c_dhcp c p)"
    "dc_pcb_allocated d3 = dc_pcb_allocated (c_dhcp c p)" "dc_xid d3 = dc_xid d1"
    using d0 by (simp_all add: d3_def after_try_fields d2_def d1)
  have h3: "dhcp_header (c_netif c p) d3 1 = h"
    using discover_header [of "c_netif c p" d3] discover_header [of "c_netif c p" d1] f(5) by (simp add: h_def dhcp_types)
  have "c_pcb c1" "c_rx c1 = c_rx c" using c s(3) by (simp_all add: c1_def)
  then have "talking p c1" using t f cn dd by (simp add: talking_def may_send_def)
  then show ?thesis using dis cn f(1) dd o1 h3 by (auto simp: c1_def call_def)
qed

lemma select_step:
  assumes m: "may_send c p" and mem: "\<forall>n. ce_pbuf e n" and st: "dc_state (c_dhcp c p) = DHCP_STATE_SELECTING"
  defines "d \<equiv> c_dhcp c p"
  shows "\<exists>c1. dhcp_select e p c = Inr (ERR_OK, c1) \<and> c_netif c1 = c_netif c \<and> c_net c1 = c_net c \<and> c_rx c1 = c_rx c \<and> c_pcb c1 = c_pcb c \<and>
    dc_state (c_dhcp c1 p) = DHCP_STATE_REQUESTING \<and> dc_msg_out (c_dhcp c1 p) = None \<and>
    dc_msg_in (c_dhcp c1 p) = dc_msg_in d \<and> dc_pcb_allocated (c_dhcp c1 p) = dc_pcb_allocated d \<and>
    dc_xid (c_dhcp c1 p) = dc_xid d \<and> dc_server_ip (c_dhcp c1 p) = dc_server_ip d \<and>
    c_out c1 = c_out c @ [SendToIfSrc (dhcp_header (c_netif c p) (dhcp_zero\<lparr>dc_xid := dc_xid d\<rparr>) 3 @
      message_options 3 (select_bytes (mtu_short c p) (nf_hostname (c_netif c p)) (dc_offered_ip d) (dc_server_ip d)))
      IPADDR_BROADCAST DHCP_SERVER_PORT p]"
proof -
  have s: "nf_dhcp (c_netif c p)" "dc_msg_out d = None" "c_pcb c" "length (nf_hostname (c_netif c p)) \<le> 32"
    using m by (simp_all add: may_send_def d_def)
  define d0 where "d0 = dhcp_set_state DHCP_STATE_REQUESTING d"
  have d0: "dc_state d0 = DHCP_STATE_REQUESTING" "dc_msg_out d0 = None" "dc_msg_in d0 = dc_msg_in d"
    "dc_pcb_allocated d0 = dc_pcb_allocated d" "dc_server_ip d0 = dc_server_ip d" "dc_xid d0 = dc_xid d"
    using s(2) by (simp_all add: d0_def) (simp add: dhcp_set_state_def)
  have h: "dhcp_header n d0 3 = dhcp_header n (dhcp_zero\<lparr>dc_xid := dc_xid d\<rparr>) 3" for n
    using d0 by (simp add: dhcp_header_def dhcp_types dhcp_zero_def)
  define d2 where "d2 = d0\<lparr>dc_msg_out := None, dc_options_out_len := 68\<rparr>"
  define d3 where "d3 = set_request_timeout (backoff 1000 (dc_tries (count_try d2))) (count_try d2)"
  have "dhcp_select e p c = Inr (ERR_OK, set_dhcp p d3 (client_call (SendToIfSrc (dhcp_header (c_netif c p) d0 3 @
      message_options 3 (select_bytes (mtu_short c p) (nf_hostname (c_netif c p)) (dc_offered_ip d) (dc_server_ip d)))
      IPADDR_BROADCAST DHCP_SERVER_PORT p) (asked c)))"
    using dhcp_message_sends [OF may_send_options(2) [OF m, of "mtu_short c p" "dc_offered_ip d" "dc_server_ip d"] _ dhcp_message_bytes(2) [OF s(4)] d0(2) s(3), of
        e p 3 "\<lambda>m. SendToIfSrc m IPADDR_BROADCAST DHCP_SERVER_PORT p"] mem s(1)
    by (simp add: dhcp_select_def with_dhcp_def after_try_def Let_def d0_def [symmetric] d_def [symmetric] d3_def d2_def
        take_xid_def dhcp_types)
  then show ?thesis
    using d0 by (simp add: h d3_def after_try_fields d2_def asked_def c_netif_def fun_eq_iff)
qed


lemma announces_type:
  assumes "announces t gw s x"
  shows "dhcp_option_given DHCP_OPTION_IDX_MSG_TYPE x" "dhcp_get_option_value DHCP_OPTION_IDX_MSG_TYPE x = ucast t"
    "\<not> dhcp_option_given DHCP_OPTION_IDX_OVERLOAD x" "dhcp_option_given DHCP_OPTION_IDX_SERVER_ID x"
    "lwip_htonl (dhcp_get_option_value DHCP_OPTION_IDX_SERVER_ID x) = server_address s" "length (rx_val x) = 11"
  using assms by (simp_all add: announces_def dhcp_idx lwip_ntohl_def)

lemma offer_step:
  assumes t: "talking p c" and mem: "\<forall>n. ce_pbuf e n" and st: "dc_state (c_dhcp c p) = DHCP_STATE_SELECTING"
    and f: "reply_for p c out" and r: "read_reply out (c_rx c) = (ERR_OK, x)" and a: "announces 2 gw s x"
    and ip: "msg_yiaddr out = ip"
  shows "\<exists>c2. dhcp_recv e p [out] c = Inr c2 \<and> talking p c2 \<and> c_netif c2 = c_netif c \<and>
    dc_state (c_dhcp c2 p) = DHCP_STATE_REQUESTING \<and> dc_xid (c_dhcp c2 p) = dc_xid (c_dhcp c p) \<and>
    dc_server_ip (c_dhcp c2 p) = server_address s \<and>
    c_out c2 = c_out c @ [SendToIfSrc (dhcp_header (c_netif c p) (c_dhcp c2 p) 3 @
      message_options 3 (select_bytes (mtu_short c p) (nf_hostname (c_netif c p)) ip (server_address s)))
      IPADDR_BROADCAST DHCP_SERVER_PORT p, FreeReply]"
proof -
  note ty = announces_type [OF a]
  have nd: "nf_dhcp (c_netif c p)" and m: "may_send c p" using t by (simp_all add: talking_def may_send_def)
  define d where "d = (c_dhcp c p)\<lparr>dc_msg_in := Some out, dc_request_timeout := 0,
    dc_server_ip := server_address s, dc_offered_ip := ip\<rparr>"
  define h where "h = set_dhcp p d (handed p out x c)"
  have hf: "c_dhcp h p = d" "c_netif h = c_netif c" "c_out h = c_out c" "c_rx h = x" by (simp_all add: h_def)
  have cp: "c_pcb h = c_pcb c" by (simp add: h_def handed_def)
  have mh: "may_send h p" "dc_state (c_dhcp h p) = DHCP_STATE_SELECTING"
    using m st hf cp by (simp_all add: may_send_def d_def)
  have mt: "mtu_short h p = mtu_short c p" by (simp add: mtu_short_def hf)
  obtain c1 where c1: "dhcp_select e p h = Inr (ERR_OK, c1)" "c_netif c1 = c_netif h" "c_rx c1 = c_rx h" "c_pcb c1 = c_pcb h"
    "dc_state (c_dhcp c1 p) = DHCP_STATE_REQUESTING" "dc_msg_out (c_dhcp c1 p) = None"
    "dc_pcb_allocated (c_dhcp c1 p) = dc_pcb_allocated d"
    "dc_xid (c_dhcp c1 p) = dc_xid d" "dc_server_ip (c_dhcp c1 p) = dc_server_ip d"
    "c_out c1 = c_out h @ [SendToIfSrc (dhcp_header (c_netif h p) (dhcp_zero\<lparr>dc_xid := dc_xid d\<rparr>) 3 @
      message_options 3 (select_bytes (mtu_short h p) (nf_hostname (c_netif h p)) (dc_offered_ip d) (dc_server_ip d)))
      IPADDR_BROADCAST DHCP_SERVER_PORT p]"
    using select_step [OF mh(1) mem mh(2)] unfolding hf(1) by blast
  have hr: "handle_reply e p (handed p out x c) = Inr c1"
  proof -
    have "handle_reply e p (handed p out x c) =
        dhcp_handle_offer e p (set_dhcp p ((c_dhcp c p)\<lparr>dc_msg_in := Some out, dc_request_timeout := 0\<rparr>) (handed p out x c))"
      using st ty by (simp add: handle_reply_def Let_def dhcp_types)
    also have "\<dots> = bindE (dhcp_select e p h) (\<lambda>(_, s2). Inr s2)"
      using nd ty ip by (simp add: dhcp_handle_offer_def with_dhcp_def h_def d_def Let_def)
    finally show ?thesis using c1(1) by simp
  qed
  define c2 where "c2 = client_call FreeReply (set_dhcp p ((c_dhcp c1 p)\<lparr>dc_msg_in := None\<rparr>) c1)"
  have "dhcp_recv e p [out] c = Inr c2"
    using recv_single [OF f r ty(3), of e] hr nd c1(2) hf(2) by (simp add: free_reply_def with_dhcp_def c2_def)
  moreover have g: "c_dhcp c2 p = (c_dhcp c1 p)\<lparr>dc_msg_in := None\<rparr>" "c_netif c2 = c_netif c" "c_rx c2 = x" "c_pcb c2 = c_pcb c"
    "c_out c2 = c_out c1 @ [FreeReply]"
    using c1 hf cp by (simp_all add: c2_def)
  moreover have "talking p c2"
    using t g c1 ty(6) by (simp add: talking_def may_send_def d_def)
  moreover have "dhcp_header (c_netif c p) (c_dhcp c2 p) 3 =
      dhcp_header (c_netif c p) (dhcp_zero\<lparr>dc_xid := dc_xid (c_dhcp c p)\<rparr>) 3"
    using g(1) c1(5,8) by (simp add: dhcp_header_def dhcp_types dhcp_zero_def d_def)
  ultimately show ?thesis using c1 hf mt by (simp add: d_def)
qed

lemma ack_step:
  assumes t: "talking p c" and st: "dc_state (c_dhcp c p) = DHCP_STATE_REQUESTING"
    and f: "reply_for p c out" and r: "read_reply out (c_rx c) = (ERR_OK, x)" and a: "announces 5 gw s x"
    and ip: "msg_yiaddr out = ip"
  shows "\<exists>c3. dhcp_recv e p [out] c = Inr c3 \<and> dc_state (c_dhcp c3 p) = DHCP_STATE_BOUND \<and>
    nf_ip (c_netif c3 p) = ip \<and> nf_netmask (c_netif c3 p) = of_le_bytes [255, 255, 255, 0] \<and>
    dc_server_ip (c_dhcp c3 p) = dc_server_ip (c_dhcp c p) \<and>
    dc_offered_t0_lease (c_dhcp c3 p) = dhcps_lease_time s * DHCPS_LEASE_UNIT \<and>
    SetNameServer 0 (if dhcps_dns_enabled (dhcps_dns s) then dns_server s else server_address s) \<in> set (c_out c3)"
proof -
  note ty = announces_type [OF a]
  have nd: "nf_dhcp (c_netif c p)" using t by (simp add: talking_def may_send_def)
  let ?h = "handed p out x c"
  have ns: "name_servers [0..<DNS_MAX_SERVERS] x =
      [(0, if dhcps_dns_enabled (dhcps_dns s) then dns_server s else server_address s)]"
    using a by (simp add: announces_def dhcp_idx upt_rec lwip_ntohl_def)
  obtain d1 where d1: "dhcp_handle_ack p ?h = Inr (client_call (SetNameServer 0
      (if dhcps_dns_enabled (dhcps_dns s) then dns_server s else server_address s)) (set_dhcp p d1 ?h))"
    "dc_offered_ip d1 = ip" "dc_subnet_mask_given d1" "dc_offered_sn_mask d1 = of_le_bytes [255, 255, 255, 0]"
    "dc_server_ip d1 = dc_server_ip (c_dhcp c p)" "dc_offered_t0_lease d1 = dhcps_lease_time s * DHCPS_LEASE_UNIT"
    using nd a ip ns by (simp add: dhcp_handle_ack_def with_dhcp_def Let_def announces_def dhcp_idx lwip_ntohl_def)
  define c1 where "c1 = client_call (SetNameServer 0
      (if dhcps_dns_enabled (dhcps_dns s) then dns_server s else server_address s)) (set_dhcp p d1 ?h)"
  have hr: "handle_reply e p ?h = Inr (dhcp_bind p c1)"
    using st ty d1(1) by (simp add: handle_reply_def Let_def dhcp_types c1_def)
  have nc: "nf_dhcp (c_netif c1 p)" "c_dhcp c1 p = d1" using nd by (simp_all add: c1_def)
  have bt: "dc_offered_t0_lease (bind_timers d1) = dc_offered_t0_lease d1" by (simp add: bind_timers_def Let_def)
  obtain gwv where b: "dhcp_bind p c1 = call_back p (set_dhcp p (dhcp_set_state DHCP_STATE_BOUND (bind_timers d1))
      (c_set_addr p ip (of_le_bytes [255, 255, 255, 0]) gwv (set_dhcp p (bind_timers d1) c1)))"
    using nc d1 by (simp add: dhcp_bind_def Let_def)
  define c3 where "c3 = client_call FreeReply (set_dhcp p ((c_dhcp (dhcp_bind p c1) p)\<lparr>dc_msg_in := None\<rparr>) (dhcp_bind p c1))"
  have nb: "nf_dhcp (c_netif (dhcp_bind p c1) p)" using nc(1) unfolding b by simp
  have "dhcp_recv e p [out] c = Inr c3"
    using recv_single [OF f r ty(3), of e] hr nb by (simp add: free_reply_def with_dhcp_def c3_def)
  moreover have "dc_state (c_dhcp c3 p) = DHCP_STATE_BOUND" "dc_server_ip (c_dhcp c3 p) = dc_server_ip (c_dhcp c p)"
    "dc_offered_t0_lease (c_dhcp c3 p) = dhcps_lease_time s * DHCPS_LEASE_UNIT"
    using d1(5,6) bt unfolding c3_def b by (simp_all add: dhcp_set_state_def)
  moreover have "nf_ip (c_netif c3 p) = ip" "nf_netmask (c_netif c3 p) = of_le_bytes [255, 255, 255, 0]"
    unfolding c3_def b by (simp_all add: c_netif_def c_set_addr_def nif_simps)
  moreover have "SetNameServer 0 (if dhcps_dns_enabled (dhcps_dns s) then dns_server s else server_address s) \<in> set (c_out c3)"
    unfolding c3_def b by (simp add: c1_def call_back_def)
  ultimately show ?thesis by blast
qed

section \<open>The server's steps\<close>

lemma server_offers:
  fixes n :: netif and d mtu h
  assumes "dhcps_inv s" "(\<exists>ip. has_lease s (nf_hwaddr n) ip) \<or> pool_free s" "length (nf_hwaddr n) = 6" "length h \<le> 32"
  defines "m \<equiv> dhcp_header n d 1 @ message_options 1 (discover_bytes mtu h)"
  shows "\<exists>out s'. handle_dhcp all_ok gw (Some (packet_of m)) s = Inr ([UdpSendto out (broadcast_dhcps s) 68], s') \<and>
    answer_to s' m 2 gw out \<and> has_lease s' (nf_hwaddr n) (client_address s') \<and>
    in_pool (dhcps_poll s) (client_address s') \<and> dhcps_inv s' \<and> same_config s s'"
proof -
  note u = requests_understood(1) [OF assms(4), of n d mtu] requests_understood(2) [OF assms(4), of mtu]
  have l: "length m = 308" using dhcp_message_bytes(1) [OF assms(4)] by (simp add: m_def length_message_options)
  show ?thesis
    using discover_answer [OF assms(1) u(1,2), of gw] assms(2) header_fields(3) [OF assms(3), of d 1] l
    by (auto simp: m_def [symmetric] answer_to_def same_config_def)
qed

lemma server_acks:
  fixes n :: netif and d mtu h ip server
  assumes "dhcps_inv s" "has_lease s (nf_hwaddr n) ip" "length (nf_hwaddr n) = 6" "length h \<le> 32"
  defines "m \<equiv> dhcp_header n d 3 @ message_options 3 (select_bytes mtu h ip server)"
  shows "\<exists>out s'. handle_dhcp all_ok gw (Some (packet_of m)) s = Inr ([UdpSendto out (broadcast_dhcps s) 68], s') \<and>
    answer_to s' m 5 gw out \<and> has_lease s' (nf_hwaddr n) ip \<and> client_address s' = ip \<and> same_config s s'"
proof -
  note u = requests_understood(3) [OF assms(4), of n d mtu ip server] requests_understood(4) [OF assms(4), of mtu ip server] requests_understood(5) [OF assms(4), of ip mtu server]
  have l: "length m = 308" using dhcp_message_bytes(2) [OF assms(4)] by (simp add: m_def length_message_options)
  show ?thesis
    using request_answer [OF assms(1) u, of ip gw] assms(2) header_fields(3) [OF assms(3), of d 3] l
    by (auto simp: m_def [symmetric] answer_to_def same_config_def)
qed

section \<open>The four messages\<close>

text \<open>
  C4. The DHCP client and the DHCP server of this code agree: if the server has a lease for the client or a
  free address and the network delivers each message unchanged in one buffer, four messages give the client
  its address. The client's DISCOVER is answered with an offer, which the client takes and answers with a
  request, which the server acknowledges; then the client is bound, and its interface has the address of
  the pool that the server has leased to its hardware address, the mask of the server's network, and the
  server's lease time, server address and name server.
\<close>

theorem client_gets_lease:
  assumes t: "talking p c" and mem: "\<forall>n. ce_pbuf e n" and inv: "dhcps_inv s"
    and served: "(\<exists>ip. has_lease s (nf_hwaddr (c_netif c p)) ip) \<or> pool_free s"
  shows "\<exists>c1 m1 o1 s1 c2 m2 o2 s2 c3 ip.
    dhcp_discover e p c = Inr (ERR_OK, c1) \<and>
    c_out c1 = c_out c @ [SendToIfSrc m1 IPADDR_BROADCAST DHCP_SERVER_PORT p] \<and>
    handle_dhcp all_ok gw (Some (packet_of m1)) s = Inr ([UdpSendto o1 (broadcast_dhcps s) 68], s1) \<and>
    dhcp_recv e p [o1] c1 = Inr c2 \<and>
    c_out c2 = c_out c1 @ [SendToIfSrc m2 IPADDR_BROADCAST DHCP_SERVER_PORT p, FreeReply] \<and>
    handle_dhcp all_ok gw (Some (packet_of m2)) s1 = Inr ([UdpSendto o2 (broadcast_dhcps s) 68], s2) \<and>
    dhcp_recv e p [o2] c2 = Inr c3 \<and>
    dc_state (c_dhcp c3 p) = DHCP_STATE_BOUND \<and>
    has_lease s2 (nf_hwaddr (c_netif c p)) ip \<and> in_pool (dhcps_poll s) ip \<and>
    nf_ip (c_netif c3 p) = ip \<and> nf_netmask (c_netif c3 p) = of_le_bytes [255, 255, 255, 0] \<and>
    dc_server_ip (c_dhcp c3 p) = server_address s \<and>
    dc_offered_t0_lease (c_dhcp c3 p) = dhcps_lease_time s * DHCPS_LEASE_UNIT \<and>
    SetNameServer 0 (if dhcps_dns_enabled (dhcps_dns s) then dns_server s else server_address s) \<in> set (c_out c3)"
proof -
  let ?n = "c_netif c p" and ?mtu = "mtu_short c p"
  have hn: "length (nf_hwaddr ?n) = 6" "length (nf_hostname ?n) \<le> 32"
    using t by (simp_all add: talking_def may_send_def)
  obtain c1 where c1: "dhcp_discover e p c = Inr (ERR_OK, c1)" "talking p c1" "c_netif c1 = c_netif c"
    "dc_state (c_dhcp c1 p) = DHCP_STATE_SELECTING"
    "c_out c1 = c_out c @ [SendToIfSrc (dhcp_header ?n (c_dhcp c1 p) 1 @
      message_options 1 (discover_bytes ?mtu (nf_hostname ?n))) IPADDR_BROADCAST DHCP_SERVER_PORT p]"
    using discover_step [OF t mem] by blast
  obtain o1 s1 where o1: "handle_dhcp all_ok gw (Some (packet_of (dhcp_header ?n (c_dhcp c1 p) 1 @
      message_options 1 (discover_bytes ?mtu (nf_hostname ?n))))) s = Inr ([UdpSendto o1 (broadcast_dhcps s) 68], s1)"
    "answer_to s1 (dhcp_header (c_netif c1 p) (c_dhcp c1 p) 1 @ message_options 1 (discover_bytes ?mtu (nf_hostname ?n))) 2 gw o1"
    "has_lease s1 (nf_hwaddr ?n) (client_address s1)" "in_pool (dhcps_poll s) (client_address s1)" "dhcps_inv s1" "same_config s s1"
    using server_offers [OF inv served hn] c1(3) by metis
  have rx: "length (rx_val (c_rx c1)) = 11" using c1(2) by (simp add: talking_def)
  have r1: "reply_for p c1 o1"
    by (rule answer_reply_for [OF o1(2)]) (use c1(2) in \<open>simp_all add: talking_def\<close>)
  obtain x1 where x1: "read_reply o1 (c_rx c1) = (ERR_OK, x1)" "announces 2 gw s1 x1"
    using answer_read(2) [OF o1(2) rx] by blast
  have mtu: "mtu_short c1 p = ?mtu" using c1(3) by (simp add: mtu_short_def)
  obtain c2 where c2: "dhcp_recv e p [o1] c1 = Inr c2" "talking p c2" "c_netif c2 = c_netif c"
    "dc_state (c_dhcp c2 p) = DHCP_STATE_REQUESTING" "dc_server_ip (c_dhcp c2 p) = server_address s1"
    "c_out c2 = c_out c1 @ [SendToIfSrc (dhcp_header ?n (c_dhcp c2 p) 3 @
      message_options 3 (select_bytes ?mtu (nf_hostname ?n) (client_address s1) (server_address s1)))
      IPADDR_BROADCAST DHCP_SERVER_PORT p, FreeReply]"
    using offer_step [OF c1(2) mem c1(4) r1 x1 answer_read(3) [OF o1(2) rx]] unfolding c1(3) mtu by blast
  obtain o2 s2 where o2: "handle_dhcp all_ok gw (Some (packet_of (dhcp_header ?n (c_dhcp c2 p) 3 @
      message_options 3 (select_bytes ?mtu (nf_hostname ?n) (client_address s1) (server_address s1))))) s1 =
      Inr ([UdpSendto o2 (broadcast_dhcps s1) 68], s2)"
    "answer_to s2 (dhcp_header (c_netif c2 p) (c_dhcp c2 p) 3 @
      message_options 3 (select_bytes ?mtu (nf_hostname ?n) (client_address s1) (server_address s1))) 5 gw o2"
    "has_lease s2 (nf_hwaddr ?n) (client_address s1)" "client_address s2 = client_address s1" "same_config s1 s2"
    using server_acks [OF o1(5,3) hn] c2(3) by metis
  have rx2: "length (rx_val (c_rx c2)) = 11" using c2(2) by (simp add: talking_def)
  have r2: "reply_for p c2 o2"
    by (rule answer_reply_for [OF o2(2)]) (use c2(2) in \<open>simp_all add: talking_def\<close>)
  obtain x2 where x2: "read_reply o2 (c_rx c2) = (ERR_OK, x2)" "announces 5 gw s2 x2"
    using answer_read(2) [OF o2(2) rx2] by blast
  obtain c3 where c3: "dhcp_recv e p [o2] c2 = Inr c3" "dc_state (c_dhcp c3 p) = DHCP_STATE_BOUND"
    "nf_ip (c_netif c3 p) = client_address s1" "nf_netmask (c_netif c3 p) = of_le_bytes [255, 255, 255, 0]"
    "dc_server_ip (c_dhcp c3 p) = dc_server_ip (c_dhcp c2 p)"
    "dc_offered_t0_lease (c_dhcp c3 p) = dhcps_lease_time s2 * DHCPS_LEASE_UNIT"
    "SetNameServer 0 (if dhcps_dns_enabled (dhcps_dns s2) then dns_server s2 else server_address s2) \<in> set (c_out c3)"
    using ack_step [OF c2(2,4) r2 x2 answer_read(3) [OF o2(2) rx2]] o2(4) by auto
  have same: "server_address s1 = server_address s" "broadcast_dhcps s1 = broadcast_dhcps s"
    "dhcps_lease_time s2 = dhcps_lease_time s" "dhcps_dns s2 = dhcps_dns s" "dns_server s2 = dns_server s"
    "server_address s2 = server_address s"
    using o1(6) o2(5) by (simp_all add: same_config_def)
  note steps = c1(1,5) o1(1) c2(1) c2(6) [unfolded same] o2(1) [unfolded same] c3(1,2) o2(3) o1(4) c3(3,4)
    c3(5) [unfolded c2(5) same] c3(6,7) [unfolded same]
  show ?thesis by (intro exI conjI, (rule steps)+)
qed

theorem client_gets_lease_witness:
  "\<exists>c1 m1 o1 s1 c2 m2 o2 s2 c3 ip.
    dhcp_discover client_env 0 asking = Inr (ERR_OK, c1) \<and>
    c_out c1 = c_out asking @ [SendToIfSrc m1 IPADDR_BROADCAST DHCP_SERVER_PORT 0] \<and>
    handle_dhcp all_ok demo_server (Some (packet_of m1)) demo_started =
      Inr ([UdpSendto o1 (broadcast_dhcps demo_started) 68], s1) \<and>
    dhcp_recv client_env 0 [o1] c1 = Inr c2 \<and>
    c_out c2 = c_out c1 @ [SendToIfSrc m2 IPADDR_BROADCAST DHCP_SERVER_PORT 0, FreeReply] \<and>
    handle_dhcp all_ok demo_server (Some (packet_of m2)) s1 =
      Inr ([UdpSendto o2 (broadcast_dhcps demo_started) 68], s2) \<and>
    dhcp_recv client_env 0 [o2] c2 = Inr c3 \<and> dc_state (c_dhcp c3 0) = DHCP_STATE_BOUND \<and>
    has_lease s2 [2, 0, 0, 0, 0, 1] ip \<and> nf_ip (c_netif c3 0) = ip"
proof -
  have t: "talking 0 asking" and hw: "nf_hwaddr (c_netif asking 0) = [2, 0, 0, 0, 0, 1]"
    by (simp_all add: talking_def may_send_def holding_defs rx_initial_def dhcp_idx)
  have mem: "\<forall>n. ce_pbuf client_env n" by (simp add: client_env_def)
  show ?thesis
    using client_gets_lease [OF t mem demo_inv, of demo_server] demo_free unfolding hw by blast
qed

end
