(* ===== verification/Tcpip_Adapter.thy ===== *)
theory Tcpip_Adapter
  imports Netif Dhcp_Server
begin

text \<open>
  The adapter between the SDK and the network stack, \<open>components/tcpip_adapter/tcpip_adapter_lwip.c\<close>:
  three interfaces (station, access point, Ethernet), their addresses, the states of the DHCP server and
  of the DHCP clients, the timer that reports a lost address, and the options of the server. Interfaces
  are those of \<open>Netif\<close> and the server is that of \<open>Dhcp_Server\<close>; the DHCP client of the stack
  (\<open>core/ipv4/dhcp.c\<close>) is a record of functions, and so is what the allocator and UDP answer. Events and
  timeouts are recorded.
\<close>

section \<open>State\<close>

definition TCPIP_ADAPTER_IF_STA :: nat where "TCPIP_ADAPTER_IF_STA = 0"
definition TCPIP_ADAPTER_IF_AP :: nat where "TCPIP_ADAPTER_IF_AP = 1"
definition TCPIP_ADAPTER_IF_ETH :: nat where "TCPIP_ADAPTER_IF_ETH = 2"
definition TCPIP_ADAPTER_IF_MAX :: nat where "TCPIP_ADAPTER_IF_MAX = 3"

lemmas adapter_ifs = TCPIP_ADAPTER_IF_STA_def TCPIP_ADAPTER_IF_AP_def TCPIP_ADAPTER_IF_ETH_def
  TCPIP_ADAPTER_IF_MAX_def

record ip_info =
  ii_ip :: u32
  ii_netmask :: u32
  ii_gw :: u32

definition ip_info_zero :: ip_info where
  "ip_info_zero = \<lparr>ii_ip = 0, ii_netmask = 0, ii_gw = 0\<rparr>"

datatype dhcp_status = DHCP_INIT | DHCP_STARTED | DHCP_STOPPED

datatype adapter_ret =
    ADAPTER_OK | INVALID_PARAMS | IF_NOT_READY | DHCPC_START_FAILED | DHCP_ALREADY_STARTED
  | DHCP_ALREADY_STOPPED | ADAPTER_NO_MEM | DHCP_NOT_STOPPED

datatype event_id = SYSTEM_EVENT_STA_GOT_IP | SYSTEM_EVENT_ETH_GOT_IP | SYSTEM_EVENT_STA_LOST_IP

datatype adapter_call =
    TcpipInit
  | SendGotIp event_id bool ip_info       \<comment> \<open>\<open>esp_event_send\<close>, with \<open>ip_changed\<close> and the addresses\<close>
  | SendEvent event_id
  | SysTimeout nat nat                    \<comment> \<open>milliseconds, and the argument of \<open>tcpip_adapter_ip_lost_timer\<close>\<close>
  | ServerUdp "udp_call list"

record adapter =
  tcpip_inited :: bool
  a_net :: nstate
  esp_netif :: "nat \<Rightarrow> nptr option"
  esp_ip :: "nat \<Rightarrow> ip_info"
  esp_ip_old :: "nat \<Rightarrow> ip_info"
  esp_netif_init_fn :: "nat \<Rightarrow> netif_init_fn option"
  timer_running :: "nat \<Rightarrow> bool"
  dhcps_status :: dhcp_status
  dhcpc_status :: "nat \<Rightarrow> dhcp_status"
  a_dhcps :: dhcps
  dns_servers :: "u32 list"
  a_fresh :: nptr                         \<comment> \<open>where the next interface is allocated\<close>
  a_out :: "adapter_call list"

definition adapter_initial :: adapter where
  "adapter_initial =
     \<lparr>tcpip_inited = False, a_net = net_initial, esp_netif = (\<lambda>_. None), esp_ip = (\<lambda>_. ip_info_zero),
      esp_ip_old = (\<lambda>_. ip_info_zero), esp_netif_init_fn = (\<lambda>_. None), timer_running = (\<lambda>_. False),
      dhcps_status = DHCP_INIT, dhcpc_status = (\<lambda>_. DHCP_INIT), a_dhcps = dhcps_initial,
      dns_servers = replicate 3 0, a_fresh = 1, a_out = []\<rparr>"

text \<open>
  What the adapter calls and what is not modelled: whether allocations succeed, and the DHCP client. A
  release says whether it calls the adapter's callback.
\<close>

record adapter_env =
  ae_calloc_ok :: bool
  ae_udp_ok :: bool
  dhcp_start :: "nptr \<Rightarrow> nstate \<Rightarrow> int \<times> nstate"
  dhcp_stop :: "nptr \<Rightarrow> nstate \<Rightarrow> nstate"
  dhcp_release :: "nptr \<Rightarrow> nstate \<Rightarrow> bool \<times> nstate"
  dhcp_cleanup :: "nptr \<Rightarrow> nstate \<Rightarrow> nstate"
  dhcp_set_cb :: "nptr \<Rightarrow> nstate \<Rightarrow> nstate"

definition adapter_call :: "adapter_call list \<Rightarrow> adapter \<Rightarrow> adapter" where
  "adapter_call cs s = s\<lparr>a_out := a_out s @ cs\<rparr>"

definition with_net :: "(nstate \<Rightarrow> nstate) \<Rightarrow> adapter \<Rightarrow> adapter" where
  "with_net f s = s\<lparr>a_net := f (a_net s)\<rparr>"

section \<open>Initialisation and calls from other tasks\<close>

definition tcpip_adapter_init :: "adapter \<Rightarrow> adapter" where
  "tcpip_adapter_init s =
     (if \<not> tcpip_inited s then
        adapter_call [TcpipInit]
          (s\<lparr>tcpip_inited := True, esp_ip_old := (\<lambda>_. ip_info_zero),
             esp_ip := (\<lambda>_. ip_info_zero)(TCPIP_ADAPTER_IF_AP :=
               \<lparr>ii_ip = IP4_ADDR 192 168 4 1, ii_netmask = IP4_ADDR 255 255 255 0,
                ii_gw = IP4_ADDR 192 168 4 1\<rparr>)\<rparr>)
      else s)"

text \<open>
  \<open>TCPIP_ADAPTER_IPC_CALL\<close>: before the initialisation it aborts; in another task than that of the stack
  the stack's task runs the \<open>_api\<close> routine and its result is the result; in the stack's own task the
  rest of the function runs. Almost every \<open>_api\<close> routine calls the function it belongs to, which then
  runs its rest.
\<close>

definition ipc_call :: "bool \<Rightarrow> (adapter \<Rightarrow> 'a result) \<Rightarrow> (adapter \<Rightarrow> 'a result) \<Rightarrow> adapter \<Rightarrow> 'a result" where
  \<comment> \<open>the first argument says whether the caller is the stack's task\<close>
  "ipc_call in_task api rest s =
     (if \<not> tcpip_inited s then Inl Abort else if in_task then rest s else api s)"

definition ipc_self :: "bool \<Rightarrow> (adapter \<Rightarrow> 'a result) \<Rightarrow> adapter \<Rightarrow> 'a result" where
  "ipc_self in_task rest s = ipc_call in_task (ipc_call True rest rest) rest s"

section \<open>Default interface, addresses, the timer for a lost address\<close>

definition tcpip_adapter_update_default_netif :: "adapter \<Rightarrow> adapter" where
  "tcpip_adapter_update_default_netif s =
     (if netif_is_up (esp_netif s TCPIP_ADAPTER_IF_STA) (a_net s)
      then with_net (netif_set_default (esp_netif s TCPIP_ADAPTER_IF_STA)) s
      else if netif_is_up (esp_netif s TCPIP_ADAPTER_IF_ETH) (a_net s)
      then with_net (netif_set_default (esp_netif s TCPIP_ADAPTER_IF_ETH)) s
      else if netif_is_up (esp_netif s TCPIP_ADAPTER_IF_AP) (a_net s)
      then with_net (netif_set_default (esp_netif s TCPIP_ADAPTER_IF_AP)) s
      else s)"

definition tcpip_adapter_reset_ip_info :: "nat \<Rightarrow> adapter \<Rightarrow> adapter" where
  "tcpip_adapter_reset_ip_info i s = s\<lparr>esp_ip := (esp_ip s)(i := ip_info_zero)\<rparr>"

definition CONFIG_IP_LOST_TIMER_INTERVAL :: nat where "CONFIG_IP_LOST_TIMER_INTERVAL = 120"

definition tcpip_adapter_start_ip_lost_timer :: "nat \<Rightarrow> adapter \<Rightarrow> adapter" where
  "tcpip_adapter_start_ip_lost_timer i s =
     (if i \<noteq> TCPIP_ADAPTER_IF_STA then s
      else if timer_running s i then s
      else if esp_netif s i \<noteq> None \<and> 0 < CONFIG_IP_LOST_TIMER_INTERVAL \<and> ii_ip (esp_ip_old s i) \<noteq> 0
      then adapter_call [SysTimeout (CONFIG_IP_LOST_TIMER_INTERVAL * 1000) i]
             (s\<lparr>timer_running := (timer_running s)(i := True)\<rparr>)
      else s)"

definition tcpip_adapter_ip_lost_timer :: "nat \<Rightarrow> adapter \<Rightarrow> adapter" where
  "tcpip_adapter_ip_lost_timer i s =
     (let s1 = s\<lparr>timer_running := (timer_running s)(i := False)\<rparr> in
      if i = TCPIP_ADAPTER_IF_STA \<and>
         (case esp_netif s1 i of None \<Rightarrow> True | Some p \<Rightarrow> nf_ip (n_store (a_net s1) p) = 0)
      then adapter_call [SendEvent SYSTEM_EVENT_STA_LOST_IP]
             (s1\<lparr>esp_ip_old := (esp_ip_old s1)(i := ip_info_zero)\<rparr>)
      else s1)"

definition netif_info :: "netif \<Rightarrow> ip_info" where
  "netif_info n = \<lparr>ii_ip = nf_ip n, ii_netmask = nf_netmask n, ii_gw = nf_gw n\<rparr>"

definition dhcpc_notify :: "nat \<Rightarrow> netif \<Rightarrow> adapter \<Rightarrow> adapter" where
  \<comment> \<open>the rest of \<open>tcpip_adapter_dhcpc_cb\<close> once the interface is known\<close>
  "dhcpc_notify i n s =
     (if nf_ip n \<noteq> 0 then
        (if nf_ip n \<noteq> ii_ip (esp_ip s i) \<or> nf_netmask n \<noteq> ii_netmask (esp_ip s i) \<or>
            nf_gw n \<noteq> ii_gw (esp_ip s i)
         then
           let info = netif_info n;
               ip_changed = (i = TCPIP_ADAPTER_IF_ETH \<or> info \<noteq> esp_ip_old s i)
           in adapter_call
                [SendGotIp (if i = TCPIP_ADAPTER_IF_ETH then SYSTEM_EVENT_ETH_GOT_IP
                            else SYSTEM_EVENT_STA_GOT_IP) ip_changed info]
                (s\<lparr>esp_ip := (esp_ip s)(i := info), esp_ip_old := (esp_ip_old s)(i := info)\<rparr>)
         else s)
      else if ii_ip (esp_ip s i) \<noteq> 0 then tcpip_adapter_start_ip_lost_timer i s
      else s)"

definition tcpip_adapter_dhcpc_cb :: "nptr option \<Rightarrow> adapter \<Rightarrow> adapter" where
  "tcpip_adapter_dhcpc_cb netif s =
     (case netif of
        None \<Rightarrow> s
      | Some p \<Rightarrow>
          if esp_netif s TCPIP_ADAPTER_IF_STA = Some p
          then dhcpc_notify TCPIP_ADAPTER_IF_STA (n_store (a_net s) p) s
          else if esp_netif s TCPIP_ADAPTER_IF_ETH = Some p
          then dhcpc_notify TCPIP_ADAPTER_IF_ETH (n_store (a_net s) p) s
          else s)"

section \<open>Starting and stopping interfaces\<close>

definition start_dhcp_server :: "adapter_env \<Rightarrow> nptr \<Rightarrow> u32 \<Rightarrow> adapter \<Rightarrow> adapter result" where
  \<comment> \<open>\<open>dhcps_start\<close>, and the state set after it\<close>
  "start_dhcp_server e p ip s =
     (let n = n_store (a_net s) p in
      bindE (dhcps_start (ae_udp_ok e) (nf_dhcps_pcb n) (nf_ip n) ip (a_dhcps s)) (\<lambda>(out, d).
        Inr (adapter_call [ServerUdp out]
               (with_net (upd_nif p (\<lambda>n. n\<lparr>nf_dhcps_pcb := True\<rparr>))
                 (s\<lparr>a_dhcps := d, dhcps_status := DHCP_STARTED\<rparr>)))))"

definition stop_dhcp_server :: "nptr \<Rightarrow> adapter \<Rightarrow> adapter" where
  "stop_dhcp_server p s =
     (case dhcps_stop (Some (nf_dhcps_pcb (n_store (a_net s) p))) (a_dhcps s) of
        (out, _, d) \<Rightarrow>
          adapter_call [ServerUdp out]
            (with_net (upd_nif p (\<lambda>n. n\<lparr>nf_dhcps_pcb := False\<rparr>)) (s\<lparr>a_dhcps := d\<rparr>)))"

definition start_netif ::
  "adapter_env \<Rightarrow> nat \<Rightarrow> byte list \<Rightarrow> ip_info \<Rightarrow> adapter \<Rightarrow> (bool \<times> adapter) result" where
  \<comment> \<open>allocate the interface if there is none, and add it; \<open>False\<close> when there is no memory\<close>
  "start_netif e i mac info s =
     (let alloc = (case esp_netif s i of
                     Some p \<Rightarrow> Some (p, s)
                   | None \<Rightarrow>
                       if ae_calloc_ok e
                       then Some (a_fresh s,
                              with_net (upd_nif (a_fresh s) (\<lambda>_. netif_zero))
                                (s\<lparr>esp_netif := (esp_netif s)(i := Some (a_fresh s)),
                                   a_fresh := a_fresh s + 1\<rparr>))
                       else None)
      in case alloc of
           None \<Rightarrow> Inr (False, s)
         | Some (p, s1) \<Rightarrow>
             let s2 = with_net (upd_nif p (\<lambda>n. n\<lparr>nf_hwaddr := mac\<rparr>)) s1 in
             bindE (netif_add p (ii_ip info) (ii_netmask info) (ii_gw info) (esp_netif_init_fn s2 i) (a_net s2))
               (\<lambda>(_, net). Inr (True, s2\<lparr>a_net := net\<rparr>)))"

definition start_ap_server :: "adapter_env \<Rightarrow> ip_info \<Rightarrow> adapter \<Rightarrow> adapter result" where
  "start_ap_server e info s =
     (case esp_netif s TCPIP_ADAPTER_IF_AP of
        None \<Rightarrow> Inl NullDeref
      | Some p \<Rightarrow>
          let s1 = with_net (netif_set_up p) s in
          if dhcps_status s1 = DHCP_INIT then start_dhcp_server e p (ii_ip info) s1 else Inr s1)"

definition start_body ::
  "adapter_env \<Rightarrow> nat \<Rightarrow> byte list option \<Rightarrow> ip_info option \<Rightarrow> adapter \<Rightarrow> (adapter_ret \<times> adapter) result" where
  "start_body e i o_mac o_info s =
     (case (o_mac, o_info) of
        (Some mac, Some info) \<Rightarrow>
          if TCPIP_ADAPTER_IF_MAX \<le> i then Inr (INVALID_PARAMS, s)
          else
            bindE (if esp_netif s i = None \<or> \<not> netif_is_up (esp_netif s i) (a_net s)
                   then start_netif e i mac info s else Inr (True, s)) (\<lambda>(ok, s1).
              if \<not> ok then Inr (ADAPTER_NO_MEM, s1)
              else bindE (if i = TCPIP_ADAPTER_IF_AP then start_ap_server e info s1 else Inr s1) (\<lambda>s2.
                     Inr (ADAPTER_OK, tcpip_adapter_update_default_netif s2)))
      | _ \<Rightarrow> Inr (INVALID_PARAMS, s))"

definition tcpip_adapter_start ::
  "bool \<Rightarrow> adapter_env \<Rightarrow> nat \<Rightarrow> byte list option \<Rightarrow> ip_info option \<Rightarrow> adapter
    \<Rightarrow> (adapter_ret \<times> adapter) result" where
  "tcpip_adapter_start in_task e i mac info = ipc_self in_task (start_body e i mac info)"

definition set_init_fn :: "nat \<Rightarrow> netif_init_fn \<Rightarrow> adapter \<Rightarrow> adapter" where
  "set_init_fn i f s = s\<lparr>esp_netif_init_fn := (esp_netif_init_fn s)(i := Some f)\<rparr>"

definition tcpip_adapter_eth_start where
  "tcpip_adapter_eth_start in_task e mac info s =
     tcpip_adapter_start in_task e TCPIP_ADAPTER_IF_ETH mac info
       (set_init_fn TCPIP_ADAPTER_IF_ETH ethernetif_init s)"

definition tcpip_adapter_sta_start where
  "tcpip_adapter_sta_start in_task e mac info s =
     tcpip_adapter_start in_task e TCPIP_ADAPTER_IF_STA mac info
       (set_init_fn TCPIP_ADAPTER_IF_STA wlanif_init_sta s)"

definition tcpip_adapter_ap_start where
  "tcpip_adapter_ap_start in_task e mac info s =
     tcpip_adapter_start in_task e TCPIP_ADAPTER_IF_AP mac info
       (set_init_fn TCPIP_ADAPTER_IF_AP wlanif_init_ap s)"

definition release_client :: "adapter_env \<Rightarrow> nat \<Rightarrow> nptr \<Rightarrow> adapter \<Rightarrow> adapter" where
  \<comment> \<open>what \<open>tcpip_adapter_stop\<close> does with a station or Ethernet interface\<close>
  "release_client e i p s =
     (let (cb, net) = dhcp_release e p (a_net s);
          s1 = s\<lparr>a_net := net\<rparr>;
          s2 = (if cb then tcpip_adapter_dhcpc_cb (Some p) s1 else s1);
          s3 = with_net (dhcp_cleanup e p) (with_net (dhcp_stop e p) s2)
      in tcpip_adapter_reset_ip_info i (s3\<lparr>dhcpc_status := (dhcpc_status s3)(i := DHCP_INIT)\<rparr>))"

definition is_client_if :: "nat \<Rightarrow> bool" where
  "is_client_if i \<longleftrightarrow> i = TCPIP_ADAPTER_IF_STA \<or> i = TCPIP_ADAPTER_IF_ETH"

definition stop_body :: "adapter_env \<Rightarrow> nat \<Rightarrow> adapter \<Rightarrow> (adapter_ret \<times> adapter) result" where
  "stop_body e i s =
     (if TCPIP_ADAPTER_IF_MAX \<le> i then Inr (INVALID_PARAMS, s)
      else case esp_netif s i of
        None \<Rightarrow> Inr (IF_NOT_READY, s)
      | Some p \<Rightarrow>
          if \<not> netif_is_up (Some p) (a_net s) then
            bindE (netif_remove (Some p) (a_net s)) (\<lambda>net. Inr (IF_NOT_READY, s\<lparr>a_net := net\<rparr>))
          else
            let s1 = (if i = TCPIP_ADAPTER_IF_AP then
                        let s' = stop_dhcp_server p s in
                        if dhcps_status s' \<noteq> DHCP_STOPPED then s'\<lparr>dhcps_status := DHCP_INIT\<rparr> else s'
                      else if is_client_if i then release_client e i p s else s);
                s2 = with_net (netif_set_down p) s1
            in bindE (netif_remove (Some p) (a_net s2)) (\<lambda>net.
                 Inr (ADAPTER_OK, tcpip_adapter_update_default_netif (s2\<lparr>a_net := net\<rparr>))))"

definition tcpip_adapter_stop where
  "tcpip_adapter_stop in_task e i = ipc_self in_task (stop_body e i)"

definition up_body :: "nat \<Rightarrow> adapter \<Rightarrow> (adapter_ret \<times> adapter) result" where
  "up_body i s =
     (if is_client_if i then
        (case esp_netif s i of
           None \<Rightarrow> Inr (IF_NOT_READY, s)
         | Some p \<Rightarrow>
             let a = esp_ip s i;
                 s1 = with_net (netif_set_addr p (Some (ii_ip a)) (Some (ii_netmask a)) (Some (ii_gw a))) s
             in Inr (ADAPTER_OK, tcpip_adapter_update_default_netif (with_net (netif_set_up p) s1)))
      else Inr (ADAPTER_OK, tcpip_adapter_update_default_netif s))"

definition tcpip_adapter_up where
  "tcpip_adapter_up in_task i = ipc_self in_task (up_body i)"

definition down_body :: "adapter_env \<Rightarrow> nat \<Rightarrow> adapter \<Rightarrow> (adapter_ret \<times> adapter) result" where
  "down_body e i s =
     (if is_client_if i then
        (case esp_netif s i of
           None \<Rightarrow> Inr (IF_NOT_READY, s)
         | Some p \<Rightarrow>
             let s1 = (if dhcpc_status s i = DHCP_STARTED then
                         tcpip_adapter_reset_ip_info i
                           ((with_net (dhcp_stop e p) s)\<lparr>dhcpc_status := (dhcpc_status s)(i := DHCP_INIT)\<rparr>)
                       else s);
                 s2 = with_net (netif_set_addr p (Some IPADDR_ANY) (Some IPADDR_ANY) (Some IPADDR_ANY)) s1;
                 s3 = tcpip_adapter_start_ip_lost_timer i (with_net (netif_set_down p) s2)
             in Inr (ADAPTER_OK, tcpip_adapter_update_default_netif s3))
      else Inr (ADAPTER_OK, tcpip_adapter_update_default_netif s))"

definition tcpip_adapter_down where
  "tcpip_adapter_down in_task e i = ipc_self in_task (down_body e i)"

section \<open>Addresses\<close>

definition tcpip_adapter_set_old_ip_info ::
  "bool \<Rightarrow> nat \<Rightarrow> ip_info option \<Rightarrow> adapter \<Rightarrow> (adapter_ret \<times> adapter) result" where
  \<comment> \<open>the one function whose \<open>_api\<close> routine does the work itself\<close>
  "tcpip_adapter_set_old_ip_info in_task i o_info s =
     (case o_info of
        None \<Rightarrow> Inr (INVALID_PARAMS, s)
      | Some info \<Rightarrow>
          if TCPIP_ADAPTER_IF_MAX \<le> i then Inr (INVALID_PARAMS, s)
          else ipc_call in_task
                 (\<lambda>s. Inr (ADAPTER_OK, s\<lparr>esp_ip_old := (esp_ip_old s)(i := info)\<rparr>))
                 (\<lambda>s. Inr (ADAPTER_OK, s)) s)"

definition tcpip_adapter_get_old_ip_info :: "nat \<Rightarrow> bool \<Rightarrow> adapter \<Rightarrow> adapter_ret \<times> ip_info option" where
  "tcpip_adapter_get_old_ip_info i have s =
     (if TCPIP_ADAPTER_IF_MAX \<le> i \<or> \<not> have then (INVALID_PARAMS, None)
      else (ADAPTER_OK, Some (esp_ip_old s i)))"

definition current_info :: "nat \<Rightarrow> adapter \<Rightarrow> ip_info" where
  "current_info i s =
     (case esp_netif s i of
        Some p \<Rightarrow> if netif_is_up (Some p) (a_net s) then netif_info (n_store (a_net s) p) else esp_ip s i
      | None \<Rightarrow> esp_ip s i)"

definition tcpip_adapter_get_ip_info :: "nat \<Rightarrow> bool \<Rightarrow> adapter \<Rightarrow> adapter_ret \<times> ip_info option" where
  "tcpip_adapter_get_ip_info i have s =
     (if TCPIP_ADAPTER_IF_MAX \<le> i \<or> \<not> have then (INVALID_PARAMS, None)
      else (ADAPTER_OK, Some (current_info i s)))"

definition dns_setserver :: "u8 \<Rightarrow> u32 option \<Rightarrow> adapter \<Rightarrow> adapter" where
  "dns_setserver numdns dnsserver s =
     (if numdns < 3
      then s\<lparr>dns_servers := (dns_servers s)[unat numdns := (case dnsserver of None \<Rightarrow> IPADDR_ANY | Some a \<Rightarrow> a)]\<rparr>
      else s)"

fun clear_servers_loop :: "bool \<Rightarrow> nat \<Rightarrow> nat \<Rightarrow> adapter \<Rightarrow> adapter" where
  "clear_servers_loop keep_fallback numdns 0 s = s"
| "clear_servers_loop keep_fallback numdns (Suc n) s =
     clear_servers_loop keep_fallback (numdns + 1) n
       (if keep_fallback \<and> numdns = 2 then s else dns_setserver (of_nat numdns) None s)"

definition dns_clear_servers :: "bool \<Rightarrow> adapter \<Rightarrow> adapter" where
  "dns_clear_servers keep_fallback s = clear_servers_loop keep_fallback 0 3 s"

definition dns_getserver :: "u8 \<Rightarrow> adapter \<Rightarrow> u32" where
  "dns_getserver numdns s = (if numdns < 3 then dns_servers s ! unat numdns else IPADDR_ANY)"

definition static_ip_event :: "nat \<Rightarrow> ip_info \<Rightarrow> adapter \<Rightarrow> adapter" where
  \<comment> \<open>the event of \<open>tcpip_adapter_set_ip_info\<close>, the station's for every interface\<close>
  "static_ip_event i info s =
     (if ii_ip info = 0 \<or> ii_netmask info = 0 \<or> ii_gw info = 0 then s
      else adapter_call [SendGotIp SYSTEM_EVENT_STA_GOT_IP (info \<noteq> esp_ip_old s i) info]
             (s\<lparr>esp_ip_old := (esp_ip_old s)(i := info)\<rparr>))"

definition set_ip_info_body :: "nat \<Rightarrow> ip_info option \<Rightarrow> adapter \<Rightarrow> (adapter_ret \<times> adapter) result" where
  "set_ip_info_body i o_info s =
     (case o_info of
        None \<Rightarrow> Inr (INVALID_PARAMS, s)
      | Some info \<Rightarrow>
          if TCPIP_ADAPTER_IF_MAX \<le> i then Inr (INVALID_PARAMS, s)
          else if i = TCPIP_ADAPTER_IF_AP \<and> dhcps_status s \<noteq> DHCP_STOPPED then Inr (DHCP_NOT_STOPPED, s)
          else if is_client_if i \<and> dhcpc_status s i \<noteq> DHCP_STOPPED then Inr (DHCP_NOT_STOPPED, s)
          else
            let s1 = (if is_client_if i then dns_clear_servers True s else s);
                s2 = s1\<lparr>esp_ip := (esp_ip s1)(i := info)\<rparr>
            in case esp_netif s2 i of
                 Some p \<Rightarrow>
                   if netif_is_up (Some p) (a_net s2) then
                     Inr (ADAPTER_OK, static_ip_event i info
                       (with_net (netif_set_addr p (Some (ii_ip info)) (Some (ii_netmask info))
                                   (Some (ii_gw info))) s2))
                   else Inr (ADAPTER_OK, s2)
               | None \<Rightarrow> Inr (ADAPTER_OK, s2))"

definition tcpip_adapter_set_ip_info where
  "tcpip_adapter_set_ip_info in_task i info = ipc_self in_task (set_ip_info_body i info)"

end
