(* ===== verification/Adapter_Services.thy ===== *)
theory Adapter_Services
  imports Tcpip_Adapter
begin

text \<open>
  The rest of \<open>components/tcpip_adapter/tcpip_adapter_lwip.c\<close>: the options of the DHCP server, name
  servers, starting and stopping the server and the clients, the list of stations, host names, and the
  entry points of the drivers.
\<close>

section \<open>Options of the DHCP server\<close>

datatype opt_mode = OP_START | OP_SET | OP_GET | OP_MAX

definition option_get :: "u32 \<Rightarrow> opt_value \<Rightarrow> opt_value \<Rightarrow> opt_value" where
  \<comment> \<open>the variable's value, the old value of the caller's object, its new value\<close>
  "option_get opt_id info old =
     (if opt_id = ucast IP_ADDRESS_LEASE_TIME then info
      else if opt_id = ucast REQUESTED_IP_ADDRESS then info
      else if opt_id = ucast ROUTER_SOLICITATION_ADDRESS then
        (case info of OptByte b \<Rightarrow> OptByte (if b AND OFFER_ROUTER \<noteq> 0 then 1 else 0) | _ \<Rightarrow> old)
      else if opt_id = ucast DOMAIN_NAME_SERVER then
        (case info of OptByte b \<Rightarrow> OptByte (if b AND OFFER_DNS \<noteq> 0 then 1 else 0) | _ \<Rightarrow> old)
      else old)"

definition pool_refused :: "u32 \<Rightarrow> dhcps_lease \<Rightarrow> bool" where
  \<comment> \<open>the three checks of a configured pool against the address of the access point\<close>
  "pool_refused ip poll \<longleftrightarrow>
     enable poll \<and>
     (let softap_ip = lwip_htonl ip; start = lwip_htonl (start_ip poll); stop = lwip_htonl (end_ip poll)
      in start \<le> softap_ip \<and> softap_ip \<le> stop \<or>
         (drop_bit 8 start \<noteq> drop_bit 8 softap_ip \<or> drop_bit 8 stop \<noteq> drop_bit 8 softap_ip) \<or>
         DHCPS_MAX_LEASE < stop - start)"

definition set_bit_if :: "byte \<Rightarrow> byte \<Rightarrow> byte \<Rightarrow> byte" where
  "set_bit_if m v old = (if v \<noteq> 0 then old OR m else old AND (NOT m AND 0xFF))"

definition option_set :: "u32 \<Rightarrow> u32 \<Rightarrow> opt_value \<Rightarrow> opt_ref \<Rightarrow> dhcps \<Rightarrow> dhcps option" where
  \<comment> \<open>the address of the access point, the option, the value given and the variable; \<open>None\<close> when a
     pool is refused\<close>
  "option_set ap_ip opt_id v r d =
     (case v of
        OptTime t \<Rightarrow>
          if opt_id = ucast IP_ADDRESS_LEASE_TIME
          then Some (write_ref r (OptTime (if t \<noteq> 0 then t else DHCPS_LEASE_TIME_DEF)) d) else Some d
      | OptPoll poll \<Rightarrow>
          if opt_id = ucast REQUESTED_IP_ADDRESS
          then (if pool_refused ap_ip poll then None else Some (write_ref r v d)) else Some d
      | OptByte b \<Rightarrow>
          if opt_id = ucast ROUTER_SOLICITATION_ADDRESS
          then Some (write_ref r (OptByte (set_bit_if OFFER_ROUTER b (dhcps_offer d))) d)
          else if opt_id = ucast DOMAIN_NAME_SERVER
          then Some (write_ref r (OptByte (set_bit_if OFFER_DNS b (dhcps_dns d))) d)
          else Some d)"

definition tcpip_adapter_dhcps_option ::
  "opt_mode \<Rightarrow> u32 \<Rightarrow> opt_value option \<Rightarrow> u32 \<Rightarrow> adapter \<Rightarrow> adapter_ret \<times> opt_value option \<times> adapter" where
  \<comment> \<open>the caller's object holds a value of the size that it names\<close>
  "tcpip_adapter_dhcps_option opt_op opt_id opt_val opt_len s =
     (case (dhcps_option_info (ucast opt_id) opt_len, opt_val) of
        (Some r, Some v) \<Rightarrow>
          (case opt_op of
             OP_GET \<Rightarrow>
               if dhcps_status s = DHCP_STOPPED then (DHCP_ALREADY_STOPPED, opt_val, s)
               else (ADAPTER_OK, Some (option_get opt_id (read_ref r (a_dhcps s)) v), s)
           | OP_SET \<Rightarrow>
               if dhcps_status s = DHCP_STARTED then (DHCP_ALREADY_STARTED, opt_val, s)
               else (case option_set (ii_ip (current_info TCPIP_ADAPTER_IF_AP s)) opt_id v r (a_dhcps s) of
                       None \<Rightarrow> (INVALID_PARAMS, opt_val, s)
                     | Some d \<Rightarrow>
                         (ADAPTER_OK, opt_val,
                          s\<lparr>a_dhcps := dhcps_set_option_info (ucast opt_id) (Some (read_ref r d)) opt_len d\<rparr>))
           | _ \<Rightarrow> (INVALID_PARAMS, opt_val, s))
      | _ \<Rightarrow> (INVALID_PARAMS, opt_val, s))"

section \<open>Name servers\<close>

definition TCPIP_ADAPTER_DNS_MAIN :: nat where "TCPIP_ADAPTER_DNS_MAIN = 0"
definition TCPIP_ADAPTER_DNS_MAX :: nat where "TCPIP_ADAPTER_DNS_MAX = 3"

definition set_dns_body :: "nat \<Rightarrow> nat \<Rightarrow> u32 option \<Rightarrow> adapter \<Rightarrow> (adapter_ret \<times> adapter) result" where
  "set_dns_body i type dns s =
     (if TCPIP_ADAPTER_IF_MAX \<le> i then Inr (INVALID_PARAMS, s)
      else case dns of
        None \<Rightarrow> Inr (INVALID_PARAMS, s)
      | Some ip \<Rightarrow>
          if TCPIP_ADAPTER_DNS_MAX \<le> type \<or> ip = 0 then Inr (INVALID_PARAMS, s)
          else if is_client_if i then Inr (ADAPTER_OK, dns_setserver (of_nat type) (Some ip) s)
          else if type \<noteq> TCPIP_ADAPTER_DNS_MAIN then Inr (INVALID_PARAMS, s)
          else Inr (ADAPTER_OK, s\<lparr>a_dhcps := dhcps_dns_setserver (Some ip) (a_dhcps s)\<rparr>))"

definition tcpip_adapter_set_dns_info where
  "tcpip_adapter_set_dns_info in_task i type dns = ipc_self in_task (set_dns_body i type dns)"

definition get_dns_body :: "nat \<Rightarrow> nat \<Rightarrow> bool \<Rightarrow> adapter \<Rightarrow> (adapter_ret \<times> u32 option) result" where
  "get_dns_body i type have s =
     (if \<not> have \<or> TCPIP_ADAPTER_DNS_MAX \<le> type \<or> TCPIP_ADAPTER_IF_MAX \<le> i then Inr (INVALID_PARAMS, None)
      else if is_client_if i then Inr (ADAPTER_OK, Some (dns_getserver (of_nat type) s))
      else Inr (ADAPTER_OK, Some (dhcps_dns_getserver (a_dhcps s))))"

definition tcpip_adapter_get_dns_info where
  "tcpip_adapter_get_dns_info in_task i type have = ipc_self in_task (get_dns_body i type have)"

section \<open>The DHCP server\<close>

definition tcpip_adapter_dhcps_get_status :: "nat \<Rightarrow> adapter \<Rightarrow> adapter_ret \<times> dhcp_status" where
  "tcpip_adapter_dhcps_get_status i s = (ADAPTER_OK, dhcps_status s)"

definition dhcps_start_body :: "adapter_env \<Rightarrow> nat \<Rightarrow> adapter \<Rightarrow> (adapter_ret \<times> adapter) result" where
  "dhcps_start_body e i s =
     (if i \<noteq> TCPIP_ADAPTER_IF_AP \<or> TCPIP_ADAPTER_IF_MAX \<le> i then Inr (INVALID_PARAMS, s)
      else if dhcps_status s \<noteq> DHCP_STARTED then
        (case esp_netif s i of
           Some p \<Rightarrow>
             if netif_is_up (Some p) (a_net s) then
               bindE (start_dhcp_server e p (ii_ip (current_info TCPIP_ADAPTER_IF_AP s)) s) (\<lambda>s'.
                 Inr (ADAPTER_OK, s'))
             else Inr (ADAPTER_OK, s\<lparr>dhcps_status := DHCP_INIT\<rparr>)
         | None \<Rightarrow> Inr (ADAPTER_OK, s\<lparr>dhcps_status := DHCP_INIT\<rparr>))
      else Inr (DHCP_ALREADY_STARTED, s))"

definition tcpip_adapter_dhcps_start where
  "tcpip_adapter_dhcps_start in_task e i = ipc_self in_task (dhcps_start_body e i)"

definition dhcps_stop_body :: "nat \<Rightarrow> adapter \<Rightarrow> (adapter_ret \<times> adapter) result" where
  "dhcps_stop_body i s =
     (if i \<noteq> TCPIP_ADAPTER_IF_AP \<or> TCPIP_ADAPTER_IF_MAX \<le> i then Inr (INVALID_PARAMS, s)
      else case dhcps_status s of
        DHCP_STARTED \<Rightarrow>
          (case esp_netif s i of
             Some p \<Rightarrow> Inr (ADAPTER_OK, (stop_dhcp_server p s)\<lparr>dhcps_status := DHCP_STOPPED\<rparr>)
           | None \<Rightarrow> Inr (IF_NOT_READY, s))
      | DHCP_STOPPED \<Rightarrow> Inr (DHCP_ALREADY_STOPPED, s)
      | DHCP_INIT \<Rightarrow> Inr (ADAPTER_OK, s\<lparr>dhcps_status := DHCP_STOPPED\<rparr>))"

definition tcpip_adapter_dhcps_stop where
  "tcpip_adapter_dhcps_stop in_task i = ipc_self in_task (dhcps_stop_body i)"

section \<open>The DHCP clients\<close>

definition tcpip_adapter_dhcpc_option :: adapter_ret where
  "tcpip_adapter_dhcpc_option = ADAPTER_OK"

definition tcpip_adapter_dhcpc_get_status :: "nat \<Rightarrow> adapter \<Rightarrow> adapter_ret \<times> dhcp_status" where
  "tcpip_adapter_dhcpc_get_status i s = (ADAPTER_OK, dhcpc_status s i)"

definition zero_addr :: "netif \<Rightarrow> netif" where
  "zero_addr n = n\<lparr>nf_ip := 0, nf_netmask := 0, nf_gw := 0\<rparr>"

definition set_dhcpc_status :: "nat \<Rightarrow> dhcp_status \<Rightarrow> adapter \<Rightarrow> adapter" where
  "set_dhcpc_status i st s = s\<lparr>dhcpc_status := (dhcpc_status s)(i := st)\<rparr>"

definition dhcpc_start_body :: "adapter_env \<Rightarrow> nat \<Rightarrow> adapter \<Rightarrow> (adapter_ret \<times> adapter) result" where
  "dhcpc_start_body e i s =
     (if \<not> is_client_if i \<or> TCPIP_ADAPTER_IF_MAX \<le> i then Inr (INVALID_PARAMS, s)
      else if dhcpc_status s i \<noteq> DHCP_STARTED then
        let s1 = dns_clear_servers True (tcpip_adapter_reset_ip_info i s) in
        case esp_netif s1 i of
          None \<Rightarrow> Inr (ADAPTER_OK, set_dhcpc_status i DHCP_INIT s1)
        | Some p \<Rightarrow>
            if \<not> netif_is_up (Some p) (a_net s1) then Inr (ADAPTER_OK, set_dhcpc_status i DHCP_INIT s1)
            else
              let s2 = tcpip_adapter_start_ip_lost_timer i (with_net (upd_nif p zero_addr) s1);
                  (err, net) = dhcp_start e p (a_net s2);
                  s3 = s2\<lparr>a_net := net\<rparr>
              in if err \<noteq> ERR_OK then Inr (DHCPC_START_FAILED, s3)
                 else Inr (ADAPTER_OK, set_dhcpc_status i DHCP_STARTED (with_net (dhcp_set_cb e p) s3))
      else Inr (DHCP_ALREADY_STARTED, s))"

definition tcpip_adapter_dhcpc_start where
  "tcpip_adapter_dhcpc_start in_task e i = ipc_self in_task (dhcpc_start_body e i)"

definition dhcpc_stop_body :: "adapter_env \<Rightarrow> nat \<Rightarrow> adapter \<Rightarrow> (adapter_ret \<times> adapter) result" where
  "dhcpc_stop_body e i s =
     (if \<not> is_client_if i \<or> TCPIP_ADAPTER_IF_MAX \<le> i then Inr (INVALID_PARAMS, s)
      else case dhcpc_status s i of
        DHCP_STARTED \<Rightarrow>
          (case esp_netif s i of
             Some p \<Rightarrow>
               Inr (ADAPTER_OK, set_dhcpc_status i DHCP_STOPPED
                 (tcpip_adapter_start_ip_lost_timer i
                   (tcpip_adapter_reset_ip_info i (with_net (dhcp_stop e p) s))))
           | None \<Rightarrow> Inr (IF_NOT_READY, s))
      | DHCP_STOPPED \<Rightarrow> Inr (DHCP_ALREADY_STOPPED, s)
      | DHCP_INIT \<Rightarrow> Inr (ADAPTER_OK, set_dhcpc_status i DHCP_STOPPED s))"

definition tcpip_adapter_dhcpc_stop where
  "tcpip_adapter_dhcpc_stop in_task e i = ipc_self in_task (dhcpc_stop_body e i)"

section \<open>Stations, host names, drivers\<close>

definition tcpip_adapter_get_sta_list ::
  "nat \<Rightarrow> byte list list option \<Rightarrow> bool \<Rightarrow> adapter \<Rightarrow> (adapter_ret \<times> (byte list \<times> u32) list) result" where
  \<comment> \<open>the size of the arrays of stations; the stations of the driver; the address stays zero for a
     station without a lease\<close>
  "tcpip_adapter_get_sta_list max_conn macs have s =
     (case macs of
        None \<Rightarrow> Inr (INVALID_PARAMS, [])
      | Some ms \<Rightarrow>
          if \<not> have then Inr (INVALID_PARAMS, [])
          else if max_conn < length ms then Inl BufferOverflow
          else Inr (ADAPTER_OK, map (\<lambda>m. (take 6 m,
                 case dhcp_search_ip_on_mac (take 6 m) (plist (a_dhcps s)) of None \<Rightarrow> 0 | Some ip \<Rightarrow> ip)) ms))"

definition TCPIP_HOSTNAME_MAX_SIZE :: nat where "TCPIP_HOSTNAME_MAX_SIZE = 32"

definition set_hostname_body :: "nat \<Rightarrow> string option \<Rightarrow> adapter \<Rightarrow> (adapter_ret \<times> adapter) result" where
  "set_hostname_body i hostname s =
     (case hostname of
        None \<Rightarrow> Inr (INVALID_PARAMS, s)
      | Some h \<Rightarrow>
          if TCPIP_ADAPTER_IF_MAX \<le> i \<or> TCPIP_HOSTNAME_MAX_SIZE < length h then Inr (INVALID_PARAMS, s)
          else case esp_netif s i of
            None \<Rightarrow> Inr (IF_NOT_READY, s)
          | Some p \<Rightarrow>
              bindE (in_buffer (TCPIP_HOSTNAME_MAX_SIZE + 1) h) (\<lambda>h'.
                Inr (ADAPTER_OK, with_net (upd_nif p (\<lambda>n. n\<lparr>nf_hostname := h'\<rparr>)) s)))"

definition tcpip_adapter_set_hostname where
  "tcpip_adapter_set_hostname in_task i hostname = ipc_self in_task (set_hostname_body i hostname)"

definition tcpip_adapter_get_hostname :: "nat \<Rightarrow> bool \<Rightarrow> adapter \<Rightarrow> adapter_ret \<times> string option" where
  "tcpip_adapter_get_hostname i have s =
     (if TCPIP_ADAPTER_IF_MAX \<le> i \<or> \<not> have then (INVALID_PARAMS, None)
      else case esp_netif s i of
        None \<Rightarrow> (INVALID_PARAMS, None)
      | Some p \<Rightarrow> (ADAPTER_OK, Some (nf_hostname (n_store (a_net s) p))))"

datatype esp_interface = ESP_IF_WIFI_STA | ESP_IF_WIFI_AP | ESP_IF_ETH | ESP_IF_MAX

definition tcpip_adapter_get_esp_if :: "nptr option \<Rightarrow> adapter \<Rightarrow> esp_interface" where
  "tcpip_adapter_get_esp_if dev s =
     (if dev = esp_netif s TCPIP_ADAPTER_IF_STA then ESP_IF_WIFI_STA
      else if dev = esp_netif s TCPIP_ADAPTER_IF_AP then ESP_IF_WIFI_AP
      else if dev = esp_netif s TCPIP_ADAPTER_IF_ETH then ESP_IF_ETH
      else ESP_IF_MAX)"

definition tcpip_adapter_eth_input :: "bool \<Rightarrow> bool \<Rightarrow> bool \<Rightarrow> adapter \<Rightarrow> rx_call list" where
  "tcpip_adapter_eth_input buffer alloc_ok accepted s =
     ethernetif_input (esp_netif s TCPIP_ADAPTER_IF_ETH) buffer alloc_ok accepted (a_net s)"

definition tcpip_adapter_sta_input :: "bool \<Rightarrow> bool \<Rightarrow> bool \<Rightarrow> bool \<Rightarrow> adapter \<Rightarrow> rx_call list" where
  "tcpip_adapter_sta_input buffer eb alloc_ok accepted s =
     wlanif_input (esp_netif s TCPIP_ADAPTER_IF_STA) buffer eb alloc_ok accepted (a_net s)"

definition tcpip_adapter_ap_input :: "bool \<Rightarrow> bool \<Rightarrow> bool \<Rightarrow> bool \<Rightarrow> adapter \<Rightarrow> rx_call list" where
  "tcpip_adapter_ap_input buffer eb alloc_ok accepted s =
     wlanif_input (esp_netif s TCPIP_ADAPTER_IF_AP) buffer eb alloc_ok accepted (a_net s)"

end
