(* ===== verification/Adapter_Inv.thy ===== *)
theory Adapter_Inv
  imports Adapter_Services Netif_Props Dhcp_Props
begin

text \<open>
  The adapter as a system: its operations as one datatype, the states they reach, and the invariant of
  these states, which ties together the list of interfaces, the states of server and clients, and the
  leases of the server.
\<close>

section \<open>Operations and reachable states\<close>

datatype adapter_op =
    OpStart nat "byte list option" "ip_info option"
  | OpStop nat
  | OpUp nat
  | OpDown nat
  | OpSetOld nat "ip_info option"
  | OpSetIp nat "ip_info option"
  | OpOption opt_mode u32 "opt_value option" u32
  | OpSetDns nat nat "u32 option"
  | OpDhcpsStart nat
  | OpDhcpsStop nat
  | OpDhcpcStart nat
  | OpDhcpcStop nat
  | OpHostname nat "string option"
  | OpCallback "nptr option"                 \<comment> \<open>the DHCP client calls the adapter\<close>
  | OpTimer nat                              \<comment> \<open>the timer of an interface expires\<close>
  | OpPacket mem_ok "packet option"          \<comment> \<open>a packet for the DHCP server\<close>
  | OpTick                                   \<comment> \<open>a second of its timer\<close>

definition run_server ::
  "(dhcps \<Rightarrow> (udp_call list \<times> dhcps) result) \<Rightarrow> adapter \<Rightarrow> (adapter_ret \<times> adapter) result" where
  "run_server f s =
     bindE (f (a_dhcps s)) (\<lambda>(out, d). Inr (ADAPTER_OK, adapter_call [ServerUdp out] (s\<lparr>a_dhcps := d\<rparr>)))"

fun exec_op :: "adapter_env \<Rightarrow> bool \<Rightarrow> adapter_op \<Rightarrow> adapter \<Rightarrow> (adapter_ret \<times> adapter) result" where
  "exec_op e t (OpStart i mac info) s =
     (if i = TCPIP_ADAPTER_IF_STA then tcpip_adapter_sta_start t e mac info s
      else if i = TCPIP_ADAPTER_IF_AP then tcpip_adapter_ap_start t e mac info s
      else tcpip_adapter_eth_start t e mac info s)"
| "exec_op e t (OpStop i) s = tcpip_adapter_stop t e i s"
| "exec_op e t (OpUp i) s = tcpip_adapter_up t i s"
| "exec_op e t (OpDown i) s = tcpip_adapter_down t e i s"
| "exec_op e t (OpSetOld i info) s = tcpip_adapter_set_old_ip_info t i info s"
| "exec_op e t (OpSetIp i info) s = tcpip_adapter_set_ip_info t i info s"
| "exec_op e t (OpOption m opt v n) s = (case tcpip_adapter_dhcps_option m opt v n s of (r, _, s') \<Rightarrow> Inr (r, s'))"
| "exec_op e t (OpSetDns i type d) s = tcpip_adapter_set_dns_info t i type d s"
| "exec_op e t (OpDhcpsStart i) s = tcpip_adapter_dhcps_start t e i s"
| "exec_op e t (OpDhcpsStop i) s = tcpip_adapter_dhcps_stop t i s"
| "exec_op e t (OpDhcpcStart i) s = tcpip_adapter_dhcpc_start t e i s"
| "exec_op e t (OpDhcpcStop i) s = tcpip_adapter_dhcpc_stop t e i s"
| "exec_op e t (OpHostname i h) s = tcpip_adapter_set_hostname t i h s"
| "exec_op e t (OpCallback p) s = Inr (ADAPTER_OK, tcpip_adapter_dhcpc_cb p s)"
| "exec_op e t (OpTimer i) s = Inr (ADAPTER_OK, tcpip_adapter_ip_lost_timer i s)"
| "exec_op e t (OpPacket ok p) s = run_server (handle_dhcp ok (ii_gw (current_info TCPIP_ADAPTER_IF_AP s)) p) s"
| "exec_op e t OpTick s = run_server (\<lambda>d. bindE (dhcps_tick d) (\<lambda>d'. Inr ([], d'))) s"

definition linked :: "adapter \<Rightarrow> nat \<Rightarrow> bool" where
  "linked s i \<longleftrightarrow> (\<exists>ps p. list_ok (a_net s) ps \<and> esp_netif s i = Some p \<and> p \<in> set ps)"

definition if_up :: "adapter \<Rightarrow> nat \<Rightarrow> bool" where
  "if_up s i \<longleftrightarrow> netif_is_up (esp_netif s i) (a_net s)"

fun op_ok :: "adapter_op \<Rightarrow> adapter \<Rightarrow> bool" where
  \<comment> \<open>what the callers keep to: only the three interfaces are started, one that is linked and down is not
     started again, one that was removed is not brought up, and packets come while the server runs\<close>
  "op_ok (OpStart i mac info) s \<longleftrightarrow> i < TCPIP_ADAPTER_IF_MAX \<and> (linked s i \<longrightarrow> if_up s i)"
| "op_ok (OpUp i) s \<longleftrightarrow> (is_client_if i \<and> esp_netif s i \<noteq> None \<longrightarrow> linked s i)"
| "op_ok (OpPacket ok p) s \<longleftrightarrow> dhcps_status s = DHCP_STARTED"
| "op_ok _ s \<longleftrightarrow> True"

definition net_frame :: "nstate \<Rightarrow> nstate \<Rightarrow> bool" where
  \<comment> \<open>links, flags and server control blocks are as they were: only addresses and client data differ\<close>
  "net_frame n n' \<longleftrightarrow> n_list n' = n_list n \<and> n_default n' = n_default n \<and>
     (\<forall>q. nf_next (n_store n' q) = nf_next (n_store n q) \<and> nf_flags (n_store n' q) = nf_flags (n_store n q) \<and>
          nf_dhcps_pcb (n_store n' q) = nf_dhcps_pcb (n_store n q))"

inductive adapter_reach :: "adapter_env \<Rightarrow> adapter \<Rightarrow> bool" for e where
  init: "adapter_reach e (tcpip_adapter_init adapter_initial)"
| op: "adapter_reach e s \<Longrightarrow> op_ok x s \<Longrightarrow> exec_op e t x s = Inr (r, s') \<Longrightarrow> adapter_reach e s'"
| client: "adapter_reach e s \<Longrightarrow> net_frame (a_net s) net \<Longrightarrow> adapter_reach e (s\<lparr>a_net := net\<rparr>)"

definition client_ok :: "adapter_env \<Rightarrow> bool" where
  \<comment> \<open>the DHCP client changes addresses and its own data, nothing else of the interfaces\<close>
  "client_ok e \<longleftrightarrow> (\<forall>p n. net_frame n (snd (dhcp_start e p n)) \<and> net_frame n (dhcp_stop e p n) \<and>
     net_frame n (snd (dhcp_release e p n)) \<and> net_frame n (dhcp_cleanup e p n) \<and> net_frame n (dhcp_set_cb e p n))"

section \<open>The invariant\<close>

definition nets_ok :: "adapter \<Rightarrow> bool" where
  "nets_ok s \<longleftrightarrow> (\<exists>ps. list_ok (a_net s) ps \<and> (\<forall>p \<in> set ps. \<exists>i. esp_netif s i = Some p) \<and>
     (\<forall>i p. esp_netif s i = Some p \<longrightarrow> flag_set NETIF_FLAG_UP (n_store (a_net s) p) \<longrightarrow> p \<in> set ps) \<and>
     (\<forall>p. n_default (a_net s) = Some p \<longrightarrow> p \<in> set ps))"

definition ptrs_ok :: "adapter \<Rightarrow> bool" where
  "ptrs_ok s \<longleftrightarrow> (\<forall>i p. esp_netif s i = Some p \<longrightarrow> i < TCPIP_ADAPTER_IF_MAX \<and> p < a_fresh s) \<and>
     (\<forall>i j p. esp_netif s i = Some p \<longrightarrow> esp_netif s j = Some p \<longrightarrow> i = j)"

definition server_ok :: "adapter \<Rightarrow> bool" where
  "server_ok s \<longleftrightarrow>
     (dhcps_status s = DHCP_STARTED \<longrightarrow> if_up s TCPIP_ADAPTER_IF_AP) \<and>
     (if_up s TCPIP_ADAPTER_IF_AP \<longrightarrow> dhcps_status s \<noteq> DHCP_INIT) \<and>
     (\<forall>p. esp_netif s TCPIP_ADAPTER_IF_AP = Some p \<longrightarrow>
        nf_dhcps_pcb (n_store (a_net s) p) = (dhcps_status s = DHCP_STARTED)) \<and>
     (if dhcps_status s = DHCP_STARTED then \<exists>ip. dhcps_reachable ip (a_dhcps s) else plist (a_dhcps s) = [])"

definition clients_ok :: "adapter \<Rightarrow> bool" where
  "clients_ok s \<longleftrightarrow> (\<forall>i. dhcpc_status s i = DHCP_STARTED \<longrightarrow> is_client_if i \<and> if_up s i)"

definition adapter_inv :: "adapter \<Rightarrow> bool" where
  "adapter_inv s \<longleftrightarrow> nets_ok s \<and> ptrs_ok s \<and> server_ok s \<and> clients_ok s"

definition same_core :: "adapter \<Rightarrow> adapter \<Rightarrow> bool" where
  \<comment> \<open>nothing the invariant speaks of has changed\<close>
  "same_core s s' \<longleftrightarrow> net_frame (a_net s) (a_net s') \<and> esp_netif s' = esp_netif s \<and>
     a_fresh s' = a_fresh s \<and> dhcps_status s' = dhcps_status s \<and> dhcpc_status s' = dhcpc_status s \<and>
     a_dhcps s' = a_dhcps s"

lemma net_frame_refl [simp]: "net_frame n n"
  by (simp add: net_frame_def)

lemma net_frame_trans: "net_frame n n' \<Longrightarrow> net_frame n' n'' \<Longrightarrow> net_frame n n''"
  by (simp add: net_frame_def)

lemma same_core_refl [simp]: "same_core s s"
  by (simp add: same_core_def)

lemma same_core_trans: "same_core s s' \<Longrightarrow> same_core s' s'' \<Longrightarrow> same_core s s''"
  by (auto simp: same_core_def intro: net_frame_trans)

lemma net_frame_up: "net_frame n n' \<Longrightarrow> netif_is_up o_p n' = netif_is_up o_p n"
  by (simp add: net_frame_def netif_is_up_def flag_set_def split: option.split)

lemma net_frame_links: "net_frame n n' \<Longrightarrow> list_ok n' ps = list_ok n ps"
  by (rule list_ok_links) (simp add: net_frame_def same_links_def)

lemma net_frame_flag: "net_frame n n' \<Longrightarrow> flag_set f (n_store n' p) = flag_set f (n_store n p)"
  by (simp add: net_frame_def flag_set_def)

lemma same_core_inv:
  assumes "same_core s s'" "adapter_inv s"
  shows "adapter_inv s'"
proof -
  have f: "net_frame (a_net s) (a_net s')" using assms(1) by (simp add: same_core_def)
  have "nets_ok s'"
    using assms net_frame_links [OF f] net_frame_flag [OF f] f
    by (simp add: adapter_inv_def nets_ok_def same_core_def net_frame_def)
  moreover have "ptrs_ok s'" using assms by (simp add: adapter_inv_def ptrs_ok_def same_core_def)
  moreover have u: "if_up s' i = if_up s i" for i
    using assms(1) net_frame_up [OF f] by (simp add: if_up_def same_core_def)
  moreover have "server_ok s'"
    using assms u f by (simp add: adapter_inv_def server_ok_def same_core_def net_frame_def)
  moreover have "clients_ok s'" using assms u by (simp add: adapter_inv_def clients_ok_def same_core_def)
  ultimately show ?thesis by (simp add: adapter_inv_def)
qed

end
