(* ===== verification/Adapter_Keeps.thy ===== *)
theory Adapter_Keeps
  imports Adapter_Inv
begin

text \<open>
  The operations of the adapter on the interfaces (up, down, start, stop) keep the invariant, and those
  that only write addresses, events and name servers leave everything it speaks of as it was.
\<close>

section \<open>Operations that change nothing the invariant speaks of\<close>

named_theorems core_intros \<open>operations that keep the core of the adapter\<close>

lemma with_net_core: "net_frame (a_net s) (f (a_net s)) \<Longrightarrow> same_core s (with_net f s)"
  by (simp add: same_core_def with_net_def)

lemma net_frame_set_addr [core_intros]: "net_frame n (netif_set_addr p a m g n)"
  by (simp add: net_frame_def nif_simps)

lemma net_frame_upd:
  "(\<And>n. nf_next (f n) = nf_next n \<and> nf_flags (f n) = nf_flags n \<and> nf_dhcps_pcb (f n) = nf_dhcps_pcb n) \<Longrightarrow>
   net_frame n (upd_nif p f n)"
  by (simp add: net_frame_def)

lemma same_core_fields [core_intros]:
  "same_core s (s\<lparr>esp_ip := a\<rparr>)" "same_core s (s\<lparr>esp_ip_old := a\<rparr>)"
  "same_core s (s\<lparr>timer_running := t\<rparr>)" "same_core s (s\<lparr>dns_servers := d\<rparr>)"
  "same_core s (s\<lparr>esp_netif_init_fn := h\<rparr>)" "same_core s (adapter_call cs s)"
  "same_core s (s\<lparr>esp_ip := a, esp_ip_old := b\<rparr>)"
  by (simp_all add: same_core_def adapter_call_def)

lemma same_core_call: "same_core s s' \<Longrightarrow> same_core s (adapter_call cs s')"
  by (simp add: same_core_def adapter_call_def)

lemma reset_core [core_intros]: "same_core s (tcpip_adapter_reset_ip_info i s)"
  by (simp add: tcpip_adapter_reset_ip_info_def core_intros)

lemma lost_timer_core [core_intros]:
  "same_core s (tcpip_adapter_start_ip_lost_timer i s)" "same_core s (tcpip_adapter_ip_lost_timer i s)"
  by (auto simp: tcpip_adapter_start_ip_lost_timer_def tcpip_adapter_ip_lost_timer_def Let_def
      same_core_def adapter_call_def)

lemma notify_core [core_intros]: "same_core s (dhcpc_notify i n s)" "same_core s (tcpip_adapter_dhcpc_cb p s)"
proof -
  show *: "same_core s (dhcpc_notify i n s)" for i n
    by (auto simp: dhcpc_notify_def Let_def core_intros intro: same_core_call)
  show "same_core s (tcpip_adapter_dhcpc_cb p s)"
    by (simp add: tcpip_adapter_dhcpc_cb_def * split: option.split)
qed

lemma dns_core [core_intros]: "same_core s (dns_setserver i d s)" "same_core s (dns_clear_servers b s)"
proof -
  show *: "same_core s (dns_setserver i d s)" for i d s by (simp add: dns_setserver_def core_intros)
  have "same_core s (clear_servers_loop b k n s)" for k n
    by (induction n arbitrary: k s) (auto intro: same_core_trans [OF *])
  then show "same_core s (dns_clear_servers b s)" by (simp add: dns_clear_servers_def)
qed

lemma static_event_core [core_intros]: "same_core s (static_ip_event i info s)"
  by (auto simp: static_ip_event_def core_intros intro: same_core_call)

lemma set_ip_info_core: "set_ip_info_body i info s = Inr (r, s') \<Longrightarrow> same_core s s'"
proof (cases info)
  case (Some a)
  assume h: "set_ip_info_body i info s = Inr (r, s')"
  let ?s1 = "if is_client_if i then dns_clear_servers True s else s"
  let ?s2 = "?s1\<lparr>esp_ip := (esp_ip ?s1)(i := a)\<rparr>"
  have 1: "same_core s ?s2" by (auto intro: same_core_trans [OF _ same_core_fields(1)] core_intros)
  have 2: "same_core ?s2 (static_ip_event i a (with_net (netif_set_addr p x y z) ?s2))" for p x y z
    by (rule same_core_trans [OF with_net_core static_event_core]) (rule core_intros)
  show ?thesis using h 1 same_core_trans [OF 1 2] Some
    by (auto simp: set_ip_info_body_def Let_def split: if_splits option.splits)
qed (simp add: set_ip_info_body_def)

lemma set_hostname_core: "set_hostname_body i h s = Inr (r, s') \<Longrightarrow> same_core s s'"
  by (auto simp: set_hostname_body_def bindE_Inr_iff split: option.splits if_splits
      intro!: with_net_core net_frame_upd)

section \<open>The default interface\<close>

lemma update_default_inv:
  assumes "adapter_inv s"
  shows "adapter_inv (tcpip_adapter_update_default_netif s)"
proof -
  have d: "adapter_inv (with_net (netif_set_default o_p) s)" if "o_p = esp_netif s i" "if_up s i" for o_p i
  proof -
    have "nets_ok (with_net (netif_set_default o_p) s)"
      using assms that
      by (auto simp: adapter_inv_def nets_ok_def with_net_def netif_set_default_def list_ok_def if_up_def
          netif_is_up_def split: option.splits)
    moreover have "if_up (with_net (netif_set_default o_p) s) j = if_up s j" for j
      by (simp add: if_up_def with_net_def netif_set_default_def netif_is_up_def split: option.split)
    ultimately show ?thesis
      using assms
      by (simp add: adapter_inv_def ptrs_ok_def server_ok_def clients_ok_def)
         (simp add: with_net_def netif_set_default_def)
  qed
  show ?thesis
    unfolding tcpip_adapter_update_default_netif_def
    using assms d [OF refl, of TCPIP_ADAPTER_IF_STA] d [OF refl, of TCPIP_ADAPTER_IF_ETH]
      d [OF refl, of TCPIP_ADAPTER_IF_AP]
    by (simp add: if_up_def)
qed


section \<open>Flags\<close>

lemma with_net_simps [simp]:
  "a_net (with_net f s) = f (a_net s)" "esp_netif (with_net f s) = esp_netif s"
  "a_fresh (with_net f s) = a_fresh s" "dhcps_status (with_net f s) = dhcps_status s"
  "dhcpc_status (with_net f s) = dhcpc_status s" "a_dhcps (with_net f s) = a_dhcps s"
  "esp_netif_init_fn (with_net f s) = esp_netif_init_fn s" "tcpip_inited (with_net f s) = tcpip_inited s"
  by (simp_all add: with_net_def)

lemma adapter_call_simps [simp]:
  "a_net (adapter_call cs s) = a_net s" "esp_netif (adapter_call cs s) = esp_netif s"
  "a_fresh (adapter_call cs s) = a_fresh s" "dhcps_status (adapter_call cs s) = dhcps_status s"
  "dhcpc_status (adapter_call cs s) = dhcpc_status s" "a_dhcps (adapter_call cs s) = a_dhcps s"
  "a_out (adapter_call cs s) = a_out s @ cs" "tcpip_inited (adapter_call cs s) = tcpip_inited s"
  by (simp_all add: adapter_call_def)

lemma if_up_set_up: "if_up (with_net (netif_set_up p) s) j \<longleftrightarrow> esp_netif s j = Some p \<or> if_up s j"
  by (cases "esp_netif s j"; cases "esp_netif s j = Some p")
    (auto simp: if_up_def netif_is_up_def nif_simps)

lemma if_up_set_down: "if_up (with_net (netif_set_down p) s) j \<longleftrightarrow> esp_netif s j \<noteq> Some p \<and> if_up s j"
  by (cases "esp_netif s j"; cases "esp_netif s j = Some p")
    (auto simp: if_up_def netif_is_up_def nif_simps)

lemma list_ok_unique: "list_ok n ps \<Longrightarrow> list_ok n qs \<Longrightarrow> ps = qs"
  by (auto simp: list_ok_def dest: chain_fun)

lemma linked_in: "linked s i \<Longrightarrow> list_ok (a_net s) ps \<Longrightarrow> esp_netif s i = Some p \<Longrightarrow> p \<in> set ps"
  by (auto simp: linked_def dest: list_ok_unique)

lemma nets_ok_set_up:
  assumes "nets_ok s" "esp_netif s i = Some p" "linked s i"
  shows "nets_ok (with_net (netif_set_up p) s)"
proof -
  obtain ps where ps: "list_ok (a_net s) ps" "\<forall>p \<in> set ps. \<exists>i. esp_netif s i = Some p"
    "\<forall>i p. esp_netif s i = Some p \<longrightarrow> flag_set NETIF_FLAG_UP (n_store (a_net s) p) \<longrightarrow> p \<in> set ps"
    "\<forall>p. n_default (a_net s) = Some p \<longrightarrow> p \<in> set ps"
    using assms(1) unfolding nets_ok_def by blast
  have "list_ok (netif_set_up p (a_net s)) ps"
    using ps(1) list_ok_links [of "a_net s" "netif_set_up p (a_net s)"] by (simp add: same_links_def nif_simps)
  moreover have "flag_set NETIF_FLAG_UP (n_store (netif_set_up p (a_net s)) q) \<longrightarrow> q \<in> set ps"
    if "esp_netif s j = Some q" for j q
    using that ps(3) linked_in [OF assms(3) ps(1) assms(2)] by (cases "q = p") (auto simp: nif_simps)
  ultimately show ?thesis using ps(2,4) unfolding nets_ok_def by (auto simp: nif_simps)
qed

lemma nets_ok_set_down:
  assumes "nets_ok s"
  shows "nets_ok (with_net (netif_set_down p) s)"
proof -
  obtain ps where ps: "list_ok (a_net s) ps" "\<forall>p \<in> set ps. \<exists>i. esp_netif s i = Some p"
    "\<forall>i p. esp_netif s i = Some p \<longrightarrow> flag_set NETIF_FLAG_UP (n_store (a_net s) p) \<longrightarrow> p \<in> set ps"
    "\<forall>p. n_default (a_net s) = Some p \<longrightarrow> p \<in> set ps"
    using assms unfolding nets_ok_def by blast
  have "list_ok (netif_set_down p (a_net s)) ps"
    using ps(1) list_ok_links [of "a_net s" "netif_set_down p (a_net s)"] by (simp add: same_links_def nif_simps)
  moreover have "flag_set NETIF_FLAG_UP (n_store (netif_set_down p (a_net s)) q) \<longrightarrow> q \<in> set ps"
    if "esp_netif s j = Some q" for j q
    using that ps(3) by (cases "q = p") (auto simp: nif_simps)
  ultimately show ?thesis using ps(2,4) unfolding nets_ok_def by (auto simp: nif_simps)
qed

lemma set_up_client_inv:
  assumes "adapter_inv s" "esp_netif s i = Some p" "linked s i" "i \<noteq> TCPIP_ADAPTER_IF_AP"
  shows "adapter_inv (with_net (netif_set_up p) s)"
proof -
  have "esp_netif s TCPIP_ADAPTER_IF_AP \<noteq> Some p"
    using assms by (auto simp: adapter_inv_def ptrs_ok_def)
  then show ?thesis
    using assms nets_ok_set_up [of s i p]
    by (auto simp: adapter_inv_def ptrs_ok_def server_ok_def clients_ok_def if_up_set_up nif_simps)
qed

lemma set_down_client_inv:
  assumes "adapter_inv s" "esp_netif s i = Some p" "i \<noteq> TCPIP_ADAPTER_IF_AP" "dhcpc_status s i \<noteq> DHCP_STARTED"
  shows "adapter_inv (with_net (netif_set_down p) s)"
proof -
  have "esp_netif s j = Some p \<longleftrightarrow> j = i" for j
    using assms by (auto simp: adapter_inv_def ptrs_ok_def)
  then show ?thesis
    using assms nets_ok_set_down [of s p]
    by (auto simp: adapter_inv_def ptrs_ok_def server_ok_def clients_ok_def if_up_set_down nif_simps)
qed

lemma up_body_inv:
  assumes "adapter_inv s" "up_body i s = Inr (r, s')" "op_ok (OpUp i) s"
  shows "adapter_inv s'"
proof (cases "is_client_if i \<and> esp_netif s i \<noteq> None")
  case True
  then obtain p where p: "esp_netif s i = Some p" by auto
  let ?s1 = "with_net (netif_set_addr p (Some (ii_ip (esp_ip s i))) (Some (ii_netmask (esp_ip s i)))
    (Some (ii_gw (esp_ip s i)))) s"
  have "linked ?s1 i"
    using assms(3) True net_frame_links [OF net_frame_set_addr] by (auto simp: linked_def)
  moreover have "adapter_inv ?s1" by (rule same_core_inv [OF with_net_core assms(1)]) (rule core_intros)
  moreover have "i \<noteq> TCPIP_ADAPTER_IF_AP" using True by (auto simp: is_client_if_def adapter_ifs)
  ultimately have "adapter_inv (with_net (netif_set_up p) ?s1)"
    using p by (intro set_up_client_inv [of _ i]) auto
  then show ?thesis using assms(2) True p update_default_inv by (auto simp: up_body_def Let_def)
next
  case False
  then show ?thesis using assms(1,2) update_default_inv by (auto simp: up_body_def split: if_splits)
qed

lemma down_body_inv:
  assumes "adapter_inv s" "down_body e i s = Inr (r, s')" "client_ok e"
  shows "adapter_inv s'"
proof (cases "is_client_if i \<and> esp_netif s i \<noteq> None")
  case True
  then obtain p where p: "esp_netif s i = Some p" by auto
  define s1 where "s1 = (if dhcpc_status s i = DHCP_STARTED then
      tcpip_adapter_reset_ip_info i
        ((with_net (dhcp_stop e p) s)\<lparr>dhcpc_status := (dhcpc_status s)(i := DHCP_INIT)\<rparr>) else s)"
  have "adapter_inv (with_net (dhcp_stop e p) s)"
    using assms(1,3) by (intro same_core_inv [OF with_net_core]) (auto simp: client_ok_def)
  then have "adapter_inv ((with_net (dhcp_stop e p) s)\<lparr>dhcpc_status := (dhcpc_status s)(i := DHCP_INIT)\<rparr>)"
    by (auto simp: adapter_inv_def nets_ok_def ptrs_ok_def server_ok_def clients_ok_def if_up_def)
  then have "adapter_inv s1" using assms(1) same_core_inv [OF reset_core] by (auto simp: s1_def)
  moreover have s1: "esp_netif s1 = esp_netif s" "dhcpc_status s1 i \<noteq> DHCP_STARTED"
    by (auto simp: s1_def tcpip_adapter_reset_ip_info_def)
  moreover have "i \<noteq> TCPIP_ADAPTER_IF_AP" using True by (auto simp: is_client_if_def adapter_ifs)
  ultimately have "adapter_inv (with_net (netif_set_down p)
      (with_net (netif_set_addr p (Some IPADDR_ANY) (Some IPADDR_ANY) (Some IPADDR_ANY)) s1))"
    using p by (intro set_down_client_inv [of _ i] same_core_inv [OF with_net_core])
      (auto intro: core_intros)
  then show ?thesis
    using assms(2) True p update_default_inv same_core_inv [OF lost_timer_core(1)]
    by (auto simp: down_body_def Let_def s1_def)
next
  case False
  then show ?thesis using assms(1,2) update_default_inv by (auto simp: down_body_def split: if_splits)
qed


section \<open>Stopping\<close>

lemma remove_inv:
  assumes "adapter_inv s" "esp_netif s i = Some p" "\<not> if_up s i"
    and "netif_remove (Some p) (a_net s) = Inr net"
  shows "adapter_inv (s\<lparr>a_net := net\<rparr>)"
proof -
  obtain ps where ps: "list_ok (a_net s) ps" "\<forall>p \<in> set ps. \<exists>i. esp_netif s i = Some p"
    "\<forall>i p. esp_netif s i = Some p \<longrightarrow> flag_set NETIF_FLAG_UP (n_store (a_net s) p) \<longrightarrow> p \<in> set ps"
    "\<forall>p. n_default (a_net s) = Some p \<longrightarrow> p \<in> set ps"
    using assms(1) unfolding adapter_inv_def nets_ok_def by blast
  from netif_remove_list [OF ps(1), of p] assms(4) have r: "list_ok net (remove1 p ps)"
    "n_default net = (if n_default (a_net s) = Some p then None else n_default (a_net s))"
    "flag_set NETIF_FLAG_UP (n_store net q) = (q \<noteq> p \<and> flag_set NETIF_FLAG_UP (n_store (a_net s) q))"
    "nf_dhcps_pcb (n_store net q) = nf_dhcps_pcb (n_store (a_net s) q)" for q
    by auto
  have down: "\<not> flag_set NETIF_FLAG_UP (n_store (a_net s) p)"
    using assms(2,3) by (simp add: if_up_def netif_is_up_def)
  have up: "if_up (s\<lparr>a_net := net\<rparr>) j = if_up s j" for j
    using down by (auto simp: if_up_def netif_is_up_def r(3) split: option.split)
  have "set (remove1 p ps) = set ps - {p}" using ps(1) by (simp add: list_ok_def)
  then have "nets_ok (s\<lparr>a_net := net\<rparr>)"
    using ps(2-4) r by (auto simp: nets_ok_def split: if_splits)
  then show ?thesis
    using assms(1) up by (simp add: adapter_inv_def ptrs_ok_def server_ok_def clients_ok_def r(4))
qed

lemma stop_dhcp_server_fields [simp]:
  "esp_netif (stop_dhcp_server p s) = esp_netif s" "a_fresh (stop_dhcp_server p s) = a_fresh s"
  "dhcps_status (stop_dhcp_server p s) = dhcps_status s"
  "dhcpc_status (stop_dhcp_server p s) = dhcpc_status s"
  "plist (a_dhcps (stop_dhcp_server p s)) = []"
  "a_net (stop_dhcp_server p s) = upd_nif p (\<lambda>n. n\<lparr>nf_dhcps_pcb := False\<rparr>) (a_net s)"
  by (simp_all add: stop_dhcp_server_def dhcps_stop_def stop_loop_nil)

lemma pcb_update_links: "list_ok (upd_nif p (\<lambda>n. n\<lparr>nf_dhcps_pcb := b\<rparr>) n) ps = list_ok n ps"
  by (rule list_ok_links) (simp add: same_links_def)

lemma pcb_update_up: "netif_is_up o_p (upd_nif p (\<lambda>n. n\<lparr>nf_dhcps_pcb := b\<rparr>) n) = netif_is_up o_p n"
  by (auto simp: netif_is_up_def split: option.split)

lemma nets_ok_pcb:
  assumes "nets_ok s" "esp_netif s' = esp_netif s" "a_net s' = upd_nif p (\<lambda>n. n\<lparr>nf_dhcps_pcb := b\<rparr>) (a_net s)"
  shows "nets_ok s'"
proof -
  have "flag_set f (n_store (a_net s') q) = flag_set f (n_store (a_net s) q)" for f q
    by (simp add: assms(3))
  with assms(1) show ?thesis unfolding nets_ok_def by (simp add: assms(2,3) pcb_update_links)
qed

lemma not_client_ap [simp]: "\<not> is_client_if TCPIP_ADAPTER_IF_AP"
  by (simp add: is_client_if_def adapter_ifs)

lemma ap_server_down_inv:
  assumes "adapter_inv s" "esp_netif s TCPIP_ADAPTER_IF_AP = Some p" "st \<noteq> DHCP_STARTED"
  shows "adapter_inv (with_net (netif_set_down p) ((stop_dhcp_server p s)\<lparr>dhcps_status := st\<rparr>))"
proof -
  let ?s1 = "(stop_dhcp_server p s)\<lparr>dhcps_status := st\<rparr>"
  have e: "esp_netif s j = Some p \<longleftrightarrow> j = TCPIP_ADAPTER_IF_AP" for j
    using assms(1,2) by (auto simp: adapter_inv_def ptrs_ok_def)
  have "nets_ok ?s1" using assms(1) by (auto simp: adapter_inv_def intro: nets_ok_pcb)
  moreover have "if_up ?s1 j = if_up s j" for j by (simp add: if_up_def pcb_update_up)
  moreover from this have "server_ok (with_net (netif_set_down p) ?s1)"
    using assms(2,3) unfolding server_ok_def if_up_set_down by (auto simp: nif_simps)
  moreover have "clients_ok (with_net (netif_set_down p) ?s1)"
    using assms(1) calculation(2) e
    by (auto simp: adapter_inv_def clients_ok_def if_up_set_down)
  ultimately show ?thesis
    using assms(1) nets_ok_set_down [of ?s1 p] by (simp add: adapter_inv_def ptrs_ok_def)
qed

lemma release_client_core:
  assumes "client_ok e" "adapter_inv s"
  shows "adapter_inv (release_client e i p s)" "esp_netif (release_client e i p s) = esp_netif s"
    "dhcpc_status (release_client e i p s) i = DHCP_INIT"
proof -
  obtain cb net where r: "dhcp_release e p (a_net s) = (cb, net)" by (cases "dhcp_release e p (a_net s)")
  have f: "net_frame (a_net s) net" using assms(1) r by (metis client_ok_def snd_conv)
  let ?s2 = "if cb then tcpip_adapter_dhcpc_cb (Some p) (s\<lparr>a_net := net\<rparr>) else s\<lparr>a_net := net\<rparr>"
  have "same_core s (s\<lparr>a_net := net\<rparr>)" using f by (simp add: same_core_def)
  then have 2: "same_core s ?s2" using notify_core(2) same_core_trans by auto
  let ?s3 = "with_net (dhcp_cleanup e p) (with_net (dhcp_stop e p) ?s2)"
  have "same_core ?s2 ?s3"
    using assms(1) by (intro same_core_trans [OF with_net_core with_net_core]) (auto simp: client_ok_def)
  with 2 have 3: "same_core s ?s3" by (rule same_core_trans)
  then have "adapter_inv ?s3" by (rule same_core_inv [OF _ assms(2)])
  then have "adapter_inv (?s3\<lparr>dhcpc_status := (dhcpc_status ?s3)(i := DHCP_INIT)\<rparr>)"
    by (auto simp: adapter_inv_def nets_ok_def ptrs_ok_def server_ok_def clients_ok_def if_up_def)
  then show "adapter_inv (release_client e i p s)"
    by (simp add: release_client_def r Let_def same_core_inv [OF reset_core])
  show "esp_netif (release_client e i p s) = esp_netif s"
    using 3 by (simp add: release_client_def r Let_def same_core_def tcpip_adapter_reset_ip_info_def)
  show "dhcpc_status (release_client e i p s) i = DHCP_INIT"
    by (simp add: release_client_def r Let_def tcpip_adapter_reset_ip_info_def)
qed

lemma stop_body_inv:
  assumes "adapter_inv s" "stop_body e i s = Inr (r, s')" "client_ok e"
  shows "adapter_inv s'"
proof (cases "i < TCPIP_ADAPTER_IF_MAX \<and> esp_netif s i \<noteq> None")
  case True
  then obtain p where i: "i < TCPIP_ADAPTER_IF_MAX" and p: "esp_netif s i = Some p" by auto
  show ?thesis
  proof (cases "if_up s i")
    case False
    then show ?thesis
      using assms(1,2) i p by (auto simp: stop_body_def bindE_Inr_iff if_up_def intro: remove_inv)
  next
    case True
    define s1 where "s1 = (if i = TCPIP_ADAPTER_IF_AP then
        (if dhcps_status (stop_dhcp_server p s) \<noteq> DHCP_STOPPED
         then (stop_dhcp_server p s)\<lparr>dhcps_status := DHCP_INIT\<rparr> else stop_dhcp_server p s)
      else if is_client_if i then release_client e i p s else s)"
    let ?s2 = "with_net (netif_set_down p) s1"
    have "adapter_inv ?s2 \<and> esp_netif s1 = esp_netif s"
    proof (cases "i = TCPIP_ADAPTER_IF_AP")
      case True
      have same: "(stop_dhcp_server p s)\<lparr>dhcps_status := DHCP_STOPPED\<rparr> = stop_dhcp_server p s"
        if "dhcps_status s = DHCP_STOPPED" using that by (intro adapter.equality) simp_all
      show ?thesis
        using ap_server_down_inv [OF assms(1), of p DHCP_INIT]
          ap_server_down_inv [OF assms(1), of p "dhcps_status s"] True p
        by (cases "dhcps_status s = DHCP_STOPPED") (auto simp: s1_def same)
    next
      case False
      with i have c: "is_client_if i" by (auto simp: is_client_if_def adapter_ifs)
      with False have "s1 = release_client e i p s" by (simp add: s1_def)
      then show ?thesis
        using release_client_core [OF assms(3,1), of i p] p False
        by (auto intro: set_down_client_inv [of _ i])
    qed
    then have 2: "adapter_inv ?s2" "esp_netif ?s2 i = Some p" using p by simp_all
    obtain net where "netif_remove (Some p) (a_net ?s2) = Inr net"
      and s': "s' = tcpip_adapter_update_default_netif (?s2\<lparr>a_net := net\<rparr>)"
      using assms(2) i p True unfolding stop_body_def Let_def s1_def
      by (auto simp: if_up_def bindE_Inr_iff)
    moreover have "\<not> if_up ?s2 i" using 2(2) by (simp add: if_up_set_down)
    ultimately show ?thesis using remove_inv [OF 2] update_default_inv by simp
  qed
next
  case False
  then show ?thesis using assms(1,2) by (auto simp: stop_body_def split: if_splits)
qed


section \<open>Starting\<close>

definition is_driver :: "netif_init_fn \<Rightarrow> bool" where
  "is_driver f \<longleftrightarrow> f \<in> {wlanif_init_sta, wlanif_init_ap, ethernetif_init}"

lemma driver_facts:
  assumes "is_driver f"
  shows "fst (f n) = ERR_OK" "\<not> flag_set NETIF_FLAG_UP (snd (f n))"
    "nf_dhcps_pcb (snd (f n)) = nf_dhcps_pcb n" "nf_ip (snd (f n)) = nf_ip n"
    "nf_netmask (snd (f n)) = nf_netmask n" "nf_gw (snd (f n)) = nf_gw n"
  using assms
  by (auto simp: is_driver_def wlanif_init_sta_def wlanif_init_ap_def wlanif_init_def ethernetif_init_def
      low_level_init_def flag_set_def netif_flags)

lemma set_init_fn_core: "same_core s (set_init_fn i f s)"
  by (simp add: set_init_fn_def core_intros)

definition added :: "nat \<Rightarrow> nptr \<Rightarrow> ip_info \<Rightarrow> adapter \<Rightarrow> adapter \<Rightarrow> bool" where
  \<comment> \<open>what a successful \<open>start_netif\<close> does\<close>
  "added i p info s s' \<longleftrightarrow> esp_netif s' = (esp_netif s)(i := Some p) \<and>
     dhcps_status s' = dhcps_status s \<and> dhcpc_status s' = dhcpc_status s \<and> a_dhcps s' = a_dhcps s \<and>
     (esp_netif s i = Some p \<and> a_fresh s' = a_fresh s \<or>
      esp_netif s i = None \<and> p = a_fresh s \<and> a_fresh s' = Suc (a_fresh s)) \<and>
     (\<forall>q. q \<noteq> p \<longrightarrow> n_store (a_net s') q = n_store (a_net s) q) \<and> n_default (a_net s') = n_default (a_net s) \<and>
     \<not> flag_set NETIF_FLAG_UP (n_store (a_net s') p) \<and> \<not> nf_dhcps_pcb (n_store (a_net s') p) \<and>
     netif_info (n_store (a_net s') p) = info"

lemma start_netif_added:
  assumes "list_ok (a_net s) ps" "esp_netif_init_fn s i = Some f" "is_driver f"
    and "start_netif e i mac info s = Inr (True, s')"
    and "\<And>p. esp_netif s i = Some p \<Longrightarrow> p \<notin> set ps" "esp_netif s i = None \<Longrightarrow> a_fresh s \<notin> set ps"
  shows "\<exists>p. added i p info s s' \<and> list_ok (a_net s') (p # ps) \<and> p \<notin> set ps"
proof -
  define p where "p = (case esp_netif s i of Some p \<Rightarrow> p | None \<Rightarrow> a_fresh s)"
  define s1 where "s1 = (case esp_netif s i of Some p \<Rightarrow> s
     | None \<Rightarrow> with_net (upd_nif (a_fresh s) (\<lambda>_. netif_zero))
          (s\<lparr>esp_netif := (esp_netif s)(i := Some (a_fresh s)), a_fresh := a_fresh s + 1\<rparr>))"
  let ?s2 = "with_net (upd_nif p (\<lambda>n. n\<lparr>nf_hwaddr := mac\<rparr>)) s1"
  have pn: "p \<notin> set ps" using assms(5,6) by (simp add: p_def split: option.split)
  have "esp_netif_init_fn ?s2 i = Some f" using assms(2) by (simp add: s1_def split: option.split)
  then obtain b net where a: "netif_add p (ii_ip info) (ii_netmask info) (ii_gw info) (Some f) (a_net ?s2) = Inr (b, net)"
    and s': "s' = ?s2\<lparr>a_net := net\<rparr>"
    using assms(4) by (auto simp: start_netif_def Let_def bindE_Inr_iff p_def s1_def split: option.splits if_splits)
  have st: "q \<noteq> p \<Longrightarrow> n_store (a_net ?s2) q = n_store (a_net s) q" "n_list (a_net ?s2) = n_list (a_net s)"
    "n_default (a_net ?s2) = n_default (a_net s)" for q
    by (auto simp: s1_def p_def split: option.splits)
  have "chain (n_store (a_net ?s2)) (n_list (a_net s)) ps = chain (n_store (a_net s)) (n_list (a_net s)) ps"
    by (rule chain_cong) (use pn st(1) in \<open>metis\<close>)
  then have l: "list_ok (a_net ?s2) ps" using assms(1) st(2) by (simp add: list_ok_def)
  from netif_add_list [OF l pn, of f "ii_ip info" "ii_netmask info" "ii_gw info"] driver_facts(1) [OF assms(3)] a
  obtain n x where n: "list_ok net (p # ps)" "n_default net = n_default (a_net ?s2)"
    "\<forall>q. q \<noteq> p \<longrightarrow> n_store net q = n_store (a_net ?s2) q"
    "n_store net p = (snd (f n))\<lparr>nf_next := x\<rparr>" "nf_ip n = ii_ip info" "nf_netmask n = ii_netmask info"
    "nf_gw n = ii_gw info" "\<not> nf_dhcps_pcb n"
    by auto
  have "added i p info s s'"
    using n st driver_facts [OF assms(3), of n] s'
    by (auto simp: added_def s1_def p_def netif_info_def split: option.splits)
  with n(1) pn s' show ?thesis by auto
qed

lemma start_netif_inv:
  assumes inv: "adapter_inv s" and i: "i < TCPIP_ADAPTER_IF_MAX" "\<not> linked s i" "\<not> if_up s i"
    and f: "esp_netif_init_fn s i = Some f" "is_driver f"
    and st: "start_netif e i mac info s = Inr (True, s')"
  shows "adapter_inv s' \<and> linked s' i \<and> (\<exists>p. added i p info s s')"
proof -
  obtain ps where ps: "list_ok (a_net s) ps" "\<forall>p \<in> set ps. \<exists>i. esp_netif s i = Some p"
    "\<forall>i p. esp_netif s i = Some p \<longrightarrow> flag_set NETIF_FLAG_UP (n_store (a_net s) p) \<longrightarrow> p \<in> set ps"
    "\<forall>p. n_default (a_net s) = Some p \<longrightarrow> p \<in> set ps"
    using inv unfolding adapter_inv_def nets_ok_def by blast
  have pt: "\<And>j q. esp_netif s j = Some q \<Longrightarrow> j < TCPIP_ADAPTER_IF_MAX \<and> q < a_fresh s"
    "\<And>j k q. esp_netif s j = Some q \<Longrightarrow> esp_netif s k = Some q \<Longrightarrow> j = k"
    using inv by (auto simp: adapter_inv_def ptrs_ok_def)
  have "a_fresh s \<notin> set ps" using ps(2) pt(1) by blast
  then obtain p where a: "added i p info s s'" and l: "list_ok (a_net s') (p # ps)" "p \<notin> set ps"
    using start_netif_added [OF ps(1) f st] i(2) ps(1) by (auto simp: linked_def)
  have old: "q \<noteq> p" if "esp_netif s j = Some q" "j \<noteq> i" for j q
    using a that pt by (auto simp: added_def)
  have up: "if_up s' j = if_up s j" for j
  proof (cases "j = i")
    case True
    then show ?thesis using a i(3) by (simp add: if_up_def netif_is_up_def added_def)
  next
    case False
    then show ?thesis using a old by (auto simp: if_up_def netif_is_up_def added_def split: option.split)
  qed
  have link: "linked s' i" using a l(1) by (auto simp: linked_def added_def)
  have "nets_ok s'"
    unfolding nets_ok_def
  proof (intro exI [of _ "p # ps"] conjI ballI allI impI)
    show "list_ok (a_net s') (p # ps)" by (rule l)
    show "\<exists>j. esp_netif s' j = Some q" if "q \<in> set (p # ps)" for q
    proof (cases "q = p")
      case True
      then show ?thesis using a by (auto simp: added_def)
    next
      case False
      with that ps(2) obtain j where "esp_netif s j = Some q" by auto
      moreover from this False a have "j \<noteq> i" by (auto simp: added_def)
      ultimately show ?thesis using a by (auto simp: added_def)
    qed
    show "q \<in> set (p # ps)" if "esp_netif s' j = Some q" "flag_set NETIF_FLAG_UP (n_store (a_net s') q)" for j q
      using that a ps(3) by (cases "q = p") (auto simp: added_def split: if_splits)
    show "q \<in> set (p # ps)" if "n_default (a_net s') = Some q" for q
      using that a ps(4) by (auto simp: added_def)
  qed
  moreover have "ptrs_ok s'"
    using a pt i(1) old by (fastforce simp: ptrs_ok_def added_def)
  moreover have "server_ok s'"
  proof -
    have s: "server_ok s" using inv by (simp add: adapter_inv_def)
    have "nf_dhcps_pcb (n_store (a_net s') q) = (dhcps_status s = DHCP_STARTED)"
      if "esp_netif s' TCPIP_ADAPTER_IF_AP = Some q" for q
    proof (cases "i = TCPIP_ADAPTER_IF_AP")
      case True
      then show ?thesis using s a that i(3) by (auto simp: server_ok_def added_def)
    next
      case False
      then have "esp_netif s TCPIP_ADAPTER_IF_AP = Some q" using a that by (simp add: added_def)
      moreover from this old False have "q \<noteq> p" by blast
      ultimately show ?thesis using s a by (simp add: server_ok_def added_def)
    qed
    with s a up show ?thesis by (simp add: server_ok_def added_def)
  qed
  moreover have "clients_ok s'" using inv a up by (simp add: adapter_inv_def clients_ok_def added_def)
  ultimately show ?thesis using link a by (auto simp: adapter_inv_def)
qed

lemma start_dhcp_server_fields:
  assumes "start_dhcp_server e p ip s = Inr s'"
  shows "esp_netif s' = esp_netif s" "a_fresh s' = a_fresh s" "dhcps_status s' = DHCP_STARTED"
    "dhcpc_status s' = dhcpc_status s" "a_net s' = upd_nif p (\<lambda>n. n\<lparr>nf_dhcps_pcb := True\<rparr>) (a_net s)"
    "plist (a_dhcps s) = [] \<Longrightarrow> dhcps_reachable ip (a_dhcps s')"
    "server_address (a_dhcps s') = ip" "dhcps_poll (a_dhcps s') = dhcps_poll_set ip (dhcps_poll (a_dhcps s))"
proof -
  obtain out d where d: "dhcps_start (ae_udp_ok e) (nf_dhcps_pcb (n_store (a_net s) p)) (nf_ip (n_store (a_net s) p))
      ip (a_dhcps s) = Inr (out, d)"
    and s': "s' = adapter_call [ServerUdp out] (with_net (upd_nif p (\<lambda>n. n\<lparr>nf_dhcps_pcb := True\<rparr>))
      (s\<lparr>a_dhcps := d, dhcps_status := DHCP_STARTED\<rparr>))"
    using assms by (auto simp: start_dhcp_server_def Let_def bindE_Inr_iff)
  show "esp_netif s' = esp_netif s" "a_fresh s' = a_fresh s" "dhcps_status s' = DHCP_STARTED"
    "dhcpc_status s' = dhcpc_status s" "a_net s' = upd_nif p (\<lambda>n. n\<lparr>nf_dhcps_pcb := True\<rparr>) (a_net s)"
    by (simp_all add: s')
  have "ae_udp_ok e" and f: "server_address d = ip" "dhcps_poll d = dhcps_poll_set ip (dhcps_poll (a_dhcps s))"
    using d by (auto simp: dhcps_start_def Let_def split: if_splits)
  then show "server_address (a_dhcps s') = ip" "dhcps_poll (a_dhcps s') = dhcps_poll_set ip (dhcps_poll (a_dhcps s))"
    by (simp_all add: s')
  show "dhcps_reachable ip (a_dhcps s')" if "plist (a_dhcps s) = []"
    using dhcps_reachable.start [of _ _ ip "a_dhcps s" out d] d that f \<open>ae_udp_ok e\<close>
    by (simp add: s')
qed

lemma server_started_inv:
  assumes "nets_ok s" "ptrs_ok s" "clients_ok s" "if_up s TCPIP_ADAPTER_IF_AP"
    and "esp_netif s TCPIP_ADAPTER_IF_AP = Some p" "plist (a_dhcps s) = []"
    and "start_dhcp_server e p ip s = Inr s'"
  shows "adapter_inv s'"
proof -
  note f = start_dhcp_server_fields [OF assms(7)]
  have up: "if_up s' j = if_up s j" for j by (simp add: if_up_def f(1,5) pcb_update_up)
  have "nets_ok s'" by (rule nets_ok_pcb [OF assms(1) f(1,5)])
  moreover have "server_ok s'"
    using assms(4,5) f(3) f(6) [OF assms(6)] by (auto simp: server_ok_def up f(1,5))
  ultimately show ?thesis
    using assms(2,3) by (simp add: adapter_inv_def ptrs_ok_def clients_ok_def up f(1,2,4))
qed

lemma start_ap_server_inv:
  assumes "adapter_inv s" "linked s TCPIP_ADAPTER_IF_AP"
    and "start_ap_server e info s = Inr s'"
  shows "adapter_inv s'"
proof -
  obtain p where p: "esp_netif s TCPIP_ADAPTER_IF_AP = Some p" using assms(2) by (auto simp: linked_def)
  let ?s1 = "with_net (netif_set_up p) s"
  have e: "esp_netif s j = Some p \<longleftrightarrow> j = TCPIP_ADAPTER_IF_AP" for j
    using assms(1) p by (auto simp: adapter_inv_def ptrs_ok_def)
  have 1: "nets_ok ?s1" "ptrs_ok ?s1" "clients_ok ?s1" "if_up ?s1 TCPIP_ADAPTER_IF_AP"
    using assms(1) nets_ok_set_up [OF _ p assms(2)] p
    by (auto simp: adapter_inv_def ptrs_ok_def clients_ok_def if_up_set_up e)
  show ?thesis
  proof (cases "dhcps_status s = DHCP_INIT")
    case True
    then have "plist (a_dhcps ?s1) = []" using assms(1) by (simp add: adapter_inv_def server_ok_def)
    moreover have "start_dhcp_server e p (ii_ip info) ?s1 = Inr s'"
      using assms(3) True p by (simp add: start_ap_server_def Let_def)
    ultimately show ?thesis
      using server_started_inv [OF 1] p by simp
  next
    case False
    then have "s' = ?s1" using assms(3) p by (simp add: start_ap_server_def Let_def)
    moreover have "server_ok ?s1"
      using assms(1) False 1(4) by (auto simp: adapter_inv_def server_ok_def nif_simps)
    ultimately show ?thesis using 1 by (simp add: adapter_inv_def)
  qed
qed

lemma start_body_inv:
  assumes inv: "adapter_inv s" and i: "i < TCPIP_ADAPTER_IF_MAX" "linked s i \<longrightarrow> if_up s i"
    and f: "esp_netif_init_fn s i = Some f" "is_driver f"
    and st: "start_body e i mac info s = Inr (r, s')"
  shows "adapter_inv s'"
proof (cases "mac = None \<or> info = None")
  case True
  then show ?thesis using st inv by (auto simp: start_body_def split: option.splits)
next
  case False
  then obtain m a where ma: "mac = Some m" "info = Some a" by auto
  have lk: "linked s i" if u: "if_up s i"
  proof -
    obtain p where p: "esp_netif s i = Some p" "flag_set NETIF_FLAG_UP (n_store (a_net s) p)"
      using u by (auto simp: if_up_def netif_is_up_def split: option.splits)
    obtain ps where "list_ok (a_net s) ps"
      "\<forall>i p. esp_netif s i = Some p \<longrightarrow> flag_set NETIF_FLAG_UP (n_store (a_net s) p) \<longrightarrow> p \<in> set ps"
      using inv unfolding adapter_inv_def nets_ok_def by blast
    with p show ?thesis unfolding linked_def by blast
  qed
  have br: "(esp_netif s i = None \<or> \<not> netif_is_up (esp_netif s i) (a_net s)) \<longleftrightarrow> \<not> if_up s i"
    by (auto simp: if_up_def netif_is_up_def)
  obtain ok s1 where s1: "(if \<not> if_up s i then start_netif e i m a s else Inr (True, s)) = Inr (ok, s1)"
    "(if \<not> ok then Inr (ADAPTER_NO_MEM, s1)
      else bindE (if i = TCPIP_ADAPTER_IF_AP then start_ap_server e a s1 else Inr s1)
        (\<lambda>s2. Inr (ADAPTER_OK, tcpip_adapter_update_default_netif s2))) = Inr (r, s')"
    using st i(1) unfolding start_body_def ma br by (auto simp: bindE_Inr_iff)
  show ?thesis
  proof (cases ok)
    case False
    then have "start_netif e i m a s = Inr (False, s1)" using s1(1) by (auto split: if_splits)
    then have "s1 = s" by (auto simp: start_netif_def Let_def bindE_Inr_iff split: option.splits if_splits)
    then show ?thesis using s1(2) False inv by simp
  next
    case True
    have 1: "adapter_inv s1 \<and> linked s1 i \<and> a_dhcps s1 = a_dhcps s"
    proof (cases "if_up s i")
      case False
      with i(2) have "\<not> linked s i" by simp
      from start_netif_inv [OF inv i(1) this False f] s1(1) True False
      show ?thesis by (auto simp: added_def)
    next
      case up: True
      then show ?thesis using s1(1) lk inv by simp
    qed
    obtain s2 where s2: "(if i = TCPIP_ADAPTER_IF_AP then start_ap_server e a s1 else Inr s1) = Inr s2"
      "s' = tcpip_adapter_update_default_netif s2"
      using s1(2) True by (auto simp: bindE_Inr_iff)
    have "adapter_inv s2"
    proof (cases "i = TCPIP_ADAPTER_IF_AP")
      case True
      with 1 s2(1) show ?thesis by (auto intro: start_ap_server_inv)
    next
      case False
      with 1 s2(1) show ?thesis by simp
    qed
    then show ?thesis using s2(2) update_default_inv by simp
  qed
qed


end
