(* ===== verification/Adapter_Steps.thy ===== *)
theory Adapter_Steps
  imports Adapter_Keeps
begin

text \<open>
  The operations on the server and the clients keep the invariant, and so does every operation: the
  invariant holds in every reachable state.
\<close>

section \<open>Server, clients, options\<close>

lemma nets_ok_cong: "nets_ok s \<Longrightarrow> a_net s' = a_net s \<Longrightarrow> esp_netif s' = esp_netif s \<Longrightarrow> nets_ok s'"
  by (simp add: nets_ok_def)

lemma dhcps_start_body_inv:
  assumes "adapter_inv s" "dhcps_start_body e i s = Inr (r, s')"
  shows "adapter_inv s'"
proof (cases "i = TCPIP_ADAPTER_IF_AP \<and> dhcps_status s \<noteq> DHCP_STARTED")
  case True
  have pl: "plist (a_dhcps s) = []" using assms(1) True by (simp add: adapter_inv_def server_ok_def)
  show ?thesis
  proof (cases "if_up s TCPIP_ADAPTER_IF_AP")
    case up: True
    then obtain p where p: "esp_netif s TCPIP_ADAPTER_IF_AP = Some p"
      by (auto simp: if_up_def netif_is_up_def split: option.splits)
    then have "start_dhcp_server e p (ii_ip (current_info TCPIP_ADAPTER_IF_AP s)) s = Inr s'"
      using assms(2) True up by (auto simp: dhcps_start_body_def if_up_def bindE_Inr_iff adapter_ifs)
    then show ?thesis
      using server_started_inv [of s p] assms(1) up p pl by (simp add: adapter_inv_def)
  next
    case False
    then have "s' = s\<lparr>dhcps_status := DHCP_INIT\<rparr>"
      using assms(2) True
      by (auto simp: dhcps_start_body_def if_up_def netif_is_up_def adapter_ifs split: option.splits)
    then show ?thesis
      using assms(1) False True pl
      by (auto simp: adapter_inv_def ptrs_ok_def server_ok_def clients_ok_def if_up_def intro: nets_ok_cong)
  qed
next
  case False
  then show ?thesis using assms(1,2) by (auto simp: dhcps_start_body_def split: if_splits)
qed

lemma dhcps_stop_body_inv:
  assumes "adapter_inv s" "dhcps_stop_body i s = Inr (r, s')"
  shows "adapter_inv s'"
proof (cases "i = TCPIP_ADAPTER_IF_AP \<and> dhcps_status s \<noteq> DHCP_STOPPED")
  case True
  show ?thesis
  proof (cases "dhcps_status s")
    case DHCP_STARTED
    show ?thesis
    proof (cases "esp_netif s TCPIP_ADAPTER_IF_AP")
      case None
      then show ?thesis using assms True DHCP_STARTED by (simp add: dhcps_stop_body_def adapter_ifs)
    next
      case (Some p)
      then have s': "s' = (stop_dhcp_server p s)\<lparr>dhcps_status := DHCP_STOPPED\<rparr>"
        using assms(2) True DHCP_STARTED by (simp add: dhcps_stop_body_def adapter_ifs)
      have "nets_ok s'" using assms(1) by (auto simp: adapter_inv_def s' intro: nets_ok_pcb)
      moreover have "if_up s' j = if_up s j" for j by (simp add: if_up_def s' pcb_update_up)
      ultimately show ?thesis
        using assms(1) Some by (simp add: adapter_inv_def ptrs_ok_def server_ok_def clients_ok_def s')
    qed
  next
    case DHCP_INIT
    then have "s' = s\<lparr>dhcps_status := DHCP_STOPPED\<rparr>"
      using assms(2) True by (simp add: dhcps_stop_body_def adapter_ifs)
    with DHCP_INIT assms(1) show ?thesis
      by (auto simp: adapter_inv_def ptrs_ok_def server_ok_def clients_ok_def if_up_def intro: nets_ok_cong)
  qed (use True in simp)
next
  case False
  then show ?thesis using assms by (auto simp: dhcps_stop_body_def split: if_splits)
qed

lemma set_dhcpc_status_inv:
  "adapter_inv s \<Longrightarrow> st \<noteq> DHCP_STARTED \<or> is_client_if i \<and> if_up s i \<Longrightarrow> adapter_inv (set_dhcpc_status i st s)"
  by (auto simp: set_dhcpc_status_def adapter_inv_def ptrs_ok_def server_ok_def clients_ok_def if_up_def
      intro: nets_ok_cong)

lemma dhcpc_start_body_inv:
  assumes "adapter_inv s" "dhcpc_start_body e i s = Inr (r, s')" "client_ok e"
  shows "adapter_inv s'"
proof (cases "is_client_if i \<and> i < TCPIP_ADAPTER_IF_MAX \<and> dhcpc_status s i \<noteq> DHCP_STARTED")
  case True
  let ?s1 = "dns_clear_servers True (tcpip_adapter_reset_ip_info i s)"
  have c1: "same_core s ?s1" by (rule same_core_trans [OF reset_core dns_core(2)])
  then have 1: "adapter_inv ?s1" by (rule same_core_inv [OF _ assms(1)])
  show ?thesis
  proof (cases "if_up ?s1 i")
    case False
    then have "s' = set_dhcpc_status i DHCP_INIT ?s1"
      using assms(2) True
      by (auto simp: dhcpc_start_body_def Let_def if_up_def netif_is_up_def split: option.splits)
    then show ?thesis using set_dhcpc_status_inv [OF 1] by simp
  next
    case up: True
    then obtain p where p: "esp_netif ?s1 i = Some p" by (auto simp: if_up_def netif_is_up_def split: option.splits)
    let ?s2 = "tcpip_adapter_start_ip_lost_timer i (with_net (upd_nif p zero_addr) ?s1)"
    obtain err net where st: "dhcp_start e p (a_net ?s2) = (err, net)" by (cases "dhcp_start e p (a_net ?s2)")
    have c2: "same_core ?s1 ?s2"
      by (intro same_core_trans [OF with_net_core lost_timer_core(1)] net_frame_upd) (simp add: zero_addr_def)
    have c3: "same_core ?s2 (?s2\<lparr>a_net := net\<rparr>)"
      using assms(3) st by (simp add: same_core_def client_ok_def) (metis snd_conv)
    have c4: "same_core (?s2\<lparr>a_net := net\<rparr>) (with_net (dhcp_set_cb e p) (?s2\<lparr>a_net := net\<rparr>))"
      by (rule with_net_core) (use assms(3) in \<open>auto simp: client_ok_def\<close>)
    have c: "same_core ?s1 (?s2\<lparr>a_net := net\<rparr>)" by (rule same_core_trans [OF c2 c3])
    have c': "same_core ?s1 (with_net (dhcp_set_cb e p) (?s2\<lparr>a_net := net\<rparr>))" by (rule same_core_trans [OF c c4])
    have "if_up (with_net (dhcp_set_cb e p) (?s2\<lparr>a_net := net\<rparr>)) i"
      using up c' net_frame_up by (auto simp: if_up_def same_core_def)
    then have "adapter_inv (set_dhcpc_status i DHCP_STARTED (with_net (dhcp_set_cb e p) (?s2\<lparr>a_net := net\<rparr>)))"
      using True same_core_inv [OF c' 1] by (intro set_dhcpc_status_inv) auto
    moreover have "s' = ?s2\<lparr>a_net := net\<rparr> \<or>
        s' = set_dhcpc_status i DHCP_STARTED (with_net (dhcp_set_cb e p) (?s2\<lparr>a_net := net\<rparr>))"
      using assms(2) True up p st by (auto simp: dhcpc_start_body_def Let_def if_up_def split: if_splits)
    ultimately show ?thesis using same_core_inv [OF c 1] by blast
  qed
next
  case False
  then show ?thesis using assms(1,2) by (auto simp: dhcpc_start_body_def split: if_splits)
qed

lemma dhcpc_stop_body_inv:
  assumes "adapter_inv s" "dhcpc_stop_body e i s = Inr (r, s')" "client_ok e"
  shows "adapter_inv s'"
proof -
  have "same_core s (tcpip_adapter_start_ip_lost_timer i (tcpip_adapter_reset_ip_info i (with_net (dhcp_stop e p) s)))" for p
    by (intro same_core_trans [OF same_core_trans [OF with_net_core reset_core] lost_timer_core(1)])
      (use assms(3) in \<open>auto simp: client_ok_def\<close>)
  then show ?thesis
    using assms(1,2) set_dhcpc_status_inv same_core_inv
    by (fastforce simp: dhcpc_stop_body_def split: if_splits dhcp_status.splits option.splits)
qed

lemma server_idle_inv:
  assumes "adapter_inv s" "dhcps_status s \<noteq> DHCP_STARTED" "plist d = []"
  shows "adapter_inv (s\<lparr>a_dhcps := d\<rparr>)"
  using assms
  by (auto simp: adapter_inv_def ptrs_ok_def server_ok_def clients_ok_def if_up_def intro: nets_ok_cong)

lemma server_runs_inv:
  assumes "adapter_inv s" "\<And>ip. dhcps_reachable ip (a_dhcps s) \<Longrightarrow> dhcps_reachable ip d"
    and "dhcps_status s \<noteq> DHCP_STARTED \<Longrightarrow> plist d = []"
  shows "adapter_inv (s\<lparr>a_dhcps := d\<rparr>)"
proof (cases "dhcps_status s = DHCP_STARTED")
  case True
  then obtain ip where "dhcps_reachable ip (a_dhcps s)" using assms(1) by (auto simp: adapter_inv_def server_ok_def)
  then have "\<exists>ip. dhcps_reachable ip d" using assms(2) by blast
  with True assms(1) show ?thesis
    by (simp add: adapter_inv_def ptrs_ok_def server_ok_def clients_ok_def if_up_def nets_ok_def)
qed (use assms server_idle_inv in simp)

lemma write_ref_plist [simp]: "plist (write_ref r v d) = plist d"
  by (cases "(r, v, d)" rule: write_ref.cases) simp_all

lemma set_option_plist [simp]: "plist (dhcps_set_option_info i v n d) = plist d"
  by (simp add: dhcps_set_option_info_def split: option.split)

lemma option_set_plist: "option_set ip i v r d = Some d' \<Longrightarrow> plist d' = plist d"
  by (auto simp: option_set_def split: opt_value.splits if_splits)

lemma dhcps_option_inv:
  assumes "adapter_inv s" "tcpip_adapter_dhcps_option m i v n s = (r, v', s')"
  shows "adapter_inv s'"
proof (cases "s' = s")
  case False
  then obtain d ref w where "dhcps_status s \<noteq> DHCP_STARTED" "option_set (ii_ip (current_info TCPIP_ADAPTER_IF_AP s)) i w ref
      (a_dhcps s) = Some d" "s' = s\<lparr>a_dhcps := dhcps_set_option_info (ucast i) (Some (read_ref ref d)) n d\<rparr>"
    using assms(2)
    by (auto simp: tcpip_adapter_dhcps_option_def split: option.splits opt_mode.splits if_splits)
  moreover from this assms(1) have "plist d = []"
    by (auto dest: option_set_plist simp: adapter_inv_def server_ok_def)
  ultimately show ?thesis using server_idle_inv [OF assms(1)] by simp
qed (use assms in simp)

lemma set_dns_body_inv:
  assumes "adapter_inv s" "set_dns_body i ty d s = Inr (r, s')"
  shows "adapter_inv s'"
proof -
  have "adapter_inv (s\<lparr>a_dhcps := dhcps_dns_setserver x (a_dhcps s)\<rparr>)" for x
  proof (rule server_runs_inv [OF assms(1)])
    show "plist (dhcps_dns_setserver x (a_dhcps s)) = []" if "dhcps_status s \<noteq> DHCP_STARTED"
      using that assms(1)
      by (cases x) (simp_all add: dhcps_dns_setserver_def adapter_inv_def server_ok_def)
  qed (rule dhcps_reachable.name_server)
  then show ?thesis
    using assms same_core_inv [OF dns_core(1)]
    by (auto simp: set_dns_body_def split: if_splits option.splits)
qed

lemma run_server_inv:
  assumes "adapter_inv s" "run_server f s = Inr (r, s')" "dhcps_status s = DHCP_STARTED"
    and "\<And>ip out d. dhcps_reachable ip (a_dhcps s) \<Longrightarrow> f (a_dhcps s) = Inr (out, d) \<Longrightarrow> dhcps_reachable ip d"
  shows "adapter_inv s'"
proof -
  obtain out d where f: "f (a_dhcps s) = Inr (out, d)" "s' = adapter_call [ServerUdp out] (s\<lparr>a_dhcps := d\<rparr>)"
    using assms(2) by (auto simp: run_server_def bindE_Inr_iff)
  have "adapter_inv (s\<lparr>a_dhcps := d\<rparr>)"
    by (rule server_runs_inv [OF assms(1)]) (use f assms(3,4) in auto)
  then show ?thesis unfolding f(2) by (rule same_core_inv [OF same_core_fields(6)])
qed

lemma run_server_idle_inv:
  assumes "adapter_inv s" "run_server f s = Inr (r, s')" "dhcps_status s \<noteq> DHCP_STARTED"
    and "\<And>out d. plist (a_dhcps s) = [] \<Longrightarrow> f (a_dhcps s) = Inr (out, d) \<Longrightarrow> plist d = []"
  shows "adapter_inv s'"
proof -
  obtain out d where f: "f (a_dhcps s) = Inr (out, d)" "s' = adapter_call [ServerUdp out] (s\<lparr>a_dhcps := d\<rparr>)"
    using assms(2) by (auto simp: run_server_def bindE_Inr_iff)
  have "plist (a_dhcps s) = []" using assms(1,3) by (simp add: adapter_inv_def server_ok_def)
  then have "adapter_inv (s\<lparr>a_dhcps := d\<rparr>)" using server_idle_inv [OF assms(1,3)] assms(4) f(1) by blast
  then show ?thesis unfolding f(2) by (rule same_core_inv [OF same_core_fields(6)])
qed

section \<open>Every operation keeps the invariant\<close>

lemma ipc_self_Inr: "ipc_self t f s = Inr x \<Longrightarrow> f s = Inr x"
  by (auto simp: ipc_self_def ipc_call_def split: if_splits)

lemma start_op_inv:
  assumes "adapter_inv s" "op_ok (OpStart i mac info) s" "is_driver f"
    and "tcpip_adapter_start t e i mac info (set_init_fn i f s) = Inr (r, s')"
  shows "adapter_inv s'"
proof (rule start_body_inv [of "set_init_fn i f s" i f])
  show "adapter_inv (set_init_fn i f s)" by (rule same_core_inv [OF set_init_fn_core assms(1)])
  show "start_body e i mac info (set_init_fn i f s) = Inr (r, s')"
    using assms(4) by (auto simp: tcpip_adapter_start_def dest: ipc_self_Inr)
qed (use assms(2,3) in \<open>auto simp: set_init_fn_def linked_def if_up_def split: option.splits\<close>)

lemma exec_op_inv:
  assumes "client_ok e" "adapter_inv s" "op_ok x s" "exec_op e t x s = Inr (r, s')"
  shows "adapter_inv s'"
proof (cases x)
  case (OpStart i mac info)
  then have i: "i < TCPIP_ADAPTER_IF_MAX" using assms(3) by simp
  have d: "is_driver wlanif_init_sta" "is_driver wlanif_init_ap" "is_driver ethernetif_init"
    by (simp_all add: is_driver_def)
  show ?thesis
    using assms(2-4) OpStart i start_op_inv [OF assms(2) _ d(1)] start_op_inv [OF assms(2) _ d(2)]
      start_op_inv [OF assms(2) _ d(3)]
    by (cases "i = TCPIP_ADAPTER_IF_STA"; cases "i = TCPIP_ADAPTER_IF_AP")
      (auto simp: tcpip_adapter_sta_start_def tcpip_adapter_ap_start_def tcpip_adapter_eth_start_def,
        (simp add: adapter_ifs less_Suc_eq numeral_3_eq_3, metis numeral_2_eq_2)+)
next
  case (OpSetOld i info)
  then show ?thesis
    using assms(2,4) same_core_inv [OF same_core_fields(2)]
    by (auto simp: tcpip_adapter_set_old_ip_info_def ipc_call_def split: option.splits if_splits)
next
  case (OpOption m i v n)
  then show ?thesis using assms(2,4) dhcps_option_inv by (auto split: prod.splits)
next
  case (OpPacket ok p)
  then show ?thesis
    using assms(2-4) dhcps_reachable.packet by (auto intro: run_server_inv)
next
  case OpTick
  have "dhcps_reachable ip d" if "dhcps_reachable ip (a_dhcps s)"
    "bindE (dhcps_tick (a_dhcps s)) (\<lambda>d'. Inr ([], d')) = Inr (out, d)" for ip out d
    using that dhcps_reachable.tick by (auto simp: bindE_Inr_iff)
  moreover have "plist d = []" if "plist (a_dhcps s) = []" "bindE (dhcps_tick (a_dhcps s)) (\<lambda>d'. Inr ([], d')) = Inr (out, d)" for out d
    using that by (auto simp: bindE_Inr_iff dhcps_tick_def dhcps_coarse_tmr_def MAX_STATION_NUM_def)
  ultimately show ?thesis
    using OpTick assms(2,4) run_server_inv [OF assms(2), of _ r s'] run_server_idle_inv [OF assms(2), of _ r s']
    by (cases "dhcps_status s = DHCP_STARTED") (simp_all, blast+)
next
  case (OpUp i)
  then show ?thesis
    using assms(2-4) up_body_inv by (auto simp: tcpip_adapter_up_def simp del: op_ok.simps dest: ipc_self_Inr)
next
  case (OpDhcpsStart i)
  then show ?thesis
    using assms(2-4) dhcps_start_body_inv
    by (auto simp: tcpip_adapter_dhcps_start_def simp del: op_ok.simps dest: ipc_self_Inr)
next
  case (OpStop i)
  then show ?thesis
    using assms(2,4) by (auto simp: tcpip_adapter_stop_def dest!: ipc_self_Inr intro: stop_body_inv [OF _ _ assms(1)])
next
  case (OpDown i)
  then show ?thesis
    using assms(2,4) by (auto simp: tcpip_adapter_down_def dest!: ipc_self_Inr intro: down_body_inv [OF _ _ assms(1)])
next
  case (OpSetIp i info)
  then show ?thesis
    using assms(4) by (auto simp: tcpip_adapter_set_ip_info_def dest!: ipc_self_Inr set_ip_info_core intro: same_core_inv [OF _ assms(2)])
next
  case (OpSetDns i ty d)
  then show ?thesis
    using assms(4) by (auto simp: tcpip_adapter_set_dns_info_def dest!: ipc_self_Inr intro: set_dns_body_inv [OF assms(2)])
next
  case (OpDhcpsStop i)
  then show ?thesis
    using assms(4) by (auto simp: tcpip_adapter_dhcps_stop_def dest!: ipc_self_Inr intro: dhcps_stop_body_inv [OF assms(2)])
next
  case (OpDhcpcStart i)
  then show ?thesis
    using assms(4) by (auto simp: tcpip_adapter_dhcpc_start_def dest!: ipc_self_Inr intro: dhcpc_start_body_inv [OF assms(2) _ assms(1)])
next
  case (OpDhcpcStop i)
  then show ?thesis
    using assms(4) by (auto simp: tcpip_adapter_dhcpc_stop_def dest!: ipc_self_Inr intro: dhcpc_stop_body_inv [OF assms(2) _ assms(1)])
next
  case (OpHostname i h)
  then show ?thesis
    using assms(4) by (auto simp: tcpip_adapter_set_hostname_def dest!: ipc_self_Inr set_hostname_core intro: same_core_inv [OF _ assms(2)])
next
  case (OpCallback p)
  then show ?thesis using assms(4) by (auto intro: same_core_inv [OF _ assms(2)] core_intros)
next
  case (OpTimer i)
  then show ?thesis using assms(4) by (auto intro: same_core_inv [OF _ assms(2)] core_intros)
qed

lemma initial_inv: "adapter_inv (tcpip_adapter_init adapter_initial)"
  by (simp add: tcpip_adapter_init_def adapter_initial_def adapter_call_def adapter_inv_def nets_ok_def
      ptrs_ok_def server_ok_def clients_ok_def if_up_def netif_is_up_def net_initial_def list_ok_def
      dhcps_initial_def exI [of _ "[]"])

lemma reach_inv: "adapter_reach e s \<Longrightarrow> client_ok e \<Longrightarrow> adapter_inv s"
proof (induction rule: adapter_reach.induct)
  case (client s net)
  then show ?case by (auto intro!: same_core_inv [of s] simp: same_core_def)
qed (auto simp: initial_inv exec_op_inv)

end
