(* ===== verification/Adapter_Refine.thy ===== *)
theory Adapter_Refine
  imports Adapter_Steps
begin

text \<open>
  The adapter refines a small machine: which interfaces exist and are up, and the states of the DHCP
  server and of the clients. Every operation, with its result, is a step of that machine.
\<close>

section \<open>The abstract machine\<close>

record links =
  ls_present :: "nat \<Rightarrow> bool"
  ls_up :: "nat \<Rightarrow> bool"
  ls_server :: dhcp_status
  ls_client :: "nat \<Rightarrow> dhcp_status"

definition abs_links :: "adapter \<Rightarrow> links" where
  "abs_links s = \<lparr>ls_present = (\<lambda>i. esp_netif s i \<noteq> None), ls_up = if_up s,
     ls_server = dhcps_status s, ls_client = dhcpc_status s\<rparr>"

definition spec_start :: "nat \<Rightarrow> links \<Rightarrow> links" where
  "spec_start i a =
     (let a1 = a\<lparr>ls_present := (ls_present a)(i := True)\<rparr> in
      if i = TCPIP_ADAPTER_IF_AP
      then a1\<lparr>ls_up := (ls_up a)(i := True),
              ls_server := (if ls_server a = DHCP_INIT then DHCP_STARTED else ls_server a)\<rparr>
      else a1)"

definition spec_stop :: "nat \<Rightarrow> links \<Rightarrow> links" where
  "spec_stop i a =
     (let a1 = a\<lparr>ls_up := (ls_up a)(i := False)\<rparr> in
      if i = TCPIP_ADAPTER_IF_AP
      then a1\<lparr>ls_server := (if ls_server a = DHCP_STOPPED then DHCP_STOPPED else DHCP_INIT)\<rparr>
      else a1\<lparr>ls_client := (ls_client a)(i := DHCP_INIT)\<rparr>)"

definition spec_down :: "nat \<Rightarrow> links \<Rightarrow> links" where
  "spec_down i a =
     a\<lparr>ls_up := (ls_up a)(i := False),
       ls_client := (ls_client a)(i := if ls_client a i = DHCP_STARTED then DHCP_INIT else ls_client a i)\<rparr>"

definition option_known :: "u32 \<Rightarrow> u32 \<Rightarrow> bool" where
  \<comment> \<open>the options of the server, by their low byte, and the sizes of their values\<close>
  "option_known opt n \<longleftrightarrow> (ucast opt :: byte, n) \<in> {(51, 4), (50, 12), (32, 1), (6, 1)}"

definition pool_fits :: "u32 \<Rightarrow> dhcps_lease \<Rightarrow> bool" where
  \<comment> \<open>at most 101 addresses, in order, in the network of the access point and beside its own address\<close>
  "pool_fits ip p \<longleftrightarrow> net24 (start_ip p) = net24 ip \<and> net24 (end_ip p) = net24 ip \<and>
     host24 (start_ip p) \<le> host24 (end_ip p) \<and> host24 (end_ip p) - host24 (start_ip p) \<le> 100 \<and>
     (host24 ip < host24 (start_ip p) \<or> host24 (end_ip p) < host24 ip)"

text \<open>The first argument is the address of the access point, on which it depends whether a pool fits.\<close>

fun spec_step :: "u32 \<Rightarrow> adapter_op \<Rightarrow> links \<Rightarrow> adapter_ret \<Rightarrow> links \<Rightarrow> bool" where
  "spec_step ip (OpStart i mac info) a r a' \<longleftrightarrow>
     (if mac = None \<or> info = None then r = INVALID_PARAMS \<and> a' = a
      else r = ADAPTER_OK \<and> a' = spec_start i a \<or> r = ADAPTER_NO_MEM \<and> a' = a \<and> \<not> ls_present a i)"
| "spec_step ip (OpStop i) a r a' \<longleftrightarrow>
     (if TCPIP_ADAPTER_IF_MAX \<le> i then r = INVALID_PARAMS \<and> a' = a
      else if \<not> ls_present a i \<or> \<not> ls_up a i then r = IF_NOT_READY \<and> a' = a
      else r = ADAPTER_OK \<and> a' = spec_stop i a)"
| "spec_step ip (OpUp i) a r a' \<longleftrightarrow>
     (if is_client_if i \<and> \<not> ls_present a i then r = IF_NOT_READY \<and> a' = a
      else r = ADAPTER_OK \<and> a' = (if is_client_if i then a\<lparr>ls_up := (ls_up a)(i := True)\<rparr> else a))"
| "spec_step ip (OpDown i) a r a' \<longleftrightarrow>
     (if is_client_if i \<and> \<not> ls_present a i then r = IF_NOT_READY \<and> a' = a
      else r = ADAPTER_OK \<and> a' = (if is_client_if i then spec_down i a else a))"
| "spec_step ip (OpSetIp i info) a r a' \<longleftrightarrow>
     a' = a \<and>
     r = (if info = None \<or> TCPIP_ADAPTER_IF_MAX \<le> i then INVALID_PARAMS
          else if i = TCPIP_ADAPTER_IF_AP \<and> ls_server a \<noteq> DHCP_STOPPED \<or>
            is_client_if i \<and> ls_client a i \<noteq> DHCP_STOPPED then DHCP_NOT_STOPPED
          else ADAPTER_OK)"
| "spec_step ip (OpOption m opt v n) a r a' \<longleftrightarrow>
     a' = a \<and>
     r = (if v = None \<or> \<not> option_known opt n then INVALID_PARAMS
          else if m = OP_GET then (if ls_server a = DHCP_STOPPED then DHCP_ALREADY_STOPPED else ADAPTER_OK)
          else if m = OP_SET then
            (if ls_server a = DHCP_STARTED then DHCP_ALREADY_STARTED
             else if opt = 50 \<and> (\<exists>p. v = Some (OptPoll p) \<and> enable p \<and> \<not> pool_fits ip p) then INVALID_PARAMS
             else ADAPTER_OK)
          else INVALID_PARAMS)"
| "spec_step ip (OpDhcpsStart i) a r a' \<longleftrightarrow>
     (if i \<noteq> TCPIP_ADAPTER_IF_AP then r = INVALID_PARAMS \<and> a' = a
      else if ls_server a = DHCP_STARTED then r = DHCP_ALREADY_STARTED \<and> a' = a
      else r = ADAPTER_OK \<and> a' = a\<lparr>ls_server := (if ls_up a i then DHCP_STARTED else DHCP_INIT)\<rparr>)"
| "spec_step ip (OpDhcpsStop i) a r a' \<longleftrightarrow>
     (if i \<noteq> TCPIP_ADAPTER_IF_AP then r = INVALID_PARAMS \<and> a' = a
      else if ls_server a = DHCP_STOPPED then r = DHCP_ALREADY_STOPPED \<and> a' = a
      else r = ADAPTER_OK \<and> a' = a\<lparr>ls_server := DHCP_STOPPED\<rparr>)"
| "spec_step ip (OpDhcpcStart i) a r a' \<longleftrightarrow>
     (if \<not> is_client_if i then r = INVALID_PARAMS \<and> a' = a
      else if ls_client a i = DHCP_STARTED then r = DHCP_ALREADY_STARTED \<and> a' = a
      else r = ADAPTER_OK \<and>
             a' = a\<lparr>ls_client := (ls_client a)(i := if ls_up a i then DHCP_STARTED else DHCP_INIT)\<rparr> \<or>
           r = DHCPC_START_FAILED \<and> ls_up a i \<and> a' = a)"
| "spec_step ip (OpDhcpcStop i) a r a' \<longleftrightarrow>
     (if \<not> is_client_if i then r = INVALID_PARAMS \<and> a' = a
      else if ls_client a i = DHCP_STOPPED then r = DHCP_ALREADY_STOPPED \<and> a' = a
      else r = ADAPTER_OK \<and> a' = a\<lparr>ls_client := (ls_client a)(i := DHCP_STOPPED)\<rparr>)"
| "spec_step ip (OpSetOld i info) a r a' \<longleftrightarrow>
     a' = a \<and> r = (if info = None \<or> TCPIP_ADAPTER_IF_MAX \<le> i then INVALID_PARAMS else ADAPTER_OK)"
| "spec_step ip (OpSetDns i type d) a r a' \<longleftrightarrow>
     a' = a \<and>
     r = (if TCPIP_ADAPTER_IF_MAX \<le> i \<or> TCPIP_ADAPTER_DNS_MAX \<le> type \<or> d = None \<or> d = Some 0 \<or>
            \<not> is_client_if i \<and> type \<noteq> TCPIP_ADAPTER_DNS_MAIN then INVALID_PARAMS else ADAPTER_OK)"
| "spec_step ip (OpHostname i h) a r a' \<longleftrightarrow>
     a' = a \<and>
     r = (if TCPIP_ADAPTER_IF_MAX \<le> i \<or> h = None \<or> TCPIP_HOSTNAME_MAX_SIZE < length (the h) then INVALID_PARAMS
          else if \<not> ls_present a i then IF_NOT_READY else ADAPTER_OK)"
| "spec_step _ _ a r a' \<longleftrightarrow> a' = a \<and> r = ADAPTER_OK"

definition ap_address :: "adapter \<Rightarrow> u32" where
  "ap_address s = ii_ip (current_info TCPIP_ADAPTER_IF_AP s)"

section \<open>What the parts of the operations do to it\<close>

named_theorems abs_simps \<open>the abstract state after the parts of an operation\<close>

lemma abs_core: "same_core s s' \<Longrightarrow> abs_links s' = abs_links s"
  by (simp add: abs_links_def same_core_def if_up_def fun_eq_iff net_frame_up)

lemma core_if_up: "same_core s s' \<Longrightarrow> if_up s' = if_up s"
  by (simp add: same_core_def if_up_def fun_eq_iff net_frame_up)

lemma abs_update_default [abs_simps]: "abs_links (tcpip_adapter_update_default_netif s) = abs_links s"
proof -
  have "abs_links (with_net (netif_set_default o_p) s) = abs_links s" for o_p
    by (simp add: abs_links_def fun_eq_iff if_up_def netif_is_up_def netif_set_default_def split: option.split)
  then show ?thesis by (simp add: tcpip_adapter_update_default_netif_def)
qed

lemma abs_set_up:
  assumes "ptrs_ok s" "esp_netif s i = Some p"
  shows "abs_links (with_net (netif_set_up p) s) = (abs_links s)\<lparr>ls_up := (if_up s)(i := True)\<rparr>"
  using assms by (auto simp: abs_links_def fun_eq_iff if_up_set_up ptrs_ok_def)

lemma abs_set_down:
  assumes "ptrs_ok s" "esp_netif s i = Some p"
  shows "abs_links (with_net (netif_set_down p) s) = (abs_links s)\<lparr>ls_up := (if_up s)(i := False)\<rparr>"
  using assms by (auto simp: abs_links_def fun_eq_iff if_up_set_down ptrs_ok_def)

lemma abs_remove:
  assumes "adapter_inv s" "esp_netif s i = Some p" "\<not> if_up s i" "netif_remove (Some p) (a_net s) = Inr net"
  shows "abs_links (s\<lparr>a_net := net\<rparr>) = abs_links s"
proof -
  obtain ps where ps: "list_ok (a_net s) ps" using assms(1) unfolding adapter_inv_def nets_ok_def by blast
  from netif_remove_list [OF ps(1), of p] assms(4)
  have r: "flag_set NETIF_FLAG_UP (n_store net q) = (q \<noteq> p \<and> flag_set NETIF_FLAG_UP (n_store (a_net s) q))" for q
    by auto
  have down: "\<not> flag_set NETIF_FLAG_UP (n_store (a_net s) p)"
    using assms(2,3) by (simp add: if_up_def netif_is_up_def)
  have "if_up (s\<lparr>a_net := net\<rparr>) j = if_up s j" for j
    using down by (auto simp: if_up_def netif_is_up_def r split: option.split)
  then show ?thesis by (simp add: abs_links_def fun_eq_iff)
qed

lemma inv_ptrs: "adapter_inv s \<Longrightarrow> ptrs_ok s"
  by (simp add: adapter_inv_def)

lemma ls_abs [simp]:
  "ls_up (abs_links s) = if_up s" "ls_server (abs_links s) = dhcps_status s"
  "ls_client (abs_links s) = dhcpc_status s" "ls_present (abs_links s) i = (esp_netif s i \<noteq> None)"
  by (simp_all add: abs_links_def)

lemma up_body_abs:
  assumes "adapter_inv s" "up_body i s = Inr (r, s')"
  shows "spec_step ip (OpUp i) (abs_links s) r (abs_links s')"
proof (cases "is_client_if i \<and> esp_netif s i \<noteq> None")
  case True
  then obtain p where p: "esp_netif s i = Some p" by auto
  let ?s1 = "with_net (netif_set_addr p (Some (ii_ip (esp_ip s i))) (Some (ii_netmask (esp_ip s i)))
    (Some (ii_gw (esp_ip s i)))) s"
  have c: "same_core s ?s1" by (rule with_net_core) (rule core_intros)
  then have "abs_links (with_net (netif_set_up p) ?s1) = (abs_links ?s1)\<lparr>ls_up := (if_up ?s1)(i := True)\<rparr>"
    using p same_core_inv [OF c assms(1)] by (intro abs_set_up inv_ptrs) auto
  then show ?thesis
    using assms(2) True p abs_core [OF c] core_if_up [OF c] by (auto simp: up_body_def Let_def abs_simps)
next
  case False
  then show ?thesis using assms(2) by (auto simp: up_body_def abs_simps split: if_splits)
qed

lemma down_body_abs:
  assumes "adapter_inv s" "down_body e i s = Inr (r, s')" "client_ok e"
  shows "spec_step ip (OpDown i) (abs_links s) r (abs_links s')"
proof (cases "is_client_if i \<and> esp_netif s i \<noteq> None")
  case True
  then obtain p where p: "esp_netif s i = Some p" by auto
  define st where "st = (if dhcpc_status s i = DHCP_STARTED then DHCP_INIT else dhcpc_status s i)"
  define s1 where "s1 = (if dhcpc_status s i = DHCP_STARTED then
      tcpip_adapter_reset_ip_info i
        ((with_net (dhcp_stop e p) s)\<lparr>dhcpc_status := (dhcpc_status s)(i := DHCP_INIT)\<rparr>) else s)"
  let ?s2 = "with_net (netif_set_addr p (Some IPADDR_ANY) (Some IPADDR_ANY) (Some IPADDR_ANY)) s1"
  have "net_frame (a_net s) (dhcp_stop e p (a_net s))" using assms(3) by (simp add: client_ok_def)
  then have "same_core (s\<lparr>dhcpc_status := (dhcpc_status s)(i := st)\<rparr>) s1"
    by (auto simp: s1_def st_def same_core_def tcpip_adapter_reset_ip_info_def)
  then have c: "same_core (s\<lparr>dhcpc_status := (dhcpc_status s)(i := st)\<rparr>) ?s2"
    by (rule same_core_trans [OF _ with_net_core]) (rule core_intros)
  have a2: "abs_links ?s2 = (abs_links s)\<lparr>ls_client := (dhcpc_status s)(i := st)\<rparr>"
    using abs_core [OF c] by (simp add: abs_links_def if_up_def fun_eq_iff)
  have "ptrs_ok ?s2" using c inv_ptrs [OF assms(1)] by (simp add: ptrs_ok_def same_core_def)
  moreover have "esp_netif ?s2 i = Some p" using c p by (simp add: same_core_def)
  ultimately have "abs_links (with_net (netif_set_down p) ?s2) =
      (abs_links ?s2)\<lparr>ls_up := (if_up ?s2)(i := False)\<rparr>"
    by (rule abs_set_down)
  moreover have "if_up ?s2 = if_up s" using a2 by (simp add: abs_links_def)
  ultimately have "abs_links (with_net (netif_set_down p) ?s2) = spec_down i (abs_links s)"
    by (simp add: a2 spec_down_def st_def)
  then show ?thesis
    using assms(2) True p abs_core [OF lost_timer_core(1)]
    by (auto simp: down_body_def Let_def s1_def abs_simps)
next
  case False
  then show ?thesis using assms(2) by (auto simp: down_body_def abs_simps split: if_splits)
qed


lemma release_client_abs:
  assumes "client_ok e" "adapter_inv s"
  shows "abs_links (release_client e i p s) = (abs_links s)\<lparr>ls_client := (dhcpc_status s)(i := DHCP_INIT)\<rparr>"
proof -
  obtain cb net where r: "dhcp_release e p (a_net s) = (cb, net)" by (cases "dhcp_release e p (a_net s)")
  have f: "net_frame (a_net s) net" using assms(1) r by (metis client_ok_def snd_conv)
  let ?s2 = "if cb then tcpip_adapter_dhcpc_cb (Some p) (s\<lparr>a_net := net\<rparr>) else s\<lparr>a_net := net\<rparr>"
  have "same_core s (s\<lparr>a_net := net\<rparr>)" using f by (simp add: same_core_def)
  then have 2: "same_core s ?s2" using notify_core(2) same_core_trans by auto
  let ?s3 = "with_net (dhcp_cleanup e p) (with_net (dhcp_stop e p) ?s2)"
  have "same_core ?s2 ?s3"
    using assms(1) by (intro same_core_trans [OF with_net_core with_net_core]) (auto simp: client_ok_def)
  with 2 have 3: "same_core s ?s3" by (rule same_core_trans)
  have "abs_links (release_client e i p s) = (abs_links ?s3)\<lparr>ls_client := (dhcpc_status ?s3)(i := DHCP_INIT)\<rparr>"
    by (simp add: release_client_def r Let_def abs_links_def tcpip_adapter_reset_ip_info_def if_up_def fun_eq_iff)
  then show ?thesis using abs_core [OF 3] 3 by (simp add: same_core_def)
qed

lemma stop_body_abs:
  assumes "adapter_inv s" "stop_body e i s = Inr (r, s')" "client_ok e"
  shows "spec_step ip (OpStop i) (abs_links s) r (abs_links s')"
proof (cases "i < TCPIP_ADAPTER_IF_MAX \<and> esp_netif s i \<noteq> None")
  case True
  then obtain p where i: "i < TCPIP_ADAPTER_IF_MAX" and p: "esp_netif s i = Some p" by auto
  show ?thesis
  proof (cases "if_up s i")
    case False
    then obtain net where "netif_remove (Some p) (a_net s) = Inr net" "r = IF_NOT_READY" "s' = s\<lparr>a_net := net\<rparr>"
      using assms(2) i p by (auto simp: stop_body_def if_up_def bindE_Inr_iff)
    then show ?thesis using abs_remove [OF assms(1) p False] i False by simp
  next
    case up: True
    have r: "r = ADAPTER_OK" using assms(2) i p up by (auto simp: stop_body_def Let_def if_up_def bindE_Inr_iff)
    have "abs_links s' = spec_stop i (abs_links s)"
    proof (cases "i = TCPIP_ADAPTER_IF_AP")
      case ap: True
      let ?st = "if dhcps_status s = DHCP_STOPPED then DHCP_STOPPED else DHCP_INIT"
      let ?s1 = "(stop_dhcp_server p s)\<lparr>dhcps_status := ?st\<rparr>"
      let ?s2 = "with_net (netif_set_down p) ?s1"
      have s1: "(if dhcps_status s \<noteq> DHCP_STOPPED
          then (stop_dhcp_server p s)\<lparr>dhcps_status := DHCP_INIT\<rparr> else stop_dhcp_server p s) = ?s1"
        by (rule adapter.equality) auto
      obtain net where n: "netif_remove (Some p) (a_net ?s2) = Inr net"
        "s' = tcpip_adapter_update_default_netif (?s2\<lparr>a_net := net\<rparr>)"
        using assms(2) i p up ap by (auto simp: stop_body_def Let_def if_up_def bindE_Inr_iff s1 simp del: stop_dhcp_server_fields(6) if_split)
      have u: "if_up ?s1 = if_up s" by (simp add: fun_eq_iff if_up_def pcb_update_up)
      have "ptrs_ok ?s1" using inv_ptrs [OF assms(1)] by (simp add: ptrs_ok_def)
      then have "abs_links ?s2 = (abs_links ?s1)\<lparr>ls_up := (if_up ?s1)(i := False)\<rparr>"
        using p by (intro abs_set_down) auto
      moreover have "adapter_inv ?s2" using ap_server_down_inv [OF assms(1), of p ?st] p ap by auto
      moreover have "\<not> if_up ?s2 i" using p by (simp add: if_up_set_down)
      ultimately show ?thesis
        using n(2) abs_remove [OF _ _ _ n(1), of i] p u
        by (simp add: abs_simps spec_stop_def ap) (simp add: abs_links_def u)
    next
      case False
      then have c: "is_client_if i" using i by (auto simp: is_client_if_def adapter_ifs)
      let ?s1 = "release_client e i p s"
      let ?s2 = "with_net (netif_set_down p) ?s1"
      note rc = release_client_core [OF assms(3,1), of i p]
      obtain net where n: "netif_remove (Some p) (a_net ?s2) = Inr net"
        "s' = tcpip_adapter_update_default_netif (?s2\<lparr>a_net := net\<rparr>)"
        using assms(2) i p up False c by (auto simp: stop_body_def Let_def if_up_def bindE_Inr_iff)
      have "abs_links ?s2 = (abs_links ?s1)\<lparr>ls_up := (if_up ?s1)(i := False)\<rparr>"
        using p rc by (intro abs_set_down inv_ptrs) auto
      moreover have "adapter_inv ?s2" using rc p False by (intro set_down_client_inv [of _ i]) auto
      moreover have "\<not> if_up ?s2 i" using p rc by (simp add: if_up_set_down)
      moreover have "abs_links ?s1 = (abs_links s)\<lparr>ls_client := (dhcpc_status s)(i := DHCP_INIT)\<rparr>"
        by (rule release_client_abs [OF assms(3,1)])
      moreover from this have "if_up ?s1 = if_up s" by (simp add: abs_links_def)
      ultimately show ?thesis
        using n(2) abs_remove [OF _ _ _ n(1), of i] p rc False by (simp add: abs_simps spec_stop_def)
    qed
    then show ?thesis using r i p up by simp
  qed
next
  case False
  then show ?thesis using assms(2) by (auto simp: stop_body_def split: if_splits)
qed


lemma start_netif_present: "start_netif e i mac info s = Inr (False, s') \<Longrightarrow> s' = s \<and> esp_netif s i = None"
  by (auto simp: start_netif_def Let_def bindE_Inr_iff split: option.splits if_splits)

lemma start_ap_server_abs:
  assumes "adapter_inv s" "start_ap_server e info s = Inr s'"
  shows "abs_links s' = spec_start TCPIP_ADAPTER_IF_AP (abs_links s)"
proof -
  obtain p where p: "esp_netif s TCPIP_ADAPTER_IF_AP = Some p"
    using assms(2) by (auto simp: start_ap_server_def split: option.splits)
  let ?s1 = "with_net (netif_set_up p) s"
  have pr: "(\<lambda>i. esp_netif s i \<noteq> None)(TCPIP_ADAPTER_IF_AP := True) = (\<lambda>i. esp_netif s i \<noteq> None)"
    using p by (auto simp: fun_eq_iff)
  have a1: "abs_links ?s1 = (abs_links s)\<lparr>ls_up := (if_up s)(TCPIP_ADAPTER_IF_AP := True)\<rparr>"
    by (rule abs_set_up [OF inv_ptrs [OF assms(1)] p])
  show ?thesis
  proof (cases "dhcps_status s = DHCP_INIT")
    case True
    then have st: "start_dhcp_server e p (ii_ip info) ?s1 = Inr s'"
      using assms(2) p by (simp add: start_ap_server_def Let_def)
    note f = start_dhcp_server_fields [OF st]
    have "if_up s' = if_up ?s1" by (simp add: fun_eq_iff if_up_def f(1,5) pcb_update_up)
    then show ?thesis
      using a1 True pr by (simp add: abs_links_def f(1,3,4) spec_start_def Let_def)
  next
    case False
    then have "s' = ?s1" using assms(2) p by (simp add: start_ap_server_def Let_def)
    then show ?thesis using a1 False pr by (simp add: spec_start_def Let_def abs_links_def)
  qed
qed

lemma start_body_abs:
  assumes inv: "adapter_inv s" and i: "i < TCPIP_ADAPTER_IF_MAX" "linked s i \<longrightarrow> if_up s i"
    and f: "esp_netif_init_fn s i = Some f" "is_driver f"
    and st: "start_body e i mac info s = Inr (r, s')"
  shows "spec_step ip (OpStart i mac info) (abs_links s) r (abs_links s')"
proof (cases "mac = None \<or> info = None")
  case True
  then show ?thesis using st by (auto simp: start_body_def split: option.splits)
next
  case False
  then obtain m a where ma: "mac = Some m" "info = Some a" by auto
  have br: "(esp_netif s i = None \<or> \<not> netif_is_up (esp_netif s i) (a_net s)) \<longleftrightarrow> \<not> if_up s i"
    by (auto simp: if_up_def netif_is_up_def)
  obtain ok s1 where s1: "(if \<not> if_up s i then start_netif e i m a s else Inr (True, s)) = Inr (ok, s1)"
    "(if \<not> ok then Inr (ADAPTER_NO_MEM, s1)
      else bindE (if i = TCPIP_ADAPTER_IF_AP then start_ap_server e a s1 else Inr s1)
        (\<lambda>s2. Inr (ADAPTER_OK, tcpip_adapter_update_default_netif s2))) = Inr (r, s')"
    using st i(1) unfolding start_body_def ma br by (auto simp: bindE_Inr_iff)
  show ?thesis
  proof (cases ok)
    case False
    then have "start_netif e i m a s = Inr (False, s1)" using s1(1) by (auto split: if_splits)
    from start_netif_present [OF this] show ?thesis using s1(2) False ma by simp
  next
    case True
    have 1: "adapter_inv s1 \<and> abs_links s1 = (abs_links s)\<lparr>ls_present := (\<lambda>j. esp_netif s j \<noteq> None)(i := True)\<rparr>"
    proof (cases "if_up s i")
      case False
      with i(2) have "\<not> linked s i" by simp
      moreover have "start_netif e i m a s = Inr (True, s1)" using s1(1) True False by simp
      ultimately obtain p where a: "adapter_inv s1" "added i p a s s1"
        using start_netif_inv [OF inv i(1) _ False f] by blast
      have "if_up s1 j = if_up s j" for j
      proof (cases "j = i")
        case True
        then show ?thesis using a(2) False by (simp add: added_def if_up_def netif_is_up_def)
      next
        case False
        have "q \<noteq> p" if "esp_netif s j = Some q" for q
          using that a(2) False inv_ptrs [OF inv] by (auto simp: added_def ptrs_ok_def)
        with False a(2) show ?thesis by (auto simp: added_def if_up_def netif_is_up_def split: option.split)
      qed
      with a show ?thesis by (auto simp: abs_links_def fun_eq_iff added_def)
    next
      case up: True
      then have "esp_netif s i \<noteq> None" by (auto simp: if_up_def netif_is_up_def split: option.splits)
      with up s1(1) inv show ?thesis by (auto simp: abs_links_def fun_eq_iff)
    qed
    obtain s2 where s2: "(if i = TCPIP_ADAPTER_IF_AP then start_ap_server e a s1 else Inr s1) = Inr s2"
      "s' = tcpip_adapter_update_default_netif s2" "r = ADAPTER_OK"
      using s1(2) True by (auto simp: bindE_Inr_iff)
    have "abs_links s2 = spec_start i (abs_links s)"
    proof (cases "i = TCPIP_ADAPTER_IF_AP")
      case True
      then have "abs_links s2 = spec_start i (abs_links s1)"
        using start_ap_server_abs [of s1 e a s2] s2(1) 1 by simp
      with 1 True show ?thesis by (simp add: spec_start_def Let_def) (simp add: abs_links_def)
    next
      case False
      then show ?thesis using 1 s2(1) by (simp add: spec_start_def) (simp add: abs_links_def)
    qed
    then show ?thesis using s2(2,3) ma by (simp add: abs_simps)
  qed
qed

lemma set_ip_info_abs:
  "set_ip_info_body i info s = Inr (r, s') \<Longrightarrow> spec_step ip (OpSetIp i info) (abs_links s) r (abs_links s')"
  using abs_core [OF set_ip_info_core [of i info s r s']]
  by (auto simp: set_ip_info_body_def Let_def split: option.splits if_splits)

lemma dhcps_start_abs:
  assumes "dhcps_start_body e i s = Inr (r, s')"
  shows "spec_step ip (OpDhcpsStart i) (abs_links s) r (abs_links s')"
proof (cases "i = TCPIP_ADAPTER_IF_AP \<and> dhcps_status s \<noteq> DHCP_STARTED")
  case True
  show ?thesis
  proof (cases "if_up s TCPIP_ADAPTER_IF_AP")
    case up: True
    then obtain p where p: "esp_netif s TCPIP_ADAPTER_IF_AP = Some p"
      by (auto simp: if_up_def netif_is_up_def split: option.splits)
    then have st: "start_dhcp_server e p (ii_ip (current_info TCPIP_ADAPTER_IF_AP s)) s = Inr s'" "r = ADAPTER_OK"
      using assms True up by (auto simp: dhcps_start_body_def if_up_def bindE_Inr_iff adapter_ifs)
    note f = start_dhcp_server_fields [OF st(1)]
    have "if_up s' = if_up s" by (simp add: fun_eq_iff if_up_def f(1,5) pcb_update_up)
    then show ?thesis using True up st(2) by (simp add: abs_links_def f(1,3,4))
  next
    case False
    then have "s' = s\<lparr>dhcps_status := DHCP_INIT\<rparr>" "r = ADAPTER_OK"
      using assms True
      by (auto simp: dhcps_start_body_def if_up_def netif_is_up_def adapter_ifs split: option.splits)
    then show ?thesis using False True by (simp add: abs_links_def if_up_def fun_eq_iff)
  qed
next
  case False
  then show ?thesis using assms by (auto simp: dhcps_start_body_def adapter_ifs split: if_splits)
qed

lemma dhcps_stop_abs:
  assumes "adapter_inv s" "dhcps_stop_body i s = Inr (r, s')"
  shows "spec_step ip (OpDhcpsStop i) (abs_links s) r (abs_links s')"
proof (cases "i = TCPIP_ADAPTER_IF_AP \<and> dhcps_status s = DHCP_STARTED")
  case True
  then obtain p where p: "esp_netif s TCPIP_ADAPTER_IF_AP = Some p"
    using assms(1) by (auto simp: adapter_inv_def server_ok_def if_up_def netif_is_up_def split: option.splits)
  then have "s' = (stop_dhcp_server p s)\<lparr>dhcps_status := DHCP_STOPPED\<rparr>" "r = ADAPTER_OK"
    using assms(2) True by (auto simp: dhcps_stop_body_def adapter_ifs)
  then show ?thesis using True by (simp add: abs_links_def if_up_def pcb_update_up fun_eq_iff)
next
  case False
  then show ?thesis
    using assms(2) by (auto simp: dhcps_stop_body_def abs_links_def if_up_def fun_eq_iff adapter_ifs split: if_splits dhcp_status.splits)
qed

lemma abs_set_dhcpc_status [abs_simps]:
  "abs_links (set_dhcpc_status i st s) = (abs_links s)\<lparr>ls_client := (dhcpc_status s)(i := st)\<rparr>"
  by (simp add: set_dhcpc_status_def abs_links_def if_up_def fun_eq_iff)

lemma dhcpc_stop_abs:
  assumes "adapter_inv s" "dhcpc_stop_body e i s = Inr (r, s')" "client_ok e"
  shows "spec_step ip (OpDhcpcStop i) (abs_links s) r (abs_links s')"
proof -
  have c: "same_core s (tcpip_adapter_start_ip_lost_timer i (tcpip_adapter_reset_ip_info i (with_net (dhcp_stop e p) s)))" for p
    by (intro same_core_trans [OF same_core_trans [OF with_net_core reset_core] lost_timer_core(1)])
      (use assms(3) in \<open>auto simp: client_ok_def\<close>)
  have "\<not> (dhcpc_status s i = DHCP_STARTED \<and> esp_netif s i = None)"
    using assms(1) by (auto simp: adapter_inv_def clients_ok_def if_up_def netif_is_up_def split: option.splits)
  moreover have "is_client_if i \<Longrightarrow> i < TCPIP_ADAPTER_IF_MAX" by (auto simp: is_client_if_def adapter_ifs)
  ultimately show ?thesis
    using assms(2) abs_core [OF c] c
    by (auto simp: dhcpc_stop_body_def abs_simps same_core_def split: if_splits dhcp_status.splits option.splits)
qed


lemma dhcpc_start_abs:
  assumes "adapter_inv s" "dhcpc_start_body e i s = Inr (r, s')" "client_ok e"
  shows "spec_step ip (OpDhcpcStart i) (abs_links s) r (abs_links s')"
proof (cases "is_client_if i \<and> dhcpc_status s i \<noteq> DHCP_STARTED")
  case True
  then have i: "i < TCPIP_ADAPTER_IF_MAX" by (auto simp: is_client_if_def adapter_ifs)
  let ?s1 = "dns_clear_servers True (tcpip_adapter_reset_ip_info i s)"
  have c1: "same_core s ?s1" by (rule same_core_trans [OF reset_core dns_core(2)])
  have d1: "dhcpc_status ?s1 = dhcpc_status s" using c1 by (simp add: same_core_def)
  show ?thesis
  proof (cases "if_up s i")
    case False
    then have "\<not> if_up ?s1 i" using core_if_up [OF c1] by simp
    then have "s' = set_dhcpc_status i DHCP_INIT ?s1 \<and> r = ADAPTER_OK"
      using assms(2) True i
      by (auto simp: dhcpc_start_body_def Let_def if_up_def netif_is_up_def split: option.splits)
    then show ?thesis using True False abs_core [OF c1] d1 by (simp add: abs_simps)
  next
    case up: True
    then have u1: "if_up ?s1 i" using core_if_up [OF c1] by simp
    then obtain p where p: "esp_netif ?s1 i = Some p" by (auto simp: if_up_def netif_is_up_def split: option.splits)
    let ?s2 = "tcpip_adapter_start_ip_lost_timer i (with_net (upd_nif p zero_addr) ?s1)"
    obtain err net where st: "dhcp_start e p (a_net ?s2) = (err, net)" by (cases "dhcp_start e p (a_net ?s2)")
    have c2: "same_core ?s1 ?s2"
      by (intro same_core_trans [OF with_net_core lost_timer_core(1)] net_frame_upd) (simp add: zero_addr_def)
    have "same_core ?s2 (?s2\<lparr>a_net := net\<rparr>)"
      using assms(3) st by (simp add: same_core_def client_ok_def) (metis snd_conv)
    then have c: "same_core s (?s2\<lparr>a_net := net\<rparr>)" by (rule same_core_trans [OF same_core_trans [OF c1 c2]])
    have "same_core (?s2\<lparr>a_net := net\<rparr>) (with_net (dhcp_set_cb e p) (?s2\<lparr>a_net := net\<rparr>))"
      by (rule with_net_core) (use assms(3) in \<open>auto simp: client_ok_def\<close>)
    then have c': "same_core s (with_net (dhcp_set_cb e p) (?s2\<lparr>a_net := net\<rparr>))" by (rule same_core_trans [OF c])
    have "r = DHCPC_START_FAILED \<and> s' = ?s2\<lparr>a_net := net\<rparr> \<or>
        r = ADAPTER_OK \<and> s' = set_dhcpc_status i DHCP_STARTED (with_net (dhcp_set_cb e p) (?s2\<lparr>a_net := net\<rparr>))"
      using assms(2) True i u1 p st by (auto simp: dhcpc_start_body_def Let_def if_up_def split: if_splits)
    moreover have "dhcpc_status (with_net (dhcp_set_cb e p) (?s2\<lparr>a_net := net\<rparr>)) = dhcpc_status s"
      using c' by (simp add: same_core_def)
    ultimately show ?thesis
      using True up abs_core [OF c] abs_core [OF c'] by (auto simp: abs_simps)
  qed
next
  case False
  then show ?thesis using assms(1,2) by (auto simp: dhcpc_start_body_def is_client_if_def adapter_ifs split: if_splits)
qed

lemma pool_refused_fits: "pool_refused ip p \<longleftrightarrow> enable p \<and> \<not> pool_fits ip p"
proof -
  have "pool_refused ip p \<longleftrightarrow> enable p \<and> poll_invalid ip p" by (simp add: pool_refused_def poll_invalid_def)
  then show ?thesis using poll_valid_iff [of ip p] by (auto simp: pool_fits_def)
qed

lemma option_known_info: "option_known opt n \<longleftrightarrow> dhcps_option_info (ucast opt) n \<noteq> None"
  by (simp add: option_known_def dhcps_option_info_def IP_ADDRESS_LEASE_TIME_def REQUESTED_IP_ADDRESS_def
      ROUTER_SOLICITATION_ADDRESS_def DOMAIN_NAME_SERVER_def)

lemma option_set_refuses:
  "option_set ip opt v r d = None \<longleftrightarrow> opt = 50 \<and> (\<exists>p. v = OptPoll p \<and> enable p \<and> \<not> pool_fits ip p)"
  by (auto simp: option_set_def pool_refused_fits REQUESTED_IP_ADDRESS_def split: opt_value.split)

lemma abs_server: "abs_links (s\<lparr>a_dhcps := d\<rparr>) = abs_links s"
  by (simp add: abs_links_def if_up_def fun_eq_iff)

lemma dhcps_option_abs:
  assumes "tcpip_adapter_dhcps_option m i v n s = (r, v', s')"
  shows "spec_step (ap_address s) (OpOption m i v n) (abs_links s) r (abs_links s')"
proof (cases "v = None \<or> \<not> option_known i n")
  case True
  then show ?thesis
    using assms by (auto simp: tcpip_adapter_dhcps_option_def option_known_info split: option.splits)
next
  case False
  then obtain w ref where w: "v = Some w" "dhcps_option_info (ucast i) n = Some ref" "option_known i n"
    by (auto simp: option_known_info)
  note sr = option_set_refuses [of "ap_address s" i w ref "a_dhcps s"]
  show ?thesis
  proof (cases "option_set (ap_address s) i w ref (a_dhcps s)")
    case None
    with sr show ?thesis using assms w
      by (auto simp: tcpip_adapter_dhcps_option_def ap_address_def split: opt_mode.splits if_splits)
  next
    case (Some d)
    then have "\<not> (i = 50 \<and> (\<exists>p. w = OptPoll p \<and> enable p \<and> \<not> pool_fits (ap_address s) p))" using sr by simp
    then show ?thesis using assms w Some
      by (auto simp: tcpip_adapter_dhcps_option_def ap_address_def abs_server split: opt_mode.splits if_splits)
  qed
qed

lemma set_dns_abs:
  "set_dns_body i ty d s = Inr (r, s') \<Longrightarrow> spec_step ip (OpSetDns i ty d) (abs_links s) r (abs_links s')"
  using abs_core [OF dns_core(1)] by (auto simp: set_dns_body_def abs_server split: if_splits option.splits)

lemma set_hostname_abs:
  assumes "set_hostname_body i h s = Inr (r, s')"
  shows "spec_step ip (OpHostname i h) (abs_links s) r (abs_links s')"
  using assms abs_core [OF set_hostname_core [OF assms]]
  by (auto simp: set_hostname_body_def bindE_Inr_iff split: if_splits option.splits)

lemma run_server_abs: "run_server f s = Inr (r, s') \<Longrightarrow> abs_links s' = abs_links s \<and> r = ADAPTER_OK"
  by (auto simp: run_server_def bindE_Inr_iff abs_links_def if_up_def fun_eq_iff)

lemma start_op_abs:
  assumes "adapter_inv s" "op_ok (OpStart i mac info) s" "is_driver f"
    and "tcpip_adapter_start t e i mac info (set_init_fn i f s) = Inr (r, s')"
  shows "spec_step ip (OpStart i mac info) (abs_links s) r (abs_links s')"
proof -
  have c: "same_core s (set_init_fn i f s)" by (rule set_init_fn_core)
  have "spec_step ip (OpStart i mac info) (abs_links (set_init_fn i f s)) r (abs_links s')"
  proof (rule start_body_abs [of _ i f])
    show "adapter_inv (set_init_fn i f s)" by (rule same_core_inv [OF c assms(1)])
    show "start_body e i mac info (set_init_fn i f s) = Inr (r, s')"
      using assms(4) by (auto simp: tcpip_adapter_start_def dest: ipc_self_Inr)
  qed (use assms(2,3) in \<open>auto simp: set_init_fn_def linked_def if_up_def\<close>)
  then show ?thesis using abs_core [OF c] by simp
qed

lemma exec_op_abs:
  assumes "client_ok e" "adapter_inv s" "op_ok x s" "exec_op e t x s = Inr (r, s')"
  shows "spec_step (ap_address s) x (abs_links s) r (abs_links s')"
proof (cases x)
  case (OpStart i mac info)
  then have i: "i = TCPIP_ADAPTER_IF_STA \<or> i = TCPIP_ADAPTER_IF_AP \<or> i = TCPIP_ADAPTER_IF_ETH"
    using assms(3) by (auto simp: adapter_ifs)
  have d: "is_driver wlanif_init_sta" "is_driver wlanif_init_ap" "is_driver ethernetif_init"
    by (simp_all add: is_driver_def)
  have ne: "TCPIP_ADAPTER_IF_AP \<noteq> TCPIP_ADAPTER_IF_STA" "TCPIP_ADAPTER_IF_ETH \<noteq> TCPIP_ADAPTER_IF_STA"
    "TCPIP_ADAPTER_IF_ETH \<noteq> TCPIP_ADAPTER_IF_AP" by (simp_all add: adapter_ifs)
  obtain f where "is_driver f" "tcpip_adapter_start t e i mac info (set_init_fn i f s) = Inr (r, s')"
    using i assms(4) OpStart d ne
    by (auto simp: tcpip_adapter_sta_start_def tcpip_adapter_ap_start_def tcpip_adapter_eth_start_def)
  then show ?thesis using start_op_abs [OF assms(2)] assms(3) OpStart by blast
next
  case (OpStop i)
  then show ?thesis
    using assms(4) by (auto simp: tcpip_adapter_stop_def simp del: spec_step.simps
        dest!: ipc_self_Inr intro: stop_body_abs [OF assms(2) _ assms(1)])
next
  case (OpUp i)
  then show ?thesis
    using assms(4) by (auto simp: tcpip_adapter_up_def simp del: spec_step.simps
        dest!: ipc_self_Inr intro: up_body_abs [OF assms(2)])
next
  case (OpDown i)
  then show ?thesis
    using assms(4) by (auto simp: tcpip_adapter_down_def simp del: spec_step.simps
        dest!: ipc_self_Inr intro: down_body_abs [OF assms(2) _ assms(1)])
next
  case (OpSetOld i info)
  then show ?thesis
    using assms(4) abs_core [OF same_core_fields(2)]
    by (auto simp: tcpip_adapter_set_old_ip_info_def ipc_call_def split: option.splits if_splits)
next
  case (OpSetIp i info)
  then show ?thesis
    using assms(4) by (auto simp: tcpip_adapter_set_ip_info_def simp del: spec_step.simps
        dest!: ipc_self_Inr intro: set_ip_info_abs)
next
  case (OpOption m i v n)
  then show ?thesis
    using assms(4) by (auto simp del: spec_step.simps split: prod.splits intro: dhcps_option_abs)
next
  case (OpSetDns i ty d)
  then show ?thesis
    using assms(4) by (auto simp: tcpip_adapter_set_dns_info_def simp del: spec_step.simps
        dest!: ipc_self_Inr intro: set_dns_abs)
next
  case (OpDhcpsStart i)
  then show ?thesis
    using assms(4) by (auto simp: tcpip_adapter_dhcps_start_def simp del: spec_step.simps
        dest!: ipc_self_Inr intro: dhcps_start_abs)
next
  case (OpDhcpsStop i)
  then show ?thesis
    using assms(4) by (auto simp: tcpip_adapter_dhcps_stop_def simp del: spec_step.simps
        dest!: ipc_self_Inr intro: dhcps_stop_abs [OF assms(2)])
next
  case (OpDhcpcStart i)
  then show ?thesis
    using assms(4) by (auto simp: tcpip_adapter_dhcpc_start_def simp del: spec_step.simps
        dest!: ipc_self_Inr intro: dhcpc_start_abs [OF assms(2) _ assms(1)])
next
  case (OpDhcpcStop i)
  then show ?thesis
    using assms(4) by (auto simp: tcpip_adapter_dhcpc_stop_def simp del: spec_step.simps
        dest!: ipc_self_Inr intro: dhcpc_stop_abs [OF assms(2) _ assms(1)])
next
  case (OpHostname i h)
  then show ?thesis
    using assms(4) by (auto simp: tcpip_adapter_set_hostname_def simp del: spec_step.simps
        dest!: ipc_self_Inr intro: set_hostname_abs)
next
  case (OpCallback p)
  then show ?thesis using assms(4) abs_core [OF notify_core(2)] by auto
next
  case (OpTimer i)
  then show ?thesis using assms(4) abs_core [OF lost_timer_core(2)] by auto
next
  case (OpPacket ok p)
  then show ?thesis using assms(4) by (auto dest: run_server_abs)
next
  case OpTick
  then show ?thesis using assms(4) by (auto dest: run_server_abs)
qed

end
