(* ===== verification/Adapter_Total.thy ===== *)
theory Adapter_Total
  imports Adapter_Refine
begin

text \<open>
  The adapter's operations return: in every reachable state, every operation that its callers may use ends
  without a fault, packets for the server and a server without a control block apart.
\<close>

section \<open>The adapter stays initialised\<close>

named_theorems inited_simps \<open>the flag of the initialisation after the parts of an operation\<close>

lemma inited_parts [inited_simps]:
  "tcpip_inited (with_net f s) = tcpip_inited s" "tcpip_inited (adapter_call cs s) = tcpip_inited s"
  "tcpip_inited (tcpip_adapter_reset_ip_info i s) = tcpip_inited s"
  "tcpip_inited (set_dhcpc_status i st s) = tcpip_inited s" "tcpip_inited (set_init_fn i g s) = tcpip_inited s"
  "tcpip_inited (dns_setserver k d s) = tcpip_inited s" "tcpip_inited (static_ip_event i info s) = tcpip_inited s"
  by (simp_all add: with_net_def adapter_call_def tcpip_adapter_reset_ip_info_def set_dhcpc_status_def set_init_fn_def
      dns_setserver_def static_ip_event_def)

lemma inited_branches [inited_simps]:
  "tcpip_inited (tcpip_adapter_update_default_netif s) = tcpip_inited s"
  "tcpip_inited (tcpip_adapter_start_ip_lost_timer i s) = tcpip_inited s"
  "tcpip_inited (tcpip_adapter_ip_lost_timer i s) = tcpip_inited s"
  "tcpip_inited (dhcpc_notify i n s) = tcpip_inited s" "tcpip_inited (stop_dhcp_server p s) = tcpip_inited s"
  by (simp_all add: tcpip_adapter_update_default_netif_def tcpip_adapter_start_ip_lost_timer_def
      tcpip_adapter_ip_lost_timer_def dhcpc_notify_def stop_dhcp_server_def Let_def inited_simps split: prod.split)

lemma inited_callback [inited_simps]: "tcpip_inited (tcpip_adapter_dhcpc_cb p s) = tcpip_inited s"
  by (simp add: tcpip_adapter_dhcpc_cb_def inited_simps split: option.split)

lemma inited_clear_servers [inited_simps]: "tcpip_inited (dns_clear_servers b s) = tcpip_inited s"
proof -
  have "tcpip_inited (clear_servers_loop b k n s) = tcpip_inited s" for k n
    by (induction n arbitrary: k s) (simp_all add: inited_simps)
  then show ?thesis by (simp add: dns_clear_servers_def)
qed

lemma inited_release [inited_simps]: "tcpip_inited (release_client e i p s) = tcpip_inited s"
  by (simp add: release_client_def Let_def inited_simps split: prod.split)

lemma start_server_inited: "start_dhcp_server e p ip s = Inr s' \<Longrightarrow> tcpip_inited s' = tcpip_inited s"
  by (auto simp: start_dhcp_server_def Let_def bindE_Inr_iff inited_simps)

lemma start_netif_inited: "start_netif e i mac info s = Inr (b, s') \<Longrightarrow> tcpip_inited s' = tcpip_inited s"
  by (auto simp: start_netif_def Let_def bindE_Inr_iff inited_simps split: option.splits if_splits)

lemma bodies_inited:
  "start_body e i mac info s = Inr (r, s') \<Longrightarrow> tcpip_inited s' = tcpip_inited s"
  "stop_body e i s = Inr (r, s') \<Longrightarrow> tcpip_inited s' = tcpip_inited s"
  "up_body i s = Inr (r, s') \<Longrightarrow> tcpip_inited s' = tcpip_inited s"
  "down_body e i s = Inr (r, s') \<Longrightarrow> tcpip_inited s' = tcpip_inited s"
  "set_ip_info_body i o_info s = Inr (r, s') \<Longrightarrow> tcpip_inited s' = tcpip_inited s"
  "set_dns_body i ty d s = Inr (r, s') \<Longrightarrow> tcpip_inited s' = tcpip_inited s"
  "dhcps_start_body e i s = Inr (r, s') \<Longrightarrow> tcpip_inited s' = tcpip_inited s"
  "dhcps_stop_body i s = Inr (r, s') \<Longrightarrow> tcpip_inited s' = tcpip_inited s"
  "dhcpc_start_body e i s = Inr (r, s') \<Longrightarrow> tcpip_inited s' = tcpip_inited s"
  "dhcpc_stop_body e i s = Inr (r, s') \<Longrightarrow> tcpip_inited s' = tcpip_inited s"
  "set_hostname_body i h s = Inr (r, s') \<Longrightarrow> tcpip_inited s' = tcpip_inited s"
proof -
  show "start_body e i mac info s = Inr (r, s') \<Longrightarrow> tcpip_inited s' = tcpip_inited s"
    by (auto simp: start_body_def start_ap_server_def Let_def bindE_Inr_iff inited_simps
        split: option.splits if_splits dest!: start_server_inited start_netif_inited)
  show "stop_body e i s = Inr (r, s') \<Longrightarrow> tcpip_inited s' = tcpip_inited s"
    by (auto simp: stop_body_def Let_def bindE_Inr_iff inited_simps split: option.splits if_splits)
  show "up_body i s = Inr (r, s') \<Longrightarrow> tcpip_inited s' = tcpip_inited s"
    by (auto simp: up_body_def Let_def inited_simps split: option.splits if_splits)
  show "down_body e i s = Inr (r, s') \<Longrightarrow> tcpip_inited s' = tcpip_inited s"
    by (auto simp: down_body_def Let_def inited_simps split: option.splits if_splits)
  show "set_ip_info_body i o_info s = Inr (r, s') \<Longrightarrow> tcpip_inited s' = tcpip_inited s"
    by (cases o_info) (auto simp: set_ip_info_body_def Let_def inited_simps split: option.splits if_split_asm)
  show "set_dns_body i ty d s = Inr (r, s') \<Longrightarrow> tcpip_inited s' = tcpip_inited s"
    by (auto simp: set_dns_body_def inited_simps split: option.splits if_splits)
  show "dhcps_start_body e i s = Inr (r, s') \<Longrightarrow> tcpip_inited s' = tcpip_inited s"
    by (auto simp: dhcps_start_body_def bindE_Inr_iff split: option.splits if_splits dest: start_server_inited)
  show "dhcps_stop_body i s = Inr (r, s') \<Longrightarrow> tcpip_inited s' = tcpip_inited s"
    by (auto simp: dhcps_stop_body_def inited_simps split: option.splits if_splits dhcp_status.splits)
  show "dhcpc_start_body e i s = Inr (r, s') \<Longrightarrow> tcpip_inited s' = tcpip_inited s"
    by (auto simp: dhcpc_start_body_def Let_def inited_simps split: option.splits if_splits prod.splits)
  show "dhcpc_stop_body e i s = Inr (r, s') \<Longrightarrow> tcpip_inited s' = tcpip_inited s"
    by (auto simp: dhcpc_stop_body_def inited_simps split: option.splits if_splits dhcp_status.splits)
  show "set_hostname_body i h s = Inr (r, s') \<Longrightarrow> tcpip_inited s' = tcpip_inited s"
    by (auto simp: set_hostname_body_def bindE_Inr_iff inited_simps split: option.splits if_splits)
qed

lemma ipc_self_inited: "tcpip_inited s \<Longrightarrow> ipc_self t f s = f s"
  by (simp add: ipc_self_def ipc_call_def)

lemma exec_op_inited:
  assumes "exec_op e t x s = Inr (r, s')" "tcpip_inited s"
  shows "tcpip_inited s'"
proof -
  note defs = tcpip_adapter_sta_start_def tcpip_adapter_ap_start_def tcpip_adapter_eth_start_def tcpip_adapter_start_def
    tcpip_adapter_stop_def tcpip_adapter_up_def tcpip_adapter_down_def tcpip_adapter_set_ip_info_def
    tcpip_adapter_set_dns_info_def tcpip_adapter_dhcps_start_def tcpip_adapter_dhcps_stop_def
    tcpip_adapter_dhcpc_start_def tcpip_adapter_dhcpc_stop_def tcpip_adapter_set_hostname_def
  have "tcpip_inited s' = tcpip_inited s"
  proof (cases x)
    case (OpOption m i v n)
    then show ?thesis
      using assms(1) by (auto simp: tcpip_adapter_dhcps_option_def split: prod.splits option.splits opt_mode.splits if_splits)
  next
    case (OpSetOld i info)
    then show ?thesis
      using assms(1) by (auto simp: tcpip_adapter_set_old_ip_info_def ipc_call_def split: option.splits if_splits)
  qed (use assms(1) in \<open>auto simp: defs run_server_def bindE_Inr_iff inited_simps split: if_splits
        dest!: ipc_self_Inr bodies_inited\<close>)
  then show ?thesis using assms(2) by simp
qed

lemma reach_inited: "adapter_reach e s \<Longrightarrow> tcpip_inited s"
proof (induction rule: adapter_reach.induct)
  case init
  then show ?case by (simp add: tcpip_adapter_init_def adapter_initial_def inited_simps)
next
  case (op s x t r s')
  then show ?case using exec_op_inited by blast
qed simp

section \<open>The operations return\<close>

definition returns :: "(adapter_ret \<times> adapter) result \<Rightarrow> bool" where
  "returns res \<longleftrightarrow> (\<exists>r s'. res = Inr (r, s'))"

lemma returns_Inr [simp]: "returns (Inr x)"
  by (cases x) (simp add: returns_def)

lemma returns_bind: "returns (bindE m f) \<longleftrightarrow> (\<exists>x. m = Inr x \<and> returns (f x))"
  by (cases m) (simp_all add: returns_def)

lemma inv_list: "adapter_inv s \<Longrightarrow> \<exists>ps. list_ok (a_net s) ps"
  by (auto simp: adapter_inv_def nets_ok_def)

lemma remove_returns: "list_ok n ps \<Longrightarrow> \<exists>n'. netif_remove (Some p) n = Inr n'"
  using netif_remove_list by blast

lemma start_server_returns: "ae_udp_ok e \<Longrightarrow> \<exists>s'. start_dhcp_server e p ip s = Inr s'"
  by (simp add: start_dhcp_server_def Let_def dhcps_start_def)

lemma add_returns: "\<exists>b n'. netif_add p a m g (Some f) n = Inr (b, n')"
proof -
  define n2 where "n2 = netif_set_addr p (Some a) (Some m) (Some g) ((upd_nif p (netif_reset (n_num n)) n)\<lparr>n_num := n_num n + 1\<rparr>)"
  obtain err x where "f (n_store n2 p) = (err, x)" by fastforce
  then show ?thesis by (cases "err = ERR_OK") (simp_all add: netif_add_def Let_def n2_def [symmetric], metis+)
qed

lemma start_netif_returns:
  assumes "esp_netif_init_fn s i = Some f"
  shows "\<exists>b s'. start_netif e i mac info s = Inr (b, s') \<and> (b \<longrightarrow> esp_netif s' i \<noteq> None)"
proof (cases "esp_netif s i = None \<and> \<not> ae_calloc_ok e")
  case False
  then obtain p s1 where 1: "(case esp_netif s i of Some p \<Rightarrow> Some (p, s) | None \<Rightarrow>
        if ae_calloc_ok e then Some (a_fresh s, with_net (upd_nif (a_fresh s) (\<lambda>_. netif_zero))
          (s\<lparr>esp_netif := (esp_netif s)(i := Some (a_fresh s)), a_fresh := a_fresh s + 1\<rparr>)) else None) = Some (p, s1)"
    "esp_netif s1 i = Some p" "esp_netif_init_fn s1 i = Some f"
    using assms by (cases "esp_netif s i") auto
  let ?s2 = "with_net (upd_nif p (\<lambda>n. n\<lparr>nf_hwaddr := mac\<rparr>)) s1"
  obtain b net where add: "netif_add p (ii_ip info) (ii_netmask info) (ii_gw info) (Some f) (a_net ?s2) = Inr (b, net)"
    using add_returns by blast
  have "start_netif e i mac info s = Inr (True, ?s2\<lparr>a_net := net\<rparr>)"
    unfolding start_netif_def 1(1) using 1(3) add by (simp add: Let_def)
  then show ?thesis using 1(2) by (intro exI [of _ True]) simp
next
  case True
  then show ?thesis by (intro exI [of _ False]) (simp add: start_netif_def Let_def)
qed

lemma start_body_returns:
  assumes "ae_udp_ok e" "esp_netif_init_fn s i = Some f"
  shows "returns (start_body e i mac info s)"
proof (cases "mac = None \<or> info = None \<or> TCPIP_ADAPTER_IF_MAX \<le> i")
  case True
  then show ?thesis by (auto simp: start_body_def split: option.split)
next
  case False
  then obtain m a where ma: "mac = Some m" "info = Some a" "\<not> TCPIP_ADAPTER_IF_MAX \<le> i" by auto
  obtain ok s1 where s1: "(if esp_netif s i = None \<or> \<not> netif_is_up (esp_netif s i) (a_net s)
      then start_netif e i m a s else Inr (True, s)) = Inr (ok, s1)" "ok \<longrightarrow> esp_netif s1 i \<noteq> None"
    using start_netif_returns [OF assms(2), of e m a] by (cases "esp_netif s i = None \<or> \<not> netif_is_up (esp_netif s i) (a_net s)") auto
  have "\<exists>s2. start_ap_server e a s1 = Inr s2" if "ok" "i = TCPIP_ADAPTER_IF_AP"
    using s1(2) that start_server_returns [OF assms(1)] by (auto simp: start_ap_server_def Let_def)
  then show ?thesis using ma s1(1) unfolding start_body_def by (auto simp: returns_bind)
qed

lemma stop_body_returns:
  assumes "client_ok e" "adapter_inv s"
  shows "returns (stop_body e i s)"
proof (cases "i < TCPIP_ADAPTER_IF_MAX \<and> esp_netif s i \<noteq> None")
  case False
  then show ?thesis by (auto simp: stop_body_def)
next
  case True
  then obtain p where p: "\<not> TCPIP_ADAPTER_IF_MAX \<le> i" "esp_netif s i = Some p" by auto
  define s1 where "s1 = (if i = TCPIP_ADAPTER_IF_AP then
      let s' = stop_dhcp_server p s in if dhcps_status s' \<noteq> DHCP_STOPPED then s'\<lparr>dhcps_status := DHCP_INIT\<rparr> else s'
    else if is_client_if i then release_client e i p s else s)"
  obtain ps where ps: "list_ok (a_net s1) ps"
  proof -
    obtain ps where "list_ok (a_net s) ps" using inv_list [OF assms(2)] by blast
    moreover obtain qs where "list_ok (a_net (release_client e i p s)) qs"
      using inv_list [OF release_client_core(1) [OF assms]] by blast
    moreover have "list_ok (a_net (stop_dhcp_server p s)) ps" if "list_ok (a_net s) ps" for ps
      using that by (simp add: pcb_update_links)
    ultimately have "\<exists>ps. list_ok (a_net s1) ps" by (auto simp: s1_def Let_def simp del: stop_dhcp_server_fields)
    then show thesis using that by blast
  qed
  then have "list_ok (netif_set_down p (a_net s1)) ps"
    using list_ok_links [of "a_net s1" "netif_set_down p (a_net s1)" ps] by (simp add: same_links_def nif_simps)
  from remove_returns [OF this, of p] remove_returns [of "a_net s" _ p] inv_list [OF assms(2)] obtain n n' where
    n: "netif_remove (Some p) (netif_set_down p (a_net s1)) = Inr n" "netif_remove (Some p) (a_net s) = Inr n'" by blast
  have "stop_body e i s = (if \<not> netif_is_up (Some p) (a_net s)
      then bindE (netif_remove (Some p) (a_net s)) (\<lambda>net. Inr (IF_NOT_READY, s\<lparr>a_net := net\<rparr>))
      else bindE (netif_remove (Some p) (netif_set_down p (a_net s1))) (\<lambda>net.
        Inr (ADAPTER_OK, tcpip_adapter_update_default_netif ((with_net (netif_set_down p) s1)\<lparr>a_net := net\<rparr>))))"
    using p unfolding stop_body_def s1_def by (simp only: option.case if_False Let_def with_net_simps)
  then show ?thesis by (simp add: n)
qed

lemma other_bodies_return:
  "returns (up_body i s)" "returns (down_body e i s)" "returns (set_ip_info_body i o_info s)"
  "returns (set_dns_body i ty d s)" "ae_udp_ok e \<Longrightarrow> returns (dhcps_start_body e i s)"
  "returns (dhcps_stop_body i s)" "returns (dhcpc_start_body e i s)" "returns (dhcpc_stop_body e i s)"
  "returns (set_hostname_body i h s)"
proof -
  show "ae_udp_ok e \<Longrightarrow> returns (dhcps_start_body e i s)"
    using start_server_returns by (auto simp: dhcps_start_body_def returns_bind split: option.split)
  show "returns (set_hostname_body i h s)"
    by (auto simp: set_hostname_body_def returns_bind in_buffer_def split: option.split)
qed (auto simp: up_body_def down_body_def set_ip_info_body_def set_dns_body_def dhcps_stop_body_def
    dhcpc_start_body_def dhcpc_stop_body_def Let_def split: option.split dhcp_status.split prod.split)

lemma tick_returns: "\<exists>d'. dhcps_tick d = Inr d'"
proof -
  have "\<exists>l'. dhcps_coarse_tmr l = Inr l'" for l
  proof (cases "8 \<le> unat (of_nat (length (tick_loop l)) :: byte)")
    case True
    moreover have "unat (of_nat n :: byte) \<le> n" for n by (simp add: unsigned_of_nat take_bit_nat_less_eq_self)
    ultimately have "8 \<le> length (tick_loop l)" by (meson order_trans)
    then obtain a b c where "tick_loop l = a # b # c" by (auto simp: eval_nat_numeral Suc_le_length_iff)
    then show ?thesis by (simp add: dhcps_coarse_tmr_def Let_def del: tick_loop.simps oldest.simps unlink_node.simps)
  qed (simp add: dhcps_coarse_tmr_def Let_def MAX_STATION_NUM_def)
  then obtain l' where "dhcps_coarse_tmr (plist d) = Inr l'" by blast
  then show ?thesis by (simp add: dhcps_tick_def)
qed

definition is_packet_op :: "adapter_op \<Rightarrow> bool" where
  "is_packet_op x \<longleftrightarrow> (case x of OpPacket _ _ \<Rightarrow> True | _ \<Rightarrow> False)"

lemma exec_op_returns:
  assumes "client_ok e" "ae_udp_ok e" "adapter_inv s" "tcpip_inited s" "\<not> is_packet_op x"
  shows "returns (exec_op e t x s)"
proof (cases x)
  case (OpStart i mac info)
  have "returns (tcpip_adapter_start t e j mac info (set_init_fn j f s))" for j f
    using assms(4) start_body_returns [OF assms(2), of "set_init_fn j f s" j f]
    by (simp add: tcpip_adapter_start_def ipc_self_inited inited_simps) (simp add: set_init_fn_def)
  then show ?thesis
    using OpStart by (simp add: tcpip_adapter_sta_start_def tcpip_adapter_ap_start_def tcpip_adapter_eth_start_def)
next
  case (OpSetOld i info)
  then show ?thesis using assms(4) by (auto simp: tcpip_adapter_set_old_ip_info_def ipc_call_def split: option.split)
next
  case OpTick
  moreover obtain d' where "dhcps_tick (a_dhcps s) = Inr d'" using tick_returns by blast
  ultimately show ?thesis by (simp add: run_server_def)
qed (use assms in \<open>auto simp: tcpip_adapter_stop_def tcpip_adapter_up_def tcpip_adapter_down_def tcpip_adapter_set_ip_info_def
    tcpip_adapter_set_dns_info_def tcpip_adapter_dhcps_start_def tcpip_adapter_dhcps_stop_def
    tcpip_adapter_dhcpc_start_def tcpip_adapter_dhcpc_stop_def tcpip_adapter_set_hostname_def is_packet_op_def
    ipc_self_inited stop_body_returns other_bodies_return split: prod.split\<close>)

end
