(* ===== verification/Adapter_Props.thy ===== *)
theory Adapter_Props
  imports Adapter_Total
begin

text \<open>
  Properties of the adapter: the invariant of its reachable states, the refinement of the machine of its
  links, addresses, the timer for a lost address, the options of the server, and what starting an
  interface twice leads to; with a run that brings up the access point and the station as witness.
\<close>

section \<open>Properties\<close>

text \<open>
  C13. The adapter stays consistent if its callers keep to two rules: an interface that is still in the list
  but down is not started again (see \<open>restart_makes_stop_hang\<close> for what happens otherwise), and a station
  or Ethernet interface that was taken out of the list is not brought up. In every state that the
  adapter's operations on the three interfaces under these rules, the DHCP client, the timers, and packets
  for the running server lead to from the initialisation, the interfaces form a list without repetition
  that holds every interface that is up and the default one; the server's state is started exactly when
  the interface of the access point has the server's control block, and then the access point is up and
  the server is in one of its own reachable states; a server that is not started has no leases; and a
  client is started only on a station or Ethernet interface that is up.
\<close>

theorem adapter_stays_consistent:
  assumes "client_ok e" "adapter_reach e s"
  shows "(\<exists>ps. list_ok (a_net s) ps \<and>
      (\<forall>i p. esp_netif s i = Some p \<and> netif_is_up (Some p) (a_net s) \<longrightarrow> p \<in> set ps) \<and>
      (\<forall>p. n_default (a_net s) = Some p \<longrightarrow> p \<in> set ps)) \<and>
    (dhcps_status s = DHCP_STARTED \<longrightarrow>
      netif_is_up (esp_netif s TCPIP_ADAPTER_IF_AP) (a_net s) \<and> (\<exists>ip. dhcps_reachable ip (a_dhcps s))) \<and>
    (\<forall>p. esp_netif s TCPIP_ADAPTER_IF_AP = Some p \<longrightarrow>
      nf_dhcps_pcb (n_store (a_net s) p) = (dhcps_status s = DHCP_STARTED)) \<and>
    (dhcps_status s \<noteq> DHCP_STARTED \<longrightarrow> plist (a_dhcps s) = []) \<and>
    (\<forall>i. dhcpc_status s i = DHCP_STARTED \<longrightarrow> is_client_if i \<and> netif_is_up (esp_netif s i) (a_net s))"
proof -
  have inv: "adapter_inv s" using reach_inv assms by blast
  then obtain ps where "list_ok (a_net s) ps"
    "\<forall>i p. esp_netif s i = Some p \<longrightarrow> flag_set NETIF_FLAG_UP (n_store (a_net s) p) \<longrightarrow> p \<in> set ps"
    "\<forall>p. n_default (a_net s) = Some p \<longrightarrow> p \<in> set ps"
    unfolding adapter_inv_def nets_ok_def by blast
  then have "\<exists>ps. list_ok (a_net s) ps \<and>
      (\<forall>i p. esp_netif s i = Some p \<and> netif_is_up (Some p) (a_net s) \<longrightarrow> p \<in> set ps) \<and>
      (\<forall>p. n_default (a_net s) = Some p \<longrightarrow> p \<in> set ps)"
    by (intro exI [of _ ps]) (auto simp: netif_is_up_def)
  then show ?thesis
    using inv by (simp add: adapter_inv_def server_ok_def clients_ok_def if_up_def split: if_splits)
qed

text \<open>
  C12. The adapter refines the machine of its links. In every state reached under the rules of
  \<open>op_ok\<close> (what is linked and down is not started again, what was taken out of the list is not brought up,
  packets come only while the server runs), every operation that keeps to them and returns changes which
  interfaces exist and are up and the states of server and clients as the abstract machine says, and
  returns the code the machine gives; the machine leaves open only whether memory for an interface is
  there and whether the DHCP client starts, which is assumed to change only addresses and its own data. With memory for the server's control block every such
  operation does return, the reception of a packet apart (\<open>short_packets_safe\<close> speaks of that).
\<close>

theorem adapter_refines_links:
  assumes "client_ok e" "adapter_reach e s" "op_ok x s"
  shows "(\<forall>r s'. exec_op e t x s = Inr (r, s') \<longrightarrow> spec_step (ap_address s) x (abs_links s) r (abs_links s')) \<and>
    (ae_udp_ok e \<and> (\<forall>ok pk. x \<noteq> OpPacket ok pk) \<longrightarrow> (\<exists>r s'. exec_op e t x s = Inr (r, s')))"
proof -
  note inv = reach_inv [OF assms(2,1)]
  have "is_packet_op x \<Longrightarrow> \<exists>ok pk. x = OpPacket ok pk" by (cases x) (simp_all add: is_packet_op_def)
  then show ?thesis
    using exec_op_abs [OF assms(1) inv assms(3)] exec_op_returns [OF assms(1) _ inv reach_inited [OF assms(2)]]
    unfolding returns_def by blast
qed

subsection \<open>Addresses\<close>

lemma netif_info_set_addr [simp]:
  "netif_info (n_store (netif_set_addr p (Some a) (Some m) (Some g) n) p) = \<lparr>ii_ip = a, ii_netmask = m, ii_gw = g\<rparr>"
  by (auto simp: netif_info_def netif_set_addr_def netif_set_ipaddr_def netif_set_gw_def netif_set_netmask_def
      Let_def)

lemma static_event_fields [simp]:
  "a_net (static_ip_event i info s) = a_net s" "esp_netif (static_ip_event i info s) = esp_netif s"
  "esp_ip (static_ip_event i info s) = esp_ip s"
  by (simp_all add: static_ip_event_def adapter_call_def)

lemma dns_fields [simp]:
  "esp_ip (dns_setserver k d s) = esp_ip s" "a_out (dns_setserver k d s) = a_out s"
  "esp_ip_old (dns_setserver k d s) = esp_ip_old s" "a_net (dns_setserver k d s) = a_net s"
  "esp_netif (dns_setserver k d s) = esp_netif s"
  by (simp_all add: dns_setserver_def)

lemma dns_clear_fields [simp]:
  "esp_ip (dns_clear_servers b s) = esp_ip s" "a_out (dns_clear_servers b s) = a_out s"
  "esp_ip_old (dns_clear_servers b s) = esp_ip_old s" "a_net (dns_clear_servers b s) = a_net s"
  "esp_netif (dns_clear_servers b s) = esp_netif s"
proof -
  have "esp_ip (clear_servers_loop b k n s) = esp_ip s \<and> a_out (clear_servers_loop b k n s) = a_out s \<and>
      esp_ip_old (clear_servers_loop b k n s) = esp_ip_old s \<and> a_net (clear_servers_loop b k n s) = a_net s \<and>
      esp_netif (clear_servers_loop b k n s) = esp_netif s" for k n
    by (induction n arbitrary: k s) auto
  then show "esp_ip (dns_clear_servers b s) = esp_ip s" "a_out (dns_clear_servers b s) = a_out s"
    "esp_ip_old (dns_clear_servers b s) = esp_ip_old s" "a_net (dns_clear_servers b s) = a_net s"
    "esp_netif (dns_clear_servers b s) = esp_netif s" by (simp_all add: dns_clear_servers_def)
qed

text \<open>
  C35. Addresses round trip. An address that \<open>tcpip_adapter_set_ip_info\<close> accepts is the one
  \<open>tcpip_adapter_get_ip_info\<close> reads back, whether the interface is up or not; the one event it sends,
  for an interface that is up and an address without zero parts, says whether the address differs from
  the old one (and names the station, whatever the interface). Refused addresses change nothing.
\<close>

theorem ip_info_set_get:
  assumes "tcpip_adapter_set_ip_info t i (Some info) s = Inr (r, s')"
  shows "(r = ADAPTER_OK \<longrightarrow>
      tcpip_adapter_get_ip_info i True s' = (ADAPTER_OK, Some info) \<and>
      (\<exists>cs. a_out s' = a_out s @ cs \<and>
        cs = (if if_up s i \<and> ii_ip info \<noteq> 0 \<and> ii_netmask info \<noteq> 0 \<and> ii_gw info \<noteq> 0
              then [SendGotIp SYSTEM_EVENT_STA_GOT_IP (info \<noteq> esp_ip_old s i) info] else []))) \<and>
    (r \<noteq> ADAPTER_OK \<longrightarrow> s' = s \<and> (r = DHCP_NOT_STOPPED \<longleftrightarrow> i < TCPIP_ADAPTER_IF_MAX))"
proof -
  have h: "set_ip_info_body i (Some info) s = Inr (r, s')"
    using assms by (auto simp: tcpip_adapter_set_ip_info_def dest: ipc_self_Inr)
  let ?s1 = "if is_client_if i then dns_clear_servers True s else s"
  let ?s2 = "?s1\<lparr>esp_ip := (esp_ip ?s1)(i := info)\<rparr>"
  have c: "same_core s ?s2" by (auto intro: same_core_trans [OF _ same_core_fields(1)] core_intros)
  have f: "esp_netif ?s2 = esp_netif s" "if_up ?s2 = if_up s" "a_out ?s2 = a_out s" "esp_ip_old ?s2 = esp_ip_old s"
    "esp_ip ?s2 i = info"
    using c core_if_up [OF c] by (auto simp: same_core_def)
  show ?thesis
  proof (cases "r = ADAPTER_OK")
    case False
    with h show ?thesis by (auto simp: set_ip_info_body_def Let_def split: if_splits option.splits)
  next
    case True
    then have i: "i < TCPIP_ADAPTER_IF_MAX" using h by (auto simp: set_ip_info_body_def split: if_splits)
    show ?thesis
    proof (cases "if_up s i")
      case up: True
      then obtain p where p: "esp_netif s i = Some p" by (auto simp: if_up_def netif_is_up_def split: option.splits)
      let ?s3 = "with_net (netif_set_addr p (Some (ii_ip info)) (Some (ii_netmask info)) (Some (ii_gw info))) ?s2"
      have s': "s' = static_ip_event i info ?s3"
        using h True up p f(1,2) unfolding set_ip_info_body_def Let_def if_up_def
        by (auto split: if_splits)
      have "netif_is_up (Some p) (a_net ?s3)"
        using up p f(1,2) by (simp add: if_up_def fun_eq_iff netif_is_up_def flag_set_def nif_simps)
      then have "current_info i s' = info"
        using p f(1) by (simp add: s' current_info_def)
      then show ?thesis using True i up f(3,4)
        by (simp add: tcpip_adapter_get_ip_info_def s' static_ip_event_def adapter_call_def with_net_def)
    next
      case False
      then have "\<not> if_up ?s2 i" by (simp add: f(2))
      then have s': "s' = ?s2"
        using h True unfolding set_ip_info_body_def Let_def if_up_def
        by (auto split: if_splits option.splits)
      have "current_info i ?s2 = info"
        using False f(5) by (auto simp: current_info_def if_up_def split: option.split)
      then show ?thesis using True i False f(3) by (simp add: tcpip_adapter_get_ip_info_def s')
    qed
  qed
qed

text \<open>
  C40. \<open>tcpip_adapter_set_old_ip_info\<close> answers OK and stores the address when another task calls it; in
  the task of the stack it answers OK too and stores nothing.
\<close>

theorem old_address_forgotten:
  assumes "tcpip_inited s" "i < TCPIP_ADAPTER_IF_MAX"
  shows "\<exists>s'. tcpip_adapter_set_old_ip_info t i (Some info) s = Inr (ADAPTER_OK, s') \<and>
    tcpip_adapter_get_old_ip_info i True s' = (ADAPTER_OK, Some (if t then esp_ip_old s i else info))"
  using assms by (simp add: tcpip_adapter_set_old_ip_info_def tcpip_adapter_get_old_ip_info_def ipc_call_def)


subsection \<open>The timer for a lost address\<close>

lemma sta_not_ap [simp]: "TCPIP_ADAPTER_IF_STA \<noteq> TCPIP_ADAPTER_IF_AP" "TCPIP_ADAPTER_IF_AP \<noteq> TCPIP_ADAPTER_IF_STA"
  by (simp_all add: adapter_ifs)

lemma sta_client [simp]: "is_client_if TCPIP_ADAPTER_IF_STA"
  by (simp add: is_client_if_def)

lemma update_default_fields [simp]:
  "esp_ip (tcpip_adapter_update_default_netif s) = esp_ip s"
  "esp_ip_old (tcpip_adapter_update_default_netif s) = esp_ip_old s"
  "esp_netif (tcpip_adapter_update_default_netif s) = esp_netif s"
  "timer_running (tcpip_adapter_update_default_netif s) = timer_running s"
  "tcpip_inited (tcpip_adapter_update_default_netif s) = tcpip_inited s"
  "dhcps_status (tcpip_adapter_update_default_netif s) = dhcps_status s"
  "a_out (tcpip_adapter_update_default_netif s) = a_out s"
  "n_store (a_net (tcpip_adapter_update_default_netif s)) = n_store (a_net s)"
  "n_list (a_net (tcpip_adapter_update_default_netif s)) = n_list (a_net s)"
  by (simp_all add: tcpip_adapter_update_default_netif_def with_net_def netif_set_default_def)

lemma set_down_ip [simp]: "nf_ip (n_store (netif_set_down p n) q) = nf_ip (n_store n q)"
  by (simp add: netif_set_down_def clear_flag_def Let_def)

lemma set_addr_ip [simp]: "nf_ip (n_store (netif_set_addr p (Some a) m g n) p) = a"
  by (auto simp: netif_set_addr_def netif_set_ipaddr_def netif_set_gw_def netif_set_netmask_def Let_def)

lemma notified_event:
  assumes "esp_netif s TCPIP_ADAPTER_IF_STA = Some p" "netif_info (n_store (a_net s) p) = info"
    and "ii_ip info \<noteq> 0" "ii_ip (esp_ip s TCPIP_ADAPTER_IF_STA) = 0"
  shows "a_out (tcpip_adapter_dhcpc_cb (Some p) s) =
    a_out s @ [SendGotIp SYSTEM_EVENT_STA_GOT_IP (info \<noteq> esp_ip_old s TCPIP_ADAPTER_IF_STA) info]"
  using assms
  by (auto simp: tcpip_adapter_dhcpc_cb_def dhcpc_notify_def Let_def adapter_call_def netif_info_def adapter_ifs)

text \<open>
  The timer for a lost address. When the station goes down with its client running and an address
  that was announced, one timeout of 120 seconds is set. An address that comes before it expires is
  announced as changed only if it differs from the old one; when it expires without an address the loss
  is reported once, and the next address is announced as changed, even if it is the old one.
\<close>

theorem lost_address_reported:
  assumes "tcpip_adapter_down t e TCPIP_ADAPTER_IF_STA s = Inr (r, s1)"
    and "esp_netif s TCPIP_ADAPTER_IF_STA = Some p" "dhcpc_status s TCPIP_ADAPTER_IF_STA = DHCP_STARTED"
    and "old = esp_ip_old s TCPIP_ADAPTER_IF_STA" "ii_ip old \<noteq> 0" "\<not> timer_running s TCPIP_ADAPTER_IF_STA"
    and "netif_info (n_store n p) = info" "ii_ip info \<noteq> 0"
    and "s2 = tcpip_adapter_ip_lost_timer TCPIP_ADAPTER_IF_STA s1"
  shows "r = ADAPTER_OK \<and> a_out s1 = a_out s @ [SysTimeout 120000 TCPIP_ADAPTER_IF_STA] \<and>
    a_out (tcpip_adapter_dhcpc_cb (Some p) (s1\<lparr>a_net := n\<rparr>)) =
      a_out s1 @ [SendGotIp SYSTEM_EVENT_STA_GOT_IP (info \<noteq> old) info] \<and>
    a_out s2 = a_out s1 @ [SendEvent SYSTEM_EVENT_STA_LOST_IP] \<and>
    a_out (tcpip_adapter_dhcpc_cb (Some p) (s2\<lparr>a_net := n\<rparr>)) =
      a_out s2 @ [SendGotIp SYSTEM_EVENT_STA_GOT_IP True info]"
proof -
  have h: "down_body e TCPIP_ADAPTER_IF_STA s = Inr (r, s1)"
    using assms(1) by (auto simp: tcpip_adapter_down_def dest: ipc_self_Inr)
  have s1: "r = ADAPTER_OK" "a_out s1 = a_out s @ [SysTimeout 120000 TCPIP_ADAPTER_IF_STA]"
    "esp_netif s1 = esp_netif s" "esp_ip s1 TCPIP_ADAPTER_IF_STA = ip_info_zero" "esp_ip_old s1 = esp_ip_old s"
    "nf_ip (n_store (a_net s1) p) = 0"
    using h assms(2-6)
    by (auto simp: down_body_def Let_def tcpip_adapter_start_ip_lost_timer_def tcpip_adapter_reset_ip_info_def
        adapter_call_def with_net_def CONFIG_IP_LOST_TIMER_INTERVAL_def IPADDR_ANY_def)
  have s2: "a_out s2 = a_out s1 @ [SendEvent SYSTEM_EVENT_STA_LOST_IP]" "esp_netif s2 = esp_netif s"
    "esp_ip s2 TCPIP_ADAPTER_IF_STA = ip_info_zero" "esp_ip_old s2 TCPIP_ADAPTER_IF_STA = ip_info_zero"
    using s1 assms(2) by (simp_all add: assms(9) tcpip_adapter_ip_lost_timer_def adapter_call_def)
  have "info \<noteq> ip_info_zero" using assms(8) by (auto simp: ip_info_zero_def)
  then show ?thesis
    using notified_event [of "s1\<lparr>a_net := n\<rparr>" p info] notified_event [of "s2\<lparr>a_net := n\<rparr>" p info]
      s1 s2 assms(2,4,7,8) by (simp add: ip_info_zero_def)
qed

subsection \<open>Options\<close>

lemmas option_ids = IP_ADDRESS_LEASE_TIME_def REQUESTED_IP_ADDRESS_def ROUTER_SOLICITATION_ADDRESS_def
  DOMAIN_NAME_SERVER_def

definition option_read_back :: "opt_value \<Rightarrow> opt_value" where
  "option_read_back v = (case v of OptTime t \<Rightarrow> OptTime (if t \<noteq> 0 then t else DHCPS_LEASE_TIME_DEF)
     | OptPoll p \<Rightarrow> OptPoll p | OptByte b \<Rightarrow> OptByte (if b \<noteq> 0 then 1 else 0))"

lemma set_bit_reads:
  "(set_bit_if m v old AND m \<noteq> 0) = (v \<noteq> 0)" if "m = OFFER_ROUTER \<or> m = OFFER_DNS"
proof -
  have "(old OR m) AND m = m" "(old AND (NOT m AND 0xFF)) AND m = 0"
    by (auto simp: bit_eq_iff bit_simps)
  then show ?thesis using that by (auto simp: set_bit_if_def OFFER_ROUTER_def OFFER_DNS_def)
qed

text \<open>
  C39. Options of the server round trip. An option that \<open>tcpip_adapter_dhcps_option\<close> accepts for the server
  that has not been started yet is read back as it was given: a pool as it is, a lease time with the
  default for zero, and a flag as zero or one.
\<close>

theorem options_round_trip:
  assumes "tcpip_adapter_dhcps_option OP_SET opt (Some v) n s = (ADAPTER_OK, w, s')"
    and "dhcps_status s = DHCP_INIT"
    and "(opt, n, v) \<in> {(51, 4, OptTime t), (50, 12, OptPoll p), (32, 1, OptByte b), (6, 1, OptByte b)}"
    and "old = OptTime t' \<and> opt = 51 \<or> old = OptPoll p' \<and> opt = 50 \<or> old = OptByte b'"
  shows "tcpip_adapter_dhcps_option OP_GET opt (Some old) n s' = (ADAPTER_OK, Some (option_read_back v), s')"
  using assms set_bit_reads
  by (auto simp: tcpip_adapter_dhcps_option_def dhcps_option_info_def option_ids option_set_def option_get_def
      option_read_back_def dhcps_set_option_info_def split: option.splits if_splits)

text \<open>
  A pool the adapter accepts is a pool the server uses. When the server is started after a pool was
  set, either the pool was accepted and is the server's pool, or it was refused, by the very checks for
  which the server itself would have given it up, and the server has the pool it would have had.
\<close>

theorem pool_option_takes_effect:
  assumes "tcpip_adapter_dhcps_option OP_SET 50 (Some (OptPoll p)) 12 s = (r, w, s1)" "enable p"
    and "dhcps_status s \<noteq> DHCP_STARTED" "tcpip_adapter_dhcps_start t e TCPIP_ADAPTER_IF_AP s1 = Inr (r', s2)"
    and "dhcps_status s2 = DHCP_STARTED"
  shows "r = ADAPTER_OK \<and> dhcps_poll (a_dhcps s2) = p \<or>
    r = INVALID_PARAMS \<and> dhcps_poll_set (ii_ip (current_info TCPIP_ADAPTER_IF_AP s)) p =
      default_pool (ii_ip (current_info TCPIP_ADAPTER_IF_AP s)) \<and>
    dhcps_poll (a_dhcps s2) = dhcps_poll_set (server_address (a_dhcps s2)) (dhcps_poll (a_dhcps s))"
proof -
  let ?ip = "ii_ip (current_info TCPIP_ADAPTER_IF_AP s)"
  have rf: "pool_refused ?ip p = poll_invalid ?ip p"
    using assms(2) by (simp add: pool_refused_def poll_invalid_def)
  have ip: "current_info TCPIP_ADAPTER_IF_AP (s\<lparr>a_dhcps := d\<rparr>) = current_info TCPIP_ADAPTER_IF_AP s" for d
    by (simp add: current_info_def split: option.split)
  have s1: "if poll_invalid ?ip p then r = INVALID_PARAMS \<and> s1 = s
     else r = ADAPTER_OK \<and> s1 = s\<lparr>a_dhcps := (a_dhcps s)\<lparr>dhcps_poll := p\<rparr>\<rparr>"
    using assms(1,3) rf
    by (auto simp: tcpip_adapter_dhcps_option_def dhcps_option_info_def option_ids option_set_def
        dhcps_set_option_info_def split: if_splits)
  have h: "dhcps_start_body e TCPIP_ADAPTER_IF_AP s1 = Inr (r', s2)"
    using assms(4) by (auto simp: tcpip_adapter_dhcps_start_def dest: ipc_self_Inr)
  moreover have "dhcps_status s1 \<noteq> DHCP_STARTED" using s1 assms(3) by (auto split: if_splits)
  ultimately obtain q where "start_dhcp_server e q (ii_ip (current_info TCPIP_ADAPTER_IF_AP s1)) s1 = Inr s2"
    using assms(5) by (auto simp: dhcps_start_body_def bindE_Inr_iff split: if_splits option.splits)
  note f = start_dhcp_server_fields(7,8) [OF this]
  show ?thesis
    using s1 f assms(2) ip by (auto simp: dhcps_poll_set_def split: if_splits)
qed


subsection \<open>Starting an interface twice\<close>

lemma find_prev_circle:
  assumes "nf_next (st p) = Some p" "q \<noteq> p"
  shows "find_prev st q (Some p) = None"
proof -
  have "st' = st \<longrightarrow> q' = q \<longrightarrow> c \<noteq> Some p" if "find_prev st' q' c = Some y" for st' q' c y
  proof (rule find_prev.raw_induct
      [where P = "\<lambda>st' q' c y. st' = st \<longrightarrow> q' = q \<longrightarrow> c \<noteq> Some p", OF _ that], intro impI notI)
    fix f st' q' c y
    assume ih: "\<And>st' q' c y. f st' q' c = Some y \<Longrightarrow> st' = st \<longrightarrow> q' = q \<longrightarrow> c \<noteq> Some p"
      and eq: "(case c of None \<Rightarrow> Some None | Some r \<Rightarrow> if nf_next (st' r) = Some q' then Some (Some r)
        else f st' q' (nf_next (st' r))) = Some y"
      and h: "st' = st" "q' = q" "c = Some p"
    then show False using assms ih [of st q "Some p" y] by auto
  qed
  then show ?thesis by (metis not_None_eq)
qed

lemma add_linked_head:
  assumes "n_list n = Some p" "\<And>x. fst (f x) = ERR_OK" "\<And>x. nf_next (snd (f x)) = nf_next x"
  shows "\<exists>n'. netif_add p a m g (Some f) n = Inr (True, n') \<and> n_list n' = Some p \<and>
    nf_next (n_store n' p) = Some p \<and> (\<forall>q. q \<noteq> p \<longrightarrow> n_store n' q = n_store n q)"
proof -
  define n2 where "n2 = netif_set_addr p (Some a) (Some m) (Some g)
      ((upd_nif p (netif_reset (n_num n)) n)\<lparr>n_num := n_num n + 1\<rparr>)"
  obtain x where x: "f (n_store n2 p) = (ERR_OK, x)"
    using assms(2) [of "n_store n2 p"] by (cases "f (n_store n2 p)") auto
  have "n_list n2 = Some p" "q \<noteq> p \<Longrightarrow> n_store n2 q = n_store n q" for q
    using assms(1) by (simp_all add: n2_def nif_simps)
  then show ?thesis using x by (auto simp: netif_add_def Let_def n2_def [symmetric])
qed

lemma set_down_fields [simp]:
  "n_list (netif_set_down p n) = n_list n" "q \<noteq> p \<Longrightarrow> n_store (netif_set_down p n) q = n_store n q"
  by (simp_all add: netif_set_down_def Let_def)

lemma remove_circle:
  assumes "n_list n = Some p" "nf_next (n_store n p) = Some p" "q \<noteq> p"
  shows "netif_remove (Some q) n = Inl Hang"
proof -
  define n5 where "n5 = (let s1 = (if nf_ip (n_store n q) \<noteq> 0
                then net_call [TcpAddrChanged (nf_ip (n_store n q)) None] n else n);
      s2 = (if flag_set NETIF_FLAG_IGMP (n_store s1 q) then net_call [IgmpStop q] s1 else s1);
      s4 = upd_nif q (\<lambda>n. n\<lparr>nf_dhcp := False\<rparr>) (netif_set_down q s2)
    in if n_default s4 = Some q then netif_set_default None s4 else s4)"
  have "n_list n5 = Some p" "n_store n5 p = n_store n p"
    using assms by (auto simp: n5_def Let_def netif_set_default_def)
  then have "netif_unlink q n5 = Inl Hang"
    using assms find_prev_circle [of "n_store n5" p q] by (simp add: netif_unlink_def)
  then show ?thesis by (simp add: netif_remove_def n5_def Let_def)
qed

lemma stop_ap_circle:
  assumes "n_list (a_net s) = Some p" "nf_next (n_store (a_net s) p) = Some p" "q \<noteq> p"
    and "esp_netif s TCPIP_ADAPTER_IF_AP = Some q" "netif_is_up (Some q) (a_net s)"
  shows "stop_body e TCPIP_ADAPTER_IF_AP s = Inl Hang"
proof -
  have "netif_remove (Some q) (netif_set_down q (upd_nif q (\<lambda>x. x\<lparr>nf_dhcps_pcb := False\<rparr>) (a_net s))) = Inl Hang"
    by (rule remove_circle [of _ p]) (use assms in auto)
  moreover have "\<not> TCPIP_ADAPTER_IF_MAX \<le> TCPIP_ADAPTER_IF_AP" by (simp add: adapter_ifs)
  ultimately show ?thesis
    using assms(4,5) by (cases "dhcps_status s") (simp_all add: stop_body_def Let_def)
qed

text \<open>
  C37. An interface must not be started again while it is linked and down. In a reachable state with the
  station at the head of the list of interfaces and the access point up, taking the station down and
  starting it again succeeds and makes the list circular: its head, the station, is its own successor, and
  nothing behind it is in the list any more. Stopping the access point then never returns.
\<close>

theorem restart_makes_stop_hang:
  assumes "client_ok e" "adapter_reach e s" "n_list (a_net s) = Some p"
    and "esp_netif s TCPIP_ADAPTER_IF_STA = Some p" "esp_netif s TCPIP_ADAPTER_IF_AP = Some q"
    and "if_up s TCPIP_ADAPTER_IF_AP"
  shows "\<exists>s1 s2. tcpip_adapter_down t e TCPIP_ADAPTER_IF_STA s = Inr (ADAPTER_OK, s1) \<and>
    tcpip_adapter_sta_start t e (Some mac) (Some info) s1 = Inr (ADAPTER_OK, s2) \<and>
    n_list (a_net s2) = Some p \<and> nf_next (n_store (a_net s2) p) = Some p \<and>
    tcpip_adapter_stop t e TCPIP_ADAPTER_IF_AP s2 = Inl Hang"
proof -
  note ini = reach_inited [OF assms(2)]
  have "ptrs_ok s" by (rule inv_ptrs [OF reach_inv [OF assms(2,1)]])
  then have pq: "q \<noteq> p" using assms(4,5) sta_not_ap(1) unfolding ptrs_ok_def by metis
  define s0 where "s0 = (if dhcpc_status s TCPIP_ADAPTER_IF_STA = DHCP_STARTED then
      tcpip_adapter_reset_ip_info TCPIP_ADAPTER_IF_STA
        ((with_net (dhcp_stop e p) s)\<lparr>dhcpc_status := (dhcpc_status s)(TCPIP_ADAPTER_IF_STA := DHCP_INIT)\<rparr>) else s)"
  define s1 where "s1 = tcpip_adapter_update_default_netif
    (tcpip_adapter_start_ip_lost_timer TCPIP_ADAPTER_IF_STA (with_net (netif_set_down p)
      (with_net (netif_set_addr p (Some IPADDR_ANY) (Some IPADDR_ANY) (Some IPADDR_ANY)) s0)))"
  have down: "down_body e TCPIP_ADAPTER_IF_STA s = Inr (ADAPTER_OK, s1)"
    using assms(4) by (simp add: down_body_def Let_def s1_def s0_def)
  have fr: "net_frame (a_net s) (dhcp_stop e p (a_net s))" using assms(1) by (simp add: client_ok_def)
  have tm: "a_net (tcpip_adapter_start_ip_lost_timer i x) = a_net x"
    "esp_netif (tcpip_adapter_start_ip_lost_timer i x) = esp_netif x"
    "tcpip_inited (tcpip_adapter_start_ip_lost_timer i x) = tcpip_inited x" for i x
    by (auto simp: tcpip_adapter_start_ip_lost_timer_def)
  have s0: "esp_netif s0 = esp_netif s" "n_list (a_net s0) = n_list (a_net s)"
    "tcpip_inited s0 = tcpip_inited s"
    "nf_flags (n_store (a_net s0) q) = nf_flags (n_store (a_net s) q)"
    using fr by (auto simp: s0_def tcpip_adapter_reset_ip_info_def net_frame_def)
  have s1: "esp_netif s1 = esp_netif s" "n_list (a_net s1) = Some p" "tcpip_inited s1"
    "nf_flags (n_store (a_net s1) q) = nf_flags (n_store (a_net s) q)"
    "\<not> netif_is_up (Some p) (a_net s1)"
    using s0 ini assms(3) pq by (simp_all add: s1_def tm nif_simps netif_is_up_def)
  let ?s1 = "set_init_fn TCPIP_ADAPTER_IF_STA wlanif_init_sta s1"
  let ?s2 = "with_net (upd_nif p (\<lambda>n. n\<lparr>nf_hwaddr := mac\<rparr>)) ?s1"
  have drv: "fst (wlanif_init_sta x) = ERR_OK" "nf_next (snd (wlanif_init_sta x)) = nf_next x" for x
    by (simp_all add: wlanif_init_sta_def wlanif_init_def low_level_init_def)
  have l2: "n_list (a_net ?s2) = Some p" using s1(2) by (simp add: set_init_fn_def)
  from add_linked_head [of "a_net ?s2" p wlanif_init_sta "ii_ip info" "ii_netmask info" "ii_gw info", OF l2 drv]
  obtain n where n: "netif_add p (ii_ip info) (ii_netmask info) (ii_gw info) (Some wlanif_init_sta) (a_net ?s2) = Inr (True, n)"
    "n_list n = Some p" "nf_next (n_store n p) = Some p" "n_store n q = n_store (a_net ?s2) q"
    using pq by blast
  let ?s3 = "tcpip_adapter_update_default_netif (?s2\<lparr>a_net := n\<rparr>)"
  have "start_netif e TCPIP_ADAPTER_IF_STA mac info ?s1 = Inr (True, ?s2\<lparr>a_net := n\<rparr>)"
    using s1(1) assms(4) n(1) by (simp add: start_netif_def set_init_fn_def)
  moreover have "\<not> netif_is_up (esp_netif ?s1 TCPIP_ADAPTER_IF_STA) (a_net ?s1)"
    using s1(1,5) assms(4) by (simp add: set_init_fn_def)
  moreover have "\<not> TCPIP_ADAPTER_IF_MAX \<le> TCPIP_ADAPTER_IF_STA" by (simp add: adapter_ifs)
  ultimately have start: "start_body e TCPIP_ADAPTER_IF_STA (Some mac) (Some info) ?s1 = Inr (ADAPTER_OK, ?s3)"
    by (simp add: start_body_def)
  have ap: "netif_is_up (Some q) (a_net ?s3)" "esp_netif ?s3 TCPIP_ADAPTER_IF_AP = Some q"
    using assms(5,6) s1 n(4) pq by (simp_all add: if_up_def netif_is_up_def set_init_fn_def flag_set_def)
  have list3: "n_list (a_net ?s3) = Some p" "nf_next (n_store (a_net ?s3) p) = Some p" using n(2,3) by simp_all
  have "stop_body e TCPIP_ADAPTER_IF_AP ?s3 = Inl Hang" by (rule stop_ap_circle [OF list3 pq ap(2,1)])
  moreover have "tcpip_inited ?s1" "tcpip_inited ?s3" using s1(3) by (simp_all add: set_init_fn_def)
  ultimately show ?thesis
    using down start ini list3
    by (intro exI [of _ s1] exI [of _ ?s3]) (simp add: tcpip_adapter_down_def tcpip_adapter_sta_start_def tcpip_adapter_start_def
        tcpip_adapter_stop_def ipc_self_inited)
qed


section \<open>Witnesses\<close>

text \<open>A client that has its address at once, and a run that brings up the access point and the station.\<close>

definition quick_client :: adapter_env where
  "quick_client = \<lparr>ae_calloc_ok = True, ae_udp_ok = True,
     dhcp_start = (\<lambda>p n. (ERR_OK, upd_nif p (\<lambda>x. x\<lparr>nf_ip := 0x0500000A\<rparr>) n)), dhcp_stop = (\<lambda>p n. n),
     dhcp_release = (\<lambda>p n. (False, n)), dhcp_cleanup = (\<lambda>p n. n), dhcp_set_cb = (\<lambda>p n. n)\<rparr>"

lemma quick_client_ok: "client_ok quick_client"
  by (simp add: client_ok_def quick_client_def net_frame_def)

definition ap_info :: ip_info where
  "ap_info = \<lparr>ii_ip = 0x0104A8C0, ii_netmask = 0x00FFFFFF, ii_gw = 0x0104A8C0\<rparr>"

fun run_ops :: "adapter_op list \<Rightarrow> adapter \<Rightarrow> adapter result" where
  "run_ops [] s = Inr s"
| "run_ops (x # xs) s = bindE (exec_op quick_client True x s) (\<lambda>(r, s'). run_ops xs s')"

abbreviation boot :: adapter where
  "boot \<equiv> tcpip_adapter_init adapter_initial"

lemma run_snoc:
  assumes "run_ops (xs @ [x]) s = Inr s'"
  obtains s1 r where "run_ops xs s = Inr s1" "exec_op quick_client True x s1 = Inr (r, s')"
proof -
  have "\<exists>s1 r. run_ops xs s = Inr s1 \<and> exec_op quick_client True x s1 = Inr (r, s')"
    using assms by (induction xs arbitrary: s) (fastforce simp: bindE_Inr_iff)+
  with that show thesis by blast
qed

definition ap_up_ops :: "adapter_op list" where
  "ap_up_ops = [OpStart 1 (Some [1, 2, 3, 4, 5, 6]) (Some ap_info)]"

definition both_ops :: "adapter_op list" where
  "both_ops = ap_up_ops @ [OpStart 0 (Some [1, 2, 3, 4, 5, 7]) (Some ip_info_zero)]"

lemma ap_up_run:
  obtains s where "run_ops ap_up_ops boot = Inr s" "esp_netif s 0 = None" "adapter_reach quick_client s"
proof -
  have "case run_ops ap_up_ops boot of Inl _ \<Rightarrow> False | Inr s \<Rightarrow> esp_netif s 0 = None" by code_simp
  then obtain s where s: "run_ops ap_up_ops boot = Inr s" "esp_netif s 0 = None" by (auto split: sum.splits)
  then obtain r where "exec_op quick_client True (hd ap_up_ops) boot = Inr (r, s)"
    by (auto simp: ap_up_ops_def bindE_Inr_iff simp del: exec_op.simps)
  moreover have "op_ok (hd ap_up_ops) boot"
    by (simp add: ap_up_ops_def linked_def tcpip_adapter_init_def adapter_initial_def adapter_call_def adapter_ifs)
  ultimately have "adapter_reach quick_client s"
    using adapter_reach.op [OF adapter_reach.init] by blast
  with s that show thesis by blast
qed

lemma both_run:
  obtains s where "run_ops both_ops boot = Inr s" "linked s 0" "esp_netif s 0 = Some 2" "esp_netif s 1 = Some 1"
    "adapter_reach quick_client s" "n_list (a_net s) = Some 2" "if_up s 1" "tcpip_inited s"
proof -
  have "case run_ops both_ops boot of Inl _ \<Rightarrow> False
      | Inr s \<Rightarrow> n_list (a_net s) = Some 2 \<and> nf_next (n_store (a_net s) 2) = Some 1 \<and>
          nf_next (n_store (a_net s) 1) = None \<and> esp_netif s 0 = Some 2 \<and> esp_netif s 1 = Some 1 \<and>
          if_up s 1 \<and> tcpip_inited s"
    by code_simp
  then obtain s where s: "run_ops both_ops boot = Inr s" "n_list (a_net s) = Some 2"
    "nf_next (n_store (a_net s) 2) = Some 1" "nf_next (n_store (a_net s) 1) = None" "esp_netif s 0 = Some 2"
    "esp_netif s 1 = Some 1" "if_up s 1" "tcpip_inited s"
    by (auto split: sum.splits)
  then obtain s1 r where s1: "run_ops ap_up_ops boot = Inr s1"
    "exec_op quick_client True (OpStart 0 (Some [1, 2, 3, 4, 5, 7]) (Some ip_info_zero)) s1 = Inr (r, s)"
    unfolding both_ops_def by (elim run_snoc) blast
  then have "esp_netif s1 0 = None" "adapter_reach quick_client s1"
    using ap_up_run by (metis sum.inject(2))+
  moreover from this have "op_ok (OpStart 0 (Some [1, 2, 3, 4, 5, 7]) (Some ip_info_zero)) s1"
    by (simp add: linked_def adapter_ifs)
  ultimately have "adapter_reach quick_client s" using adapter_reach.op s1(2) by blast
  moreover have "linked s 0"
    using s unfolding linked_def list_ok_def by (intro exI [of _ "[2, 1]"] exI [of _ 2]) auto
  ultimately show thesis using s that by blast
qed

definition online_ops :: "adapter_op list" where
  "online_ops = both_ops @ [OpUp 0, OpDhcpcStart 0, OpCallback (Some 2)]"

lemma online_run:
  obtains s where "run_ops online_ops boot = Inr s" "adapter_reach quick_client s"
    "dhcps_status s = DHCP_STARTED" "dhcpc_status s 0 = DHCP_STARTED" "n_default (a_net s) = Some 2"
    "esp_netif s 0 = Some 2" "ii_ip (esp_ip_old s 0) \<noteq> 0" "\<not> timer_running s 0" "tcpip_inited s"
    "esp_netif s 1 = Some 1" "if_up s 1" "n_list (a_net s) = Some 2"
proof -
  have "case run_ops online_ops boot of Inl _ \<Rightarrow> False
      | Inr s \<Rightarrow> dhcps_status s = DHCP_STARTED \<and> dhcpc_status s 0 = DHCP_STARTED \<and> n_default (a_net s) = Some 2 \<and>
          esp_netif s 0 = Some 2 \<and> ii_ip (esp_ip_old s 0) \<noteq> 0 \<and> \<not> timer_running s 0 \<and> tcpip_inited s \<and>
          esp_netif s 1 = Some 1 \<and> if_up s 1 \<and> n_list (a_net s) = Some 2"
    by code_simp
  then obtain s where s: "run_ops online_ops boot = Inr s"
    "dhcps_status s = DHCP_STARTED" "dhcpc_status s 0 = DHCP_STARTED" "n_default (a_net s) = Some 2"
    "esp_netif s 0 = Some 2" "ii_ip (esp_ip_old s 0) \<noteq> 0" "\<not> timer_running s 0" "tcpip_inited s"
    "esp_netif s 1 = Some 1" "if_up s 1" "n_list (a_net s) = Some 2"
    by (auto split: sum.splits)
  have o: "online_ops = ((both_ops @ [OpUp 0]) @ [OpDhcpcStart 0]) @ [OpCallback (Some 2)]"
    by (simp add: online_ops_def)
  obtain s3 r3 where s3: "run_ops ((both_ops @ [OpUp 0]) @ [OpDhcpcStart 0]) boot = Inr s3"
    "exec_op quick_client True (OpCallback (Some 2)) s3 = Inr (r3, s)"
    using s(1) unfolding o by (rule run_snoc)
  obtain s2 r2 where s2: "run_ops (both_ops @ [OpUp 0]) boot = Inr s2"
    "exec_op quick_client True (OpDhcpcStart 0) s2 = Inr (r2, s3)"
    using s3(1) by (rule run_snoc)
  obtain s1 r1 where s1: "run_ops both_ops boot = Inr s1" "exec_op quick_client True (OpUp 0) s1 = Inr (r1, s2)"
    using s2(1) by (rule run_snoc)
  have "linked s1 0" "adapter_reach quick_client s1" using both_run s1(1) by (metis sum.inject(2))+
  then have "adapter_reach quick_client s2" using adapter_reach.op s1(2) by (metis op_ok.simps(2))
  then have "adapter_reach quick_client s3" using adapter_reach.op s2(2) op_ok.simps by metis
  then have "adapter_reach quick_client s" using adapter_reach.op s3(2) op_ok.simps by metis
  with s that show thesis by blast
qed


theorem adapter_stays_consistent_witness:
  "\<exists>s :: adapter. dhcps_status s = DHCP_STARTED \<and> dhcpc_status s 0 = DHCP_STARTED \<and> n_default (a_net s) = Some 2 \<and>
     (\<exists>ps. list_ok (a_net s) ps \<and> 2 \<in> set ps) \<and> (\<exists>ip. dhcps_reachable ip (a_dhcps s))"
proof -
  obtain s where s: "adapter_reach quick_client s" "dhcps_status s = DHCP_STARTED"
    "dhcpc_status s 0 = DHCP_STARTED" "n_default (a_net s) = Some 2"
    by (rule online_run)
  from adapter_stays_consistent [OF quick_client_ok s(1)] s(2-4) show ?thesis by (intro exI [of _ s]) auto
qed

theorem adapter_refines_links_witness:
  "\<exists>s s' r. exec_op quick_client True (OpDhcpsStop 1) s = Inr (r, s') \<and>
     spec_step (ap_address s) (OpDhcpsStop 1) (abs_links s) r (abs_links s') \<and>
     ls_server (abs_links s) = DHCP_STARTED \<and> ls_server (abs_links s') = DHCP_STOPPED"
proof -
  obtain s where s: "adapter_reach quick_client s" "dhcps_status s = DHCP_STARTED" "esp_netif s 1 = Some 1" "if_up s 1"
    "run_ops online_ops boot = Inr s"
    by (rule online_run)
  have "case run_ops (online_ops @ [OpDhcpsStop 1]) boot of Inl _ \<Rightarrow> False | Inr s \<Rightarrow> dhcps_status s = DHCP_STOPPED"
    by code_simp
  then obtain s' where s': "run_ops (online_ops @ [OpDhcpsStop 1]) boot = Inr s'" "dhcps_status s' = DHCP_STOPPED"
    by (auto split: sum.splits)
  then obtain r where r: "exec_op quick_client True (OpDhcpsStop 1) s = Inr (r, s')"
    using run_snoc [of online_ops "OpDhcpsStop 1" boot s'] s(5) by auto
  from adapter_refines_links [OF quick_client_ok s(1), of "OpDhcpsStop 1" True] r s(2) s'(2) show ?thesis by (auto simp del: exec_op.simps spec_step.simps)
qed

theorem ip_info_set_get_witness:
  "\<exists>s'. tcpip_adapter_set_ip_info True 0 (Some ap_info)
       (boot\<lparr>dhcpc_status := (\<lambda>_. DHCP_STOPPED)\<rparr>) = Inr (ADAPTER_OK, s') \<and>
     tcpip_adapter_get_ip_info 0 True s' = (ADAPTER_OK, Some ap_info)"
proof -
  let ?s = "boot\<lparr>dhcpc_status := (\<lambda>_. DHCP_STOPPED)\<rparr>"
  have "case tcpip_adapter_set_ip_info True 0 (Some ap_info) ?s of Inl _ \<Rightarrow> False | Inr (r, s) \<Rightarrow> r = ADAPTER_OK"
    by code_simp
  then obtain s' where "tcpip_adapter_set_ip_info True 0 (Some ap_info) ?s = Inr (ADAPTER_OK, s')"
    by (auto split: sum.splits prod.splits)
  with ip_info_set_get [OF this] show ?thesis by blast
qed

theorem old_address_forgotten_witness:
  "\<exists>s'. tcpip_adapter_set_old_ip_info True 0 (Some ap_info) boot = Inr (ADAPTER_OK, s') \<and>
     tcpip_adapter_get_old_ip_info 0 True s' = (ADAPTER_OK, Some ip_info_zero)"
proof -
  have "tcpip_inited boot" "0 < TCPIP_ADAPTER_IF_MAX" "esp_ip_old boot 0 = ip_info_zero"
    by (simp_all add: tcpip_adapter_init_def adapter_initial_def adapter_call_def adapter_ifs)
  with old_address_forgotten [of boot 0 True ap_info] show ?thesis by simp
qed

theorem lost_address_reported_witness:
  "\<exists>s s1. tcpip_adapter_down True quick_client 0 s = Inr (ADAPTER_OK, s1) \<and>
     a_out (tcpip_adapter_ip_lost_timer 0 s1) = a_out s @ [SysTimeout 120000 0, SendEvent SYSTEM_EVENT_STA_LOST_IP]"
proof -
  obtain s :: adapter where s: "dhcpc_status s 0 = DHCP_STARTED" "esp_netif s 0 = Some 2" "ii_ip (esp_ip_old s 0) \<noteq> 0"
    "\<not> timer_running s 0" "tcpip_inited s"
    by (rule online_run) blast
  have z: "TCPIP_ADAPTER_IF_STA = 0" by (simp add: adapter_ifs)
  obtain r s1 where d: "tcpip_adapter_down True quick_client TCPIP_ADAPTER_IF_STA s = Inr (r, s1)"
    using s sta_client by (simp add: tcpip_adapter_down_def ipc_self_inited down_body_def Let_def z)
  let ?n = "upd_nif 2 (\<lambda>x. x\<lparr>nf_ip := 5, nf_netmask := 5, nf_gw := 5\<rparr>) net_initial"
  from lost_address_reported [OF d _ _ refl _ _ _ _ refl, of 2 ?n "\<lparr>ii_ip = 5, ii_netmask = 5, ii_gw = 5\<rparr>"] s
  have "r = ADAPTER_OK" "a_out (tcpip_adapter_ip_lost_timer 0 s1) =
      a_out s @ [SysTimeout 120000 0, SendEvent SYSTEM_EVENT_STA_LOST_IP]"
    by (auto simp: z netif_info_def)
  with d show ?thesis unfolding z by blast
qed

theorem options_round_trip_witness:
  "\<exists>s'. tcpip_adapter_dhcps_option OP_SET 51 (Some (OptTime 0)) 4 boot = (ADAPTER_OK, Some (OptTime 0), s') \<and>
     tcpip_adapter_dhcps_option OP_GET 51 (Some (OptTime 7)) 4 s' = (ADAPTER_OK, Some (OptTime 120), s')"
proof -
  have "case tcpip_adapter_dhcps_option OP_SET 51 (Some (OptTime 0)) 4 boot of (r, v, s) \<Rightarrow>
      r = ADAPTER_OK \<and> v = Some (OptTime 0)" by code_simp
  then obtain s' where s': "tcpip_adapter_dhcps_option OP_SET 51 (Some (OptTime 0)) 4 boot = (ADAPTER_OK, Some (OptTime 0), s')"
    by (auto split: prod.splits)
  moreover have "dhcps_status boot = DHCP_INIT"
    by (simp add: tcpip_adapter_init_def adapter_initial_def adapter_call_def)
  ultimately have "tcpip_adapter_dhcps_option OP_GET 51 (Some (OptTime 7)) 4 s' =
      (ADAPTER_OK, Some (option_read_back (OptTime 0)), s')"
    using options_round_trip [OF s', of 0 undefined 0 "OptTime 7" 7 undefined 0] by simp
  with s' show ?thesis by (simp add: option_read_back_def DHCPS_LEASE_TIME_DEF_def)
qed

theorem pool_option_takes_effect_witness:
  "\<exists>s s1 s2 w r. tcpip_adapter_dhcps_option OP_SET 50
       (Some (OptPoll \<lparr>enable = True, start_ip = 0x0A04A8C0, end_ip = 0x1404A8C0\<rparr>)) 12 s = (ADAPTER_OK, w, s1) \<and>
     tcpip_adapter_dhcps_start True quick_client TCPIP_ADAPTER_IF_AP s1 = Inr (r, s2) \<and>
     dhcps_poll (a_dhcps s2) = \<lparr>enable = True, start_ip = 0x0A04A8C0, end_ip = 0x1404A8C0\<rparr>"
proof -
  let ?p = "\<lparr>enable = True, start_ip = 0x0A04A8C0, end_ip = 0x1404A8C0\<rparr> :: dhcps_lease"
  have "case run_ops (online_ops @ [OpDhcpsStop 1]) boot of Inl _ \<Rightarrow> False | Inr s \<Rightarrow>
      (case tcpip_adapter_dhcps_option OP_SET 50 (Some (OptPoll ?p)) 12 s of (r, w, s1) \<Rightarrow> r = ADAPTER_OK \<and>
         dhcps_status s \<noteq> DHCP_STARTED \<and>
         (case tcpip_adapter_dhcps_start True quick_client TCPIP_ADAPTER_IF_AP s1 of Inl _ \<Rightarrow> False
          | Inr (r', s2) \<Rightarrow> dhcps_status s2 = DHCP_STARTED))"
    by code_simp
  then obtain s where s: "case tcpip_adapter_dhcps_option OP_SET 50 (Some (OptPoll ?p)) 12 s of (r, w, s1) \<Rightarrow>
      r = ADAPTER_OK \<and> dhcps_status s \<noteq> DHCP_STARTED \<and>
      (case tcpip_adapter_dhcps_start True quick_client TCPIP_ADAPTER_IF_AP s1 of Inl _ \<Rightarrow> False
       | Inr (r', s2) \<Rightarrow> dhcps_status s2 = DHCP_STARTED)"
    by (cases "run_ops (online_ops @ [OpDhcpsStop 1]) boot") auto
  obtain r w s1 where o: "tcpip_adapter_dhcps_option OP_SET 50 (Some (OptPoll ?p)) 12 s = (r, w, s1)"
    by (cases "tcpip_adapter_dhcps_option OP_SET 50 (Some (OptPoll ?p)) 12 s") auto
  with s obtain r' s2 where h: "tcpip_adapter_dhcps_option OP_SET 50 (Some (OptPoll ?p)) 12 s = (ADAPTER_OK, w, s1)"
    "dhcps_status s \<noteq> DHCP_STARTED" "tcpip_adapter_dhcps_start True quick_client TCPIP_ADAPTER_IF_AP s1 = Inr (r', s2)"
    "dhcps_status s2 = DHCP_STARTED"
    by (cases "tcpip_adapter_dhcps_start True quick_client TCPIP_ADAPTER_IF_AP s1") auto
  from pool_option_takes_effect [OF h(1) _ h(2-4)] h(1,3) show ?thesis by auto
qed

theorem restart_makes_stop_hang_witness:
  "\<exists>s s1 s2. adapter_reach quick_client s \<and> tcpip_adapter_down True quick_client 0 s = Inr (ADAPTER_OK, s1) \<and>
     tcpip_adapter_sta_start True quick_client (Some [1, 2, 3, 4, 5, 7]) (Some ip_info_zero) s1 = Inr (ADAPTER_OK, s2) \<and>
     tcpip_adapter_stop True quick_client 1 s2 = Inl Hang"
proof -
  obtain s where s: "adapter_reach quick_client s" "esp_netif s 0 = Some 2" "tcpip_inited s" "esp_netif s 1 = Some 1"
    "if_up s 1" "n_list (a_net s) = Some 2"
    by (rule online_run)
  have z: "TCPIP_ADAPTER_IF_STA = 0" "TCPIP_ADAPTER_IF_AP = 1" by (simp_all add: adapter_ifs)
  from restart_makes_stop_hang [OF quick_client_ok s(1,6), of 1 True "[1, 2, 3, 4, 5, 7]" ip_info_zero] s
  show ?thesis unfolding z by blast
qed

end
