(* ===== verification/Timers.thy ===== *)
theory Timers
  imports Prelude
begin

text \<open>
  The timeouts of the network stack, \<open>components/lwip/core/timers.c\<close> as it is configured here (an
  operating system, no AutoIP, no reassembly, no IPv6): the list in which every entry holds the time
  after the entry before it, \<open>sys_timeout\<close> and \<open>sys_untimeout\<close>, the timers that set themselves again, and
  \<open>sys_timeouts_mbox_fetch\<close>, which waits for a message and lets timeouts expire meanwhile. What the
  mailbox answers is a list; the time of the waits it reports is added up in a clock, and what expired
  is recorded with the time of that clock.
\<close>

section \<open>State\<close>

definition TCP_TMR_INTERVAL :: u32 where "TCP_TMR_INTERVAL = 250"
definition ARP_TMR_INTERVAL :: u32 where "ARP_TMR_INTERVAL = 1000"
definition DHCP_COARSE_TIMER_MSECS :: u32 where "DHCP_COARSE_TIMER_MSECS = 1000"
definition DHCP_FINE_TIMER_MSECS :: u32 where "DHCP_FINE_TIMER_MSECS = 500"
definition IGMP_TMR_INTERVAL :: u32 where "IGMP_TMR_INTERVAL = 100"
definition DNS_TMR_INTERVAL :: u32 where "DNS_TMR_INTERVAL = 1000"

lemmas timer_intervals = TCP_TMR_INTERVAL_def ARP_TMR_INTERVAL_def DHCP_COARSE_TIMER_MSECS_def
  DHCP_FINE_TIMER_MSECS_def IGMP_TMR_INTERVAL_def DNS_TMR_INTERVAL_def

datatype timer_fn =
    TcpTimer | ArpTimer | DhcpCoarseTimer | DhcpFineTimer | IgmpTimer | DnsTimer
  | OtherTimer nat                         \<comment> \<open>a handler of another part, such as the adapter's\<close>

record sys_timeo =
  tm_time :: u32
  tm_h :: "timer_fn option"
  tm_arg :: nat

record timers =
  next_timeout :: "sys_timeo list"
  tcpip_tcp_timer_active :: bool
  tm_clock :: nat                          \<comment> \<open>milliseconds the waits took\<close>
  tm_late :: nat                           \<comment> \<open>by how much messages came after the time asked for\<close>
  tm_fired :: "(nat \<times> timer_fn \<times> nat) list"

definition timers_initial :: timers where
  "timers_initial = \<lparr>next_timeout = [], tcpip_tcp_timer_active = False, tm_clock = 0, tm_late = 0, tm_fired = []\<rparr>"

text \<open>
  What the timers depend on and is not modelled: whether an entry can be allocated, whether TCP has
  connections that need its timer, and the handlers of other parts.
\<close>

record timer_env =
  te_mem :: "timers \<Rightarrow> bool"
  te_tcp :: "timers \<Rightarrow> bool"
  te_other :: "nat \<Rightarrow> nat \<Rightarrow> timers \<Rightarrow> timers result"

section \<open>Adding and removing\<close>

definition LwipTimOutLim :: u32 where "LwipTimOutLim = 0"

fun timeout_loop :: "sys_timeo \<Rightarrow> sys_timeo list \<Rightarrow> sys_timeo list" where
  \<comment> \<open>the walk of \<open>sys_timeout\<close>; the time of the new entry is made relative on the way\<close>
  "timeout_loop x [] = []"
| "timeout_loop x (t # ts) =
     (let x' = x\<lparr>tm_time := tm_time x - tm_time t\<rparr> in
      case ts of
        [] \<Rightarrow> [t, x']
      | n # ns \<Rightarrow>
          if tm_time x' < tm_time n then t # x' # n\<lparr>tm_time := tm_time n - tm_time x'\<rparr> # ns
          else t # timeout_loop x' ts)"

definition sys_timeout :: "timer_env \<Rightarrow> u32 \<Rightarrow> timer_fn option \<Rightarrow> nat \<Rightarrow> timers \<Rightarrow> timers result" where
  "sys_timeout e msecs0 h arg s =
     (if \<not> te_mem e s then Inl AssertFail
      else
        let msecs = (if msecs0 < LwipTimOutLim then LwipTimOutLim else msecs0);
            x = \<lparr>tm_time = msecs, tm_h = h, tm_arg = arg\<rparr>
        in case next_timeout s of
             [] \<Rightarrow> Inr (s\<lparr>next_timeout := [x]\<rparr>)
           | n # ns \<Rightarrow>
               if msecs < tm_time n
               then Inr (s\<lparr>next_timeout := x # n\<lparr>tm_time := tm_time n - msecs\<rparr> # ns\<rparr>)
               else Inr (s\<lparr>next_timeout := timeout_loop x (n # ns)\<rparr>))"

fun untimeout_loop :: "timer_fn option \<Rightarrow> nat \<Rightarrow> sys_timeo list \<Rightarrow> sys_timeo list" where
  "untimeout_loop h arg [] = []"
| "untimeout_loop h arg (t # ts) =
     (if tm_h t = h \<and> tm_arg t = arg then
        (case ts of [] \<Rightarrow> [] | n # ns \<Rightarrow> n\<lparr>tm_time := tm_time n + tm_time t\<rparr> # ns)
      else t # untimeout_loop h arg ts)"

definition sys_untimeout :: "timer_fn option \<Rightarrow> nat \<Rightarrow> timers \<Rightarrow> timers" where
  "sys_untimeout h arg s =
     (if next_timeout s = [] then s else s\<lparr>next_timeout := untimeout_loop h arg (next_timeout s)\<rparr>)"

section \<open>The timers of the stack\<close>

definition tcpip_tcp_timer :: "timer_env \<Rightarrow> timers \<Rightarrow> timers result" where
  "tcpip_tcp_timer e s =
     (if te_tcp e s then sys_timeout e TCP_TMR_INTERVAL (Some TcpTimer) 0 s
      else Inr (s\<lparr>tcpip_tcp_timer_active := False\<rparr>))"

definition tcp_timer_needed :: "timer_env \<Rightarrow> timers \<Rightarrow> timers result" where
  "tcp_timer_needed e s =
     (if \<not> tcpip_tcp_timer_active s \<and> te_tcp e s
      then sys_timeout e TCP_TMR_INTERVAL (Some TcpTimer) 0 (s\<lparr>tcpip_tcp_timer_active := True\<rparr>)
      else Inr s)"

fun run_handler :: "timer_env \<Rightarrow> timer_fn \<Rightarrow> nat \<Rightarrow> timers \<Rightarrow> timers result" where
  \<comment> \<open>\<open>arp_timer\<close>, \<open>dhcp_timer_coarse\<close> and so on: call the part's own timer function, set the timer again\<close>
  "run_handler e TcpTimer arg s = tcpip_tcp_timer e s"
| "run_handler e ArpTimer arg s = sys_timeout e ARP_TMR_INTERVAL (Some ArpTimer) 0 s"
| "run_handler e DhcpCoarseTimer arg s = sys_timeout e DHCP_COARSE_TIMER_MSECS (Some DhcpCoarseTimer) 0 s"
| "run_handler e DhcpFineTimer arg s = sys_timeout e DHCP_FINE_TIMER_MSECS (Some DhcpFineTimer) 0 s"
| "run_handler e IgmpTimer arg s = sys_timeout e IGMP_TMR_INTERVAL (Some IgmpTimer) 0 s"
| "run_handler e DnsTimer arg s = sys_timeout e DNS_TMR_INTERVAL (Some DnsTimer) 0 s"
| "run_handler e (OtherTimer n) arg s = te_other e n arg s"

fun set_timers :: "timer_env \<Rightarrow> (u32 \<times> timer_fn) list \<Rightarrow> timers \<Rightarrow> timers result" where
  "set_timers e [] s = Inr s"
| "set_timers e ((t, h) # hs) s = bindE (sys_timeout e t (Some h) 0 s) (set_timers e hs)"

definition sys_timeouts_init :: "timer_env \<Rightarrow> timers \<Rightarrow> timers result" where
  "sys_timeouts_init e =
     set_timers e [(ARP_TMR_INTERVAL, ArpTimer), (DHCP_COARSE_TIMER_MSECS, DhcpCoarseTimer),
       (DHCP_FINE_TIMER_MSECS, DhcpFineTimer), (IGMP_TMR_INTERVAL, IgmpTimer), (DNS_TMR_INTERVAL, DnsTimer)]"

section \<open>Waiting for a message\<close>

definition SYS_ARCH_TIMEOUT :: u32 where "SYS_ARCH_TIMEOUT = 0xFFFFFFFF"

definition expire :: "timer_env \<Rightarrow> sys_timeo \<Rightarrow> sys_timeo list \<Rightarrow> timers \<Rightarrow> timers result" where
  \<comment> \<open>take the first entry off the list and call its handler\<close>
  "expire e t ts s =
     (let s1 = s\<lparr>next_timeout := ts, tm_clock := tm_clock s + unat (tm_time t)\<rparr> in
      case tm_h t of
        None \<Rightarrow> Inr s1
      | Some h \<Rightarrow>
          run_handler e h (tm_arg t) (s1\<lparr>tm_fired := tm_fired s1 @ [(tm_clock s1, h, tm_arg t)]\<rparr>))"

definition waited :: "u32 \<Rightarrow> timers \<Rightarrow> timers" where
  \<comment> \<open>a message came after this time\<close>
  "waited w s =
     s\<lparr>tm_clock := tm_clock s + unat w,
       tm_late := tm_late s + (case next_timeout s of [] \<Rightarrow> 0 | t # ts \<Rightarrow> unat w - unat (tm_time t)),
       next_timeout := (case next_timeout s of [] \<Rightarrow> []
         | t # ts \<Rightarrow> t\<lparr>tm_time := if w < tm_time t then tm_time t - w else 0\<rparr> # ts)\<rparr>"

type_synonym 'm fetch = "u32 \<times> 'm option"   \<comment> \<open>the time \<open>sys_arch_mbox_fetch\<close> returns, and the message\<close>

partial_function (option) sys_timeouts_mbox_fetch ::
  "timer_env \<Rightarrow> 'm fetch list \<Rightarrow> timers \<Rightarrow> ('m option \<times> 'm fetch list \<times> timers) result option" where
  \<comment> \<open>when the answers are used up the stack is waiting: no message\<close>
  "sys_timeouts_mbox_fetch e fs s =
     (case next_timeout s of
        [] \<Rightarrow> (case fs of [] \<Rightarrow> Some (Inr (None, [], s)) | (w, m) # fs' \<Rightarrow> Some (Inr (m, fs', waited w s)))
      | t # ts \<Rightarrow>
          if 0 < tm_time t then
            (case fs of
               [] \<Rightarrow> Some (Inr (None, [], s))
             | (w, m) # fs' \<Rightarrow>
                 if w = SYS_ARCH_TIMEOUT then
                   (case expire e t ts s of Inl err \<Rightarrow> Some (Inl err) | Inr s' \<Rightarrow> sys_timeouts_mbox_fetch e fs' s')
                 else Some (Inr (m, fs', waited w s)))
          else
            (case expire e t ts s of Inl err \<Rightarrow> Some (Inl err) | Inr s' \<Rightarrow> sys_timeouts_mbox_fetch e fs s'))"

end
