(* ===== verification/Timers_Props.thy ===== *)
theory Timers_Props
  imports Timers
begin

text \<open>
  The list of timeouts as an agenda of absolute times, which setting, cancelling and expiring refine;
  the contract its users rely on; and the timers of the stack, which expire once every interval.
\<close>

section \<open>The agenda\<close>

text \<open>What a list of timeouts means: the entries with the times at which they are due.\<close>

type_synonym agenda = "(nat \<times> timer_fn option \<times> nat) list"

fun dues :: "nat \<Rightarrow> sys_timeo list \<Rightarrow> agenda" where
  "dues c [] = []"
| "dues c (x # xs) = (c + unat (tm_time x), tm_h x, tm_arg x) # dues (c + unat (tm_time x)) xs"

definition agenda_of :: "timers \<Rightarrow> agenda" where
  "agenda_of s = dues (tm_clock s) (next_timeout s)"

fun insert_due :: "nat \<times> timer_fn option \<times> nat \<Rightarrow> agenda \<Rightarrow> agenda" where
  \<comment> \<open>before the first entry that is due later\<close>
  "insert_due x [] = [x]"
| "insert_due x (y # ys) = (if fst x < fst y then x # y # ys else y # insert_due x ys)"

fun cancel_due :: "timer_fn option \<Rightarrow> nat \<Rightarrow> agenda \<Rightarrow> agenda" where
  "cancel_due h a [] = []"
| "cancel_due h a (y # ys) = (if snd y = (h, a) then ys else y # cancel_due h a ys)"

definition span :: "sys_timeo list \<Rightarrow> nat" where
  "span xs = sum_list (map (\<lambda>x. unat (tm_time x)) xs)"

definition timers_ok :: "timers \<Rightarrow> bool" where
  "timers_ok s \<longleftrightarrow> span (next_timeout s) < 2 ^ 32"

lemma span_simps [simp]: "span [] = 0" "span (x # xs) = unat (tm_time x) + span xs"
  by (simp_all add: span_def)

lemma dues_ge: "y \<in> set (dues c xs) \<Longrightarrow> c \<le> fst y"
  by (induction xs arbitrary: c) (auto dest: add_leD1)

lemma dues_sorted: "sorted (map fst (dues c xs))"
  by (induction xs arbitrary: c) (auto dest: dues_ge)

lemma dues_bound: "y \<in> set (dues c xs) \<Longrightarrow> fst y \<le> c + span xs"
  by (induction xs arbitrary: c) fastforce+

lemma span_bound: "c \<le> b \<Longrightarrow> (\<And>y. y \<in> set (dues c xs) \<Longrightarrow> fst y \<le> b) \<Longrightarrow> c + span xs \<le> b"
proof (induction xs arbitrary: c)
  case (Cons x xs)
  from Cons.prems(2) [of "(c + unat (tm_time x), tm_h x, tm_arg x)"] have "c + unat (tm_time x) \<le> b" by simp
  with Cons.IH [of "c + unat (tm_time x)"] Cons.prems(2) show ?case by simp
qed simp

lemma unat_minus: "b \<le> a \<Longrightarrow> unat (a - b) = unat a - unat (b :: u32)"
  by (simp add: unat_sub)

lemma unat_minus_nat: "unat b \<le> unat a \<Longrightarrow> unat (a - b) = unat a - unat (b :: u32)"
  by (simp add: unat_sub word_le_nat_alt)

lemma dues_shift_head:
  "tm_time x \<le> tm_time n \<Longrightarrow>
    dues (c + unat (tm_time x)) (n\<lparr>tm_time := tm_time n - tm_time x\<rparr> # ns) = dues c (n # ns)"
  by (simp add: unat_minus word_le_nat_alt)

lemma timeout_loop_dues:
  assumes "xs \<noteq> []" "tm_time (hd xs) \<le> tm_time x"
  shows "dues c (timeout_loop x xs) = insert_due (c + unat (tm_time x), tm_h x, tm_arg x) (dues c xs)"
  using assms
proof (induction x xs arbitrary: c rule: timeout_loop.induct)
  case (2 x t ts)
  let ?x = "x\<lparr>tm_time := tm_time x - tm_time t\<rparr>"
  let ?c = "c + unat (tm_time t)"
  have le: "tm_time t \<le> tm_time x" using 2(3) by simp
  then have c: "?c + unat (tm_time ?x) = c + unat (tm_time x)"
    by (simp add: unat_minus word_le_nat_alt)
  show ?case
  proof (cases ts)
    case Nil
    then show ?thesis using le c by (simp add: word_le_nat_alt)
  next
    case (Cons n ns)
    show ?thesis
    proof (cases "tm_time ?x < tm_time n")
      case True
      have "dues (?c + unat (tm_time ?x)) (n\<lparr>tm_time := tm_time n - tm_time ?x\<rparr> # ns) = dues ?c (n # ns)"
        using True by (intro dues_shift_head) simp
      moreover have "c + unat (tm_time x) < ?c + unat (tm_time n)"
        using True c by (simp add: word_less_nat_alt) 
      ultimately show ?thesis
        using True Cons le c by (simp add: Let_def word_le_nat_alt)
    next
      case False
      have "dues ?c (timeout_loop ?x (n # ns)) = insert_due (?c + unat (tm_time ?x), tm_h ?x, tm_arg ?x) (dues ?c (n # ns))"
        using 2(1) [OF refl Cons False, of ?c] False Cons by (simp del: timeout_loop.simps dues.simps insert_due.simps)
      then have "dues ?c (timeout_loop ?x (n # ns)) = insert_due (c + unat (tm_time x), tm_h x, tm_arg x) (dues ?c (n # ns))"
        unfolding c by simp
      moreover have "timeout_loop x (t # ts) = t # timeout_loop ?x (n # ns)"
        using False Cons by (simp add: Let_def del: timeout_loop.simps) (simp add: Let_def)
      moreover have "\<not> c + unat (tm_time x) < ?c" using le by (simp add: word_le_nat_alt)
      ultimately show ?thesis by (simp only: Cons dues.simps(2) insert_due.simps(2) fst_conv if_False)
    qed
  qed
qed simp

lemma set_insert_due: "set (insert_due x ys) = insert x (set ys)"
  by (induction ys) auto

lemma sys_timeout_agenda:
  assumes "sys_timeout e msecs h arg s = Inr s'"
  shows "agenda_of s' = insert_due (tm_clock s + unat msecs, h, arg) (agenda_of s)"
    "tm_clock s' = tm_clock s" "tm_fired s' = tm_fired s" "timers_ok s \<Longrightarrow> timers_ok s'" "tm_late s' = tm_late s"
proof -
  show c: "tm_clock s' = tm_clock s" "tm_fired s' = tm_fired s" "tm_late s' = tm_late s"
    using assms by (auto simp: sys_timeout_def Let_def simp del: timeout_loop.simps split: if_splits list.splits)
  let ?x = "\<lparr>tm_time = msecs, tm_h = h, tm_arg = arg\<rparr>"
  show a: "agenda_of s' = insert_due (tm_clock s + unat msecs, h, arg) (agenda_of s)"
  proof (cases "next_timeout s")
    case Nil
    then show ?thesis using assms by (auto simp: sys_timeout_def Let_def LwipTimOutLim_def agenda_of_def split: if_splits)
  next
    case (Cons n ns)
    show ?thesis
    proof (cases "msecs < tm_time n")
      case True
      then have "dues (tm_clock s + unat (tm_time ?x)) (n\<lparr>tm_time := tm_time n - tm_time ?x\<rparr> # ns) = dues (tm_clock s) (n # ns)"
        by (intro dues_shift_head) simp
      moreover have "s' = s\<lparr>next_timeout := ?x # n\<lparr>tm_time := tm_time n - msecs\<rparr> # ns\<rparr>"
        using assms True Cons by (auto simp: sys_timeout_def Let_def LwipTimOutLim_def simp del: timeout_loop.simps split: if_splits)
      ultimately show ?thesis using True Cons by (simp add: agenda_of_def word_less_nat_alt)
    next
      case False
      then have "s' = s\<lparr>next_timeout := timeout_loop ?x (n # ns)\<rparr>"
        using assms Cons by (auto simp: sys_timeout_def Let_def LwipTimOutLim_def simp del: timeout_loop.simps split: if_splits)
      then show ?thesis using False Cons timeout_loop_dues [of "n # ns" ?x "tm_clock s"] by (simp add: agenda_of_def del: timeout_loop.simps)
    qed
  qed
  show "timers_ok s'" if "timers_ok s"
  proof -
    have "tm_clock s + span (next_timeout s') \<le> tm_clock s + (2 ^ 32 - 1)"
    proof (rule span_bound)
      fix y assume "y \<in> set (dues (tm_clock s) (next_timeout s'))"
      then have "y = (tm_clock s + unat msecs, h, arg) \<or> y \<in> set (dues (tm_clock s) (next_timeout s))"
        using a c(1) by (auto simp: agenda_of_def set_insert_due)
      moreover have "unat msecs < 2 ^ LENGTH(32)" by (rule unsigned_less)
      ultimately show "fst y \<le> tm_clock s + (2 ^ 32 - 1)"
        using that dues_bound [of y "tm_clock s" "next_timeout s"] by (auto simp: timers_ok_def)
    qed simp
    then show ?thesis by (simp add: timers_ok_def)
  qed
qed

lemma untimeout_loop_dues:
  "span xs < 2 ^ 32 \<Longrightarrow> dues c (untimeout_loop h a xs) = cancel_due h a (dues c xs)"
proof (induction xs arbitrary: c)
  case (Cons t ts)
  then show ?case
  proof (cases "tm_h t = h \<and> tm_arg t = a")
    case True
    show ?thesis
    proof (cases ts)
      case (Cons n ns)
      have "unat (tm_time n + tm_time t) = unat (tm_time n) + unat (tm_time t)"
        using Cons.prems Cons by (simp add: unat_plus_if')
      then show ?thesis using True Cons by (simp add: ac_simps)
    qed (use True in simp)
  qed auto
qed simp


lemma span_untimeout: "span xs < 2 ^ 32 \<Longrightarrow> span (untimeout_loop h a xs) \<le> span xs"
proof (induction xs)
  case (Cons t ts)
  then show ?case
    by (cases ts) (auto simp: unat_plus_if')
qed simp

lemma sys_untimeout_agenda:
  assumes "timers_ok s"
  shows "agenda_of (sys_untimeout h a s) = cancel_due h a (agenda_of s)" "timers_ok (sys_untimeout h a s)"
    "tm_clock (sys_untimeout h a s) = tm_clock s"
  using assms span_untimeout [of "next_timeout s" h a]
  by (auto simp: sys_untimeout_def agenda_of_def timers_ok_def untimeout_loop_dues)

definition shift_due :: "nat \<Rightarrow> agenda \<Rightarrow> agenda" where
  "shift_due d ag = map (\<lambda>(c, y). (c + d, y)) ag"

lemma dues_shift: "dues (c + d) xs = shift_due d (dues c xs)"
proof (induction xs arbitrary: c)
  case (Cons x xs)
  have "c + d + unat (tm_time x) = c + unat (tm_time x) + d" by simp
  then show ?case using Cons.IH [of "c + unat (tm_time x)"] by (simp only: dues.simps) (simp add: shift_due_def)
qed (simp add: shift_due_def)

lemma waited_agenda:
  "agenda_of (waited w s) =
     (case next_timeout s of [] \<Rightarrow> [] | t # ts \<Rightarrow> shift_due (unat w - unat (tm_time t)) (agenda_of s))"
proof (cases "next_timeout s")
  case (Cons t ts)
  show ?thesis
  proof (cases "w < tm_time t")
    case True
    then have eq: "tm_clock s + unat w + unat (tm_time t - w) = tm_clock s + unat (tm_time t)"
      by (simp add: unat_minus_nat word_less_nat_alt)
    have "dues (tm_clock s + unat w) (t\<lparr>tm_time := tm_time t - w\<rparr> # ts) = dues (tm_clock s) (t # ts)"
    proof -
      have "tm_time (t\<lparr>tm_time := v\<rparr>) = v" "tm_h (t\<lparr>tm_time := v\<rparr>) = tm_h t" "tm_arg (t\<lparr>tm_time := v\<rparr>) = tm_arg t" for v
        by simp_all
      then show ?thesis by (simp only: dues.simps eq)
    qed
    moreover have "unat w - unat (tm_time t) = 0" "\<And>ag. shift_due 0 ag = ag"
      using True by (simp_all add: shift_due_def word_less_nat_alt)
    ultimately show ?thesis using True Cons by (simp add: waited_def agenda_of_def del: dues.simps)
  next
    case False
    then have "tm_clock s + unat w = tm_clock s + unat (tm_time t) + (unat w - unat (tm_time t))"
      by (simp add: word_less_nat_alt)
    with False Cons show ?thesis
      using dues_shift [of "tm_clock s + unat (tm_time t)" "unat w - unat (tm_time t)" ts]
      by (simp add: waited_def agenda_of_def) (simp add: shift_due_def)
  qed
qed (simp add: waited_def agenda_of_def)

lemma waited_ok: "timers_ok s \<Longrightarrow> timers_ok (waited w s)"
  by (auto simp: timers_ok_def waited_def unat_minus_nat word_less_nat_alt split: list.split)

section \<open>The timers that set themselves again\<close>

definition interval :: "timer_fn \<Rightarrow> nat" where
  "interval h = (case h of ArpTimer \<Rightarrow> 1000 | DhcpCoarseTimer \<Rightarrow> 1000 | DhcpFineTimer \<Rightarrow> 500
     | IgmpTimer \<Rightarrow> 100 | DnsTimer \<Rightarrow> 1000 | _ \<Rightarrow> 250)"

definition cyclic :: "timer_fn set" where
  "cyclic = {ArpTimer, DhcpCoarseTimer, DhcpFineTimer, IgmpTimer, DnsTimer}"

definition expiries :: "timer_fn \<Rightarrow> timers \<Rightarrow> nat list" where
  "expiries h s = map fst (filter (\<lambda>y. fst (snd y) = h) (tm_fired s))"

definition punctual :: "nat \<Rightarrow> nat \<Rightarrow> nat \<Rightarrow> nat \<Rightarrow> bool" where
  \<comment> \<open>the time for the given number of intervals, and at most that much late\<close>
  "punctual i k late c \<longleftrightarrow> i * k \<le> c \<and> c \<le> i * k + late"

definition periodic :: "timer_fn \<Rightarrow> timers \<Rightarrow> bool" where
  "periodic h s \<longleftrightarrow>
     (\<exists>due. filter (\<lambda>y. fst (snd y) = Some h) (agenda_of s) = [(due, Some h, 0)] \<and>
        punctual (interval h) (Suc (length (expiries h s))) (tm_late s) due) \<and>
     (\<forall>k < length (expiries h s). punctual (interval h) (Suc k) (tm_late s) (expiries h s ! k)) \<and>
     interval h * length (expiries h s) \<le> tm_clock s"

lemma filter_insert_due:
  "\<not> P x \<Longrightarrow> filter P (insert_due x ys) = filter P ys"
  "filter P ys = [] \<Longrightarrow> P x \<Longrightarrow> filter P (insert_due x ys) = [x]"
  by (induction ys) (auto split: if_splits)

definition others_ok :: "timer_env \<Rightarrow> bool" where
  \<comment> \<open>the handlers of other parts leave the stack's own timers and the record alone\<close>
  "others_ok e \<longleftrightarrow> (\<forall>n a s s'. te_other e n a s = Inr s' \<longrightarrow>
     tm_clock s' = tm_clock s \<and> tm_fired s' = tm_fired s \<and> tm_late s' = tm_late s \<and> (timers_ok s \<longrightarrow> timers_ok s') \<and>
     (\<forall>h \<in> cyclic. filter (\<lambda>y. fst (snd y) = Some h) (agenda_of s') = filter (\<lambda>y. fst (snd y) = Some h) (agenda_of s)))"

lemma run_handler_other:
  assumes "others_ok e" "run_handler e g a s = Inr s'"
  shows "tm_clock s' = tm_clock s" "tm_fired s' = tm_fired s" "tm_late s' = tm_late s" "timers_ok s \<Longrightarrow> timers_ok s'"
    "h \<in> cyclic \<Longrightarrow> h \<noteq> g \<Longrightarrow>
      filter (\<lambda>y. fst (snd y) = Some h) (agenda_of s') = filter (\<lambda>y. fst (snd y) = Some h) (agenda_of s)"
    "h \<in> cyclic \<Longrightarrow> h = g \<Longrightarrow> filter (\<lambda>y. fst (snd y) = Some h) (agenda_of s) = [] \<Longrightarrow>
      filter (\<lambda>y. fst (snd y) = Some h) (agenda_of s') = [(tm_clock s + interval h, Some h, 0)]"
proof -
  have t: "tm_clock s' = tm_clock s \<and> tm_fired s' = tm_fired s \<and> tm_late s' = tm_late s \<and> (timers_ok s \<longrightarrow> timers_ok s') \<and>
      (\<forall>h. h \<noteq> g \<longrightarrow> filter (\<lambda>y. fst (snd y) = Some h) (agenda_of s') = filter (\<lambda>y. fst (snd y) = Some h) (agenda_of s)) \<and>
      (filter (\<lambda>y. fst (snd y) = Some g) (agenda_of s) = [] \<longrightarrow>
        filter (\<lambda>y. fst (snd y) = Some g) (agenda_of s') = [(tm_clock s + unat msecs, Some g, 0)])"
    if "sys_timeout e msecs (Some g) 0 s = Inr s'" for msecs
    using sys_timeout_agenda [OF that] by (auto simp: filter_insert_due)
  have o: "tm_clock s' = tm_clock s \<and> tm_fired s' = tm_fired s \<and> tm_late s' = tm_late s \<and> (timers_ok s \<longrightarrow> timers_ok s') \<and>
      (\<forall>h \<in> cyclic. filter (\<lambda>y. fst (snd y) = Some h) (agenda_of s') = filter (\<lambda>y. fst (snd y) = Some h) (agenda_of s))"
    if "te_other e n a s = Inr s'" for n a
    using assms(1) that unfolding others_ok_def by blast
  have i: "agenda_of (s\<lparr>tcpip_tcp_timer_active := b\<rparr>) = agenda_of s" "timers_ok (s\<lparr>tcpip_tcp_timer_active := b\<rparr>) = timers_ok s" for b
    by (simp_all add: agenda_of_def timers_ok_def)
  show "tm_clock s' = tm_clock s" "tm_fired s' = tm_fired s" "tm_late s' = tm_late s" "timers_ok s \<Longrightarrow> timers_ok s'"
    using assms(2) t o i by (cases g; auto simp: tcpip_tcp_timer_def split: if_splits)+
  show "filter (\<lambda>y. fst (snd y) = Some h) (agenda_of s') = filter (\<lambda>y. fst (snd y) = Some h) (agenda_of s)"
    if "h \<in> cyclic" "h \<noteq> g"
    using assms(2) t o i that by (cases g; auto simp: tcpip_tcp_timer_def split: if_splits)
  show "filter (\<lambda>y. fst (snd y) = Some h) (agenda_of s') = [(tm_clock s + interval h, Some h, 0)]"
    if "h \<in> cyclic" "h = g" "filter (\<lambda>y. fst (snd y) = Some h) (agenda_of s) = []"
    using assms(2) t that by (cases g) (auto simp: cyclic_def interval_def timer_intervals)
qed


lemma expire_clock:
  assumes "others_ok e" "next_timeout s = t # ts" "expire e t ts s = Inr s'"
  shows "tm_clock s' = fst (hd (agenda_of s))" "timers_ok s \<Longrightarrow> timers_ok s'" "tm_late s' = tm_late s"
proof -
  let ?s1 = "s\<lparr>next_timeout := ts, tm_clock := tm_clock s + unat (tm_time t)\<rparr>"
  have 1: "timers_ok s \<Longrightarrow> timers_ok ?s1" "\<And>x. timers_ok (?s1\<lparr>tm_fired := x\<rparr>) = timers_ok ?s1"
    using assms(2) by (auto simp: timers_ok_def)
  show "tm_clock s' = fst (hd (agenda_of s))" "timers_ok s \<Longrightarrow> timers_ok s'" "tm_late s' = tm_late s"
    using assms 1 run_handler_other [OF assms(1)]
    by (auto simp: expire_def Let_def agenda_of_def split: option.splits)
qed

lemma expire_periodic:
  assumes "others_ok e" "h \<in> cyclic" "periodic h s" "next_timeout s = t # ts" "expire e t ts s = Inr s'"
  shows "periodic h s'"
proof -
  let ?s1 = "s\<lparr>next_timeout := ts, tm_clock := tm_clock s + unat (tm_time t)\<rparr>"
  obtain due where due: "filter (\<lambda>y. fst (snd y) = Some h) (agenda_of s) = [(due, Some h, 0)]"
    "punctual (interval h) (Suc (length (expiries h s))) (tm_late s) due"
    and L: "\<forall>k < length (expiries h s). punctual (interval h) (Suc k) (tm_late s) (expiries h s ! k)"
    and c: "interval h * length (expiries h s) \<le> tm_clock s"
    using assms(3) unfolding periodic_def by blast
  have ag: "agenda_of s = (tm_clock ?s1, tm_h t, tm_arg t) # agenda_of ?s1"
    using assms(4) by (simp add: agenda_of_def)
  note late = expire_clock(3) [OF assms(1,4,5)]
  show ?thesis
  proof (cases "tm_h t")
    case None
    then have "s' = ?s1" using assms(5) by (simp add: expire_def)
    then show ?thesis using due L c ag None by (auto simp: periodic_def expiries_def)
  next
    case (Some g)
    let ?s2 = "?s1\<lparr>tm_fired := tm_fired ?s1 @ [(tm_clock ?s1, g, tm_arg t)]\<rparr>"
    have r: "run_handler e g (tm_arg t) ?s2 = Inr s'" using assms(5) Some by (simp add: expire_def Let_def)
    note f = run_handler_other [OF assms(1) r]
    have a2: "agenda_of ?s2 = agenda_of ?s1" by (simp add: agenda_of_def)
    have ex: "expiries h s' = expiries h s @ (if g = h then [tm_clock ?s1] else [])"
      using f(2) by (simp add: expiries_def)
    show ?thesis
    proof (cases "g = h")
      case True
      then have d: "due = tm_clock ?s1" "filter (\<lambda>y. fst (snd y) = Some h) (agenda_of ?s1) = []"
        using due(1) ag Some by auto
      then have "filter (\<lambda>y. fst (snd y) = Some h) (agenda_of s') = [(tm_clock ?s2 + interval h, Some h, 0)]"
        using f(6) [OF assms(2)] True a2 by simp
      moreover have "punctual (interval h) (Suc (Suc (length (expiries h s)))) (tm_late s) (tm_clock ?s2 + interval h)"
        using due(2) d(1) by (simp add: punctual_def)
      moreover have "interval h * Suc (length (expiries h s)) \<le> tm_clock s'"
        using due(2) d(1) f(1) by (simp add: punctual_def)
      moreover have "\<forall>k < Suc (length (expiries h s)). punctual (interval h) (Suc k) (tm_late s) ((expiries h s @ [due]) ! k)"
        using L due(2) by (simp add: nth_append less_Suc_eq)
      ultimately show ?thesis using ex True d(1) late by (simp add: periodic_def)
    next
      case False
      then have "filter (\<lambda>y. fst (snd y) = Some h) (agenda_of s') = [(due, Some h, 0)]"
        using f(5) [OF assms(2)] due(1) ag Some a2 by simp
      moreover have "interval h * length (expiries h s) \<le> tm_clock s'" using c f(1) by simp
      ultimately show ?thesis using ex False due(2) L late by (simp add: periodic_def)
    qed
  qed
qed

lemma filter_shift: "(\<And>c y. P (c, y) = Q y) \<Longrightarrow> filter P (shift_due d ag) = shift_due d (filter P ag)"
  by (induction ag) (auto simp: shift_due_def)

lemma waited_periodic:
  assumes "periodic h s"
  shows "periodic h (waited w s)"
proof (cases "next_timeout s")
  case Nil
  then show ?thesis using assms by (simp add: periodic_def agenda_of_def)
next
  case (Cons t ts)
  let ?d = "unat w - unat (tm_time t)"
  have "agenda_of (waited w s) = shift_due ?d (agenda_of s)" using Cons by (simp add: waited_agenda)
  moreover have "expiries h (waited w s) = expiries h s" "tm_late (waited w s) = tm_late s + ?d"
    "tm_clock (waited w s) = tm_clock s + unat w"
    using Cons by (simp_all add: waited_def expiries_def)
  moreover obtain due where "filter (\<lambda>y. fst (snd y) = Some h) (agenda_of s) = [(due, Some h, 0)]"
    "punctual (interval h) (Suc (length (expiries h s))) (tm_late s) due"
    using assms unfolding periodic_def by blast
  moreover have "filter (\<lambda>y. fst (snd y) = Some h) (shift_due ?d (agenda_of s)) =
      shift_due ?d (filter (\<lambda>y. fst (snd y) = Some h) (agenda_of s))"
    by (rule filter_shift) simp
  ultimately show ?thesis
    using assms unfolding periodic_def
    by (intro conjI exI [of _ "due + ?d"]) (auto simp: shift_due_def punctual_def)
qed

lemma fetch_keeps:
  assumes "others_ok e" "sys_timeouts_mbox_fetch e fs s = Some (Inr (m, fs', s'))"
    and step: "\<And>s t ts s'. Q s \<Longrightarrow> next_timeout s = t # ts \<Longrightarrow> expire e t ts s = Inr s' \<Longrightarrow> Q s'"
    and wait: "\<And>s w. Q s \<Longrightarrow> Q (waited w s)" and "Q s"
  shows "Q s'"
proof -
  have "e' = e \<longrightarrow> Q s \<longrightarrow> y = Inr (m, fs', s') \<longrightarrow> Q s'" if "sys_timeouts_mbox_fetch e' fs s = Some y" for e' fs s y
  proof (rule sys_timeouts_mbox_fetch.raw_induct
      [where P = "\<lambda>e' fs s y. e' = e \<longrightarrow> Q s \<longrightarrow> y = Inr (m, fs', s') \<longrightarrow> Q s'", OF _ that], intro impI)
    fix f e' fs s y
    assume ih: "\<And>e' fs s y. f e' fs s = Some y \<Longrightarrow> e' = e \<longrightarrow> Q s \<longrightarrow> y = Inr (m, fs', s') \<longrightarrow> Q s'"
      and eq: "(case next_timeout s of
        [] \<Rightarrow> (case fs of [] \<Rightarrow> Some (Inr (None, [], s)) | (w, m) # fs' \<Rightarrow> Some (Inr (m, fs', waited w s)))
      | t # ts \<Rightarrow>
          if 0 < tm_time t then
            (case fs of
               [] \<Rightarrow> Some (Inr (None, [], s))
             | (w, m) # fs' \<Rightarrow>
                 if w = SYS_ARCH_TIMEOUT then
                   (case expire e' t ts s of Inl err \<Rightarrow> Some (Inl err) | Inr s' \<Rightarrow> f e' fs' s')
                 else Some (Inr (m, fs', waited w s)))
          else
            (case expire e' t ts s of Inl err \<Rightarrow> Some (Inl err) | Inr s' \<Rightarrow> f e' fs s')) = Some y"
      and h: "e' = e" "Q s" "y = Inr (m, fs', s')"
    show "Q s'"
    proof (cases "next_timeout s")
      case Nil
      then show ?thesis using eq h wait by (auto split: list.splits)
    next
      case (Cons t ts)
      then show ?thesis
        using eq h wait step [OF h(2) Cons] ih by (fastforce split: list.splits if_splits sum.splits)
    qed
  qed
  then show ?thesis using assms(2,5) by blast
qed


section \<open>Reachable states\<close>

inductive timers_reach :: "timer_env \<Rightarrow> timers \<Rightarrow> bool" for e where
  init: "sys_timeouts_init e timers_initial = Inr s \<Longrightarrow> timers_reach e s"
| fetch: "timers_reach e s \<Longrightarrow> sys_timeouts_mbox_fetch e (fs :: nat fetch list) s = Some (Inr (m, fs', s')) \<Longrightarrow> timers_reach e s'"
| needed: "timers_reach e s \<Longrightarrow> tcp_timer_needed e s = Inr s' \<Longrightarrow> timers_reach e s'"
| request: "timers_reach e s \<Longrightarrow> h \<notin> cyclic \<Longrightarrow> sys_timeout e msecs (Some h) a s = Inr s' \<Longrightarrow> timers_reach e s'"
| cancel: "timers_reach e s \<Longrightarrow> h \<notin> cyclic \<Longrightarrow> timers_reach e (sys_untimeout (Some h) a s)"

lemma set_timers_agenda:
  "set_timers e hs s = Inr s' \<Longrightarrow>
    agenda_of s' = foldl (\<lambda>ag (m, h). insert_due (tm_clock s + unat m, Some h, 0) ag) (agenda_of s) hs \<and>
    tm_clock s' = tm_clock s \<and> tm_fired s' = tm_fired s \<and> tm_late s' = tm_late s \<and> (timers_ok s \<longrightarrow> timers_ok s')"
proof (induction e hs s rule: set_timers.induct)
  case (2 e t h hs s)
  then obtain s1 where s1: "sys_timeout e t (Some h) 0 s = Inr s1" "set_timers e hs s1 = Inr s'"
    by (auto simp: bindE_Inr_iff)
  note a = sys_timeout_agenda [OF s1(1)]
  from 2(1) [OF s1(2)] a show ?case by simp
qed simp

lemma init_periodic:
  assumes "sys_timeouts_init e timers_initial = Inr s" "h \<in> cyclic"
  shows "periodic h s" "timers_ok s"
proof -
  have a: "agenda_of s = [(100, Some IgmpTimer, 0), (500, Some DhcpFineTimer, 0), (1000, Some ArpTimer, 0),
      (1000, Some DhcpCoarseTimer, 0), (1000, Some DnsTimer, 0)]"
    "tm_clock s = 0" "tm_fired s = []" "timers_ok s"
    using set_timers_agenda [OF assms(1) [unfolded sys_timeouts_init_def]]
    by (auto simp: timers_initial_def agenda_of_def timer_intervals timers_ok_def)
  then show "timers_ok s" by simp
  show "periodic h s"
    using assms(2) a by (auto simp: periodic_def cyclic_def expiries_def interval_def punctual_def)
qed

lemma other_request_periodic:
  assumes "periodic h s" "agenda_of s' = insert_due (d, Some g, a) (agenda_of s)" "g \<noteq> h"
    "tm_clock s' = tm_clock s" "tm_fired s' = tm_fired s" "tm_late s' = tm_late s"
  shows "periodic h s'"
  using assms by (simp add: periodic_def expiries_def filter_insert_due)

lemma filter_cancel: "(\<And>c. \<not> P (c, h, a)) \<Longrightarrow> filter P (cancel_due h a ag) = filter P ag"
  by (induction ag) auto

lemma reach_periodic:
  assumes "timers_reach e s" "others_ok e" "h \<in> cyclic"
  shows "periodic h s \<and> timers_ok s"
  using assms(1)
proof induction
  case (init s)
  then show ?case using init_periodic [OF _ assms(3)] by blast
next
  case (fetch s fs m fs' s')
  show ?case
    by (rule fetch_keeps [OF assms(2) fetch.hyps(2), where Q = "\<lambda>s. periodic h s \<and> timers_ok s"])
      (use fetch.IH assms expire_periodic expire_clock(2) waited_periodic waited_ok in blast)+
next
  case (needed s s')
  show ?case
  proof (cases "s' = s")
    case False
    then obtain "sys_timeout e TCP_TMR_INTERVAL (Some TcpTimer) 0 (s\<lparr>tcpip_tcp_timer_active := True\<rparr>) = Inr s'"
      using needed.hyps by (auto simp: tcp_timer_needed_def split: if_splits)
    moreover have "agenda_of (s\<lparr>tcpip_tcp_timer_active := True\<rparr>) = agenda_of s"
      "timers_ok (s\<lparr>tcpip_tcp_timer_active := True\<rparr>) = timers_ok s"
      by (simp_all add: agenda_of_def timers_ok_def)
    ultimately show ?thesis
      using sys_timeout_agenda needed.IH other_request_periodic [of h s s'] assms(3) by (fastforce simp: cyclic_def)
  qed (use needed.IH in simp)
next
  case (request s g msecs a s')
  then show ?case
    using sys_timeout_agenda [OF request.hyps(3)] other_request_periodic [of h s s'] assms(3) by blast
next
  case (cancel s g a)
  have "agenda_of (sys_untimeout (Some g) a s) = cancel_due (Some g) a (agenda_of s)"
    "timers_ok (sys_untimeout (Some g) a s)"
    using sys_untimeout_agenda cancel.IH by blast+
  moreover have "tm_fired (sys_untimeout (Some g) a s) = tm_fired s" "tm_late (sys_untimeout (Some g) a s) = tm_late s"
    "tm_clock (sys_untimeout (Some g) a s) = tm_clock s"
    by (simp_all add: sys_untimeout_def)
  moreover have "g \<noteq> h" using cancel.hyps(2) assms(3) by blast
  ultimately show ?case using cancel.IH by (simp add: periodic_def expiries_def filter_cancel)
qed

lemma clock_before_due: "y \<in> set (agenda_of s) \<Longrightarrow> tm_clock s \<le> fst y"
  unfolding agenda_of_def by (rule dues_ge)

text \<open>
  C15. The timers of the stack are punctual. In every reachable state, whatever messages came and
  however late, whichever other timeouts were set and cancelled, each timer of the stack (ARP, both of
  DHCP, IGMP, DNS) has expired once for every interval that has passed: the k-th time not before k
  intervals, and later than that by no more than messages came late altogether.
\<close>

theorem stack_timers_punctual:
  assumes "timers_reach e s" "others_ok e" "h \<in> cyclic"
  shows "(\<forall>k < length (expiries h s). punctual (interval h) (Suc k) (tm_late s) (expiries h s ! k)) \<and>
    interval h * length (expiries h s) \<le> tm_clock s \<and>
    tm_clock s \<le> interval h * Suc (length (expiries h s)) + tm_late s"
proof -
  have p: "periodic h s" using reach_periodic [OF assms] by simp
  then obtain due where due: "filter (\<lambda>y. fst (snd y) = Some h) (agenda_of s) = [(due, Some h, 0)]"
    "punctual (interval h) (Suc (length (expiries h s))) (tm_late s) due"
    unfolding periodic_def by blast
  have "(due, Some h, 0) \<in> set (filter (\<lambda>y. fst (snd y) = Some h) (agenda_of s))" unfolding due(1) by simp
  then have "tm_clock s \<le> due" using clock_before_due by fastforce
  with due(2) have "tm_clock s \<le> interval h * Suc (length (expiries h s)) + tm_late s" by (simp add: punctual_def)
  with p show ?thesis by (simp add: periodic_def)
qed

section \<open>Waiting returns\<close>

definition due_now :: "timers \<Rightarrow> nat" where
  "due_now s = length (filter (\<lambda>y. fst y \<le> tm_clock s) (agenda_of s))"

definition others_later :: "timer_env \<Rightarrow> bool" where
  \<comment> \<open>the handlers of other parts do not set a timeout of no time\<close>
  "others_later e \<longleftrightarrow> (\<forall>n a s s'. te_other e n a s = Inr s' \<longrightarrow> due_now s' \<le> due_now s)"

lemma insert_later: "\<not> fst x \<le> c \<Longrightarrow> filter (\<lambda>y. fst y \<le> c) (insert_due x ag) = filter (\<lambda>y. fst y \<le> c) ag"
  by (induction ag) auto

lemma timeout_later: "sys_timeout e m h a s = Inr s' \<Longrightarrow> 0 < unat m \<Longrightarrow> due_now s' = due_now s"
  using sys_timeout_agenda [of e m h a s s'] by (simp add: due_now_def insert_later)

lemma handler_later: "others_later e \<Longrightarrow> run_handler e h a s = Inr s' \<Longrightarrow> due_now s' \<le> due_now s"
proof (cases h)
  case TcpTimer
  moreover have "due_now (s\<lparr>tcpip_tcp_timer_active := b\<rparr>) = due_now s" for b by (simp add: due_now_def agenda_of_def)
  moreover assume "run_handler e h a s = Inr s'"
  ultimately show ?thesis
    using timeout_later by (fastforce simp: tcpip_tcp_timer_def timer_intervals split: if_splits)
qed (auto simp: others_later_def timer_intervals dest!: timeout_later)

lemma expire_due:
  assumes "others_later e" "next_timeout s = t # ts" "tm_time t = 0" "expire e t ts s = Inr s'"
  shows "due_now s' < due_now s"
proof -
  let ?s1 = "s\<lparr>next_timeout := ts\<rparr>"
  have d: "due_now (?s1\<lparr>tm_fired := x\<rparr>) < due_now s" "due_now ?s1 < due_now s" for x
    using assms(2,3) by (simp_all add: due_now_def agenda_of_def)
  show ?thesis
  proof (cases "tm_h t")
    case None
    then have "s' = ?s1" using assms(3,4) by (simp add: expire_def)
    then show ?thesis using d(2) by simp
  next
    case (Some h)
    then have "run_handler e h (tm_arg t) (?s1\<lparr>tm_fired := tm_fired s @ [(tm_clock s, h, tm_arg t)]\<rparr>) = Inr s'"
      using assms(3,4) by (simp add: expire_def Let_def)
    from handler_later [OF assms(1) this] d(1) show ?thesis by (rule le_less_trans)
  qed
qed

text \<open>
  C38. Waiting for a message returns. For every finite list of answers of the mailbox
  \<open>sys_timeouts_mbox_fetch\<close> returns, with a message, a fault, or to wait for the next answer: expiring
  timers cannot keep the task of the stack busy for ever, as long as the handlers of other parts do not
  set timeouts of no time.
\<close>

theorem mbox_fetch_returns:
  assumes "others_later e"
  shows "\<exists>r. sys_timeouts_mbox_fetch e fs s = Some r"
proof (induction fs arbitrary: s rule: length_induct)
  case (1 fs)
  show ?case
  proof (induction "due_now s" arbitrary: s rule: less_induct)
    case less
    show ?case
    proof (cases "next_timeout s")
      case Nil
      then show ?thesis by (subst sys_timeouts_mbox_fetch.simps) (auto split: list.split)
    next
      case (Cons t ts)
      show ?thesis
      proof (cases "tm_time t = 0")
        case True
        have "expire e t ts s = Inr s' \<Longrightarrow> \<exists>r. sys_timeouts_mbox_fetch e fs s' = Some r" for s'
          using less expire_due [OF assms Cons True] by blast
        then show ?thesis
          using True Cons by (subst sys_timeouts_mbox_fetch.simps) (auto split: sum.split)
      next
        case False
        have "\<exists>r. sys_timeouts_mbox_fetch e (tl fs) s' = Some r" if "fs \<noteq> []" for s'
          using 1 that by simp
        then show ?thesis
          using False Cons by (subst sys_timeouts_mbox_fetch.simps) (auto simp: word_neq_0_conv split: sum.split list.split)
      qed
    qed
  qed
qed


section \<open>The list as an agenda\<close>

text \<open>What users of the timeouts rely on, and what follows from it alone.\<close>

locale timer_service =
  fixes ok :: "'s \<Rightarrow> bool" and now :: "'s \<Rightarrow> nat" and agenda :: "'s \<Rightarrow> agenda"
    and add :: "u32 \<Rightarrow> timer_fn option \<Rightarrow> nat \<Rightarrow> 's \<Rightarrow> 's result"
    and remove :: "timer_fn option \<Rightarrow> nat \<Rightarrow> 's \<Rightarrow> 's"
  assumes add_ok: "ok s \<Longrightarrow> add m h a s = Inr s' \<Longrightarrow>
      ok s' \<and> now s' = now s \<and> agenda s' = insert_due (now s + unat m, h, a) (agenda s)"
    and remove_ok: "ok s \<Longrightarrow> ok (remove h a s) \<and> now (remove h a s) = now s \<and>
      agenda (remove h a s) = cancel_due h a (agenda s)"
    and sorted_agenda: "sorted (map fst (agenda s))"
begin

lemma add_remove:
  assumes "ok s" "(h, a) \<notin> snd ` set (agenda s)" "add m h a s = Inr s'"
  shows "agenda (remove h a s') = agenda s"
proof -
  have "(h, a) \<notin> snd ` set ag \<Longrightarrow> cancel_due h a (insert_due (d, h, a) ag) = ag" for d ag
    by (induction ag) auto
  then show ?thesis using add_ok [OF assms(1,3)] remove_ok assms(2) by simp
qed

lemma first_in_first_out:
  assumes "ok s" "add m h a s = Inr s1" "add m h' a' s1 = Inr s2"
  shows "\<exists>xs ys. agenda s2 = xs @ (now s + unat m, h, a) # (now s + unat m, h', a') # ys"
proof -
  have "sorted (map fst ag) \<Longrightarrow> \<exists>xs ys. insert_due (d, h', a') (insert_due (d, h, a) ag) = xs @ (d, h, a) # (d, h', a') # ys"
    for d ag
  proof (induction ag)
    case (Cons y ys)
    show ?case
    proof (cases "d < fst y")
      case False
      with Cons obtain xs zs where "insert_due (d, h', a') (insert_due (d, h, a) ys) = xs @ (d, h, a) # (d, h', a') # zs"
        by auto
      with False have "insert_due (d, h', a') (insert_due (d, h, a) (y # ys)) = (y # xs) @ (d, h, a) # (d, h', a') # zs"
        by simp
      then show ?thesis by blast
    qed (auto intro: exI [of _ "[]"])
  qed (auto intro: exI [of _ "[]"])
  moreover have "ok s1" "now s1 = now s" "agenda s1 = insert_due (now s + unat m, h, a) (agenda s)"
    using add_ok [OF assms(1,2)] by auto
  ultimately show ?thesis using add_ok [OF _ assms(3)] sorted_agenda [of s] by simp
qed

end

interpretation timeouts: timer_service timers_ok tm_clock agenda_of "sys_timeout e" sys_untimeout for e
  using sys_timeout_agenda sys_untimeout_agenda dues_sorted
  by unfold_locales (simp_all add: agenda_of_def)

text \<open>
  C16. The list of timeouts refines an agenda of absolute times. Setting a timeout files it behind
  everything that is due no later, so that timeouts for the same time expire in the order they were
  set; cancelling removes the first entry of that handler and argument and moves no other; cancelling
  what was just set undoes it; and what expires next is what is due first, when it is due.
\<close>

theorem timeouts_refine_agenda:
  assumes "timers_ok s" "sys_timeout e m h a s = Inr s1"
  shows "agenda_of s1 = insert_due (tm_clock s + unat m, h, a) (agenda_of s) \<and>
    sorted (map fst (agenda_of s1)) \<and>
    agenda_of (sys_untimeout g b s) = cancel_due g b (agenda_of s) \<and>
    ((h, a) \<notin> snd ` set (agenda_of s) \<longrightarrow> agenda_of (sys_untimeout h a s1) = agenda_of s) \<and>
    (\<forall>g b s2. sys_timeout e m g b s1 = Inr s2 \<longrightarrow>
      (\<exists>xs ys. agenda_of s2 = xs @ (tm_clock s + unat m, h, a) # (tm_clock s + unat m, g, b) # ys))"
  using timeouts.add_ok [OF assms] timeouts.remove_ok [OF assms(1)] timeouts.sorted_agenda
    timeouts.add_remove [OF assms(1) _ assms(2)] timeouts.first_in_first_out [OF assms]
  by blast

section \<open>Witnesses\<close>

definition quiet_env :: timer_env where
  "quiet_env = \<lparr>te_mem = (\<lambda>_. True), te_tcp = (\<lambda>_. False), te_other = (\<lambda>_ _ s. Inr s)\<rparr>"

lemma quiet_env_ok: "others_ok quiet_env" "others_later quiet_env"
  by (simp_all add: others_ok_def others_later_def quiet_env_def)

abbreviation entry :: "u32 \<Rightarrow> timer_fn \<Rightarrow> sys_timeo" where
  "entry t h \<equiv> \<lparr>tm_time = t, tm_h = Some h, tm_arg = 0\<rparr>"

lemma quiet_init:
  "sys_timeouts_init quiet_env timers_initial = Inr \<lparr>next_timeout = [entry 100 IgmpTimer,
     entry 400 DhcpFineTimer, entry 500 ArpTimer, entry 0 DhcpCoarseTimer, entry 0 DnsTimer],
     tcpip_tcp_timer_active = False, tm_clock = 0, tm_late = 0, tm_fired = []\<rparr>"
  by (simp add: sys_timeouts_init_def quiet_env_def sys_timeout_def LwipTimOutLim_def timer_intervals
      timers_initial_def)

lemma quiet_fetch:
  "sys_timeouts_mbox_fetch quiet_env [(SYS_ARCH_TIMEOUT, None), (7, Some (1::nat))]
     \<lparr>next_timeout = [entry 100 IgmpTimer, entry 400 DhcpFineTimer, entry 500 ArpTimer,
        entry 0 DhcpCoarseTimer, entry 0 DnsTimer],
      tcpip_tcp_timer_active = False, tm_clock = 0, tm_late = 0, tm_fired = []\<rparr> =
   Some (Inr (Some 1, [], \<lparr>next_timeout = [entry 93 IgmpTimer, entry 300 DhcpFineTimer, entry 500 ArpTimer,
        entry 0 DhcpCoarseTimer, entry 0 DnsTimer],
      tcpip_tcp_timer_active = False, tm_clock = 107, tm_late = 0, tm_fired = [(100, IgmpTimer, 0)]\<rparr>))"
  by (subst sys_timeouts_mbox_fetch.simps, simp add: expire_def quiet_env_def sys_timeout_def LwipTimOutLim_def
      timer_intervals, subst sys_timeouts_mbox_fetch.simps, simp add: waited_def SYS_ARCH_TIMEOUT_def)

theorem stack_timers_punctual_witness:
  "\<exists>s. timers_reach quiet_env s \<and> expiries IgmpTimer s = [100] \<and> tm_clock s = 107 \<and>
     punctual (interval IgmpTimer) 1 (tm_late s) 100"
proof -
  obtain s where s: "timers_reach quiet_env s" "expiries IgmpTimer s = [100]" "tm_clock s = 107"
    using timers_reach.fetch [OF timers_reach.init [OF quiet_init] quiet_fetch]
    by (fastforce simp: expiries_def)
  from stack_timers_punctual [OF s(1) quiet_env_ok(1), of IgmpTimer] s show ?thesis
    by (auto simp: cyclic_def)
qed

theorem mbox_fetch_returns_witness:
  "\<exists>r. sys_timeouts_mbox_fetch quiet_env [(SYS_ARCH_TIMEOUT, None), (7, Some (1::nat))] timers_initial = Some r"
  using mbox_fetch_returns [OF quiet_env_ok(2)] by blast

theorem timeouts_refine_agenda_witness:
  "\<exists>s1. sys_timeout quiet_env 30 (Some (OtherTimer 1)) 5 timers_initial = Inr s1 \<and>
     agenda_of s1 = [(30, Some (OtherTimer 1), 5)] \<and> agenda_of (sys_untimeout (Some (OtherTimer 1)) 5 s1) = []"
proof -
  have ok: "timers_ok timers_initial" by (simp add: timers_ok_def timers_initial_def)
  obtain s1 where s1: "sys_timeout quiet_env 30 (Some (OtherTimer 1)) 5 timers_initial = Inr s1"
    by (simp add: sys_timeout_def quiet_env_def timers_initial_def LwipTimOutLim_def)
  from timeouts_refine_agenda [OF ok s1] s1 show ?thesis
    by (auto simp: timers_initial_def agenda_of_def)
qed

end
