(* ===== verification/Ip4_Addr.thy ===== *)
theory Ip4_Addr
  imports Net_Addr Netif
begin

text \<open>
  \<open>components/lwip/core/ipv4/ip4_addr.c\<close>: broadcast addresses, valid netmasks, and addresses as text.
  A text is the list of its characters without the terminator; the end of the list stands for the zero
  byte. The conversion checks for overflow (\<open>ESP_IP4_ATON\<close> is set).
\<close>

section \<open>Broadcast addresses and netmasks\<close>

definition ip4_addr_isbroadcast_u32 :: "u32 \<Rightarrow> netif \<Rightarrow> bool" where
  "ip4_addr_isbroadcast_u32 addr n =
     (if NOT addr = IPADDR_ANY \<or> addr = IPADDR_ANY then True
      else if nf_flags n AND NETIF_FLAG_BROADCAST = 0 then False
      else if addr = nf_ip n then False
      else if ip4_addr_netcmp addr (nf_ip n) (nf_netmask n) \<and>
              addr AND NOT (nf_netmask n) = IPADDR_BROADCAST AND NOT (nf_netmask n) then True
      else False)"

lemma shift_out_less:
  assumes "(m :: u32) \<noteq> 0"
  shows "unat (drop_bit 1 m) < unat m"
proof -
  have "unat (drop_bit 1 m) = unat m div 2"
    by (simp only: unat_drop_bit_eq) (simp only: drop_bit_eq_div power_one_right)
  with assms show ?thesis by (simp add: unat_gt_0)
qed

function first_zero :: "u32 \<Rightarrow> u32 \<Rightarrow> u32" where
  "first_zero nm m = (if m = 0 \<or> nm AND m = 0 then m else first_zero nm (drop_bit 1 m))"
  by pat_completeness auto

termination by (relation "measure (\<lambda>(nm, m). unat m)") (auto intro: shift_out_less simp flip: One_nat_def)

function no_more_ones :: "u32 \<Rightarrow> u32 \<Rightarrow> bool" where
  "no_more_ones nm m =
     (if m = 0 then True else if nm AND m \<noteq> 0 then False else no_more_ones nm (drop_bit 1 m))"
  by pat_completeness auto

termination by (relation "measure (\<lambda>(nm, m). unat m)") (auto intro: shift_out_less simp flip: One_nat_def)

declare first_zero.simps [simp del] no_more_ones.simps [simp del]

definition ip4_addr_netmask_valid :: "u32 \<Rightarrow> bool" where
  "ip4_addr_netmask_valid netmask =
     (let nm_hostorder = lwip_htonl netmask
      in no_more_ones nm_hostorder (first_zero nm_hostorder (push_bit 31 1)))"

section \<open>From text\<close>

definition chr_in :: "char \<Rightarrow> nat \<Rightarrow> nat \<Rightarrow> bool" where
  "chr_in c lo up \<longleftrightarrow> lo \<le> of_char c \<and> of_char c \<le> up"

definition is_digit :: "char \<Rightarrow> bool" where "is_digit c \<longleftrightarrow> chr_in c 48 57"
definition is_xdigit :: "char \<Rightarrow> bool" where
  "is_xdigit c \<longleftrightarrow> is_digit c \<or> chr_in c 97 102 \<or> chr_in c 65 70"
definition is_lower :: "char \<Rightarrow> bool" where "is_lower c \<longleftrightarrow> chr_in c 97 122"

definition overflows :: "u32 \<Rightarrow> u32 \<Rightarrow> nat \<Rightarrow> bool" where
  "overflows base val ch \<longleftrightarrow>
     (let cutoff = 0xffffffff div base; cutlim = unat (0xffffffff mod base)
      in cutoff < val \<or> val = cutoff \<and> cutlim < ch)"

fun number_loop :: "u32 \<Rightarrow> u32 \<Rightarrow> string \<Rightarrow> (u32 \<times> string) option" where
  "number_loop base val [] = Some (val, [])"
| "number_loop base val (c # cs) =
     (if is_digit c then
        let ch = of_char c - 48 in
        if overflows base val ch then None else number_loop base (val * base + of_nat ch) cs
      else if base = 16 \<and> is_xdigit c then
        let ch = of_char c + 10 - (if is_lower c then 97 else 65) in
        if overflows base val ch then None else number_loop base (push_bit 4 val OR of_nat ch) cs
      else Some (val, c # cs))"

definition parse_number :: "string \<Rightarrow> (u32 \<times> string) option" where
  \<comment> \<open>one number up to a character that does not belong to it\<close>
  "parse_number cs =
     (case cs of
        [] \<Rightarrow> None
      | c # cs' \<Rightarrow>
          if \<not> is_digit c then None
          else if c = CHR ''0'' then
            (case cs' of
               x # cs'' \<Rightarrow> if x = CHR ''x'' \<or> x = CHR ''X'' then number_loop 16 0 cs'' else number_loop 8 0 cs'
             | [] \<Rightarrow> number_loop 8 0 cs')
          else number_loop 10 0 cs)"

lemma number_loop_length: "number_loop b v cs = Some (w, rest) \<Longrightarrow> length rest \<le> length cs"
  by (induction b v cs rule: number_loop.induct) (auto simp: Let_def split: if_splits)

lemma parse_number_length: "parse_number cs = Some (v, rest) \<Longrightarrow> length rest \<le> length cs"
  by (auto simp: parse_number_def simp del: number_loop.simps split: list.splits if_splits dest!: number_loop_length)

function aton_loop :: "u32 list \<Rightarrow> string \<Rightarrow> (u32 list \<times> u32 \<times> string) option" where
  \<comment> \<open>the numbers before the last dot, the last number, and what follows it\<close>
  "aton_loop parts cs =
     (case parse_number cs of
        None \<Rightarrow> None
      | Some (val, rest) \<Rightarrow>
          (case rest of
             [] \<Rightarrow> Some (parts, val, rest)
           | c # rest' \<Rightarrow>
               if c = CHR ''.'' then
                 if 3 \<le> length parts then None else aton_loop (parts @ [val]) rest'
               else Some (parts, val, rest)))"
  by pat_completeness auto

termination
  by (relation "measure (\<lambda>(parts, cs). length cs)") (auto dest: parse_number_length)

declare aton_loop.simps [simp del]

definition aton_value :: "u32 list \<Rightarrow> u32 \<Rightarrow> u32 option" where
  \<comment> \<open>the address from its one to four parts, in host order\<close>
  "aton_value parts val =
     (case parts of
        [] \<Rightarrow> Some val
      | [a] \<Rightarrow> if 0xffffff < val \<or> 0xff < a then None else Some (val OR push_bit 24 a)
      | [a, b] \<Rightarrow>
          if 0xffff < val \<or> 0xff < a \<or> 0xff < b then None
          else Some (val OR (push_bit 24 a OR push_bit 16 b))
      | [a, b, c] \<Rightarrow>
          if 0xff < val \<or> 0xff < a \<or> 0xff < b \<or> 0xff < c then None
          else Some (val OR (push_bit 24 a OR push_bit 16 b OR push_bit 8 c))
      | _ \<Rightarrow> None)"

definition ip4addr_aton :: "string \<Rightarrow> u32 option" where
  "ip4addr_aton cp =
     (case aton_loop [] cp of
        None \<Rightarrow> None
      | Some (parts, val, rest) \<Rightarrow>
          if rest \<noteq> [] \<and> \<not> isspace (hd rest) then None
          else map_option lwip_htonl (aton_value parts val))"

definition ipaddr_addr :: "string \<Rightarrow> u32" where
  "ipaddr_addr cp = (case ip4addr_aton cp of Some a \<Rightarrow> a | None \<Rightarrow> IPADDR_NONE)"

section \<open>To text\<close>

lemma div_10_less: "ap div 10 \<noteq> 0 \<Longrightarrow> unat (ap div 10 :: byte) < unat ap"
  by (cases "ap = 0") (simp_all add: unat_div_distrib unat_gt_0 word_neq_0_conv)

function inv_digits :: "byte \<Rightarrow> string" where
  \<comment> \<open>the digits of an octet, the lowest first\<close>
  "inv_digits ap =
     (let ap' = ap div 10; ch = char_of (48 + unat (ap mod 10))
      in if ap' = 0 then [ch] else ch # inv_digits ap')"
  by pat_completeness auto

termination by (relation "measure unat") (auto simp: div_10_less)

declare inv_digits.simps [simp del]

definition put_char :: "int \<Rightarrow> char \<Rightarrow> string \<Rightarrow> string option" where
  "put_char buflen c out = (if buflen \<le> int (length out) then None else Some (out @ [c]))"

fun put_chars :: "int \<Rightarrow> string \<Rightarrow> string \<Rightarrow> string option" where
  "put_chars buflen [] out = Some out"
| "put_chars buflen (c # cs) out =
     (case put_char buflen c out of None \<Rightarrow> None | Some out' \<Rightarrow> put_chars buflen cs out')"

fun put_octets :: "int \<Rightarrow> byte list \<Rightarrow> string \<Rightarrow> string option result" where
  \<comment> \<open>the digits go through an array of three characters\<close>
  "put_octets buflen [] out = Inr (Some out)"
| "put_octets buflen (b # bs) out =
     (if 3 < length (inv_digits b) then Inl BufferOverflow
      else case put_chars buflen (rev (inv_digits b)) out of
             None \<Rightarrow> Inr None
           | Some out' \<Rightarrow>
               (case put_char buflen CHR ''.'' out' of None \<Rightarrow> Inr None | Some out'' \<Rightarrow> put_octets buflen bs out''))"

definition ip4addr_ntoa_r :: "u32 \<Rightarrow> int \<Rightarrow> string option result" where
  \<comment> \<open>the text, without the terminator that replaces the last dot; \<open>None\<close> when the buffer is too small\<close>
  "ip4addr_ntoa_r addr buflen = bindE (put_octets buflen (le_bytes addr) []) (\<lambda>r. Inr (map_option butlast r))"

definition IP4ADDR_STRLEN_MAX :: int where "IP4ADDR_STRLEN_MAX = 16"

definition ip4addr_ntoa :: "u32 \<Rightarrow> string option result" where
  "ip4addr_ntoa addr = ip4addr_ntoa_r addr IP4ADDR_STRLEN_MAX"

end
