(* ===== verification/Ip4_Addr_Props.thy ===== *)
theory Ip4_Addr_Props
  imports Ip4_Addr
begin

text \<open>
  What holds of \<open>Ip4_Addr\<close>: the valid netmasks are the words of ones followed by zeros; a broadcast
  address is the network part followed by ones; a text of numbers joined by dots is read as the
  specification \<open>dotted_value\<close> says, and an address printed is read back.
\<close>

section \<open>Netmasks\<close>

lemma bit_one_at: "bit (push_bit k (1 :: u32)) n \<longleftrightarrow> n = k \<and> k < 32"
  by (simp only: bit_push_bit_iff bit_1_iff possible_bit_word) auto

lemma shift_one: "drop_bit 1 (push_bit (Suc k) 1) = (push_bit k 1 :: u32)" if "Suc k < 32"
  by (rule bit_word_eqI) (use that in \<open>auto simp only: bit_drop_bit_eq o_apply bit_one_at\<close>)

lemma one_shifted: "push_bit k (1 :: u32) = 0 \<longleftrightarrow> False" if "k < 32"
  using that bit_one_at [of k k] by (metis bit_0_eq bot_apply bot_bool_def)

lemma one_bit: "nm AND push_bit k 1 = 0 \<longleftrightarrow> \<not> bit nm k" if "k < 32" for nm :: u32
proof -
  have "nm AND push_bit k 1 = (if bit nm k then push_bit k 1 else 0)"
    by (rule bit_word_eqI) (simp only: bit_and_iff bit_one_at bit_0_eq bot_apply if_distrib [of bit] if_distribR, auto)
  then show ?thesis by (simp only: one_shifted [OF that] if_split_eq1) (use one_shifted [OF that] in auto)
qed

lemma last_shift: "drop_bit 1 (push_bit 0 1 :: u32) = 0"
  by simp

lemma no_more_ones_0: "no_more_ones nm 0" and first_zero_0: "first_zero nm 0 = 0"
  by (simp_all add: no_more_ones.simps first_zero.simps)

lemma no_more_ones_iff: "k < 32 \<Longrightarrow> no_more_ones nm (push_bit k 1) \<longleftrightarrow> (\<forall>j\<le>k. \<not> bit nm j)"
proof (induction k)
  case 0
  then show ?case
    by (subst no_more_ones.simps) (simp only: one_bit one_shifted last_shift no_more_ones_0, auto)
next
  case (Suc k)
  then show ?case
    by (subst no_more_ones.simps) (simp only: one_bit one_shifted shift_one, auto simp: le_Suc_eq)
qed

lemma netmask_loops:
  "k < 32 \<Longrightarrow> no_more_ones nm (first_zero nm (push_bit k 1)) \<longleftrightarrow> (\<exists>n\<le>Suc k. \<forall>j\<le>k. bit nm j \<longleftrightarrow> n \<le> j)"
proof (induction k)
  case 0
  then show ?case
    by (subst first_zero.simps)
      (simp only: one_bit one_shifted last_shift no_more_ones_0 first_zero_0 no_more_ones_iff if_split, auto)
next
  case (Suc k)
  let ?P = "\<lambda>n k. \<forall>j\<le>k. bit nm j \<longleftrightarrow> n \<le> j"
  show ?case
  proof (cases "bit nm (Suc k)")
    case True
    then have e: "?P n (Suc k) \<longleftrightarrow> ?P n k \<and> n \<le> Suc k" for n by (auto simp: le_Suc_eq)
    from True Suc show ?thesis
      by (subst first_zero.simps) (simp only: one_bit one_shifted shift_one, auto simp: e le_Suc_eq)
  next
    case False
    then have e: "(\<exists>n\<le>Suc (Suc k). ?P n (Suc k)) \<longleftrightarrow> (\<forall>j\<le>Suc k. \<not> bit nm j)"
      by (auto simp: le_Suc_eq)
    from False Suc.prems show ?thesis
      by (subst first_zero.simps) (simp only: one_bit one_shifted e no_more_ones_iff not_False_eq_True if_True simp_thms)
  qed
qed

lemma not_mask_iff: "x = NOT (mask n) \<longleftrightarrow> (\<forall>j<32. bit x j \<longleftrightarrow> n \<le> j)" for x :: u32
  by (auto simp: bit_eq_iff bit_not_iff bit_mask_iff possible_bit_word not_less)

text \<open>
  A netmask is valid exactly when, in host order, it is a run of ones followed by zeros only.
\<close>

theorem netmask_valid_iff_prefix:
  "ip4_addr_netmask_valid m \<longleftrightarrow> (\<exists>n. m = lwip_htonl (NOT (mask n)))"
proof -
  have "ip4_addr_netmask_valid m \<longleftrightarrow> (\<exists>n\<le>32. \<forall>j<32. bit (lwip_htonl m) j \<longleftrightarrow> n \<le> j)"
    using netmask_loops [of 31 "lwip_htonl m"] by (simp add: ip4_addr_netmask_valid_def less_Suc_eq_le [symmetric])
  also have "\<dots> \<longleftrightarrow> (\<exists>n. \<forall>j<32. bit (lwip_htonl m) j \<longleftrightarrow> n \<le> j)"
    (is "(\<exists>n\<le>32. ?P n) \<longleftrightarrow> _")
  proof -
    have "?P n \<Longrightarrow> ?P (min n 32)" for n by auto
    then show ?thesis by (meson min.cobounded2)
  qed
  also have "\<dots> \<longleftrightarrow> (\<exists>n. m = lwip_htonl (NOT (mask n)))"
    by (metis not_mask_iff lwip_htonl_htonl)
  finally show ?thesis .
qed

text \<open>
  An address is a broadcast address of an interface when it is all zeros or all ones, or when the
  interface supports broadcast, the address is not its own, and it is the network part of the
  interface's address followed by ones.
\<close>

theorem broadcast_iff:
  "ip4_addr_isbroadcast_u32 addr n \<longleftrightarrow>
     addr = 0 \<or> addr = NOT 0 \<or>
     (nf_flags n AND NETIF_FLAG_BROADCAST \<noteq> 0 \<and> addr \<noteq> nf_ip n \<and>
      addr = (nf_ip n AND nf_netmask n) OR NOT (nf_netmask n))"
proof -
  have e: "addr AND NOT m = NOT 0 AND NOT m \<and> addr AND m = ip AND m \<longleftrightarrow> addr = (ip AND m) OR NOT m"
    for ip m :: u32
    by (simp only: bit_eq_iff bit_and_iff bit_or_iff bit_not_iff possible_bit_word) auto
  have b: "(0xffffffff :: u32) = NOT 0" by simp
  have "NOT addr = 0 \<longleftrightarrow> addr = NOT 0" by (metis bit.double_compl)
  then show ?thesis
    unfolding ip4_addr_isbroadcast_u32_def ip4_addr_netcmp_def IPADDR_ANY_def IPADDR_BROADCAST_def b
    by (simp only: e [symmetric] if_split) blast
qed

section \<open>Numbers as text\<close>

definition horner :: "nat \<Rightarrow> nat \<Rightarrow> nat list \<Rightarrow> nat" where
  "horner b a ds = foldl (\<lambda>a d. a * b + d) a ds"

lemma horner_simps [simp]:
  "horner b a [] = a" "horner b a (d # ds) = horner b (a * b + d) ds" "horner b a (ds @ [d]) = horner b a ds * b + d"
  by (simp_all add: horner_def)

lemma horner_ge: "0 < b \<Longrightarrow> a \<le> horner b a ds"
proof (induction ds arbitrary: a)
  case (Cons d ds)
  have "a \<le> a * b + d" using Cons.prems by (simp add: trans_le_add1)
  with Cons show ?case by (metis horner_simps(2) le_trans)
qed simp

lemma text_digits:
  "\<exists>d ds. text_of_nat_base 10 n = map digit_char (d # ds) \<and> horner 10 0 (d # ds) = n \<and>
     (\<forall>x\<in>set (d # ds). x < 10) \<and> (d = 0 \<longrightarrow> ds = [])"
proof (induction n rule: less_induct)
  case (less n)
  show ?case
  proof (cases "n < 10")
    case True
    then show ?thesis
      by (subst text_of_nat_base.simps) (rule exI [of _ n], rule exI [of _ "[]"], simp)
  next
    case False
    then obtain d ds where "text_of_nat_base 10 (n div 10) = map digit_char (d # ds)"
      "horner 10 0 (d # ds) = n div 10" "\<forall>x\<in>set (d # ds). x < 10" "d = 0 \<longrightarrow> ds = []"
      using less.IH [of "n div 10"] by force
    moreover from this False have "d \<noteq> 0" by auto
    ultimately have "text_of_nat_base 10 n = map digit_char (d # ds @ [n mod 10]) \<and>
      horner 10 0 (d # ds @ [n mod 10]) = n \<and> (\<forall>x\<in>set (d # ds @ [n mod 10]). x < 10) \<and> d \<noteq> 0"
      using False horner_simps(3) [of 10 0 "d # ds" "n mod 10"]
      by (subst text_of_nat_base.simps) auto
    then show ?thesis by blast
  qed
qed

lemma of_char_digit: "d < 10 \<Longrightarrow> of_char (digit_char d) = 48 + d"
  by (simp add: digit_char_def)

lemma char_of_48: "char_of (48 :: nat) = CHR ''0''"
  by code_simp

lemma is_digit_digit [simp]: "d < 10 \<Longrightarrow> is_digit (digit_char d)"
  by (simp add: is_digit_def chr_in_def of_char_digit)

lemma digit_char_eq_0 [simp]: "d < 10 \<Longrightarrow> digit_char d = CHR ''0'' \<longleftrightarrow> d = 0"
  using of_char_digit [of d]
  by (auto simp: digit_char_def char_of_48 dest: arg_cong [where f = "of_char :: char \<Rightarrow> nat"])

lemma overflows_iff:
  assumes "v < 2 ^ 32" "b = 10 \<or> b = 8" "d < 10"
  shows "overflows (of_nat b) (of_nat v) d \<longleftrightarrow> 2 ^ 32 \<le> v * b + d"
proof -
  have v: "unat (of_nat v :: u32) = v" using assms(1) by (simp add: unsigned_of_nat take_bit_nat_eq_self)
  have l: "x < (of_nat v :: u32) \<longleftrightarrow> unat x < v" "(of_nat v :: u32) = x \<longleftrightarrow> v = unat x" for x
    using v by (simp_all add: word_less_nat_alt word_unat_eq_iff)
  have q: "(0xffffffff :: u32) div 10 = 429496729" "(0xffffffff :: u32) mod 10 = 5"
    "(0xffffffff :: u32) div 8 = 536870911" "(0xffffffff :: u32) mod 8 = 7"
    by (simp_all add: word_div_def word_mod_def)
  have b10: "overflows (of_nat 10) (of_nat v) d \<longleftrightarrow> 429496729 < v \<or> v = 429496729 \<and> 5 < d"
    and b8: "overflows (of_nat 8) (of_nat v) d \<longleftrightarrow> 536870911 < v \<or> v = 536870911 \<and> 7 < d"
    by (simp_all add: overflows_def Let_def l q)
  show ?thesis using assms b10 b8 by auto
qed

lemma number_loop_digits:
  assumes "\<forall>d\<in>set ds. d < 10" "a < 2 ^ 32" "b = 10 \<or> b = 8"
  shows "number_loop (of_nat b) (of_nat a) (map digit_char ds @ rest) =
    (if horner b a ds < 2 ^ 32 then number_loop (of_nat b) (of_nat (horner b a ds)) rest else None)"
  using assms
proof (induction ds arbitrary: a)
  case Nil
  then show ?case by simp
next
  case (Cons d ds)
  have d: "d < 10" and b: "0 < b" using Cons.prems by auto
  show ?case
  proof (cases "a * b + d < 2 ^ 32")
    case True
    then have "\<not> overflows (of_nat b) (of_nat a) d" using overflows_iff Cons.prems d by auto
    with True Cons d show ?thesis by (simp add: Let_def of_char_digit flip: of_nat_mult of_nat_add)
  next
    case False
    then have "overflows (of_nat b) (of_nat a) d" using overflows_iff Cons.prems d by auto
    moreover have "\<not> horner b a (d # ds) < 2 ^ 32" using False horner_ge [OF b, of "a * b + d" ds] by simp
    ultimately show ?thesis using d by (simp only: if_False) (simp add: Let_def of_char_digit)
  qed
qed

definition no_number :: "string \<Rightarrow> bool" where
  \<comment> \<open>a text that does not continue a number, nor makes a zero before it the start of one\<close>
  "no_number rest \<longleftrightarrow> rest = [] \<or> \<not> is_digit (hd rest) \<and> hd rest \<noteq> CHR ''x'' \<and> hd rest \<noteq> CHR ''X''"

lemma number_loop_stop:
  "no_number rest \<Longrightarrow> b = 10 \<or> b = 8 \<Longrightarrow> number_loop (of_nat b) v rest = Some (v, rest)"
  by (cases rest) (auto simp: no_number_def)

lemma parse_number_text:
  assumes "no_number rest"
  shows "parse_number (text_of_nat_base 10 n @ rest) = (if n < 2 ^ 32 then Some (of_nat n, rest) else None)"
proof -
  obtain d ds where t: "text_of_nat_base 10 n = map digit_char (d # ds)" "horner 10 0 (d # ds) = n"
    "\<forall>x\<in>set (d # ds). x < 10" "d = 0 \<longrightarrow> ds = []"
    using text_digits [of n] by blast
  show ?thesis
  proof (cases "d = 0")
    case True
    then have "ds = []" "n = 0" using t by auto
    moreover have "number_loop (of_nat 8) (of_nat 0) rest = Some (0, rest)"
      using number_loop_stop [OF assms, of 8] by simp
    moreover have "parse_number (CHR ''0'' # rest) = number_loop 8 0 rest"
      using assms by (auto simp: parse_number_def no_number_def is_digit_def chr_in_def split: list.splits)
    ultimately show ?thesis using t True by (simp add: digit_char_def char_of_48)
  next
    case False
    then have "parse_number (text_of_nat_base 10 n @ rest) =
      number_loop (of_nat 10) (of_nat 0) (map digit_char (d # ds) @ rest)"
      using t by (simp add: parse_number_def del: number_loop.simps)
    then show ?thesis
      unfolding number_loop_digits [OF t(3), of 0 10, simplified] t(2)
      using t(2) number_loop_stop [OF assms, of 10] number_loop_digits [OF t(3), of 0 10 rest] by auto
  qed
qed

section \<open>Addresses as text\<close>

fun dotted :: "nat list \<Rightarrow> string" where
  "dotted [] = []"
| "dotted [n] = text_of_nat_base 10 n"
| "dotted (n # ns) = text_of_nat_base 10 n @ CHR ''.'' # dotted ns"

definition dotted_value :: "nat list \<Rightarrow> nat option" where
  \<comment> \<open>up to three octets and a last number that fills the remaining bytes\<close>
  "dotted_value ns =
     (if ns \<noteq> [] \<and> length ns \<le> 4 \<and> (\<forall>n\<in>set (butlast ns). n < 256) \<and> last ns < 256 ^ (5 - length ns)
      then Some (horner 256 0 (butlast ns) * 256 ^ (5 - length ns) + last ns) else None)"

definition ends_address :: "string \<Rightarrow> bool" where
  "ends_address rest \<longleftrightarrow> rest = [] \<or> isspace (hd rest)"

lemma no_number_dot: "no_number (CHR ''.'' # r)"
  by (simp add: no_number_def is_digit_def chr_in_def)

lemma ends_address_no_number: "ends_address rest \<Longrightarrow> no_number rest \<and> (rest \<noteq> [] \<longrightarrow> hd rest \<noteq> CHR ''.'')"
  by (auto simp: ends_address_def no_number_def isspace_def is_digit_def chr_in_def)

lemma aton_loop_dotted:
  assumes "ns \<noteq> []" "no_number rest" "rest \<noteq> [] \<longrightarrow> hd rest \<noteq> CHR ''.''" "length parts \<le> 3"
  shows "aton_loop parts (dotted ns @ rest) =
    (if (\<forall>n\<in>set ns. n < 2 ^ 32) \<and> length parts + length ns \<le> 4
     then Some (parts @ map of_nat (butlast ns), of_nat (last ns), rest) else None)"
  using assms(1,4)
proof (induction ns arbitrary: parts rule: dotted.induct)
  case 1
  then show ?case by simp
next
  case (2 n)
  with assms(2,3) show ?case
    by (subst aton_loop.simps) (auto simp: parse_number_text split: list.split)
next
  case (3 n m ms)
  have e: "aton_loop parts (dotted (n # m # ms) @ rest) =
      (if n < 2 ^ 32 \<and> length parts < 3 then aton_loop (parts @ [of_nat n]) (dotted (m # ms) @ rest) else None)"
    by (subst aton_loop.simps) (simp add: parse_number_text no_number_dot)
  show ?case
  proof (cases "length parts < 3")
    case True
    then show ?thesis unfolding e by (subst "3.IH") auto
  next
    case False
    with 3 show ?thesis unfolding e by auto
  qed
qed

lemma or_shift:
  assumes "v < 2 ^ k" "k < 32"
  shows "of_nat v OR push_bit k (of_nat a) = (of_nat (v + a * 2 ^ k) :: u32)"
proof -
  have "(2 :: nat) ^ k < 2 ^ 32" using assms(2) by (rule power_strict_increasing) simp
  then have "v < 2 ^ 32" using assms(1) by linarith
  then have "(of_nat v :: u32) = take_bit k (of_nat v)"
    using assms(1) by (simp only: take_bit_of_nat) (simp add: take_bit_nat_eq_self)
  then have "of_nat v AND push_bit k (of_nat a) = (0 :: u32)"
    by (metis (no_types, lifting) bit_and_iff bit_push_bit_iff bit_take_bit_iff bit_eq_iff bit_0_eq bot_apply bot_bool_def linorder_not_less)
  then show ?thesis by (simp add: push_bit_eq_mult flip: disjunctive_add_eq_or)
qed

lemma or_parts:
  "b < 256 \<Longrightarrow> push_bit 24 (of_nat a) OR push_bit 16 (of_nat b) = (push_bit 16 (of_nat (b + a * 256)) :: u32)"
  "b < 256 \<Longrightarrow> push_bit 16 (of_nat a) OR push_bit 8 (of_nat b) = (push_bit 8 (of_nat (b + a * 256)) :: u32)"
  "b < 65536 \<Longrightarrow> push_bit 24 (of_nat a) OR push_bit 8 (of_nat b) = (push_bit 8 (of_nat (b + a * 65536)) :: u32)"
proof -
  have e: "push_bit (m + k) (of_nat a) OR push_bit m (of_nat b) = (push_bit m (of_nat (b + a * 2 ^ k)) :: u32)"
    if "b < 2 ^ k" "k < 32" for m k
    unfolding or_shift [OF that, symmetric] push_bit_or push_bit_push_bit by (simp only: or.commute)
  show "b < 256 \<Longrightarrow> push_bit 24 (of_nat a) OR push_bit 16 (of_nat b) = (push_bit 16 (of_nat (b + a * 256)) :: u32)"
    "b < 256 \<Longrightarrow> push_bit 16 (of_nat a) OR push_bit 8 (of_nat b) = (push_bit 8 (of_nat (b + a * 256)) :: u32)"
    "b < 65536 \<Longrightarrow> push_bit 24 (of_nat a) OR push_bit 8 (of_nat b) = (push_bit 8 (of_nat (b + a * 65536)) :: u32)"
    using e [of 8 16] e [of 8 8] e [of 16 8] by simp_all
qed

lemma limit_less:
  "n < 2 ^ 32 \<Longrightarrow> 0xff < (of_nat n :: u32) \<longleftrightarrow> 0xff < n"
  "n < 2 ^ 32 \<Longrightarrow> 0xffff < (of_nat n :: u32) \<longleftrightarrow> 0xffff < n"
  "n < 2 ^ 32 \<Longrightarrow> 0xffffff < (of_nat n :: u32) \<longleftrightarrow> 0xffffff < n"
  by (simp_all add: word_less_nat_alt unsigned_of_nat take_bit_nat_eq_self)

lemma dotted_value_simps:
  "dotted_value [a] = (if a < 2 ^ 32 then Some a else None)"
  "dotted_value [a, b] = (if a < 256 \<and> b < 2 ^ 24 then Some (b + a * 2 ^ 24) else None)"
  "dotted_value [a, b, c] =
     (if a < 256 \<and> b < 256 \<and> c < 2 ^ 16 then Some (c + (b + a * 256) * 2 ^ 16) else None)"
  "dotted_value [a, b, c, d] =
     (if a < 256 \<and> b < 256 \<and> c < 256 \<and> d < 256 then Some (d + (c + (b + a * 256) * 256) * 2 ^ 8) else None)"
  by (simp_all add: dotted_value_def)

lemma aton_value_dotted:
  assumes "ns \<noteq> []" "\<forall>n\<in>set ns. n < 2 ^ 32" "length ns \<le> 4"
  shows "aton_value (map of_nat (butlast ns)) (of_nat (last ns)) = map_option of_nat (dotted_value ns)"
proof -
  consider a where "ns = [a]" | a b where "ns = [a, b]" | a b c where "ns = [a, b, c]"
    | a b c d where "ns = [a, b, c, d]"
    using assms(1,3) by (auto simp: neq_Nil_conv length_Suc_conv numeral_eq_Suc le_Suc_eq)
  then show ?thesis
  proof cases
    case 1
    with assms show ?thesis by (simp add: aton_value_def dotted_value_simps)
  next
    case 2
    with assms have "a < 2 ^ 32" "b < 2 ^ 32" by auto
    with 2 show ?thesis
      using or_shift [of b 24 a] by (simp add: aton_value_def dotted_value_simps limit_less)
  next
    case 3
    with assms have "a < 2 ^ 32" "b < 2 ^ 32" "c < 2 ^ 32" by auto
    with 3 show ?thesis
      using or_shift [of c 16 "b + a * 256"]
      by (simp add: aton_value_def dotted_value_simps limit_less or_parts del: of_nat_add of_nat_mult)
  next
    case 4
    with assms have "a < 2 ^ 32" "b < 2 ^ 32" "c < 2 ^ 32" "d < 2 ^ 32" by auto
    with 4 show ?thesis
      using or_shift [of d 8 "c + b * 256 + a * 65536"]
      by (simp add: aton_value_def dotted_value_simps limit_less or_parts del: of_nat_add of_nat_mult)
        (simp add: algebra_simps del: of_nat_add of_nat_mult)
  qed
qed

lemma dotted_value_None:
  assumes "\<not> ((\<forall>n\<in>set ns. n < 2 ^ 32) \<and> length ns \<le> 4)"
  shows "dotted_value ns = None"
proof (rule ccontr)
  assume a: "dotted_value ns \<noteq> None"
  then have ns: "ns \<noteq> []" "length ns \<le> 4" "\<forall>n\<in>set (butlast ns). n < 256" "last ns < 256 ^ (5 - length ns)"
    by (auto simp: dotted_value_def split: if_splits)
  have "(256 :: nat) ^ (5 - length ns) \<le> 256 ^ 4"
    using ns(1) by (intro power_increasing) (cases ns, auto)
  with ns(4) have "last ns < 2 ^ 32" by simp
  moreover have "\<forall>n\<in>set (butlast ns). n < 2 ^ 32" using ns(3) by force
  moreover have "set ns = insert (last ns) (set (butlast ns))"
    using ns(1) by (metis append_butlast_last_id list.set(1) list.set(2) set_append Un_insert_right sup_bot.right_neutral)
  ultimately show False using assms ns(2) by auto
qed

text \<open>
  C29. Decimal numbers joined by dots, followed by the end of the text or anything that does not
  continue them, are an address exactly when what follows is the end or white space and there are one
  to four of them, each but the last below 256 and the last within the bytes left; the address is
  then the numbers read to base 256, in network order.
\<close>

theorem aton_dotted:
  assumes "ns \<noteq> []" "no_number rest" "rest \<noteq> [] \<longrightarrow> hd rest \<noteq> CHR ''.''"
  shows "ip4addr_aton (dotted ns @ rest) =
    (if ends_address rest then map_option (\<lambda>v. lwip_htonl (of_nat v)) (dotted_value ns) else None)"
proof (cases "(\<forall>n\<in>set ns. n < 2 ^ 32) \<and> length ns \<le> 4")
  case True
  then show ?thesis
    using aton_loop_dotted [OF assms, of "[]"] aton_value_dotted [OF assms(1)]
    by (auto simp: ip4addr_aton_def ends_address_def option.map_comp comp_def)
next
  case False
  then show ?thesis
    using aton_loop_dotted [OF assms, of "[]"] dotted_value_None [OF False] by (auto simp: ip4addr_aton_def)
qed

theorem aton_dotted_witness:
  "ip4addr_aton ''192.168.4.1 x'' = Some 0x0104A8C0 \<and> ip4addr_aton ''10.256.1.1'' = None"
proof -
  have d: "dotted [192, 168, 4, 1] = ''192.168.4.1''" "dotted [10, 256, 1, 1] = ''10.256.1.1''"
    by code_simp+
  have h: "lwip_htonl 3232236545 = 0x0104A8C0" by code_simp
  have s: "isspace CHR '' ''" by (simp add: isspace_def)
  have "ip4addr_aton (dotted [192, 168, 4, 1] @ '' x'') = Some 0x0104A8C0"
    using aton_dotted [of "[192, 168, 4, 1]" "'' x''"] s h
    by (simp del: dotted.simps add: no_number_def ends_address_def dotted_value_simps is_digit_def chr_in_def)
  moreover have "ip4addr_aton (dotted [10, 256, 1, 1] @ []) = None"
    using aton_dotted [of "[10, 256, 1, 1]" "[]"]
    by (simp del: dotted.simps append_Nil2 add: no_number_def ends_address_def dotted_value_simps)
  ultimately show ?thesis unfolding d by simp
qed

lemma inv_digits_text: "rev (inv_digits b) = text_of_nat_base 10 (unat b)"
proof (induction b rule: inv_digits.induct)
  case (1 b)
  have u: "unat (b div 10) = unat b div 10" "unat (b mod 10) = unat b mod 10"
    by (simp_all add: unat_div_distrib unat_mod_distrib)
  have z: "b div 10 = 0 \<longleftrightarrow> unat b < 10" using u(1) by (metis div_eq_0_iff unat_eq_0 zero_neq_numeral)
  have d: "char_of (48 + unat b mod 10) = digit_char (unat b mod 10)" by (simp add: digit_char_def)
  show ?case
  proof (cases "b div 10 = 0")
    case True
    then show ?thesis
      using z u d by (subst inv_digits.simps, subst text_of_nat_base.simps) (simp add: Let_def)
  next
    case False
    then show ?thesis
      using 1 z u d by (subst inv_digits.simps, subst text_of_nat_base.simps) (simp add: Let_def)
  qed
qed

lemma inv_digits_length: "length (inv_digits b) \<le> 3"
proof -
  have "unat b < 2 ^ LENGTH(8)" by (rule unsigned_less)
  then have "length (text_of_nat_base 10 (unat b)) \<le> 3" by (intro text_of_nat_base_length) simp_all
  then show ?thesis by (metis inv_digits_text length_rev)
qed

lemma put_chars_eq:
  "int (length out) \<le> buflen \<Longrightarrow>
   put_chars buflen cs out = (if int (length out + length cs) \<le> buflen then Some (out @ cs) else None)"
  by (induction cs arbitrary: out) (auto simp: put_char_def)

fun octets_text :: "byte list \<Rightarrow> string" where
  "octets_text [] = []"
| "octets_text (b # bs) = text_of_nat_base 10 (unat b) @ CHR ''.'' # octets_text bs"

lemma put_octets_eq:
  "int (length out) \<le> buflen \<Longrightarrow>
   put_octets buflen bs out =
     Inr (if int (length out + length (octets_text bs)) \<le> buflen then Some (out @ octets_text bs) else None)"
proof (induction bs arbitrary: out)
  case (Cons b bs)
  have l: "\<not> 3 < length (inv_digits b)" using inv_digits_length [of b] by simp
  show ?case
  proof (cases "int (length out + length (text_of_nat_base 10 (unat b)) + 1) \<le> buflen")
    case True
    then show ?thesis
      using Cons l by (simp add: inv_digits_text put_chars_eq put_char_def)
  next
    case False
    then show ?thesis
      using Cons.prems l by (auto simp: inv_digits_text put_chars_eq put_char_def)
  qed
qed simp

lemma octets_text_dotted: "bs \<noteq> [] \<Longrightarrow> octets_text bs = dotted (map unat bs) @ ''.''"
proof (induction bs)
  case (Cons b bs)
  then show ?case by (cases bs) auto
qed simp

lemma text_nonempty: "text_of_nat_base 10 n \<noteq> []"
  using text_digits [of n] by auto

definition octets :: "u32 \<Rightarrow> nat list" where
  "octets addr = map unat (le_bytes addr)"

lemma octets_less: "\<forall>n\<in>set (octets addr). n < 256"
proof -
  have "unat (b :: byte) < 256" for b using unsigned_less [of b] by simp
  then show ?thesis by (auto simp: octets_def)
qed

lemma length_octets [simp]: "length (octets addr) = 4"
  by (simp add: octets_def le_bytes_def)

lemma htonl_octets: "lwip_htonl (of_nat (horner 256 0 (octets addr))) = addr"
proof -
  have s8: "of_nat (x + y * 256) = (of_nat x OR push_bit 8 (of_nat y) :: u32)" if "x < 256" for x y
    using or_shift [of x 8 y] that by simp
  have u: "unat (b :: byte) < 256" for b using unsigned_less [of b] by simp
  have "of_nat (horner 256 0 (octets addr)) =
      (ucast (ip4_addr4 addr) OR push_bit 8 (ucast (ip4_addr3 addr) OR push_bit 8 (ucast (ip4_addr2 addr) OR
        push_bit 8 (ucast (ip4_addr1 addr)))) :: u32)"
  proof -
    have h: "horner 256 0 (octets addr) = unat (ip4_addr4 addr) + (unat (ip4_addr3 addr) +
        (unat (ip4_addr2 addr) + unat (ip4_addr1 addr) * 256) * 256) * 256"
      by (simp add: octets_def le_bytes_def)
    show ?thesis unfolding h s8 [OF u] by (simp only: of_nat_unat)
  qed
  then show ?thesis
    by (simp only:, intro bit_word_eqI)
      (simp only: bit_lwip_htonl bit_or_iff bit_push_bit_iff bit_ucast_iff possible_bit_word ip4_addr1_def
        ip4_addr2_def ip4_addr3_def ip4_addr4_def bit_drop_bit_eq o_apply, auto)
qed

text \<open>
  C28. An address printed into the static buffer always succeeds, is its four octets in decimal joined
  by dots, and is read back as the same address; with a buffer of the caller the result is the same
  text when text and terminator fit, and failure otherwise. The array of three characters the digits
  go through never overflows.
\<close>

theorem ntoa_round_trip:
  "\<exists>t. ip4addr_ntoa addr = Inr (Some t) \<and> t = dotted (octets addr) \<and> length t \<le> 15 \<and>
     ip4addr_aton t = Some addr \<and>
     (\<forall>buflen. ip4addr_ntoa_r addr buflen = Inr (if int (length t) < buflen then Some t else None))"
proof -
  have v: "dotted_value (octets addr) = Some (horner 256 0 (octets addr))"
  proof -
    obtain a b c d where o: "octets addr = [a, b, c, d]"
      by (auto simp: octets_def le_bytes_def)
    with octets_less [of addr] show ?thesis by (simp add: dotted_value_def)
  qed
  have r: "ip4addr_ntoa_r addr buflen =
      Inr (if int (length (dotted (octets addr))) < buflen then Some (dotted (octets addr)) else None)" for buflen
  proof (cases "0 \<le> buflen")
    case True
    then have "put_octets buflen (le_bytes addr) [] =
        Inr (if int (length (octets_text (le_bytes addr))) \<le> buflen then Some (octets_text (le_bytes addr)) else None)"
      by (simp add: put_octets_eq)
    moreover have "octets_text (le_bytes addr) = dotted (octets addr) @ ''.''"
      unfolding octets_def by (rule octets_text_dotted) (simp add: le_bytes_def)
    ultimately show ?thesis by (simp add: ip4addr_ntoa_r_def)
  next
    case False
    obtain b bs where b: "le_bytes addr = b # bs" by (simp add: le_bytes_def)
    obtain c cs where c: "rev (inv_digits b) = c # cs"
      using text_nonempty [of "unat b"] by (metis inv_digits_text neq_Nil_conv)
    have "\<not> 3 < length (inv_digits b)" using inv_digits_length [of b] by simp
    with b c False show ?thesis by (simp add: ip4addr_ntoa_r_def put_char_def)
  qed
  have len: "length (dotted (octets addr)) \<le> 15"
  proof -
    have "length (text_of_nat_base 10 (unat (b :: byte))) \<le> 3" for b
      using inv_digits_length [of b] by (metis inv_digits_text length_rev)
    from this [of "ip4_addr1 addr"] this [of "ip4_addr2 addr"] this [of "ip4_addr3 addr"] this [of "ip4_addr4 addr"]
    show ?thesis by (simp add: octets_def le_bytes_def)
  qed
  have ne: "octets addr \<noteq> []" by (metis length_octets list.size(3) zero_neq_numeral)
  have "ip4addr_aton (dotted (octets addr)) = Some addr"
    using aton_dotted [OF ne, of "[]"] v htonl_octets [of addr] by (simp add: no_number_def ends_address_def)
  with r len show ?thesis by (auto simp: ip4addr_ntoa_def IP4ADDR_STRLEN_MAX_def)
qed

end
