(* ===== verification/Inet_Chksum.thy ===== *)
theory Inet_Chksum
  imports Net_Addr
begin

text \<open>
  \<open>components/lwip/core/inet_chksum.c\<close>: the Internet checksum. The file offers three versions of the
  summing routine; the second is the one that is compiled, the other two are models of what
  \<open>LWIP_CHKSUM_ALGORITHM\<close> can select. A buffer is its address, whose low bits decide the alignment,
  and its bytes; the processor is little-endian. A chain of packet buffers is the list of its
  payloads.
\<close>

section \<open>Words in memory\<close>

definition le16 :: "byte \<Rightarrow> byte \<Rightarrow> u16" where
  "le16 a b = ucast a OR push_bit 8 (ucast b)"

definition le32 :: "byte \<Rightarrow> byte \<Rightarrow> byte \<Rightarrow> byte \<Rightarrow> u32" where
  "le32 a b c d = ucast a OR push_bit 8 (ucast b) OR push_bit 16 (ucast c) OR push_bit 24 (ucast d)"

definition FOLD_U32T :: "u32 \<Rightarrow> u32" where
  "FOLD_U32T u = drop_bit 16 u + (u AND 0x0000ffff)"

definition SWAP_BYTES_IN_WORD :: "u32 \<Rightarrow> u32" where
  "SWAP_BYTES_IN_WORD w = push_bit 8 (w AND 0xff) OR drop_bit 8 (w AND 0xff00)"

definition set_low_byte :: "byte \<Rightarrow> u16 \<Rightarrow> u16" where
  \<comment> \<open>\<open>((u8_t * )&t)[0] = b\<close>\<close>
  "set_low_byte b t = (t AND 0xff00) OR ucast b"

definition set_high_byte :: "byte \<Rightarrow> u16 \<Rightarrow> u16" where
  \<comment> \<open>\<open>((u8_t * )&t)[1] = b\<close>\<close>
  "set_high_byte b t = (t AND 0xff) OR push_bit 8 (ucast b)"

section \<open>The summing routine\<close>

fun sum_octets :: "u32 \<Rightarrow> byte list \<Rightarrow> u32" where
  "sum_octets acc (a # b # bs) = sum_octets (acc + ucast (push_bit 8 (ucast a) OR ucast b :: u16)) bs"
| "sum_octets acc [a] = acc + ucast (push_bit 8 (ucast a) :: u16)"
| "sum_octets acc [] = acc"

definition lwip_standard_chksum_1 :: "byte list \<Rightarrow> u16" where
  "lwip_standard_chksum_1 bs =
     (let acc = sum_octets 0 bs;
          acc = drop_bit 16 acc + (acc AND 0x0000ffff);
          acc = (if acc AND 0xffff0000 \<noteq> 0 then drop_bit 16 acc + (acc AND 0x0000ffff) else acc)
      in lwip_htons (ucast acc))"

fun sum_words :: "u32 \<Rightarrow> byte list \<Rightarrow> u32 \<times> byte list" where
  \<comment> \<open>the sum and what is left, at most one byte\<close>
  "sum_words s (a # b # bs) = sum_words (s + ucast (le16 a b)) bs"
| "sum_words s bs = (s, bs)"

definition odd_start :: "u32 \<Rightarrow> byte list \<Rightarrow> u16 \<times> byte list" where
  \<comment> \<open>the first byte when the address is odd\<close>
  "odd_start addr bs =
     (case bs of
        b # bs' \<Rightarrow> if addr AND 1 \<noteq> 0 then (set_high_byte b 0, bs') else (0, bs)
      | [] \<Rightarrow> (0, bs))"

definition tail_byte :: "u16 \<Rightarrow> byte list \<Rightarrow> u16" where
  "tail_byte t rest = (case rest of [] \<Rightarrow> t | b # _ \<Rightarrow> set_low_byte b t)"

definition finish_sum :: "bool \<Rightarrow> u32 \<Rightarrow> u16 \<Rightarrow> u16" where
  \<comment> \<open>add the end bytes, fold twice, swap if the alignment was odd\<close>
  "finish_sum swap s t =
     (let s = FOLD_U32T (FOLD_U32T (s + ucast t))
      in ucast (if swap then SWAP_BYTES_IN_WORD s else s))"

definition lwip_standard_chksum :: "u32 \<Rightarrow> byte list \<Rightarrow> u16" where
  "lwip_standard_chksum addr bs =
     (let (t, bs) = odd_start addr bs;
          (s, rest) = sum_words 0 bs
      in finish_sum (addr AND 1 \<noteq> 0) s (tail_byte t rest))"

definition add_carry :: "u32 \<Rightarrow> u32 \<Rightarrow> u32" where
  "add_carry s w = (let tmp = s + w in if tmp < s then tmp + 1 else tmp)"

fun sum_longs :: "u32 \<Rightarrow> byte list \<Rightarrow> u32 \<times> byte list" where
  "sum_longs s (a # b # c # d # e # f # g # h # bs) =
     sum_longs (add_carry (add_carry s (le32 a b c d)) (le32 e f g h)) bs"
| "sum_longs s bs = (s, bs)"

definition align_long :: "u32 \<Rightarrow> byte list \<Rightarrow> u32 \<times> byte list" where
  \<comment> \<open>one word when the pointer is not aligned to four bytes\<close>
  "align_long ps bs =
     (case bs of
        a # b # bs' \<Rightarrow> if ps AND 3 \<noteq> 0 then (ucast (le16 a b), bs') else (0, bs)
      | _ \<Rightarrow> (0, bs))"

definition lwip_standard_chksum_3 :: "u32 \<Rightarrow> byte list \<Rightarrow> u16" where
  "lwip_standard_chksum_3 addr bs =
     (let ps = (if addr AND 1 \<noteq> 0 \<and> bs \<noteq> [] then addr + 1 else addr);
          (t, bs) = odd_start addr bs;
          (s, bs) = align_long ps bs;
          (s, bs) = sum_longs s bs;
          (s, rest) = sum_words (FOLD_U32T s) bs
      in finish_sum (addr AND 1 \<noteq> 0) s (tail_byte t rest))"

definition inet_chksum :: "u32 \<Rightarrow> byte list \<Rightarrow> u16" where
  "inet_chksum addr bs = NOT (lwip_standard_chksum addr bs)"

section \<open>Chains of packet buffers\<close>

record payload =
  pl_addr :: u32
  pl_bytes :: "byte list"

definition chain_step :: "u32 \<times> bool \<Rightarrow> u32 \<Rightarrow> byte list \<Rightarrow> nat \<Rightarrow> u32 \<times> bool" where
  \<comment> \<open>one buffer of the chain: these bytes of it are summed, this is the length of the whole buffer\<close>
  "chain_step st addr bs len =
     (let acc = FOLD_U32T (fst st + ucast (lwip_standard_chksum addr bs))
      in if len mod 2 \<noteq> 0 then (SWAP_BYTES_IN_WORD acc, \<not> snd st) else (acc, snd st))"

definition chain_end :: "u32 \<times> bool \<Rightarrow> u32" where
  "chain_end st = (if snd st then SWAP_BYTES_IN_WORD (fst st) else fst st)"

fun chain_loop :: "u32 \<times> bool \<Rightarrow> payload list \<Rightarrow> u32 \<times> bool" where
  "chain_loop st [] = st"
| "chain_loop st (q # qs) =
     chain_loop (chain_step st (pl_addr q) (pl_bytes q) (length (pl_bytes q))) qs"

definition inet_chksum_pbuf :: "payload list \<Rightarrow> u16" where
  "inet_chksum_pbuf p = ucast (NOT (chain_end (chain_loop (0, False) p) AND 0xffff))"

section \<open>With a pseudo header\<close>

definition pseudo_end :: "byte \<Rightarrow> u16 \<Rightarrow> u32 \<times> bool \<Rightarrow> u16" where
  "pseudo_end proto proto_len st =
     (let acc = chain_end st + ucast (lwip_htons (ucast proto)) + ucast (lwip_htons proto_len)
      in ucast (NOT (FOLD_U32T (FOLD_U32T acc) AND 0xffff)))"

definition inet_cksum_pseudo_base :: "payload list \<Rightarrow> byte \<Rightarrow> u16 \<Rightarrow> u32 \<Rightarrow> u16" where
  "inet_cksum_pseudo_base p proto proto_len acc = pseudo_end proto proto_len (chain_loop (acc, False) p)"

definition pseudo_addresses :: "u32 \<Rightarrow> u32 \<Rightarrow> u32" where
  "pseudo_addresses src dest =
     (let acc = (src AND 0xffff) + (drop_bit 16 src AND 0xffff) + (dest AND 0xffff) +
                (drop_bit 16 dest AND 0xffff)
      in FOLD_U32T (FOLD_U32T acc))"

definition inet_chksum_pseudo :: "payload list \<Rightarrow> byte \<Rightarrow> u16 \<Rightarrow> u32 \<Rightarrow> u32 \<Rightarrow> u16" where
  "inet_chksum_pseudo p proto proto_len src dest =
     inet_cksum_pseudo_base p proto proto_len (pseudo_addresses src dest)"

definition ip_chksum_pseudo :: "payload list \<Rightarrow> byte \<Rightarrow> u16 \<Rightarrow> u32 \<Rightarrow> u32 \<Rightarrow> u16" where
  "ip_chksum_pseudo p proto proto_len src dest = inet_chksum_pseudo p proto proto_len src dest"

fun partial_loop :: "u32 \<times> bool \<Rightarrow> u16 \<Rightarrow> payload list \<Rightarrow> (u32 \<times> bool) result" where
  "partial_loop st chksum_len [] = Inr st"
| "partial_loop st chksum_len (q # qs) =
     (if chksum_len = 0 then Inr st
      else let len = length (pl_bytes q);
               chklen = (if chksum_len < of_nat len then chksum_len else of_nat len);
               left = chksum_len - chklen
           in if \<not> left < 0x7fff then Inl AssertFail
              else partial_loop (chain_step st (pl_addr q) (take (unat chklen) (pl_bytes q)) len) left qs)"

definition inet_chksum_pseudo_partial ::
  "payload list \<Rightarrow> byte \<Rightarrow> u16 \<Rightarrow> u16 \<Rightarrow> u32 \<Rightarrow> u32 \<Rightarrow> u16 result" where
  "inet_chksum_pseudo_partial p proto proto_len chksum_len src dest =
     bindE (partial_loop (pseudo_addresses src dest, False) chksum_len p)
       (\<lambda>st. Inr (pseudo_end proto proto_len st))"

definition ip_chksum_pseudo_partial ::
  "payload list \<Rightarrow> byte \<Rightarrow> u16 \<Rightarrow> u16 \<Rightarrow> u32 \<Rightarrow> u32 \<Rightarrow> u16 result" where
  "ip_chksum_pseudo_partial p proto proto_len chksum_len src dest =
     inet_chksum_pseudo_partial p proto proto_len chksum_len src dest"

end
