(* ===== verification/Inet_Chksum_Sums.thy ===== *)
theory Inet_Chksum_Sums
  imports Inet_Chksum
begin

text \<open>
  The three versions of the summing routine of \<open>Inet_Chksum\<close> compute the ones' complement sum
  \<open>ones_sum\<close> of the bytes. Sums are natural numbers modulo 65535 with \<open>norm16\<close> as the representative
  the routines return: zero only for zero.
\<close>

section \<open>Sums of bytes modulo 65535\<close>

fun wsum :: "nat \<Rightarrow> nat \<Rightarrow> byte list \<Rightarrow> nat" where
  \<comment> \<open>the bytes with two weights in turn\<close>
  "wsum v w [] = 0"
| "wsum v w (b # bs) = v * unat b + wsum w v bs"

definition norm16 :: "nat \<Rightarrow> nat" where
  \<comment> \<open>the value of a ones' complement sum: zero only for zero\<close>
  "norm16 n = (if n = 0 then 0 else if n mod 65535 = 0 then 65535 else n mod 65535)"

definition ones_sum :: "byte list \<Rightarrow> u16" where
  \<comment> \<open>the bytes, paired to little-endian words, added in ones' complement\<close>
  "ones_sum bs = of_nat (norm16 (wsum 1 256 bs))"

lemma norm16_eq_iff: "norm16 a = norm16 b \<longleftrightarrow> (a = 0 \<longleftrightarrow> b = 0) \<and> a mod 65535 = b mod 65535"
  using mod_less_divisor [of 65535 a] mod_less_divisor [of 65535 b]
  by (auto simp: norm16_def simp del: mod_less_divisor)

lemma norm16_le: "norm16 n \<le> 65535"
  using mod_less_divisor [of 65535 n] by (auto simp: norm16_def simp del: mod_less_divisor)

lemma norm16_small: "n \<le> 65535 \<Longrightarrow> norm16 n = n"
  by (cases "n = 65535") (auto simp: norm16_def)

lemma norm16_norm16 [simp]: "norm16 (norm16 n) = norm16 n"
  by (rule norm16_small) (rule norm16_le)

lemma norm16_0_iff [simp]: "norm16 n = 0 \<longleftrightarrow> n = 0"
  by (auto simp: norm16_def)

lemma norm16_mod: "norm16 n mod 65535 = n mod 65535"
  by (auto simp: norm16_def)

lemma norm16_add: "norm16 (norm16 a + b) = norm16 (a + b)" "norm16 (a + norm16 b) = norm16 (a + b)"
  unfolding norm16_eq_iff by (auto intro: mod_add_cong simp: norm16_mod)

lemma norm16_mult: "norm16 (k * norm16 a) = norm16 (k * a)"
  unfolding norm16_eq_iff by (auto intro: mod_mult_cong simp: norm16_mod)

lemma norm16_split: "norm16 (n div 65536 + n mod 65536) = norm16 n"
proof -
  have n: "n = (n div 65536 + n mod 65536) + 65535 * (n div 65536)"
    using div_mult_mod_eq [of n 65536] by linarith
  then have "n mod 65535 = (n div 65536 + n mod 65536) mod 65535" by (metis mod_mult_self2)
  then show ?thesis unfolding norm16_eq_iff using n by auto
qed

lemma norm16_256: "norm16 (256 * (256 * n)) = norm16 n"
proof -
  have "256 * (256 * n) = n + 65535 * n" by simp
  then have "256 * (256 * n) mod 65535 = n mod 65535" by (metis mod_mult_self2)
  then show ?thesis unfolding norm16_eq_iff by simp
qed

lemma wsum_mult: "k * wsum v w bs = wsum (k * v) (k * w) bs"
  by (induction bs arbitrary: v w) (simp_all add: algebra_simps)

lemma norm16_wsum_256: "norm16 (256 * wsum 256 1 bs) = norm16 (wsum 1 256 bs)"
  "norm16 (256 * wsum 1 256 bs) = norm16 (wsum 256 1 bs)"
proof -
  show a: "norm16 (256 * wsum 1 256 bs) = norm16 (wsum 256 1 bs)" for bs
  proof (induction bs rule: induct_list012)
    case (3 a b bs)
    have "norm16 (256 * wsum 1 256 (a # b # bs)) = norm16 (256 * unat a + 256 * (256 * unat b) + 256 * wsum 1 256 bs)"
      by (simp add: algebra_simps)
    also have "\<dots> = norm16 (256 * unat a + unat b + wsum 256 1 bs)"
      by (metis (no_types, opaque_lifting) norm16_256 norm16_add add.assoc "3.IH"(1))
    finally show ?case by (simp add: algebra_simps)
  qed simp_all
  show "norm16 (256 * wsum 256 1 bs) = norm16 (wsum 1 256 bs)"
    by (metis a norm16_256 norm16_mult)
qed

lemma wsum_append: "even (length xs) \<Longrightarrow> wsum v w (xs @ ys) = wsum v w xs + wsum v w ys"
  "odd (length xs) \<Longrightarrow> wsum v w (xs @ ys) = wsum v w xs + wsum w v ys"
  by (induction xs arbitrary: v w) auto

lemma byte_le: "unat (b :: byte) \<le> 255"
proof -
  have "unat b < 2 ^ LENGTH(8)" by (rule unsigned_less)
  then show ?thesis by simp
qed

lemma wsum_bound: "wsum 1 256 bs \<le> 65535 * ((length bs + 1) div 2)" "wsum 256 1 bs \<le> 65535 * ((length bs + 1) div 2)"
proof -
  show "wsum 1 256 bs \<le> 65535 * ((length bs + 1) div 2)"
  proof (induction bs rule: induct_list012)
    case (3 a b bs)
    then show ?case using byte_le [of a] byte_le [of b] by simp
  next
    case (2 a)
    then show ?case using byte_le [of a] by simp
  qed simp
  show "wsum 256 1 bs \<le> 65535 * ((length bs + 1) div 2)"
  proof (induction bs rule: induct_list012)
    case (3 a b bs)
    then show ?case using byte_le [of a] byte_le [of b] by simp
  next
    case (2 a)
    then show ?case using byte_le [of a] by simp
  qed simp
qed

section \<open>The word operations\<close>

lemma unat_or_shift:
  fixes a b :: "'a::len word"
  assumes "unat a < 2 ^ k" "unat b * 2 ^ k + unat a < 2 ^ LENGTH('a)"
  shows "unat (a OR push_bit k b) = unat a + unat b * 2 ^ k"
proof -
  have k: "bit a n \<Longrightarrow> n < k" for n
  proof -
    assume "bit a n"
    then have "bit (unat a) n" by (simp add: bit_unsigned_iff)
    moreover have "unat a = take_bit k (unat a)" using assms(1) by (simp add: take_bit_nat_eq_self)
    ultimately show "n < k" by (metis bit_take_bit_iff)
  qed
  have "a AND push_bit k b = 0"
    by (rule bit_word_eqI) (auto simp: bit_and_iff bit_push_bit_iff dest: k)
  then have "a OR push_bit k b = a + push_bit k b" by (simp add: disjunctive_add_eq_or)
  also have "\<dots> = of_nat (unat a + unat b * 2 ^ k)" by (simp add: push_bit_eq_mult)
  finally have e: "a OR push_bit k b = of_nat (unat a + unat b * 2 ^ k)" .
  have "take_bit LENGTH('a) (unat a + unat b * 2 ^ k) = unat a + unat b * 2 ^ k"
    using assms(2) by (intro take_bit_nat_eq_self) simp
  then show ?thesis unfolding e unsigned_of_nat by simp
qed

lemma unat_le16: "unat (le16 a b) = unat a + 256 * unat b"
  unfolding le16_def using unat_or_shift [of "ucast a :: u16" 8 "ucast b"] byte_le [of a] byte_le [of b]
  by (simp add: unsigned_ucast_eq take_bit_nat_eq_self)

lemma unat_le32: "unat (le32 a b c d) = unat a + 256 * unat b + 65536 * unat c + 16777216 * unat d"
proof -
  note l = byte_le [of a] byte_le [of b] byte_le [of c] byte_le [of d]
  have e: "unat (ucast x :: u32) = unat x" for x :: byte
    using byte_le [of x] by (simp add: unsigned_ucast_eq take_bit_nat_eq_self)
  have 1: "unat (ucast a OR push_bit 8 (ucast b) :: u32) = unat a + 256 * unat b"
    using unat_or_shift [of "ucast a :: u32" 8 "ucast b"] l by (simp add: e)
  have 2: "unat ((ucast a OR push_bit 8 (ucast b)) OR push_bit 16 (ucast c) :: u32) = unat a + 256 * unat b + 65536 * unat c"
    using unat_or_shift [of "ucast a OR push_bit 8 (ucast b) :: u32" 16 "ucast c"] l unfolding e 1 by simp
  have "unat (((ucast a OR push_bit 8 (ucast b)) OR push_bit 16 (ucast c)) OR push_bit 24 (ucast d) :: u32) =
      unat a + 256 * unat b + 65536 * unat c + 16777216 * unat d"
    using unat_or_shift [of "(ucast a OR push_bit 8 (ucast b)) OR push_bit 16 (ucast c) :: u32" 24 "ucast d"] l
    unfolding e 2 by simp
  then show ?thesis unfolding le32_def by (simp only: or.assoc)
qed

lemma unat_plus: "unat x + unat y < 2 ^ 32 \<Longrightarrow> unat (x + y) = unat x + unat y" for x y :: u32
  by (simp add: unat_plus_simple word_le_nat_alt unat_word_ariths)

lemma unat_ucast16: "unat (ucast w :: u32) = unat w" for w :: u16
proof -
  have "unat w < 2 ^ LENGTH(16)" by (rule unsigned_less)
  then show ?thesis by (simp add: unsigned_ucast_eq take_bit_nat_eq_self)
qed

lemma unat_low16: "unat (u AND 0xffff :: u32) = unat u mod 65536"
proof -
  have "(0xffff :: u32) = mask 16" by (simp add: mask_eq_exp_minus_1)
  then show ?thesis by (simp only: unat_and_mask) simp
qed

lemma unat_high16: "unat (drop_bit 16 u :: u32) = unat u div 65536"
  by (simp only: unat_drop_bit_eq) (simp only: drop_bit_eq_div, simp)

lemma unat_fold: "unat (FOLD_U32T u) = unat u div 65536 + unat u mod 65536"
proof -
  have "unat u < 2 ^ LENGTH(32)" by (rule unsigned_less)
  then have "unat u div 65536 < 65536" by (simp add: div_less_iff_less_mult)
  moreover have "unat u mod 65536 < 65536" by simp
  ultimately show ?thesis unfolding FOLD_U32T_def
    by (subst unat_plus) (simp_all add: unat_low16 unat_high16)
qed

lemma norm16_fold: "norm16 (unat (FOLD_U32T u)) = norm16 (unat u)"
  by (simp only: unat_fold norm16_split)

lemma fold_le: "unat (FOLD_U32T u) \<le> 131070" "unat u \<le> 131070 \<Longrightarrow> unat (FOLD_U32T u) \<le> 65535"
proof -
  have "unat u < 2 ^ LENGTH(32)" by (rule unsigned_less)
  then have "unat u div 65536 < 65536" by (simp add: div_less_iff_less_mult)
  moreover have "unat u mod 65536 < 65536" by simp
  ultimately show "unat (FOLD_U32T u) \<le> 131070" by (simp add: unat_fold)
  assume u: "unat u \<le> 131070"
  with u show "unat (FOLD_U32T u) \<le> 65535"
    by (cases "unat u < 65536") (simp_all add: unat_fold mod_if div_if, linarith)
qed

lemma unat_fold_fold: "unat (FOLD_U32T (FOLD_U32T u)) = norm16 (unat u)"
  using fold_le(2) [OF fold_le(1)] norm16_small by (metis norm16_fold)

lemma unat_swap:
  assumes "unat u \<le> 65535"
  shows "unat (SWAP_BYTES_IN_WORD u) = norm16 (256 * unat u)"
proof -
  have lo: "unat (u AND 0xff) = unat u mod 256"
  proof -
    have "(0xff :: u32) = mask 8" by (simp add: mask_eq_exp_minus_1)
    then show ?thesis by (simp only: unat_and_mask) simp
  qed
  have d: "drop_bit 8 (u AND 0xff00) = drop_bit 8 u AND mask 8"
    by (rule bit_word_eqI) (simp only: bit_drop_bit_eq o_apply bit_and_iff bit_masks bit_mask_iff possible_bit_word, auto)
  have hi: "unat (drop_bit 8 (u AND 0xff00)) = unat u div 256"
  proof -
    have "unat (drop_bit 8 (u AND 0xff00)) = unat (drop_bit 8 u) mod 2 ^ 8" by (simp only: d unat_and_mask)
    also have "unat (drop_bit 8 u) = unat u div 2 ^ 8" by (simp only: unat_drop_bit_eq) (simp only: drop_bit_eq_div)
    finally show ?thesis using assms by (simp add: div_less_iff_less_mult)
  qed
  have "unat (drop_bit 8 (u AND 0xff00) OR push_bit 8 (u AND 0xff)) = unat u div 256 + unat u mod 256 * 256"
    using unat_or_shift [of "drop_bit 8 (u AND 0xff00)" 8 "u AND 0xff"] assms
    unfolding lo hi by (simp add: div_less_iff_less_mult)
  then have e: "unat (SWAP_BYTES_IN_WORD u) = unat u div 256 + 256 * (unat u mod 256)"
    unfolding SWAP_BYTES_IN_WORD_def by (simp add: or.commute)
  have "unat u = 256 * (unat u div 256) + unat u mod 256" by simp
  then have "256 * unat u = 256 * (256 * (unat u div 256)) + 256 * (unat u mod 256)"
    by (metis distrib_left)
  then have "norm16 (256 * unat u) = norm16 (unat u div 256 + 256 * (unat u mod 256))"
    by (metis norm16_256 norm16_add(1))
  moreover have "unat u div 256 + 256 * (unat u mod 256) \<le> 65535"
  proof -
    have "unat u div 256 < 256" using assms by (simp add: div_less_iff_less_mult)
    moreover have "unat u mod 256 \<le> 255" using mod_less_divisor [of 256 "unat u"] by linarith
    ultimately show ?thesis by linarith
  qed
  ultimately show ?thesis using e norm16_small by metis
qed


section \<open>The summing routines\<close>

definition sum_limit :: "byte list \<Rightarrow> bool" where
  \<comment> \<open>the documented limit\<close>
  "sum_limit bs \<longleftrightarrow> length bs \<le> 0x20000"

lemma sum_words_value:
  "unat s + wsum 1 256 bs < 2 ^ 32 \<Longrightarrow>
   \<exists>s' rest. sum_words s bs = (s', rest) \<and> unat s' + wsum 1 256 rest = unat s + wsum 1 256 bs \<and> length rest \<le> 1"
proof (induction s bs rule: sum_words.induct)
  case (1 s a b bs)
  have u: "unat (s + ucast (le16 a b)) = unat s + (unat a + 256 * unat b)"
    using 1(2) by (subst unat_plus) (simp_all add: unat_ucast16 unat_le16)
  show ?case using 1(1) 1(2) by (simp add: u algebra_simps)
qed auto

lemma unat_set_high: "unat (set_high_byte b 0) = 256 * unat b"
proof -
  have "unat (0 OR push_bit 8 (ucast b) :: u16) = 256 * unat b"
    using unat_or_shift [of "0 :: u16" 8 "ucast b"] byte_le [of b]
    by (simp add: unsigned_ucast_eq take_bit_nat_eq_self)
  then show ?thesis by (simp add: set_high_byte_def)
qed

lemma unat_set_low: "unat (set_low_byte a (set_high_byte b 0)) = unat a + 256 * unat b" "unat (set_low_byte a 0) = unat a"
proof -
  have z: "set_high_byte b 0 AND 0xff00 = set_high_byte b 0"
    unfolding set_high_byte_def
    by (rule bit_word_eqI) (simp only: bit_and_iff bit_or_iff bit_push_bit_iff bit_masks bit_0_eq possible_bit_word bit_ucast_iff, auto)
  show "unat (set_low_byte a (set_high_byte b 0)) = unat a + 256 * unat b"
    using unat_le16 [of a b] unfolding set_low_byte_def z
    by (simp add: set_high_byte_def le16_def or.commute)
  show "unat (set_low_byte a 0) = unat a"
    using byte_le [of a] by (simp add: set_low_byte_def unsigned_ucast_eq take_bit_nat_eq_self)
qed

lemma finish_sum_value:
  assumes "unat s + unat t < 2 ^ 32"
  shows "finish_sum swap s t = of_nat (norm16 ((if swap then 256 else 1) * (unat s + unat t)))"
proof -
  let ?f = "FOLD_U32T (FOLD_U32T (s + ucast t))"
  have f: "unat ?f = norm16 (unat s + unat t)"
    using assms by (simp add: unat_fold_fold unat_plus unat_ucast16)
  have "unat (SWAP_BYTES_IN_WORD ?f) = norm16 (256 * (unat s + unat t))"
    by (subst unat_swap) (simp_all only: f norm16_le norm16_mult)
  then have u: "unat (if swap then SWAP_BYTES_IN_WORD ?f else ?f) =
      norm16 ((if swap then 256 else 1) * (unat s + unat t))"
    using f by simp
  have "(ucast w :: u16) = of_nat (unat w)" for w :: u32 by simp
  then show ?thesis by (simp only: finish_sum_def Let_def u)
qed

lemma tail_value:
  assumes "length rest \<le> 1"
  shows "unat (tail_byte 0 rest) = wsum 1 256 rest"
    "unat (tail_byte (set_high_byte b 0) rest) = 256 * unat b + wsum 1 256 rest"
proof -
  consider "rest = []" | a where "rest = [a]" using assms by (cases rest) auto
  note c = this
  from c show "unat (tail_byte 0 rest) = wsum 1 256 rest"
    by cases (simp_all add: tail_byte_def unat_set_low)
  from c show "unat (tail_byte (set_high_byte b 0) rest) = 256 * unat b + wsum 1 256 rest"
    by cases (simp_all add: tail_byte_def unat_set_low unat_set_high)
qed

lemma standard_chksum_2: 
  assumes "sum_limit bs"
  shows "lwip_standard_chksum addr bs = ones_sum bs"
proof (cases "addr AND 1 \<noteq> 0 \<and> bs \<noteq> []")
  case True
  then obtain b bs' where b: "bs = b # bs'" by (cases bs) auto
  have bnd: "wsum 1 256 bs' + 256 * unat b < 2 ^ 32"
    using wsum_bound(2) [of bs] assms by (simp add: b sum_limit_def)
  then obtain s rest where s: "sum_words 0 bs' = (s, rest)" "unat s + wsum 1 256 rest = wsum 1 256 bs'" "length rest \<le> 1"
    using sum_words_value [of 0 bs'] by auto
  have "lwip_standard_chksum addr bs = finish_sum True s (tail_byte (set_high_byte b 0) rest)"
    using True b s by (simp add: lwip_standard_chksum_def odd_start_def)
  also have "\<dots> = of_nat (norm16 (256 * wsum 256 1 bs))"
  proof -
    have e: "unat s + unat (tail_byte (set_high_byte b 0) rest) = wsum 256 1 bs"
      using s(2) by (simp add: tail_value [OF s(3)] b)
    moreover have "wsum 256 1 bs < 2 ^ 32" using bnd by (simp add: b add.commute mult.commute)
    ultimately show ?thesis by (subst finish_sum_value) simp_all
  qed
  also have "\<dots> = ones_sum bs" by (simp only: norm16_wsum_256 ones_sum_def)
  finally show ?thesis .
next
  case False
  have bnd: "wsum 1 256 bs < 2 ^ 32"
    using wsum_bound(1) [of bs] assms by (simp add: sum_limit_def)
  then obtain s rest where s: "sum_words 0 bs = (s, rest)" "unat s + wsum 1 256 rest = wsum 1 256 bs" "length rest \<le> 1"
    using sum_words_value [of 0 bs] by auto
  show ?thesis
  proof (cases "bs = []")
    case True
    then show ?thesis
      by (simp add: lwip_standard_chksum_def odd_start_def tail_byte_def finish_sum_value ones_sum_def norm16_def)
  next
    case F: False
    then have "lwip_standard_chksum addr bs = finish_sum False s (tail_byte 0 rest)"
      using False s by (cases bs) (simp_all add: lwip_standard_chksum_def odd_start_def)
    also have "\<dots> = ones_sum bs"
      using s(2) bnd by (subst finish_sum_value) (simp_all add: tail_value [OF s(3)] ones_sum_def)
    finally show ?thesis .
  qed
qed

lemma sum_octets_value:
  "unat acc + wsum 256 1 bs < 2 ^ 32 \<Longrightarrow> unat (sum_octets acc bs) = unat acc + wsum 256 1 bs"
proof (induction acc bs rule: sum_octets.induct)
  case (1 acc a b bs)
  have w: "push_bit 8 (ucast a) OR ucast b = le16 b a" by (simp only: le16_def or.commute)
  have u: "unat (acc + ucast (push_bit 8 (ucast a) OR ucast b :: u16)) = unat acc + (unat b + 256 * unat a)"
    using 1(2) unfolding w by (subst unat_plus) (simp_all add: unat_ucast16 unat_le16)
  show ?case using 1(1) 1(2) by (simp only: sum_octets.simps u) (simp add: algebra_simps)
next
  case (2 acc a)
  have "push_bit 8 (ucast a) = (set_high_byte a 0)" by (simp add: set_high_byte_def)
  then have "unat (ucast (push_bit 8 (ucast a) :: u16) :: u32) = 256 * unat a"
    by (simp only: unat_ucast16 unat_set_high)
  then show ?case using 2 by (simp only: sum_octets.simps) (subst unat_plus, simp_all)
qed simp

lemma htons_swap: "lwip_htons (ucast u) = ucast (SWAP_BYTES_IN_WORD u)"
  by (rule bit_word_eqI)
    (simp only: bit_lwip_htons SWAP_BYTES_IN_WORD_def bit_ucast_iff bit_or_iff bit_and_iff bit_push_bit_iff bit_drop_bit_eq
      o_apply bit_mask_8 bit_masks possible_bit_word, auto simp: add.commute)

lemma standard_chksum_1:
  assumes "sum_limit bs"
  shows "lwip_standard_chksum_1 bs = ones_sum bs"
proof -
  have bnd: "wsum 256 1 bs < 2 ^ 32"
    using wsum_bound(2) [of bs] assms by (simp add: sum_limit_def)
  let ?a = "sum_octets 0 bs"
  have a: "unat ?a = wsum 256 1 bs" using sum_octets_value [of 0 bs] bnd by simp
  have m: "FOLD_U32T u = u" if "u AND 0xffff0000 = 0" for u
  proof -
    have n: "(0xffff0000 :: u32) = NOT (mask 16)" by (simp add: mask_eq_exp_minus_1)
    have k: "(0xffff :: u32) = mask 16" by (simp add: mask_eq_exp_minus_1)
    have b: "bit u i \<Longrightarrow> i < 16" for i
      using that unfolding n bit_eq_iff
      by (simp only: bit_and_iff bit_not_iff bit_mask_iff possible_bit_word bit_0_eq bot_apply bot_bool_def)
        (metis word_bit_less linorder_not_less)
    have "drop_bit 16 u = 0"
      by (rule bit_word_eqI) (simp only: bit_drop_bit_eq o_apply bit_0_eq, auto dest: b)
    moreover have "u AND mask 16 = u"
      by (rule bit_word_eqI) (simp only: bit_and_iff bit_mask_iff possible_bit_word, auto dest: b)
    ultimately show ?thesis unfolding FOLD_U32T_def k by simp
  qed
  have "lwip_standard_chksum_1 bs = ucast (SWAP_BYTES_IN_WORD (FOLD_U32T (FOLD_U32T ?a)))"
    unfolding lwip_standard_chksum_1_def Let_def FOLD_U32T_def [symmetric] htons_swap using m by simp
  also have "\<dots> = of_nat (norm16 (256 * wsum 256 1 bs))"
  proof -
    have "unat (SWAP_BYTES_IN_WORD (FOLD_U32T (FOLD_U32T ?a))) = norm16 (256 * wsum 256 1 bs)"
      by (subst unat_swap) (simp_all only: unat_fold_fold norm16_le norm16_mult a)
    moreover have "(ucast w :: u16) = of_nat (unat w)" for w :: u32 by simp
    ultimately show ?thesis by metis
  qed
  finally show ?thesis by (simp only: norm16_wsum_256 ones_sum_def)
qed

lemma unat_add_carry: "norm16 (unat (add_carry s w)) = norm16 (unat s + unat w)"
proof -
  have l: "unat s < 4294967296" "unat w < 4294967296"
    using unsigned_less [of s, where ?'a = nat] unsigned_less [of w, where ?'a = nat] by simp_all
  show ?thesis
  proof (cases "unat s + unat w < 4294967296")
    case True
    then have u: "unat (s + w) = unat s + unat w" by (simp add: unat_plus)
    then have "\<not> s + w < s" by (simp add: word_less_nat_alt)
    with u show ?thesis by (simp add: add_carry_def)
  next
    case False
    with l have u: "unat (s + w) = unat s + unat w - 4294967296"
      by (simp add: unat_word_ariths mod_if)
    with l False have c: "s + w < s" by (simp add: word_less_nat_alt)
    have u1: "unat (s + w + 1) = unat s + unat w - 4294967295"
      using u l False unat_plus [of "s + w" 1] by simp
    have e: "unat s + unat w = (unat s + unat w - 4294967295) + 65535 * 65537" using False by simp
    then have "(unat s + unat w) mod 65535 = (unat s + unat w - 4294967295) mod 65535"
      by (metis mod_mult_self2)
    then have "norm16 (unat s + unat w - 4294967295) = norm16 (unat s + unat w)"
      unfolding norm16_eq_iff using False l by auto
    then show ?thesis using c u1 by (simp add: add_carry_def Let_def)
  qed
qed

lemma norm16_long: "norm16 (n + unat (le32 a b c d)) = norm16 (n + (unat a + 256 * unat b + unat c + 256 * unat d))"
proof -
  have e: "n + unat (le32 a b c d) =
      (n + (unat a + 256 * unat b + unat c + 256 * unat d)) + 65535 * (unat c + 256 * unat d)"
    by (simp add: unat_le32)
  then have "(n + unat (le32 a b c d)) mod 65535 = (n + (unat a + 256 * unat b + unat c + 256 * unat d)) mod 65535"
    by (metis mod_mult_self2)
  then show ?thesis unfolding norm16_eq_iff by (auto simp: unat_le32)
qed

lemma sum_longs_value:
  "\<exists>s' rest. sum_longs s bs = (s', rest) \<and> norm16 (unat s' + wsum 1 256 rest) = norm16 (unat s + wsum 1 256 bs) \<and>
     length rest \<le> 7"
proof (induction s bs rule: sum_longs.induct)
  case (1 s a b c d e f g h bs)
  let ?s = "add_carry (add_carry s (le32 a b c d)) (le32 e f g h)"
  have "norm16 (unat ?s) = norm16 (unat s + unat (le32 a b c d) + unat (le32 e f g h))"
    by (simp only: unat_add_carry norm16_add) (metis norm16_add(1) unat_add_carry)
  also have "\<dots> = norm16 ((unat a + 256 * unat b + unat c + 256 * unat d) + unat s + unat (le32 e f g h))"
    using norm16_long [of "unat s + unat (le32 e f g h)" a b c d] by (simp only: ac_simps)
  also have "\<dots> = norm16 ((unat a + 256 * unat b + unat c + 256 * unat d) + unat s +
      (unat e + 256 * unat f + unat g + 256 * unat h))"
    by (rule norm16_long)
  finally have n: "norm16 (unat ?s + wsum 1 256 bs) = norm16 ((unat a + 256 * unat b + unat c + 256 * unat d) +
      unat s + (unat e + 256 * unat f + unat g + 256 * unat h) + wsum 1 256 bs)"
    by (subst norm16_add(1) [symmetric]) (simp only: norm16_add(1))
  have w: "(unat a + 256 * unat b + unat c + 256 * unat d) + unat s + (unat e + 256 * unat f + unat g + 256 * unat h) +
      wsum 1 256 bs = unat s + wsum 1 256 (a # b # c # d # e # f # g # h # bs)"
    by simp
  show ?case using 1 n unfolding w by (simp only: sum_longs.simps)
qed auto

lemma finish_sum_norm:
  assumes "unat s + unat t < 2 ^ 32" "norm16 (unat s + unat t) = norm16 n"
  shows "finish_sum swap s t = of_nat (norm16 ((if swap then 256 else 1) * n))"
  using finish_sum_value [OF assms(1)] assms(2) norm16_mult by metis

lemma align_long_value:
  "\<exists>s rest. align_long ps bs = (s, rest) \<and> unat s + wsum 1 256 rest = wsum 1 256 bs"
proof -
  consider "bs = []" | a where "bs = [a]" | a b bs' where "bs = a # b # bs'"
    by (cases bs rule: remdups_adj.cases) auto
  then show ?thesis
    by cases (auto simp: align_long_def unat_ucast16 unat_le16)
qed

lemma standard_chksum_3: "lwip_standard_chksum_3 addr bs = ones_sum bs"
proof -
  define ps where "ps = (if addr AND 1 \<noteq> 0 \<and> bs \<noteq> [] then addr + 1 else addr)"
  obtain t bs1 where o: "odd_start addr bs = (t, bs1)" by (cases "odd_start addr bs")
  obtain s1 bs2 where a: "align_long ps bs1 = (s1, bs2)" "unat s1 + wsum 1 256 bs2 = wsum 1 256 bs1"
    using align_long_value by blast
  obtain s2 bs3 where l: "sum_longs s1 bs2 = (s2, bs3)"
    "norm16 (unat s2 + wsum 1 256 bs3) = norm16 (unat s1 + wsum 1 256 bs2)" "length bs3 \<le> 7"
    using sum_longs_value by blast
  have w3: "wsum 1 256 bs3 \<le> 65535 * 4" using wsum_bound(1) [of bs3] l(3) by (rule_tac order_trans) auto
  have "unat (FOLD_U32T s2) + wsum 1 256 bs3 < 2 ^ 32" using fold_le(1) [of s2] w3 by simp
  then obtain s3 rest where r: "sum_words (FOLD_U32T s2) bs3 = (s3, rest)"
    "unat s3 + wsum 1 256 rest = unat (FOLD_U32T s2) + wsum 1 256 bs3" "length rest \<le> 1"
    using sum_words_value by blast
  have e: "lwip_standard_chksum_3 addr bs = finish_sum (addr AND 1 \<noteq> 0) s3 (tail_byte t rest)"
    unfolding lwip_standard_chksum_3_def Let_def ps_def [symmetric] o a(1) l(1) r(1) split ..
  have n: "norm16 (unat s3 + wsum 1 256 rest) = norm16 (wsum 1 256 bs1)"
    unfolding r(2) a(2) [symmetric] l(2) [symmetric] by (metis norm16_add(1) norm16_fold)
  have b: "unat s3 + wsum 1 256 rest < 2 ^ 31" using r(2) fold_le(1) [of s2] w3 by simp
  show ?thesis
  proof (cases "addr AND 1 \<noteq> 0 \<and> bs \<noteq> []")
    case True
    then obtain b where bs: "bs = b # bs1" "t = set_high_byte b 0" using o by (cases bs) (auto simp: odd_start_def)
    have v: "unat s3 + unat (tail_byte t rest) = 256 * unat b + (unat s3 + wsum 1 256 rest)"
      by (simp add: bs(2) tail_value(2) [OF r(3)])
    have "norm16 (unat s3 + unat (tail_byte t rest)) = norm16 (wsum 256 1 bs)"
      unfolding v using n by (metis bs(1) norm16_add(2) wsum.simps(2))
    moreover have "unat s3 + unat (tail_byte t rest) < 2 ^ 32" unfolding v using b byte_le [of b] by simp
    ultimately have "lwip_standard_chksum_3 addr bs = of_nat (norm16 (256 * wsum 256 1 bs))"
      using True finish_sum_norm [of s3 "tail_byte t rest" _ True] unfolding e by simp
    then show ?thesis by (simp only: norm16_wsum_256 ones_sum_def)
  next
    case False
    then have bs: "bs1 = bs" "t = 0" using o by (cases bs; auto simp: odd_start_def)+
    have v: "unat s3 + unat (tail_byte t rest) = unat s3 + wsum 1 256 rest"
      by (simp add: bs(2) tail_value(1) [OF r(3)])
    have f: "unat s3 + unat (tail_byte t rest) < 2 ^ 32" "norm16 (unat s3 + unat (tail_byte t rest)) = norm16 (wsum 1 256 bs)"
      unfolding v using b n bs(1) by simp_all
    show ?thesis
    proof (cases "bs = []")
      case True
      then have "norm16 (wsum 1 256 bs) = 0" by simp
      with finish_sum_norm [OF f(1), of 0] f(2) True show ?thesis unfolding e by (simp add: ones_sum_def)
    next
      case F: False
      with False show ?thesis using finish_sum_norm [OF f, of False] unfolding e by (simp add: ones_sum_def)
    qed
  qed
qed

end
