(* ===== verification/Inet_Chksum_Props.thy ===== *)
theory Inet_Chksum_Props
  imports Inet_Chksum_Sums
begin

text \<open>
  Checksums of chains of packet buffers, with and without a pseudo header, and the properties of
  \<open>inet_chksum.c\<close>.
\<close>

section \<open>Chains\<close>


definition chain_ok :: "payload list \<Rightarrow> bool" where
  \<comment> \<open>lengths are 16 bits wide\<close>
  "chain_ok p \<longleftrightarrow> (\<forall>q\<in>set p. length (pl_bytes q) < 2 ^ 16)"

definition chain_bytes :: "payload list \<Rightarrow> byte list" where
  "chain_bytes p = concat (map pl_bytes p)"

definition state_value :: "u32 \<times> bool \<Rightarrow> nat" where
  "state_value st = norm16 ((if snd st then 256 else 1) * unat (fst st))"

definition weigh :: "bool \<Rightarrow> byte list \<Rightarrow> nat" where
  "weigh swapped bs = (if swapped then wsum 256 1 bs else wsum 1 256 bs)"

lemma weigh_append: "weigh sw (xs @ ys) = weigh sw xs + weigh (sw \<noteq> odd (length xs)) ys"
  by (auto simp: weigh_def wsum_append)

lemma chain_end_value: "unat (fst st) \<le> 65535 \<Longrightarrow> unat (chain_end st) = state_value st"
  by (auto simp: chain_end_def state_value_def unat_swap norm16_small)

lemma unat_ones_sum: "unat (ones_sum bs) = norm16 (wsum 1 256 bs)"
  using norm16_le [of "wsum 1 256 bs"] by (simp add: ones_sum_def unsigned_of_nat take_bit_nat_eq_self)

lemma chain_step_value:
  assumes "unat (fst st) \<le> 65535" "sum_limit bs"
  shows "unat (fst (chain_step st addr bs len)) \<le> 65535"
    "snd (chain_step st addr bs len) = (snd st \<noteq> odd len)"
    "state_value (chain_step st addr bs len) = norm16 (state_value st + weigh (snd st) bs)"
proof -
  let ?a = "FOLD_U32T (fst st + ucast (lwip_standard_chksum addr bs))"
  have le: "norm16 (wsum 1 256 bs) \<le> 65535" by (rule norm16_le)
  have u: "unat (fst st + ucast (lwip_standard_chksum addr bs)) = unat (fst st) + norm16 (wsum 1 256 bs)"
    using assms(1) le by (subst unat_plus) (simp_all add: standard_chksum_2 [OF assms(2)] unat_ucast16 unat_ones_sum)
  have a: "unat ?a \<le> 65535" using fold_le(2) u le assms(1) by simp
  then have v: "unat ?a = norm16 (unat (fst st) + wsum 1 256 bs)"
    by (metis norm16_small norm16_fold u norm16_add(2))
  have s: "unat (SWAP_BYTES_IN_WORD ?a) = norm16 (256 * (unat (fst st) + wsum 1 256 bs))"
    using unat_swap [OF a] by (simp only: v norm16_mult)
  show "unat (fst (chain_step st addr bs len)) \<le> 65535"
    by (simp add: chain_step_def Let_def v s norm16_le)
  show "snd (chain_step st addr bs len) = (snd st \<noteq> odd len)"
    by (auto simp: chain_step_def Let_def even_iff_mod_2_eq_zero)
  have w: "norm16 (256 * (unat (fst st) + wsum 1 256 bs)) = norm16 (norm16 (256 * unat (fst st)) + wsum 256 1 bs)"
    by (metis distrib_left norm16_add(1) norm16_add(2) norm16_wsum_256(2))
  show "state_value (chain_step st addr bs len) = norm16 (state_value st + weigh (snd st) bs)"
  proof (cases "snd st")
    case True
    then show ?thesis
      by (simp only: chain_step_def Let_def state_value_def weigh_def v s norm16_mult norm16_256 w [symmetric]
        if_split prod.sel if_True) (simp add: v s norm16_mult norm16_256)
  next
    case False
    then show ?thesis
      by (simp only: chain_step_def Let_def state_value_def weigh_def v s norm16_mult norm16_256 norm16_add
        if_split prod.sel if_False mult_1)
        (simp add: v s norm16_mult norm16_256 [of "unat (fst st) + wsum 1 256 bs", simplified])
  qed
qed

lemma chain_loop_value:
  assumes "chain_ok p" "unat (fst st) \<le> 65535"
  shows "unat (fst (chain_loop st p)) \<le> 65535 \<and>
    state_value (chain_loop st p) = norm16 (state_value st + weigh (snd st) (chain_bytes p))"
  using assms
proof (induction p arbitrary: st)
  case Nil
  then show ?case by (simp add: chain_bytes_def weigh_def state_value_def)
next
  case (Cons q qs)
  have l: "sum_limit (pl_bytes q)" using Cons.prems(1) by (simp add: chain_ok_def sum_limit_def)
  let ?st = "chain_step st (pl_addr q) (pl_bytes q) (length (pl_bytes q))"
  note s = chain_step_value [OF Cons.prems(2) l, of "pl_addr q" "length (pl_bytes q)"]
  have "chain_ok qs" using Cons.prems(1) by (simp add: chain_ok_def)
  from Cons.IH [OF this s(1)] show ?case
    by (simp add: s(2,3) chain_bytes_def weigh_append norm16_add add.assoc)
qed

lemma complement: "ucast (NOT (u AND 0xffff)) = NOT (of_nat (unat u) :: u16)" for u :: u32
proof -
  have "(0xffff :: u32) = mask 16" by (simp add: mask_eq_exp_minus_1)
  then have "ucast (NOT (u AND 0xffff)) = NOT (ucast u :: u16)"
    by (simp only:) (rule bit_word_eqI, simp only: bit_ucast_iff bit_not_iff bit_and_iff bit_mask_iff possible_bit_word, auto)
  then show ?thesis by simp
qed

lemma chksum_pbuf:
  assumes "chain_ok p"
  shows "inet_chksum_pbuf p = NOT (ones_sum (chain_bytes p))"
proof -
  have "unat (chain_end (chain_loop (0, False) p)) = norm16 (wsum 1 256 (chain_bytes p))"
    using chain_loop_value [OF assms, of "(0, False)"] by (simp add: chain_end_value state_value_def weigh_def norm16_def)
  then show ?thesis by (simp only: inet_chksum_pbuf_def complement ones_sum_def)
qed

section \<open>The pseudo header\<close>

definition be16 :: "u16 \<Rightarrow> byte list" where
  "be16 w = [ucast (drop_bit 8 w), ucast w]"

definition pseudo_header :: "u32 \<Rightarrow> u32 \<Rightarrow> byte \<Rightarrow> u16 \<Rightarrow> byte list" where
  "pseudo_header src dest proto proto_len = le_bytes src @ le_bytes dest @ [0, proto] @ be16 proto_len"


lemma wsum_le_bytes: "wsum 1 256 (le_bytes x) = unat (x AND 0xffff) + unat (drop_bit 16 x AND 0xffff)"
proof -
  have b: "unat x < 4294967296" using unsigned_less [of x, where ?'a = nat] by simp
  have d: "unat (drop_bit k x) = unat x div 2 ^ k" for k
    by (simp only: unat_drop_bit_eq) (simp only: drop_bit_eq_div)
  have o: "unat (ip4_addr1 x) = unat x mod 256" "unat (ip4_addr2 x) = unat x div 256 mod 256"
    "unat (ip4_addr3 x) = unat x div 65536 mod 256" "unat (ip4_addr4 x) = unat x div 16777216 mod 256"
    unfolding ip4_addr1_def ip4_addr2_def ip4_addr3_def ip4_addr4_def unsigned_ucast_eq take_bit_eq_mod d by simp_all
  have "unat (drop_bit 16 x AND 0xffff) = unat x div 65536 mod 65536" by (simp add: unat_low16 d del: push_bit_of_1)
  moreover have "unat x mod 65536 = unat x mod 256 + 256 * (unat x div 256 mod 256)"
    using mod_mult2_eq [of "unat x" 256 256] by simp
  moreover have "unat x div 65536 mod 65536 = unat x div 65536 mod 256 + 256 * (unat x div 16777216 mod 256)"
    using mod_mult2_eq [of "unat x div 65536" 256 256] by (simp add: div_mult2_eq [symmetric])
  ultimately show ?thesis by (simp add: le_bytes_def o unat_low16)
qed

lemma pseudo_addresses_value:
  "unat (pseudo_addresses src dest) = norm16 (wsum 1 256 (le_bytes src @ le_bytes dest))"
proof -
  let ?p = "\<lambda>x. unat (x AND 0xffff :: u32)"
  have l: "?p x < 65536" for x by (simp add: unat_low16)
  let ?acc = "(src AND 0xffff) + (drop_bit 16 src AND 0xffff) + (dest AND 0xffff) + (drop_bit 16 dest AND 0xffff)"
  have "unat ?acc = ?p src + ?p (drop_bit 16 src) + ?p dest + ?p (drop_bit 16 dest)"
    using l [of src] l [of "drop_bit 16 src"] l [of dest] l [of "drop_bit 16 dest"]
    by (simp add: unat_plus del: unat_low16)
  moreover have "even (length (le_bytes src))" by (simp add: le_bytes_def)
  ultimately show ?thesis
    by (simp only: pseudo_addresses_def Let_def unat_fold_fold wsum_append wsum_le_bytes add.assoc)
qed

lemma wsum_be16: "unat (lwip_htons w) = wsum 1 256 (be16 w)"
proof -
  have "lwip_htons w = le16 (ucast (drop_bit 8 w)) (ucast w)"
    unfolding le16_def
    by (rule bit_word_eqI)
      (simp only: bit_lwip_htons bit_or_iff bit_push_bit_iff bit_ucast_iff bit_drop_bit_eq o_apply possible_bit_word, auto simp: add.commute dest: word_bit_less)
  then show ?thesis by (simp add: unat_le16 be16_def)
qed

lemma be16_byte: "be16 (ucast proto) = [0, proto]"
proof -
  have "ucast (drop_bit 8 (ucast proto :: u16)) = (0 :: byte)"
    by (rule bit_word_eqI) (simp only: bit_drop_bit_eq o_apply bit_ucast_iff bit_0_eq, auto dest: word_bit_less)
  moreover have "ucast (ucast proto :: u16) = proto"
    by (rule bit_word_eqI) (simp only: bit_ucast_iff, auto)
  ultimately show ?thesis unfolding be16_def by (simp only:)
qed

lemma pseudo_end_value:
  assumes "unat (fst st) \<le> 65535" "state_value st = norm16 n"
  shows "pseudo_end proto proto_len st = NOT (of_nat (norm16 (n + wsum 1 256 ([0, proto] @ be16 proto_len))))"
proof -
  have b: "unat (ucast (lwip_htons w) :: u32) = wsum 1 256 (be16 w)" for w by (simp only: unat_ucast16 wsum_be16)
  have l: "wsum 1 256 (be16 w) \<le> 65535" for w
    using wsum_bound(1) [of "be16 w"] by (simp add: be16_def)
  have e: "unat (chain_end st) = norm16 n" using chain_end_value [OF assms(1)] assms(2) by simp
  have s: "unat (chain_end st + ucast (lwip_htons (ucast proto)) + ucast (lwip_htons proto_len)) =
      norm16 n + wsum 1 256 (be16 (ucast proto)) + wsum 1 256 (be16 proto_len)"
  proof -
    note ls = norm16_le [of n] l [of "ucast proto"] l [of proto_len]
    have 1: "unat (chain_end st + ucast (lwip_htons (ucast proto))) = norm16 n + wsum 1 256 (be16 (ucast proto))"
      using ls unat_plus [of "chain_end st" "ucast (lwip_htons (ucast proto))"] unfolding e b by simp
    show ?thesis
      using ls unat_plus [of "chain_end st + ucast (lwip_htons (ucast proto))" "ucast (lwip_htons proto_len)"]
      unfolding 1 b by simp
  qed
  have "norm16 (norm16 n + wsum 1 256 (be16 (ucast proto)) + wsum 1 256 (be16 proto_len)) =
      norm16 (n + wsum 1 256 ([0, proto] @ be16 proto_len))"
    unfolding be16_byte by (simp add: norm16_add add.assoc)
  then show ?thesis by (simp only: pseudo_end_def Let_def complement unat_fold_fold s)
qed

lemma wsum_header: "wsum 1 256 (pseudo_header src dest proto proto_len @ bs) =
    wsum 1 256 (le_bytes src @ le_bytes dest) + wsum 1 256 bs + wsum 1 256 ([0, proto] @ be16 proto_len)"
  by (simp add: pseudo_header_def le_bytes_def be16_def)

lemma chksum_pseudo:
  assumes "chain_ok p"
  shows "inet_chksum_pseudo p proto proto_len src dest =
    NOT (ones_sum (pseudo_header src dest proto proto_len @ chain_bytes p))"
proof -
  let ?st = "chain_loop (pseudo_addresses src dest, False) p"
  have a: "unat (pseudo_addresses src dest) \<le> 65535" unfolding pseudo_addresses_value by (rule norm16_le)
  have "unat (fst ?st) \<le> 65535 \<and>
      state_value ?st = norm16 (wsum 1 256 (le_bytes src @ le_bytes dest) + wsum 1 256 (chain_bytes p))"
    using chain_loop_value [OF assms, of "(pseudo_addresses src dest, False)"] a
    by (simp add: state_value_def weigh_def pseudo_addresses_value norm16_add)
  then show ?thesis
    unfolding inet_chksum_pseudo_def inet_cksum_pseudo_base_def ones_sum_def wsum_header by (intro pseudo_end_value) auto
qed

definition partial_asserts :: "payload list \<Rightarrow> u16 \<Rightarrow> bool" where
  \<comment> \<open>the assertion of the partial sum fails: 0x7fff bytes or more are left after the first buffer\<close>
  "partial_asserts p n \<longleftrightarrow> p \<noteq> [] \<and> 0x7fff \<le> unat n - length (pl_bytes (hd p))"

lemma partial_left:
  fixes n :: u16
  assumes "len < 65536"
  defines "c \<equiv> (if n < of_nat len then n else (of_nat len :: u16))"
  shows "unat c = min (unat n) len" "unat (n - c) = unat n - len" "n - c < 0x7fff \<longleftrightarrow> unat n - len < 0x7fff"
proof -
  have ul: "unat (of_nat len :: u16) = len" using assms(1) by (simp add: unsigned_of_nat take_bit_nat_eq_self)
  show uc: "unat c = min (unat n) len" by (auto simp: c_def word_less_nat_alt ul)
  then have "unat (n - c) = unat n - unat c" by (subst unat_sub) (simp_all add: word_le_nat_alt)
  then show left: "unat (n - c) = unat n - len" using uc by simp
  show "n - c < 0x7fff \<longleftrightarrow> unat n - len < 0x7fff" by (simp add: word_less_nat_alt left)
qed

lemma partial_loop_asserts:
  assumes "chain_ok p" "partial_asserts p n"
  shows "partial_loop st n p = Inl AssertFail"
proof -
  obtain q qs where p: "p = q # qs" "0x7fff \<le> unat n - length (pl_bytes q)"
    using assms(2) by (cases p) (auto simp: partial_asserts_def)
  have len: "length (pl_bytes q) < 65536" using assms(1) p(1) by (simp add: chain_ok_def)
  have "n \<noteq> 0" using p(2) by auto
  then show ?thesis using partial_left(3) [OF len, of n] p by (simp add: Let_def)
qed

lemma partial_loop_value:
  assumes "chain_ok p" "unat (fst st) \<le> 65535" "\<not> partial_asserts p n"
  shows "\<exists>st'. partial_loop st n p = Inr st' \<and> unat (fst st') \<le> 65535 \<and>
    state_value st' = norm16 (state_value st + weigh (snd st) (take (unat n) (chain_bytes p)))"
  using assms
proof (induction p arbitrary: st n)
  case Nil
  then show ?case by (simp add: chain_bytes_def weigh_def state_value_def)
next
  case (Cons q qs)
  show ?case
  proof (cases "n = 0")
    case True
    then show ?thesis using Cons.prems by (simp add: weigh_def state_value_def)
  next
    case False
    let ?len = "length (pl_bytes q)"
    have len: "?len < 65536" using Cons.prems(1) by (simp add: chain_ok_def)
    define c where "c = (if n < of_nat ?len then n else (of_nat ?len :: u16))"
    note pl = partial_left [OF len, of n, folded c_def]
    have uc: "unat c = min (unat n) ?len" and left: "unat (n - c) = unat n - unat c" using pl(1,2) by auto
    have un: "unat n - ?len < 32767" using Cons.prems(3) by (simp add: partial_asserts_def)
    then have lt: "n - c < 0x7fff" using pl(3) by simp
    have ok': "\<not> partial_asserts qs (n - c)" unfolding partial_asserts_def using un pl(2) by linarith
    have sl: "sum_limit (take (unat c) (pl_bytes q))" using len by (simp add: sum_limit_def)
    let ?st = "chain_step st (pl_addr q) (take (unat c) (pl_bytes q)) ?len"
    note s = chain_step_value [OF Cons.prems(2) sl, of "pl_addr q" ?len]
    have ok: "chain_ok qs" using Cons.prems(1) by (simp add: chain_ok_def)
    obtain st' where st': "partial_loop ?st (n - c) qs = Inr st'" "unat (fst st') \<le> 65535"
      "state_value st' = norm16 (state_value ?st + weigh (snd ?st) (take (unat (n - c)) (chain_bytes qs)))"
      using Cons.IH [OF ok s(1) ok'] by blast
    have p: "partial_loop st n (q # qs) = Inr st'"
      using False lt st'(1) by (simp add: Let_def c_def [symmetric])
    have t: "take (unat n) (chain_bytes (q # qs)) = take (unat c) (pl_bytes q) @ take (unat (n - c)) (chain_bytes qs)"
      using uc left by (auto simp: chain_bytes_def min_def)
    have "weigh (snd ?st) (take (unat (n - c)) (chain_bytes qs)) =
        weigh (snd st \<noteq> odd (length (take (unat c) (pl_bytes q)))) (take (unat (n - c)) (chain_bytes qs))"
    proof (cases "unat n \<le> ?len")
      case True
      then have "unat (n - c) = 0" using left uc by simp
      then show ?thesis by (simp add: weigh_def)
    next
      case False
      then have "length (take (unat c) (pl_bytes q)) = ?len" using uc by simp
      then show ?thesis by (simp only: s(2))
    qed
    then have "state_value st' = norm16 (state_value st + weigh (snd st) (take (unat n) (chain_bytes (q # qs))))"
      unfolding st'(3) s(3) t weigh_append by (simp add: norm16_add add.assoc)
    with p st'(2) show ?thesis by blast
  qed
qed

lemma chksum_pseudo_partial:
  assumes "chain_ok p"
  shows "inet_chksum_pseudo_partial p proto proto_len n src dest =
    (if partial_asserts p n then Inl AssertFail
     else Inr (NOT (ones_sum (pseudo_header src dest proto proto_len @ take (unat n) (chain_bytes p)))))"
proof (cases "partial_asserts p n")
  case True
  then show ?thesis by (simp add: inet_chksum_pseudo_partial_def partial_loop_asserts [OF assms])
next
  case False
  have a: "unat (fst (pseudo_addresses src dest, False)) \<le> 65535" by (simp add: pseudo_addresses_value norm16_le)
  obtain st' where st': "partial_loop (pseudo_addresses src dest, False) n p = Inr st'" "unat (fst st') \<le> 65535"
    "state_value st' = norm16 (wsum 1 256 (le_bytes src @ le_bytes dest) + wsum 1 256 (take (unat n) (chain_bytes p)))"
    using partial_loop_value [OF assms a False]
    by (auto simp: state_value_def weigh_def pseudo_addresses_value norm16_add)
  then show ?thesis
    unfolding inet_chksum_pseudo_partial_def ones_sum_def wsum_header
    using False by (simp only: bindE_simps pseudo_end_value [OF st'(2,3)] if_False)
qed

section \<open>Properties\<close>

text \<open>
  On up to 0x20000 bytes at any alignment, the three versions of the summing routine, two bytes at
  a time, four bytes at a time with the carries added back, and the plain one, compute the same sum:
  the ones' complement sum of the bytes paired to words, the first byte with the second whatever the
  alignment.
\<close>

theorem chksum_algorithms_agree:
  assumes "sum_limit bs"
  shows "lwip_standard_chksum_1 bs = ones_sum bs \<and> lwip_standard_chksum addr bs = ones_sum bs \<and>
    lwip_standard_chksum_3 addr bs = ones_sum bs"
  by (simp add: standard_chksum_1 [OF assms] standard_chksum_2 [OF assms] standard_chksum_3)

theorem chksum_algorithms_agree_witness:
  "lwip_standard_chksum 1 [1, 2, 3] = 0x0204 \<and> lwip_standard_chksum_3 1 [1, 2, 3] = 0x0204"
proof -
  have "ones_sum [1, 2, 3] = 0x0204" by (simp add: ones_sum_def norm16_def)
  then show ?thesis
    using chksum_algorithms_agree [of "[1, 2, 3]" 1] by (simp add: sum_limit_def)
qed

text \<open>
  C39. The checksum of a chain of packet buffers, whole or with a pseudo header, depends only on the bytes of
  the chain, not on how they are cut into buffers nor on their alignment: it is the complement of the ones'
  complement sum of all the bytes, with a pseudo header of the addresses, a zero byte, the protocol, the
  length in network order and the bytes. A partial one is that of the pseudo header and the first
  \<open>chksum_len\<close> bytes of the chain, or a failed assertion, and this does depend on the cut: it fails exactly if
  0x7fff or more of those bytes are left behind the first buffer, so never for less than 0x7fff bytes.
\<close>

theorem chain_chksums:
  assumes "chain_ok p"
  shows "inet_chksum_pbuf p = NOT (ones_sum (chain_bytes p)) \<and>
    ip_chksum_pseudo p proto proto_len src dest =
      NOT (ones_sum (pseudo_header src dest proto proto_len @ chain_bytes p)) \<and>
    ip_chksum_pseudo_partial p proto proto_len n src dest =
      (if p \<noteq> [] \<and> 0x7fff \<le> unat n - length (pl_bytes (hd p)) then Inl AssertFail
       else Inr (NOT (ones_sum (pseudo_header src dest proto proto_len @ take (unat n) (chain_bytes p)))))"
  using chksum_pseudo_partial [OF assms, of proto proto_len n src dest]
  by (simp add: chksum_pbuf [OF assms] chksum_pseudo [OF assms] ip_chksum_pseudo_def ip_chksum_pseudo_partial_def
      partial_asserts_def)

definition demo_chain :: "payload list" where
  "demo_chain = [\<lparr>pl_addr = 0x1001, pl_bytes = [1, 2, 3]\<rparr>, \<lparr>pl_addr = 0x2000, pl_bytes = [4, 5]\<rparr>]"

theorem chain_chksums_witness:
  "inet_chksum_pbuf demo_chain = NOT 0x0609 \<and>
   ip_chksum_pseudo_partial demo_chain 17 5 4 0x0100A8C0 0x0200A8C0 =
     Inr (NOT (ones_sum (pseudo_header 0x0100A8C0 0x0200A8C0 17 5 @ [1, 2, 3, 4])))"
proof -
  have ok: "chain_ok demo_chain" by (simp add: chain_ok_def demo_chain_def)
  have b: "chain_bytes demo_chain = [1, 2, 3, 4, 5]" by (simp add: chain_bytes_def demo_chain_def)
  have o: "ones_sum [1, 2, 3, 4, 5] = 0x0609" by (simp add: ones_sum_def norm16_def)
  have t: "take (unat (4 :: u16)) [1, 2, 3, 4, 5 :: byte] = [1, 2, 3, 4]" by simp
  have n: "\<not> 0x7fff \<le> unat (4 :: u16) - length (pl_bytes (hd demo_chain))" by (simp add: demo_chain_def)
  show ?thesis using n chain_chksums [OF ok, of 17 5 "0x0100A8C0" "0x0200A8C0" 4] unfolding b o t by simp
qed

definition sum_bytes :: "u16 \<Rightarrow> byte list" where
  \<comment> \<open>a checksum saved in the header as it is in memory\<close>
  "sum_bytes c = [ucast c, ucast (drop_bit 8 c)]"

lemma wsum_sum_bytes: "wsum 1 256 (sum_bytes c) = unat c"
proof -
  have "c = le16 (ucast c) (ucast (drop_bit 8 c))"
    unfolding le16_def
    by (rule bit_word_eqI)
      (simp only: bit_or_iff bit_push_bit_iff bit_ucast_iff bit_drop_bit_eq o_apply possible_bit_word, auto)
  then have "unat c = unat (ucast c :: byte) + 256 * unat (ucast (drop_bit 8 c) :: byte)" by (metis unat_le16)
  then show ?thesis by (simp only: sum_bytes_def wsum.simps)
qed

lemma unat_not16: "unat (NOT w) = 65535 - unat w" for w :: u16
proof -
  have f: "(- 1 :: u16) = 65535" by simp
  have "NOT w = - 1 - w" by (simp add: not_eq_complement)
  then have "NOT w = 65535 - w" unfolding f .
  moreover have "w \<le> 65535" unfolding f [symmetric] by (rule word_order.extremum)
  ultimately show ?thesis by (simp add: unat_sub)
qed

lemma filled_sum:
  assumes "even (length pre)"
  shows "ones_sum (pre @ sum_bytes (NOT (ones_sum (pre @ [0, 0] @ post))) @ post) = NOT 0"
proof -
  let ?n = "wsum 1 256 (pre @ [0, 0] @ post)"
  have e: "wsum 1 256 (pre @ sum_bytes c @ post) = ?n + unat c" for c
    using assms wsum_sum_bytes [of c] by (simp add: wsum_append sum_bytes_def)
  have "unat (NOT (ones_sum (pre @ [0, 0] @ post))) = 65535 - norm16 ?n"
    by (simp only: unat_not16 unat_ones_sum)
  then have "norm16 (?n + unat (NOT (ones_sum (pre @ [0, 0] @ post)))) = norm16 (norm16 ?n + (65535 - norm16 ?n))"
    by (simp add: norm16_add)
  also have "\<dots> = 65535" using norm16_le [of ?n] by (simp add: norm16_small)
  finally show ?thesis unfolding ones_sum_def e by simp
qed

text \<open>
  C40. A receiver accepts what a sender computes: with the checksum computed over a zero field and then
  saved in that field, at an even offset, the checksum of the whole is zero; the same for chains with
  a pseudo header, however sender and receiver cut the bytes into buffers.
\<close>

theorem checksum_verifies:
  assumes "even (length pre)" "length pre + 2 + length post \<le> 0x20000"
    and "chain_ok p" "chain_bytes p = pre @ [0, 0] @ post"
    and "chain_ok p'" "chain_bytes p' = pre @ sum_bytes (ip_chksum_pseudo p proto proto_len src dest) @ post"
  shows "inet_chksum addr' (pre @ sum_bytes (inet_chksum addr (pre @ [0, 0] @ post)) @ post) = 0 \<and>
    ip_chksum_pseudo p' proto proto_len src dest = 0"
proof
  have l: "sum_limit (pre @ [0, 0] @ post)" "sum_limit (pre @ sum_bytes c @ post)" for c
    using assms(2) by (simp_all add: sum_limit_def sum_bytes_def)
  show "inet_chksum addr' (pre @ sum_bytes (inet_chksum addr (pre @ [0, 0] @ post)) @ post) = 0"
    unfolding inet_chksum_def standard_chksum_2 [OF l(1)] standard_chksum_2 [OF l(2)] filled_sum [OF assms(1)]
    by simp
  let ?h = "pseudo_header src dest proto proto_len"
  have ev: "even (length (?h @ pre))" using assms(1) by (simp add: pseudo_header_def le_bytes_def be16_def)
  have c: "ip_chksum_pseudo p proto proto_len src dest = NOT (ones_sum ((?h @ pre) @ [0, 0] @ post))"
    by (simp add: ip_chksum_pseudo_def chksum_pseudo [OF assms(3)] assms(4))
  have b: "?h @ chain_bytes p' = (?h @ pre) @ sum_bytes (NOT (ones_sum ((?h @ pre) @ [0, 0] @ post))) @ post"
    unfolding assms(6) c by simp
  show "ip_chksum_pseudo p' proto proto_len src dest = 0"
    unfolding ip_chksum_pseudo_def chksum_pseudo [OF assms(5)] b filled_sum [OF ev] by simp
qed

theorem checksum_verifies_witness:
  "inet_chksum 1 ([0x45, 0] @ sum_bytes (inet_chksum 0 ([0x45, 0] @ [0, 0] @ [7])) @ [7]) = 0"
proof -
  let ?c = "sum_bytes (ip_chksum_pseudo [\<lparr>pl_addr = 0, pl_bytes = [0x45, 0, 0, 0, 7]\<rparr>] 17 5 1 2)"
  show ?thesis
    using checksum_verifies [of "[0x45, 0]" "[7]" "[\<lparr>pl_addr = 0, pl_bytes = [0x45, 0, 0, 0, 7]\<rparr>]"
        "[\<lparr>pl_addr = 0, pl_bytes = [0x45, 0] @ ?c @ [7]\<rparr>]" 17 5 1 2 1 0]
    by (simp add: chain_ok_def chain_bytes_def sum_bytes_def)
qed

end
