(* ===== verification/Pbuf.thy ===== *)
theory Pbuf
  imports Netif
begin

text \<open>
  \<open>components/lwip/core/pbuf.c\<close>: packet buffers. A buffer is an entry of the heap, \<open>None\<close> once it is
  freed; addresses are never used again, so a use after free is visible. The memory behind the
  structure is the list \<open>pb_mem\<close>; the payload pointer points into it (\<open>Own\<close>, an offset from the end of
  the structure) or into memory of somebody else (\<open>Ext\<close>). As configured, packets are not
  fragmented on output (no custom buffers), \<open>mem_trim\<close> does nothing, and \<open>LWIP_ERROR\<close> runs its handler.
\<close>

section \<open>Loops that may not end\<close>

definition thenE :: "'a result \<Rightarrow> ('a \<Rightarrow> 'b result option) \<Rightarrow> 'b result option" where
  "thenE r k = (case r of Inl e \<Rightarrow> Some (Inl e) | Inr x \<Rightarrow> k x)"

definition ending :: "'a result option \<Rightarrow> 'a result" where
  "ending r = (case r of None \<Rightarrow> Inl Hang | Some x \<Rightarrow> x)"

lemma thenE_simps [simp]: "thenE (Inl e) k = Some (Inl e)" "thenE (Inr x) k = k x"
  by (simp_all add: thenE_def)

lemma ending_simps [simp]: "ending None = Inl Hang" "ending (Some x) = x"
  by (simp_all add: ending_def)

lemma thenE_mono [partial_function_mono]:
  "(\<And>x. mono_option (\<lambda>f. k f x)) \<Longrightarrow> mono_option (\<lambda>f. thenE r (k f))"
  by (cases r) (simp_all add: monotone_def option.leq_refl)

section \<open>Data\<close>

datatype pbuf_layer = PBUF_TRANSPORT | PBUF_IP | PBUF_LINK | PBUF_RAW_TX | PBUF_RAW

datatype pbuf_type = PBUF_RAM | PBUF_ROM | PBUF_REF | PBUF_POOL

datatype payload_ptr = NoPayload | Own int | Ext nat int

record pbuf =
  pb_next :: "nat option"
  pb_payload :: payload_ptr
  pb_tot_len :: u16
  pb_len :: u16
  pb_type :: pbuf_type
  pb_flags :: u8
  pb_ref :: u16
  pb_l2_owner :: "nat option"
  pb_l2_buf :: "nat option"
  pb_mem :: "byte list"

datatype pbuf_event = L2Notify nat | OoseqQueued

record heap =
  hp_pbufs :: "pbuf option list"
  hp_ext :: "byte list list"
  hp_pending :: bool           \<comment> \<open>\<open>pbuf_free_ooseq_pending\<close>\<close>
  hp_log :: "pbuf_event list"

record pbuf_env =
  pe_mem :: "heap \<Rightarrow> nat \<Rightarrow> bool"     \<comment> \<open>\<open>malloc\<close> has this many bytes\<close>
  pe_junk :: "heap \<Rightarrow> pbuf"            \<comment> \<open>what fresh memory holds\<close>
  pe_notify :: "nat \<Rightarrow> bool"          \<comment> \<open>the interface has an \<open>l2_buffer_free_notify\<close>\<close>
  pe_callback :: "heap \<Rightarrow> bool"        \<comment> \<open>\<open>tcpip_callback_with_block\<close> takes the message\<close>

definition PBUF_LINK_ENCAPSULATION_HLEN :: nat where "PBUF_LINK_ENCAPSULATION_HLEN = 0"
definition PBUF_LINK_HLEN :: nat where "PBUF_LINK_HLEN = 14"
definition PBUF_IP_HLEN :: nat where "PBUF_IP_HLEN = 20"
definition PBUF_TRANSPORT_HLEN :: nat where "PBUF_TRANSPORT_HLEN = 20"
definition TCP_MSS :: nat where "TCP_MSS = 1436"

definition LWIP_MEM_ALIGN_SIZE :: "nat \<Rightarrow> nat" where
  "LWIP_MEM_ALIGN_SIZE n = (n + 3) div 4 * 4"

definition SIZEOF_STRUCT_PBUF :: nat where "SIZEOF_STRUCT_PBUF = LWIP_MEM_ALIGN_SIZE 24"

definition PBUF_POOL_BUFSIZE :: nat where
  "PBUF_POOL_BUFSIZE = LWIP_MEM_ALIGN_SIZE (TCP_MSS + 40 + PBUF_LINK_ENCAPSULATION_HLEN + PBUF_LINK_HLEN)"

definition ERR_VAL :: int where "ERR_VAL = - 6"
definition ERR_ARG :: int where "ERR_ARG = - 15"

section \<open>The heap\<close>

definition at :: "heap \<Rightarrow> nat option \<Rightarrow> pbuf result" where
  \<comment> \<open>\<open>*p\<close>\<close>
  "at h p =
     (case p of
        None \<Rightarrow> Inl NullDeref
      | Some a \<Rightarrow>
          if a < length (hp_pbufs h)
          then (case hp_pbufs h ! a of None \<Rightarrow> Inl UseAfterFree | Some b \<Rightarrow> Inr b)
          else Inl UseAfterFree)"

definition upd :: "nat \<Rightarrow> (pbuf \<Rightarrow> pbuf) \<Rightarrow> heap \<Rightarrow> heap" where
  "upd a f h = h\<lparr>hp_pbufs := (hp_pbufs h)[a := map_option f (hp_pbufs h ! a)]\<rparr>"

definition log_event :: "pbuf_event list \<Rightarrow> heap \<Rightarrow> heap" where
  "log_event es h = h\<lparr>hp_log := hp_log h @ es\<rparr>"

definition fit :: "nat \<Rightarrow> byte list \<Rightarrow> byte list" where
  "fit n bs = take n (bs @ replicate n 0)"

definition new_pbuf :: "pbuf_env \<Rightarrow> nat \<Rightarrow> heap \<Rightarrow> (nat option \<times> heap)" where
  \<comment> \<open>\<open>mem_malloc\<close> or \<open>memp_malloc\<close> of a structure with this much memory in all\<close>
  "new_pbuf e sz h =
     (if \<not> pe_mem e h sz then (None, h)
      else let b = (pe_junk e h)\<lparr>pb_mem := fit (sz - SIZEOF_STRUCT_PBUF) (pb_mem (pe_junk e h))\<rparr>
           in (Some (length (hp_pbufs h)), h\<lparr>hp_pbufs := hp_pbufs h @ [Some b]\<rparr>))"

definition block :: "heap \<Rightarrow> pbuf \<Rightarrow> byte list \<times> int" where
  \<comment> \<open>the memory the payload pointer points into, and the offset\<close>
  "block h b =
     (case pb_payload b of
        NoPayload \<Rightarrow> ([], 0)
      | Own d \<Rightarrow> (pb_mem b, d)
      | Ext k d \<Rightarrow> (if k < length (hp_ext h) then hp_ext h ! k else [], d))"

definition read_payload :: "heap \<Rightarrow> pbuf \<Rightarrow> nat \<Rightarrow> nat \<Rightarrow> byte list result" where
  "read_payload h b off n =
     (let (m, d) = block h b; i = d + int off
      in if n = 0 then Inr []
         else if pb_payload b = NoPayload then Inl NullDeref
         else if i < 0 \<or> int (length m) < i + int n then Inl BufferOverflow
         else Inr (take n (drop (nat i) m)))"

definition overwrite :: "byte list \<Rightarrow> nat \<Rightarrow> byte list \<Rightarrow> byte list" where
  "overwrite m i bs = take i m @ bs @ drop (i + length bs) m"

definition write_payload :: "heap \<Rightarrow> nat \<Rightarrow> nat \<Rightarrow> byte list \<Rightarrow> heap result" where
  "write_payload h a off bs =
     bindE (at h (Some a)) (\<lambda>b.
       let (m, d) = block h b; i = d + int off
       in if bs = [] then Inr h
          else if pb_payload b = NoPayload then Inl NullDeref
          else if i < 0 \<or> int (length m) < i + int (length bs) then Inl BufferOverflow
          else case pb_payload b of
                 Ext k _ \<Rightarrow> Inr (h\<lparr>hp_ext := (hp_ext h)[k := overwrite m (nat i) bs]\<rparr>)
               | _ \<Rightarrow> Inr (upd a (\<lambda>b. b\<lparr>pb_mem := overwrite m (nat i) bs\<rparr>) h))"

section \<open>Freeing\<close>

definition pbuf_pool_is_empty :: "pbuf_env \<Rightarrow> heap \<Rightarrow> heap" where
  "pbuf_pool_is_empty e h =
     (let queued = hp_pending h; h1 = h\<lparr>hp_pending := True\<rparr>
      in if \<not> queued then
           (if pe_callback e h1 then log_event [OoseqQueued] h1 else h1\<lparr>hp_pending := False\<rparr>)
         else h1)"

definition release :: "pbuf_env \<Rightarrow> nat \<Rightarrow> pbuf \<Rightarrow> heap \<Rightarrow> heap" where
  "release e a b h =
     (let h1 = (if pb_type b = PBUF_ROM \<or> pb_type b = PBUF_REF then
                  (case (pb_l2_owner b, pb_l2_buf b) of
                     (Some ow, Some buf) \<Rightarrow> if pe_notify e ow then log_event [L2Notify buf] h else h
                   | _ \<Rightarrow> h)
                else h)
      in h1\<lparr>hp_pbufs := (hp_pbufs h1)[a := None]\<rparr>)"

definition live_count :: "heap \<Rightarrow> nat" where
  "live_count h = length (filter (\<lambda>b. b \<noteq> None) (hp_pbufs h))"

lemma at_Inr: "at h p = Inr b \<longleftrightarrow> (\<exists>a. p = Some a \<and> a < length (hp_pbufs h) \<and> hp_pbufs h ! a = Some b)"
  by (auto simp: at_def split: option.splits if_splits)

lemma filter_update_None:
  "a < length xs \<Longrightarrow> xs ! a = Some b \<Longrightarrow>
   length (filter (\<lambda>b. b \<noteq> None) (xs[a := None])) < length (filter (\<lambda>b. b \<noteq> None) xs)"
proof (induction xs arbitrary: a)
  case (Cons x xs)
  then show ?case by (cases a) auto
qed simp

lemma live_release:
  assumes "at h p = Inr b"
  shows "live_count (release e (the p) b (upd (the p) f h)) < live_count h"
proof -
  obtain a where p: "p = Some a" "a < length (hp_pbufs h)" "hp_pbufs h ! a = Some b"
    using assms by (auto simp: at_Inr)
  have "hp_pbufs (release e a b (upd a f h)) = (hp_pbufs h)[a := None]"
    by (auto simp: release_def upd_def log_event_def split: option.splits)
  then show ?thesis using filter_update_None [OF p(2,3)] p(1) by (simp add: live_count_def)
qed

function free_loop :: "pbuf_env \<Rightarrow> nat option \<Rightarrow> u8 \<Rightarrow> heap \<Rightarrow> (u8 \<times> heap) result" where
  "free_loop e p count h =
     (if p = None then Inr (count, h)
      else case at h p of
             Inl x \<Rightarrow> Inl x
           | Inr b \<Rightarrow>
               if \<not> 0 < pb_ref b then Inl AssertFail
               else let ref = pb_ref b - 1; h1 = upd (the p) (\<lambda>b. b\<lparr>pb_ref := ref\<rparr>) h
                    in if ref = 0 then free_loop e (pb_next b) (count + 1) (release e (the p) b h1)
                       else Inr (count, h1))"
  by pat_completeness auto

termination
  by (relation "measure (\<lambda>(e, p, count, h). live_count h)") (auto intro: live_release)

declare free_loop.simps [simp del]

definition pbuf_free :: "pbuf_env \<Rightarrow> nat option \<Rightarrow> heap \<Rightarrow> (u8 \<times> heap) result" where
  "pbuf_free e p h = (if p = None then Inl AssertFail else free_loop e p 0 h)"

section \<open>Allocation\<close>

definition layer_offset :: "pbuf_layer \<Rightarrow> nat" where
  "layer_offset layer =
     (case layer of
        PBUF_TRANSPORT \<Rightarrow> PBUF_LINK_ENCAPSULATION_HLEN + PBUF_LINK_HLEN + PBUF_IP_HLEN + PBUF_TRANSPORT_HLEN
      | PBUF_IP \<Rightarrow> PBUF_LINK_ENCAPSULATION_HLEN + PBUF_LINK_HLEN + PBUF_IP_HLEN
      | PBUF_LINK \<Rightarrow> PBUF_LINK_ENCAPSULATION_HLEN + PBUF_LINK_HLEN
      | PBUF_RAW_TX \<Rightarrow> PBUF_LINK_ENCAPSULATION_HLEN
      | PBUF_RAW \<Rightarrow> 0)"

definition pool_size :: nat where
  "pool_size = SIZEOF_STRUCT_PBUF + PBUF_POOL_BUFSIZE"

definition ends_in_pool :: "pbuf \<Rightarrow> bool" where
  \<comment> \<open>\<open>p->payload + p->len\<close> does not overflow the memory of \<open>p\<close>\<close>
  "ends_in_pool b =
     (case pb_payload b of Own d \<Rightarrow> d + uint (pb_len b) \<le> int PBUF_POOL_BUFSIZE | _ \<Rightarrow> False)"

function pool_tail :: "pbuf_env \<Rightarrow> nat \<Rightarrow> nat \<Rightarrow> int \<Rightarrow> heap \<Rightarrow> (nat option \<times> heap) result" where
  \<comment> \<open>the buffers after the first, \<open>p\<close>; \<open>r\<close> is the last one so far\<close>
  "pool_tail e p r rem_len h =
     (if \<not> 0 < rem_len then Inr (Some p, h)
      else case new_pbuf e pool_size h of
             (None, h1) \<Rightarrow> bindE (pbuf_free e (Some p) (pbuf_pool_is_empty e h1)) (\<lambda>(_, h2). Inr (None, h2))
           | (Some q, h1) \<Rightarrow>
               if \<not> rem_len < 0xffff then Inl AssertFail
               else let len = min rem_len (int PBUF_POOL_BUFSIZE);
                        h2 = upd q (\<lambda>b. b\<lparr>pb_type := PBUF_POOL, pb_flags := 0, pb_next := None,
                                          pb_tot_len := of_int rem_len, pb_len := of_int len,
                                          pb_payload := Own 0\<rparr>) (upd r (\<lambda>b. b\<lparr>pb_next := Some q\<rparr>) h1)
                    in bindE (at h2 (Some p)) (\<lambda>b.
                         if \<not> ends_in_pool b then Inl AssertFail
                         else pool_tail e p q (rem_len - len) (upd q (\<lambda>b. b\<lparr>pb_ref := 1\<rparr>) h2)))"
  by pat_completeness auto

termination
  by (relation "measure (\<lambda>(e, p, r, rem_len, h). nat rem_len)")
    (auto simp: PBUF_POOL_BUFSIZE_def LWIP_MEM_ALIGN_SIZE_def TCP_MSS_def PBUF_LINK_ENCAPSULATION_HLEN_def
      PBUF_LINK_HLEN_def)

declare pool_tail.simps [simp del]

definition alloc_pool :: "pbuf_env \<Rightarrow> nat \<Rightarrow> u16 \<Rightarrow> heap \<Rightarrow> (nat option \<times> heap) result" where
  "alloc_pool e offset len h =
     (case new_pbuf e pool_size h of
        (None, h1) \<Rightarrow> Inr (None, pbuf_pool_is_empty e h1)
      | (Some p, h1) \<Rightarrow>
          let room = int PBUF_POOL_BUFSIZE - int (LWIP_MEM_ALIGN_SIZE offset);
              first = min (uint len) room;
              h2 = upd p (\<lambda>b. b\<lparr>pb_type := PBUF_POOL, pb_next := None,
                                pb_payload := Own (int (LWIP_MEM_ALIGN_SIZE offset)),
                                pb_tot_len := len, pb_len := of_int first\<rparr>) h1
          in bindE (at h2 (Some p)) (\<lambda>b.
               if \<not> ends_in_pool b \<or> \<not> 0 < room then Inl AssertFail
               else pool_tail e p p (uint len - first) (upd p (\<lambda>b. b\<lparr>pb_ref := 1\<rparr>) h2)))"

definition alloc_ram :: "pbuf_env \<Rightarrow> nat \<Rightarrow> u16 \<Rightarrow> heap \<Rightarrow> nat option \<times> heap" where
  "alloc_ram e offset len h =
     (case new_pbuf e (LWIP_MEM_ALIGN_SIZE (SIZEOF_STRUCT_PBUF + offset) + LWIP_MEM_ALIGN_SIZE (unat len)) h of
        (None, h1) \<Rightarrow> (None, h1)
      | (Some p, h1) \<Rightarrow>
          (Some p, upd p (\<lambda>b. b\<lparr>pb_payload := Own (int (LWIP_MEM_ALIGN_SIZE (SIZEOF_STRUCT_PBUF + offset)) -
                                                  int SIZEOF_STRUCT_PBUF),
                               pb_len := len, pb_tot_len := len, pb_next := None, pb_type := PBUF_RAM\<rparr>) h1))"

definition alloc_ref :: "pbuf_env \<Rightarrow> pbuf_type \<Rightarrow> u16 \<Rightarrow> heap \<Rightarrow> nat option \<times> heap" where
  "alloc_ref e type len h =
     (case new_pbuf e SIZEOF_STRUCT_PBUF h of
        (None, h1) \<Rightarrow> (None, h1)
      | (Some p, h1) \<Rightarrow>
          (Some p, upd p (\<lambda>b. b\<lparr>pb_payload := NoPayload, pb_len := len, pb_tot_len := len, pb_next := None,
                               pb_type := type\<rparr>) h1))"

definition pbuf_alloc :: "pbuf_env \<Rightarrow> pbuf_layer \<Rightarrow> u16 \<Rightarrow> pbuf_type \<Rightarrow> heap \<Rightarrow> (nat option \<times> heap) result" where
  "pbuf_alloc e layer len type h =
     bindE (case type of
              PBUF_POOL \<Rightarrow> alloc_pool e (layer_offset layer) len h
            | PBUF_RAM \<Rightarrow> Inr (alloc_ram e (layer_offset layer) len h)
            | _ \<Rightarrow> Inr (alloc_ref e type len h))
       (\<lambda>(p, h1). case p of
          None \<Rightarrow> Inr (None, h1)
        | Some a \<Rightarrow> Inr (p, upd a (\<lambda>b. b\<lparr>pb_ref := 1, pb_flags := 0, pb_l2_owner := None, pb_l2_buf := None\<rparr>) h1))"

end
