(* ===== verification/Pbuf_Ops.thy ===== *)
theory Pbuf_Ops
  imports Pbuf
begin

text \<open>
  The operations of \<open>pbuf.c\<close> on chains of packet buffers. Loops along a chain do not end when the chain
  is a circle: they are partial, and their callers fault with \<open>Hang\<close>.
\<close>

section \<open>Chains\<close>

partial_function (option) shrink_loop :: "nat option \<Rightarrow> u16 \<Rightarrow> int \<Rightarrow> heap \<Rightarrow> (nat option \<times> u16 \<times> heap) result option" where
  \<comment> \<open>step over the buffers that stay: the new last buffer, and what is left for it\<close>
  "shrink_loop q rem_len grow h =
     thenE (at h q) (\<lambda>b.
       if pb_len b < rem_len then
         (if \<not> grow < 0xffff then Some (Inl AssertFail)
          else let h1 = upd (the q) (\<lambda>b. b\<lparr>pb_tot_len := pb_tot_len b + of_int grow\<rparr>) h
               in if pb_next b = None then Some (Inl AssertFail)
                  else shrink_loop (pb_next b) (rem_len - pb_len b) grow h1)
       else Some (Inr (q, rem_len, h)))"

definition pbuf_realloc :: "pbuf_env \<Rightarrow> nat option \<Rightarrow> u16 \<Rightarrow> heap \<Rightarrow> heap result" where
  "pbuf_realloc e p new_len h =
     (if p = None then Inl AssertFail
      else bindE (at h p) (\<lambda>b.
        if pb_tot_len b \<le> new_len then Inr h
        else bindE (ending (shrink_loop p new_len (uint new_len - uint (pb_tot_len b)) h)) (\<lambda>(q, rem_len, h1).
             let h2 = upd (the q) (\<lambda>b. b\<lparr>pb_len := rem_len, pb_tot_len := rem_len\<rparr>) h1
             in bindE (at h2 q) (\<lambda>bq.
                  bindE (if pb_next bq \<noteq> None then bindE (pbuf_free e (pb_next bq) h2) (\<lambda>(_, h3). Inr h3) else Inr h2)
                    (\<lambda>h3. bindE (at h3 q) (\<lambda>_. Inr (upd (the q) (\<lambda>b. b\<lparr>pb_next := None\<rparr>) h3)))))))"

definition move_payload :: "payload_ptr \<Rightarrow> int \<Rightarrow> payload_ptr result" where
  \<comment> \<open>\<open>(u8_t * )p->payload - inc\<close>\<close>
  "move_payload q inc =
     (case q of NoPayload \<Rightarrow> Inl NullDeref | Own d \<Rightarrow> Inr (Own (d - inc)) | Ext k d \<Rightarrow> Inr (Ext k (d - inc)))"

definition before_struct_end :: "payload_ptr \<Rightarrow> bool result" where
  \<comment> \<open>only pointers into the buffer's own memory can be compared with it\<close>
  "before_struct_end q = (case q of Own d \<Rightarrow> Inr (d < 0) | _ \<Rightarrow> Inl BufferOverflow)"

definition pbuf_header_impl :: "nat option \<Rightarrow> int \<Rightarrow> bool \<Rightarrow> heap \<Rightarrow> (bool \<times> heap) result" where
  \<comment> \<open>\<open>True\<close> on failure\<close>
  "pbuf_header_impl p inc force h =
     (if p = None then Inl AssertFail
      else if inc = 0 then Inr (False, h)
      else bindE (at h p) (\<lambda>b.
        let ok = (\<lambda>q. Inr (False, upd (the p) (\<lambda>b. b\<lparr>pb_payload := q, pb_len := pb_len b + of_int inc,
                                                 pb_tot_len := pb_tot_len b + of_int inc\<rparr>) h))
        in if inc < 0 \<and> \<not> - inc \<le> uint (pb_len b) then Inr (True, h)
           else case pb_type b of
                  PBUF_RAM \<Rightarrow> bindE (move_payload (pb_payload b) inc) (\<lambda>q.
                    bindE (before_struct_end q) (\<lambda>bad. if bad then Inr (True, h) else ok q))
                | PBUF_POOL \<Rightarrow> bindE (move_payload (pb_payload b) inc) (\<lambda>q.
                    bindE (before_struct_end q) (\<lambda>bad. if bad then Inr (True, h) else ok q))
                | _ \<Rightarrow> if inc < 0 \<or> (0 < inc \<and> force) then bindE (move_payload (pb_payload b) inc) ok
                       else Inr (True, h)))"

definition pbuf_header :: "nat option \<Rightarrow> int \<Rightarrow> heap \<Rightarrow> (bool \<times> heap) result" where
  "pbuf_header p inc h = pbuf_header_impl p inc False h"

definition pbuf_header_force :: "nat option \<Rightarrow> int \<Rightarrow> heap \<Rightarrow> (bool \<times> heap) result" where
  "pbuf_header_force p inc h = pbuf_header_impl p inc True h"

partial_function (option) clen_loop :: "nat option \<Rightarrow> u8 \<Rightarrow> heap \<Rightarrow> u8 result option" where
  "clen_loop p len h =
     (if p = None then Some (Inr len)
      else thenE (at h p) (\<lambda>b. clen_loop (pb_next b) (len + 1) h))"

definition pbuf_clen :: "nat option \<Rightarrow> heap \<Rightarrow> u8 result" where
  "pbuf_clen p h = ending (clen_loop p 0 h)"

definition pbuf_ref :: "nat option \<Rightarrow> heap \<Rightarrow> heap result" where
  "pbuf_ref p h =
     (case p of
        None \<Rightarrow> Inr h
      | Some a \<Rightarrow> bindE (at h p) (\<lambda>_. Inr (upd a (\<lambda>b. b\<lparr>pb_ref := pb_ref b + 1\<rparr>) h)))"

partial_function (option) cat_loop :: "nat option \<Rightarrow> nat option \<Rightarrow> heap \<Rightarrow> (nat option \<times> heap) result option" where
  \<comment> \<open>to the last buffer of the chain, the total of \<open>t\<close> added on the way\<close>
  "cat_loop p t h =
     thenE (at h p) (\<lambda>b.
       if pb_next b = None then Some (Inr (p, h))
       else thenE (at h t) (\<lambda>bt.
         cat_loop (pb_next b) t (upd (the p) (\<lambda>b. b\<lparr>pb_tot_len := pb_tot_len b + pb_tot_len bt\<rparr>) h)))"

definition pbuf_cat :: "nat option \<Rightarrow> nat option \<Rightarrow> heap \<Rightarrow> heap result" where
  "pbuf_cat p t h =
     (if p = None \<or> t = None then Inr h
      else bindE (ending (cat_loop p t h)) (\<lambda>(q, h1).
        bindE (at h1 q) (\<lambda>b.
          if pb_tot_len b \<noteq> pb_len b then Inl AssertFail
          else bindE (at h1 t) (\<lambda>bt.
            Inr (upd (the q) (\<lambda>b. b\<lparr>pb_tot_len := pb_tot_len b + pb_tot_len bt, pb_next := t\<rparr>) h1)))))"

definition pbuf_chain :: "nat option \<Rightarrow> nat option \<Rightarrow> heap \<Rightarrow> heap result" where
  "pbuf_chain p t h = bindE (pbuf_cat p t h) (pbuf_ref t)"

definition pbuf_dechain :: "pbuf_env \<Rightarrow> nat option \<Rightarrow> heap \<Rightarrow> (nat option \<times> heap) result" where
  "pbuf_dechain e p h =
     bindE (at h p) (\<lambda>b.
       let q = pb_next b in
       bindE (if q = None then Inr (1, h)
              else bindE (at h q) (\<lambda>bq.
                if pb_tot_len bq \<noteq> pb_tot_len b - pb_len b then Inl AssertFail
                else pbuf_free e q
                  (upd (the p) (\<lambda>b. b\<lparr>pb_next := None, pb_tot_len := pb_len b\<rparr>)
                    (upd (the q) (\<lambda>b'. b'\<lparr>pb_tot_len := pb_tot_len b - pb_len b\<rparr>) h))))
         (\<lambda>(tail_gone, h1).
           bindE (at h1 p) (\<lambda>b1.
             if pb_tot_len b1 \<noteq> pb_len b1 then Inl AssertFail
             else Inr (if 0 < tail_gone then None else q, h1))))"

section \<open>Copying\<close>

definition is_queue :: "nat option \<Rightarrow> heap \<Rightarrow> bool result" where
  \<comment> \<open>the packet ends here and another buffer follows\<close>
  "is_queue p h =
     (case p of None \<Rightarrow> Inr False
      | Some a \<Rightarrow> bindE (at h p) (\<lambda>b. Inr (pb_len b = pb_tot_len b \<and> pb_next b \<noteq> None)))"

partial_function (option) copy_loop ::
  "nat option \<Rightarrow> nat \<Rightarrow> nat option \<Rightarrow> nat \<Rightarrow> heap \<Rightarrow> (int \<times> heap) result option" where
  "copy_loop p_to offset_to p_from offset_from h =
     thenE (at h p_to) (\<lambda>bt.
     thenE (at h p_from) (\<lambda>bf.
       let room = int (unat (pb_len bt)) - int offset_to; left = int (unat (pb_len bf)) - int offset_from;
           len = nat (if left \<le> room then left else room)
       in thenE (read_payload h bf offset_from len) (\<lambda>bs.
          thenE (write_payload h (the p_to) offset_to bs) (\<lambda>h1.
            let ot = offset_to + len; fr = offset_from + len in
            if \<not> ot \<le> unat (pb_len bt) \<or> \<not> fr \<le> unat (pb_len bf) then Some (Inl AssertFail)
            else let (from', fr') = (if unat (pb_len bf) \<le> fr then (pb_next bf, 0) else (p_from, fr));
                     (to', ot') = (if ot = unat (pb_len bt) then (pb_next bt, 0) else (p_to, ot))
                 in if ot = unat (pb_len bt) \<and> to' = None \<and> from' \<noteq> None then Some (Inr (ERR_ARG, h1))
                    else thenE (is_queue from' h1) (\<lambda>qf. thenE (is_queue to' h1) (\<lambda>qt.
                      if qf \<or> qt then Some (Inr (ERR_VAL, h1))
                      else if from' = None then Some (Inr (ERR_OK, h1))
                      else copy_loop to' ot' from' fr' h1))))))"

definition pbuf_copy :: "nat option \<Rightarrow> nat option \<Rightarrow> heap \<Rightarrow> (int \<times> heap) result" where
  "pbuf_copy p_to p_from h =
     (if p_to = None \<or> p_from = None then Inr (ERR_ARG, h)
      else bindE (at h p_to) (\<lambda>bt. bindE (at h p_from) (\<lambda>bf.
        if \<not> pb_tot_len bf \<le> pb_tot_len bt then Inr (ERR_ARG, h)
        else ending (copy_loop p_to 0 p_from 0 h))))"

partial_function (option) partial_copy_loop ::
  "nat option \<Rightarrow> byte list \<Rightarrow> u16 \<Rightarrow> u16 \<Rightarrow> u16 \<Rightarrow> heap \<Rightarrow> (u16 \<times> byte list) result option" where
  \<comment> \<open>\<open>left\<close> bytes are copied so far\<close>
  "partial_copy_loop p dst len offset left h =
     (if len = 0 \<or> p = None then Some (Inr (left, dst))
      else thenE (at h p) (\<lambda>b.
        if offset \<noteq> 0 \<and> pb_len b \<le> offset then partial_copy_loop (pb_next b) dst len (offset - pb_len b) left h
        else let n = (if len < pb_len b - offset then len else pb_len b - offset) in
             thenE (read_payload h b (unat offset) (unat n)) (\<lambda>bs.
             thenE (memcpy_at dst (int (unat left)) bs (int (unat n))) (\<lambda>dst'.
               partial_copy_loop (pb_next b) dst' (len - n) 0 (left + n) h))))"

definition pbuf_copy_partial ::
  "nat option \<Rightarrow> byte list option \<Rightarrow> u16 \<Rightarrow> u16 \<Rightarrow> heap \<Rightarrow> (u16 \<times> byte list option) result" where
  "pbuf_copy_partial buf dataptr len offset h =
     (case dataptr of
        None \<Rightarrow> Inr (0, None)
      | Some dst \<Rightarrow>
          if buf = None then Inr (0, dataptr)
          else bindE (ending (partial_copy_loop buf dst len offset 0 h)) (\<lambda>(n, dst'). Inr (n, Some dst')))"

partial_function (option) skip_loop :: "nat option \<Rightarrow> u16 \<Rightarrow> heap \<Rightarrow> (nat option \<times> u16) result option" where
  "skip_loop q offset_left h =
     (if q = None then Some (Inr (q, offset_left))
      else thenE (at h q) (\<lambda>b.
        if pb_len b \<le> offset_left then skip_loop (pb_next b) (offset_left - pb_len b) h
        else Some (Inr (q, offset_left))))"

definition pbuf_skip :: "nat option \<Rightarrow> u16 \<Rightarrow> heap \<Rightarrow> (nat option \<times> u16) result" where
  "pbuf_skip p in_offset h = ending (skip_loop p in_offset h)"

partial_function (option) take_loop :: "nat option \<Rightarrow> byte list \<Rightarrow> u16 \<Rightarrow> u16 \<Rightarrow> heap \<Rightarrow> heap result option" where
  "take_loop p data todo copied h =
     (if todo = 0 then Some (Inr h)
      else if p = None then Some (Inl AssertFail)
      else thenE (at h p) (\<lambda>b.
        let n = (if pb_len b < todo then pb_len b else todo) in
        if length data < unat copied + unat n then Some (Inl BufferOverflow)
        else thenE (write_payload h (the p) 0 (take (unat n) (drop (unat copied) data))) (\<lambda>h1.
          take_loop (pb_next b) data (todo - n) (copied + n) h1)))"

definition pbuf_take :: "nat option \<Rightarrow> byte list option \<Rightarrow> u16 \<Rightarrow> heap \<Rightarrow> (int \<times> heap) result" where
  "pbuf_take buf dataptr len h =
     (case dataptr of
        None \<Rightarrow> Inr (ERR_ARG, h)
      | Some data \<Rightarrow>
          if buf = None then Inr (ERR_ARG, h)
          else bindE (at h buf) (\<lambda>b.
            if pb_tot_len b < len then Inr (ERR_MEM, h)
            else bindE (ending (take_loop buf data len 0 h)) (\<lambda>h1. Inr (ERR_OK, h1))))"

definition pbuf_take_at :: "nat option \<Rightarrow> byte list \<Rightarrow> u16 \<Rightarrow> u16 \<Rightarrow> heap \<Rightarrow> (int \<times> heap) result" where
  "pbuf_take_at buf data len offset h =
     bindE (pbuf_skip buf offset h) (\<lambda>(q, target_offset).
       if q = None then Inr (ERR_MEM, h)
       else bindE (at h q) (\<lambda>b.
         if unat (pb_tot_len b) < unat target_offset + unat len then Inr (ERR_MEM, h)
         else let first = min (unat (pb_len b) - unat target_offset) (unat len);
                  remaining = len - of_nat first
              in if length data < first then Inl BufferOverflow
                 else bindE (write_payload h (the q) (unat target_offset) (take first data)) (\<lambda>h1.
                   if 0 < remaining then pbuf_take (pb_next b) (Some (drop first data)) remaining h1
                   else Inr (ERR_OK, h1))))"

definition pbuf_coalesce :: "pbuf_env \<Rightarrow> nat option \<Rightarrow> pbuf_layer \<Rightarrow> heap \<Rightarrow> (nat option \<times> heap) result" where
  "pbuf_coalesce e p layer h =
     bindE (at h p) (\<lambda>b.
       if pb_next b = None then Inr (p, h)
       else bindE (pbuf_alloc e layer (pb_tot_len b) PBUF_RAM h) (\<lambda>(q, h1).
         if q = None then Inr (p, h1)
         else bindE (pbuf_copy q p h1) (\<lambda>(err, h2).
           if err \<noteq> ERR_OK then Inl AssertFail
           else bindE (pbuf_free e p h2) (\<lambda>(_, h3). Inr (q, h3)))))"

section \<open>Looking into a packet\<close>

definition pbuf_get_at :: "nat option \<Rightarrow> u16 \<Rightarrow> heap \<Rightarrow> byte result" where
  "pbuf_get_at p offset h =
     bindE (pbuf_skip p offset h) (\<lambda>(q, q_idx).
       if q = None then Inr 0
       else bindE (at h q) (\<lambda>b.
         if q_idx < pb_len b then bindE (read_payload h b (unat q_idx) 1) (\<lambda>bs. Inr (hd bs)) else Inr 0))"

definition pbuf_put_at :: "nat option \<Rightarrow> u16 \<Rightarrow> byte \<Rightarrow> heap \<Rightarrow> heap result" where
  "pbuf_put_at p offset data h =
     bindE (pbuf_skip p offset h) (\<lambda>(q, q_idx).
       if q = None then Inr h
       else bindE (at h q) (\<lambda>b.
         if q_idx < pb_len b then write_payload h (the q) (unat q_idx) [data] else Inr h))"

fun compare_loop :: "nat option \<Rightarrow> u16 \<Rightarrow> byte list \<Rightarrow> nat \<Rightarrow> nat \<Rightarrow> heap \<Rightarrow> u16 result" where
  \<comment> \<open>\<open>i\<close> bytes are compared, this many are left\<close>
  "compare_loop q start s2 i 0 h = Inr 0"
| "compare_loop q start s2 i (Suc n) h =
     bindE (pbuf_get_at q (start + of_nat i) h) (\<lambda>a.
       if length s2 \<le> i then Inl BufferOverflow
       else if a \<noteq> s2 ! i then Inr (of_nat i + 1)
       else compare_loop q start s2 (Suc i) n h)"

definition pbuf_memcmp :: "nat option \<Rightarrow> u16 \<Rightarrow> byte list \<Rightarrow> u16 \<Rightarrow> heap \<Rightarrow> u16 result" where
  "pbuf_memcmp p offset s2 n h =
     bindE (ending (skip_loop p offset h)) (\<lambda>(q, start).
       if q = None then Inr 0xffff
       else bindE (at h q) (\<lambda>b.
         if start < pb_len b then compare_loop q start s2 0 (unat n) h else Inr 0xffff))"

partial_function (option) find_loop :: "nat option \<Rightarrow> byte list \<Rightarrow> u16 \<Rightarrow> u16 \<Rightarrow> u16 \<Rightarrow> heap \<Rightarrow> u16 result option" where
  "find_loop p mem mem_len i hi h =
     (if \<not> i \<le> hi then Some (Inr 0xFFFF)
      else thenE (pbuf_memcmp p i mem mem_len h) (\<lambda>plus.
        if plus = 0 then Some (Inr i) else find_loop p mem mem_len (i + 1) hi h))"

definition pbuf_memfind :: "nat option \<Rightarrow> byte list \<Rightarrow> u16 \<Rightarrow> u16 \<Rightarrow> heap \<Rightarrow> u16 result" where
  "pbuf_memfind p mem mem_len start_offset h =
     bindE (at h p) (\<lambda>b.
       if unat mem_len + unat start_offset \<le> unat (pb_tot_len b)
       then ending (find_loop p mem mem_len start_offset (pb_tot_len b - mem_len) h)
       else Inr 0xFFFF)"

definition pbuf_strstr :: "nat option \<Rightarrow> byte list option \<Rightarrow> heap \<Rightarrow> u16 result" where
  \<comment> \<open>the string without its terminator\<close>
  "pbuf_strstr p substr h =
     (case substr of
        None \<Rightarrow> Inr 0xFFFF
      | Some cs \<Rightarrow>
          if cs = [] then Inr 0xFFFF
          else bindE (at h p) (\<lambda>b.
            if pb_tot_len b = 0xFFFF \<or> 0xFFFF \<le> length cs then Inr 0xFFFF
            else pbuf_memfind p cs (of_nat (length cs)) 0 h))"

end
