(* ===== verification/Pbuf_Chains.thy ===== *)
theory Pbuf_Chains
  imports Pbuf_Ops
begin

text \<open>
  Chains of packet buffers in the heap, and the bytes of a packet: which lists of buffers a pointer
  starts, when total lengths and payload pointers are right (\<open>is_packet\<close>), and what \<open>pbuf_skip\<close> and
  \<open>pbuf_get_at\<close> do on one.
\<close>

section \<open>Live buffers\<close>

definition live :: "heap \<Rightarrow> nat \<Rightarrow> bool" where
  "live h a \<longleftrightarrow> a < length (hp_pbufs h) \<and> hp_pbufs h ! a \<noteq> None"

definition nd :: "heap \<Rightarrow> nat \<Rightarrow> pbuf" where
  "nd h a = the (hp_pbufs h ! a)"

lemma at_live: "at h (Some a) = (if live h a then Inr (nd h a) else Inl UseAfterFree)"
  by (auto simp: at_def live_def nd_def split: option.split)

lemma at_None [simp]: "at h None = Inl NullDeref"
  by (simp add: at_def)

lemma live_upd [simp]: "live (upd a f h) c \<longleftrightarrow> live h c"
  by (cases "c = a"; cases "a < length (hp_pbufs h)") (auto simp: live_def upd_def)

lemma nd_upd: "live h a \<Longrightarrow> nd (upd a f h) c = (if c = a then f (nd h a) else nd h c)"
  by (auto simp: live_def nd_def upd_def nth_list_update)

lemma nd_upd_simps [simp]:
  "live h a \<Longrightarrow> nd (upd a f h) a = f (nd h a)" "c \<noteq> a \<Longrightarrow> nd (upd a f h) c = nd h c"
  by (auto simp: live_def nd_def upd_def nth_list_update)

lemma upd_fields [simp]:
  "hp_ext (upd a f h) = hp_ext h" "hp_pending (upd a f h) = hp_pending h" "hp_log (upd a f h) = hp_log h"
  "length (hp_pbufs (upd a f h)) = length (hp_pbufs h)"
  by (simp_all add: upd_def)

lemma upd_upd: "live h a \<Longrightarrow> upd a g (upd a f h) = upd a (\<lambda>b. g (f b)) h"
  by (auto simp: upd_def live_def)

lemma heap_eqI:
  assumes "length (hp_pbufs h) = length (hp_pbufs h')" "\<And>a. live h a \<longleftrightarrow> live h' a" "\<And>a. live h a \<Longrightarrow> nd h a = nd h' a"
    "hp_ext h = hp_ext h'" "hp_pending h = hp_pending h'" "hp_log h = hp_log h'"
  shows "h = h'"
proof -
  have "hp_pbufs h = hp_pbufs h'"
  proof (rule nth_equalityI [OF assms(1)])
    fix i assume "i < length (hp_pbufs h)"
    with assms(1) assms(2,3) [of i] show "hp_pbufs h ! i = hp_pbufs h' ! i"
      by (cases "hp_pbufs h ! i"; cases "hp_pbufs h' ! i") (auto simp: live_def nd_def)
  qed
  with assms(4-6) show ?thesis by (cases h; cases h') simp
qed

section \<open>Chains\<close>

fun chain_from :: "heap \<Rightarrow> nat option \<Rightarrow> nat list \<Rightarrow> bool" where
  "chain_from h p [] \<longleftrightarrow> p = None"
| "chain_from h p (a # as) \<longleftrightarrow> p = Some a \<and> live h a \<and> chain_from h (pb_next (nd h a)) as"

lemma chain_None [simp]: "chain_from h None as \<longleftrightarrow> as = []"
  by (cases as) auto

lemma chain_Some: "chain_from h (Some a) as \<longleftrightarrow> (\<exists>bs. as = a # bs \<and> live h a \<and> chain_from h (pb_next (nd h a)) bs)"
  by (cases as) auto

lemma chain_unique: "chain_from h p as \<Longrightarrow> chain_from h p bs \<Longrightarrow> as = bs"
  by (induction as arbitrary: p bs) (auto simp: chain_Some)

lemma chain_live: "chain_from h p as \<Longrightarrow> a \<in> set as \<Longrightarrow> live h a"
  by (induction as arbitrary: p) auto

lemma chain_suffix: "chain_from h p (as @ a # bs) \<Longrightarrow> chain_from h (Some a) (a # bs)"
  by (induction as arbitrary: p) auto

lemma chain_next: "chain_from h p (as @ a # b # bs) \<Longrightarrow> pb_next (nd h a) = Some b"
  by (induction as arbitrary: p) auto

lemma chain_last: "chain_from h p (as @ [a]) \<Longrightarrow> pb_next (nd h a) = None"
  by (induction as arbitrary: p) auto

lemma chain_distinct: "chain_from h p as \<Longrightarrow> distinct as"
proof (induction as arbitrary: p)
  case (Cons a as)
  have "a \<notin> set as"
  proof
    assume "a \<in> set as"
    then obtain xs ys where s: "as = xs @ a # ys" by (meson split_list)
    then have "chain_from h (Some a) (a # ys)" using Cons.prems by (auto dest: chain_suffix)
    moreover have "chain_from h (Some a) (a # as)" using Cons.prems by simp
    ultimately show False using chain_unique s by fastforce
  qed
  with Cons show ?case by auto
qed simp

lemma chain_from_cong:
  assumes "\<And>a. a \<in> set as \<Longrightarrow> live h a \<Longrightarrow> live h' a \<and> pb_next (nd h' a) = pb_next (nd h a)"
  shows "chain_from h p as \<Longrightarrow> chain_from h' p as"
  using assms by (induction as arbitrary: p) auto

section \<open>Contents\<close>

definition plen :: "heap \<Rightarrow> nat \<Rightarrow> nat" where
  "plen h a = unat (pb_len (nd h a))"

definition lens :: "heap \<Rightarrow> nat list \<Rightarrow> nat" where
  "lens h as = sum_list (map (plen h) as)"

fun tots_ok :: "heap \<Rightarrow> nat list \<Rightarrow> bool" where
  \<comment> \<open>the documented invariant of the total lengths\<close>
  "tots_ok h [] = True"
| "tots_ok h (a # as) \<longleftrightarrow> unat (pb_tot_len (nd h a)) = plen h a + lens h as \<and> tots_ok h as"

definition payload_ok :: "heap \<Rightarrow> nat \<Rightarrow> bool" where
  "payload_ok h a \<longleftrightarrow>
     (let (m, d) = block h (nd h a)
      in plen h a = 0 \<or> pb_payload (nd h a) \<noteq> NoPayload \<and> 0 \<le> d \<and> nat d + plen h a \<le> length m)"

definition payload_bytes :: "heap \<Rightarrow> nat \<Rightarrow> byte list" where
  "payload_bytes h a = (let (m, d) = block h (nd h a) in if plen h a = 0 then [] else take (plen h a) (drop (nat d) m))"

definition is_packet :: "heap \<Rightarrow> nat option \<Rightarrow> nat list \<Rightarrow> bool" where
  "is_packet h p as \<longleftrightarrow> chain_from h p as \<and> tots_ok h as \<and> (\<forall>a\<in>set as. payload_ok h a)"

definition packet_bytes :: "heap \<Rightarrow> nat list \<Rightarrow> byte list" where
  "packet_bytes h as = concat (map (payload_bytes h) as)"

lemma lens_simps [simp]: "lens h [] = 0" "lens h (a # as) = plen h a + lens h as" "lens h (as @ bs) = lens h as + lens h bs"
  by (simp_all add: lens_def)

lemma packet_bytes_simps [simp]:
  "packet_bytes h [] = []" "packet_bytes h (a # as) = payload_bytes h a @ packet_bytes h as"
  "packet_bytes h (as @ bs) = packet_bytes h as @ packet_bytes h bs"
  by (simp_all add: packet_bytes_def)

lemma length_payload: "payload_ok h a \<Longrightarrow> length (payload_bytes h a) = plen h a"
  by (auto simp: payload_ok_def payload_bytes_def Let_def split: prod.splits)

lemma length_packet: "is_packet h p as \<Longrightarrow> length (packet_bytes h as) = lens h as"
proof -
  assume "is_packet h p as"
  then have "\<forall>a\<in>set as. payload_ok h a" by (simp add: is_packet_def)
  then show ?thesis by (induction as) (auto simp: length_payload)
qed

lemma packet_None [simp]: "is_packet h None as \<longleftrightarrow> as = []"
  by (auto simp: is_packet_def)

lemma packet_Cons: "is_packet h p (a # as) \<longleftrightarrow> p = Some a \<and> live h a \<and> payload_ok h a \<and>
    unat (pb_tot_len (nd h a)) = plen h a + lens h as \<and> is_packet h (pb_next (nd h a)) as"
  by (auto simp: is_packet_def)

lemma packet_Some: "is_packet h (Some a) as \<Longrightarrow> \<exists>bs. as = a # bs"
  by (auto simp: is_packet_def chain_Some)

lemma u16_bound: "unat (x :: u16) < 65536"
  using unsigned_less [of x, where ?'a = nat] by simp

lemma packet_total: "is_packet h p as \<Longrightarrow> lens h as < 65536"
proof (cases as)
  case (Cons a bs)
  assume "is_packet h p as"
  then have "unat (pb_tot_len (nd h a)) = lens h as" by (simp add: Cons packet_Cons)
  with u16_bound [of "pb_tot_len (nd h a)"] show ?thesis by simp
qed simp

lemma read_payload_ok:
  assumes "payload_ok h a" "off + n \<le> plen h a"
  shows "read_payload h (nd h a) off n = Inr (take n (drop off (payload_bytes h a)))"
proof (cases "n = 0")
  case True
  then show ?thesis by (simp add: read_payload_def split: prod.split)
next
  case False
  obtain m d where b: "block h (nd h a) = (m, d)" by (cases "block h (nd h a)")
  then have r: "pb_payload (nd h a) \<noteq> NoPayload" "0 \<le> d" "nat d + plen h a \<le> length m" "plen h a \<noteq> 0"
    using assms False by (auto simp: payload_ok_def)
  then have "take n (drop off (payload_bytes h a)) = take n (drop (nat (d + int off)) m)"
    using assms(2) by (simp add: payload_bytes_def b nat_add_distrib add.commute take_drop min_def)
  moreover have "\<not> int (length m) < d + int off + int n" using r(2,3) assms(2) by linarith
  ultimately show ?thesis using r False by (simp add: read_payload_def b Let_def)
qed

lemma packet_suffix: "is_packet h p (xs @ a # ys) \<Longrightarrow> is_packet h (Some a) (a # ys)"
  by (induction xs arbitrary: p) (auto simp: packet_Cons)

section \<open>Looking into a packet\<close>

lemma skip_loop_packet:
  assumes "is_packet h p as"
  shows "if unat off < lens h as
    then \<exists>xs a ys r. as = xs @ a # ys \<and> skip_loop p off h = Some (Inr (Some a, r)) \<and>
           unat off = lens h xs + unat r \<and> unat r < plen h a
    else \<exists>r. skip_loop p off h = Some (Inr (None, r))"
  using assms
proof (induction as arbitrary: p off)
  case Nil
  then have "p = None" by (simp add: is_packet_def)
  then show ?case by (subst skip_loop.simps) simp
next
  case (Cons a as)
  then have p: "p = Some a" "live h a" "is_packet h (pb_next (nd h a)) as" by (auto simp: packet_Cons)
  show ?case
  proof (cases "pb_len (nd h a) \<le> off")
    case True
    then have u: "unat (off - pb_len (nd h a)) = unat off - plen h a" "plen h a \<le> unat off"
      by (simp_all add: unat_sub plen_def word_le_nat_alt)
    have s: "skip_loop p off h = skip_loop (pb_next (nd h a)) (off - pb_len (nd h a)) h"
      using p True by (subst skip_loop.simps) (simp add: at_live)
    show ?thesis
    proof (cases "unat off < lens h (a # as)")
      case T: True
      then have "unat (off - pb_len (nd h a)) < lens h as" using u by simp
      with Cons.IH [OF p(3), of "off - pb_len (nd h a)"] obtain xs b ys r where
        "as = xs @ b # ys" "skip_loop (pb_next (nd h a)) (off - pb_len (nd h a)) h = Some (Inr (Some b, r))"
        "unat off - plen h a = lens h xs + unat r" "unat r < plen h b"
        using u by auto
      then have "a # as = (a # xs) @ b # ys \<and> skip_loop p off h = Some (Inr (Some b, r)) \<and>
          unat off = lens h (a # xs) + unat r \<and> unat r < plen h b"
        using s u(2) by auto
      with T show ?thesis by (metis (no_types, lifting))
    next
      case False
      then have "\<not> unat (off - pb_len (nd h a)) < lens h as" using u by simp
      with Cons.IH [OF p(3), of "off - pb_len (nd h a)"] False show ?thesis unfolding s by auto
    qed
  next
    case False
    then have o: "unat off < plen h a" by (simp add: plen_def word_le_nat_alt)
    have "skip_loop p off h = Some (Inr (Some a, off))"
      using p False by (subst skip_loop.simps) (simp add: at_live)
    then have "a # as = [] @ a # as \<and> skip_loop p off h = Some (Inr (Some a, off)) \<and>
        unat off = lens h [] + unat off \<and> unat off < plen h a"
      using o by simp
    moreover have "unat off < lens h (a # as)" using o by simp
    ultimately show ?thesis by (metis (no_types, lifting))
  qed
qed

lemma nth_packet:
  assumes "is_packet h p (xs @ a # ys)" "r < plen h a"
  shows "packet_bytes h (xs @ a # ys) ! (lens h xs + r) = payload_bytes h a ! r"
proof -
  have ok: "\<forall>b\<in>set (xs @ a # ys). payload_ok h b" using assms(1) by (simp add: is_packet_def)
  then have "length (packet_bytes h xs) = lens h xs"
    by (induction xs) (auto simp: length_payload)
  moreover have "length (payload_bytes h a) = plen h a" using ok by (simp add: length_payload)
  ultimately show ?thesis using assms(2) by (simp add: nth_append)
qed

lemma get_at_packet:
  assumes "is_packet h p as"
  shows "pbuf_get_at p off h =
    Inr (if unat off < lens h as then packet_bytes h as ! unat off else 0)"
proof (cases "unat off < lens h as")
  case True
  then obtain xs a ys r where s: "as = xs @ a # ys" "skip_loop p off h = Some (Inr (Some a, r))"
    "unat off = lens h xs + unat r" "unat r < plen h a"
    using skip_loop_packet [OF assms, of off] by auto
  have a: "live h a" "payload_ok h a"
    using packet_suffix [OF assms [unfolded s(1)]] by (simp_all add: packet_Cons)
  have "read_payload h (nd h a) (unat r) 1 = Inr (take 1 (drop (unat r) (payload_bytes h a)))"
    using s(4) by (intro read_payload_ok [OF a(2)]) simp
  moreover have "hd (take 1 (drop (unat r) (payload_bytes h a))) = payload_bytes h a ! unat r"
    using s(4) length_payload [OF a(2)] by (simp add: hd_drop_conv_nth take_Suc hd_conv_nth)
  moreover have "r < pb_len (nd h a)" using s(4) by (simp add: plen_def word_less_nat_alt)
  ultimately have "pbuf_get_at p off h = Inr (payload_bytes h a ! unat r)"
    using s(2) a(1) by (simp add: pbuf_get_at_def pbuf_skip_def at_live)
  then show ?thesis using True nth_packet [OF assms [unfolded s(1)] s(4)] s(1,3) by simp
next
  case False
  then obtain r where "skip_loop p off h = Some (Inr (None, r))" using skip_loop_packet [OF assms, of off] by auto
  with False show ?thesis by (simp add: pbuf_get_at_def pbuf_skip_def)
qed

end
