(* ===== verification/Pbuf_Owners.thy ===== *)
theory Pbuf_Owners
  imports Pbuf_Chains "HOL-Library.Multiset"
begin

text \<open>
  Who owns the buffers. \<open>owned h ow\<close> says that every live buffer is counted exactly as often as the
  program (\<open>ow\<close>) and the next pointers refer to it. \<open>pbuf_free\<close> gives one reference up: the buffers
  that go are those nothing else reaches.
\<close>

section \<open>Editing the buffers of a heap\<close>

definition edit :: "(nat \<Rightarrow> pbuf \<Rightarrow> pbuf) \<Rightarrow> heap \<Rightarrow> heap" where
  "edit g h = h\<lparr>hp_pbufs := map (\<lambda>i. map_option (g i) (hp_pbufs h ! i)) [0..<length (hp_pbufs h)]\<rparr>"

lemma live_edit [simp]: "live (edit g h) c \<longleftrightarrow> live h c"
  by (auto simp: live_def edit_def)

lemma nd_edit: "live h c \<Longrightarrow> nd (edit g h) c = g c (nd h c)"
  by (auto simp: live_def nd_def edit_def)

lemma edit_fields [simp]:
  "hp_ext (edit g h) = hp_ext h" "hp_pending (edit g h) = hp_pending h" "hp_log (edit g h) = hp_log h"
  "length (hp_pbufs (edit g h)) = length (hp_pbufs h)"
  by (simp_all add: edit_def)

lemma edit_id: "(\<And>c. live h c \<Longrightarrow> g c (nd h c) = nd h c) \<Longrightarrow> edit g h = h"
  by (rule heap_eqI) (simp_all add: nd_edit)

lemma edit_edit: "edit g (edit f h) = edit (\<lambda>c b. g c (f c b)) h"
  by (rule heap_eqI) (simp_all add: nd_edit)

lemma edit_cong: "(\<And>c. live h c \<Longrightarrow> g c (nd h c) = f c (nd h c)) \<Longrightarrow> edit g h = edit f h"
  by (rule heap_eqI) (simp_all add: nd_edit)

lemma upd_edit: "live h a \<Longrightarrow> upd a f h = edit (\<lambda>c b. if c = a then f b else b) h"
  by (rule heap_eqI) (simp_all add: nd_edit nd_upd)

lemma release_pbufs [simp]: "hp_pbufs (release e a b h) = (hp_pbufs h)[a := None]" "hp_ext (release e a b h) = hp_ext h"
  by (auto simp: release_def log_event_def split: option.splits)

lemma live_after_release [simp]: "live (release e a b h) c \<longleftrightarrow> live h c \<and> c \<noteq> a"
  by (cases "c = a"; cases "a < length (hp_pbufs h)") (auto simp: live_def)

lemma nd_release [simp]: "c \<noteq> a \<Longrightarrow> nd (release e a b h) c = nd h c"
  by (simp add: nd_def)

section \<open>References\<close>

definition link :: "nat option \<Rightarrow> nat multiset" where
  "link p = (case p of None \<Rightarrow> {#} | Some a \<Rightarrow> {#a#})"

definition link_of :: "pbuf option \<Rightarrow> nat multiset" where
  "link_of b = (case b of None \<Rightarrow> {#} | Some b \<Rightarrow> link (pb_next b))"

definition nexts :: "heap \<Rightarrow> nat multiset" where
  \<comment> \<open>the buffers the next pointers of live buffers lead to\<close>
  "nexts h = sum_list (map link_of (hp_pbufs h))"

lemma link_simps [simp]: "link None = {#}" "link (Some a) = {#a#}"
  by (simp_all add: link_def)

lemma finite_live [simp]: "finite {a. live h a}"
  by (rule finite_subset [of _ "{..<length (hp_pbufs h)}"]) (auto simp: live_def)

lemma nexts_sum: "nexts h = (\<Sum>a | live h a. link (pb_next (nd h a)))"
proof -
  have "nexts h = (\<Sum>i\<in>{0..<length (hp_pbufs h)}. link_of (hp_pbufs h ! i))"
    by (simp add: nexts_def sum_list_sum_nth)
  also have "\<dots> = (\<Sum>a | live h a. link_of (hp_pbufs h ! a))"
    by (intro sum.mono_neutral_right) (auto simp: live_def link_of_def)
  also have "\<dots> = (\<Sum>a | live h a. link (pb_next (nd h a)))"
    by (intro sum.cong) (auto simp: live_def link_of_def nd_def)
  finally show ?thesis .
qed

lemma nexts_cong:
  assumes "\<And>c. live h c \<longleftrightarrow> live h' c" "\<And>c. live h c \<Longrightarrow> pb_next (nd h c) = pb_next (nd h' c)"
  shows "nexts h = nexts h'"
  unfolding nexts_sum using assms by (intro sum.cong) auto

lemma nexts_upd: "live h a \<Longrightarrow> nexts (upd a f h) + link (pb_next (nd h a)) = nexts h + link (pb_next (f (nd h a)))"
proof -
  assume a: "live h a"
  have "(\<Sum>c\<in>{c. live h c} - {a}. link (pb_next (nd (upd a f h) c))) = (\<Sum>c\<in>{c. live h c} - {a}. link (pb_next (nd h c)))"
    by (intro sum.cong) auto
  then show ?thesis
    using a by (simp add: nexts_sum sum.remove [of _ a] ac_simps)
qed

lemma nexts_release: "live h a \<Longrightarrow> nexts (release e a b h) + link (pb_next (nd h a)) = nexts h"
proof -
  assume a: "live h a"
  have s: "{c. live h c \<and> c \<noteq> a} = {c. live h c} - {a}" by auto
  have "(\<Sum>c\<in>{c. live h c} - {a}. link (pb_next (nd (release e a b h) c))) = (\<Sum>c\<in>{c. live h c} - {a}. link (pb_next (nd h c)))"
    by (intro sum.cong) auto
  then show ?thesis using a by (simp add: nexts_sum sum.remove [of _ a] ac_simps s)
qed

lemma next_in_nexts: "live h a \<Longrightarrow> pb_next (nd h a) = Some b \<Longrightarrow> b \<in># nexts h"
  by (simp add: nexts_sum sum.remove [of _ a])

lemma in_nextsD: "b \<in># nexts h \<Longrightarrow> \<exists>a. live h a \<and> pb_next (nd h a) = Some b"
proof -
  assume "b \<in># nexts h"
  then obtain a where "live h a" "b \<in># link (pb_next (nd h a))"
    by (auto simp: nexts_sum set_mset_sum)
  then show ?thesis by (cases "pb_next (nd h a)") auto
qed

lemma chain_in_nexts: "chain_from h p as \<Longrightarrow> a \<in> set as \<Longrightarrow> p = Some a \<or> a \<in># nexts h"
proof (induction as arbitrary: p)
  case (Cons c as)
  then show ?case using next_in_nexts [of h c] by auto
qed simp

section \<open>Who owns the buffers\<close>

definition owned :: "heap \<Rightarrow> nat multiset \<Rightarrow> bool" where
  \<comment> \<open>\<open>ow\<close>: one entry for every reference the program holds\<close>
  "owned h ow \<longleftrightarrow>
     (\<forall>a. live h a \<longleftrightarrow> a \<in># ow + nexts h) \<and>
     (\<forall>a. live h a \<longrightarrow> unat (pb_ref (nd h a)) = count (ow + nexts h) a) \<and>
     (\<forall>a. live h a \<longrightarrow> (\<exists>as. chain_from h (Some a) as))"

lemma ownedI:
  assumes "\<And>a. live h a \<longleftrightarrow> a \<in># ow + nexts h"
    "\<And>a. live h a \<Longrightarrow> unat (pb_ref (nd h a)) = count (ow + nexts h) a"
    "\<And>a. live h a \<Longrightarrow> \<exists>as. chain_from h (Some a) as"
  shows "owned h ow"
  using assms by (simp add: owned_def)

lemma owned_live: "owned h ow \<Longrightarrow> a \<in># ow \<Longrightarrow> live h a"
  by (simp add: owned_def)

lemma owned_iff: "owned h ow \<Longrightarrow> live h a \<longleftrightarrow> a \<in># ow + nexts h"
  unfolding owned_def by blast

lemma owned_ref: "owned h ow \<Longrightarrow> live h a \<Longrightarrow> unat (pb_ref (nd h a)) = count (ow + nexts h) a"
  by (simp add: owned_def)

lemma owned_chain: "owned h ow \<Longrightarrow> live h a \<Longrightarrow> \<exists>as. chain_from h (Some a) as"
  by (simp add: owned_def)

definition reaches :: "heap \<Rightarrow> nat multiset \<Rightarrow> nat \<Rightarrow> bool" where
  "reaches h ow a \<longleftrightarrow> (\<exists>c as. c \<in># ow \<and> chain_from h (Some c) as \<and> a \<in> set as)"

lemma reached_live: "reaches h ow a \<Longrightarrow> live h a"
  by (auto simp: reaches_def dest: chain_live)

lemma owned_reached:
  assumes "owned h ow" "live h a"
  shows "reaches h ow a"
proof -
  obtain as where "chain_from h (Some a) as" using owned_chain [OF assms] by auto
  with assms(2) show ?thesis
  proof (induction "length (hp_pbufs h) - length as" arbitrary: a as rule: less_induct)
    case less
    from less.prems(1) assms(1) have "a \<in># ow \<or> a \<in># nexts h" by (simp add: owned_def)
    then show ?case
    proof
      assume "a \<in># ow"
      moreover have "a \<in> set as" using less.prems(2) by (auto simp: chain_Some)
      ultimately show ?thesis using less.prems(2) by (auto simp: reaches_def)
    next
      assume "a \<in># nexts h"
      then obtain c where c: "live h c" "pb_next (nd h c) = Some a" using in_nextsD by blast
      then have ch: "chain_from h (Some c) (c # as)" using less.prems(2) by simp
      have "length as < length (hp_pbufs h)"
      proof -
        have "set (c # as) \<subseteq> {..<length (hp_pbufs h)}" using chain_live [OF ch] by (auto simp: live_def)
        then have "card (set (c # as)) \<le> length (hp_pbufs h)" using card_mono [of "{..<length (hp_pbufs h)}"] by fastforce
        then show ?thesis using distinct_card [OF chain_distinct [OF ch]] by simp
      qed
      then have "length (hp_pbufs h) - length (c # as) < length (hp_pbufs h) - length as" by simp
      from less.hyps [OF this c(1) ch] obtain d ds where "d \<in># ow" "chain_from h (Some d) ds" "c \<in> set ds"
        by (auto simp: reaches_def)
      moreover from this(2,3) have "a \<in> set ds"
      proof -
        obtain xs ys where s: "ds = xs @ c # ys" using \<open>c \<in> set ds\<close> by (meson split_list)
        then have "chain_from h (Some c) (c # ys)" using \<open>chain_from h (Some d) ds\<close> chain_suffix by blast
        then have "ys = as" using ch chain_unique by blast
        then show ?thesis using s less.prems(2) by (auto simp: chain_Some)
      qed
      ultimately show ?thesis by (auto simp: reaches_def)
    qed
  qed
qed

lemma owned_none: "owned h {#} \<Longrightarrow> \<not> live h a"
  using owned_reached [of h "{#}" a] by (auto simp: reaches_def)

lemma owned_keep:
  assumes "owned h ow" "\<And>c. live h' c \<longleftrightarrow> live h c"
    "\<And>c. live h c \<Longrightarrow> pb_next (nd h' c) = pb_next (nd h c) \<and> pb_ref (nd h' c) = pb_ref (nd h c)"
  shows "owned h' ow"
proof -
  have n: "nexts h' = nexts h" using assms(2,3) by (intro nexts_cong) auto
  have "\<exists>as. chain_from h' (Some a) as" if "live h a" for a
  proof -
    obtain as where "chain_from h (Some a) as" using owned_chain [OF assms(1) \<open>live h a\<close>] by auto
    then have "chain_from h' (Some a) as" using assms(2,3) by (elim chain_from_cong [rotated]) auto
    then show ?thesis by blast
  qed
  with assms show ?thesis unfolding owned_def n by auto
qed

section \<open>Freeing\<close>

definition body :: "pbuf \<Rightarrow> pbuf" where
  \<comment> \<open>everything but the counter\<close>
  "body b = b\<lparr>pb_ref := 0\<rparr>"

lemma body_ref [simp]: "body (b\<lparr>pb_ref := r\<rparr>) = body b"
  by (simp add: body_def)

lemma body_eqD:
  assumes "body b = body c"
  shows "pb_next b = pb_next c" "pb_len b = pb_len c" "pb_tot_len b = pb_tot_len c" "pb_payload b = pb_payload c"
    "pb_mem b = pb_mem c" "pb_type b = pb_type c"
proof -
  have "f (body b) = f (body c)" for f :: "pbuf \<Rightarrow> 'x" using assms by simp
  from this [of pb_next] this [of pb_len] this [of pb_tot_len] this [of pb_payload] this [of pb_mem] this [of pb_type]
  show "pb_next b = pb_next c" "pb_len b = pb_len c" "pb_tot_len b = pb_tot_len c" "pb_payload b = pb_payload c"
    "pb_mem b = pb_mem c" "pb_type b = pb_type c" by (simp_all add: body_def)
qed

definition keeps :: "heap \<Rightarrow> heap \<Rightarrow> bool" where
  \<comment> \<open>only counters changed, and buffers went\<close>
  "keeps h h' \<longleftrightarrow> hp_ext h' = hp_ext h \<and> length (hp_pbufs h') = length (hp_pbufs h) \<and>
     (\<forall>c. live h' c \<longrightarrow> live h c \<and> body (nd h' c) = body (nd h c))"

lemma keepsD:
  assumes "keeps h h'" "live h' c"
  shows "live h c" "pb_next (nd h' c) = pb_next (nd h c)" "pb_len (nd h' c) = pb_len (nd h c)"
    "pb_tot_len (nd h' c) = pb_tot_len (nd h c)" "pb_payload (nd h' c) = pb_payload (nd h c)"
    "pb_mem (nd h' c) = pb_mem (nd h c)" "pb_type (nd h' c) = pb_type (nd h c)"
  using assms body_eqD [of "nd h' c" "nd h c"] by (auto simp: keeps_def)

lemma keeps_refl [simp]: "keeps h h"
  by (simp add: keeps_def)

lemma keeps_trans: "keeps h h1 \<Longrightarrow> keeps h1 h2 \<Longrightarrow> keeps h h2"
  by (simp add: keeps_def)

lemma keeps_upd_ref: "live h a \<Longrightarrow> keeps h (upd a (\<lambda>b. b\<lparr>pb_ref := r\<rparr>) h)"
  by (simp add: keeps_def nd_upd)

lemma keeps_release: "keeps h (release e a b h)"
  by (simp add: keeps_def)

lemma drop_ref:
  assumes "owned h (add_mset a ow)" "pb_ref (nd h a) \<noteq> 1"
  shows "owned (upd a (\<lambda>b. b\<lparr>pb_ref := pb_ref (nd h a) - 1\<rparr>) h) ow" (is "owned ?h _")
proof -
  have a: "live h a" using assms(1) by (simp add: owned_def)
  have r: "unat (pb_ref (nd h a)) = Suc (count (ow + nexts h) a)" using owned_ref [OF assms(1) a] by simp
  have r1: "unat (pb_ref (nd h a) - 1) = count (ow + nexts h) a"
    using r by (subst unat_sub) (simp_all add: word_le_nat_alt)
  have pos: "count (ow + nexts h) a \<noteq> 0" using r assms(2) by (metis One_nat_def unat_1 word_unat_eq_iff)
  have n: "nexts ?h = nexts h" using a by (intro nexts_cong) (auto simp: nd_upd)
  show ?thesis
  proof (rule ownedI)
    fix c
    show "live ?h c \<longleftrightarrow> c \<in># ow + nexts ?h"
      using assms(1) pos unfolding owned_def n by (auto simp: count_eq_zero_iff)
    show "unat (pb_ref (nd ?h c)) = count (ow + nexts ?h) c" if "live ?h c"
      using that owned_ref [OF assms(1), of c] r1 a unfolding n by (auto simp: nd_upd)
    show "\<exists>as. chain_from ?h (Some c) as" if "live ?h c"
    proof -
      obtain as where "chain_from h (Some c) as" using owned_chain [OF assms(1), of c] \<open>live ?h c\<close> by auto
      then have "chain_from ?h (Some c) as" using a by (elim chain_from_cong [rotated]) (auto simp: nd_upd)
      then show ?thesis by blast
    qed
  qed
qed

lemma drop_last:
  assumes "owned h (add_mset a ow)" "pb_ref (nd h a) = 1"
  shows "owned (release e a b (upd a (\<lambda>b. b\<lparr>pb_ref := 0\<rparr>) h)) (ow + link (pb_next (nd h a)))" (is "owned ?h _")
proof -
  have a: "live h a" using assms(1) by (simp add: owned_def)
  have z: "count (ow + nexts h) a = 0" using owned_ref [OF assms(1) a] assms(2) by simp
  have "nexts (upd a (\<lambda>b. b\<lparr>pb_ref := 0\<rparr>) h) = nexts h" using a by (intro nexts_cong) (auto simp: nd_upd)
  then have n: "ow + link (pb_next (nd h a)) + nexts ?h = ow + nexts h"
    using nexts_release [of "upd a (\<lambda>b. b\<lparr>pb_ref := 0\<rparr>) h" a e b] a by (simp add: ac_simps)
  show ?thesis
  proof (rule ownedI, unfold n)
    fix c
    show "live ?h c \<longleftrightarrow> c \<in># ow + nexts h"
      using assms(1) z by (auto simp: owned_def count_eq_zero_iff)
    show "unat (pb_ref (nd ?h c)) = count (ow + nexts h) c" if "live ?h c"
      using that owned_ref [OF assms(1), of c] by auto
    show "\<exists>as. chain_from ?h (Some c) as" if "live ?h c"
    proof -
      have c: "live h c" "c \<noteq> a" using that by auto
      obtain as where as: "chain_from h (Some c) as" using owned_chain [OF assms(1) c(1)] by auto
      have "a \<notin> set as" using chain_in_nexts [OF as, of a] c(2) z by (auto simp: count_eq_zero_iff)
      then have "chain_from ?h (Some c) as" using as a
        by (elim chain_from_cong [rotated]) (metis live_after_release live_upd nd_release nd_upd_simps(2))
      then show ?thesis by blast
    qed
  qed
qed

lemma live_count_card: "live_count h = card {a. live h a}"
proof -
  have "{i. i < length (hp_pbufs h) \<and> hp_pbufs h ! i \<noteq> None} = {a. live h a}" by (auto simp: live_def)
  then show ?thesis by (simp add: live_count_def length_filter_conv_card)
qed

lemma live_count_drop: "live h a \<Longrightarrow> live_count h = Suc (live_count (release e a b (upd a f h)))"
proof -
  assume "live h a"
  moreover have "{c. live h c \<and> c \<noteq> a} = {c. live h c} - {a}" by auto
  ultimately show ?thesis using card_Suc_Diff1 [of "{c. live h c}" a] by (simp add: live_count_card)
qed

lemma live_count_mono: "keeps h h' \<Longrightarrow> live_count h' \<le> live_count h"
  unfolding live_count_card by (intro card_mono) (auto simp: keeps_def)

lemma free_loop_owned:
  "owned h (ow + link p) \<Longrightarrow>
     \<exists>n h'. free_loop e p k h = Inr (n, h') \<and> owned h' ow \<and> keeps h h' \<and>
            n = k + of_nat (live_count h - live_count h')"
proof (induction e p k h arbitrary: ow rule: free_loop.induct)
  case (1 e p k h)
  show ?case
  proof (cases p)
    case None
    then show ?thesis using 1(2) by (subst free_loop.simps) simp
  next
    case (Some a)
    have own: "owned h (add_mset a ow)" using 1(2) Some by simp
    then have a: "live h a" by (simp add: owned_def)
    have at: "at h p = Inr (nd h a)" using a Some by (simp add: at_live)
    have pos: "0 < pb_ref (nd h a)" using owned_ref [OF own a] by (simp add: word_less_nat_alt)
    let ?h1 = "upd a (\<lambda>b. b\<lparr>pb_ref := pb_ref (nd h a) - 1\<rparr>) h"
    show ?thesis
    proof (cases "pb_ref (nd h a) = 1")
      case False
      then have "free_loop e p k h = Inr (k, ?h1)"
        using at pos Some by (subst free_loop.simps) (simp add: Let_def)
      moreover have "live_count ?h1 = live_count h" by (simp add: live_count_card)
      moreover note drop_ref [OF own False] keeps_upd_ref [OF a]
      ultimately show ?thesis by auto
    next
      case True
      let ?h2 = "release e a (nd h a) (upd a (\<lambda>b. b\<lparr>pb_ref := 0\<rparr>) h)"
      have s: "free_loop e p k h = free_loop e (pb_next (nd h a)) (k + 1) ?h2"
        using at pos True Some by (subst free_loop.simps) (simp add: Let_def)
      have "owned ?h2 (ow + link (pb_next (nd h a)))" by (rule drop_last [OF own True])
      then obtain n h' where h': "free_loop e (pb_next (nd h a)) (k + 1) ?h2 = Inr (n, h')" "owned h' ow"
        "keeps ?h2 h'" "n = k + 1 + of_nat (live_count ?h2 - live_count h')"
        using 1(1) [OF _ at _ refl refl, of ow] pos True Some by auto
      have "keeps h ?h2" using keeps_trans [OF keeps_upd_ref [OF a] keeps_release] .
      then have "keeps h h'" using h'(3) keeps_trans by blast
      moreover have "live_count h - live_count h' = Suc (live_count ?h2 - live_count h')"
        using live_count_drop [OF a, of e "nd h a" "\<lambda>b. b\<lparr>pb_ref := 0\<rparr>"] live_count_mono [OF h'(3)] by (simp add: Suc_diff_le)
      ultimately show ?thesis using s h' by auto
    qed
  qed
qed

lemma keeps_chain: "keeps h h' \<Longrightarrow> chain_from h' p as \<Longrightarrow> chain_from h p as"
  using keepsD by (elim chain_from_cong [rotated]) simp

lemma keeps_reaches:
  assumes "keeps h h'" "owned h' ow"
  shows "reaches h ow c \<longleftrightarrow> live h' c"
proof
  assume "live h' c"
  then have "reaches h' ow c" by (rule owned_reached [OF assms(2)])
  then show "reaches h ow c" using keeps_chain [OF assms(1)] by (auto simp: reaches_def)
next
  assume "reaches h ow c"
  then obtain d ds where d: "d \<in># ow" "chain_from h (Some d) ds" "c \<in> set ds" by (auto simp: reaches_def)
  obtain es where es: "chain_from h' (Some d) es" using owned_chain [OF assms(2) owned_live [OF assms(2) d(1)]] by auto
  then have "es = ds" using d(2) keeps_chain [OF assms(1)] chain_unique by blast
  then show "live h' c" using es d(3) chain_live by blast
qed

lemma free_owned:
  assumes "owned h (add_mset a ow)"
  obtains n h' where "pbuf_free e (Some a) h = Inr (n, h')" "owned h' ow" "keeps h h'"
    "n = of_nat (live_count h - live_count h')"
  using free_loop_owned [of h ow "Some a" e 0] assms by (auto simp: pbuf_free_def)

lemma live_count_diff:
  "keeps h h' \<Longrightarrow> live_count h - live_count h' = card {a. live h a \<and> \<not> live h' a}"
proof -
  assume k: "keeps h h'"
  then have "{a. live h' a} \<subseteq> {a. live h a}" by (auto simp: keeps_def)
  then have "card ({a. live h a} - {a. live h' a}) = card {a. live h a} - card {a. live h' a}"
    by (intro card_Diff_subset) auto
  moreover have "{a. live h a} - {a. live h' a} = {a. live h a \<and> \<not> live h' a}" by auto
  ultimately show ?thesis by (simp add: live_count_card)
qed

end
