(* ===== verification/Pbuf_New.thy ===== *)
theory Pbuf_New
  imports Pbuf_Owners
begin

text \<open>
  \<open>pbuf_alloc\<close>: a chain of new buffers of the length asked for, each inside its memory, or nothing
  at all; what was there before does not change.
\<close>

section \<open>New buffers\<close>

abbreviation append_pbuf :: "heap \<Rightarrow> pbuf \<Rightarrow> heap" where
  "append_pbuf h b \<equiv> h\<lparr>hp_pbufs := hp_pbufs h @ [Some b]\<rparr>"

lemma live_append [simp]: "live (append_pbuf h b) c \<longleftrightarrow> live h c \<or> c = length (hp_pbufs h)"
  by (auto simp: live_def nth_append)

lemma nd_append: "nd (append_pbuf h b) c = (if c = length (hp_pbufs h) then b else nd h c)" if "live (append_pbuf h b) c"
  using that by (auto simp: live_def nd_def nth_append)

lemma upd_append [simp]: "upd (length (hp_pbufs h)) f (append_pbuf h b) = append_pbuf h (f b)"
  by (simp add: upd_def)

lemma upd_append_other: "live h a \<Longrightarrow> upd a f (append_pbuf h b) = append_pbuf (upd a f h) b"
  by (simp add: upd_def live_def nth_append list_update_append)

lemma not_live_length [simp]: "\<not> live h (length (hp_pbufs h))"
  by (simp add: live_def)

lemma nexts_append: "nexts (append_pbuf h b) = nexts h + link (pb_next b)"
  by (simp add: nexts_def link_of_def)

lemma chain_append: "chain_from h p as \<Longrightarrow> chain_from (append_pbuf h b) p as"
  by (elim chain_from_cong [rotated]) (auto simp: live_def nd_def nth_append)

lemma owned_append:
  assumes "owned h ow" "pb_next b = None" "pb_ref b = 1"
  shows "owned (append_pbuf h b) (add_mset (length (hp_pbufs h)) ow)" (is "owned ?h ?ow")
proof -
  have n: "nexts ?h = nexts h" using assms(2) by (simp add: nexts_append)
  have z: "length (hp_pbufs h) \<notin># ow + nexts h" using owned_iff [OF assms(1)] not_live_length by blast
  show ?thesis
  proof (rule ownedI, unfold n)
    fix c
    show "live ?h c \<longleftrightarrow> c \<in># ?ow + nexts h" using assms(1) by (auto simp: owned_def)
    assume l: "live ?h c"
    show "unat (pb_ref (nd ?h c)) = count (?ow + nexts h) c"
    proof (cases "c = length (hp_pbufs h)")
      case True
      then show ?thesis using l z assms(3) by (simp add: nd_append not_in_iff)
    next
      case False
      then show ?thesis using l owned_ref [OF assms(1), of c] by (simp add: nd_append)
    qed
    show "\<exists>as. chain_from ?h (Some c) as"
    proof (cases "live h c")
      case True
      then show ?thesis using owned_chain [OF assms(1)] chain_append by blast
    next
      case False
      then have "c = length (hp_pbufs h)" using l by simp
      then have "chain_from ?h (Some c) [c]" using assms(2) by (simp add: nd_append)
      then show ?thesis by blast
    qed
  qed
qed

lemma new_pbuf_cases:
  "new_pbuf e sz h = (None, h) \<or>
   (\<exists>b. new_pbuf e sz h = (Some (length (hp_pbufs h)), append_pbuf h b) \<and> length (pb_mem b) = sz - SIZEOF_STRUCT_PBUF)"
  by (auto simp: new_pbuf_def fit_def Let_def)

section \<open>Allocation\<close>

definition extends :: "heap \<Rightarrow> heap \<Rightarrow> bool" where
  \<comment> \<open>nothing that was there changed\<close>
  "extends h h' \<longleftrightarrow> hp_ext h' = hp_ext h \<and> length (hp_pbufs h) \<le> length (hp_pbufs h') \<and>
     (\<forall>c<length (hp_pbufs h). hp_pbufs h' ! c = hp_pbufs h ! c)"

lemma extends_refl [simp]: "extends h h"
  by (simp add: extends_def)

lemma extends_live: "extends h h' \<Longrightarrow> live h c \<Longrightarrow> live h' c \<and> nd h' c = nd h c"
  by (auto simp: extends_def live_def nd_def)

lemma extends_trans: "extends h h1 \<Longrightarrow> extends h1 h2 \<Longrightarrow> extends h h2"
  by (auto simp: extends_def)

lemma extends_append: "extends h (append_pbuf h b)"
  by (simp add: extends_def nth_append)

lemma extends_upd: "extends h h' \<Longrightarrow> length (hp_pbufs h) \<le> a \<Longrightarrow> extends h (upd a f h')"
  by (auto simp: extends_def upd_def)

lemma align_bounds: "n \<le> LWIP_MEM_ALIGN_SIZE n" "LWIP_MEM_ALIGN_SIZE n < n + 4"
  unfolding LWIP_MEM_ALIGN_SIZE_def by linarith+

lemma pool_sizes [simp]: "PBUF_POOL_BUFSIZE = 1492" "SIZEOF_STRUCT_PBUF = 24" "pool_size = 1516"
  by (simp_all add: PBUF_POOL_BUFSIZE_def SIZEOF_STRUCT_PBUF_def pool_size_def LWIP_MEM_ALIGN_SIZE_def TCP_MSS_def
    PBUF_LINK_ENCAPSULATION_HLEN_def PBUF_LINK_HLEN_def)

lemma layer_offset_bound: "layer_offset layer \<le> 54"
  by (cases layer) (simp_all add: layer_offset_def PBUF_LINK_ENCAPSULATION_HLEN_def PBUF_LINK_HLEN_def
    PBUF_IP_HLEN_def PBUF_TRANSPORT_HLEN_def)

lemma empty_pool_same: "hp_pbufs (pbuf_pool_is_empty e h) = hp_pbufs h" "hp_ext (pbuf_pool_is_empty e h) = hp_ext h"
  by (simp_all add: pbuf_pool_is_empty_def Let_def log_event_def)

lemma same_pbufs_owned: "hp_pbufs h' = hp_pbufs h \<Longrightarrow> owned h' ow \<longleftrightarrow> owned h ow"
proof -
  assume p: "hp_pbufs h' = hp_pbufs h"
  have l: "live h' = live h" "nd h' = nd h" by (auto simp: live_def nd_def p fun_eq_iff)
  have "chain_from h' q as = chain_from h q as" for q as by (induction as arbitrary: q) (simp_all add: l)
  then show ?thesis by (simp add: owned_def l nexts_def p)
qed

definition fresh_chain :: "heap \<Rightarrow> heap \<Rightarrow> nat list \<Rightarrow> bool" where
  "fresh_chain h h' as \<longleftrightarrow> extends h h' \<and> as \<noteq> [] \<and> chain_from h' (Some (hd as)) as \<and>
     (\<forall>a\<in>set as. length (hp_pbufs h) \<le> a)"

lemma chain_link:
  assumes "chain_from h (Some t) bs" "r \<notin> set bs" "live h r" "pb_next (f (nd h r)) = Some t"
  shows "chain_from h p (xs @ [r]) \<Longrightarrow> r \<notin> set xs \<Longrightarrow> chain_from (upd r f h) p (xs @ r # bs)"
proof (induction xs arbitrary: p)
  case Nil
  have "chain_from (upd r f h) (Some t) bs"
    using assms(1) by (elim chain_from_cong [rotated]) (use assms(2,3) in \<open>auto simp: nd_upd\<close>)
  with Nil assms(3,4) show ?case by simp
next
  case (Cons x xs)
  with assms(3) show ?case by (auto simp: nd_upd)
qed

lemma link_owned:
  assumes "owned h (add_mset t ow)" "live h r" "pb_next (nd h r) = None" "chain_from h (Some t) bs" "r \<notin> set bs"
    "pb_next (f (nd h r)) = Some t" "pb_ref (f (nd h r)) = pb_ref (nd h r)"
  shows "owned (upd r f h) ow" (is "owned ?h _")
proof -
  have n: "nexts ?h = add_mset t (nexts h)" using nexts_upd [OF assms(2), of f] assms(3,6) by simp
  show ?thesis
  proof (rule ownedI)
    fix c
    show "live ?h c \<longleftrightarrow> c \<in># ow + nexts ?h" using owned_iff [OF assms(1)] unfolding n by simp
    assume l: "live ?h c"
    show "unat (pb_ref (nd ?h c)) = count (ow + nexts ?h) c"
      using owned_ref [OF assms(1), of c] l assms(2,7) unfolding n by (cases "c = r") (simp_all add: nd_upd)
    obtain as where as: "chain_from h (Some c) as" using owned_chain [OF assms(1), of c] l by auto
    show "\<exists>as. chain_from ?h (Some c) as"
    proof (cases "r \<in> set as")
      case False
      then have "chain_from ?h (Some c) as" using as assms(2) by (elim chain_from_cong [rotated]) (auto simp: nd_upd)
      then show ?thesis by blast
    next
      case True
      then obtain xs ys where s: "as = xs @ r # ys" by (meson split_list)
      then have "chain_from h (Some r) (r # ys)" using as chain_suffix by blast
      then have "ys = []" using assms(3) by simp
      moreover have "r \<notin> set xs" using chain_distinct [OF as] s by simp
      ultimately have "chain_from ?h (Some c) (xs @ r # bs)" using as s by (intro chain_link [where f = f, OF assms(4,5,2,6)]) auto
      then show ?thesis by blast
    qed
  qed
qed

lemma unlink_owned:
  assumes "owned h ow" "live h r" "pb_next (nd h r) = Some t" "pb_next (f (nd h r)) = None"
    "pb_ref (f (nd h r)) = pb_ref (nd h r)"
  shows "owned (upd r f h) (add_mset t ow)" (is "owned ?h _")
proof -
  have n: "add_mset t (nexts ?h) = nexts h" using nexts_upd [OF assms(2), of f] assms(3,4) by simp
  have m: "add_mset t ow + nexts ?h = ow + nexts h" using n by (metis union_mset_add_mset_left union_mset_add_mset_right)
  show ?thesis
  proof (rule ownedI, unfold m)
    fix c
    show "live ?h c \<longleftrightarrow> c \<in># ow + nexts h" using owned_iff [OF assms(1)] by simp
    assume l: "live ?h c"
    show "unat (pb_ref (nd ?h c)) = count (ow + nexts h) c"
      using owned_ref [OF assms(1), of c] l assms(2,5) by (cases "c = r") (simp_all add: nd_upd)
    obtain as where as: "chain_from h (Some c) as" using owned_chain [OF assms(1), of c] l by auto
    show "\<exists>as. chain_from ?h (Some c) as"
    proof (cases "r \<in> set as")
      case False
      then have "chain_from ?h (Some c) as" using as assms(2) by (elim chain_from_cong [rotated]) (auto simp: nd_upd)
      then show ?thesis by blast
    next
      case True
      then obtain xs ys where s: "as = xs @ r # ys" by (meson split_list)
      then have rx: "r \<notin> set xs" using chain_distinct [OF as] by simp
      have "chain_from ?h p (xs @ [r])" if "chain_from h p (xs @ r # ys)" for p
        using that rx by (induction xs arbitrary: p) (use assms(2,4) in \<open>auto simp: nd_upd\<close>)
      then show ?thesis using as s by blast
    qed
  qed
qed

lemma link_new:
  assumes "owned h (add_mset p ow)" "live h r" "pb_next (nd h r) = None" "pb_next b = None" "pb_ref b = 1"
  defines "q \<equiv> length (hp_pbufs h)"
  shows "owned (upd r (\<lambda>b. b\<lparr>pb_next := Some q\<rparr>) (append_pbuf h b)) (add_mset p ow)"
proof (rule link_owned)
  show "owned (append_pbuf h b) (add_mset q (add_mset p ow))"
    unfolding q_def by (rule owned_append [OF assms(1,4,5)])
  show "live (append_pbuf h b) r" "pb_next (nd (append_pbuf h b) r) = None"
    using assms(2,3) by (auto simp: nd_append)
  show "chain_from (append_pbuf h b) (Some q) [q]" using assms(4) by (simp add: nd_append q_def)
  show "r \<notin> set [q]" using assms(2) by (auto simp: q_def)
qed simp_all

section \<open>Contents do not depend on counters and links\<close>

definition same_content :: "heap \<Rightarrow> heap \<Rightarrow> nat \<Rightarrow> bool" where
  "same_content h h' a \<longleftrightarrow> hp_ext h' = hp_ext h \<and> pb_len (nd h' a) = pb_len (nd h a) \<and>
     pb_payload (nd h' a) = pb_payload (nd h a) \<and> pb_mem (nd h' a) = pb_mem (nd h a)"

definition own_payload :: "heap \<Rightarrow> nat \<Rightarrow> bool" where
  \<comment> \<open>the bytes are in the memory of the buffer\<close>
  "own_payload h a \<longleftrightarrow> (\<exists>d. pb_payload (nd h a) = Own d) \<and> payload_ok h a"

lemma same_contentD:
  assumes "same_content h h' a"
  shows "plen h' a = plen h a" "payload_ok h' a = payload_ok h a" "payload_bytes h' a = payload_bytes h a"
    "own_payload h' a = own_payload h a"
proof -
  have b: "block h' (nd h' a) = block h (nd h a)"
    using assms by (simp add: same_content_def block_def split: payload_ptr.split)
  show l: "plen h' a = plen h a" using assms by (simp add: same_content_def plen_def)
  show ok: "payload_ok h' a = payload_ok h a" using assms b l by (simp add: payload_ok_def same_content_def)
  show "payload_bytes h' a = payload_bytes h a" by (simp only: payload_bytes_def b l)
  show "own_payload h' a = own_payload h a" using assms ok by (simp add: own_payload_def same_content_def)
qed

lemma same_content_lens: "\<forall>a\<in>set as. same_content h h' a \<Longrightarrow> lens h' as = lens h as"
  by (induction as) (auto simp: same_contentD)

lemma same_content_bytes: "\<forall>a\<in>set as. same_content h h' a \<Longrightarrow> packet_bytes h' as = packet_bytes h as"
  by (induction as) (auto simp: same_contentD)

lemma tots_cong:
  "\<forall>a\<in>set as. same_content h h' a \<and> pb_tot_len (nd h' a) = pb_tot_len (nd h a) \<Longrightarrow> tots_ok h' as = tots_ok h as"
proof (induction as)
  case (Cons a as)
  then have "lens h' as = lens h as" by (intro same_content_lens) auto
  with Cons show ?case by (auto simp: same_contentD)
qed simp

lemma own_payload_intro:
  "pb_payload (nd h a) = Own (int d) \<Longrightarrow> d + plen h a \<le> length (pb_mem (nd h a)) \<Longrightarrow> own_payload h a"
  by (simp add: own_payload_def payload_ok_def block_def)

section \<open>The buffers of a pool packet\<close>

fun tots_rem :: "heap \<Rightarrow> nat list \<Rightarrow> nat \<Rightarrow> bool" where
  \<comment> \<open>the total lengths when \<open>k\<close> bytes are still to come\<close>
  "tots_rem h [] k = True"
| "tots_rem h (a # as) k \<longleftrightarrow> unat (pb_tot_len (nd h a)) = plen h a + lens h as + k \<and> tots_rem h as k"

lemma tots_rem_0: "tots_rem h as 0 = tots_ok h as"
  by (induction as) auto

definition building :: "heap \<Rightarrow> nat multiset \<Rightarrow> heap \<Rightarrow> nat list \<Rightarrow> nat \<Rightarrow> bool" where
  "building h0 ow h as k \<longleftrightarrow> owned h (add_mset (hd as) ow) \<and> fresh_chain h0 h as \<and> tots_rem h as k \<and>
     (\<forall>a\<in>set as. own_payload h a) \<and> ends_in_pool (nd h (hd as))"

lemma chain_snoc:
  assumes "chain_from h p as" "as \<noteq> []" "live h' q" "pb_next (nd h' q) = None" "pb_next (nd h' (last as)) = Some q"
    "\<And>a. a \<in> set as \<Longrightarrow> live h' a" "\<And>a. a \<in> set as \<Longrightarrow> a \<noteq> last as \<Longrightarrow> pb_next (nd h' a) = pb_next (nd h a)"
  shows "chain_from h' p (as @ [q])"
proof -
  have "distinct as" using assms(1) by (rule chain_distinct)
  with assms show ?thesis
  proof (induction as arbitrary: p)
    case (Cons a as)
    show ?case
    proof (cases as)
      case Nil
      then show ?thesis using Cons.prems by simp
    next
      case (Cons b bs)
      then have "last as \<in> set as" by simp
      then have "last (a # as) = last as" "a \<noteq> last as" using Cons.prems(8) \<open>as = b # bs\<close> by auto
      then show ?thesis using Cons.prems Cons.IH [of "pb_next (nd h a)"] \<open>as = b # bs\<close> by auto
    qed
  qed simp
qed

lemma building_step:
  assumes "building h0 ow h as k" "pb_next b = None" "pb_ref b = 1" "unat (pb_tot_len b) = k" "pb_payload b = Own 0"
    "unat (pb_len b) \<le> length (pb_mem b)" "unat (pb_len b) \<le> k"
  defines "q \<equiv> length (hp_pbufs h)"
  shows "building h0 ow (upd (last as) (\<lambda>b. b\<lparr>pb_next := Some q\<rparr>) (append_pbuf h b)) (as @ [q]) (k - unat (pb_len b))"
    (is "building _ _ ?h _ _")
proof -
  note bd = assms(1) [unfolded building_def fresh_chain_def]
  then have ch: "chain_from h (Some (hd as)) as" "as \<noteq> []" by auto
  obtain xs r where as: "as = xs @ [r]" using ch(2) rev_exhaust by blast
  then have lr: "last as = r" by simp
  have lv: "live h a" if "a \<in> set as" for a using chain_live [OF ch(1) that] .
  have r: "live h r" "pb_next (nd h r) = None" using lv chain_last [of h _ xs r] ch(1) by (auto simp: as)
  have hq: "live ?h q" "nd ?h q = b" using r by (auto simp: nd_upd nd_append q_def lr)
  have nda: "nd ?h a = (if a = r then (nd h a)\<lparr>pb_next := Some q\<rparr> else nd h a)" if "a \<in> set as" for a
    using lv [OF that] lv [of r] by (auto simp: nd_upd nd_append lr as q_def)
  have sc: "same_content h ?h a \<and> pb_tot_len (nd ?h a) = pb_tot_len (nd h a)" if "a \<in> set as" for a
    using nda [OF that] by (simp add: same_content_def)
  have own: "owned ?h (add_mset (hd as) ow)"
    unfolding lr q_def using bd r assms(2,3) by (intro link_new) auto
  have chn: "chain_from ?h (Some (hd as)) (as @ [q])"
  proof (rule chain_snoc [OF ch hq(1)])
    show "pb_next (nd ?h q) = None" unfolding hq(2) by (rule assms(2))
    show "pb_next (nd ?h (last as)) = Some q" using nda [of r] by (simp add: as)
    fix a assume a: "a \<in> set as"
    show "live ?h a" using lv [OF a] by simp
    show "pb_next (nd ?h a) = pb_next (nd h a)" if "a \<noteq> last as" using nda [OF a] that lr by simp
  qed
  have "length (hp_pbufs h0) \<le> r" using bd by (simp add: as)
  moreover have "extends h0 (append_pbuf h b)"
    by (rule extends_trans [OF _ extends_append]) (use bd in simp)
  ultimately have "extends h0 ?h" unfolding lr by (intro extends_upd)
  moreover have "length (hp_pbufs h0) \<le> q" using bd by (simp add: extends_def q_def)
  ultimately have fr: "fresh_chain h0 ?h (as @ [q])" using chn bd by (auto simp: fresh_chain_def)
  have pq: "plen ?h q = unat (pb_len b)" using hq by (simp add: plen_def)
  have "tots_rem h cs k \<Longrightarrow> set cs \<subseteq> set as \<Longrightarrow> tots_rem ?h (cs @ [q]) (k - unat (pb_len b))" for cs
  proof (induction cs)
    case Nil
    then show ?case using hq(2) pq assms(4,7) by simp
  next
    case (Cons c cs)
    then have "lens ?h cs = lens h cs" using sc by (intro same_content_lens) auto
    with Cons show ?case using sc [of c] pq assms(7) same_contentD(1) [of h ?h c] by auto
  qed
  then have tr: "tots_rem ?h (as @ [q]) (k - unat (pb_len b))" using bd by auto
  have "own_payload ?h q" using hq(2) pq assms(5,6) by (intro own_payload_intro [of _ _ 0]) auto
  moreover have "own_payload ?h a" if "a \<in> set as" for a using bd that sc [OF that] same_contentD(4) by blast
  ultimately have pl: "\<forall>a\<in>set (as @ [q]). own_payload ?h a" by auto
  have "pb_payload (nd ?h (hd as)) = pb_payload (nd h (hd as))" "pb_len (nd ?h (hd as)) = pb_len (nd h (hd as))"
    using sc [of "hd as"] ch(2) by (simp_all add: same_content_def)
  moreover have "ends_in_pool (nd h (hd as))" using bd by simp
  ultimately have "ends_in_pool (nd ?h (hd as))" by (simp only: ends_in_pool_def)
  then show ?thesis using own fr tr pl ch(2) by (simp add: building_def)
qed

definition same_heap :: "heap \<Rightarrow> heap \<Rightarrow> bool" where
  "same_heap h h' \<longleftrightarrow> hp_ext h' = hp_ext h \<and> (\<forall>c. live h' c \<longleftrightarrow> live h c) \<and> (\<forall>c. live h c \<longrightarrow> nd h' c = nd h c)"

lemma free_new:
  assumes "owned h0 ow" "building h0 ow h as k"
  shows "\<exists>n h'. pbuf_free e (Some (hd as)) h = Inr (n, h') \<and> owned h' ow \<and> same_heap h0 h'"
proof -
  note bd = assms(2) [unfolded building_def fresh_chain_def]
  obtain n h' where f: "pbuf_free e (Some (hd as)) h = Inr (n, h')" "owned h' ow" "keeps h h'"
    by (rule free_owned [of h "hd as" ow e]) (use bd in simp)
  have ex: "extends h0 h" using bd by simp
  have lv: "live h' c \<longleftrightarrow> live h0 c" for c
  proof
    assume "live h' c"
    then have "reaches h ow c" using keeps_reaches [OF f(3,2)] by simp
    then obtain d ds where d: "d \<in># ow" "chain_from h (Some d) ds" "c \<in> set ds" by (auto simp: reaches_def)
    obtain es where es: "chain_from h0 (Some d) es" using owned_chain [OF assms(1) owned_live [OF assms(1) d(1)]] by auto
    then have "chain_from h (Some d) es" using extends_live [OF ex] by (elim chain_from_cong [rotated]) simp
    then have "es = ds" using d(2) chain_unique by blast
    then show "live h0 c" using es d(3) chain_live by blast
  next
    assume "live h0 c"
    then have "reaches h0 ow c" by (rule owned_reached [OF assms(1)])
    then obtain d ds where d: "d \<in># ow" "chain_from h0 (Some d) ds" "c \<in> set ds" by (auto simp: reaches_def)
    then have "chain_from h (Some d) ds" using extends_live [OF ex] by (elim chain_from_cong [rotated]) simp
    then have "reaches h ow c" using d by (auto simp: reaches_def)
    then show "live h' c" using keeps_reaches [OF f(3,2)] by simp
  qed
  have bo: "body (nd h' c) = body (nd h0 c)" if "live h0 c" for c
    using that lv f(3) extends_live [OF ex that] by (simp add: keeps_def)
  have nx: "nexts h' = nexts h0" using lv body_eqD(1) [OF bo] by (intro nexts_cong) auto
  have "nd h' c = nd h0 c" if "live h0 c" for c
  proof -
    have "unat (pb_ref (nd h' c)) = unat (pb_ref (nd h0 c))"
      using owned_ref [OF f(2), of c] owned_ref [OF assms(1), of c] lv that nx by simp
    then have "pb_ref (nd h' c) = pb_ref (nd h0 c)" by (simp only: word_unat_eq_iff)
    with bo [OF that] show ?thesis unfolding body_def by (cases "nd h' c"; cases "nd h0 c") simp
  qed
  then have "same_heap h0 h'" using lv f(3) ex by (simp add: same_heap_def keeps_def extends_def)
  with f show ?thesis by blast
qed

lemma building_cong:
  assumes "hp_pbufs h' = hp_pbufs h" "hp_ext h' = hp_ext h"
  shows "building h0 ow h' as k = building h0 ow h as k"
proof -
  have n: "live h' = live h" "nd h' = nd h" by (auto simp: live_def nd_def fun_eq_iff assms(1))
  have c: "chain_from h' q cs = chain_from h q cs" for q cs by (induction cs arbitrary: q) (simp_all add: n)
  have p: "plen h' = plen h" by (simp add: plen_def fun_eq_iff n)
  then have l: "lens h' = lens h" by (intro ext) (simp only: lens_def)
  have t: "tots_rem h' cs k = tots_rem h cs k" for cs by (induction cs) (simp_all add: n l p)
  have sc: "same_content h h' a" for a by (simp add: same_content_def n assms(2))
  have e: "extends h0 h' = extends h0 h" by (simp add: extends_def assms)
  show ?thesis
    by (simp only: building_def fresh_chain_def c t e n same_pbufs_owned [OF assms(1)] same_contentD(4) [OF sc])
qed

lemma uint_of_int_u16: "0 \<le> i \<Longrightarrow> i < 65536 \<Longrightarrow> uint (of_int i :: u16) = i"
  by (simp add: unsigned_of_int take_bit_int_eq_self)

lemma unat_of_int_u16: "0 \<le> i \<Longrightarrow> i < 65536 \<Longrightarrow> unat (of_int i :: u16) = nat i"
  by (simp add: uint_of_int_u16 flip: nat_uint_eq)

definition head_kept :: "heap \<Rightarrow> heap \<Rightarrow> nat \<Rightarrow> bool" where
  "head_kept h h' a \<longleftrightarrow> pb_tot_len (nd h' a) = pb_tot_len (nd h a) \<and>
     pb_payload (nd h' a) = pb_payload (nd h a) \<and> pb_ref (nd h' a) = pb_ref (nd h a)"

lemma pool_tail_packet:
  assumes "owned h0 ow" "building h0 ow h as (nat rem_len)" "p = hd as" "r = last as" "rem_len < 65535"
  shows "\<exists>q h'. pool_tail e p r rem_len h = Inr (q, h') \<and>
    (case q of None \<Rightarrow> owned h' ow \<and> same_heap h0 h'
     | Some a \<Rightarrow> a = p \<and> head_kept h h' p \<and> (\<exists>bs. building h0 ow h' (as @ bs) 0))"
  using assms(2-5)
proof (induction "nat rem_len" arbitrary: rem_len h as r rule: less_induct)
  case less
  note bd = less.prems(1) [unfolded building_def fresh_chain_def]
  show ?case
  proof (cases "0 < rem_len")
    case False
    then have "building h0 ow h (as @ []) 0" using less.prems(1) by simp
    then have "\<exists>bs. building h0 ow h (as @ bs) 0" by blast
    moreover have "pool_tail e p r rem_len h = Inr (Some p, h)" using False by (subst pool_tail.simps) simp
    ultimately show ?thesis by (simp add: head_kept_def)
  next
    case rem: True
    consider (none) "new_pbuf e pool_size h = (None, h)" |
      (some) b where "new_pbuf e pool_size h = (Some (length (hp_pbufs h)), append_pbuf h b)"
        "length (pb_mem b) = pool_size - SIZEOF_STRUCT_PBUF"
      using new_pbuf_cases by blast
    then show ?thesis
    proof cases
      case none
      let ?h1 = "pbuf_pool_is_empty e h"
      have "building h0 ow ?h1 as (nat rem_len)"
        using less.prems(1) by (simp only: building_cong [OF empty_pool_same])
      from free_new [OF assms(1) this, of e] show ?thesis
        using rem none less.prems(2) by (subst pool_tail.simps) auto
    next
      case some
      let ?q = "length (hp_pbufs h)"
      let ?len = "min rem_len (int PBUF_POOL_BUFSIZE)"
      let ?c = "b\<lparr>pb_type := PBUF_POOL, pb_flags := 0, pb_next := None,
                  pb_tot_len := of_int rem_len, pb_len := of_int ?len, pb_payload := Own 0\<rparr>"
      let ?b = "?c\<lparr>pb_ref := 1\<rparr>"
      let ?h3 = "upd r (\<lambda>b. b\<lparr>pb_next := Some ?q\<rparr>) (append_pbuf h ?b)"
      have u: "unat (of_int rem_len :: u16) = nat rem_len" "unat (of_int ?len :: u16) = nat ?len"
        using rem less.prems(4) by (simp_all add: unat_of_int_u16)
      have st: "building h0 ow ?h3 (as @ [?q]) (nat rem_len - unat (pb_len ?b))"
        unfolding less.prems(3) by (rule building_step [OF less.prems(1)]) (use some(2) rem u in auto)
      have rk: "nat rem_len - unat (pb_len ?b) = nat (rem_len - ?len)" using u rem by (simp add: nat_diff_distrib)
      have "p \<in> set as" "r \<in> set as" using bd less.prems(2,3) by auto
      then have lv: "live h p" "live h r" using bd chain_live by blast+
      then have ne: "p \<noteq> ?q" "r \<noteq> ?q" by auto
      let ?h2 = "upd r (\<lambda>b. b\<lparr>pb_next := Some ?q\<rparr>) (append_pbuf h ?c)"
      have e2: "upd ?q (\<lambda>b. b\<lparr>pb_type := PBUF_POOL, pb_flags := 0, pb_next := None,
                            pb_tot_len := of_int rem_len, pb_len := of_int ?len, pb_payload := Own 0\<rparr>)
          (upd r (\<lambda>b. b\<lparr>pb_next := Some ?q\<rparr>) (append_pbuf h b)) = ?h2" (is "?u = _")
        using upd_append [of "upd r (\<lambda>b. b\<lparr>pb_next := Some ?q\<rparr>) h"] lv(2) by (simp add: upd_append_other)
      have e3: "upd ?q (\<lambda>b. b\<lparr>pb_ref := 1\<rparr>) ?h2 = ?h3"
        using upd_append [of "upd r (\<lambda>b. b\<lparr>pb_next := Some ?q\<rparr>) h"] lv(2) by (simp add: upd_append_other)
      have at2: "at ?h2 (Some p) = Inr (nd ?h3 p)"
        using lv ne by (simp add: at_live nd_upd nd_append)
      have "hd (as @ [?q]) = p" "last (as @ [?q]) = ?q" using bd less.prems(2) by auto
      moreover have "ends_in_pool (nd ?h3 p)" using st calculation(1) by (simp add: building_def)
      moreover have "pool_tail e p r rem_len h = pool_tail e p ?q (rem_len - ?len) ?h3"
        using rem less.prems(4) at2 calculation(3)
        by (subst pool_tail.simps) (simp add: some(1) Let_def e2 e3 del: pool_sizes)
      moreover have "nat (rem_len - ?len) < nat rem_len" "rem_len - ?len < 65535" using rem less.prems(4) by auto
      ultimately obtain q h' where "pool_tail e p r rem_len h = Inr (q, h')"
        "case q of None \<Rightarrow> owned h' ow \<and> same_heap h0 h'
         | Some a \<Rightarrow> a = p \<and> head_kept ?h3 h' p \<and> (\<exists>bs. building h0 ow h' ((as @ [?q]) @ bs) 0)"
        using less.hyps [of "rem_len - ?len" ?h3 "as @ [?q]" ?q] st rk by auto
      moreover have "head_kept h ?h3 p" using lv ne by (simp add: head_kept_def nd_upd nd_append)
      ultimately show ?thesis by (cases q) (auto simp: head_kept_def)
    qed
  qed
qed

section \<open>\<open>pbuf_alloc\<close>\<close>

definition new_packet :: "heap \<Rightarrow> nat multiset \<Rightarrow> heap \<Rightarrow> nat list \<Rightarrow> bool" where
  \<comment> \<open>a chain of new buffers, and a reference for the caller\<close>
  "new_packet h ow h' as \<longleftrightarrow> owned h' (add_mset (hd as) ow) \<and> fresh_chain h h' as \<and> tots_ok h' as"

lemma fits_own:
  "pb_payload b = Own (int d) \<Longrightarrow> d + unat (pb_len b) \<le> length (pb_mem b) \<Longrightarrow> nd h a = b \<Longrightarrow> own_payload h a"
  by (rule own_payload_intro) (simp_all add: plen_def)

lemma new_single:
  assumes "owned h ow" "pb_next b = None" "pb_ref b = 1" "pb_tot_len b = pb_len b"
  shows "new_packet h ow (append_pbuf h b) [length (hp_pbufs h)]"
  using owned_append [OF assms(1-3)] assms(2,4) extends_append [of h b]
  by (simp add: new_packet_def fresh_chain_def nd_append plen_def)

lemma final_fields:
  \<comment> \<open>the assignments at the end of \<open>pbuf_alloc\<close>\<close>
  assumes "new_packet h ow h' as" "pb_ref (nd h' (hd as)) = 1"
  defines "h2 \<equiv> upd (hd as) (\<lambda>b. b\<lparr>pb_ref := 1, pb_flags := 0, pb_l2_owner := None, pb_l2_buf := None\<rparr>) h'"
  shows "new_packet h ow h2 as" "\<And>a. same_content h' h2 a"
proof -
  have as: "hd as \<in> set as" "chain_from h' (Some (hd as)) as" "length (hp_pbufs h) \<le> hd as"
    using assms(1) by (auto simp: new_packet_def fresh_chain_def)
  then have l: "live h' (hd as)" using chain_live by blast
  show sc: "same_content h' h2 a" for a by (simp add: same_content_def h2_def nd_upd l)
  have "tots_ok h2 as = tots_ok h' as" using sc l by (intro tots_cong) (simp add: h2_def nd_upd)
  moreover have "owned h2 (add_mset (hd as) ow)"
    by (rule owned_keep [of h']) (use assms(1,2) l in \<open>auto simp: new_packet_def h2_def nd_upd\<close>)
  moreover have "chain_from h2 (Some (hd as)) as"
    using as(2) by (elim chain_from_cong [rotated]) (use l in \<open>auto simp: h2_def nd_upd\<close>)
  moreover have "extends h h2"
    using assms(1) as(3) by (simp add: h2_def new_packet_def fresh_chain_def extends_upd)
  ultimately show "new_packet h ow h2 as" using assms(1) by (simp add: new_packet_def fresh_chain_def)
qed

lemma alloc_pool_packet:
  assumes "owned h ow"
  shows "\<exists>q h'. alloc_pool e (layer_offset layer) len h = Inr (q, h') \<and>
    (case q of None \<Rightarrow> owned h' ow \<and> same_heap h h'
     | Some a \<Rightarrow> \<exists>as. a = hd as \<and> building h ow h' as 0 \<and> lens h' as = unat len \<and>
         pb_ref (nd h' a) = 1 \<and> (\<exists>d\<ge>layer_offset layer. pb_payload (nd h' a) = Own (int d)))"
proof -
  let ?off = "LWIP_MEM_ALIGN_SIZE (layer_offset layer)"
  have off: "layer_offset layer \<le> ?off" "?off < 58"
    using align_bounds [of "layer_offset layer"] layer_offset_bound [of layer] by auto
  consider (none) "new_pbuf e pool_size h = (None, h)" |
    (some) b where "new_pbuf e pool_size h = (Some (length (hp_pbufs h)), append_pbuf h b)"
      "length (pb_mem b) = pool_size - SIZEOF_STRUCT_PBUF"
    using new_pbuf_cases by blast
  then show ?thesis
  proof cases
    case none
    have "same_heap h (pbuf_pool_is_empty e h)"
      by (simp add: same_heap_def live_def nd_def empty_pool_same)
    with none show ?thesis using assms by (simp add: alloc_pool_def same_pbufs_owned [OF empty_pool_same(1)])
  next
    case some
    let ?room = "int PBUF_POOL_BUFSIZE - int ?off"
    let ?first = "min (uint len) ?room"
    let ?q = "length (hp_pbufs h)"
    let ?b = "b\<lparr>pb_type := PBUF_POOL, pb_next := None, pb_payload := Own (int ?off), pb_tot_len := len,
                pb_len := of_int ?first, pb_ref := 1\<rparr>"
    have "uint len < 65536" using unsigned_less [of len, where ?'a = int] by simp
    then have u: "unat (of_int ?first :: u16) = nat ?first" "uint (of_int ?first :: u16) = ?first"
      using off by (auto intro!: unat_of_int_u16 uint_of_int_u16)
    have new: "new_packet h ow (append_pbuf h (?b\<lparr>pb_tot_len := pb_len ?b\<rparr>)) [?q]"
      by (rule new_single [OF assms]) simp_all
    have own: "own_payload (append_pbuf h ?b) ?q"
      by (rule fits_own [of ?b ?off]) (use u some(2) off in \<open>auto simp: nd_append nat_le_iff\<close>)
    have lt: "?off < PBUF_POOL_BUFSIZE" using off(2) by simp
    have ep: "ends_in_pool ?b" using u off by (simp add: ends_in_pool_def)
    have "unat len = unat (of_int ?first :: u16) + nat (uint len - ?first)"
    proof -
      have "0 \<le> ?first" "?first \<le> uint len" using off by auto
      then have "nat (?first + (uint len - ?first)) = nat ?first + nat (uint len - ?first)"
        by (intro nat_add_distrib) simp_all
      then show ?thesis unfolding u(1) by simp
    qed
    then have bd: "building h ow (append_pbuf h ?b) [?q] (nat (uint len - ?first))"
      using owned_append [OF assms, of ?b] extends_append [of h ?b] own ep
      by (simp add: building_def fresh_chain_def nd_append plen_def)
    have e: "alloc_pool e (layer_offset layer) len h = pool_tail e ?q ?q (uint len - ?first) (append_pbuf h ?b)"
      using ep lt some(1)
      by (simp add: alloc_pool_def Let_def at_live nd_append ends_in_pool_def del: pool_sizes)
    have "uint len - ?first < 65535" using off \<open>uint len < 65536\<close> by auto
    from pool_tail_packet [OF assms bd _ _ this, of ?q ?q e] obtain q h' where q:
      "alloc_pool e (layer_offset layer) len h = Inr (q, h')"
      "case q of None \<Rightarrow> owned h' ow \<and> same_heap h h' | Some a \<Rightarrow> a = ?q \<and> head_kept (append_pbuf h ?b) h' ?q \<and>
           (\<exists>bs. building h ow h' ([?q] @ bs) 0)"
      unfolding e by auto
    show ?thesis
    proof (cases q)
      case None
      then show ?thesis using q by simp
    next
      case (Some a)
      then obtain bs where bs: "a = ?q" "building h ow h' (?q # bs) 0" "head_kept (append_pbuf h ?b) h' ?q"
        using q(2) by auto
      then have "lens h' (?q # bs) = unat len"
        by (simp add: building_def tots_rem_0 head_kept_def nd_append)
      moreover have "pb_payload (nd h' ?q) = Own (int ?off)" "pb_ref (nd h' ?q) = 1"
        using bs(3) by (simp_all add: head_kept_def nd_append)
      ultimately have "a = hd (?q # bs) \<and> building h ow h' (?q # bs) 0 \<and> lens h' (?q # bs) = unat len \<and>
          pb_ref (nd h' a) = 1 \<and> (\<exists>d\<ge>layer_offset layer. pb_payload (nd h' a) = Own (int d))"
        using bs off by auto
      then have "\<exists>as. a = hd as \<and> building h ow h' as 0 \<and> lens h' as = unat len \<and>
          pb_ref (nd h' a) = 1 \<and> (\<exists>d\<ge>layer_offset layer. pb_payload (nd h' a) = Own (int d))"
        by (rule exI)
      then show ?thesis using q(1) Some by (intro exI [of _ q] exI [of _ h']) simp
    qed
  qed
qed

lemma ram_room:
  assumes "24 + o' \<le> a" "n \<le> (l :: nat)"
  shows "o' \<le> a - 24" "int a - 24 = int (a - 24)" "a - 24 + n \<le> a + l - 24"
  using assms by simp_all

lemma alloc_ram_packet:
  assumes "owned h ow"
  shows "alloc_ram e (layer_offset layer) len h = (None, h) \<or>
    (\<exists>b. alloc_ram e (layer_offset layer) len h = (Some (length (hp_pbufs h)), append_pbuf h b) \<and>
      pb_next b = None \<and> pb_tot_len b = len \<and> pb_len b = len \<and>
      (\<exists>d\<ge>layer_offset layer. pb_payload b = Own (int d) \<and> d + unat len \<le> length (pb_mem b)))"
proof -
  let ?a = "LWIP_MEM_ALIGN_SIZE (SIZEOF_STRUCT_PBUF + layer_offset layer)"
  let ?l = "LWIP_MEM_ALIGN_SIZE (unat len)"
  have al: "24 + layer_offset layer \<le> ?a" "unat len \<le> ?l"
    using align_bounds(1) [of "SIZEOF_STRUCT_PBUF + layer_offset layer"] align_bounds(1) [of "unat len"] by simp_all
  consider (none) "new_pbuf e (?a + ?l) h = (None, h)" |
    (some) b where "new_pbuf e (?a + ?l) h = (Some (length (hp_pbufs h)), append_pbuf h b)"
      "length (pb_mem b) = ?a + ?l - SIZEOF_STRUCT_PBUF"
    using new_pbuf_cases by blast
  then show ?thesis
  proof cases
    case none
    then show ?thesis by (simp add: alloc_ram_def)
  next
    case some
    let ?b = "b\<lparr>pb_payload := Own (int ?a - int SIZEOF_STRUCT_PBUF), pb_len := len, pb_tot_len := len,
                pb_next := None, pb_type := PBUF_RAM\<rparr>"
    have r1: "alloc_ram e (layer_offset layer) len h = (Some (length (hp_pbufs h)), append_pbuf h ?b)"
      using some(1) by (simp add: alloc_ram_def)
    have r2: "layer_offset layer \<le> ?a - 24" by (rule ram_room(1) [OF al])
    have r3: "pb_payload ?b = Own (int (?a - 24))" by simp (rule ram_room(2) [OF al [unfolded pool_sizes]])
    have r4: "?a - 24 + unat len \<le> length (pb_mem ?b)" using ram_room(3) [OF al] some(2) by simp
    show ?thesis
      by (intro disjI2 exI [of _ ?b] conjI exI [of _ "?a - 24"] r1 r2 r3 r4) simp_all
  qed
qed

lemma alloc_ref_packet:
  "alloc_ref e type len h = (None, h) \<or>
    (\<exists>b. alloc_ref e type len h = (Some (length (hp_pbufs h)), append_pbuf h b) \<and>
      pb_next b = None \<and> pb_tot_len b = len \<and> pb_len b = len \<and> pb_payload b = NoPayload)"
  using new_pbuf_cases [of e SIZEOF_STRUCT_PBUF h] by (auto simp: alloc_ref_def)

definition storage :: "pbuf_type \<Rightarrow> bool" where
  \<comment> \<open>buffers with memory of their own\<close>
  "storage type \<longleftrightarrow> type = PBUF_RAM \<or> type = PBUF_POOL"

definition has_room :: "heap \<Rightarrow> nat \<Rightarrow> nat \<Rightarrow> bool" where
  "has_room h a n \<longleftrightarrow> (\<exists>d\<ge>n. pb_payload (nd h a) = Own (int d))"

lemma alloc_packet:
  assumes "owned h ow"
  shows "(\<exists>h'. pbuf_alloc e layer len type h = Inr (None, h') \<and> owned h' ow \<and> same_heap h h') \<or>
    (\<exists>as h'. pbuf_alloc e layer len type h = Inr (Some (hd as), h') \<and> new_packet h ow h' as \<and>
       lens h' as = unat len \<and>
       (storage type \<longrightarrow> (\<forall>a\<in>set as. own_payload h' a) \<and> has_room h' (hd as) (layer_offset layer)))"
    (is "?none \<or> ?some")
proof -
  let ?fin = "\<lambda>b :: pbuf. b\<lparr>pb_ref := 1, pb_flags := 0, pb_l2_owner := None, pb_l2_buf := None\<rparr>"
  have single: ?some
    if new: "pbuf_alloc e layer len type h = Inr (Some (length (hp_pbufs h)), append_pbuf h (?fin b))"
      and b: "pb_next b = None" "pb_tot_len b = len" "pb_len b = len"
      and st: "storage type \<Longrightarrow> \<exists>d\<ge>layer_offset layer. pb_payload b = Own (int d) \<and> d + unat len \<le> length (pb_mem b)" for b
  proof -
    let ?h' = "append_pbuf h (?fin b)" and ?q = "length (hp_pbufs h)"
    have nq: "nd ?h' ?q = ?fin b" by (simp add: nd_append)
    have "new_packet h ow ?h' [?q]" by (rule new_single [OF assms]) (simp_all add: b)
    moreover have "lens ?h' [?q] = unat len" by (simp add: plen_def nq b)
    moreover have "own_payload ?h' ?q \<and> has_room ?h' ?q (layer_offset layer)" if t: "storage type"
    proof -
      obtain d where d: "layer_offset layer \<le> d" "pb_payload b = Own (int d)" "d + unat len \<le> length (pb_mem b)"
        using st [OF t] by auto
      have "own_payload ?h' ?q" by (rule fits_own [of "?fin b" d]) (simp_all add: b d nq)
      then show ?thesis using d by (auto simp: has_room_def nq)
    qed
    ultimately show ?some using new by (intro exI [of _ "[?q]"] exI [of _ ?h']) auto
  qed
  show ?thesis
  proof (cases "type = PBUF_POOL")
    case True
    from alloc_pool_packet [OF assms, of e layer len] obtain q h' where q:
      "alloc_pool e (layer_offset layer) len h = Inr (q, h')"
      "case q of None \<Rightarrow> owned h' ow \<and> same_heap h h'
       | Some a \<Rightarrow> \<exists>as. a = hd as \<and> building h ow h' as 0 \<and> lens h' as = unat len \<and>
           pb_ref (nd h' a) = 1 \<and> (\<exists>d\<ge>layer_offset layer. pb_payload (nd h' a) = Own (int d))"
      by blast
    show ?thesis
    proof (cases q)
      case None
      then show ?thesis using q True by (simp add: pbuf_alloc_def)
    next
      case (Some a)
      then obtain as where as: "a = hd as" "building h ow h' as 0" "lens h' as = unat len" "pb_ref (nd h' a) = 1"
        "has_room h' a (layer_offset layer)" using q(2) by (auto simp: has_room_def)
      have np: "new_packet h ow h' as" using as(2) by (simp add: building_def new_packet_def tots_rem_0)
      let ?h2 = "upd (hd as) ?fin h'"
      note ff = final_fields [OF np as(4) [unfolded as(1)]]
      have "pbuf_alloc e layer len type h = Inr (Some (hd as), ?h2)" using q(1) Some True as(1) by (simp add: pbuf_alloc_def)
      moreover have "lens ?h2 as = unat len" using as(3) ff(2) same_content_lens [of as h' ?h2] by simp
      moreover have "\<forall>a\<in>set as. own_payload ?h2 a" using as(2) same_contentD(4) [OF ff(2)] by (simp add: building_def)
      moreover have "has_room ?h2 (hd as) (layer_offset layer)"
        using as(1,5) ff(2) [of "hd as"] by (simp add: has_room_def same_content_def)
      ultimately show ?thesis using ff(1) by blast
    qed
  next
    case np: False
    show ?thesis
    proof (cases "type = PBUF_RAM")
      case True
      from alloc_ram_packet [OF assms, of e layer len] show ?thesis
      proof (elim disjE exE conjE)
        assume "alloc_ram e (layer_offset layer) len h = (None, h)"
        then show ?thesis using True assms by (simp add: pbuf_alloc_def same_heap_def)
      next
        fix b d assume b: "alloc_ram e (layer_offset layer) len h = (Some (length (hp_pbufs h)), append_pbuf h b)"
          "pb_next b = None" "pb_tot_len b = len" "pb_len b = len" "d \<ge> layer_offset layer"
          "pb_payload b = Own (int d)" "d + unat len \<le> length (pb_mem b)"
        have ?some by (rule single [of b]) (use b True in \<open>auto simp: pbuf_alloc_def\<close>)
        then show ?thesis ..
      qed
    next
      case False
      have e: "pbuf_alloc e layer len type h = bindE (Inr (alloc_ref e type len h)) (\<lambda>(p, h1). case p of
          None \<Rightarrow> Inr (None, h1) | Some a \<Rightarrow> Inr (p, upd a ?fin h1))"
        using False np by (cases type) (simp_all add: pbuf_alloc_def)
      from alloc_ref_packet [of e type len h] show ?thesis
      proof (elim disjE exE conjE)
        assume "alloc_ref e type len h = (None, h)"
        then show ?thesis using e assms by (simp add: same_heap_def)
      next
        fix b assume b: "alloc_ref e type len h = (Some (length (hp_pbufs h)), append_pbuf h b)"
          "pb_next b = None" "pb_tot_len b = len" "pb_len b = len"
        have ?some by (rule single [of b]) (use b np False in \<open>auto simp: e storage_def\<close>)
        then show ?thesis ..
      qed
    qed
  qed
qed

end
