(* ===== verification/Pbuf_Shape.thy ===== *)
theory Pbuf_Shape
  imports Pbuf_New
begin

text \<open>
  Operations that change the shape of chains: references, concatenation, dechaining and shrinking.
\<close>

section \<open>References\<close>

lemma ref_owned:
  assumes "owned h ow" "live h a" "pb_ref (nd h a) \<noteq> 0xFFFF"
  shows "\<exists>h'. pbuf_ref (Some a) h = Inr h' \<and> owned h' (add_mset a ow) \<and> keeps h h' \<and> (\<forall>c. live h' c \<longleftrightarrow> live h c)"
proof -
  let ?h = "upd a (\<lambda>b. b\<lparr>pb_ref := pb_ref b + 1\<rparr>) h"
  have n: "nexts ?h = nexts h" using assms(2) by (intro nexts_cong) (auto simp: nd_upd)
  have "unat (pb_ref (nd h a)) \<noteq> 65535" using assms(3) by (simp add: word_unat_eq_iff)
  then have u: "unat (pb_ref (nd h a) + 1) = Suc (unat (pb_ref (nd h a)))"
    using u16_bound [of "pb_ref (nd h a)"] by (simp add: unat_word_ariths)
  have "owned ?h (add_mset a ow)"
  proof (rule ownedI, unfold n)
    fix c
    show "live ?h c \<longleftrightarrow> c \<in># add_mset a ow + nexts h" using owned_iff [OF assms(1)] assms(2) by auto
    assume l: "live ?h c"
    show "unat (pb_ref (nd ?h c)) = count (add_mset a ow + nexts h) c"
      using owned_ref [OF assms(1), of c] l assms(2) u by (cases "c = a") (simp_all add: nd_upd)
    obtain as where "chain_from h (Some c) as" using owned_chain [OF assms(1), of c] l by auto
    then have "chain_from ?h (Some c) as" using assms(2) by (elim chain_from_cong [rotated]) (auto simp: nd_upd)
    then show "\<exists>as. chain_from ?h (Some c) as" by blast
  qed
  moreover have "keeps h ?h" using assms(2) by (simp add: keeps_def nd_upd)
  ultimately show ?thesis using assms(2) by (simp add: pbuf_ref_def at_live)
qed

section \<open>Concatenation\<close>

lemma edit_upd: "live h a \<Longrightarrow> edit g (upd a f h) = edit (\<lambda>c b. g c (if c = a then f b else b)) h"
  by (simp add: upd_edit edit_edit)

lemma cat_loop_chain:
  assumes "chain_from h p as" "as \<noteq> []" "live h t" "t \<notin> set as"
  shows "cat_loop p (Some t) h = Some (Inr (Some (last as),
    edit (\<lambda>c b. if c \<in> set (butlast as) then b\<lparr>pb_tot_len := pb_tot_len b + pb_tot_len (nd h t)\<rparr> else b) h))"
  using assms
proof (induction as arbitrary: p h)
  case (Cons a as)
  then have a: "p = Some a" "live h a" by auto
  show ?case
  proof (cases as)
    case Nil
    then have "cat_loop p (Some t) h = Some (Inr (Some a, h))"
      using Cons.prems a by (subst cat_loop.simps) (simp add: at_live)
    then show ?thesis using Nil by (simp add: edit_id)
  next
    case (Cons b bs)
    let ?h1 = "upd a (\<lambda>b. b\<lparr>pb_tot_len := pb_tot_len b + pb_tot_len (nd h t)\<rparr>) h"
    have an: "a \<notin> set as" using chain_distinct [OF Cons.prems(1)] by simp
    have nx: "pb_next (nd h a) = Some b" using Cons.prems(1) \<open>as = b # bs\<close> by simp
    have t: "nd ?h1 t = nd h t" using Cons.prems(4) by simp
    have ch: "chain_from ?h1 (Some b) as"
      using Cons.prems(1) an a(2) nx by (auto intro: chain_from_cong [rotated] simp: nd_upd)
    have "cat_loop p (Some t) h = cat_loop (Some b) (Some t) ?h1"
      using Cons.prems a nx by (subst cat_loop.simps) (simp add: at_live)
    also have "\<dots> = Some (Inr (Some (last as),
      edit (\<lambda>c b. if c \<in> set (butlast as) then b\<lparr>pb_tot_len := pb_tot_len b + pb_tot_len (nd h t)\<rparr> else b) ?h1))"
      using Cons.IH [OF ch] Cons.prems \<open>as = b # bs\<close> unfolding t by simp
    also have "edit (\<lambda>c b. if c \<in> set (butlast as) then b\<lparr>pb_tot_len := pb_tot_len b + pb_tot_len (nd h t)\<rparr> else b) ?h1 =
      edit (\<lambda>c b. if c \<in> set (butlast (a # as)) then b\<lparr>pb_tot_len := pb_tot_len b + pb_tot_len (nd h t)\<rparr> else b) h"
      using an a(2) \<open>as = b # bs\<close> by (auto simp: edit_upd dest: in_set_butlastD intro!: edit_cong)
    finally show ?thesis using \<open>as = b # bs\<close> by simp
  qed
qed simp

lemma tots_last: "tots_ok h as \<Longrightarrow> as \<noteq> [] \<Longrightarrow> unat (pb_tot_len (nd h (last as))) = plen h (last as)"
  by (induction as) auto

lemma tots_cat:
  assumes "\<And>c. c \<in> set as \<Longrightarrow> same_content h h' c \<and> pb_tot_len (nd h' c) = pb_tot_len (nd h c) + T"
    "\<And>c. c \<in> set bs \<Longrightarrow> same_content h h' c \<and> pb_tot_len (nd h' c) = pb_tot_len (nd h c)"
    "tots_ok h as" "tots_ok h bs" "unat T = lens h bs" "lens h as + lens h bs < 65536"
  shows "tots_ok h' (as @ bs)"
  using assms(1,3,6)
proof (induction as)
  case Nil
  have "tots_ok h' bs = tots_ok h bs" using assms(2) by (intro tots_cong) auto
  then show ?case using assms(4) by simp
next
  case (Cons a as)
  have "lens h' as = lens h as" "lens h' bs = lens h bs"
    using Cons.prems(1) assms(2) by (auto intro!: same_content_lens)
  moreover have "plen h' a = plen h a" using Cons.prems(1) [of a] same_contentD(1) by simp
  moreover have "unat (pb_tot_len (nd h a) + T) = unat (pb_tot_len (nd h a)) + unat T"
    using Cons.prems(2,3) assms(5) by (simp add: unat_word_ariths)
  ultimately show ?case using Cons assms(5) by simp
qed

lemma cat_packet:
  assumes "is_packet h (Some a) as" "is_packet h (Some t) bs" "set as \<inter> set bs = {}" "lens h as + lens h bs < 65536"
  obtains h' where "pbuf_cat (Some a) (Some t) h = Inr h'" "is_packet h' (Some a) (as @ bs)"
    "packet_bytes h' (as @ bs) = packet_bytes h as @ packet_bytes h bs"
    "\<And>c. live h' c \<longleftrightarrow> live h c" "\<And>c. live h c \<Longrightarrow> c \<notin> set as \<Longrightarrow> nd h' c = nd h c" "hp_ext h' = hp_ext h"
    "\<And>ow. owned h (add_mset t ow) \<Longrightarrow> owned h' ow" "\<And>c. live h c \<Longrightarrow> pb_ref (nd h' c) = pb_ref (nd h c)"
proof -
  obtain as' bs' where s: "as = a # as'" "bs = t # bs'" using assms(1,2) packet_Some by metis
  have ca: "chain_from h (Some a) as" "chain_from h (Some t) bs" "tots_ok h as" "tots_ok h bs"
    using assms(1,2) by (auto simp: is_packet_def)
  have t: "live h t" "t \<notin> set as" "unat (pb_tot_len (nd h t)) = lens h bs"
    using assms(2,3) s by (auto simp: packet_Cons)
  let ?r = "last as" and ?T = "pb_tot_len (nd h t)"
  have as: "as \<noteq> []" using s by simp
  then have r: "?r \<in> set as" "as = butlast as @ [?r]" by auto
  have rl: "live h ?r" using chain_live [OF ca(1) r(1)] .
  have rn: "pb_next (nd h ?r) = None" using chain_last ca(1) r(2) by metis
  have rb: "?r \<notin> set (butlast as)"
  proof -
    have "distinct (butlast as @ [?r])" using chain_distinct [OF ca(1)] r(2) by simp
    then show ?thesis by simp
  qed
  have rt: "?r \<notin> set bs" using assms(3) r(1) by auto
  let ?h1 = "edit (\<lambda>c b. if c \<in> set (butlast as) then b\<lparr>pb_tot_len := pb_tot_len b + ?T\<rparr> else b) h"
  let ?f = "\<lambda>b. b\<lparr>pb_tot_len := pb_tot_len b + ?T, pb_next := Some t\<rparr>"
  let ?h = "upd ?r ?f ?h1"
  have nr: "nd ?h1 ?r = nd h ?r" using rl rb by (simp add: nd_edit)
  have nt: "nd ?h1 t = nd h t" using t by (auto simp: nd_edit dest: in_set_butlastD)
  have "pb_tot_len (nd h ?r) = pb_len (nd h ?r)"
    using tots_last [OF ca(3) as] by (simp add: plen_def word_unat_eq_iff)
  then have res: "pbuf_cat (Some a) (Some t) h = Inr ?h"
    using cat_loop_chain [OF ca(1) as t(1,2)] rl t(1) nr nt by (simp add: pbuf_cat_def at_live)
  have nd: "nd ?h c = (if c = ?r then ?f (nd h c)
      else if c \<in> set (butlast as) then (nd h c)\<lparr>pb_tot_len := pb_tot_len (nd h c) + ?T\<rparr> else nd h c)"
    if "live h c" for c
    using that rl nr by (simp add: nd_upd nd_edit)
  have sc: "same_content h ?h c" if "live h c" for c using nd [OF that] by (simp add: same_content_def)
  have mem: "c \<in> set as \<longleftrightarrow> c \<in> set (butlast as) \<or> c = ?r" for c by (subst r(2)) auto
  have tot: "pb_tot_len (nd ?h c) = (if c \<in> set as then pb_tot_len (nd h c) + ?T else pb_tot_len (nd h c))" if "live h c" for c
    using nd [OF that] by (auto simp: mem)
  have lv: "c \<in> set as \<or> c \<in> set bs \<Longrightarrow> live h c" for c using chain_live ca by blast
  show thesis
  proof (rule that [OF res])
    have "tots_ok ?h (as @ bs)"
    proof (rule tots_cat [of as h _ ?T bs])
      fix c
      show "same_content h ?h c \<and> pb_tot_len (nd ?h c) = pb_tot_len (nd h c) + ?T" if "c \<in> set as"
        using that sc [OF lv] tot [OF lv] by simp
      show "same_content h ?h c \<and> pb_tot_len (nd ?h c) = pb_tot_len (nd h c)" if "c \<in> set bs"
        using that sc [OF lv] tot [OF lv] assms(3) by auto
    qed (rule ca(3,4) t(3) assms(4))+
    moreover have "chain_from ?h (Some a) (butlast as @ ?r # bs)"
    proof (rule chain_link)
      show "chain_from ?h1 (Some t) bs"
        using ca(2) by (elim chain_from_cong [rotated]) (use assms(3) in \<open>auto simp: nd_edit dest: in_set_butlastD\<close>)
      show "chain_from ?h1 (Some a) (butlast as @ [?r])"
        using ca(1) unfolding r(2) [symmetric] by (elim chain_from_cong [rotated]) (auto simp: nd_edit)
    qed (use rt rb rl in simp_all)
    moreover have "\<forall>c\<in>set (as @ bs). payload_ok ?h c"
      using assms(1,2) lv same_contentD(2) [OF sc] by (auto simp: is_packet_def)
    moreover have "butlast as @ ?r # bs = as @ bs" using r(2) by (metis append.assoc append_Cons append_Nil)
    ultimately show "is_packet ?h (Some a) (as @ bs)" by (simp add: is_packet_def)
    show "packet_bytes ?h (as @ bs) = packet_bytes h as @ packet_bytes h bs"
      using same_content_bytes [of as h ?h] same_content_bytes [of bs h ?h] sc lv by simp
    show "live ?h c \<longleftrightarrow> live h c" for c by simp
    show "nd ?h c = nd h c" if "live h c" "c \<notin> set as" for c using that(2) nd [OF that(1)] mem [of c] by simp
    show "hp_ext ?h = hp_ext h" by simp
    show "pb_ref (nd ?h c) = pb_ref (nd h c)" if "live h c" for c using nd [OF that] by simp
    fix ow assume o: "owned h (add_mset t ow)"
    have "owned ?h1 (add_mset t ow)" by (rule owned_keep [OF o]) (simp_all add: nd_edit)
    then show "owned ?h ow"
    proof (rule link_owned)
      show "chain_from ?h1 (Some t) bs"
        using ca(2) by (elim chain_from_cong [rotated]) (use assms(3) in \<open>auto simp: nd_edit dest: in_set_butlastD\<close>)
    qed (use rl rn rt nr in simp_all)
  qed
qed

section \<open>The rest of a chain goes\<close>

lemma freed_in_chain:
  assumes "keeps h h'" "owned h (add_mset q ow)" "owned h' ow" "chain_from h (Some q) bs" "live h c" "\<not> live h' c"
  shows "c \<in> set bs"
proof -
  obtain d ds where d: "d \<in># add_mset q ow" "chain_from h (Some d) ds" "c \<in> set ds"
    using owned_reached [OF assms(2,5)] by (auto simp: reaches_def)
  show ?thesis
  proof (cases "d = q")
    case True
    then show ?thesis using d assms(4) chain_unique by blast
  next
    case False
    then have "reaches h ow c" using d by (auto simp: reaches_def)
    then show ?thesis using keeps_reaches [OF assms(1,3)] assms(6) by simp
  qed
qed

lemma gone_count:
  assumes "keeps h h'" "owned h (add_mset q ow)" "owned h' ow" "chain_from h (Some q) bs" "length bs < 256"
  shows "0 < (of_nat (live_count h - live_count h') :: u8) \<longleftrightarrow> \<not> live h' q"
proof -
  let ?gone = "{a. live h a \<and> \<not> live h' a}"
  have sub: "?gone \<subseteq> set bs" using freed_in_chain [OF assms(1-4)] by auto
  then have "card ?gone \<le> length bs"
    using card_mono [of "set bs" ?gone] card_length [of bs] by simp
  then have c: "live_count h - live_count h' = card ?gone" "card ?gone < 256"
    using live_count_diff [OF assms(1)] assms(5) by auto
  have fin: "finite ?gone" using sub finite_subset by blast
  have q: "live h q" using assms(2) by (simp add: owned_def)
  have "card ?gone = 0 \<longleftrightarrow> live h' q"
  proof
    assume "card ?gone = 0"
    then show "live h' q" using fin q by auto
  next
    assume "live h' q"
    then obtain es where "chain_from h' (Some q) es" using owned_chain [OF assms(3)] by blast
    then have "chain_from h' (Some q) bs" using keeps_chain [OF assms(1)] assms(4) chain_unique by metis
    then have "?gone = {}" using sub chain_live by blast
    then show "card ?gone = 0" by simp
  qed
  moreover have "(of_nat (card ?gone) :: u8) = 0 \<longleftrightarrow> card ?gone = 0"
    using c(2) by (simp add: word_unat_eq_iff unsigned_of_nat take_bit_nat_eq_self)
  ultimately show ?thesis unfolding c(1) by (auto simp: word_greater_zero_iff)
qed

lemma keeps_payload: "keeps h h' \<Longrightarrow> live h' c \<Longrightarrow> same_content h h' c"
  using keepsD [of h h' c] by (simp add: same_content_def keeps_def)

lemma packet_distinct: "is_packet h p as \<Longrightarrow> distinct as"
  unfolding is_packet_def by (blast intro: chain_distinct)

lemma packet_same:
  assumes "is_packet h p as" "chain_from h' p' as"
    "\<And>c. c \<in> set as \<Longrightarrow> same_content h h' c \<and> pb_tot_len (nd h' c) = pb_tot_len (nd h c)"
  shows "is_packet h' p' as" "packet_bytes h' as = packet_bytes h as"
proof -
  have "tots_ok h' as = tots_ok h as" using assms(3) by (intro tots_cong) simp
  moreover have "payload_ok h' c = payload_ok h c" if "c \<in> set as" for c
    by (rule same_contentD(2)) (use assms(3) [OF that] in simp)
  ultimately show "is_packet h' p' as" using assms(1,2) by (simp add: is_packet_def)
  show "packet_bytes h' as = packet_bytes h as" using assms(3) by (intro same_content_bytes) simp
qed

lemma dechain_packet:
  assumes "owned h ow" "a \<in># ow" "is_packet h (Some a) (a # bs)" "length bs < 256"
  obtains q h' where "pbuf_dechain e (Some a) h = Inr (q, h')" "owned h' ow" "is_packet h' (Some a) [a]"
    "payload_bytes h' a = payload_bytes h a"
    "q = (if bs \<noteq> [] \<and> live h' (hd bs) then Some (hd bs) else None)"
    "q \<noteq> None \<Longrightarrow> is_packet h' q bs \<and> packet_bytes h' bs = packet_bytes h bs"
proof -
  have a: "live h a" "payload_ok h a" "unat (pb_tot_len (nd h a)) = plen h a + lens h bs" "is_packet h (pb_next (nd h a)) bs"
    using assms(3) by (auto simp: packet_Cons)
  show thesis
  proof (cases bs)
    case Nil
    then have "pb_next (nd h a) = None" "pb_tot_len (nd h a) = pb_len (nd h a)"
      using a(3,4) by (auto simp: is_packet_def plen_def word_unat_eq_iff)
    then have "pbuf_dechain e (Some a) h = Inr (None, h)" using a(1) by (simp add: pbuf_dechain_def at_live)
    then show thesis using assms a Nil by (intro that [of None h]) auto
  next
    case (Cons q bs')
    then have q: "pb_next (nd h a) = Some q" "live h q" "unat (pb_tot_len (nd h q)) = lens h bs"
      using a(4) by (auto simp: packet_Cons)
    have tq: "pb_tot_len (nd h q) = pb_tot_len (nd h a) - pb_len (nd h a)"
      using a(3) q(3) by (simp add: word_unat_eq_iff unat_sub word_le_nat_alt plen_def)
    have "upd q (\<lambda>b. b\<lparr>pb_tot_len := pb_tot_len (nd h a) - pb_len (nd h a)\<rparr>) h = h"
      unfolding tq [symmetric] using q(2) by (simp add: upd_edit edit_id)
    moreover
    let ?f = "\<lambda>b. b\<lparr>pb_next := None, pb_tot_len := pb_len b\<rparr>"
    let ?h1 = "upd a ?f h"
    have o1: "owned ?h1 (add_mset q ow)" by (rule unlink_owned [OF assms(1) a(1) q(1)]) simp_all
    then obtain n h' where f: "pbuf_free e (Some q) ?h1 = Inr (n, h')" "owned h' ow" "keeps ?h1 h'"
      "n = of_nat (live_count ?h1 - live_count h')" by (rule free_owned)
    have la: "live h' a" using owned_live [OF f(2) assms(2)] .
    have fa: "pb_tot_len (nd h' a) = pb_len (nd h' a)" "pb_next (nd h' a) = None"
      using keepsD(2-4) [OF f(3) la] a(1) by simp_all
    have an: "a \<notin> set bs" using packet_distinct [OF assms(3)] by simp
    have nb: "nd ?h1 c = nd h c" if "c \<in> set bs" for c using that an by (cases "c = a") auto
    have cb: "chain_from ?h1 (Some q) bs"
      using a(4) q(1) by (intro chain_from_cong [of bs h ?h1]) (auto simp: nb is_packet_def)
    have gone: "0 < n \<longleftrightarrow> \<not> live h' q" unfolding f(4) by (rule gone_count [OF f(3) o1 f(2) cb assms(4)])
    ultimately have res: "pbuf_dechain e (Some a) h = Inr (if 0 < n then None else Some q, h')"
      using a(1) q(1,2) tq f(1) la fa(1) by (simp add: pbuf_dechain_def at_live)
    have sa: "same_content h h' a"
      using keeps_payload [OF f(3) la] a(1) by (simp add: same_content_def)
    show thesis
    proof (rule that [OF res f(2)])
      show "is_packet h' (Some a) [a]"
        using la fa a(2) same_contentD(2) [OF sa] by (simp add: packet_Cons plen_def)
      show "payload_bytes h' a = payload_bytes h a" by (rule same_contentD(3) [OF sa])
      show "(if 0 < n then None else Some q) = (if bs \<noteq> [] \<and> live h' (hd bs) then Some (hd bs) else None)"
        using gone Cons by simp
      assume "(if 0 < n then None else Some q) \<noteq> None"
      then have lq: "live h' q" "(if 0 < n then None else Some q) = Some q" using gone by (auto split: if_splits)
      then obtain es where "chain_from h' (Some q) es" using owned_chain [OF f(2)] by blast
      then have ch: "chain_from h' (Some q) bs" using keeps_chain [OF f(3)] cb chain_unique by metis
      have sb: "same_content h h' c \<and> pb_tot_len (nd h' c) = pb_tot_len (nd h c)" if "c \<in> set bs" for c
        using keeps_payload [OF f(3) chain_live [OF ch that]] keepsD(4) [OF f(3) chain_live [OF ch that]] nb [OF that]
        by (simp add: same_content_def)
      have "is_packet h' (Some q) bs" "packet_bytes h' bs = packet_bytes h bs"
        using packet_same [OF a(4) ch] sb by blast+
      then show "is_packet h' (if 0 < n then None else Some q) bs \<and> packet_bytes h' bs = packet_bytes h bs"
        unfolding lq(2) by simp
    qed
  qed
qed

section \<open>Shrinking\<close>

lemma release_upd: "a \<noteq> q \<Longrightarrow> release e a b (upd q f h) = upd q f (release e a b h)"
proof -
  assume "a \<noteq> q"
  then have "(xs[q := x])[a := None] = (xs[a := None])[q := x]" for xs :: "pbuf option list" and x
    by (simp add: list_update_swap)
  with \<open>a \<noteq> q\<close> show ?thesis by (auto simp: release_def upd_def log_event_def split: option.splits)
qed

lemma upd_swap: "a \<noteq> q \<Longrightarrow> upd a g (upd q f h) = upd q f (upd a g h)"
  by (simp add: upd_def list_update_swap)

lemma free_loop_upd:
  "chain_from h p bs \<Longrightarrow> q \<notin> set bs \<Longrightarrow> live h q \<Longrightarrow> free_loop e p k h = Inr (n, h') \<Longrightarrow>
     free_loop e p k (upd q f h) = Inr (n, upd q f h') \<and> live h' q"
proof (induction bs arbitrary: p k h)
  case Nil
  then have "p = None" by simp
  with Nil show ?case by (auto simp: free_loop.simps)
next
  case (Cons a bs)
  have a: "p = Some a" "live h a" "a \<noteq> q" "chain_from h (pb_next (nd h a)) bs" "a \<notin> set bs"
    using Cons.prems(1,2) chain_distinct [OF Cons.prems(1)] by auto
  have nq: "nd (upd q f h) a = nd h a" using a(3) by simp
  let ?g = "\<lambda>b. b\<lparr>pb_ref := pb_ref (nd h a) - 1\<rparr>"
  have pos: "0 < pb_ref (nd h a)"
    using Cons.prems(4) a by (subst (asm) free_loop.simps) (auto simp: at_live split: if_splits)
  show ?case
  proof (cases "pb_ref (nd h a) = 1")
    case False
    then have "(n, h') = (k, upd a ?g h)"
      using Cons.prems(4) a pos by (subst (asm) free_loop.simps) (simp add: at_live Let_def)
    moreover have "free_loop e p k (upd q f h) = Inr (k, upd a ?g (upd q f h))"
      using a pos nq False by (subst free_loop.simps) (simp add: at_live Let_def)
    ultimately show ?thesis using a Cons.prems(3) by (simp add: upd_swap [OF a(3)])
  next
    case True
    let ?h2 = "release e a (nd h a) (upd a (\<lambda>b. b\<lparr>pb_ref := 0\<rparr>) h)"
    have s1: "free_loop e (pb_next (nd h a)) (k + 1) ?h2 = Inr (n, h')"
      using Cons.prems(4) a pos True by (subst (asm) free_loop.simps) (simp add: at_live Let_def)
    have "free_loop e p k (upd q f h) = free_loop e (pb_next (nd h a)) (k + 1)
        (release e a (nd h a) (upd a (\<lambda>b. b\<lparr>pb_ref := 0\<rparr>) (upd q f h)))"
      using a pos nq True by (subst free_loop.simps) (simp add: at_live Let_def)
    also have "release e a (nd h a) (upd a (\<lambda>b. b\<lparr>pb_ref := 0\<rparr>) (upd q f h)) = upd q f ?h2"
      by (simp only: upd_swap [OF a(3)] release_upd [OF a(3)])
    finally have s2: "free_loop e p k (upd q f h) = free_loop e (pb_next (nd h a)) (k + 1) (upd q f ?h2)" .
    have "nd ?h2 c = nd h c" if "c \<in> set bs" for c using that a(5) by (cases "c = a") auto
    then have "chain_from ?h2 (pb_next (nd h a)) bs"
      using a(4,5) by (intro chain_from_cong [of bs h ?h2]) auto
    moreover have "live ?h2 q" using Cons.prems(3) a(3) by simp
    ultimately show ?thesis using Cons.IH [OF _ _ _ s1] Cons.prems(2) s2 by simp
  qed
qed

lemma shrink_loop_packet:
  assumes "is_packet h p as" "as \<noteq> []" "unat rem_len \<le> lens h as" "grow < 65535"
  shows "\<exists>xs q ys r. as = xs @ q # ys \<and> unat rem_len = lens h xs + unat r \<and> unat r \<le> plen h q \<and>
    shrink_loop p rem_len grow h = Some (Inr (Some q, r,
      edit (\<lambda>c b. if c \<in> set xs then b\<lparr>pb_tot_len := pb_tot_len b + of_int grow\<rparr> else b) h))"
  using assms(1-3)
proof (induction as arbitrary: p rem_len h)
  case (Cons a as)
  then have a: "p = Some a" "live h a" "is_packet h (pb_next (nd h a)) as" by (auto simp: packet_Cons)
  show ?case
  proof (cases "pb_len (nd h a) < rem_len")
    case False
    then have "unat rem_len \<le> plen h a" by (simp add: plen_def word_less_nat_alt)
    moreover have "shrink_loop p rem_len grow h = Some (Inr (Some a, rem_len, edit (\<lambda>c b. b) h))"
      using False a by (subst shrink_loop.simps) (simp add: at_live edit_id)
    ultimately show ?thesis
      by (intro exI [of _ "[]"] exI [of _ a] exI [of _ as] exI [of _ rem_len]) simp
  next
    case True
    let ?g = "\<lambda>b. b\<lparr>pb_tot_len := pb_tot_len b + of_int grow\<rparr>"
    let ?h1 = "upd a ?g h"
    have u: "unat (rem_len - pb_len (nd h a)) = unat rem_len - plen h a" "plen h a < unat rem_len"
      using True by (simp_all add: plen_def word_less_nat_alt word_le_nat_alt unat_sub)
    then have ne: "as \<noteq> []" "unat (rem_len - pb_len (nd h a)) \<le> lens h as" using Cons.prems(3) by auto
    then obtain b bs where as: "as = b # bs" by (cases as) auto
    then have nx: "pb_next (nd h a) = Some b" using a(3) by (simp add: packet_Cons)
    have an: "a \<notin> set as" using packet_distinct [OF Cons.prems(1)] by simp
    have nb: "nd ?h1 c = nd h c" if "c \<in> set as" for c using that an by (cases "c = a") auto
    have p1: "is_packet ?h1 (Some b) as"
    proof (rule packet_same [OF a(3)])
      show "chain_from ?h1 (Some b) as"
        using a(3) nx by (intro chain_from_cong [of as h ?h1]) (auto simp: nb is_packet_def)
    qed (simp add: same_content_def nb)
    have l1: "lens ?h1 as = lens h as" by (intro same_content_lens) (simp add: same_content_def nb)
    have s: "shrink_loop p rem_len grow h = shrink_loop (Some b) (rem_len - pb_len (nd h a)) grow ?h1"
      using True a(1,2) nx assms(4) by (subst shrink_loop.simps) (simp add: at_live)
    from Cons.IH [OF p1 ne(1), of "rem_len - pb_len (nd h a)"] ne(2) l1 obtain xs q ys r where
      x: "as = xs @ q # ys" "unat (rem_len - pb_len (nd h a)) = lens ?h1 xs + unat r" "unat r \<le> plen ?h1 q"
      "shrink_loop (Some b) (rem_len - pb_len (nd h a)) grow ?h1 = Some (Inr (Some q, r,
        edit (\<lambda>c b. if c \<in> set xs then ?g b else b) ?h1))" by auto
    have "lens ?h1 xs = lens h xs" using x(1) nb by (intro same_content_lens) (simp add: same_content_def)
    moreover have "plen ?h1 q = plen h q" using x(1) nb [of q] by (simp add: plen_def)
    moreover have "edit (\<lambda>c b. if c \<in> set xs then ?g b else b) ?h1 = edit (\<lambda>c b. if c \<in> set (a # xs) then ?g b else b) h"
      using an a(2) x(1) by (auto simp: edit_upd intro!: edit_cong)
    ultimately have "a # as = (a # xs) @ q # ys \<and> unat rem_len = lens h (a # xs) + unat r \<and> unat r \<le> plen h q \<and>
        shrink_loop p rem_len grow h = Some (Inr (Some q, r, edit (\<lambda>c b. if c \<in> set (a # xs) then ?g b else b) h))"
      using x u s by auto
    then show ?thesis by blast
  qed
qed simp

lemma tots_shrink:
  assumes "tots_ok h (xs @ q # ys)" "unat r \<le> plen h q"
    "\<And>c. c \<in> set xs \<Longrightarrow> same_content h h' c \<and> pb_tot_len (nd h' c) = pb_tot_len (nd h c) - k"
    "unat k = plen h q + lens h ys - unat r" "plen h' q = unat r" "pb_tot_len (nd h' q) = r"
  shows "tots_ok h' (xs @ [q])"
  using assms(1,3)
proof (induction xs)
  case Nil
  then show ?case using assms(5,6) by simp
next
  case (Cons c xs)
  have "lens h' xs = lens h xs" using Cons.prems(2) by (intro same_content_lens) auto
  moreover have "plen h' c = plen h c" using Cons.prems(2) [of c] same_contentD(1) by simp
  moreover have t: "unat (pb_tot_len (nd h c)) = plen h c + (lens h xs + (plen h q + lens h ys))" using Cons.prems(1) by simp
  moreover have "unat (pb_tot_len (nd h c) - k) = unat (pb_tot_len (nd h c)) - unat k"
    using t assms(4) by (intro unat_sub) (simp add: word_le_nat_alt)
  moreover have "tots_ok h' (xs @ [q])" using Cons by simp
  ultimately show ?case using Cons.prems(2) [of c] assms(2,4,5) by simp
qed

lemma length_packet_bytes: "(\<And>c. c \<in> set as \<Longrightarrow> payload_ok h c) \<Longrightarrow> length (packet_bytes h as) = lens h as"
  by (induction as) (auto simp: length_payload)

lemma same_content_next:
  "live h q \<Longrightarrow> same_content h (upd q (\<lambda>b. b\<lparr>pb_next := x\<rparr>) h) c \<and>
     pb_tot_len (nd (upd q (\<lambda>b. b\<lparr>pb_next := x\<rparr>) h) c) = pb_tot_len (nd h c)"
  by (cases "c = q") (simp_all add: same_content_def)

lemma chain_cut:
  assumes "\<And>c. c \<in> set xs \<Longrightarrow> live h' c \<and> pb_next (nd h' c) = pb_next (nd h c)" "live h' q \<and> pb_next (nd h' q) = None"
  shows "chain_from h p (xs @ q # ys) \<Longrightarrow> chain_from h' p (xs @ [q])"
  using assms by (induction xs arbitrary: p) auto

lemma cut_packet:
  assumes "is_packet h p (xs @ q # ys)" "unat r \<le> plen h q" "unat k = plen h q + lens h ys - unat r"
    "hp_ext h' = hp_ext h"
    "\<And>c. c \<in> set xs \<Longrightarrow> live h' c \<and> nd h' c = (nd h c)\<lparr>pb_tot_len := pb_tot_len (nd h c) - k\<rparr>"
    "live h' q \<and> nd h' q = (nd h q)\<lparr>pb_len := r, pb_tot_len := r, pb_next := None\<rparr>"
  shows "is_packet h' p (xs @ [q]) \<and>
    packet_bytes h' (xs @ [q]) = packet_bytes h xs @ take (unat r) (payload_bytes h q)"
proof -
  have sc: "same_content h h' c" if "c \<in> set xs" for c using assms(5) [OF that] by (simp add: same_content_def assms(4))
  have b: "block h' (nd h' q) = block h (nd h q)" "pb_payload (nd h' q) = pb_payload (nd h q)"
    using assms(4,6) by (simp_all add: block_def split: payload_ptr.split)
  have l: "plen h' q = unat r" using assms(6) by (simp add: plen_def)
  have "payload_ok h q" using assms(1) by (simp add: is_packet_def)
  then have okq: "payload_ok h' q" using assms(2) by (auto simp: payload_ok_def b l split: prod.splits)
  have "payload_bytes h' q = take (unat r) (payload_bytes h q)"
    using assms(2) by (auto simp: payload_bytes_def b l min_def split: prod.splits)
  moreover have "packet_bytes h' xs = packet_bytes h xs" using sc by (intro same_content_bytes) simp
  ultimately have bytes: "packet_bytes h' (xs @ [q]) = packet_bytes h xs @ take (unat r) (payload_bytes h q)" by simp
  have "tots_ok h' (xs @ [q])"
  proof (rule tots_shrink [OF _ assms(2) _ assms(3) l])
    show "tots_ok h (xs @ q # ys)" using assms(1) by (simp add: is_packet_def)
  qed (use sc assms(5,6) in auto)
  moreover have "chain_from h' p (xs @ [q])"
    by (rule chain_cut [where h = h and ys = ys]) (use assms(1,5,6) in \<open>auto simp: is_packet_def\<close>)
  moreover have "payload_ok h' c" if "c \<in> set xs" for c
    using assms(1) that same_contentD(2) [OF sc [OF that]] by (simp add: is_packet_def)
  ultimately show ?thesis using bytes okq by (simp add: is_packet_def)
qed

lemma realloc_packet:
  assumes "owned h ow" "a \<in># ow" "is_packet h (Some a) as"
  obtains as' h' where "pbuf_realloc e (Some a) new_len h = Inr h'" "owned h' ow" "is_packet h' (Some a) as'"
    "packet_bytes h' as' = take (unat new_len) (packet_bytes h as)" "lens h' as' = min (unat new_len) (lens h as)"
proof -
  note outer = that
  obtain bs where s: "as = a # bs" using packet_Some [OF assms(3)] by auto
  have la: "live h a" "unat (pb_tot_len (nd h a)) = lens h as" using assms(3) by (auto simp: s packet_Cons)
  show thesis
  proof (cases "pb_tot_len (nd h a) \<le> new_len")
    case True
    then have "lens h as \<le> unat new_len" using la by (simp add: word_le_nat_alt)
    moreover have "pbuf_realloc e (Some a) new_len h = Inr h" using True la by (simp add: pbuf_realloc_def at_live)
    ultimately show thesis using assms length_packet [OF assms(3)] by (intro that [of h as]) auto
  next
    case False
    then have lt: "unat new_len < lens h as" using la by (simp add: word_le_nat_alt)
    let ?grow = "uint new_len - uint (pb_tot_len (nd h a))"
    let ?k = "pb_tot_len (nd h a) - new_len"
    have uk: "unat ?k = lens h as - unat new_len"
      using lt la by (subst unat_sub) (simp_all add: word_le_nat_alt)
    have gk: "b + of_int ?grow = b - ?k" for b :: u16 by simp
    have "?grow < 65535" using False by (simp add: word_le_def)
    from shrink_loop_packet [OF assms(3) _ less_imp_le [OF lt] this] s obtain xs q ys r where
      x: "as = xs @ q # ys" "unat new_len = lens h xs + unat r" "unat r \<le> plen h q"
      "shrink_loop (Some a) new_len ?grow h = Some (Inr (Some q, r,
        edit (\<lambda>c b. if c \<in> set xs then b\<lparr>pb_tot_len := pb_tot_len b + of_int ?grow\<rparr> else b) h))" by blast
    let ?h1 = "edit (\<lambda>c b. if c \<in> set xs then b\<lparr>pb_tot_len := pb_tot_len b - ?k\<rparr> else b) h"
    define h2 where "h2 = upd q (\<lambda>b. b\<lparr>pb_len := r, pb_tot_len := r\<rparr>) ?h1"
    have x4: "shrink_loop (Some a) new_len ?grow h = Some (Inr (Some q, r, ?h1))" using x(4) unfolding gk .
    have e2: "hp_ext h2 = hp_ext h" "\<And>c. live h2 c \<longleftrightarrow> live h c" by (simp_all add: h2_def)
    have ds: "distinct (xs @ q # ys)" using packet_distinct [OF assms(3)] x(1) by simp
    have ok: "payload_ok h c" "live h c" if "c \<in> set as" for c
      using assms(3) that chain_live by (auto simp: is_packet_def)
    have lq: "live h q" "q \<notin> set xs" using ok x(1) ds by auto
    have nq: "nd ?h1 q = nd h q" using lq by (simp add: nd_edit)
    have nx: "nd h2 c = (nd h c)\<lparr>pb_tot_len := pb_tot_len (nd h c) - ?k\<rparr>" if "c \<in> set xs" for c
      using that lq(2) ok(2) [of c] x(1) by (cases "c = q") (auto simp: nd_edit h2_def)
    have o2: "owned h2 ow"
      by (rule owned_keep [OF assms(1)]) (use lq in \<open>auto simp: nd_upd nd_edit h2_def\<close>)
    have q2: "nd h2 q = (nd h q)\<lparr>pb_len := r, pb_tot_len := r\<rparr>" using lq nq by (simp add: h2_def)
    define h3 where "h3 = upd q (\<lambda>b. b\<lparr>pb_next := None\<rparr>) h2"
    have l2: "live h2 q" using lq by (simp add: e2)
    have e3: "hp_ext h3 = hp_ext h" "\<And>c. live h3 c \<longleftrightarrow> live h c" by (simp_all add: h3_def e2)
    have n3: "nd h3 c = nd h2 c" if "c \<noteq> q" for c using that by (simp add: h3_def)
    have q3: "nd h3 q = (nd h2 q)\<lparr>pb_next := None\<rparr>" using l2 by (simp add: h3_def)
    have x3: "nd h3 c = (nd h c)\<lparr>pb_tot_len := pb_tot_len (nd h c) - ?k\<rparr>" if "c \<in> set xs" for c
      using n3 [of c] nx [OF that] lq(2) that by (cases "c = q") simp_all
    have "is_packet h (Some a) (xs @ q # ys)" using assms(3) x(1) by simp
    note cut = cut_packet [OF this x(3), of ?k h3]
    have pb: "is_packet h3 (Some a) (xs @ [q]) \<and>
        packet_bytes h3 (xs @ [q]) = packet_bytes h xs @ take (unat r) (payload_bytes h q)"
    proof (rule cut)
      show "unat ?k = plen h q + lens h ys - unat r" using uk x(1,2) by simp
      show "live h3 c \<and> nd h3 c = (nd h c)\<lparr>pb_tot_len := pb_tot_len (nd h c) - ?k\<rparr>" if "c \<in> set xs" for c
        using x3 [OF that] ok(2) [of c] that x(1) by (simp add: e3)
      show "live h3 q \<and> nd h3 q = (nd h q)\<lparr>pb_len := r, pb_tot_len := r, pb_next := None\<rparr>"
        unfolding q3 q2 using lq(1) by (simp add: e3)
    qed (rule e3)
    note p3 = conjunct1 [OF pb]
    have c3: "chain_from h3 (Some a) (xs @ [q])" using p3 unfolding is_packet_def by (rule conjunct1)
    have by3: "packet_bytes h3 (xs @ [q]) = take (unat new_len) (packet_bytes h as)"
    proof -
      have "length (packet_bytes h xs) = lens h xs" "length (payload_bytes h q) = plen h q"
        using ok x(1) by (auto simp: length_payload intro: length_packet_bytes)
      then show ?thesis unfolding conjunct2 [OF pb] using x(1,2,3) by simp
    qed
    have final: thesis
      if res: "pbuf_realloc e (Some a) new_len h = Inr h'" and o: "owned h' ow" and k: "keeps h3 h'" for h'
    proof -
      obtain es where "chain_from h' (Some a) es" using owned_chain [OF o owned_live [OF o assms(2)]] by blast
      then have ca: "chain_from h' (Some a) (xs @ [q])" using keeps_chain [OF k] c3 chain_unique by metis
      have sm: "same_content h3 h' c \<and> pb_tot_len (nd h' c) = pb_tot_len (nd h3 c)" if "c \<in> set (xs @ [q])" for c
        using keeps_payload [OF k chain_live [OF ca that]] keepsD(4) [OF k chain_live [OF ca that]] by simp
      have ps: "is_packet h' (Some a) (xs @ [q])" "packet_bytes h' (xs @ [q]) = packet_bytes h3 (xs @ [q])"
        using packet_same [OF p3 ca] sm by blast+
      have "packet_bytes h' (xs @ [q]) = take (unat new_len) (packet_bytes h as)" using ps(2) by3 by simp
      moreover from this have "lens h' (xs @ [q]) = min (unat new_len) (lens h as)"
        using length_packet [OF ps(1)] length_packet [OF assms(3)] by simp
      ultimately show thesis using outer [OF res o ps(1)] by blast
    qed
    have step: "pbuf_realloc e (Some a) new_len h =
        bindE (bindE (if pb_next (nd h2 q) \<noteq> None then bindE (pbuf_free e (pb_next (nd h2 q)) h2) (\<lambda>(_, h3). Inr h3) else Inr h2)
          (\<lambda>h3. bindE (at h3 (Some q)) (\<lambda>_. Inr h3))) (\<lambda>h3. Inr (upd q (\<lambda>b. b\<lparr>pb_next := None\<rparr>) h3))"
      using False la(1) x4 l2 by (simp add: pbuf_realloc_def at_live bindE_assoc h2_def)
    have nq2: "pb_next (nd h2 q) = pb_next (nd h q)" by (simp add: q2)
    show thesis
    proof (cases ys)
      case Nil
      then have "pb_next (nd h q) = None" using assms(3) x(1) chain_last by (auto simp: is_packet_def)
      then have "pbuf_realloc e (Some a) new_len h = Inr h3" using step nq2 l2 by (simp add: at_live h3_def)
      moreover have "owned h3 ow"
        by (rule owned_keep [OF o2]) (use \<open>pb_next (nd h q) = None\<close> nq2 l2 in \<open>auto simp: nd_upd h3_def\<close>)
      ultimately show thesis by (rule final) simp
    next
      case (Cons y ys')
      then have ny: "pb_next (nd h q) = Some y" using assms(3) x(1) chain_next by (auto simp: is_packet_def)
      then have "owned h3 (add_mset y ow)" unfolding h3_def using nq2 l2 by (intro unlink_owned [OF o2]) simp_all
      then obtain n h' where f: "pbuf_free e (Some y) h3 = Inr (n, h')" "owned h' ow" "keeps h3 h'" by (rule free_owned)
      have "upd q (\<lambda>b. b\<lparr>pb_next := Some y\<rparr>) h3 = upd q (\<lambda>b. b\<lparr>pb_next := Some y\<rparr>) h2"
        using upd_upd [OF l2] by (simp add: h3_def)
      also have "\<dots> = h2" using l2 nq2 ny by (simp only: upd_edit) (rule edit_id, auto)
      finally have relinked: "upd q (\<lambda>b. b\<lparr>pb_next := Some y\<rparr>) h3 = h2" .
      have "chain_from h (Some y) ys"
        using assms(3) x(1) Cons chain_suffix [of h "Some a" "xs @ [q]" y ys'] by (simp add: is_packet_def)
      moreover have "nd h3 c = nd h c" if "c \<in> set ys" for c
      proof -
        have "c \<noteq> q" "c \<notin> set xs" "live h c" using that ds ok(2) x(1) by auto
        then show ?thesis using n3 [of c] by (simp add: h2_def nd_edit)
      qed
      ultimately have cy: "chain_from h3 (Some y) ys" by (intro chain_from_cong [of ys h h3]) (auto simp: e3)
      have "q \<notin> set ys" "live h3 q" using ds lq by (auto simp: e3)
      from free_loop_upd [OF cy this f(1) [unfolded pbuf_free_def, simplified], of "\<lambda>b. b\<lparr>pb_next := Some y\<rparr>"]
      have f2: "pbuf_free e (Some y) h2 = Inr (n, upd q (\<lambda>b. b\<lparr>pb_next := Some y\<rparr>) h')" "live h' q"
        unfolding relinked by (simp_all add: pbuf_free_def)
      have nn: "pb_next (nd h' q) = None" using keepsD(2) [OF f(3) f2(2)] q3 by simp
      have "upd q (\<lambda>b. b\<lparr>pb_next := None\<rparr>) (upd q (\<lambda>b. b\<lparr>pb_next := Some y\<rparr>) h') = upd q (\<lambda>b. b\<lparr>pb_next := None\<rparr>) h'"
        using upd_upd [OF f2(2)] by simp
      also have "\<dots> = h'" using f2(2) nn by (simp only: upd_edit) (rule edit_id, auto)
      finally have "pbuf_realloc e (Some a) new_len h = Inr h'" using step nq2 ny f2 by (simp add: at_live)
      then show thesis using f(2,3) by (rule final)
    qed
  qed
qed

end
