(* ===== verification/Pbuf_Reads.thy ===== *)
theory Pbuf_Reads
  imports Pbuf_Chains
begin

text \<open>
  Reading packets: copying a range out, comparing and searching depend on the bytes of the packet only.
\<close>

lemma length_overwrite: "i + length bs \<le> length m \<Longrightarrow> length (overwrite m i bs) = length m"
  by (simp add: overwrite_def)

lemma overwrite_append:
  "i + length bs + length cs \<le> length m \<Longrightarrow> overwrite (overwrite m i bs) (i + length bs) cs = overwrite m i (bs @ cs)"
proof -
  assume l: "i + length bs + length cs \<le> length m"
  then have "take (i + length bs) (overwrite m i bs) = take i m @ bs"
    by (cases bs) (auto simp: overwrite_def min_def)
  moreover have "drop (i + length bs + length cs) (overwrite m i bs) = drop (i + length bs + length cs) m"
    using l by (cases bs) (simp_all add: overwrite_def min_def ac_simps)
  ultimately show ?thesis by (simp add: overwrite_def add.assoc)
qed

lemma overwrite_Nil [simp]: "overwrite m i [] = m"
  by (simp add: overwrite_def)

lemma take_drop_overwrite: "i + length bs \<le> length m \<Longrightarrow> take (length bs) (drop i (overwrite m i bs)) = bs"
  by (simp add: overwrite_def min_def)

lemma min_split_sum: "k \<le> (m :: nat) \<Longrightarrow> min l (m + r - k) = min l (m - k) + min (l - min l (m - k)) r"
  by linarith

lemma partial_copy_packet:
  assumes "is_packet h p as" "unat left + unat len < 65536"
    "unat left + min (unat len) (lens h as - unat off) \<le> length dst"
  shows "partial_copy_loop p dst len off left h =
    Some (Inr (left + of_nat (min (unat len) (lens h as - unat off)),
      overwrite dst (unat left) (take (unat len) (drop (unat off) (packet_bytes h as)))))"
  using assms
proof (induction as arbitrary: p dst len off left)
  case Nil
  then have "p = None" by (simp add: is_packet_def)
  then show ?case by (subst partial_copy_loop.simps) simp
next
  case (Cons a as)
  then have p: "p = Some a" "live h a" "payload_ok h a" "is_packet h (pb_next (nd h a)) as" by (auto simp: packet_Cons)
  have lp: "length (payload_bytes h a) = plen h a" using length_payload [OF p(3)] .
  have lb: "length (packet_bytes h as) = lens h as" using length_packet [OF p(4)] .
  show ?case
  proof (cases "len = 0")
    case True
    then show ?thesis by (subst partial_copy_loop.simps) simp
  next
    case len0: False
    show ?thesis
    proof (cases "off \<noteq> 0 \<and> pb_len (nd h a) \<le> off")
      case True
      then have u: "unat (off - pb_len (nd h a)) = unat off - plen h a" "plen h a \<le> unat off"
        by (simp_all add: unat_sub plen_def word_le_nat_alt)
      have "partial_copy_loop p dst len off left h =
          partial_copy_loop (pb_next (nd h a)) dst len (off - pb_len (nd h a)) left h"
        using p len0 True by (subst partial_copy_loop.simps) (simp add: at_live)
      also have "\<dots> = Some (Inr (left + of_nat (min (unat len) (lens h as - unat (off - pb_len (nd h a)))),
          overwrite dst (unat left) (take (unat len) (drop (unat (off - pb_len (nd h a))) (packet_bytes h as)))))"
        using Cons.prems(2,3) u by (intro Cons.IH [OF p(4)]) auto
      finally show ?thesis using u lp by (simp add: add.commute)
    next
      case False
      then have ol: "unat off \<le> plen h a" by (auto simp: plen_def word_le_nat_alt)
      define n where "n = (if len < pb_len (nd h a) - off then len else pb_len (nd h a) - off)"
      have un: "unat n = min (unat len) (plen h a - unat off)"
        using ol by (auto simp: n_def word_less_nat_alt unat_sub plen_def word_le_nat_alt)
      let ?bs = "take (unat n) (drop (unat off) (payload_bytes h a))"
      have r: "read_payload h (nd h a) (unat off) (unat n) = Inr ?bs"
        using ol un by (intro read_payload_ok [OF p(3)]) simp
      have lbs: "length ?bs = unat n" using lp un ol by simp
      have lo: "length (overwrite dst (unat left) ?bs) = length dst"
        if "unat left + unat n \<le> length dst" using that lbs by (intro length_overwrite) simp
      have fits: "unat left + unat n \<le> length dst" using Cons.prems(3) un by auto
      have m: "memcpy_at dst (uint left) ?bs (uint n) = Inr (overwrite dst (unat left) ?bs)"
      proof -
        have "int (unat left) + int (unat n) \<le> int (length dst)" using fits by linarith
        then have "uint left + uint n \<le> int (length dst)" by simp
        then show ?thesis using lbs by (simp add: memcpy_at_def overwrite_def)
      qed
      have uln: "unat (len - n) = unat len - unat n" using un by (intro unat_sub) (simp add: word_le_nat_alt)
      have uleft: "unat (left + n) = unat left + unat n"
        using Cons.prems(2) un by (simp add: unat_word_ariths)
      have key: "min (unat len) (lens h (a # as) - unat off) = unat n + min (unat (len - n)) (lens h as)"
        unfolding uln un using min_split_sum [OF ol] by simp
      have room: "unat left + (unat n + min (unat (len - n)) (lens h as)) \<le> length dst"
        using Cons.prems(3) unfolding key .
      let ?cs = "take (unat (len - n)) (packet_bytes h as)"
      have lcs: "length ?cs = min (unat (len - n)) (lens h as)" using lb by simp
      have "partial_copy_loop p dst len off left h =
          partial_copy_loop (pb_next (nd h a)) (overwrite dst (unat left) ?bs) (len - n) 0 (left + n) h"
        by (subst partial_copy_loop.simps) (simp add: p len0 at_live Let_def False r m flip: n_def)
      also have "\<dots> = Some (Inr ((left + n) + of_nat (min (unat (len - n)) (lens h as - unat (0 :: u16))),
          overwrite (overwrite dst (unat left) ?bs) (unat (left + n))
            (take (unat (len - n)) (drop (unat (0 :: u16)) (packet_bytes h as)))))"
        using Cons.prems(2) uln uleft un room lo [OF fits]
        by (intro Cons.IH [OF p(4)]) (simp_all add: add.assoc del: length_append)
      also have "overwrite (overwrite dst (unat left) ?bs) (unat (left + n))
            (take (unat (len - n)) (drop (unat (0 :: u16)) (packet_bytes h as))) =
          overwrite dst (unat left) (?bs @ ?cs)"
        using overwrite_append [of "unat left" ?bs ?cs dst] room unfolding lbs lcs uleft by simp
      also have "?bs @ ?cs = take (unat len) (drop (unat off) (packet_bytes h (a # as)))"
        using lp ol un uln by (auto simp: min_def)
      also have "(left + n) + of_nat (min (unat (len - n)) (lens h as - unat (0 :: u16))) =
          left + of_nat (min (unat len) (lens h (a # as) - unat off))"
        unfolding key by (simp add: add.assoc)
      finally show ?thesis .
    qed
  qed
qed

lemma copy_partial_packet:
  assumes "is_packet h p as" "p \<noteq> None" "min (unat len) (lens h as - unat off) \<le> length dst"
  shows "pbuf_copy_partial p (Some dst) len off h =
    Inr (of_nat (min (unat len) (lens h as - unat off)),
      Some (overwrite dst 0 (take (unat len) (drop (unat off) (packet_bytes h as)))))"
proof -
  obtain a where "p = Some a" using assms(2) by auto
  then show ?thesis
    using partial_copy_packet [OF assms(1), of 0 len off dst] assms(3) u16_bound [of len]
    by (simp add: pbuf_copy_partial_def)
qed

fun first_diff :: "byte list \<Rightarrow> byte list \<Rightarrow> nat" where
  \<comment> \<open>one more than the place of the first difference, 0 when there is none\<close>
  "first_diff (x # xs) (y # ys) =
     (if x \<noteq> y then 1 else case first_diff xs ys of 0 \<Rightarrow> 0 | Suc n \<Rightarrow> Suc (Suc n))"
| "first_diff _ _ = 0"

lemma first_diff_0: "length xs = length ys \<Longrightarrow> first_diff xs ys = 0 \<longleftrightarrow> xs = ys"
  by (induction xs ys rule: first_diff.induct) (auto split: nat.splits)

lemma compare_loop_packet:
  assumes "is_packet h q as" "unat start + i + n \<le> lens h as" "i + n \<le> length s2"
  shows "compare_loop q start s2 i n h =
    Inr (let d = first_diff (take n (drop (unat start + i) (packet_bytes h as))) (take n (drop i s2))
         in if d = 0 then 0 else of_nat (i + d))"
  using assms(2,3)
proof (induction n arbitrary: i)
  case 0
  then show ?case by simp
next
  case (Suc n)
  have t: "lens h as < 65536" using packet_total [OF assms(1)] .
  have u: "unat (start + of_nat i) = unat start + i"
    using Suc.prems(1) t by (simp add: unat_word_ariths unsigned_of_nat take_bit_nat_eq_self)
  have g: "pbuf_get_at q (start + of_nat i) h = Inr (packet_bytes h as ! (unat start + i))"
    using get_at_packet [OF assms(1), of "start + of_nat i"] u Suc.prems(1) by simp
  have c: "take (Suc n) (drop (unat start + i) (packet_bytes h as)) =
      packet_bytes h as ! (unat start + i) # take n (drop (unat start + Suc i) (packet_bytes h as))"
    using Suc.prems(1) length_packet [OF assms(1)] by (simp add: Cons_nth_drop_Suc [symmetric])
  have s: "take (Suc n) (drop i s2) = s2 ! i # take n (drop (Suc i) s2)"
    using Suc.prems(2) by (simp add: Cons_nth_drop_Suc [symmetric])
  show ?case
    using Suc.IH [of "Suc i"] Suc.prems g unfolding c s
    by (auto simp: Let_def split: nat.split)
qed

lemma memcmp_packet:
  assumes "is_packet h p as" "unat off < lens h as" "unat off + unat n \<le> lens h as" "unat n \<le> length s2"
  shows "pbuf_memcmp p off s2 n h =
    Inr (of_nat (first_diff (take (unat n) (drop (unat off) (packet_bytes h as))) (take (unat n) s2)))"
proof -
  obtain xs a ys r where s: "as = xs @ a # ys" "skip_loop p off h = Some (Inr (Some a, r))"
    "unat off = lens h xs + unat r" "unat r < plen h a"
    using skip_loop_packet [OF assms(1), of off] assms(2) by auto
  note pa = packet_suffix [OF assms(1) [unfolded s(1)]]
  have l: "live h a" using pa by (simp add: packet_Cons)
  have ok: "\<forall>b\<in>set xs. payload_ok h b" using assms(1) s(1) by (simp add: is_packet_def)
  then have lx: "length (packet_bytes h xs) = lens h xs" by (induction xs) (auto simp: length_payload)
  have "pbuf_memcmp p off s2 n h = compare_loop (Some a) r s2 0 (unat n) h"
    using s(2,4) l by (simp add: pbuf_memcmp_def at_live plen_def word_less_nat_alt)
  also have "\<dots> = Inr (of_nat (first_diff (take (unat n) (drop (unat r) (packet_bytes h (a # ys)))) (take (unat n) s2)))"
    using compare_loop_packet [OF pa, of r 0 "unat n" s2] assms(3,4) s(1,3) by (simp add: Let_def)
  also have "drop (unat r) (packet_bytes h (a # ys)) = drop (unat off) (packet_bytes h as)"
    using s(1,3) lx by simp
  finally show ?thesis .
qed

definition occurs_at :: "byte list \<Rightarrow> byte list \<Rightarrow> nat \<Rightarrow> bool" where
  "occurs_at bs mem i \<longleftrightarrow> i + length mem \<le> length bs \<and> take (length mem) (drop i bs) = mem"

definition find_in :: "byte list \<Rightarrow> byte list \<Rightarrow> nat \<Rightarrow> u16" where
  \<comment> \<open>the first place at or behind \<open>start\<close> where \<open>mem\<close> occurs, or \<open>0xFFFF\<close>\<close>
  "find_in bs mem start =
     (case find (occurs_at bs mem) [start..<length bs + 1] of None \<Rightarrow> 0xFFFF | Some i \<Rightarrow> of_nat i)"

lemma find_None_beyond: "length bs < i + length mem \<Longrightarrow> find (occurs_at bs mem) [i..<k] = None"
  by (auto simp: find_None_iff occurs_at_def)

lemma find_upt: "find P [i..<k] = (if k \<le> i then None else if P i then Some i else find P [Suc i..<k])"
  by (cases "i < k") (auto simp: upt_rec)

lemma find_loop_packet:
  assumes "is_packet h p as" "lens h as < 65535" "length mem = unat m" "0 < unat m" "unat m \<le> lens h as"
    "unat hi = lens h as - unat m"
  shows "unat i \<le> lens h as \<Longrightarrow> find_loop p mem m i hi h = Some (Inr (find_in (packet_bytes h as) mem (unat i)))"
proof (induction "lens h as - unat i" arbitrary: i rule: less_induct)
  case less
  have lp: "length (packet_bytes h as) = lens h as" using length_packet [OF assms(1)] .
  show ?case
  proof (cases "i \<le> hi")
    case False
    then have "find (occurs_at (packet_bytes h as) mem) [unat i..<length (packet_bytes h as) + 1] = None"
      using assms(3-6) lp by (intro find_None_beyond) (simp add: word_le_nat_alt)
    with False show ?thesis by (subst find_loop.simps) (simp add: find_in_def)
  next
    case True
    then have il: "unat i + unat m \<le> lens h as" using assms(5,6) by (simp add: word_le_nat_alt)
    have mc: "pbuf_memcmp p i mem m h =
        Inr (of_nat (first_diff (take (unat m) (drop (unat i) (packet_bytes h as))) (take (unat m) mem)))"
      using il assms(3,4) by (intro memcmp_packet [OF assms(1)]) auto
    let ?d = "first_diff (take (unat m) (drop (unat i) (packet_bytes h as))) (take (unat m) mem)"
    have fd: "first_diff xs ys \<le> length xs" for xs ys
      by (induction xs ys rule: first_diff.induct) (auto split: nat.splits)
    have "?d \<le> unat m" using fd [of "take (unat m) (drop (unat i) (packet_bytes h as))" "take (unat m) mem"] by simp
    then have z: "(of_nat ?d :: u16) = 0 \<longleftrightarrow> ?d = 0"
      using u16_bound [of m] by (simp add: word_unat_eq_iff unsigned_of_nat take_bit_nat_eq_self)
    have occ: "?d = 0 \<longleftrightarrow> occurs_at (packet_bytes h as) mem (unat i)"
      using il assms(3) lp by (subst first_diff_0) (auto simp: occurs_at_def)
    show ?thesis
    proof (cases "occurs_at (packet_bytes h as) mem (unat i)")
      case T: True
      then show ?thesis
        using True mc z occ lp il
        by (subst find_loop.simps) (simp add: find_in_def find_upt [of _ "unat i"] del: upt_Suc)
    next
      case False
      have u1: "unat (i + 1) = unat i + 1" using il assms(2,4) by (simp add: unat_word_ariths)
      have "find_loop p mem m i hi h = find_loop p mem m (i + 1) hi h"
        using True mc z occ False by (subst find_loop.simps) simp
      also have "\<dots> = Some (Inr (find_in (packet_bytes h as) mem (unat (i + 1))))"
        using il u1 assms(4) by (intro less.hyps) auto
      also have "find_in (packet_bytes h as) mem (unat (i + 1)) = find_in (packet_bytes h as) mem (unat i)"
        using False u1 il lp by (simp add: find_in_def find_upt [of _ "unat i"] del: upt_Suc)
      finally show ?thesis .
    qed
  qed
qed

lemma memfind_packet:
  assumes "is_packet h p as" "p \<noteq> None" "lens h as < 65535" "length mem = unat m" "0 < unat m"
  shows "pbuf_memfind p mem m start h = Inr (find_in (packet_bytes h as) mem (unat start))"
proof -
  have lp: "length (packet_bytes h as) = lens h as" using length_packet [OF assms(1)] .
  obtain a bs where a: "p = Some a" "as = a # bs" using assms(1,2) packet_Some by (cases p) force+
  then have l: "live h a" "unat (pb_tot_len (nd h a)) = lens h as" using assms(1) by (auto simp: packet_Cons)
  show ?thesis
  proof (cases "unat m + unat start \<le> lens h as")
    case True
    have "unat (pb_tot_len (nd h a) - m) = lens h as - unat m"
      using True l(2) by (subst unat_sub) (simp_all add: word_le_nat_alt)
    then show ?thesis
      using find_loop_packet [OF assms(1,3,4,5), of "pb_tot_len (nd h a) - m" start] True l a(1)
      by (simp add: pbuf_memfind_def at_live)
  next
    case False
    then have "find (occurs_at (packet_bytes h as) mem) [unat start..<length (packet_bytes h as) + 1] = None"
      using assms(4) lp by (intro find_None_beyond) simp
    then show ?thesis using False l a(1) by (simp add: pbuf_memfind_def at_live find_in_def)
  qed
qed

lemma strstr_packet:
  assumes "is_packet h p as" "p \<noteq> None" "lens h as < 65535" "cs \<noteq> []" "length cs < 65535"
  shows "pbuf_strstr p (Some cs) h = Inr (find_in (packet_bytes h as) cs 0)"
proof -
  obtain a bs where a: "p = Some a" "as = a # bs" using assms(1,2) packet_Some by (cases p) force+
  then have l: "live h a" "unat (pb_tot_len (nd h a)) = lens h as" using assms(1) by (auto simp: packet_Cons)
  then have t: "pb_tot_len (nd h a) \<noteq> 0xFFFF" using assms(3) by auto
  have "pbuf_memfind p cs (of_nat (length cs)) 0 h = Inr (find_in (packet_bytes h as) cs (unat (0 :: u16)))"
    using assms(4,5) by (intro memfind_packet [OF assms(1-3)]) (simp_all add: unsigned_of_nat take_bit_nat_eq_self)
  then show ?thesis using t l(1) a(1) assms(4,5) by (simp add: pbuf_strstr_def at_live)
qed

end
