(* ===== verification/Pbuf_Writes.thy ===== *)
theory Pbuf_Writes
  imports Pbuf_Shape Pbuf_Reads
begin

text \<open>
  Operations that write: into one buffer, along a chain and in the middle of it, from packet to packet,
  and the payload pointer of the first buffer.
\<close>

section \<open>Writing\<close>

definition only_mem :: "heap \<Rightarrow> heap \<Rightarrow> nat list \<Rightarrow> bool" where
  \<comment> \<open>only the memory of these buffers changed\<close>
  "only_mem h h' as \<longleftrightarrow> hp_ext h' = hp_ext h \<and> (\<forall>c. live h' c \<longleftrightarrow> live h c) \<and>
     (\<forall>c. live h c \<longrightarrow> c \<notin> set as \<longrightarrow> nd h' c = nd h c) \<and>
     (\<forall>c. live h c \<longrightarrow> (\<exists>m. length m = length (pb_mem (nd h c)) \<and> nd h' c = (nd h c)\<lparr>pb_mem := m\<rparr>))"

lemma only_mem_refl [simp]: "only_mem h h as"
  unfolding only_mem_def by (auto intro: exI [of _ "pb_mem (nd h _)"])

lemma only_memD:
  assumes "only_mem h h' as" "live h c"
  shows "live h' c" "pb_next (nd h' c) = pb_next (nd h c)" "pb_ref (nd h' c) = pb_ref (nd h c)"
    "pb_tot_len (nd h' c) = pb_tot_len (nd h c)" "pb_len (nd h' c) = pb_len (nd h c)"
    "pb_payload (nd h' c) = pb_payload (nd h c)" "length (pb_mem (nd h' c)) = length (pb_mem (nd h c))"
    "pb_type (nd h' c) = pb_type (nd h c)"
proof -
  obtain m where "length m = length (pb_mem (nd h c))" "nd h' c = (nd h c)\<lparr>pb_mem := m\<rparr>"
    using assms unfolding only_mem_def by blast
  then show "pb_next (nd h' c) = pb_next (nd h c)" "pb_ref (nd h' c) = pb_ref (nd h c)"
    "pb_tot_len (nd h' c) = pb_tot_len (nd h c)" "pb_len (nd h' c) = pb_len (nd h c)"
    "pb_payload (nd h' c) = pb_payload (nd h c)" "length (pb_mem (nd h' c)) = length (pb_mem (nd h c))"
    "pb_type (nd h' c) = pb_type (nd h c)"
    by simp_all
  show "live h' c" using assms unfolding only_mem_def by blast
qed

lemma only_mem_other: "only_mem h h' as \<Longrightarrow> live h c \<Longrightarrow> c \<notin> set as \<Longrightarrow> nd h' c = nd h c"
  unfolding only_mem_def by blast

lemma only_mem_live: "only_mem h h' as \<Longrightarrow> live h' c \<longleftrightarrow> live h c"
  unfolding only_mem_def by blast

lemma only_mem_ext: "only_mem h h' as \<Longrightarrow> hp_ext h' = hp_ext h"
  unfolding only_mem_def by blast

lemma only_mem_trans:
  assumes "only_mem h h1 as" "only_mem h1 h2 bs" "set as \<subseteq> set cs" "set bs \<subseteq> set cs"
  shows "only_mem h h2 cs"
  unfolding only_mem_def
proof (intro conjI allI impI)
  show "hp_ext h2 = hp_ext h" using assms(1,2) by (simp add: only_mem_def)
  fix c
  show "live h2 c \<longleftrightarrow> live h c" using assms(1,2) by (simp add: only_mem_def)
  assume l: "live h c"
  then have l1: "live h1 c" using only_memD(1) [OF assms(1)] by blast
  show "nd h2 c = nd h c" if "c \<notin> set cs"
  proof -
    have "c \<notin> set as" "c \<notin> set bs" using that assms(3,4) by auto
    then show ?thesis using only_mem_other [OF assms(1) l] only_mem_other [OF assms(2) l1] by simp
  qed
  obtain m1 where m1: "length m1 = length (pb_mem (nd h c))" "nd h1 c = (nd h c)\<lparr>pb_mem := m1\<rparr>"
    using assms(1) l unfolding only_mem_def by blast
  obtain m2 where "length m2 = length (pb_mem (nd h1 c))" "nd h2 c = (nd h1 c)\<lparr>pb_mem := m2\<rparr>"
    using assms(2) l1 unfolding only_mem_def by blast
  with m1 have "length m2 = length (pb_mem (nd h c))" "nd h2 c = (nd h c)\<lparr>pb_mem := m2\<rparr>" by simp_all
  then show "\<exists>m. length m = length (pb_mem (nd h c)) \<and> nd h2 c = (nd h c)\<lparr>pb_mem := m\<rparr>" by blast
qed

lemma only_mem_owned:
  assumes "only_mem h h' as" "owned h ow"
  shows "owned h' ow"
  by (rule owned_keep [OF assms(2)]) (simp_all add: only_mem_live [OF assms(1)] only_memD [OF assms(1)])

lemma only_mem_plen: "only_mem h h' as \<Longrightarrow> live h c \<Longrightarrow> plen h' c = plen h c"
  using only_memD(5) by (simp add: plen_def)

lemma only_mem_payload_ok:
  assumes "only_mem h h' as" "live h c"
  shows "payload_ok h' c = payload_ok h c" "own_payload h' c = own_payload h c"
proof -
  note d = only_memD [OF assms] only_mem_ext [OF assms(1)] only_mem_plen [OF assms]
  show ok: "payload_ok h' c = payload_ok h c"
    using d by (cases "pb_payload (nd h c)") (simp_all add: payload_ok_def block_def)
  then show "own_payload h' c = own_payload h c" using d by (simp add: own_payload_def)
qed

lemma only_mem_chain: "only_mem h h' as \<Longrightarrow> chain_from h p bs \<Longrightarrow> chain_from h' p bs"
  using only_memD(1,2) by (elim chain_from_cong [rotated]) auto

lemma only_mem_lens: "only_mem h h' as \<Longrightarrow> (\<And>c. c \<in> set bs \<Longrightarrow> live h c) \<Longrightarrow> lens h' bs = lens h bs"
  by (induction bs) (auto simp: only_mem_plen)

lemma only_mem_tots: "only_mem h h' as \<Longrightarrow> (\<And>c. c \<in> set bs \<Longrightarrow> live h c) \<Longrightarrow> tots_ok h' bs = tots_ok h bs"
  by (induction bs) (auto simp: only_mem_plen only_memD(4) only_mem_lens)

lemma packet_live: "is_packet h p as \<Longrightarrow> c \<in> set as \<Longrightarrow> live h c"
  using chain_live by (auto simp: is_packet_def)

lemma only_mem_packet: "only_mem h h' as \<Longrightarrow> is_packet h p bs \<Longrightarrow> is_packet h' p bs"
  using only_mem_chain only_mem_tots [of h h' as bs] only_mem_payload_ok(1) packet_live [of h p bs]
  by (auto simp: is_packet_def)

lemma only_mem_bytes:
  assumes "only_mem h h' as" "set as \<inter> set bs = {}" "\<And>c. c \<in> set bs \<Longrightarrow> live h c"
  shows "packet_bytes h' bs = packet_bytes h bs"
proof (rule same_content_bytes, intro ballI)
  fix c assume "c \<in> set bs"
  then have "nd h' c = nd h c" using only_mem_other [OF assms(1)] assms(2,3) by blast
  then show "same_content h h' c" using only_mem_ext [OF assms(1)] by (simp add: same_content_def)
qed

lemma nth_overwrite:
  "i + length bs \<le> length m \<Longrightarrow> j < length m \<Longrightarrow>
     overwrite m i bs ! j = (if i \<le> j \<and> j < i + length bs then bs ! (j - i) else m ! j)"
  by (auto simp: overwrite_def nth_append min_def)

lemma overwrite_inside:
  \<comment> \<open>a window of the memory, written through\<close>
  assumes "d + n \<le> length m" "off + length bs \<le> n"
  shows "take n (drop d (overwrite m (d + off) bs)) = overwrite (take n (drop d m)) off bs"
proof (rule nth_equalityI)
  show "length (take n (drop d (overwrite m (d + off) bs))) = length (overwrite (take n (drop d m)) off bs)"
    using assms by (simp add: length_overwrite)
  fix j assume "j < length (take n (drop d (overwrite m (d + off) bs)))"
  then have "j < n" using assms by (simp add: length_overwrite)
  then show "take n (drop d (overwrite m (d + off) bs)) ! j = overwrite (take n (drop d m)) off bs ! j"
    using assms by (simp add: nth_overwrite length_overwrite)
qed

lemma write_payload_own:
  assumes "own_payload h a" "live h a" "off + length bs \<le> plen h a"
  shows "\<exists>h'. write_payload h a off bs = Inr h' \<and> only_mem h h' [a] \<and>
    payload_bytes h' a = overwrite (payload_bytes h a) off bs"
proof (cases "bs = []")
  case True
  then show ?thesis using assms(2) by (auto simp: write_payload_def at_live split: prod.split)
next
  case False
  obtain d where d: "pb_payload (nd h a) = Own d" using assms(1) by (auto simp: own_payload_def)
  have pos: "plen h a \<noteq> 0" using assms(3) False by (cases bs) auto
  then have ok: "0 \<le> d" "nat d + plen h a \<le> length (pb_mem (nd h a))"
    using assms(1) d by (auto simp: own_payload_def payload_ok_def block_def)
  let ?m = "overwrite (pb_mem (nd h a)) (nat d + off) bs"
  let ?h = "upd a (\<lambda>b. b\<lparr>pb_mem := ?m\<rparr>) h"
  have lm: "length ?m = length (pb_mem (nd h a))" using ok assms(3) by (intro length_overwrite) simp
  have "nat (d + int off) = nat d + off" using ok by (simp add: nat_add_distrib)
  moreover have "\<not> int (length (pb_mem (nd h a))) < d + int off + int (length bs)" using ok assms(3) by linarith
  ultimately have "write_payload h a off bs = Inr ?h"
    using False d ok assms(2) by (simp add: write_payload_def at_live block_def)
  moreover have "only_mem h ?h [a]"
    unfolding only_mem_def
  proof (intro conjI allI impI)
    fix c assume "live h c"
    show "\<exists>m. length m = length (pb_mem (nd h c)) \<and> nd ?h c = (nd h c)\<lparr>pb_mem := m\<rparr>"
      by (cases "c = a") (use lm assms(2) in \<open>auto intro: exI [of _ "pb_mem (nd h c)"]\<close>)
  qed simp_all
  moreover have "payload_bytes ?h a = overwrite (payload_bytes h a) off bs"
    using assms(2,3) d pos ok overwrite_inside [of "nat d" "plen h a" "pb_mem (nd h a)" off bs]
    by (simp add: payload_bytes_def block_def plen_def)
  ultimately show ?thesis by blast
qed

lemma overwrite_append_left:
  "i + length cs \<le> length xs \<Longrightarrow> overwrite (xs @ ys) i cs = overwrite xs i cs @ ys"
  by (simp add: overwrite_def)

lemma overwrite_append_right:
  "overwrite (xs @ ys) (length xs + i) cs = xs @ overwrite ys i cs"
  by (simp add: overwrite_def)

lemma overwrite_split:
  assumes "i + length cs = length xs" "length ds \<le> length ys"
  shows "overwrite (xs @ ys) i (cs @ ds) = overwrite xs i cs @ overwrite ys 0 ds"
  using assms by (simp add: overwrite_def flip: assms(1))

section \<open>\<open>pbuf_take\<close>\<close>

definition writable :: "heap \<Rightarrow> nat list \<Rightarrow> bool" where
  "writable h as \<longleftrightarrow> (\<forall>a\<in>set as. own_payload h a)"

lemma writable_simps [simp]: "writable h []" "writable h (a # as) \<longleftrightarrow> own_payload h a \<and> writable h as"
  "writable h (as @ bs) \<longleftrightarrow> writable h as \<and> writable h bs"
  by (auto simp: writable_def)

lemma only_mem_writable: "only_mem h h' as \<Longrightarrow> (\<And>c. c \<in> set bs \<Longrightarrow> live h c) \<Longrightarrow> writable h' bs = writable h bs"
  using only_mem_payload_ok(2) by (auto simp: writable_def)

lemma take_loop_packet:
  assumes "is_packet h p as" "writable h as" "unat todo \<le> lens h as" "unat copied + unat todo \<le> length data"
    "unat copied + unat todo < 65536"
  shows "\<exists>h'. take_loop p data todo copied h = Some (Inr h') \<and> only_mem h h' as \<and>
    packet_bytes h' as = overwrite (packet_bytes h as) 0 (take (unat todo) (drop (unat copied) data))"
  using assms
proof (induction as arbitrary: p todo copied h)
  case Nil
  then have "todo = 0" by (simp add: word_unat_eq_iff)
  then show ?case by (subst take_loop.simps) simp
next
  case (Cons a as)
  note a = Cons.prems(1) [unfolded packet_Cons]
  have lv: "c \<in> set as \<Longrightarrow> live h c" for c using packet_live [of h "pb_next (nd h a)" as] a by blast
  have an: "a \<notin> set as" using packet_distinct [OF Cons.prems(1)] by simp
  show ?case
  proof (cases "todo = 0")
    case True
    then show ?thesis by (subst take_loop.simps) simp
  next
    case False
    define n where "n = (if pb_len (nd h a) < todo then pb_len (nd h a) else todo)"
    have un: "unat n = min (plen h a) (unat todo)" by (simp add: n_def plen_def word_less_nat_alt)
    have lens: "unat (todo - n) = unat todo - unat n" "unat (copied + n) = unat copied + unat n"
      using un Cons.prems(5) by (auto simp: unat_sub word_le_nat_alt unat_word_ariths)
    let ?bs = "take (unat n) (drop (unat copied) data)"
    have lb: "length ?bs = unat n" using Cons.prems(4) un by simp
    obtain h1 where h1: "write_payload h a 0 ?bs = Inr h1" "only_mem h h1 [a]"
      "payload_bytes h1 a = overwrite (payload_bytes h a) 0 ?bs"
      using write_payload_own [of h a 0 ?bs] a Cons.prems(2) lb un by auto
    have s: "take_loop p data todo copied h = take_loop (pb_next (nd h a)) data (todo - n) (copied + n) h1"
    proof -
      have "\<not> length data < unat copied + unat n" using Cons.prems(4) un by auto
      then show ?thesis
        using False a h1(1) by (subst take_loop.simps) (simp add: at_live Let_def flip: n_def)
    qed
    have "\<exists>h'. take_loop (pb_next (nd h a)) data (todo - n) (copied + n) h1 = Some (Inr h') \<and> only_mem h1 h' as \<and>
      packet_bytes h' as = overwrite (packet_bytes h1 as) 0 (take (unat (todo - n)) (drop (unat (copied + n)) data))"
    proof (rule Cons.IH)
      show "is_packet h1 (pb_next (nd h a)) as" using only_mem_packet [OF h1(2)] a by blast
      show "writable h1 as" using only_mem_writable [OF h1(2) lv] Cons.prems(2) by simp
      show "unat (todo - n) \<le> lens h1 as"
        using only_mem_lens [OF h1(2) lv] Cons.prems(3) lens un by simp
      show "unat (copied + n) + unat (todo - n) \<le> length data" "unat (copied + n) + unat (todo - n) < 65536"
        using Cons.prems(4,5) lens un by auto
    qed
    then obtain h' where h': "take_loop p data todo copied h = Some (Inr h')" "only_mem h1 h' as"
      "packet_bytes h' as = overwrite (packet_bytes h1 as) 0 (take (unat (todo - n)) (drop (unat (copied + n)) data))"
      using s by auto
    have om: "only_mem h h' (a # as)" by (rule only_mem_trans [OF h1(2) h'(2)]) auto
    have "packet_bytes h1 as = packet_bytes h as" using an lv by (intro only_mem_bytes [OF h1(2)]) auto
    moreover have "payload_bytes h' a = payload_bytes h1 a"
      using only_mem_bytes [OF h'(2), of "[a]"] an only_memD(1) [OF h1(2)] a by simp
    ultimately have "packet_bytes h' (a # as) = overwrite (payload_bytes h a) 0 ?bs @
        overwrite (packet_bytes h as) 0 (take (unat (todo - n)) (drop (unat (copied + n)) data))"
      using h1(3) h'(3) by simp
    also have "\<dots> = overwrite (payload_bytes h a @ packet_bytes h as) 0
        (?bs @ take (unat (todo - n)) (drop (unat (copied + n)) data))"
    proof (cases "unat todo \<le> plen h a")
      case True
      then have "unat (todo - n) = 0" using lens un by simp
      then show ?thesis
        using overwrite_append_left [of 0 ?bs "payload_bytes h a" "packet_bytes h as"] lb un length_payload a by simp
    next
      case F: False
      then have "0 + length ?bs = length (payload_bytes h a)" using lb un length_payload a by simp
      moreover have "length (take (unat (todo - n)) (drop (unat (copied + n)) data)) \<le> length (packet_bytes h as)"
        using length_packet [of h "pb_next (nd h a)" as] a lens un Cons.prems(3) F by auto
      ultimately show ?thesis by (simp only: overwrite_split)
    qed
    also have "?bs @ take (unat (todo - n)) (drop (unat (copied + n)) data) = take (unat todo) (drop (unat copied) data)"
    proof -
      have "unat todo = unat n + unat (todo - n)" using lens un by simp
      then show ?thesis using lens(2) by (simp add: take_add add.commute)
    qed
    finally show ?thesis using h'(1) om by auto
  qed
qed

lemma take_packet:
  assumes "is_packet h (Some a) as" "writable h as" "unat len \<le> lens h as" "unat len \<le> length data"
  shows "\<exists>h'. pbuf_take (Some a) (Some data) len h = Inr (ERR_OK, h') \<and> only_mem h h' as \<and>
    packet_bytes h' as = overwrite (packet_bytes h as) 0 (take (unat len) data)"
proof -
  obtain bs where as: "as = a # bs" using packet_Some [OF assms(1)] by auto
  then have a: "live h a" "unat (pb_tot_len (nd h a)) = lens h as" using assms(1) by (auto simp: packet_Cons)
  then have "\<not> pb_tot_len (nd h a) < len" using assms(3) by (simp add: word_less_nat_alt)
  moreover obtain h' where "take_loop (Some a) data len 0 h = Some (Inr h')" "only_mem h h' as"
    "packet_bytes h' as = overwrite (packet_bytes h as) 0 (take (unat len) data)"
    using take_loop_packet [OF assms(1-3), of 0 data] assms(4) u16_bound [of len] by auto
  ultimately show ?thesis using a by (simp add: pbuf_take_def at_live)
qed

lemma take_too_long:
  assumes "is_packet h (Some a) as" "lens h as < unat len"
  shows "pbuf_take (Some a) (Some data) len h = Inr (ERR_MEM, h)"
proof -
  obtain bs where as: "as = a # bs" using packet_Some [OF assms(1)] by auto
  then have a: "live h a" "unat (pb_tot_len (nd h a)) = lens h as" using assms(1) by (auto simp: packet_Cons)
  then show ?thesis using assms(2) by (simp add: pbuf_take_def at_live word_less_nat_alt)
qed

section \<open>Writing in the middle\<close>

lemma skip_inside:
  assumes "is_packet h p as" "unat off < lens h as"
  obtains xs a ys r where "as = xs @ a # ys" "pbuf_skip p off h = Inr (Some a, r)"
    "unat off = lens h xs + unat r" "unat r < plen h a" "is_packet h (Some a) (a # ys)"
    "length (packet_bytes h xs) = lens h xs"
proof -
  obtain xs a ys r where s: "as = xs @ a # ys" "skip_loop p off h = Some (Inr (Some a, r))"
    "unat off = lens h xs + unat r" "unat r < plen h a"
    using skip_loop_packet [OF assms(1), of off] assms(2) by auto
  moreover have "length (packet_bytes h xs) = lens h xs"
    using assms(1) s(1) by (intro length_packet_bytes) (auto simp: is_packet_def)
  ultimately show thesis using that packet_suffix [OF assms(1) [unfolded s(1)]] by (simp add: pbuf_skip_def)
qed

lemma skip_outside:
  assumes "is_packet h p as" "\<not> unat off < lens h as"
  obtains r where "pbuf_skip p off h = Inr (None, r)"
  using skip_loop_packet [OF assms(1), of off] assms(2) that by (auto simp: pbuf_skip_def)

lemma only_mem_super: "only_mem h h' as \<Longrightarrow> set as \<subseteq> set bs \<Longrightarrow> only_mem h h' bs"
  using only_mem_trans [OF only_mem_refl [of h "[]"]] by simp

lemma middle_bytes:
  \<comment> \<open>what a write behind \<open>xs\<close> does to the whole packet\<close>
  assumes "is_packet h p (xs @ bs)" "only_mem h h' bs" "length (packet_bytes h xs) = lens h xs"
    "packet_bytes h' bs = overwrite (packet_bytes h bs) r cs"
  shows "packet_bytes h' (xs @ bs) = overwrite (packet_bytes h (xs @ bs)) (lens h xs + r) cs"
proof -
  have "packet_bytes h' xs = packet_bytes h xs"
    using packet_distinct [OF assms(1)] packet_live [OF assms(1)] by (intro only_mem_bytes [OF assms(2)]) auto
  then show ?thesis using assms(3,4) overwrite_append_right [of "packet_bytes h xs" "packet_bytes h bs" r cs] by simp
qed

lemma put_at_packet:
  assumes "is_packet h p as" "writable h as"
  shows "\<exists>h'. pbuf_put_at p off d h = Inr h' \<and> only_mem h h' as \<and>
    packet_bytes h' as = (packet_bytes h as)[unat off := d]"
proof (cases "unat off < lens h as")
  case True
  obtain xs a ys r where s: "as = xs @ a # ys" "pbuf_skip p off h = Inr (Some a, r)"
    "unat off = lens h xs + unat r" "unat r < plen h a" "is_packet h (Some a) (a # ys)"
    "length (packet_bytes h xs) = lens h xs" using skip_inside [OF assms(1) True] .
  have a: "live h a" "own_payload h a" using s(1,5) assms(2) by (auto simp: packet_Cons)
  obtain h' where h': "write_payload h a (unat r) [d] = Inr h'" "only_mem h h' [a]"
    "payload_bytes h' a = overwrite (payload_bytes h a) (unat r) [d]"
    using write_payload_own [OF a(2,1), of "unat r" "[d]"] s(4) by auto
  have la: "length (payload_bytes h a) = plen h a" using s(5) length_payload by (simp add: packet_Cons)
  have "packet_bytes h' ys = packet_bytes h ys"
    using packet_distinct [OF s(5)] packet_live [OF s(5)] by (intro only_mem_bytes [OF h'(2)]) auto
  then have "packet_bytes h' (a # ys) = overwrite (packet_bytes h (a # ys)) (unat r) [d]"
    using h'(3) s(4) la overwrite_append_left [of "unat r" "[d]" "payload_bytes h a" "packet_bytes h ys"] by simp
  then have "packet_bytes h' as = overwrite (packet_bytes h as) (unat off) [d]"
    using middle_bytes [of h p xs "a # ys" h'] assms(1) s only_mem_super [OF h'(2), of "a # ys"] by simp
  moreover have "overwrite xs i [d] = xs[i := d]" if "i < length xs" for xs :: "byte list" and i
    using that by (simp add: overwrite_def upd_conv_take_nth_drop)
  moreover have "r < pb_len (nd h a)" using s(4) by (simp add: plen_def word_less_nat_alt)
  ultimately show ?thesis
    using h' s(1,2) a(1) True length_packet [OF assms(1)] only_mem_super [OF h'(2), of as]
    by (simp add: pbuf_put_at_def at_live)
next
  case False
  obtain r where "pbuf_skip p off h = Inr (None, r)" using skip_outside [OF assms(1) False] .
  then show ?thesis using False length_packet [OF assms(1)] by (simp add: pbuf_put_at_def list_update_beyond)
qed

lemma take_at_packet:
  assumes "is_packet h p as" "writable h as" "unat off < lens h as" "unat off + unat len \<le> lens h as"
    "unat len \<le> length data"
  shows "\<exists>h'. pbuf_take_at p data len off h = Inr (ERR_OK, h') \<and> only_mem h h' as \<and>
    packet_bytes h' as = overwrite (packet_bytes h as) (unat off) (take (unat len) data)"
proof -
  obtain xs a ys r where s: "as = xs @ a # ys" "pbuf_skip p off h = Inr (Some a, r)"
    "unat off = lens h xs + unat r" "unat r < plen h a" "is_packet h (Some a) (a # ys)"
    "length (packet_bytes h xs) = lens h xs" using skip_inside [OF assms(1,3)] .
  note a = s(5) [unfolded packet_Cons]
  have own: "own_payload h a" "writable h ys" using assms(2) s(1) by auto
  have lv: "c \<in> set ys \<Longrightarrow> live h c" for c using packet_live [OF s(5)] by simp
  have an: "a \<notin> set ys" using packet_distinct [OF s(5)] by simp
  define first where "first = min (plen h a - unat r) (unat len)"
  let ?bs = "take first data"
  have room: "unat r + unat len \<le> plen h a + lens h ys" using assms(4) s(1,3) by simp
  have lb: "length ?bs = first" "unat r + first \<le> plen h a" "first \<le> unat len"
    using assms(5) s(4) by (auto simp: first_def)
  obtain h1 where h1: "write_payload h a (unat r) ?bs = Inr h1" "only_mem h h1 [a]"
    "payload_bytes h1 a = overwrite (payload_bytes h a) (unat r) ?bs"
    using write_payload_own [OF own(1), of "unat r" ?bs] a lb by auto
  have la: "length (payload_bytes h a) = plen h a" using length_payload a by blast
  have b1: "packet_bytes h1 ys = packet_bytes h ys" using an lv by (intro only_mem_bytes [OF h1(2)]) auto
  let ?rem = "len - of_nat first"
  have urem: "unat ?rem = unat len - first"
    using lb(3) u16_bound [of len] by (subst unat_sub) (simp_all add: word_le_nat_alt unsigned_of_nat take_bit_nat_eq_self)
  have step: "pbuf_take_at p data len off h =
      (if 0 < ?rem then pbuf_take (pb_next (nd h a)) (Some (drop first data)) ?rem h1 else Inr (ERR_OK, h1))"
  proof -
    have "\<not> unat (pb_tot_len (nd h a)) < unat r + unat len" "\<not> length data < first"
      using a room lb(3) assms(5) by auto
    moreover have "min (unat (pb_len (nd h a)) - unat r) (unat len) = first" by (simp add: first_def plen_def)
    ultimately show ?thesis using s(2) a h1(1) by (simp add: pbuf_take_at_def at_live Let_def)
  qed
  have end_with: ?thesis
    if res: "pbuf_take_at p data len off h = Inr (ERR_OK, h')" and om: "only_mem h1 h' ys"
      and by': "packet_bytes h' ys = overwrite (packet_bytes h ys) 0 (drop first (take (unat len) data))" for h'
  proof -
    have o2: "only_mem h h' (a # ys)" by (rule only_mem_trans [OF h1(2) om]) auto
    have "payload_bytes h' a = payload_bytes h1 a"
      using only_mem_bytes [OF om, of "[a]"] an only_memD(1) [OF h1(2)] a by simp
    then have "packet_bytes h' (a # ys) = overwrite (payload_bytes h a) (unat r) ?bs @
        overwrite (packet_bytes h ys) 0 (drop first (take (unat len) data))" using h1(3) by' by simp
    also have "\<dots> = overwrite (packet_bytes h (a # ys)) (unat r) (?bs @ drop first (take (unat len) data))"
    proof (cases "first = unat len")
      case True
      then show ?thesis using overwrite_append_left [of "unat r" ?bs "payload_bytes h a"] lb la by simp
    next
      case False
      then have "unat r + length ?bs = length (payload_bytes h a)" using lb la s(4) by (auto simp: first_def)
      moreover have "length (drop first (take (unat len) data)) \<le> length (packet_bytes h ys)"
        using length_packet [of h "pb_next (nd h a)" ys] a room lb False calculation la by auto
      ultimately show ?thesis by (simp only: overwrite_split packet_bytes_simps)
    qed
    also have "?bs @ drop first (take (unat len) data) = take (unat len) data"
      using lb(3) by (metis append_take_drop_id min.absorb1 take_take)
    finally have "packet_bytes h' as = overwrite (packet_bytes h as) (unat off) (take (unat len) data)"
      using middle_bytes [of h p xs "a # ys" h'] assms(1) s(1,3,6) o2 by simp
    then show ?thesis using res only_mem_super [OF o2, of as] s(1) by auto
  qed
  show ?thesis
  proof (cases "0 < ?rem")
    case False
    then have "first = unat len" using urem lb(3) by (simp add: word_less_nat_alt)
    then show ?thesis using step False b1 by (intro end_with [of h1]) simp_all
  next
    case True
    then have ne: "first < unat len" using urem by (simp add: word_less_nat_alt)
    then have "lens h ys \<noteq> 0" using room lb s(4) by (auto simp: first_def)
    then obtain y ys' where ys: "ys = y # ys'" by (cases ys) auto
    then have ny: "pb_next (nd h a) = Some y" using a by (simp add: packet_Cons)
    have "is_packet h1 (Some y) ys" using only_mem_packet [OF h1(2)] a ny by metis
    moreover have "writable h1 ys" using only_mem_writable [OF h1(2) lv] own(2) by simp
    moreover have "unat ?rem \<le> lens h1 ys" using only_mem_lens [OF h1(2) lv] urem room ne lb by (auto simp: first_def)
    moreover have "unat ?rem \<le> length (drop first data)" using urem assms(5) by simp
    ultimately obtain h' where "pbuf_take (Some y) (Some (drop first data)) ?rem h1 = Inr (ERR_OK, h')"
      "only_mem h1 h' ys" "packet_bytes h' ys = overwrite (packet_bytes h1 ys) 0 (take (unat ?rem) (drop first data))"
      using take_packet by blast
    then show ?thesis
      using step True ny b1 urem by (intro end_with [of h']) (simp_all add: drop_take)
  qed
qed

section \<open>\<open>pbuf_copy\<close> and \<open>pbuf_coalesce\<close>\<close>

definition all_filled :: "heap \<Rightarrow> nat list \<Rightarrow> bool" where
  \<comment> \<open>no empty buffer on the way\<close>
  "all_filled h as \<longleftrightarrow> (\<forall>a\<in>set as. 0 < plen h a)"

lemma all_filled_simps [simp]: "all_filled h []" "all_filled h (a # as) \<longleftrightarrow> 0 < plen h a \<and> all_filled h as"
  by (auto simp: all_filled_def)

lemma filled_mono: "all_filled h as \<Longrightarrow> set bs \<subseteq> set as \<Longrightarrow> all_filled h bs"
  by (auto simp: all_filled_def)

lemma writable_mono: "writable h as \<Longrightarrow> set bs \<subseteq> set as \<Longrightarrow> writable h bs"
  by (auto simp: writable_def)

lemma filled_lens: "all_filled h as \<Longrightarrow> as \<noteq> [] \<Longrightarrow> 0 < lens h as"
  by (cases as) auto

lemma no_queue:
  assumes "is_packet h p as" "all_filled h as"
  shows "is_queue p h = Inr False"
proof (cases p)
  case (Some a)
  then obtain bs where as: "as = a # bs" using packet_Some assms(1) by blast
  then have a: "live h a" "unat (pb_tot_len (nd h a)) = plen h a + lens h bs" "is_packet h (pb_next (nd h a)) bs"
    using assms(1) by (auto simp: packet_Cons)
  have "pb_next (nd h a) = None" if "pb_len (nd h a) = pb_tot_len (nd h a)"
  proof -
    have "lens h bs = 0" using a(2) that by (simp add: plen_def)
    then have "bs = []" using filled_lens assms(2) as by (cases bs) auto
    then show ?thesis using a(3) by (simp add: is_packet_def)
  qed
  then show ?thesis using Some a(1) by (auto simp: is_queue_def at_live)
qed (simp add: is_queue_def)

lemma only_mem_filled: "only_mem h h' as \<Longrightarrow> (\<And>c. c \<in> set bs \<Longrightarrow> live h c) \<Longrightarrow> all_filled h' bs = all_filled h bs"
  using only_mem_plen by (auto simp: all_filled_def)

lemma copy_len:
  "o' < A \<Longrightarrow> f < (B :: nat) \<Longrightarrow>
     nat (if int B - int f \<le> int A - int o' then int B - int f else int A - int o') = min (A - o') (B - f)"
  by auto

lemma copy_loop_packet:
  assumes "is_packet h (Some a) (a # as)" "is_packet h (Some b) (b # bs)" "writable h (a # as)"
    "all_filled h (a # as)" "all_filled h (b # bs)" "set (a # as) \<inter> set (b # bs) = {}"
    "ot < plen h a" "fr < plen h b" "lens h (b # bs) - fr \<le> lens h (a # as) - ot"
  shows "\<exists>h'. copy_loop (Some a) ot (Some b) fr h = Some (Inr (ERR_OK, h')) \<and> only_mem h h' (a # as) \<and>
    packet_bytes h' (a # as) = overwrite (packet_bytes h (a # as)) ot (drop fr (packet_bytes h (b # bs)))"
  using assms
proof (induction "length as + length bs" arbitrary: a as b bs ot fr h rule: less_induct)
  case less
  note pa = less.prems(1) [unfolded packet_Cons] and pb = less.prems(2) [unfolded packet_Cons]
  have lv: "c \<in> set (a # as) \<or> c \<in> set (b # bs) \<Longrightarrow> live h c" for c
    using packet_live [OF less.prems(1)] packet_live [OF less.prems(2)] by blast
  have dj: "a \<notin> set as" "b \<notin> set bs" using packet_distinct [OF less.prems(1)] packet_distinct [OF less.prems(2)] by auto
  have lpa: "length (payload_bytes h a) = plen h a" "length (payload_bytes h b) = plen h b"
    using pa pb length_payload by auto
  have lb: "length (packet_bytes h bs) = lens h bs" "length (packet_bytes h as) = lens h as"
    using pa pb length_packet by auto
  define len where "len = min (plen h a - ot) (plen h b - fr)"
  have len: "ot + len \<le> plen h a" "fr + len \<le> plen h b" "0 < len" "ot + len = plen h a \<or> fr + len = plen h b"
    using less.prems(7,8) by (auto simp: len_def)
  let ?bs = "take len (drop fr (payload_bytes h b))"
  have rd: "read_payload h (nd h b) fr len = Inr ?bs" using pb len(2) by (intro read_payload_ok) auto
  have lbs: "length ?bs = len" using lpa(2) len(2) by simp
  obtain h1 where h1: "write_payload h a ot ?bs = Inr h1" "only_mem h h1 [a]"
    "payload_bytes h1 a = overwrite (payload_bytes h a) ot ?bs"
    using write_payload_own [of h a ot ?bs] pa less.prems(3) lbs len(1) by auto
  have oa: "only_mem h h1 (a # as)" by (rule only_mem_super [OF h1(2)]) simp
  have lv1: "live h1 c \<longleftrightarrow> live h c" "live h c \<Longrightarrow> plen h1 c = plen h c" for c
    using only_mem_live [OF h1(2)] only_mem_plen [OF h1(2)] by auto
  have ln1: "lens h1 cs = lens h cs" if "set cs \<subseteq> set (a # as) \<union> set (b # bs)" for cs
    using that lv by (intro only_mem_lens [OF h1(2)]) auto
  have pk1: "is_packet h1 (Some a) (a # as)" "is_packet h1 (Some b) (b # bs)"
    "is_packet h1 (pb_next (nd h a)) as" "is_packet h1 (pb_next (nd h b)) bs"
    using only_mem_packet [OF h1(2)] less.prems(1,2) pa pb by blast+
  have fl1: "all_filled h1 cs = all_filled h cs" if "set cs \<subseteq> set (a # as) \<union> set (b # bs)" for cs
    using that lv by (intro only_mem_filled [OF h1(2)]) auto
  have wr1: "writable h1 cs = writable h cs" if "set cs \<subseteq> set (a # as) \<union> set (b # bs)" for cs
    using that lv by (intro only_mem_writable [OF h1(2)]) auto
  have bb1: "packet_bytes h1 cs = packet_bytes h cs" if "set cs \<subseteq> set as \<union> set (b # bs)" for cs
    using that lv dj less.prems(6) by (intro only_mem_bytes [OF h1(2)]) auto
  have whole: "packet_bytes h1 (a # as) = overwrite (packet_bytes h (a # as)) ot ?bs"
    using h1(3) bb1 [of as] overwrite_append_left [of ot ?bs "payload_bytes h a" "packet_bytes h as"] lbs len(1) lpa by auto
  define from' where "from' = (if fr + len = plen h b then pb_next (nd h b) else Some b)"
  define fr' where "fr' = (if fr + len = plen h b then 0 else fr + len)"
  define to' where "to' = (if ot + len = plen h a then pb_next (nd h a) else Some a)"
  define ot' where "ot' = (if ot + len = plen h a then 0 else ot + len)"
  define fl where "fl = (if fr + len = plen h b then bs else b # bs)"
  define tl' where "tl' = (if ot + len = plen h a then as else a # as)"
  have sub: "set fl \<subseteq> set (b # bs)" "set tl' \<subseteq> set (a # as)" by (auto simp: fl_def tl'_def)
  have pf: "is_packet h1 from' fl" and pt: "is_packet h1 to' tl'"
    using pk1 by (auto simp: from'_def fl_def to'_def tl'_def)
  have ff: "all_filled h1 fl" "all_filled h fl" and tf: "all_filled h1 tl'" "writable h1 tl'" "all_filled h tl'"
  proof -
    show f: "all_filled h fl" "all_filled h tl'"
      using filled_mono [OF less.prems(5) sub(1)] filled_mono [OF less.prems(4) sub(2)] .
    have "set fl \<subseteq> set (a # as) \<union> set (b # bs)" "set tl' \<subseteq> set (a # as) \<union> set (b # bs)" using sub by blast+
    then show "all_filled h1 fl" "all_filled h1 tl'" "writable h1 tl'"
      using fl1 wr1 f writable_mono [OF less.prems(3) sub(2)] by simp_all
  qed
  have src: "lens h (b # bs) - fr = len + (lens h fl - fr')"
    "drop fr (packet_bytes h (b # bs)) = ?bs @ drop fr' (packet_bytes h fl)" "fl \<noteq> [] \<Longrightarrow> fr' < plen h (hd fl)"
  proof -
    show "lens h (b # bs) - fr = len + (lens h fl - fr')" using len(2) by (auto simp: fl_def fr'_def)
    have "drop fr (packet_bytes h (b # bs)) = take len (drop fr (packet_bytes h (b # bs))) @ drop (fr + len) (packet_bytes h (b # bs))"
      by (metis add.commute append_take_drop_id drop_drop)
    moreover have "take len (drop fr (packet_bytes h (b # bs))) = ?bs" using len(2) lpa(2) by simp
    moreover have "drop (fr + len) (packet_bytes h (b # bs)) = drop fr' (packet_bytes h fl)"
      using lpa(2) by (simp add: fl_def fr'_def)
    ultimately show "drop fr (packet_bytes h (b # bs)) = ?bs @ drop fr' (packet_bytes h fl)" by simp
    show "fl \<noteq> [] \<Longrightarrow> fr' < plen h (hd fl)"
      using len(2) ff(2) by (cases bs) (auto simp: fl_def fr'_def split: if_splits)
  qed
  have dst: "lens h (a # as) - ot = len + (lens h tl' - ot')" "tl' \<noteq> [] \<Longrightarrow> ot' < plen h (hd tl')"
    using len(1) tf(3) by (cases as; auto simp: tl'_def ot'_def split: if_splits)+
  have step: "copy_loop (Some a) ot (Some b) fr h =
      (if ot + len = plen h a \<and> to' = None \<and> from' \<noteq> None then Some (Inr (ERR_ARG, h1))
       else if from' = None then Some (Inr (ERR_OK, h1)) else copy_loop to' ot' from' fr' h1)"
  proof -
    have l: "nat (if int (unat (pb_len (nd h b))) - int fr \<le> int (unat (pb_len (nd h a))) - int ot
        then int (unat (pb_len (nd h b))) - int fr else int (unat (pb_len (nd h a))) - int ot) = len"
      unfolding len_def plen_def by (rule copy_len) (use less.prems(7,8) in \<open>simp_all add: plen_def\<close>)
    have c: "ot + len \<le> unat (pb_len (nd h a))" "fr + len \<le> unat (pb_len (nd h b))" using len(1,2) by (simp_all add: plen_def)
    have f: "(if unat (pb_len (nd h b)) \<le> fr + len then (pb_next (nd h b), 0) else (Some b, fr + len)) = (from', fr')"
      using c(2) by (auto simp: from'_def fr'_def plen_def)
    have t: "(if ot + len = unat (pb_len (nd h a)) then (pb_next (nd h a), 0) else (Some a, ot + len)) = (to', ot')"
      by (simp add: to'_def ot'_def plen_def)
    have lab: "live h a" "live h b" using pa pb by auto
    have q: "is_queue from' h1 = Inr False" "is_queue to' h1 = Inr False"
      using no_queue [OF pf ff(1)] no_queue [OF pt tf(1)] .
    show ?thesis
      by (subst copy_loop.simps)
        (simp only: at_live lab if_True thenE_simps Let_def l rd option.sel h1(1) c simp_thms if_False f t prod.case q plen_def)
  qed
  show ?case
  proof (cases fl)
    case Nil
    then have "from' = None" using pf by (simp add: is_packet_def)
    moreover have "drop fr (packet_bytes h (b # bs)) = ?bs" using src(2) Nil by simp
    ultimately show ?thesis using step whole oa by auto
  next
    case (Cons b' bs')
    then have f: "from' = Some b'" "0 < lens h fl - fr'"
      using pf src(3) by (auto simp: packet_Cons)
    then have "tl' \<noteq> []" using dst(1) src(1) less.prems(9) by auto
    then obtain a' as' where t: "tl' = a' # as'" by (cases tl') auto
    then have t2: "to' = Some a'" using pt by (simp add: packet_Cons)
    have "\<exists>h'. copy_loop (Some a') ot' (Some b') fr' h1 = Some (Inr (ERR_OK, h')) \<and> only_mem h1 h' (a' # as') \<and>
        packet_bytes h' (a' # as') = overwrite (packet_bytes h1 (a' # as')) ot' (drop fr' (packet_bytes h1 (b' # bs')))"
    proof (rule less.hyps)
      have "length fl + length tl' < length (a # as) + length (b # bs)" using len(4) by (auto simp: fl_def tl'_def)
      then show "length as' + length bs' < length as + length bs" using Cons t by simp
      show "is_packet h1 (Some a') (a' # as')" "is_packet h1 (Some b') (b' # bs')" using pt pf t t2 Cons f by auto
      show "writable h1 (a' # as')" "all_filled h1 (a' # as')" "all_filled h1 (b' # bs')" using ff tf t Cons by simp_all
      show "set (a' # as') \<inter> set (b' # bs') = {}" using sub less.prems(6) t Cons by auto
      show "ot' < plen h1 a'" "fr' < plen h1 b'"
        using dst(2) src(3) t Cons sub lv lv1(2) by auto
      have "lens h1 fl = lens h fl" "lens h1 tl' = lens h tl'" using sub by (auto intro!: ln1)
      then show "lens h1 (b' # bs') - fr' \<le> lens h1 (a' # as') - ot'"
        using dst(1) src(1) less.prems(9) t Cons by simp
    qed
    then obtain h' where h': "copy_loop to' ot' from' fr' h1 = Some (Inr (ERR_OK, h'))" "only_mem h1 h' tl'"
      "packet_bytes h' tl' = overwrite (packet_bytes h1 tl') ot' (drop fr' (packet_bytes h1 fl))"
      using t t2 Cons f by auto
    have "packet_bytes h1 fl = packet_bytes h fl" using sub by (intro bb1) auto
    note bytes = h'(3) [unfolded this]
    let ?D = "drop fr' (packet_bytes h fl)"
    have om: "only_mem h h' (a # as)" by (rule only_mem_trans [OF oa h'(2)]) (use sub in auto)
    have dl: "length ?D \<le> lens h tl' - ot'"
    proof -
      have "length (packet_bytes h fl) = lens h fl" using lb lpa by (simp add: fl_def)
      then show ?thesis using dst(1) src(1) less.prems(9) by simp
    qed
    have "packet_bytes h' (a # as) = overwrite (packet_bytes h (a # as)) ot (?bs @ ?D)"
    proof (cases "ot + len = plen h a")
      case True
      then have ta: "tl' = as" "ot' = 0" by (auto simp: tl'_def ot'_def)
      then have "payload_bytes h' a = payload_bytes h1 a"
        using only_mem_bytes [OF h'(2), of "[a]"] dj lv lv1(1) by simp
      then have "packet_bytes h' (a # as) = overwrite (payload_bytes h a) ot ?bs @ overwrite (packet_bytes h as) 0 ?D"
        using bytes ta h1(3) bb1 [OF Un_upper1] by simp
      moreover have "ot + length ?bs = length (payload_bytes h a)" using True lbs lpa by simp
      moreover have "length ?D \<le> length (packet_bytes h as)" using dl ta lb by simp
      ultimately show ?thesis by (simp only: overwrite_split packet_bytes_simps)
    next
      case False
      then have ta: "tl' = a # as" "ot' = ot + length ?bs" using lbs by (auto simp: tl'_def ot'_def)
      have "ot + length ?bs + length ?D \<le> length (packet_bytes h (a # as))"
        using dl ta lbs lb lpa len(1) by simp
      then show ?thesis using bytes unfolding ta whole by (simp only: overwrite_append)
    qed
    then show ?thesis using step h'(1) om src(2) t2 f(1) by auto
  qed
qed

lemma copy_packet:
  assumes "is_packet h (Some a) as" "is_packet h (Some b) bs" "writable h as" "all_filled h as" "all_filled h bs"
    "set as \<inter> set bs = {}" "lens h bs \<le> lens h as"
  shows "\<exists>h'. pbuf_copy (Some a) (Some b) h = Inr (ERR_OK, h') \<and> only_mem h h' as \<and>
    packet_bytes h' as = overwrite (packet_bytes h as) 0 (packet_bytes h bs)"
proof -
  obtain as' bs' where s: "as = a # as'" "bs = b # bs'" using packet_Some assms(1,2) by metis
  note p = assms(1,2) [unfolded s packet_Cons]
  have "pb_tot_len (nd h b) \<le> pb_tot_len (nd h a)" using p assms(7) by (simp add: s word_le_nat_alt)
  moreover have "\<exists>h'. copy_loop (Some a) 0 (Some b) 0 h = Some (Inr (ERR_OK, h')) \<and> only_mem h h' as \<and>
      packet_bytes h' as = overwrite (packet_bytes h as) 0 (drop 0 (packet_bytes h bs))"
    unfolding s by (rule copy_loop_packet) (use assms in \<open>simp_all add: s\<close>)
  ultimately show ?thesis using p by (auto simp: pbuf_copy_def at_live)
qed

lemma fresh_disjoint: "fresh_chain h h' as \<Longrightarrow> live h c \<Longrightarrow> c \<notin> set as"
  by (auto simp: fresh_chain_def live_def)

lemma extends_packet: "extends h h' \<Longrightarrow> is_packet h p as \<Longrightarrow> is_packet h' p as \<and> packet_bytes h' as = packet_bytes h as"
proof -
  assume e: "extends h h'" and p: "is_packet h p as"
  have n: "nd h' c = nd h c" if "c \<in> set as" for c using extends_live [OF e packet_live [OF p that]] by simp
  have "chain_from h' p as" using p extends_live [OF e] by (intro chain_from_cong [of as h h']) (auto simp: is_packet_def)
  then show ?thesis using packet_same [OF p, of h' p] n e by (simp add: same_content_def extends_def)
qed

lemma alloc_ram_single:
  assumes "owned h ow" "pbuf_alloc e layer len PBUF_RAM h = Inr (Some q, h')" "new_packet h ow h' as" "q = hd as"
  shows "as = [q]"
proof -
  have "alloc_ram e (layer_offset layer) len h = (None, h) \<or>
      (\<exists>b. alloc_ram e (layer_offset layer) len h = (Some (length (hp_pbufs h)), append_pbuf h b) \<and> pb_next b = None)"
    using alloc_ram_packet [OF assms(1), of e layer len] by blast
  then obtain b where b: "alloc_ram e (layer_offset layer) len h = (Some (length (hp_pbufs h)), append_pbuf h b)"
    "pb_next b = None"
    using assms(2) by (auto simp: pbuf_alloc_def)
  let ?b = "b\<lparr>pb_ref := 1, pb_flags := 0, pb_l2_owner := None, pb_l2_buf := None\<rparr>"
  have h': "h' = append_pbuf h ?b" "q = length (hp_pbufs h)" using assms(2) b by (auto simp: pbuf_alloc_def)
  have "chain_from h' (Some q) as" using assms(3,4) by (auto simp: new_packet_def fresh_chain_def)
  moreover have "pb_next (nd h' q) = None" using b(2) by (simp add: h' nd_append)
  ultimately show ?thesis by (auto simp: chain_Some)
qed

lemma coalesce_packet:
  assumes "owned h (add_mset a ow)" "is_packet h (Some a) as" "all_filled h as"
  obtains q bs h' where "pbuf_coalesce e (Some a) layer h = Inr (Some q, h')" "owned h' (add_mset q ow)"
    "is_packet h' (Some q) bs" "packet_bytes h' bs = packet_bytes h as"
    "as = [a] \<Longrightarrow> q = a \<and> bs = as \<and> h' = h"
    "as \<noteq> [a] \<Longrightarrow> case pbuf_alloc e layer (of_nat (lens h as)) PBUF_RAM h of
       Inr (Some n, _) \<Rightarrow> q = n \<and> q \<noteq> a \<and> bs = [q] | _ \<Rightarrow> q = a \<and> bs = as"
proof -
  obtain as' where s: "as = a # as'" using packet_Some [OF assms(2)] by auto
  note p = assms(2) [unfolded s packet_Cons]
  have single: "as = [a] \<longleftrightarrow> pb_next (nd h a) = None" using p s by (cases as') (auto simp: packet_Cons, auto simp: is_packet_def)
  have "lens h as = unat (pb_tot_len (nd h a))" using p s by simp
  then have tot: "of_nat (lens h as) = pb_tot_len (nd h a)" by (simp only: of_nat_unat ucast_id)
  show thesis
  proof (cases "pb_next (nd h a)")
    case None
    then have "pbuf_coalesce e (Some a) layer h = Inr (Some a, h)" using p by (simp add: pbuf_coalesce_def at_live)
    then show thesis using assms None single by (intro that [of a h as]) auto
  next
    case (Some n)
    let ?al = "pbuf_alloc e layer (pb_tot_len (nd h a)) PBUF_RAM h"
    from alloc_packet [OF assms(1), of e layer "pb_tot_len (nd h a)" PBUF_RAM]
    show thesis
    proof (elim disjE exE conjE)
      fix h1 assume n: "?al = Inr (None, h1)" "owned h1 (add_mset a ow)" "same_heap h h1"
      have sc: "same_content h h1 c \<and> pb_tot_len (nd h1 c) = pb_tot_len (nd h c)" if "c \<in> set as" for c
        using n(3) packet_live [OF assms(2) that] by (simp add: same_heap_def same_content_def)
      have "chain_from h1 (Some a) as"
        using assms(2) n(3) by (intro chain_from_cong [of as h h1]) (auto simp: is_packet_def same_heap_def)
      then have "is_packet h1 (Some a) as" "packet_bytes h1 as = packet_bytes h as"
        using packet_same [OF assms(2)] sc by blast+
      moreover have "pbuf_coalesce e (Some a) layer h = Inr (Some a, h1)"
        using n(1) Some p by (simp add: pbuf_coalesce_def at_live)
      ultimately show thesis using n(1,2) Some single by (intro that [of a h1 as]) (auto simp: tot)
    next
      fix qs h1 assume n: "?al = Inr (Some (hd qs), h1)" "new_packet h (add_mset a ow) h1 qs"
        "lens h1 qs = unat (pb_tot_len (nd h a))"
        "storage PBUF_RAM \<longrightarrow> (\<forall>a\<in>set qs. own_payload h1 a) \<and> has_room h1 (hd qs) (layer_offset layer)"
      define q where "q = hd qs"
      have qs: "qs = [q]" using alloc_ram_single [OF assms(1) n(1,2) refl] by (simp add: q_def)
      have fr: "fresh_chain h h1 [q]" "owned h1 (add_mset q (add_mset a ow))" "own_payload h1 q" "tots_ok h1 [q]"
        using n qs by (auto simp: new_packet_def storage_def)
      have ex: "extends h h1" using fr(1) by (simp add: fresh_chain_def)
      have pa: "is_packet h1 (Some a) as" "packet_bytes h1 as = packet_bytes h as"
        using extends_packet [OF ex assms(2)] by auto
      have pq: "is_packet h1 (Some q) [q]" using fr by (simp add: is_packet_def fresh_chain_def own_payload_def)
      have fl: "all_filled h1 as"
        using assms(3) extends_live [OF ex packet_live [OF assms(2)]] by (simp add: all_filled_def plen_def)
      have la: "lens h1 as = lens h as" using length_packet [OF pa(1)] length_packet [OF assms(2)] pa(2) by simp
      have lq: "plen h1 q = lens h as" using n(3) qs p s by simp
      have "0 < lens h as" using filled_lens assms(3) s by blast
      then have fq: "all_filled h1 [q]" using lq by simp
      have dj: "set [q] \<inter> set as = {}" using fresh_disjoint [OF fr(1) packet_live [OF assms(2)]] by auto
      obtain h2 where h2: "pbuf_copy (Some q) (Some a) h1 = Inr (ERR_OK, h2)" "only_mem h1 h2 [q]"
        "packet_bytes h2 [q] = overwrite (packet_bytes h1 [q]) 0 (packet_bytes h1 as)"
        using copy_packet [OF pq pa(1) _ fq fl dj] fr(3) lq la by auto
      have b2: "packet_bytes h2 [q] = packet_bytes h as"
        using h2(3) pa(2) length_packet [OF pq] length_packet [OF assms(2)] lq by (simp add: overwrite_def)
      have o2: "owned h2 (add_mset a (add_mset q ow))"
        using only_mem_owned [OF h2(2) fr(2)] by (simp add: add_mset_commute)
      obtain k h3 where h3: "pbuf_free e (Some a) h2 = Inr (k, h3)" "owned h3 (add_mset q ow)" "keeps h2 h3"
        using free_owned [OF o2] by metis
      have pq2: "is_packet h2 (Some q) [q]" by (rule only_mem_packet [OF h2(2) pq])
      have lq3: "live h3 q" using owned_live [OF h3(2)] by simp
      have "chain_from h3 (Some q) [q]"
        using lq3 keepsD(2) [OF h3(3) lq3] pq2 by (simp add: is_packet_def)
      then have p3: "is_packet h3 (Some q) [q]" "packet_bytes h3 [q] = packet_bytes h2 [q]"
        using packet_same [OF pq2, of h3 "Some q"] keeps_payload [OF h3(3) lq3] keepsD(4) [OF h3(3) lq3] by auto
      have la1: "live h1 q" using pq by (simp add: packet_Cons)
      have "pbuf_coalesce e (Some a) layer h = Inr (Some q, h3)"
        using Some p n(1) h2(1) h3(1) by (simp add: pbuf_coalesce_def at_live q_def)
      moreover have "q \<noteq> a" using dj s by auto
      ultimately show thesis
        using h3(2) p3 b2 n(1) Some single by (intro that [of q h3 "[q]"]) (auto simp: tot q_def)
    qed
  qed
qed

section \<open>Headers\<close>

lemma hide_header:
  \<comment> \<open>the first \<open>k\<close> bytes of a packet are skipped, and brought back\<close>
  assumes "is_packet h (Some a) (a # as)" "own_payload h a" "k \<le> plen h a" "plen h a \<noteq> 0"
    "pb_type (nd h a) = PBUF_RAM \<or> pb_type (nd h a) = PBUF_POOL"
  obtains h' where "pbuf_header (Some a) (- int k) h = Inr (False, h')" "is_packet h' (Some a) (a # as)"
    "packet_bytes h' (a # as) = drop k (packet_bytes h (a # as))"
    "pbuf_header (Some a) (int k) h' = Inr (False, h)" "\<And>ow. owned h ow \<Longrightarrow> owned h' ow"
proof (cases "k = 0")
  case True
  then show thesis using assms(1) by (intro that [of h]) (simp_all add: pbuf_header_def pbuf_header_impl_def)
next
  case False
  note p = assms(1) [unfolded packet_Cons]
  obtain d where d: "pb_payload (nd h a) = Own d" using assms(2) by (auto simp: own_payload_def)
  have ok: "0 \<le> d" "nat d + plen h a \<le> length (pb_mem (nd h a))"
    using p d assms(4) by (auto simp: payload_ok_def block_def)
  let ?f = "\<lambda>b. b\<lparr>pb_payload := Own (d + int k), pb_len := pb_len b - of_nat k, pb_tot_len := pb_tot_len b - of_nat k\<rparr>"
  let ?h = "upd a ?f h"
  have uk: "unat (of_nat k :: u16) = k" using assms(3) u16_bound [of "pb_len (nd h a)"]
    by (simp add: plen_def unsigned_of_nat take_bit_nat_eq_self)
  have l: "unat (pb_len (nd h a) - of_nat k) = plen h a - k"
    using uk assms(3) by (subst unat_sub) (simp_all add: word_le_nat_alt plen_def)
  have t: "unat (pb_tot_len (nd h a) - of_nat k) = unat (pb_tot_len (nd h a)) - k"
    using uk assms(3) p by (subst unat_sub) (simp_all add: word_le_nat_alt)
  have nn: "nd ?h a = ?f (nd h a)" using p by simp
  have no: "nd ?h c = nd h c" if "c \<in> set as" for c
    using that packet_distinct [OF assms(1)] by (cases "c = a") auto
  have hide: "pbuf_header (Some a) (- int k) h = Inr (False, ?h)"
  proof -
    have "int k \<le> uint (pb_len (nd h a))" using assms(3) unfolding plen_def uint_nat by (simp only: of_nat_le_iff)
    then show ?thesis
      using False p d assms(5) ok(1)
      by (auto simp: pbuf_header_def pbuf_header_impl_def at_live Let_def move_payload_def before_struct_end_def)
  qed
  have lp: "lens ?h as = lens h as" using no by (intro same_content_lens) (simp add: same_content_def)
  have pk: "is_packet ?h (pb_next (nd h a)) as"
  proof (rule packet_same)
    show "is_packet h (pb_next (nd h a)) as" using p by blast
    then show "chain_from ?h (pb_next (nd h a)) as" by (intro chain_from_cong [of as h ?h]) (auto simp: no is_packet_def)
  qed (simp add: same_content_def no)
  have py: "payload_ok ?h a" using ok assms(3) l nn
    by (auto simp: payload_ok_def block_def plen_def nat_add_distrib)
  have bytes: "payload_bytes ?h a = drop k (payload_bytes h a)"
    using ok assms(3,4) l nn d
    by (auto simp: payload_bytes_def block_def plen_def nat_add_distrib drop_take add.commute)
  show thesis
  proof (rule that [OF hide])
    show "is_packet ?h (Some a) (a # as)"
      using p pk py lp nn t l assms(3) by (simp add: packet_Cons plen_def)
    have "packet_bytes ?h as = packet_bytes h as" using no by (intro same_content_bytes) (simp add: same_content_def)
    then show "packet_bytes ?h (a # as) = drop k (packet_bytes h (a # as))"
      using bytes assms(3) length_payload p by simp
    have "upd a (\<lambda>b. b\<lparr>pb_payload := Own d, pb_len := pb_len b + of_nat k, pb_tot_len := pb_tot_len b + of_nat k\<rparr>) ?h = h"
      using p d by (simp add: upd_upd) (simp add: upd_edit edit_id)
    then show "pbuf_header (Some a) (int k) ?h = Inr (False, h)"
      using False p d assms(5) ok(1) nn
      by (auto simp: pbuf_header_def pbuf_header_impl_def at_live Let_def move_payload_def before_struct_end_def)
    show "owned ?h ow" if "owned h ow" for ow
      by (rule owned_keep [OF that]) (use p in \<open>auto simp: nd_upd\<close>)
  qed
qed

end
