(* ===== verification/Pbuf_Props.thy ===== *)
theory Pbuf_Props
  imports Pbuf_Writes
begin

text \<open>
  The properties of the packet buffers. A program that keeps the rules of \<open>pbuf.h\<close> (it gives up only
  references it holds, and never chains a packet to itself) is a sequence of \<open>pbuf_step\<close>s from the
  empty heap.
\<close>

section \<open>Programs over packet buffers\<close>

datatype pbuf_op =
    Alloc pbuf_layer u16 pbuf_type
  | AddRef nat
  | Free nat
  | Cat nat nat
  | Chain nat nat
  | Dechain nat
  | Realloc nat u16
  | Header nat int
  | Take nat "byte list" u16
  | PutAt nat u16 byte
  | Copy nat nat
  | Coalesce nat pbuf_layer

fun run_op :: "pbuf_env \<Rightarrow> pbuf_op \<Rightarrow> heap \<Rightarrow> (nat option \<times> heap) result" where
  "run_op e (Alloc layer len type) h = pbuf_alloc e layer len type h"
| "run_op e (AddRef a) h = bindE (pbuf_ref (Some a) h) (\<lambda>h'. Inr (None, h'))"
| "run_op e (Free a) h = bindE (pbuf_free e (Some a) h) (\<lambda>(n, h'). Inr (None, h'))"
| "run_op e (Cat a t) h = bindE (pbuf_cat (Some a) (Some t) h) (\<lambda>h'. Inr (None, h'))"
| "run_op e (Chain a t) h = bindE (pbuf_chain (Some a) (Some t) h) (\<lambda>h'. Inr (None, h'))"
| "run_op e (Dechain a) h = pbuf_dechain e (Some a) h"
| "run_op e (Realloc a n) h = bindE (pbuf_realloc e (Some a) n h) (\<lambda>h'. Inr (None, h'))"
| "run_op e (Header a inc) h = bindE (pbuf_header (Some a) inc h) (\<lambda>(failed, h'). Inr (None, h'))"
| "run_op e (Take a data len) h = bindE (pbuf_take (Some a) (Some data) len h) (\<lambda>(err, h'). Inr (None, h'))"
| "run_op e (PutAt a off d) h = bindE (pbuf_put_at (Some a) off d h) (\<lambda>h'. Inr (None, h'))"
| "run_op e (Copy a b) h = bindE (pbuf_copy (Some a) (Some b) h) (\<lambda>(err, h'). Inr (None, h'))"
| "run_op e (Coalesce a layer) h = pbuf_coalesce e (Some a) layer h"

definition apart :: "heap \<Rightarrow> nat \<Rightarrow> nat \<Rightarrow> bool" where
  \<comment> \<open>two packets with no buffer in common that are not too long together\<close>
  "apart h a t \<longleftrightarrow> (\<exists>as bs. is_packet h (Some a) as \<and> is_packet h (Some t) bs \<and> set as \<inter> set bs = {} \<and>
     lens h as + lens h bs < 65536)"

fun allowed :: "heap \<Rightarrow> nat multiset \<Rightarrow> pbuf_op \<Rightarrow> bool" where
  \<comment> \<open>what the documentation asks of the caller\<close>
  "allowed h ow (Alloc layer len type) \<longleftrightarrow> True"
| "allowed h ow (AddRef a) \<longleftrightarrow> a \<in># ow \<and> pb_ref (nd h a) \<noteq> 0xFFFF"
| "allowed h ow (Free a) \<longleftrightarrow> a \<in># ow"
| "allowed h ow (Cat a t) \<longleftrightarrow> a \<in># ow \<and> t \<in># ow \<and> apart h a t"
| "allowed h ow (Chain a t) \<longleftrightarrow> a \<in># ow \<and> t \<in># ow \<and> apart h a t \<and> pb_ref (nd h t) \<noteq> 0xFFFF"
| "allowed h ow (Dechain a) \<longleftrightarrow> a \<in># ow \<and> (\<exists>bs. is_packet h (Some a) (a # bs) \<and> length bs < 256)"
| "allowed h ow (Realloc a n) \<longleftrightarrow> a \<in># ow \<and> (\<exists>as. is_packet h (Some a) as)"
| "allowed h ow (Header a inc) \<longleftrightarrow> a \<in># ow \<and> storage (pb_type (nd h a)) \<and> (\<exists>d. pb_payload (nd h a) = Own d)"
| "allowed h ow (Take a data len) \<longleftrightarrow> a \<in># ow \<and> unat len \<le> length data \<and> (\<exists>as. is_packet h (Some a) as \<and> writable h as)"
| "allowed h ow (PutAt a off d) \<longleftrightarrow> a \<in># ow \<and> (\<exists>as. is_packet h (Some a) as \<and> writable h as)"
| "allowed h ow (Copy a b) \<longleftrightarrow> a \<in># ow \<and> b \<in># ow \<and>
     (\<exists>as bs. is_packet h (Some a) as \<and> is_packet h (Some b) bs \<and> writable h as \<and> all_filled h as \<and> all_filled h bs \<and>
       set as \<inter> set bs = {})"
| "allowed h ow (Coalesce a layer) \<longleftrightarrow> a \<in># ow \<and> (\<exists>as. is_packet h (Some a) as \<and> all_filled h as)"

fun owners :: "pbuf_op \<Rightarrow> nat option \<Rightarrow> nat multiset \<Rightarrow> nat multiset" where
  \<comment> \<open>the references the program holds afterwards\<close>
  "owners (Alloc layer len type) r ow = ow + link r"
| "owners (AddRef a) r ow = add_mset a ow"
| "owners (Free a) r ow = ow - {#a#}"
| "owners (Cat a t) r ow = ow - {#t#}"
| "owners (Coalesce a layer) r ow = ow - {#a#} + link r"
| "owners _ r ow = ow"

inductive pbuf_step :: "pbuf_env \<Rightarrow> heap \<times> nat multiset \<Rightarrow> heap \<times> nat multiset \<Rightarrow> bool" for e where
  "allowed h ow op \<Longrightarrow> run_op e op h = Inr (r, h') \<Longrightarrow> pbuf_step e (h, ow) (h', owners op r ow)"

inductive_cases pbuf_stepE: "pbuf_step e (h, ow) s'"

definition no_buffers :: heap where
  "no_buffers = \<lparr>hp_pbufs = [], hp_ext = [], hp_pending = False, hp_log = []\<rparr>"

lemma owned_no_buffers: "owned no_buffers {#}"
  by (simp add: owned_def no_buffers_def live_def nexts_def)

section \<open>Every operation keeps the books\<close>

lemma chain_packet:
  assumes "owned h (add_mset t ow)" "apart h a t" "pb_ref (nd h t) \<noteq> 0xFFFF"
  shows "\<exists>h'. pbuf_chain (Some a) (Some t) h = Inr h' \<and> owned h' (add_mset t ow)"
proof -
  obtain as bs where p: "is_packet h (Some a) as" "is_packet h (Some t) bs" "set as \<inter> set bs = {}"
    "lens h as + lens h bs < 65536" using assms(2) by (auto simp: apart_def)
  have l: "live h t" using assms(1) by (simp add: owned_def)
  obtain h1 where h1: "pbuf_cat (Some a) (Some t) h = Inr h1" "owned h1 ow" "live h1 t" "pb_ref (nd h1 t) \<noteq> 0xFFFF"
    by (rule cat_packet [OF p]) (use assms l in auto)
  then show ?thesis using ref_owned [OF h1(2-4)] by (auto simp: pbuf_chain_def)
qed

lemma header_runs:
  assumes "live h a" "storage (pb_type (nd h a))" "pb_payload (nd h a) = Own d" "owned h ow"
  shows "\<exists>failed h'. pbuf_header (Some a) inc h = Inr (failed, h') \<and> owned h' ow"
proof -
  have o: "owned (upd a (\<lambda>b. b\<lparr>pb_payload := q, pb_len := l, pb_tot_len := t\<rparr>) h) ow" for q l t
    by (rule owned_keep [OF assms(4)]) (use assms(1) in \<open>auto simp: nd_upd\<close>)
  have o': "owned (upd a (\<lambda>b. b\<lparr>pb_payload := q, pb_len := pb_len b + l, pb_tot_len := pb_tot_len b + t\<rparr>) h) ow" for q l t
    by (rule owned_keep [OF assms(4)]) (use assms(1) in \<open>auto simp: nd_upd\<close>)
  show ?thesis
    using assms o o' unfolding storage_def
    by (auto simp: pbuf_header_def pbuf_header_impl_def at_live Let_def move_payload_def before_struct_end_def)
qed

lemma op_owned:
  assumes "owned h ow" "allowed h ow op"
  shows "\<exists>r h'. run_op e op h = Inr (r, h') \<and> owned h' (owners op r ow)"
proof (cases op)
  case (Alloc layer len type)
  from alloc_packet [OF assms(1), of e layer len type] show ?thesis
    using Alloc by (auto simp: new_packet_def)
next
  case (AddRef a)
  then have "live h a" using assms owned_live by auto
  then show ?thesis using ref_owned [OF assms(1), of a] assms(2) AddRef by auto
next
  case (Free a)
  then have "owned h (add_mset a (ow - {#a#}))" using assms by simp
  from free_owned [OF this, of e] obtain n h' where "pbuf_free e (Some a) h = Inr (n, h')" "owned h' (ow - {#a#})"
    by metis
  then show ?thesis using Free by simp
next
  case (Cat a t)
  then obtain as bs where p: "is_packet h (Some a) as" "is_packet h (Some t) bs" "set as \<inter> set bs = {}"
    "lens h as + lens h bs < 65536" using assms(2) by (auto simp: apart_def)
  have o: "owned h (add_mset t (ow - {#t#}))" using Cat assms by simp
  obtain h' where "pbuf_cat (Some a) (Some t) h = Inr h'" "owned h' (ow - {#t#})"
    by (rule cat_packet [OF p]) (use o in blast)
  then show ?thesis using Cat by simp
next
  case (Chain a t)
  then have "owned h (add_mset t (ow - {#t#}))" using assms by simp
  from chain_packet [OF this] show ?thesis using Chain assms(2) by fastforce
next
  case (Dechain a)
  then obtain bs where "is_packet h (Some a) (a # bs)" "length bs < 256" "a \<in># ow" using assms(2) by auto
  then obtain q h' where "pbuf_dechain e (Some a) h = Inr (q, h')" "owned h' ow"
    using dechain_packet [OF assms(1), of a bs e] by metis
  then show ?thesis using Dechain by simp
next
  case (Realloc a n)
  then obtain as where "is_packet h (Some a) as" "a \<in># ow" using assms(2) by auto
  then obtain h' where "pbuf_realloc e (Some a) n h = Inr h'" "owned h' ow"
    using realloc_packet [OF assms(1), of a as e n] by metis
  then show ?thesis using Realloc by simp
next
  case (Header a inc)
  then obtain d where "pb_payload (nd h a) = Own d" "storage (pb_type (nd h a))" "live h a"
    using assms owned_live by auto
  then show ?thesis using header_runs [of h a d ow inc] assms(1) Header by auto
next
  case (Take a data len)
  then obtain as where p: "is_packet h (Some a) as" "writable h as" "unat len \<le> length data" using assms(2) by auto
  show ?thesis
  proof (cases "unat len \<le> lens h as")
    case True
    then show ?thesis using take_packet [OF p(1,2) True p(3)] only_mem_owned assms(1) Take by fastforce
  next
    case False
    then show ?thesis using take_too_long [OF p(1)] assms(1) Take by auto
  qed
next
  case (PutAt a off d)
  then obtain as where "is_packet h (Some a) as" "writable h as" using assms(2) by auto
  from put_at_packet [OF this, of off d] show ?thesis using only_mem_owned assms(1) PutAt by fastforce
next
  case (Copy a b)
  then obtain as bs where p: "is_packet h (Some a) as" "is_packet h (Some b) bs" "writable h as" "all_filled h as"
    "all_filled h bs" "set as \<inter> set bs = {}" using assms(2) by auto
  show ?thesis
  proof (cases "lens h bs \<le> lens h as")
    case True
    then show ?thesis using copy_packet [OF p True] only_mem_owned assms(1) Copy by fastforce
  next
    case False
    obtain as' bs' where s: "as = a # as'" "bs = b # bs'" using packet_Some p(1,2) by metis
    then have "\<not> pb_tot_len (nd h b) \<le> pb_tot_len (nd h a)" "live h a" "live h b"
      using p(1,2) False by (auto simp: packet_Cons word_le_nat_alt)
    then have "pbuf_copy (Some a) (Some b) h = Inr (ERR_ARG, h)" by (simp add: pbuf_copy_def at_live)
    then show ?thesis using assms(1) Copy by auto
  qed
next
  case (Coalesce a layer)
  then obtain as where "is_packet h (Some a) as" "all_filled h as" using assms(2) by auto
  moreover have "owned h (add_mset a (ow - {#a#}))" using Coalesce assms by simp
  ultimately obtain q h' where "pbuf_coalesce e (Some a) layer h = Inr (Some q, h')" "owned h' (add_mset q (ow - {#a#}))"
    using coalesce_packet [of h a "ow - {#a#}" as e layer] by metis
  then show ?thesis using Coalesce by simp
qed

lemma steps_owned: "(pbuf_step e)\<^sup>*\<^sup>* s s' \<Longrightarrow> owned (fst s) (snd s) \<Longrightarrow> owned (fst s') (snd s')"
proof (induction rule: rtranclp_induct)
  case (step s1 s2)
  from step.hyps(2) show ?case
  proof cases
    case (1 h ow op r h')
    then have "owned h ow" using step by simp
    from op_owned [OF this 1(3), of e] 1 show ?thesis by auto
  qed
qed simp

section \<open>Examples\<close>

definition example_env :: pbuf_env where
  "example_env = \<lparr>pe_mem = (\<lambda>h n. n < 2000),
     pe_junk = (\<lambda>h. \<lparr>pb_next = Some 7, pb_payload = NoPayload, pb_tot_len = 9, pb_len = 9, pb_type = PBUF_ROM,
        pb_flags = 1, pb_ref = 5, pb_l2_owner = None, pb_l2_buf = None, pb_mem = []\<rparr>),
     pe_notify = (\<lambda>n. False), pe_callback = (\<lambda>h. True)\<rparr>"

definition example_heap :: heap where
  \<comment> \<open>a packet of two buffers with the bytes 1 to 5\<close>
  "example_heap = \<lparr>hp_pbufs =
     [Some \<lparr>pb_next = Some 1, pb_payload = Own 2, pb_tot_len = 5, pb_len = 2, pb_type = PBUF_RAM, pb_flags = 0,
        pb_ref = 1, pb_l2_owner = None, pb_l2_buf = None, pb_mem = [0, 0, 1, 2, 9]\<rparr>,
      Some \<lparr>pb_next = None, pb_payload = Own 0, pb_tot_len = 3, pb_len = 3, pb_type = PBUF_POOL, pb_flags = 0,
        pb_ref = 1, pb_l2_owner = None, pb_l2_buf = None, pb_mem = [3, 4, 5]\<rparr>],
     hp_ext = [], hp_pending = False, hp_log = []\<rparr>"

lemma example_live: "live example_heap a \<longleftrightarrow> a = 0 \<or> a = 1"
  by (auto simp: live_def example_heap_def nth_Cons' less_Suc_eq)

lemma example_nd [simp]:
  "pb_next (nd example_heap 0) = Some 1" "pb_payload (nd example_heap 0) = Own 2" "pb_tot_len (nd example_heap 0) = 5"
  "pb_mem (nd example_heap 0) = [0, 0, 1, 2, 9]" "pb_ref (nd example_heap 0) = 1"
  "pb_next (nd example_heap (Suc 0)) = None" "pb_payload (nd example_heap (Suc 0)) = Own 0"
  "pb_tot_len (nd example_heap (Suc 0)) = 3" "pb_mem (nd example_heap (Suc 0)) = [3, 4, 5]"
  "pb_ref (nd example_heap (Suc 0)) = 1"
  "plen example_heap 0 = 2" "plen example_heap (Suc 0) = 3"
  by (simp_all add: nd_def example_heap_def plen_def)

lemma example_payload [simp]: "own_payload example_heap 0" "own_payload example_heap (Suc 0)"
  by (simp_all add: own_payload_def payload_ok_def block_def)

lemma example_packet: "is_packet example_heap (Some 0) [0, Suc 0]"
  using example_payload by (simp add: is_packet_def example_live own_payload_def)

lemma example_bytes: "packet_bytes example_heap [0, Suc 0] = [1, 2, 3, 4, 5]" "lens example_heap [0, Suc 0] = 5"
  by (simp_all add: payload_bytes_def block_def)

lemma example_writable: "writable example_heap [0, Suc 0]" "all_filled example_heap [0, Suc 0]"
  by simp_all

lemma example_owned: "owned example_heap {#0#}"
proof (rule ownedI)
  have n: "nexts example_heap = {#1#}" by (simp add: nexts_def link_of_def example_heap_def)
  fix a
  show "live example_heap a \<longleftrightarrow> a \<in># {#0#} + nexts example_heap" by (auto simp: n example_live)
  assume l: "live example_heap a"
  then show "unat (pb_ref (nd example_heap a)) = count ({#0#} + nexts example_heap) a"
    by (auto simp: n example_live)
  have "chain_from example_heap (Some 0) [0, Suc 0]" "chain_from example_heap (Some (Suc 0)) [Suc 0]"
    by (simp_all add: example_live)
  then show "\<exists>as. chain_from example_heap (Some a) as" using l unfolding example_live One_nat_def by blast
qed

section \<open>Properties\<close>

text \<open>C17. Whatever a program does with packet buffers that keeps the rules, no operation faults, every
  counter is exactly the number of references to its buffer, every buffer can still be reached from
  what the program holds, and when it has given up everything all memory is free.\<close>
theorem buffers_accounted:
  assumes "(pbuf_step e)\<^sup>*\<^sup>* (no_buffers, {#}) (h, ow)"
  shows "(\<forall>a. live h a \<longleftrightarrow> reaches h ow a) \<and>
    (\<forall>a. live h a \<longrightarrow> unat (pb_ref (nd h a)) = count (ow + nexts h) a) \<and>
    (ow = {#} \<longrightarrow> live_count h = 0) \<and>
    (\<forall>op. allowed h ow op \<longrightarrow> (\<exists>r h'. run_op e op h = Inr (r, h')))"
proof -
  have o: "owned h ow" using steps_owned [OF assms] owned_no_buffers by simp
  have "live h a \<longleftrightarrow> reaches h ow a" for a using owned_reached [OF o] reached_live by blast
  moreover have "live_count h = 0" if "ow = {#}" using owned_none o that by (simp add: live_count_card)
  ultimately show ?thesis using owned_ref [OF o] op_owned [OF o] by blast
qed

lemma example_run: "\<exists>h'. (pbuf_step example_env)\<^sup>*\<^sup>* (no_buffers, {#}) (h', {#}) \<and> length (hp_pbufs h') = 1"
proof -
  obtain h1 where a: "run_op example_env (Alloc PBUF_LINK 10 PBUF_RAM) no_buffers = Inr (Some 0, h1)"
    "length (hp_pbufs h1) = 1"
    by (simp add: pbuf_alloc_def alloc_ram_def new_pbuf_def example_env_def no_buffers_def layer_offset_def
        PBUF_LINK_ENCAPSULATION_HLEN_def PBUF_LINK_HLEN_def LWIP_MEM_ALIGN_SIZE_def Let_def)
  then have s1: "pbuf_step example_env (no_buffers, {#}) (h1, {#0#})"
    using pbuf_step.intros [OF _ a(1), of "{#}"] by simp
  have "owned h1 {#0#}" using steps_owned [of example_env "(no_buffers, {#})" "(h1, {#0#})"] s1 owned_no_buffers by auto
  then obtain n h2 where f: "pbuf_free example_env (Some 0) h1 = Inr (n, h2)" "keeps h1 h2" by (rule free_owned)
  then have "pbuf_step example_env (h1, {#0#}) (h2, {#})"
    using pbuf_step.intros [of h1 "{#0#}" "Free 0" example_env None h2] by simp
  with s1 have "(pbuf_step example_env)\<^sup>*\<^sup>* (no_buffers, {#}) (h2, {#})" by auto
  moreover have "length (hp_pbufs h2) = 1" using a(2) f(2) by (simp add: keeps_def)
  ultimately show ?thesis by blast
qed

theorem buffers_accounted_witness:
  "\<exists>h'. (pbuf_step example_env)\<^sup>*\<^sup>* (no_buffers, {#}) (h', {#}) \<and> length (hp_pbufs h') = 1 \<and> live_count h' = 0"
  using example_run buffers_accounted [of example_env _ "{#}"] by blast

text \<open>Freeing gives up one reference: exactly the buffers that nothing else reaches go, the others
  keep everything but their counters, and the result is the number of buffers that went.\<close>
theorem pbuf_free_releases:
  assumes "owned h (add_mset a ow)"
  shows "\<exists>n h'. pbuf_free e (Some a) h = Inr (n, h') \<and> owned h' ow \<and>
    (\<forall>c. live h' c \<longleftrightarrow> reaches h ow c) \<and> n = of_nat (card {c. live h c \<and> \<not> live h' c}) \<and>
    (\<forall>c. live h' c \<longrightarrow> body (nd h' c) = body (nd h c))"
proof -
  obtain n h' where f: "pbuf_free e (Some a) h = Inr (n, h')" "owned h' ow" "keeps h h'"
    "n = of_nat (live_count h - live_count h')" using free_owned [OF assms] .
  moreover have "live h' c \<longleftrightarrow> reaches h ow c" for c using keeps_reaches [OF f(3,2)] by simp
  moreover have "\<forall>c. live h' c \<longrightarrow> body (nd h' c) = body (nd h c)" using f(3) by (simp add: keeps_def)
  ultimately show ?thesis by (auto simp: live_count_diff)
qed

theorem pbuf_free_releases_witness:
  "\<exists>n h'. pbuf_free example_env (Some 0) example_heap = Inr (n, h') \<and> owned h' {#}"
  using pbuf_free_releases [of example_heap 0 "{#}" example_env] example_owned by auto

text \<open>C18. A successful allocation is a chain of new buffers with right total lengths that holds the bytes
  asked for, every one inside the memory of its buffer, with room for the headers of the layer in front;
  a failed one leaves every buffer as it was. Neither touches a buffer that was there.\<close>
theorem pbuf_alloc_fits:
  assumes "owned h ow"
  shows "(\<exists>h'. pbuf_alloc e layer len type h = Inr (None, h') \<and> owned h' ow \<and> same_heap h h') \<or>
    (\<exists>as h'. pbuf_alloc e layer len type h = Inr (Some (hd as), h') \<and> owned h' (add_mset (hd as) ow) \<and>
       chain_from h' (Some (hd as)) as \<and> tots_ok h' as \<and> lens h' as = unat len \<and> extends h h' \<and>
       (\<forall>a\<in>set as. length (hp_pbufs h) \<le> a) \<and>
       (storage type \<longrightarrow> (\<forall>a\<in>set as. own_payload h' a) \<and> has_room h' (hd as) (layer_offset layer)))"
  using alloc_packet [OF assms, of e layer len type] by (simp only: new_packet_def fresh_chain_def) blast

theorem pbuf_alloc_fits_witness:
  "\<exists>p h'. pbuf_alloc example_env PBUF_TRANSPORT 4000 PBUF_POOL no_buffers = Inr (p, h') \<and> owned h' (link p)"
  using pbuf_alloc_fits [OF owned_no_buffers, of example_env PBUF_TRANSPORT 4000 PBUF_POOL] by fastforce

text \<open>C22. Searching in a packet finds the first place at or behind the start where the bytes occur, however
  the packet is cut into buffers, and \<open>0xFFFF\<close> when there is none.\<close>
theorem pbuf_finds_first:
  assumes "is_packet h p as" "p \<noteq> None" "lens h as < 65535" "cs \<noteq> []" "length cs < 65535"
  shows "pbuf_memfind p cs (of_nat (length cs)) start h = Inr (find_in (packet_bytes h as) cs (unat start)) \<and>
    pbuf_strstr p (Some cs) h = Inr (find_in (packet_bytes h as) cs 0)"
proof
  show "pbuf_memfind p cs (of_nat (length cs)) start h = Inr (find_in (packet_bytes h as) cs (unat start))"
    using assms(4,5) by (intro memfind_packet [OF assms(1-3)]) (simp_all add: unsigned_of_nat take_bit_nat_eq_self)
  show "pbuf_strstr p (Some cs) h = Inr (find_in (packet_bytes h as) cs 0)" by (rule strstr_packet [OF assms])
qed

lemma example_find: "find_in [1, 2, 3, 4, 5] [2, 3] 0 = 1" "find_in [1, 2, 3, 4, 5] [5, 3] 0 = 0xFFFF"
  by (simp_all add: find_in_def occurs_at_def upt_rec)

theorem pbuf_finds_first_witness:
  "pbuf_memfind (Some 0) [2, 3] 2 0 example_heap = Inr 1 \<and> pbuf_strstr (Some 0) (Some [5, 3]) example_heap = Inr 0xFFFF"
  using pbuf_finds_first [OF example_packet, of "[2, 3]" 0] pbuf_finds_first [OF example_packet, of "[5, 3]" 0]
  by (simp add: example_bytes example_find del: lens_simps packet_bytes_simps)

text \<open>C20. Bytes written into the middle of a packet, across buffers, are read back from there; every other
  byte stays, and no buffer gets another length, link or owner.\<close>
theorem pbuf_write_read_back:
  assumes "is_packet h p as" "writable h as" "unat off < lens h as" "unat off + unat len \<le> lens h as"
    "unat len \<le> length data" "unat len \<le> length dst" "p \<noteq> None"
  shows "\<exists>h'. pbuf_take_at p data len off h = Inr (ERR_OK, h') \<and> is_packet h' p as \<and> only_mem h h' as \<and>
    packet_bytes h' as = overwrite (packet_bytes h as) (unat off) (take (unat len) data) \<and>
    pbuf_copy_partial p (Some dst) len off h' = Inr (len, Some (overwrite dst 0 (take (unat len) data)))"
proof -
  obtain h' where h': "pbuf_take_at p data len off h = Inr (ERR_OK, h')" "only_mem h h' as"
    "packet_bytes h' as = overwrite (packet_bytes h as) (unat off) (take (unat len) data)"
    using take_at_packet [OF assms(1-5)] by auto
  have p: "is_packet h' p as" by (rule only_mem_packet [OF h'(2) assms(1)])
  have l: "lens h' as = lens h as" by (rule only_mem_lens [OF h'(2) packet_live [OF assms(1)]])
  have m: "min (unat len) (lens h' as - unat off) = unat len" using l assms(4) by simp
  have b: "take (unat len) (drop (unat off) (packet_bytes h' as)) = take (unat len) data"
    using take_drop_overwrite [of "unat off" "take (unat len) data" "packet_bytes h as"] assms(4,5)
      length_packet [OF assms(1)] by (simp add: h'(3))
  have "pbuf_copy_partial p (Some dst) len off h' = Inr (len, Some (overwrite dst 0 (take (unat len) data)))"
    using copy_partial_packet [OF p assms(7), of len off dst] assms(6) by (simp add: m b)
  with h' p show ?thesis by blast
qed

theorem pbuf_write_read_back_witness:
  "\<exists>h'. pbuf_take_at (Some 0) [8, 9] 2 1 example_heap = Inr (ERR_OK, h') \<and>
    packet_bytes h' [0, Suc 0] = [1, 8, 9, 4, 5] \<and>
    pbuf_copy_partial (Some 0) (Some [0, 0]) 2 1 h' = Inr (2, Some [8, 9])"
  using pbuf_write_read_back [OF example_packet example_writable(1), of 1 2 "[8, 9]" "[0, 0]"]
  by (auto simp: example_bytes overwrite_def simp del: lens_simps packet_bytes_simps)

text \<open>C21. Shrinking a packet keeps the first bytes, fixes every total length, and gives up the reference to
  the buffers behind; asking for more than there is changes nothing.\<close>
theorem pbuf_realloc_keeps_prefix:
  assumes "owned h ow" "a \<in># ow" "is_packet h (Some a) as"
  shows "\<exists>as' h'. pbuf_realloc e (Some a) new_len h = Inr h' \<and> owned h' ow \<and> is_packet h' (Some a) as' \<and>
    packet_bytes h' as' = take (unat new_len) (packet_bytes h as) \<and> lens h' as' = min (unat new_len) (lens h as)"
  by (rule realloc_packet [OF assms, of e new_len]) blast

theorem pbuf_realloc_keeps_prefix_witness:
  "\<exists>as' h'. pbuf_realloc example_env (Some 0) 3 example_heap = Inr h' \<and> owned h' {#0#} \<and>
    is_packet h' (Some 0) as' \<and> packet_bytes h' as' = [1, 2, 3]"
  using pbuf_realloc_keeps_prefix [OF example_owned _ example_packet, of example_env 3]
  by (auto simp: example_bytes simp del: lens_simps packet_bytes_simps)

text \<open>C19. Coalescing a packet none of whose buffers is empty gives a packet with the same bytes; the reference to
  the old packet is traded for one to the new, so that nothing leaks. A packet of one buffer is left as it
  is. A longer one becomes the one buffer that \<open>pbuf_alloc\<close> gives for its length; only if there is no memory
  for that it stays as it is. (An empty buffer makes \<open>pbuf_copy\<close> fail an assertion.)\<close>
theorem pbuf_coalesce_keeps_bytes:
  assumes "owned h (add_mset a ow)" "is_packet h (Some a) as" "all_filled h as"
  shows "\<exists>q bs h'. pbuf_coalesce e (Some a) layer h = Inr (Some q, h') \<and> owned h' (add_mset q ow) \<and>
    is_packet h' (Some q) bs \<and> packet_bytes h' bs = packet_bytes h as \<and>
    (if as = [a] then q = a \<and> bs = as \<and> h' = h
     else case pbuf_alloc e layer (of_nat (lens h as)) PBUF_RAM h of
         Inr (Some n, _) \<Rightarrow> q = n \<and> q \<noteq> a \<and> bs = [q]
       | _ \<Rightarrow> q = a \<and> bs = as)"
proof -
  obtain q bs h' where c: "pbuf_coalesce e (Some a) layer h = Inr (Some q, h')" "owned h' (add_mset q ow)"
    "is_packet h' (Some q) bs" "packet_bytes h' bs = packet_bytes h as"
    "as = [a] \<Longrightarrow> q = a \<and> bs = as \<and> h' = h"
    "as \<noteq> [a] \<Longrightarrow> case pbuf_alloc e layer (of_nat (lens h as)) PBUF_RAM h of
       Inr (Some n, _) \<Rightarrow> q = n \<and> q \<noteq> a \<and> bs = [q] | _ \<Rightarrow> q = a \<and> bs = as"
    using coalesce_packet [OF assms, of e layer] by metis
  show ?thesis by (intro exI [of _ q] exI [of _ bs] exI [of _ h']) (use c in \<open>simp split del: option.split\<close>)
qed

theorem pbuf_coalesce_keeps_bytes_witness:
  "\<exists>q bs h'. pbuf_coalesce example_env (Some 0) PBUF_IP example_heap = Inr (Some q, h') \<and>
    is_packet h' (Some q) bs \<and> packet_bytes h' bs = [1, 2, 3, 4, 5]"
  using pbuf_coalesce_keeps_bytes [OF _ example_packet example_writable(2), of "{#}" example_env PBUF_IP] example_owned
  by (auto simp: example_bytes simp del: lens_simps packet_bytes_simps)

text \<open>Joining two packets with no buffer in common gives the bytes of both in order; the reference to the
  second passes to the chain.\<close>
theorem pbuf_cat_joins:
  assumes "is_packet h (Some a) as" "is_packet h (Some t) bs" "set as \<inter> set bs = {}" "lens h as + lens h bs < 65536"
  shows "\<exists>h'. pbuf_cat (Some a) (Some t) h = Inr h' \<and> is_packet h' (Some a) (as @ bs) \<and>
    packet_bytes h' (as @ bs) = packet_bytes h as @ packet_bytes h bs \<and>
    (\<forall>ow. owned h (add_mset t ow) \<longrightarrow> owned h' ow)"
  by (rule cat_packet [OF assms]) blast

end
