(* ===== verification/Spec2Isabelle.thy ===== *)
theory Spec2Isabelle
  imports Upload_Props Appfs_Props Listing_Props Dev_Props Gui_Props Boot_Props Dhcp_Failures Dhcp_Handshake Adapter_Props Timers_Props Ip4_Addr_Props Inet_Chksum_Props Pbuf_Props
begin

text \<open>
  A verification library for the firmware of the PocketSprite's application chooser: the program in
  \<open>main/\<close> that shows the menu, takes applications over WiFi and starts them, and the parts of the
  network stack in \<open>components/\<close> that give the device its network: the adapter between the SDK and
  lwIP, the DHCP server and client, the interfaces, timers, packet buffers, checksums and addresses.
  The definitions are translated from the C code in the configuration of this device (\<open>sdkconfig\<close>,
  \<open>lwipopts.h\<close>), function by function and under the names of the code; the theorems are about them.

  \<^bold>\<open>The program and its parts.\<close>
  \<open>app_main\<close> (\<open>main/main.c\<close>) shows the charging screen, honours the key lock, removes temporary files,
  may go to the recovery menu, and starts the access point, the adapter and the web server. A phone that
  joins gets its address from the DHCP server; the DHCP client is for networks the device joins itself.
  The web server (libesphttpd, not in this repository) calls the handlers of \<open>main/cgiappfs.c\<close> and
  \<open>main/cgidev.c\<close>; the user meanwhile uses the menu of \<open>main/gui.c\<close>. The adapter
  (\<open>tcpip_adapter_lwip.c\<close>) adds, starts and stops interfaces (\<open>netif.c\<close>), runs the server
  (\<open>dhcpserver.c\<close>) and the clients (\<open>dhcp.c\<close>), and reports events. The stack's thread runs the timeouts of
  \<open>timers.c\<close>, which tick the client; packets are the buffer chains of \<open>pbuf.c\<close>, summed by
  \<open>inet_chksum.c\<close>.

  \<^bold>\<open>Conventions\<close> (\<open>Prelude\<close>).
  A structure is a record, its fields in the order of the code; an enumeration is a datatype; \<open>u8\<close>, \<open>u16\<close>
  and \<open>u32\<close> are words of their width, so arithmetic wraps where the code's does. A function that can go
  wrong has the type \<open>'a result\<close>: \<open>Inl\<close> is a fault of C (a read or write outside an object, a null or freed
  pointer, a failed assertion, a loop that never ends), \<open>Inr\<close> a value with the new state; error codes are
  values. Code that is not in the repository is a parameter (a record of functions, or oracles that are
  asked by the count of questions), and calls that only produce output are recorded in order; laws about
  such code are named hypotheses, and each has a concrete instance (\<open>Demo_Fs\<close>, the witnesses).

  \<^bold>\<open>Theories.\<close>

  \<^item> \<open>Prelude\<close>, \<open>Byte_Stream\<close>: faults, buffers and C library functions; the locale of a consumer of a byte
    stream in pieces, whose outcome does not depend on the pieces.
  \<^item> \<open>Http_Api\<close>, \<open>Demo_Fs\<close>: web server, application file system, NVS and flash as parameters; a small file
    system for the witnesses.
  \<^item> \<open>Upload_Cgi\<close>, \<open>Upload_Correct\<close>, \<open>Upload_Props\<close>: \<open>cgiUploadFile\<close>; memory safety, independence of the pieces,
    the file that is stored, and what failing writes report.
  \<^item> \<open>Chunked_Transfer\<close>, \<open>Appfs_Cgi\<close>, \<open>Appfs_Props\<close>, \<open>Listing_Props\<close>, \<open>Dev_Cgi\<close>, \<open>Dev_Props\<close>: the locale of a download
    in pieces and its three instances \<open>cgiDownloadFile\<close>, \<open>cgiDownloadFlash\<close>, \<open>cgiDownloadLog\<close>; \<open>cgiFileIdx\<close>,
    \<open>json_esc\<close>, \<open>cgiDelete\<close>. What arrives, and the escaping of names as a round trip.
  \<^item> \<open>Gui\<close>, \<open>Gui_Props\<close>, \<open>Boot\<close>, \<open>Boot_Props\<close>: \<open>main/gui.c\<close> and \<open>main/main.c\<close>; pictures inside their data, the menus and
    their exits, the way from power-on to the running server.
  \<^item> \<open>Net_Addr\<close>, \<open>Ip4_Addr\<close>, \<open>Ip4_Addr_Props\<close>: \<open>def.c\<close>, \<open>ip4_addr.h\<close>, \<open>ip4_addr.c\<close>; byte order, addresses as text and
    back, netmasks, broadcast addresses.
  \<^item> \<open>Netif\<close>, \<open>Netif_Props\<close>: \<open>netif.c\<close> and the drivers' initialisation and reception; the linked list of
    interfaces as a list, and the circle that adding one twice closes.
  \<^item> \<open>Dhcp_Leases\<close>, \<open>Dhcp_Server\<close>, \<open>Dhcp_Choice\<close>, \<open>Dhcp_Lease_Proofs\<close>, \<open>Dhcp_Options\<close>, \<open>Dhcp_Answers\<close>, \<open>Dhcp_Pool\<close>,
    \<open>Dhcp_Props\<close>, \<open>Dhcp_Failures\<close>: \<open>apps/dhcpserver.c\<close>. The lease list as an instance of the locale of a lease
    table, the choice of an address, the reading of options and the bytes of answers, the pool; leases
    stay apart in every reachable state if the pool does not end in 255, clients are answered, and the packets and
    the pool with which the server fails.
  \<^item> \<open>Dhcp_Client_Msg\<close>, \<open>Dhcp_Client_Rx\<close>, \<open>Dhcp_Client\<close>: \<open>core/ipv4/dhcp.c\<close>: building a message
    (\<open>dhcp_create_msg\<close>, \<open>dhcp_option\<close> and its kin), reading one (\<open>dhcp_parse_reply\<close>), the state machine, its timers and
    its callers. \<open>Dhcp_Client_Sends\<close> gives every message as one equation, \<open>Dhcp_Client_Reads\<close> the reading as that
    of a flat list of bytes; \<open>Dhcp_Client_Steps\<close>, \<open>Dhcp_Client_Inv\<close>, \<open>Dhcp_Client_Safe\<close>, \<open>Dhcp_Client_Ops\<close> and
    \<open>Dhcp_Client_Api\<close> show that every operation keeps the invariant and returns, under the rules of \<open>op_allowed\<close> (which
    packets are taken, most of all); \<open>Dhcp_Client_Props\<close> has the properties and the replies, excluded there, with
    which the client goes wrong.
  \<^item> \<open>Dhcp_Wire\<close>, \<open>Dhcp_Handshake\<close>: the client of \<open>dhcp.c\<close> against the server of \<open>dhcpserver.c\<close>, byte for byte:
    what each sends the other can read, and four messages end with the client bound to the address the
    server has leased to it.
  \<^item> \<open>Tcpip_Adapter\<close>, \<open>Adapter_Services\<close>, \<open>Adapter_Inv\<close>, \<open>Adapter_Keeps\<close>, \<open>Adapter_Steps\<close>, \<open>Adapter_Refine\<close>,
    \<open>Adapter_Total\<close>, \<open>Adapter_Props\<close>: \<open>tcpip_adapter_lwip.c\<close> over interfaces, server and name server table (\<open>dns.c\<close>); the
    invariant of its reachable states under the callers' rules of \<open>op_ok\<close>, the refinement of the machine of its links
    with every return code, that the operations return, what breaks without the rules, the address events.
  \<^item> \<open>Timers\<close>, \<open>Timers_Props\<close>: \<open>timers.c\<close>; the list of differences refines an agenda of absolute times, which is
    an instance of the locale of a timer service; the stack's timers are punctual.
  \<^item> \<open>Inet_Chksum\<close>, \<open>Inet_Chksum_Sums\<close>, \<open>Inet_Chksum_Props\<close>: \<open>inet_chksum.c\<close>; its three algorithms compute the ones'
    complement sum, over chains too; a partial sum's assertion depends on how the chain is cut.
  \<^item> \<open>Pbuf\<close>, \<open>Pbuf_Ops\<close>, \<open>Pbuf_Chains\<close>, \<open>Pbuf_Owners\<close>, \<open>Pbuf_New\<close>, \<open>Pbuf_Shape\<close>, \<open>Pbuf_Reads\<close>, \<open>Pbuf_Writes\<close>, \<open>Pbuf_Props\<close>: \<open>pbuf.c\<close>
    over a heap; the reference counts, the bytes of a packet, and what each operation does to both.

  \<^bold>\<open>Loops, bounds and fuel.\<close>
  A loop that ends is a function with its measure. A loop along pointers, or over bytes an attacker
  chooses, is a \<open>partial_function (option)\<close>; not ending is the value \<open>None\<close>, which the calling function
  turns into the fault \<open>Hang\<close>, so that a theorem with the result \<open>Inr\<close> says that the code returns. A loop
  that waits for the user or the web server takes the list of what will happen, and theorems that speak of
  its end assume only that the awaited event is in the list. The bounds in the statements are those of the code: an upload
  fills 64 KiB pages, an escaped name of the listing has 128 bytes, a download sends 1024 bytes at a time, the DHCP server's messages
  have room for what it writes if the packet is shorter than its message, the client's messages have 68
  bytes of options (enough for a hostname of 32 characters, the adapter's limit), and replies are taken
  up to 65000 bytes, below the wrap of their 16-bit offsets.

  \<^bold>\<open>Not modelled.\<close>

  \<^item> \<open>core/tcp*.c\<close>, \<open>udp.c\<close>, \<open>raw.c\<close>, \<open>ip.c\<close>, \<open>ipv4/ip4.c\<close>, \<open>ip_frag.c\<close>, \<open>icmp.c\<close>, \<open>igmp.c\<close>, \<open>netif/etharp.c\<close> and \<open>ethernet.c\<close>: the
    transport and network layers. The components above call a few of their functions, which are recorded calls
    (\<open>udp_sendto_if\<close>, \<open>etharp_gratuitous\<close>, \<open>tcp_netif_ipv4_addr_changed\<close>). They come unchanged from lwIP; the chooser's own
    behaviour does not depend on more of them.
  \<^item> \<open>core/dns.c\<close> but for the table of servers: the chooser never resolves a name.
  \<^item> \<open>api/\<close> (sockets, netconn, \<open>tcpip.c\<close>) and \<open>port/freertos\<close>, \<open>port/vfs_lwip.c\<close>, \<open>core/sys.c\<close>: threads, mailboxes and semaphores
    of FreeRTOS; the stack runs in one thread, and the models are of that thread.
  \<^item> \<open>core/mem.c\<close>, \<open>memp.c\<close>, \<open>stats.c\<close>, \<open>init.c\<close>: with \<open>MEM_LIBC_MALLOC\<close>, \<open>MEMP_MEM_MALLOC\<close> and no statistics these are calls of the C
    library or checks of the preprocessor; whether memory is there is an oracle of each model.
  \<^item> \<open>core/ipv6\<close>, \<open>netif/ppp\<close>, \<open>netif/slipif.c\<close>, \<open>netif/lowpan6.c\<close>, \<open>ipv4/autoip.c\<close>: not compiled (\<open>LWIP_IPV6\<close> is 0, PPP and AutoIP are off) or never called.
  \<^item> \<open>apps/sntp\<close>, \<open>apps/ping\<close>: applications the chooser does not start.
  \<^item> \<open>main/cgi.c\<close>: its handlers are commented out; what is left are two timer callbacks that call the SDK and that nothing sets.
  \<^item> \<open>components/libesphttpd\<close> (a submodule, empty here), the SDK, \<open>html/\<close>, the pictures and the build files.
  \<^item> Within modelled files: code another configuration would compile (IPv6, loop interfaces, the ARP check
    of an offered address, AutoIP, boot files, NTP), and debug output.
\<close>

end
